(* ===== verification/Prelude.thy ===== *)
theory Prelude
  imports Main "HOL-Library.Word" "HOL-Library.Monad_Syntax"
begin

text \<open>
  Shared vocabulary of the development: the C integer types, the two readings of a C
  \<open>char\<close> (HOL's \<open>char\<close> is exactly one byte), the string literals with characters outside
  ASCII, the theorem collections, and the generic lemmas on lists that several components use.
  C strings are values of type \<open>string\<close> (the bytes before the terminating NUL).
\<close>

unbundle bit_operations_syntax

section \<open>Integer types\<close>

type_synonym u8 = "8 word"
type_synonym u16 = "16 word"
type_synonym u32 = "32 word"
type_synonym u64 = "64 word"
type_synonym i32 = "32 word"
type_synonym i64 = "64 word"

text \<open>Limits from \<open>limits.h\<close> on the LP64 target (x86_64).\<close>

definition INT_MAX :: int where "INT_MAX = 2147483647"
definition INT_MIN :: int where "INT_MIN = - 2147483648"
definition LONG_MAX :: int where "LONG_MAX = 9223372036854775807"
definition LONG_MIN :: int where "LONG_MIN = - 9223372036854775808"
definition ULONG_MAX :: nat where "ULONG_MAX = 18446744073709551615"

text \<open>Sums, differences and products of \<open>size_t\<close> / \<open>unsigned long\<close> values kept as
  natural numbers, with the wrap-around at 64 bits written out.\<close>

definition add64 :: "nat \<Rightarrow> nat \<Rightarrow> nat" where
  "add64 a b = (a + b) mod 2 ^ 64"

definition sub64 :: "nat \<Rightarrow> nat \<Rightarrow> nat" where
  "sub64 a b = (a + (2 ^ 64 - b)) mod 2 ^ 64"

definition mul64 :: "nat \<Rightarrow> nat \<Rightarrow> nat" where
  "mul64 a b = (a * b) mod 2 ^ 64"

lemma add64_small: "a + b < 2 ^ 64 \<Longrightarrow> add64 a b = a + b"
  by (simp add: add64_def)

lemma sub64_small:
  assumes "b \<le> a" "a < 2 ^ 64" shows "sub64 a b = a - b"
proof -
  have e: "a + (2 ^ 64 - b) = (a - b) + 2 ^ 64" using assms by simp
  have "(a - b) + 2 ^ 64 < 2 * 2 ^ 64" using assms by simp
  then show ?thesis using assms unfolding sub64_def e by (simp add: mod_if)
qed

lemma mul64_small: "a * b < 2 ^ 64 \<Longrightarrow> mul64 a b = a * b"
  by (simp add: mul64_def)

lemma wrap64_bound [simp, intro]:
  "add64 a b < 2 ^ 64" "sub64 a b < 2 ^ 64" "mul64 a b < 2 ^ 64"
  by (simp_all add: add64_def sub64_def mul64_def)

section \<open>Characters\<close>

text \<open>\<open>char\<close> is signed on x86_64: \<open>schar\<close> is the value of a \<open>char\<close> lvalue promoted to
  \<open>int\<close>, \<open>uchar\<close> the value after a cast to \<open>unsigned char\<close>.\<close>

abbreviation NUL :: char where "NUL \<equiv> CHR 0x00"

definition uchar :: "char \<Rightarrow> int" where
  "uchar c = of_char c"

definition schar :: "char \<Rightarrow> int" where
  "schar c = (if uchar c < 128 then uchar c else uchar c - 256)"

text \<open>The conversion of an \<open>int\<close> to \<open>char\<close> or \<open>unsigned char\<close>: reduction modulo 256.\<close>

definition to_char :: "int \<Rightarrow> char" where
  "to_char v = char_of (v mod 256)"

lemma uchar_bounds: "0 \<le> uchar c" "uchar c < 256"
  by (cases c; simp add: uchar_def)+

lemma uchar_inj [simp]: "uchar a = uchar b \<longleftrightarrow> a = b"
  by (simp add: uchar_def)

lemma uchar_to_char [simp]: "uchar (to_char v) = v mod 256"
  by (simp add: uchar_def to_char_def)

lemma to_char_uchar [simp]: "to_char (uchar c) = c"
proof -
  have "uchar c mod 256 = uchar c" using uchar_bounds [of c] by simp
  then have "uchar (to_char (uchar c)) = uchar c" by simp
  then show ?thesis unfolding uchar_inj .
qed

lemma schar_inj [simp]: "schar a = schar b \<longleftrightarrow> a = b"
proof
  assume e: "schar a = schar b"
  have "uchar a = uchar b"
    using e uchar_bounds [of a] uchar_bounds [of b] by (simp add: schar_def split: if_splits)
  then show "a = b" by simp
qed simp

lemma schar_bounds: "- 128 \<le> schar c" "schar c < 128"
  using uchar_bounds [of c] by (auto simp: schar_def)

lemma schar_ascii: "uchar c < 128 \<Longrightarrow> schar c = uchar c"
  by (simp add: schar_def)

lemma uchar_NUL [simp]: "uchar NUL = 0"
  by (simp add: uchar_def)

lemma schar_NUL [simp]: "schar NUL = 0"
  by (simp add: schar_def)

lemma schar_eq_0 [simp]: "schar c = 0 \<longleftrightarrow> c = NUL"
  using schar_inj [of c NUL] by simp

lemma NUL_neq [simp]: "NUL \<noteq> c \<longleftrightarrow> c \<noteq> NUL"
  by auto

text \<open>Decimal digits: \<open>'0' + d\<close>.\<close>

definition digit_char :: "nat \<Rightarrow> char" where
  "digit_char d = to_char (48 + int d)"

lemma uchar_digit_char: "d < 10 \<Longrightarrow> uchar (digit_char d) = 48 + int d"
  by (simp add: digit_char_def)

lemma digit_char_eval:
  "digit_char 0 = CHR ''0''" "digit_char 1 = CHR ''1''" "digit_char (Suc 0) = CHR ''1''"
  "digit_char 2 = CHR ''2''" "digit_char 3 = CHR ''3''" "digit_char 4 = CHR ''4''"
  "digit_char 5 = CHR ''5''" "digit_char 6 = CHR ''6''" "digit_char 7 = CHR ''7''"
  "digit_char 8 = CHR ''8''" "digit_char 9 = CHR ''9''"
  by code_simp+

section \<open>String literals outside ASCII\<close>

text \<open>The source files are UTF-8, so a literal with a code point above 127 denotes the bytes of
  its encoding. \<open>utf8 cps\<close> is the byte string of the code points \<open>cps\<close> below \<open>0x10000\<close>.\<close>

definition utf8_enc :: "nat \<Rightarrow> string" where
  "utf8_enc n =
     (if n < 128 then [char_of n]
      else if n < 2048 then [char_of (192 + n div 64), char_of (128 + n mod 64)]
      else [char_of (224 + n div 4096), char_of (128 + n div 64 mod 64), char_of (128 + n mod 64)])"

definition utf8 :: "nat list \<Rightarrow> string" where
  "utf8 cps = concat (map utf8_enc cps)"

section \<open>Theorem collections\<close>

named_theorems c_null \<open>behaviour of an operation on null pointers and empty sizes\<close>
named_theorems c_spec \<open>functional specification of an operation on well-formed arguments\<close>
named_theorems c_frame \<open>what an operation leaves unchanged\<close>
named_theorems c_inv \<open>preservation of a well-formedness invariant\<close>

section \<open>Lists\<close>

lemma takeWhile_append_stop:
  "\<forall>x\<in>set xs. P x \<Longrightarrow> \<not> P y \<Longrightarrow> takeWhile P (xs @ y # ys) = xs"
  by (induction xs) auto

lemma dropWhile_append_stop:
  "\<forall>x\<in>set xs. P x \<Longrightarrow> \<not> P y \<Longrightarrow> dropWhile P (xs @ y # ys) = y # ys"
  by (induction xs) auto

lemma set_take_notin: "x \<notin> set xs \<Longrightarrow> x \<notin> set (take n xs)"
  by (meson in_set_takeD)

lemma set_drop_notin: "x \<notin> set xs \<Longrightarrow> x \<notin> set (drop n xs)"
  by (meson in_set_dropD)

end
