(* ===== verification/CMem.thy ===== *)
theory CMem
  imports Prelude
begin

text \<open>
  The byte memory under the library functions of \<open>cleonos/c/src/libc_string.c\<close>: a partial map
  from addresses to bytes. A C pointer is an address, the null pointer is \<open>0\<close>. An access
  outside the mapped bytes is undefined behaviour, and the model returns \<open>None\<close> for it, so a
  theorem with a result \<open>Some m'\<close> also says that every access was in bounds.
\<close>

type_synonym addr = nat
type_synonym mem = "addr \<rightharpoonup> char"

definition load :: "mem \<Rightarrow> addr \<Rightarrow> char option" where
  "load m a = m a"

definition store :: "mem \<Rightarrow> addr \<Rightarrow> char \<Rightarrow> mem option" where
  "store m a c = (case m a of None \<Rightarrow> None | Some _ \<Rightarrow> Some (m(a \<mapsto> c)))"

lemma load_Some: "m a = Some c \<Longrightarrow> load m a = Some c"
  by (simp add: load_def)

lemma store_Some: "m a \<noteq> None \<Longrightarrow> store m a c = Some (m(a \<mapsto> c))"
  by (auto simp: store_def)

section \<open>Byte ranges\<close>

text \<open>\<open>mapped m p n\<close>: the \<open>n\<close> bytes from \<open>p\<close> may be accessed. \<open>bytes_at m p s\<close>: they hold \<open>s\<close>.
  \<open>put_bytes m p s\<close>: the memory after \<open>s\<close> has been written at \<open>p\<close>.\<close>

definition mapped :: "mem \<Rightarrow> addr \<Rightarrow> nat \<Rightarrow> bool" where
  "mapped m p n \<longleftrightarrow> (\<forall>i<n. m (p + i) \<noteq> None)"

fun bytes_at :: "mem \<Rightarrow> addr \<Rightarrow> string \<Rightarrow> bool" where
  "bytes_at m p [] = True"
| "bytes_at m p (c # cs) = (m p = Some c \<and> bytes_at m (Suc p) cs)"

definition put_bytes :: "mem \<Rightarrow> addr \<Rightarrow> string \<Rightarrow> mem" where
  "put_bytes m p s = (\<lambda>a. if p \<le> a \<and> a < p + length s then Some (s ! (a - p)) else m a)"

text \<open>\<open>cstr_at m p s\<close>: \<open>p\<close> points to the NUL-terminated string \<open>s\<close>.\<close>

definition cstr_at :: "mem \<Rightarrow> addr \<Rightarrow> string \<Rightarrow> bool" where
  "cstr_at m p s \<longleftrightarrow> p \<noteq> 0 \<and> NUL \<notin> set s \<and> bytes_at m p (s @ [NUL])"

definition disjoint_ranges :: "addr \<Rightarrow> nat \<Rightarrow> addr \<Rightarrow> nat \<Rightarrow> bool" where
  "disjoint_ranges p n q k \<longleftrightarrow> p + n \<le> q \<or> q + k \<le> p"

lemma mapped_0 [simp]: "mapped m p 0"
  by (simp add: mapped_def)

lemma mapped_Suc: "mapped m p (Suc n) \<longleftrightarrow> m p \<noteq> None \<and> mapped m (Suc p) n"
  by (auto simp: mapped_def less_Suc_eq_0_disj)

lemma mapped_Suc_last: "mapped m p (Suc n) \<longleftrightarrow> mapped m p n \<and> m (p + n) \<noteq> None"
  by (auto simp: mapped_def less_Suc_eq)

lemma mapped_upd: "mapped m p n \<Longrightarrow> mapped (m(a \<mapsto> c)) p n"
  by (auto simp: mapped_def)

lemma mapped_mono: "mapped m p n \<Longrightarrow> k \<le> n \<Longrightarrow> mapped m p k"
  by (auto simp: mapped_def)

lemma mapped_put_bytes [simp]: "mapped m p n \<Longrightarrow> mapped (put_bytes m q s) p n"
  by (auto simp: mapped_def put_bytes_def)

lemma bytes_at_nth: "bytes_at m p s \<longleftrightarrow> (\<forall>i<length s. m (p + i) = Some (s ! i))"
proof (induction s arbitrary: p)
  case (Cons c s)
  show ?case by (auto simp: Cons.IH less_Suc_eq_0_disj)
qed simp

lemma bytes_at_append:
  "bytes_at m p (s @ t) \<longleftrightarrow> bytes_at m p s \<and> bytes_at m (p + length s) t"
  by (induction s arbitrary: p) auto

lemma bytes_at_mapped: "bytes_at m p s \<Longrightarrow> mapped m p (length s)"
  by (auto simp: bytes_at_nth mapped_def)

lemma bytes_at_upd_other:
  "a < p \<or> p + length s \<le> a \<Longrightarrow> bytes_at (m(a \<mapsto> c)) p s = bytes_at m p s"
  by (induction s arbitrary: p) auto

lemma bytes_at_put_bytes [simp]: "bytes_at (put_bytes m p s) p s"
  by (auto simp: bytes_at_nth put_bytes_def)

lemma put_bytes_other [c_frame]: "a < p \<or> p + length s \<le> a \<Longrightarrow> put_bytes m p s a = m a"
  by (auto simp: put_bytes_def)

lemma bytes_at_cong:
  "(\<And>i. i < length s \<Longrightarrow> m (p + i) = m' (p + i)) \<Longrightarrow> bytes_at m p s = bytes_at m' p s"
  by (simp add: bytes_at_nth)

lemma bytes_at_put_bytes_disjoint:
  assumes "disjoint_ranges p (length s) q (length t)"
  shows "bytes_at (put_bytes m p s) q t = bytes_at m q t"
proof (rule bytes_at_cong)
  fix i assume "i < length t"
  with assms have "q + i < p \<or> p + length s \<le> q + i" by (auto simp: disjoint_ranges_def)
  then show "put_bytes m p s (q + i) = m (q + i)" by (rule put_bytes_other)
qed

lemma put_bytes_Nil [simp]: "put_bytes m p [] = m"
  by (rule ext) (auto simp: put_bytes_def)

lemma put_bytes_Cons: "put_bytes m p (c # s) = put_bytes (m(p \<mapsto> c)) (Suc p) s"
proof
  fix a
  show "put_bytes m p (c # s) a = put_bytes (m(p \<mapsto> c)) (Suc p) s a"
  proof (cases "Suc p \<le> a")
    case True
    then have "a - p = Suc (a - Suc p)" by simp
    with True show ?thesis by (simp add: put_bytes_def)
  next
    case False
    then show ?thesis by (auto simp: put_bytes_def)
  qed
qed

lemma put_bytes_snoc: "(put_bytes m p s)(p + length s \<mapsto> c) = put_bytes m p (s @ [c])"
  by (rule ext) (auto simp: put_bytes_def nth_append)

lemma put_bytes_last:
  "put_bytes (m(p + length s \<mapsto> c)) p s = put_bytes m p (s @ [c])"
  by (rule ext) (auto simp: put_bytes_def nth_append)

lemma cstr_at_nonnull: "cstr_at m p s \<Longrightarrow> p \<noteq> 0"
  by (simp add: cstr_at_def)

lemma cstr_at_Nil: "cstr_at m p [] \<longleftrightarrow> p \<noteq> 0 \<and> m p = Some NUL"
  by (simp add: cstr_at_def)

lemma cstr_at_Cons:
  "cstr_at m p (c # s) \<longleftrightarrow> p \<noteq> 0 \<and> c \<noteq> NUL \<and> m p = Some c \<and> cstr_at m (Suc p) s"
  by (auto simp: cstr_at_def)

lemma cstr_at_bytes: "cstr_at m p s \<Longrightarrow> bytes_at m p (s @ [NUL])"
  by (simp add: cstr_at_def)

lemma cstr_at_suffix: "cstr_at m p (s @ t) \<Longrightarrow> cstr_at m (p + length s) t"
  by (auto simp: cstr_at_def bytes_at_append)

lemma cstr_at_put_disjoint:
  "disjoint_ranges p (length s) q (Suc (length t)) \<Longrightarrow> cstr_at (put_bytes m p s) q t = cstr_at m q t"
  using bytes_at_put_bytes_disjoint [of p s q "t @ [NUL]" m] by (simp add: cstr_at_def)

lemma cstr_at_put_same: "p \<noteq> 0 \<Longrightarrow> NUL \<notin> set s \<Longrightarrow> cstr_at (put_bytes m p (s @ [NUL])) p s"
  by (simp add: cstr_at_def)

end
