(* ===== verification/LibcString.thy ===== *)
theory LibcString
  imports CMem
begin

text \<open>
  \<open>cleonos/c/src/libc_string.c\<close> on the byte memory of \<open>CMem\<close>. A counting loop that walks
  one element per iteration is a recursion on the remaining count; a loop that runs until a NUL
  is \<open>partial_function (option)\<close>, so a theorem with a result \<open>Some\<close> says that the loop stops and
  stays inside the mapped bytes. The pure functions \<open>s_...\<close> on strings are the
  specifications, and the refinement lemmas connect the two.
\<close>

section \<open>Memory blocks\<close>

fun memset_loop :: "mem \<Rightarrow> addr \<Rightarrow> char \<Rightarrow> nat \<Rightarrow> mem option" where
  "memset_loop m d b 0 = Some m"
| "memset_loop m d b (Suc n) = do { m \<leftarrow> store m d b; memset_loop m (Suc d) b n }"

definition c_memset :: "mem \<Rightarrow> addr \<Rightarrow> int \<Rightarrow> nat \<Rightarrow> (mem \<times> addr) option" where
  "c_memset m dst value sz =
     (if dst = 0 then Some (m, dst)
      else do { m \<leftarrow> memset_loop m dst (to_char value) sz; Some (m, dst) })"

fun copy_up :: "mem \<Rightarrow> addr \<Rightarrow> addr \<Rightarrow> nat \<Rightarrow> mem option" where
  "copy_up m d s 0 = Some m"
| "copy_up m d s (Suc n) = do { c \<leftarrow> load m s; m \<leftarrow> store m d c; copy_up m (Suc d) (Suc s) n }"

fun copy_down :: "mem \<Rightarrow> addr \<Rightarrow> addr \<Rightarrow> nat \<Rightarrow> mem option" where
  "copy_down m d s 0 = Some m"
| "copy_down m d s (Suc n) = do { c \<leftarrow> load m (s + n); m \<leftarrow> store m (d + n) c; copy_down m d s n }"

definition c_memcpy :: "mem \<Rightarrow> addr \<Rightarrow> addr \<Rightarrow> nat \<Rightarrow> (mem \<times> addr) option" where
  "c_memcpy m dst src sz =
     (if dst = 0 \<or> src = 0 then Some (m, dst)
      else do { m \<leftarrow> copy_up m dst src sz; Some (m, dst) })"

definition c_memmove :: "mem \<Rightarrow> addr \<Rightarrow> addr \<Rightarrow> nat \<Rightarrow> (mem \<times> addr) option" where
  "c_memmove m dst src sz =
     (if dst = 0 \<or> src = 0 \<or> dst = src \<or> sz = 0 then Some (m, dst)
      else if dst < src \<or> src + sz \<le> dst
      then do { m \<leftarrow> copy_up m dst src sz; Some (m, dst) }
      else do { m \<leftarrow> copy_down m dst src sz; Some (m, dst) })"

fun memcmp_loop :: "mem \<Rightarrow> addr \<Rightarrow> addr \<Rightarrow> nat \<Rightarrow> int option" where
  "memcmp_loop m a b 0 = Some 0"
| "memcmp_loop m a b (Suc n) =
     do { x \<leftarrow> load m a; y \<leftarrow> load m b;
          if x \<noteq> y then Some (if uchar x < uchar y then - 1 else 1)
          else memcmp_loop m (Suc a) (Suc b) n }"

definition c_memcmp :: "mem \<Rightarrow> addr \<Rightarrow> addr \<Rightarrow> nat \<Rightarrow> int option" where
  "c_memcmp m left right sz =
     (if left = right \<or> sz = 0 then Some 0
      else if left = 0 then Some (- 1)
      else if right = 0 then Some 1
      else memcmp_loop m left right sz)"

definition c_bcmp :: "mem \<Rightarrow> addr \<Rightarrow> addr \<Rightarrow> nat \<Rightarrow> int option" where
  "c_bcmp m left right sz = c_memcmp m left right sz"

fun memchr_loop :: "mem \<Rightarrow> addr \<Rightarrow> char \<Rightarrow> nat \<Rightarrow> addr option" where
  "memchr_loop m s needle 0 = Some 0"
| "memchr_loop m s needle (Suc n) =
     do { c \<leftarrow> load m s; if c = needle then Some s else memchr_loop m (Suc s) needle n }"

definition c_memchr :: "mem \<Rightarrow> addr \<Rightarrow> int \<Rightarrow> nat \<Rightarrow> addr option" where
  "c_memchr m src value sz =
     (if src = 0 then Some 0 else memchr_loop m src (to_char value) sz)"

section \<open>Lengths\<close>

partial_function (option) strlen_loop :: "mem \<Rightarrow> addr \<Rightarrow> nat \<Rightarrow> nat option" where
  "strlen_loop m text len =
     do { c \<leftarrow> load m (text + len);
          if c \<noteq> NUL then strlen_loop m text (Suc len) else Some len }"

definition c_strlen :: "mem \<Rightarrow> addr \<Rightarrow> nat option" where
  "c_strlen m text = (if text = 0 then Some 0 else strlen_loop m text 0)"

fun strnlen_loop :: "mem \<Rightarrow> addr \<Rightarrow> nat \<Rightarrow> nat \<Rightarrow> nat option" where
  "strnlen_loop m text len 0 = Some len"
| "strnlen_loop m text len (Suc n) =
     do { c \<leftarrow> load m (text + len);
          if c \<noteq> NUL then strnlen_loop m text (Suc len) n else Some len }"

definition c_strnlen :: "mem \<Rightarrow> addr \<Rightarrow> nat \<Rightarrow> nat option" where
  "c_strnlen m text max_sz = (if text = 0 then Some 0 else strnlen_loop m text 0 max_sz)"

section \<open>Copies\<close>

partial_function (option) strcpy_loop :: "mem \<Rightarrow> addr \<Rightarrow> addr \<Rightarrow> mem option" where
  "strcpy_loop m dst src =
     do { c \<leftarrow> load m src;
          if c \<noteq> NUL then do { m \<leftarrow> store m dst c; strcpy_loop m (Suc dst) (Suc src) }
          else store m dst NUL }"

definition c_strcpy :: "mem \<Rightarrow> addr \<Rightarrow> addr \<Rightarrow> (mem \<times> addr) option" where
  "c_strcpy m dst src =
     (if dst = 0 \<or> src = 0 then Some (m, dst)
      else do { m \<leftarrow> strcpy_loop m dst src; Some (m, dst) })"

fun strncpy_loop :: "mem \<Rightarrow> addr \<Rightarrow> addr \<Rightarrow> nat \<Rightarrow> mem option" where
  "strncpy_loop m dst src 0 = Some m"
| "strncpy_loop m dst src (Suc n) =
     do { c \<leftarrow> load m src;
          if c \<noteq> NUL then do { m \<leftarrow> store m dst c; strncpy_loop m (Suc dst) (Suc src) n }
          else memset_loop m dst NUL (Suc n) }"

definition c_strncpy :: "mem \<Rightarrow> addr \<Rightarrow> addr \<Rightarrow> nat \<Rightarrow> (mem \<times> addr) option" where
  "c_strncpy m dst src sz =
     (if dst = 0 \<or> src = 0 then Some (m, dst)
      else do { m \<leftarrow> strncpy_loop m dst src sz; Some (m, dst) })"

definition c_strcat :: "mem \<Rightarrow> addr \<Rightarrow> addr \<Rightarrow> (mem \<times> addr) option" where
  "c_strcat m dst src =
     (if dst = 0 \<or> src = 0 then Some (m, dst)
      else do { dlen \<leftarrow> c_strlen m dst;
                m \<leftarrow> strcpy_loop m (dst + dlen) src;
                Some (m, dst) })"

fun strncat_loop :: "mem \<Rightarrow> addr \<Rightarrow> addr \<Rightarrow> nat \<Rightarrow> mem option" where
  "strncat_loop m dst src 0 = store m dst NUL"
| "strncat_loop m dst src (Suc n) =
     do { c \<leftarrow> load m src;
          if c \<noteq> NUL then do { m \<leftarrow> store m dst c; strncat_loop m (Suc dst) (Suc src) n }
          else store m dst NUL }"

definition c_strncat :: "mem \<Rightarrow> addr \<Rightarrow> addr \<Rightarrow> nat \<Rightarrow> (mem \<times> addr) option" where
  "c_strncat m dst src sz =
     (if dst = 0 \<or> src = 0 then Some (m, dst)
      else do { dlen \<leftarrow> c_strlen m dst;
                m \<leftarrow> strncat_loop m (dst + dlen) src sz;
                Some (m, dst) })"

section \<open>Comparison\<close>

text \<open>The bytes of two strings are compared as \<open>char\<close>, which is signed; \<open>memcmp\<close> above
  compares them as \<open>unsigned char\<close>.\<close>

partial_function (option) strcmp_loop :: "mem \<Rightarrow> addr \<Rightarrow> addr \<Rightarrow> int option" where
  "strcmp_loop m left right =
     do { a \<leftarrow> load m left; b \<leftarrow> load m right;
          if a \<noteq> NUL \<and> b \<noteq> NUL
          then (if a \<noteq> b then Some (if schar a < schar b then - 1 else 1)
                else strcmp_loop m (Suc left) (Suc right))
          else if a = b then Some 0
          else Some (if schar a < schar b then - 1 else 1) }"

definition c_strcmp :: "mem \<Rightarrow> addr \<Rightarrow> addr \<Rightarrow> int option" where
  "c_strcmp m left right =
     (if left = right then Some 0
      else if left = 0 then Some (- 1)
      else if right = 0 then Some 1
      else strcmp_loop m left right)"

fun strncmp_loop :: "mem \<Rightarrow> addr \<Rightarrow> addr \<Rightarrow> nat \<Rightarrow> int option" where
  "strncmp_loop m left right 0 = Some 0"
| "strncmp_loop m left right (Suc n) =
     do { a \<leftarrow> load m left; b \<leftarrow> load m right;
          if a \<noteq> NUL \<and> b \<noteq> NUL
          then (if a \<noteq> b then Some (if schar a < schar b then - 1 else 1)
                else strncmp_loop m (Suc left) (Suc right) n)
          else if a = b then Some 0
          else Some (if schar a < schar b then - 1 else 1) }"

definition c_strncmp :: "mem \<Rightarrow> addr \<Rightarrow> addr \<Rightarrow> nat \<Rightarrow> int option" where
  "c_strncmp m left right sz =
     (if sz = 0 \<or> left = right then Some 0
      else if left = 0 then Some (- 1)
      else if right = 0 then Some 1
      else strncmp_loop m left right sz)"

section \<open>Searching\<close>

partial_function (option) strchr_loop :: "mem \<Rightarrow> addr \<Rightarrow> char \<Rightarrow> addr option" where
  "strchr_loop m text needle =
     do { c \<leftarrow> load m text;
          if c \<noteq> NUL
          then (if c = needle then Some text else strchr_loop m (Suc text) needle)
          else if needle = NUL then Some text else Some 0 }"

definition c_strchr :: "mem \<Rightarrow> addr \<Rightarrow> int \<Rightarrow> addr option" where
  "c_strchr m text ch = (if text = 0 then Some 0 else strchr_loop m text (to_char ch))"

partial_function (option) strrchr_loop :: "mem \<Rightarrow> addr \<Rightarrow> char \<Rightarrow> addr \<Rightarrow> addr option" where
  "strrchr_loop m text needle last_at =
     do { c \<leftarrow> load m text;
          if c \<noteq> NUL
          then strrchr_loop m (Suc text) needle (if c = needle then text else last_at)
          else if needle = NUL then Some text else Some last_at }"

definition c_strrchr :: "mem \<Rightarrow> addr \<Rightarrow> int \<Rightarrow> addr option" where
  "c_strrchr m text ch = (if text = 0 then Some 0 else strrchr_loop m text (to_char ch) 0)"

text \<open>The inner loop of \<open>strstr\<close>: does \<open>needle\<close> (with \<open>n\<close> bytes left) match here?\<close>

fun strstr_match :: "mem \<Rightarrow> addr \<Rightarrow> addr \<Rightarrow> nat \<Rightarrow> bool option" where
  "strstr_match m h needle 0 = Some True"
| "strstr_match m h needle (Suc n) =
     do { a \<leftarrow> load m h; b \<leftarrow> load m needle;
          if a = NUL \<or> a \<noteq> b then Some False else strstr_match m (Suc h) (Suc needle) n }"

partial_function (option) strstr_loop :: "mem \<Rightarrow> addr \<Rightarrow> addr \<Rightarrow> nat \<Rightarrow> addr option" where
  "strstr_loop m h needle nlen =
     do { a \<leftarrow> load m h;
          if a = NUL then Some 0
          else do { b \<leftarrow> load m needle;
                    if a \<noteq> b then strstr_loop m (Suc h) needle nlen
                    else do { hit \<leftarrow> strstr_match m (Suc h) (Suc needle) (nlen - 1);
                              if hit then Some h else strstr_loop m (Suc h) needle nlen } } }"

definition c_strstr :: "mem \<Rightarrow> addr \<Rightarrow> addr \<Rightarrow> addr option" where
  "c_strstr m haystack needle =
     (if haystack = 0 \<or> needle = 0 then Some 0
      else do { nlen \<leftarrow> c_strlen m needle;
                if nlen = 0 then Some haystack else strstr_loop m haystack needle nlen })"

section \<open>Delimiter sets and tokens\<close>

partial_function (option) delim_loop :: "mem \<Rightarrow> addr \<Rightarrow> char \<Rightarrow> bool option" where
  "delim_loop m delim ch =
     do { c \<leftarrow> load m delim;
          if c \<noteq> NUL then (if c = ch then Some True else delim_loop m (Suc delim) ch)
          else Some False }"

definition clib_delim_contains :: "mem \<Rightarrow> addr \<Rightarrow> char \<Rightarrow> bool option" where
  "clib_delim_contains m delim ch = (if delim = 0 then Some False else delim_loop m delim ch)"

text \<open>\<open>span_loop want\<close> is the loop of \<open>strspn\<close> (\<open>want\<close>) and of \<open>strcspn\<close> (\<open>\<not> want\<close>).\<close>

partial_function (option) span_loop :: "bool \<Rightarrow> mem \<Rightarrow> addr \<Rightarrow> addr \<Rightarrow> nat \<Rightarrow> nat option" where
  "span_loop want m text chars n =
     do { c \<leftarrow> load m (text + n);
          if c = NUL then Some n
          else do { hit \<leftarrow> clib_delim_contains m chars c;
                    if hit = want then span_loop want m text chars (Suc n) else Some n } }"

definition c_strspn :: "mem \<Rightarrow> addr \<Rightarrow> addr \<Rightarrow> nat option" where
  "c_strspn m text accept =
     (if text = 0 \<or> accept = 0 then Some 0 else span_loop True m text accept 0)"

definition c_strcspn :: "mem \<Rightarrow> addr \<Rightarrow> addr \<Rightarrow> nat option" where
  "c_strcspn m text reject =
     (if text = 0 \<or> reject = 0 then Some 0 else span_loop False m text reject 0)"

partial_function (option) strpbrk_loop :: "mem \<Rightarrow> addr \<Rightarrow> addr \<Rightarrow> addr option" where
  "strpbrk_loop m text accept =
     do { c \<leftarrow> load m text;
          if c = NUL then Some 0
          else do { hit \<leftarrow> clib_delim_contains m accept c;
                    if hit then Some text else strpbrk_loop m (Suc text) accept } }"

definition c_strpbrk :: "mem \<Rightarrow> addr \<Rightarrow> addr \<Rightarrow> addr option" where
  "c_strpbrk m text accept =
     (if text = 0 \<or> accept = 0 then Some 0 else strpbrk_loop m text accept)"

text \<open>\<open>strtok_r\<close>: the cell \<open>*saveptr\<close> is passed in and returned (\<open>None\<close> for a null
  \<open>saveptr\<close>). The result is the memory, the new value of the cell and the token.\<close>

definition c_strtok_r ::
  "mem \<Rightarrow> addr \<Rightarrow> addr \<Rightarrow> addr option \<Rightarrow> (mem \<times> addr option \<times> addr) option" where
  "c_strtok_r m text delim saveptr =
     (case saveptr of
        None \<Rightarrow> Some (m, None, 0)
      | Some saved \<Rightarrow>
          if delim = 0 then Some (m, Some saved, 0)
          else
            let cursor = (if text \<noteq> 0 then text else saved) in
            if cursor = 0 then Some (m, Some saved, 0)
            else do {
              skip \<leftarrow> span_loop True m cursor delim 0;
              let start = cursor + skip;
              c \<leftarrow> load m start;
              if c = NUL then Some (m, Some start, 0)
              else do {
                n \<leftarrow> span_loop False m start delim 0;
                e \<leftarrow> load m (start + n);
                if e = NUL then Some (m, Some (start + n), start)
                else do { m \<leftarrow> store m (start + n) NUL; Some (m, Some (Suc (start + n)), start) }
              }
            })"

text \<open>\<open>strtok\<close> keeps its save cell in a static variable, threaded here as \<open>state\<close>.\<close>

definition c_strtok :: "mem \<Rightarrow> addr \<Rightarrow> addr \<Rightarrow> addr \<Rightarrow> (mem \<times> addr \<times> addr) option" where
  "c_strtok m state text delim =
     do { (m, sp, tok) \<leftarrow> c_strtok_r m text delim (Some state);
          Some (m, (case sp of Some p \<Rightarrow> p | None \<Rightarrow> state), tok) }"

section \<open>\<open>libc_strings.c\<close>: comparison without case\<close>

definition clib_strings_lower :: "int \<Rightarrow> int" where
  "clib_strings_lower ch = (if 65 \<le> ch \<and> ch \<le> 90 then ch - 65 + 97 else ch)"

partial_function (option) strcasecmp_loop :: "mem \<Rightarrow> addr \<Rightarrow> addr \<Rightarrow> int option" where
  "strcasecmp_loop m left right =
     do { a \<leftarrow> load m left; b \<leftarrow> load m right;
          if a \<noteq> NUL \<and> b \<noteq> NUL
          then (let lc = clib_strings_lower (uchar a); rc = clib_strings_lower (uchar b)
                in if lc \<noteq> rc then Some (if lc < rc then - 1 else 1)
                   else strcasecmp_loop m (Suc left) (Suc right))
          else if a = b then Some 0
          else Some (if schar a < schar b then - 1 else 1) }"

definition c_strcasecmp :: "mem \<Rightarrow> addr \<Rightarrow> addr \<Rightarrow> int option" where
  "c_strcasecmp m left right =
     (if left = right then Some 0
      else if left = 0 then Some (- 1)
      else if right = 0 then Some 1
      else strcasecmp_loop m left right)"

fun strncasecmp_loop :: "mem \<Rightarrow> addr \<Rightarrow> addr \<Rightarrow> nat \<Rightarrow> int option" where
  "strncasecmp_loop m left right 0 = Some 0"
| "strncasecmp_loop m left right (Suc n) =
     do { a \<leftarrow> load m left; b \<leftarrow> load m right;
          if a \<noteq> NUL \<and> b \<noteq> NUL
          then (let lc = clib_strings_lower (uchar a); rc = clib_strings_lower (uchar b)
                in if lc \<noteq> rc then Some (if lc < rc then - 1 else 1)
                   else strncasecmp_loop m (Suc left) (Suc right) n)
          else if a = b then Some 0
          else Some (if schar a < schar b then - 1 else 1) }"

definition c_strncasecmp :: "mem \<Rightarrow> addr \<Rightarrow> addr \<Rightarrow> nat \<Rightarrow> int option" where
  "c_strncasecmp m left right sz =
     (if sz = 0 \<or> left = right then Some 0
      else if left = 0 then Some (- 1)
      else if right = 0 then Some 1
      else strncasecmp_loop m left right sz)"

section \<open>Specifications and refinement\<close>

subsection \<open>Blocks\<close>

lemma memset_loop_spec:
  "mapped m d n \<Longrightarrow> memset_loop m d b n = Some (put_bytes m d (replicate n b))"
proof (induction n arbitrary: m d)
  case (Suc n)
  then have d: "m d \<noteq> None" and r: "mapped (m(d \<mapsto> b)) (Suc d) n"
    by (simp_all add: mapped_Suc mapped_upd)
  from r have "memset_loop (m(d \<mapsto> b)) (Suc d) b n = Some (put_bytes (m(d \<mapsto> b)) (Suc d) (replicate n b))"
    by (rule Suc.IH)
  with d show ?case by (simp add: store_Some put_bytes_Cons)
qed simp

lemma c_memset_null [c_null]: "c_memset m 0 v n = Some (m, 0)"
  by (simp add: c_memset_def)

lemma c_memset_spec [c_spec]:
  "d \<noteq> 0 \<Longrightarrow> mapped m d n \<Longrightarrow>
   c_memset m d v n = Some (put_bytes m d (replicate n (to_char v)), d)"
  by (simp add: c_memset_def memset_loop_spec)

lemma copy_up_spec:
  assumes "bytes_at m s xs" "mapped m d (length xs)" "d \<le> s \<or> s + length xs \<le> d"
  shows "copy_up m d s (length xs) = Some (put_bytes m d xs)"
  using assms
proof (induction xs arbitrary: m d s)
  case (Cons c xs)
  from Cons.prems have c: "m s = Some c" and t: "bytes_at m (Suc s) xs"
    and d: "m d \<noteq> None" and md: "mapped m (Suc d) (length xs)" by (auto simp: mapped_Suc)
  have b: "bytes_at (m(d \<mapsto> c)) (Suc s) xs" using t Cons.prems(3)
    by (subst bytes_at_upd_other) auto
  have o: "Suc d \<le> Suc s \<or> Suc s + length xs \<le> Suc d" using Cons.prems(3) by auto
  have "copy_up (m(d \<mapsto> c)) (Suc d) (Suc s) (length xs) = Some (put_bytes (m(d \<mapsto> c)) (Suc d) xs)"
    by (rule Cons.IH [OF b mapped_upd [OF md] o])
  then show ?case using c d by (simp add: load_Some store_Some put_bytes_Cons)
qed simp

lemma copy_down_spec:
  assumes "bytes_at m s xs" "mapped m d (length xs)" "s \<le> d"
  shows "copy_down m d s (length xs) = Some (put_bytes m d xs)"
  using assms
proof (induction xs arbitrary: m rule: rev_induct)
  case (snoc c xs)
  from snoc.prems have c: "m (s + length xs) = Some c" and t: "bytes_at m s xs"
    and d: "m (d + length xs) \<noteq> None" and md: "mapped m d (length xs)"
    by (auto simp: mapped_Suc_last bytes_at_append)
  have b: "bytes_at (m(d + length xs \<mapsto> c)) s xs" using t snoc.prems(3)
    by (subst bytes_at_upd_other) auto
  have "copy_down (m(d + length xs \<mapsto> c)) d s (length xs)
             = Some (put_bytes (m(d + length xs \<mapsto> c)) d xs)"
    by (rule snoc.IH [OF b mapped_upd [OF md] snoc.prems(3)])
  then show ?case using c d by (simp add: load_Some store_Some put_bytes_last)
qed simp

lemma c_memcpy_spec [c_spec]:
  assumes "d \<noteq> 0" "s \<noteq> 0" "bytes_at m s xs" "mapped m d (length xs)"
    "disjoint_ranges d (length xs) s (length xs)"
  shows "c_memcpy m d s (length xs) = Some (put_bytes m d xs, d)"
proof -
  have "d \<le> s \<or> s + length xs \<le> d" using assms(5) by (auto simp: disjoint_ranges_def)
  with assms show ?thesis by (simp add: c_memcpy_def copy_up_spec)
qed

text \<open>For any two ranges, overlapping or not, \<open>memmove\<close> writes to \<open>dst\<close> exactly the bytes that
  \<open>src\<close> held before the call, stays in bounds and returns \<open>dst\<close>.\<close>

theorem memmove_correct:
  assumes "dst \<noteq> 0" "src \<noteq> 0" "bytes_at m src xs" "mapped m dst (length xs)"
  shows "c_memmove m dst src (length xs) = Some (put_bytes m dst xs, dst)"
proof (cases "dst = src")
  case True
  have "put_bytes m dst xs a = m a" for a
  proof (cases "src \<le> a \<and> a < src + length xs")
    case True
    then have "a - src < length xs" and e: "src + (a - src) = a" by auto
    then have "m a = Some (xs ! (a - src))"
      using assms(3) unfolding bytes_at_nth by metis
    with True \<open>dst = src\<close> show ?thesis by (simp add: put_bytes_def)
  qed (use True in \<open>auto simp: put_bytes_def\<close>)
  then have "put_bytes m dst xs = m" by (rule ext)
  with True show ?thesis by (simp add: c_memmove_def)
next
  case False
  consider "xs = []" | "xs \<noteq> []" "dst < src \<or> src + length xs \<le> dst"
    | "xs \<noteq> []" "\<not> (dst < src \<or> src + length xs \<le> dst)" by blast
  then show ?thesis
    using assms False by cases (auto simp: c_memmove_def copy_up_spec copy_down_spec)
qed

theorem memmove_correct_witness:
  "let m = put_bytes Map.empty 10 ''abcdef'' in
   c_memmove m 12 10 4 = Some (put_bytes m 12 ''abcd'', 12) \<and> bytes_at m 10 ''abcd''"
proof -
  let ?m = "put_bytes Map.empty 10 ''abcdef''"
  have b: "bytes_at ?m 10 ''abcd''" by (simp add: put_bytes_def)
  have mp: "mapped ?m 12 (length ''abcd'')"
    by (auto simp: mapped_def put_bytes_def)
  have "c_memmove ?m 12 10 (length ''abcd'') = Some (put_bytes ?m 12 ''abcd'', 12)"
    by (rule memmove_correct [OF _ _ b mp]) simp_all
  moreover have "length ''abcd'' = 4" by simp
  ultimately show ?thesis using b unfolding Let_def by metis
qed

lemma memcmp_loop_spec:
  assumes "bytes_at m a xs" "bytes_at m b ys" "length xs = length ys"
  shows "memcmp_loop m a b (length xs) =
    Some (if xs = ys then 0
          else (let i = length (takeWhile (\<lambda>(x, y). x = y) (zip xs ys))
                in if uchar (xs ! i) < uchar (ys ! i) then - 1 else 1))"
  using assms(3,1,2)
proof (induction xs ys arbitrary: a b rule: list_induct2)
  case (Cons x xs y ys)
  then show ?case by (auto simp: load_def Let_def)
qed simp

lemma memcmp_zero_iff [c_spec]:
  assumes "a \<noteq> 0" "b \<noteq> 0" "bytes_at m a xs" "bytes_at m b ys" "length xs = length ys"
  shows "c_memcmp m a b (length xs) = Some 0 \<longleftrightarrow> xs = ys"
proof (cases "a = b")
  case True
  have "xs ! i = ys ! i" if "i < length xs" for i
    using assms that True by (auto simp: bytes_at_nth)
  then have "xs = ys" using assms(5) by (simp add: nth_equalityI)
  with True show ?thesis by (simp add: c_memcmp_def)
next
  case False
  have "c_memcmp m a b (length xs) = memcmp_loop m a b (length xs)"
    using assms False by (cases "length xs") (simp_all add: c_memcmp_def)
  then show ?thesis by (simp add: memcmp_loop_spec [OF assms(3-5)] Let_def)
qed

lemma memchr_loop_spec:
  assumes "bytes_at m s xs"
  shows "memchr_loop m s c (length xs) =
    Some (if c \<in> set xs then s + length (takeWhile (\<lambda>x. x \<noteq> c) xs) else 0)"
  using assms
proof (induction xs arbitrary: s)
  case (Cons x xs)
  then show ?case by (simp add: load_def)
qed simp

subsection \<open>Lengths\<close>

lemma strlen_loop_spec:
  "bytes_at m (p + k) (s @ [NUL]) \<Longrightarrow> NUL \<notin> set s \<Longrightarrow> strlen_loop m p k = Some (k + length s)"
proof (induction s arbitrary: k)
  case Nil
  then show ?case by (subst strlen_loop.simps) (simp add: load_def)
next
  case (Cons c s)
  have "strlen_loop m p (Suc k) = Some (Suc k + length s)"
    using Cons.prems by (intro Cons.IH) simp_all
  then show ?case using Cons.prems by (subst strlen_loop.simps) (simp add: load_def)
qed

lemma c_strlen_null [c_null]: "c_strlen m 0 = Some 0"
  by (simp add: c_strlen_def)

lemma c_strlen_spec [c_spec]: "cstr_at m p s \<Longrightarrow> c_strlen m p = Some (length s)"
  using strlen_loop_spec [of m p 0 s] by (simp add: c_strlen_def cstr_at_def)

lemma strnlen_loop_spec:
  "bytes_at m (p + k) (s @ [NUL]) \<Longrightarrow> NUL \<notin> set s \<Longrightarrow>
   strnlen_loop m p k n = Some (k + min n (length s))"
proof (induction n arbitrary: k s)
  case (Suc n)
  show ?case
  proof (cases s)
    case (Cons c cs)
    then have "strnlen_loop m p (Suc k) n = Some (Suc k + min n (length cs))"
      using Suc.prems by (intro Suc.IH) simp_all
    with Cons Suc.prems show ?thesis by (simp add: load_def)
  qed (use Suc.prems in \<open>simp add: load_def\<close>)
qed simp

lemma c_strnlen_spec [c_spec]: "cstr_at m p s \<Longrightarrow> c_strnlen m p n = Some (min n (length s))"
  using strnlen_loop_spec [of m p 0 s n] by (simp add: c_strnlen_def cstr_at_def)

subsection \<open>Copies\<close>

text \<open>The bytes that \<open>strncpy\<close> writes for a source \<open>s\<close> and a size \<open>n\<close>.\<close>

definition s_strncpy :: "string \<Rightarrow> nat \<Rightarrow> string" where
  "s_strncpy s n = take n s @ replicate (n - length s) NUL"

lemma length_s_strncpy [simp]: "length (s_strncpy s n) = n"
  by (simp add: s_strncpy_def)

lemma s_strncpy_Nil [simp]: "s_strncpy [] n = replicate n NUL"
  by (simp add: s_strncpy_def)

lemma s_strncpy_Cons [simp]: "s_strncpy (c # s) (Suc n) = c # s_strncpy s n"
  by (simp add: s_strncpy_def)

lemma s_strncpy_0 [simp]: "s_strncpy s 0 = []"
  by (simp add: s_strncpy_def)

lemma strncpy_loop_spec:
  assumes "bytes_at m s (xs @ [NUL])" "NUL \<notin> set xs" "mapped m d n"
    "disjoint_ranges d n s (Suc (length xs))"
  shows "strncpy_loop m d s n = Some (put_bytes m d (s_strncpy xs n))"
  using assms
proof (induction n arbitrary: m d s xs)
  case (Suc n)
  show ?case
  proof (cases xs)
    case Nil
    then show ?thesis using Suc.prems by (simp add: load_def memset_loop_spec del: memset_loop.simps)
  next
    case (Cons c cs)
    have d: "m d \<noteq> None" and md: "mapped m (Suc d) n" using Suc.prems(3) by (auto simp: mapped_Suc)
    have dj: "disjoint_ranges (Suc d) n (Suc s) (Suc (length cs))"
      using Suc.prems(4) Cons by (auto simp: disjoint_ranges_def)
    have t: "bytes_at m (Suc s) (cs @ [NUL])" using Suc.prems(1) Cons by simp
    have "d < Suc s \<or> Suc s + length (cs @ [NUL]) \<le> d"
      using Suc.prems(4) Cons by (auto simp: disjoint_ranges_def)
    from bytes_at_upd_other [OF this] t have b: "bytes_at (m(d \<mapsto> c)) (Suc s) (cs @ [NUL])" by simp
    have "strncpy_loop (m(d \<mapsto> c)) (Suc d) (Suc s) n = Some (put_bytes (m(d \<mapsto> c)) (Suc d) (s_strncpy cs n))"
      using Suc.prems(2) Cons by (intro Suc.IH [OF b _ mapped_upd [OF md] dj]) simp
    then show ?thesis using d Suc.prems Cons by (simp add: load_def store_Some put_bytes_Cons)
  qed
qed simp

text \<open>\<open>strncpy\<close> writes exactly \<open>n\<close> bytes at \<open>dst\<close>: the first \<open>n\<close> characters of the source,
  padded with NUL, and nothing else.\<close>

theorem strncpy_writes_exactly_n:
  assumes "dst \<noteq> 0" "cstr_at m src s" "mapped m dst n"
    "disjoint_ranges dst n src (Suc (length s))"
  shows "c_strncpy m dst src n = Some (put_bytes m dst (s_strncpy s n), dst)"
  using assms strncpy_loop_spec [of m src s dst n] by (simp add: c_strncpy_def cstr_at_def)

theorem strncpy_writes_exactly_n_witness:
  "let m = put_bytes (put_bytes Map.empty 10 [CHR ''h'', CHR ''i'', NUL]) 20 (replicate 4 CHR ''?'') in
   c_strncpy m 20 10 4 = Some (put_bytes m 20 [CHR ''h'', CHR ''i'', NUL, NUL], 20)"
proof -
  let ?m = "put_bytes (put_bytes Map.empty 10 [CHR ''h'', CHR ''i'', NUL]) 20 (replicate 4 CHR ''?'')"
  have c: "cstr_at ?m 10 ''hi''" by (simp add: cstr_at_def put_bytes_def)
  have mp: "mapped ?m 20 4" by (simp add: mapped_def put_bytes_def)
  have "c_strncpy ?m 20 10 4 = Some (put_bytes ?m 20 (s_strncpy ''hi'' 4), 20)"
    by (rule strncpy_writes_exactly_n [OF _ c mp]) (simp_all add: disjoint_ranges_def)
  moreover have "s_strncpy ''hi'' 4 = [CHR ''h'', CHR ''i'', NUL, NUL]"
    by (simp add: s_strncpy_def numeral_eq_Suc)
  ultimately show ?thesis unfolding Let_def by metis
qed

lemma strcpy_loop_spec:
  assumes "bytes_at m s (xs @ [NUL])" "NUL \<notin> set xs" "mapped m d (Suc (length xs))"
    "disjoint_ranges d (Suc (length xs)) s (Suc (length xs))"
  shows "strcpy_loop m d s = Some (put_bytes m d (xs @ [NUL]))"
  using assms
proof (induction xs arbitrary: m d s)
  case Nil
  then show ?case by (subst strcpy_loop.simps) (simp add: load_def mapped_Suc store_Some put_bytes_Cons)
next
  case (Cons c cs)
  have d: "m d \<noteq> None" and md: "mapped m (Suc d) (Suc (length cs))"
    using Cons.prems(3) mapped_Suc [of m d "Suc (length cs)"] by auto
  have dj: "disjoint_ranges (Suc d) (Suc (length cs)) (Suc s) (Suc (length cs))"
    using Cons.prems(4) by (auto simp: disjoint_ranges_def)
  have t: "bytes_at m (Suc s) (cs @ [NUL])" using Cons.prems(1) by simp
  have "d < Suc s \<or> Suc s + length (cs @ [NUL]) \<le> d"
    using Cons.prems(4) by (auto simp: disjoint_ranges_def)
  from bytes_at_upd_other [OF this] t have b: "bytes_at (m(d \<mapsto> c)) (Suc s) (cs @ [NUL])" by simp
  have "strcpy_loop (m(d \<mapsto> c)) (Suc d) (Suc s) = Some (put_bytes (m(d \<mapsto> c)) (Suc d) (cs @ [NUL]))"
    using Cons.prems(2) by (intro Cons.IH [OF b _ mapped_upd [OF md] dj]) simp
  then show ?case using d Cons.prems
    by (subst strcpy_loop.simps) (simp add: load_def store_Some put_bytes_Cons)
qed

lemma c_strcpy_spec [c_spec]:
  assumes "d \<noteq> 0" "cstr_at m s xs" "mapped m d (Suc (length xs))"
    "disjoint_ranges d (Suc (length xs)) s (Suc (length xs))"
  shows "c_strcpy m d s = Some (put_bytes m d (xs @ [NUL]), d)"
  using assms strcpy_loop_spec [of m s xs d] by (simp add: c_strcpy_def cstr_at_def)

lemma c_strcat_spec [c_spec]:
  assumes "cstr_at m d ys" "cstr_at m s xs" "mapped m (d + length ys) (Suc (length xs))"
    "disjoint_ranges (d + length ys) (Suc (length xs)) s (Suc (length xs))"
  shows "c_strcat m d s = Some (put_bytes m (d + length ys) (xs @ [NUL]), d)"
  using assms strcpy_loop_spec [of m s xs "d + length ys"]
  by (simp add: c_strcat_def cstr_at_nonnull c_strlen_spec cstr_at_bytes) (simp add: cstr_at_def)

subsection \<open>Comparison\<close>

text \<open>What \<open>strcmp\<close> and \<open>strncmp\<close> compute on the strings themselves: the lexicographic order of
  the bytes read as signed \<open>char\<close>, the end of a string counting as \<open>0\<close>.\<close>

fun s_strcmp :: "string \<Rightarrow> string \<Rightarrow> int" where
  "s_strcmp [] [] = 0"
| "s_strcmp [] (b # bs) = (if 0 < schar b then - 1 else 1)"
| "s_strcmp (a # as) [] = (if schar a < 0 then - 1 else 1)"
| "s_strcmp (a # as) (b # bs) =
     (if a \<noteq> b then (if schar a < schar b then - 1 else 1) else s_strcmp as bs)"

definition s_strncmp :: "string \<Rightarrow> string \<Rightarrow> nat \<Rightarrow> int" where
  "s_strncmp s t n = s_strcmp (take n s) (take n t)"

lemma strcmp_loop_spec:
  "cstr_at m p s \<Longrightarrow> cstr_at m q t \<Longrightarrow> strcmp_loop m p q = Some (s_strcmp s t)"
proof (induction s t arbitrary: p q rule: s_strcmp.induct)
  case 1 then show ?case by (subst strcmp_loop.simps) (simp add: cstr_at_Nil load_def)
next
  case 2 then show ?case by (subst strcmp_loop.simps) (simp add: cstr_at_Nil cstr_at_Cons load_def)
next
  case 3 then show ?case by (subst strcmp_loop.simps) (simp add: cstr_at_Nil cstr_at_Cons load_def)
next
  case (4 a as b bs)
  then show ?case by (subst strcmp_loop.simps) (auto simp: cstr_at_Cons load_def)
qed

lemma s_strcmp_refl [simp]: "s_strcmp s s = 0"
  by (induction s) simp_all

lemma c_strcmp_spec [c_spec]:
  assumes "cstr_at m p s" "cstr_at m q t" "p \<noteq> q"
  shows "c_strcmp m p q = Some (s_strcmp s t)"
  using assms by (simp add: c_strcmp_def cstr_at_nonnull strcmp_loop_spec)

lemma strncmp_loop_spec:
  "cstr_at m p s \<Longrightarrow> cstr_at m q t \<Longrightarrow> strncmp_loop m p q n = Some (s_strncmp s t n)"
proof (induction n arbitrary: p q s t)
  case (Suc n)
  then show ?case
    by (cases s; cases t) (auto simp: cstr_at_Nil cstr_at_Cons load_def s_strncmp_def)
qed (simp add: s_strncmp_def)

lemma c_strncmp_spec [c_spec]:
  assumes "cstr_at m p s" "cstr_at m q t" "p \<noteq> q"
  shows "c_strncmp m p q n = Some (s_strncmp s t n)"
  using assms by (simp add: c_strncmp_def cstr_at_nonnull strncmp_loop_spec) (simp add: s_strncmp_def)

lemma s_strcmp_zero_iff: "NUL \<notin> set s \<Longrightarrow> NUL \<notin> set t \<Longrightarrow> s_strcmp s t = 0 \<longleftrightarrow> s = t"
  by (induction s t rule: s_strcmp.induct) auto

lemma s_strcmp_values: "s_strcmp s t \<in> {- 1, 0, 1}"
  by (induction s t rule: s_strcmp.induct) auto

lemma s_strcmp_antisym:
  "NUL \<notin> set s \<Longrightarrow> NUL \<notin> set t \<Longrightarrow> s_strcmp t s = - s_strcmp s t"
proof (induction s t rule: s_strcmp.induct)
  case (4 a as b bs)
  then show ?case using schar_inj [of a b] by (auto simp del: schar_inj)
next
  case (2 b bs)
  then show ?case using schar_eq_0 [of b] by (auto simp del: schar_eq_0)
next
  case (3 a as)
  then show ?case using schar_eq_0 [of a] by (auto simp del: schar_eq_0)
qed simp

lemma s_strcmp_trans:
  "s_strcmp s t = - 1 \<Longrightarrow> s_strcmp t u = - 1 \<Longrightarrow>
   NUL \<notin> set s \<Longrightarrow> NUL \<notin> set t \<Longrightarrow> NUL \<notin> set u \<Longrightarrow> s_strcmp s u = - 1"
proof (induction s t arbitrary: u rule: s_strcmp.induct)
  case (2 b bs)
  then show ?case by (cases u) (auto split: if_splits)
next
  case (3 a as)
  then show ?case by (cases u) (auto split: if_splits)
next
  case (4 a as b bs)
  then show ?case by (cases u) (auto split: if_splits)
qed simp

text \<open>On valid strings \<open>strcmp\<close> decides equality and is a strict total order: its result is
  \<open>0\<close> exactly for equal strings, is negated when the arguments are swapped, and "less" is
  transitive.\<close>

theorem strcmp_total_order:
  assumes "cstr_at m p s" "cstr_at m q t" "cstr_at m r u" "p \<noteq> q" "q \<noteq> r" "p \<noteq> r"
  shows "(c_strcmp m p q = Some 0 \<longleftrightarrow> s = t)
    \<and> (\<exists>v. c_strcmp m p q = Some v \<and> c_strcmp m q p = Some (- v))
    \<and> (c_strcmp m p q = Some (- 1) \<and> c_strcmp m q r = Some (- 1) \<longrightarrow> c_strcmp m p r = Some (- 1))"
proof -
  have n: "NUL \<notin> set s" "NUL \<notin> set t" "NUL \<notin> set u" using assms by (simp_all add: cstr_at_def)
  note c = c_strcmp_spec [OF assms(1,2)] c_strcmp_spec [OF assms(2,1)]
    c_strcmp_spec [OF assms(2,3)] c_strcmp_spec [OF assms(1,3)]
  have "c_strcmp m p q = Some 0 \<longleftrightarrow> s = t"
    using assms n by (simp add: c s_strcmp_zero_iff)
  moreover have "\<exists>v. c_strcmp m p q = Some v \<and> c_strcmp m q p = Some (- v)"
    using assms n s_strcmp_antisym [of s t] by (simp add: c)
  moreover have "c_strcmp m p q = Some (- 1) \<and> c_strcmp m q r = Some (- 1) \<longrightarrow> c_strcmp m p r = Some (- 1)"
    using assms n s_strcmp_trans [of s t u] by (simp add: c)
  ultimately show ?thesis by blast
qed

text \<open>A small memory for the concrete instances: three strings at 10, 20 and 30.\<close>

definition demo_mem :: mem where
  "demo_mem = [10 \<mapsto> CHR ''a'', 11 \<mapsto> NUL, 20 \<mapsto> CHR ''b'', 21 \<mapsto> NUL,
               30 \<mapsto> CHR ''c'', 31 \<mapsto> CHR '','', 32 \<mapsto> CHR ''d'', 33 \<mapsto> NUL,
               40 \<mapsto> CHR '','', 41 \<mapsto> NUL]"

lemma demo_cstr:
  "cstr_at demo_mem 10 ''a''" "cstr_at demo_mem 20 ''b''" "cstr_at demo_mem 30 ''c,d''"
  "cstr_at demo_mem 40 '',''"
  by (simp_all add: cstr_at_def demo_mem_def)

theorem strcmp_total_order_witness: "c_strcmp demo_mem 10 20 \<noteq> Some 0"
  using strcmp_total_order [OF demo_cstr(1-3)] by simp

subsection \<open>Searching\<close>

lemma strchr_loop_spec:
  assumes "cstr_at m p s"
  shows "strchr_loop m p c =
    Some (if c \<in> set s then p + length (takeWhile (\<lambda>x. x \<noteq> c) s)
          else if c = NUL then p + length s else 0)"
  using assms
proof (induction s arbitrary: p)
  case Nil
  then show ?case by (subst strchr_loop.simps) (simp add: cstr_at_Nil load_def)
next
  case (Cons x s)
  then have "strchr_loop m (Suc p) c =
    Some (if c \<in> set s then Suc p + length (takeWhile (\<lambda>x. x \<noteq> c) s)
          else if c = NUL then Suc p + length s else 0)"
    by (intro Cons.IH) (simp add: cstr_at_Cons)
  with Cons.prems show ?case by (subst strchr_loop.simps) (auto simp: cstr_at_Cons load_def)
qed

lemma c_strchr_spec [c_spec]:
  assumes "cstr_at m p s" "to_char ch \<noteq> NUL"
  shows "c_strchr m p ch =
    Some (if to_char ch \<in> set s then p + length (takeWhile (\<lambda>x. x \<noteq> to_char ch) s) else 0)"
  using assms by (simp add: c_strchr_def strchr_loop_spec [OF assms(1)] cstr_at_nonnull)

lemma strstr_match_spec:
  assumes "bytes_at m q xs" "cstr_at m h s" "NUL \<notin> set xs"
  shows "strstr_match m h q (length xs) = Some (take (length xs) s = xs)"
  using assms
proof (induction xs arbitrary: q h s)
  case (Cons x xs)
  show ?case
  proof (cases s)
    case Nil
    with Cons.prems show ?thesis by (simp add: cstr_at_Nil load_def)
  next
    case (Cons a as)
    show ?thesis
      using Cons.prems Cons.IH [of "Suc q" "Suc h" as] unfolding Cons
      by (auto simp: cstr_at_Cons load_def)
  qed
qed simp

text \<open>The specification of \<open>strstr\<close>: the index of the first occurrence.\<close>

fun first_occ :: "string \<Rightarrow> string \<Rightarrow> nat option" where
  "first_occ needle [] = (if needle = [] then Some 0 else None)"
| "first_occ needle (c # cs) =
     (if take (length needle) (c # cs) = needle then Some 0
      else map_option Suc (first_occ needle cs))"

lemma first_occ_Some:
  "first_occ t s = Some i \<Longrightarrow>
   take (length t) (drop i s) = t \<and> (\<forall>j<i. take (length t) (drop j s) \<noteq> t)"
proof (induction t s arbitrary: i rule: first_occ.induct)
  case (1 t)
  then show ?case by (auto split: if_splits)
next
  case (2 t c cs)
  show ?case
  proof (cases "take (length t) (c # cs) = t")
    case False
    with 2 obtain k where k: "i = Suc k" "first_occ t cs = Some k" by auto
    with 2 False show ?thesis by (auto simp: less_Suc_eq_0_disj)
  qed (use 2 in auto)
qed

lemma first_occ_None: "first_occ t s = None \<Longrightarrow> take (length t) (drop j s) \<noteq> t"
proof (induction t s arbitrary: j rule: first_occ.induct)
  case (2 t c cs)
  then show ?case by (cases j) (auto split: if_splits)
qed (auto split: if_splits)

lemma strstr_loop_spec:
  assumes "cstr_at m h s" "cstr_at m q (x # xs)"
  shows "strstr_loop m h q (Suc (length xs)) =
    Some (case first_occ (x # xs) s of None \<Rightarrow> 0 | Some i \<Rightarrow> h + i)"
  using assms
proof (induction s arbitrary: h)
  case Nil
  then show ?case by (subst strstr_loop.simps) (simp add: cstr_at_Nil load_def)
next
  case (Cons a s)
  have h: "m h = Some a" "a \<noteq> NUL" "cstr_at m (Suc h) s" and q: "m q = Some x"
    using Cons.prems by (simp_all add: cstr_at_Cons)
  have IH: "strstr_loop m (Suc h) q (Suc (length xs)) =
      Some (case first_occ (x # xs) s of None \<Rightarrow> 0 | Some i \<Rightarrow> Suc h + i)"
    using h Cons.prems by (intro Cons.IH)
  have "strstr_match m (Suc h) (Suc q) (length xs) = Some (take (length xs) s = xs)"
    using Cons.prems h by (intro strstr_match_spec) (auto simp: cstr_at_Cons cstr_at_def bytes_at_append)
  with h q IH show ?case
    by (subst strstr_loop.simps) (auto simp: load_def split: option.splits)
qed

lemma c_strstr_loop: "cstr_at m h s \<Longrightarrow> cstr_at m q t \<Longrightarrow>
  c_strstr m h q = Some (case first_occ t s of None \<Rightarrow> 0 | Some i \<Rightarrow> h + i)"
proof (cases t)
  case Nil
  moreover have "first_occ [] s = Some 0" by (cases s) simp_all
  moreover assume "cstr_at m h s" "cstr_at m q t"
  ultimately show ?thesis by (simp add: c_strstr_def cstr_at_nonnull c_strlen_spec [of m q "[]"])
next
  case (Cons x xs)
  moreover assume "cstr_at m h s" "cstr_at m q t"
  ultimately show ?thesis
    by (simp add: c_strstr_def cstr_at_nonnull c_strlen_spec strstr_loop_spec)
qed

text \<open>\<open>strstr\<close> stops and returns the first position of the needle, or a null pointer exactly
  when the needle does not occur anywhere.\<close>

theorem strstr_first_occurrence:
  assumes "cstr_at m h s" "cstr_at m q t"
  shows "(\<exists>i. c_strstr m h q = Some (h + i) \<and> take (length t) (drop i s) = t
              \<and> (\<forall>j<i. take (length t) (drop j s) \<noteq> t))
       \<or> (c_strstr m h q = Some 0 \<and> (\<forall>j. take (length t) (drop j s) \<noteq> t))"
proof (cases "first_occ t s")
  case None
  with assms show ?thesis by (simp add: c_strstr_loop first_occ_None)
next
  case (Some i)
  with first_occ_Some [OF this] assms show ?thesis by (auto simp: c_strstr_loop)
qed

theorem strstr_first_occurrence_witness:
  "(\<exists>i. c_strstr demo_mem 30 40 = Some (30 + i) \<and> take 1 (drop i ''c,d'') = '','')
   \<or> c_strstr demo_mem 30 40 = Some 0"
  using strstr_first_occurrence [OF demo_cstr(3,4)] by auto

subsection \<open>Delimiters and tokens\<close>

lemma delim_loop_spec: "cstr_at m d ds \<Longrightarrow> delim_loop m d c = Some (c \<in> set ds)"
proof (induction ds arbitrary: d)
  case Nil
  then show ?case by (subst delim_loop.simps) (simp add: cstr_at_Nil load_def)
next
  case (Cons x ds)
  then have "delim_loop m (Suc d) c = Some (c \<in> set ds)" by (simp add: cstr_at_Cons)
  with Cons.prems show ?case by (subst delim_loop.simps) (auto simp: cstr_at_Cons load_def)
qed

lemma clib_delim_contains_spec [c_spec]:
  "cstr_at m d ds \<Longrightarrow> clib_delim_contains m d c = Some (c \<in> set ds)"
  by (simp add: clib_delim_contains_def cstr_at_nonnull delim_loop_spec)

lemma span_loop_spec:
  assumes "cstr_at m (p + k) s" "cstr_at m d ds"
  shows "span_loop w m p d k = Some (k + length (takeWhile (\<lambda>c. (c \<in> set ds) = w) s))"
  using assms(1)
proof (induction s arbitrary: k)
  case Nil
  then show ?case by (subst span_loop.simps) (simp add: cstr_at_Nil load_def)
next
  case (Cons c s)
  then have "span_loop w m p d (Suc k) = Some (Suc k + length (takeWhile (\<lambda>c. (c \<in> set ds) = w) s))"
    by (intro Cons.IH) (simp add: cstr_at_Cons)
  with Cons.prems show ?case
    by (subst span_loop.simps) (auto simp: cstr_at_Cons load_def clib_delim_contains_spec [OF assms(2)])
qed

lemma c_strspn_spec [c_spec]:
  "cstr_at m p s \<Longrightarrow> cstr_at m d ds \<Longrightarrow> c_strspn m p d = Some (length (takeWhile (\<lambda>c. c \<in> set ds) s))"
  using span_loop_spec [of m p 0 s d ds True] by (simp add: c_strspn_def cstr_at_nonnull)

lemma c_strcspn_spec [c_spec]:
  "cstr_at m p s \<Longrightarrow> cstr_at m d ds \<Longrightarrow> c_strcspn m p d = Some (length (takeWhile (\<lambda>c. c \<notin> set ds) s))"
  using span_loop_spec [of m p 0 s d ds False] by (simp add: c_strcspn_def cstr_at_nonnull)

text \<open>One call of \<open>strtok_r\<close> on the text \<open>s\<close>: the token and the text the save pointer is left at.\<close>

definition s_strtok :: "string \<Rightarrow> string \<Rightarrow> (string \<times> string) option" where
  "s_strtok ds s =
     (let t = dropWhile (\<lambda>c. c \<in> set ds) s in
      if t = [] then None
      else Some (takeWhile (\<lambda>c. c \<notin> set ds) t, drop 1 (dropWhile (\<lambda>c. c \<notin> set ds) t)))"

lemma length_dropWhile_Cons: "dropWhile P s = c # t \<Longrightarrow> length t < length s"
  by (metis length_dropWhile_le length_Cons Suc_le_eq)

lemma s_strtok_shorter:
  assumes "s_strtok ds s = Some (tok, rest)" shows "length rest < length s"
proof -
  let ?t = "dropWhile (\<lambda>c. c \<in> set ds) s"
  have t: "?t \<noteq> []" and r: "rest = drop 1 (dropWhile (\<lambda>c. c \<notin> set ds) ?t)"
    using assms by (auto simp: s_strtok_def Let_def split: if_splits)
  have "length rest \<le> length ?t - 1"
    using length_dropWhile_le [of "\<lambda>c. c \<notin> set ds" ?t] by (simp add: r)
  moreover have "length ?t \<le> length s" by (rule length_dropWhile_le)
  moreover have "0 < length ?t" using t by simp
  ultimately show ?thesis by linarith
qed

lemma drop1_split:
  "(\<And>c cs. r = c # cs \<Longrightarrow> P c) \<Longrightarrow>
   \<exists>sep. r = sep @ drop 1 r \<and> ((sep = [] \<and> drop 1 r = []) \<or> (\<exists>c. sep = [c] \<and> P c))"
  by (cases r) auto

lemma s_strtok_tok:
  assumes "s_strtok ds s = Some (tok, rest)"
  shows "tok \<noteq> [] \<and> set tok \<inter> set ds = {} \<and>
    (\<exists>pre sep. s = pre @ tok @ sep @ rest \<and> set pre \<subseteq> set ds
       \<and> ((sep = [] \<and> rest = []) \<or> (\<exists>c. sep = [c] \<and> c \<in> set ds)))"
proof -
  let ?P = "\<lambda>c. c \<in> set ds"
  let ?t = "dropWhile ?P s"
  let ?r = "dropWhile (\<lambda>c. c \<notin> set ds) ?t"
  from assms have t: "?t \<noteq> []" and tok: "tok = takeWhile (\<lambda>c. c \<notin> set ds) ?t" and r: "rest = drop 1 ?r"
    by (auto simp: s_strtok_def Let_def split: if_splits)
  obtain x xs where x: "?t = x # xs" "x \<notin> set ds"
    using t by (metis hd_dropWhile neq_Nil_conv list.sel(1))
  have s: "s = takeWhile ?P s @ tok @ ?r" by (simp add: tok)
  have "set (takeWhile ?P s) \<subseteq> set ds" by (auto dest: set_takeWhileD)
  moreover have "set tok \<inter> set ds = {}" by (auto simp: tok dest: set_takeWhileD)
  moreover have "tok \<noteq> []" using x by (simp add: tok)
  moreover have "\<exists>sep. ?r = sep @ rest \<and> ((sep = [] \<and> rest = []) \<or> (\<exists>c. sep = [c] \<and> c \<in> set ds))"
    unfolding r by (rule drop1_split) (metis hd_dropWhile list.discI list.sel(1))
  ultimately show ?thesis using s by (metis (no_types, lifting))
qed

text \<open>A call of \<open>strtok_r\<close> stops, stays in bounds, and either reports that only delimiters
  are left (memory unchanged), or cuts the next token out of the text: the result points to the
  token as a string of its own, the save pointer to the rest, and no byte outside the text is
  written.\<close>

theorem strtok_r_cuts_token:
  assumes s: "cstr_at m cur s" and d: "cstr_at m delim ds"
  shows "case s_strtok ds s of
     None \<Rightarrow> c_strtok_r m 0 delim (Some cur) = Some (m, Some (cur + length s), 0)
   | Some (tok, rest) \<Rightarrow>
       \<exists>m' sp start. c_strtok_r m 0 delim (Some cur) = Some (m', Some sp, start)
         \<and> cstr_at m' start tok \<and> cstr_at m' sp rest
         \<and> (\<forall>a. a < cur \<or> cur + length s \<le> a \<longrightarrow> m' a = m a)"
proof -
  obtain k t where k: "k = length (takeWhile (\<lambda>c. c \<in> set ds) s)"
    and t: "t = dropWhile (\<lambda>c. c \<in> set ds) s" by blast
  obtain tok r where tok: "tok = takeWhile (\<lambda>c. c \<notin> set ds) t"
    and r: "r = dropWhile (\<lambda>c. c \<notin> set ds) t" by blast
  have st: "cstr_at m (cur + k) t" unfolding k t
    using cstr_at_suffix [of m cur "takeWhile (\<lambda>c. c \<in> set ds) s"] s by simp
  have tr: "t = tok @ r" by (simp add: tok r)
  have sr: "cstr_at m (cur + k + length tok) r"
    by (rule cstr_at_suffix [of m "cur + k" tok r]) (use st tr in simp)
  have len: "k + length t = length s" unfolding k t
    by (metis length_append takeWhile_dropWhile_id)
  have k': "span_loop True m cur delim 0 = Some k"
    using span_loop_spec [of m cur 0 s delim ds True] s d by (simp add: k)
  have n': "span_loop False m (cur + k) delim 0 = Some (length tok)"
    using span_loop_spec [of m "cur + k" 0 t delim ds False] st d by (simp add: tok)
  have nz: "cur \<noteq> 0" "delim \<noteq> 0" using s d by (simp_all add: cstr_at_nonnull)
  have sp: "s_strtok ds s = (if t = [] then None else Some (tok, drop 1 r))"
    by (simp add: s_strtok_def t tok r Let_def)
  note run = c_strtok_r_def nz k' n' load_def Let_def
  have nn: "NUL \<notin> set tok" and tb: "bytes_at m (cur + k) tok"
    using st by (simp_all add: tr cstr_at_def bytes_at_append)
  show ?thesis
  proof (cases t)
    case Nil
    with st len show ?thesis by (simp add: sp run cstr_at_Nil)
  next
    case (Cons x xs)
    with st have x: "m (cur + k) = Some x" "x \<noteq> NUL" by (simp_all add: cstr_at_Cons)
    show ?thesis
    proof (cases r)
      case Nil
      with sr st tr have e: "m (cur + k + length tok) = Some NUL"
        "cstr_at m (cur + k) tok" "cstr_at m (cur + k + length tok) []"
        by (simp_all add: cstr_at_Nil)
      then have "c_strtok_r m 0 delim (Some cur) = Some (m, Some (cur + k + length tok), cur + k)"
        using x by (simp add: run)
      with e Cons Nil show ?thesis by (simp add: sp)
    next
      case c: (Cons c cs)
      with sr have e: "m (cur + k + length tok) = Some c" "c \<noteq> NUL"
        and rest: "cstr_at m (Suc (cur + k + length tok)) cs" by (simp_all add: cstr_at_Cons)
      let ?m = "m(cur + k + length tok \<mapsto> NUL)"
      have 1: "cstr_at ?m (cur + k) tok"
        using nn nz tb bytes_at_upd_other [of "cur + k + length tok" "cur + k" tok m NUL]
        by (simp add: cstr_at_def bytes_at_append)
      have 2: "cstr_at ?m (Suc (cur + k + length tok)) cs"
        using rest bytes_at_upd_other [of "cur + k + length tok" "Suc (cur + k + length tok)" "cs @ [NUL]" m NUL]
        by (simp add: cstr_at_def)
      have 3: "\<forall>a. a < cur \<or> cur + length s \<le> a \<longrightarrow> ?m a = m a"
        using len c tr by auto
      have "c_strtok_r m 0 delim (Some cur) = Some (?m, Some (Suc (cur + k + length tok)), cur + k)"
        using x e by (simp add: run store_Some)
      with 1 2 3 Cons c show ?thesis by (simp only: sp) auto
    qed
  qed
qed

theorem strtok_r_cuts_token_witness:
  "\<exists>m' sp start. c_strtok_r demo_mem 0 40 (Some 30) = Some (m', Some sp, start)
     \<and> cstr_at m' start ''c'' \<and> cstr_at m' sp ''d''"
  using strtok_r_cuts_token [OF demo_cstr(3,4)] by (auto simp: s_strtok_def)

end
