(* ===== verification/LibcNum.thy ===== *)
theory LibcNum
  imports Prelude
begin

text \<open>
  \<open>cleonos/c/src/libc_ctype.c\<close> and the number conversions of \<open>cleonos/c/src/libc_stdlib.c\<close>.
  A character class is a predicate on the \<open>int\<close> argument. The conversions work on the text of a
  C string: \<open>ch_at s i\<close> is the byte at index \<open>i\<close>, the terminating NUL at index \<open>length s\<close>. The
  result of a conversion is the value and the offset that \<open>*out_end\<close> is left at.
\<close>

section \<open>\<open>libc_ctype.c\<close>\<close>

definition c_isspace :: "int \<Rightarrow> bool" where
  "c_isspace ch \<longleftrightarrow> ch = 32 \<or> ch = 9 \<or> ch = 13 \<or> ch = 10 \<or> ch = 11 \<or> ch = 12"

definition c_isdigit :: "int \<Rightarrow> bool" where
  "c_isdigit ch \<longleftrightarrow> 48 \<le> ch \<and> ch \<le> 57"

definition c_isalpha :: "int \<Rightarrow> bool" where
  "c_isalpha ch \<longleftrightarrow> (97 \<le> ch \<and> ch \<le> 122) \<or> (65 \<le> ch \<and> ch \<le> 90)"

definition c_isalnum :: "int \<Rightarrow> bool" where
  "c_isalnum ch \<longleftrightarrow> c_isalpha ch \<or> c_isdigit ch"

definition c_isxdigit :: "int \<Rightarrow> bool" where
  "c_isxdigit ch \<longleftrightarrow> c_isdigit ch \<or> (97 \<le> ch \<and> ch \<le> 102) \<or> (65 \<le> ch \<and> ch \<le> 70)"

definition c_isupper :: "int \<Rightarrow> bool" where
  "c_isupper ch \<longleftrightarrow> 65 \<le> ch \<and> ch \<le> 90"

definition c_islower :: "int \<Rightarrow> bool" where
  "c_islower ch \<longleftrightarrow> 97 \<le> ch \<and> ch \<le> 122"

definition c_isprint :: "int \<Rightarrow> bool" where
  "c_isprint ch \<longleftrightarrow> 0x20 \<le> ch \<and> ch \<le> 0x7E"

definition c_iscntrl :: "int \<Rightarrow> bool" where
  "c_iscntrl ch \<longleftrightarrow> (0 \<le> ch \<and> ch \<le> 0x1F) \<or> ch = 0x7F"

definition c_isgraph :: "int \<Rightarrow> bool" where
  "c_isgraph ch \<longleftrightarrow> 0x20 < ch \<and> ch \<le> 0x7E"

definition c_ispunct :: "int \<Rightarrow> bool" where
  "c_ispunct ch \<longleftrightarrow> c_isgraph ch \<and> \<not> c_isalnum ch"

definition c_isascii :: "int \<Rightarrow> bool" where
  "c_isascii ch \<longleftrightarrow> ch mod 2 ^ 32 \<le> 0x7F"

definition c_tolower :: "int \<Rightarrow> int" where
  "c_tolower ch = (if c_isupper ch then ch - 65 + 97 else ch)"

definition c_toupper :: "int \<Rightarrow> int" where
  "c_toupper ch = (if c_islower ch then ch - 97 + 65 else ch)"

lemmas ctype_defs = c_isspace_def c_isdigit_def c_isalpha_def c_isalnum_def c_isxdigit_def
  c_isupper_def c_islower_def c_isprint_def c_iscntrl_def c_isgraph_def c_ispunct_def
  c_isascii_def c_tolower_def c_toupper_def

text \<open>On the 7-bit characters the classes partition as the C standard says (control or
  printable, printable is space, letter, digit or punctuation, each exactly one), and the case
  maps are inverse on letters and idempotent everywhere.\<close>

theorem ctype_partition:
  "(0 \<le> ch \<and> ch \<le> 127 \<longleftrightarrow> c_iscntrl ch \<or> c_isprint ch)
   \<and> \<not> (c_iscntrl ch \<and> c_isprint ch)
   \<and> (c_isprint ch \<longleftrightarrow> ch = 32 \<or> c_isalpha ch \<or> c_isdigit ch \<or> c_ispunct ch)
   \<and> \<not> (c_isalpha ch \<and> c_isdigit ch) \<and> \<not> (c_ispunct ch \<and> c_isalnum ch)
   \<and> (c_isalpha ch \<longleftrightarrow> c_isupper ch \<noteq> c_islower ch)
   \<and> c_tolower (c_tolower ch) = c_tolower ch \<and> c_toupper (c_toupper ch) = c_toupper ch
   \<and> c_toupper (c_tolower ch) = c_toupper ch"
  unfolding ctype_defs by (intro conjI; presburger)

section \<open>C strings as values\<close>

definition ch_at :: "string \<Rightarrow> nat \<Rightarrow> char" where
  "ch_at s i = (if i < length s then s ! i else NUL)"

lemma ch_at_0_Cons [simp]: "ch_at (c # cs) 0 = c"
  by (simp add: ch_at_def)

lemma ch_at_Suc_Cons [simp]: "ch_at (c # cs) (Suc i) = ch_at cs i"
  by (simp add: ch_at_def)

lemma ch_at_Nil [simp]: "ch_at [] i = NUL"
  by (simp add: ch_at_def)

lemma ch_at_NUL: "NUL \<notin> set s \<Longrightarrow> ch_at s i = NUL \<longleftrightarrow> length s \<le> i"
  by (auto simp: ch_at_def) (metis nth_mem)

lemma ch_at_drop: "ch_at (drop k s) i = ch_at s (k + i)"
  by (auto simp: ch_at_def)

section \<open>Conversions\<close>

definition clib_digit_value :: "int \<Rightarrow> int" where
  "clib_digit_value ch =
     (if 48 \<le> ch \<and> ch \<le> 57 then ch - 48
      else if 97 \<le> ch \<and> ch \<le> 122 then 10 + (ch - 97)
      else if 65 \<le> ch \<and> ch \<le> 90 then 10 + (ch - 65)
      else - 1)"

definition clib_skip_space :: "string \<Rightarrow> nat" where
  "clib_skip_space text = length (takeWhile (\<lambda>c. c_isspace (uchar c)) text)"

text \<open>\<open>abs\<close>, \<open>labs\<close> and \<open>llabs\<close>: the negation of the least value overflows, which is
  undefined behaviour (\<open>None\<close>).\<close>

definition c_abs :: "int \<Rightarrow> int option" where
  "c_abs value = (if value < 0 then (if value = INT_MIN then None else Some (- value)) else Some value)"

definition c_labs :: "int \<Rightarrow> int option" where
  "c_labs value = (if value < 0 then (if value = LONG_MIN then None else Some (- value)) else Some value)"

definition c_llabs :: "int \<Rightarrow> int option" where
  "c_llabs value = (if value < 0 then (if value = LONG_MIN then None else Some (- value)) else Some value)"

text \<open>The sign and the base prefix, as \<open>strtoul\<close> and \<open>strtol\<close> scan them: the position after
  them, whether a minus sign was read, and the base that is used.\<close>

definition num_sign :: "string \<Rightarrow> nat \<Rightarrow> nat \<times> bool" where
  "num_sign text p =
     (if ch_at text p = CHR ''+'' \<or> ch_at text p = CHR ''-''
      then (p + 1, ch_at text p = CHR ''-'') else (p, False))"

definition num_base :: "string \<Rightarrow> nat \<Rightarrow> int \<Rightarrow> nat \<times> int" where
  "num_base text p base =
     (if base = 0 then
        (if ch_at text p = CHR ''0'' then
           (if (ch_at text (p + 1) = CHR ''x'' \<or> ch_at text (p + 1) = CHR ''X'')
               \<and> c_isxdigit (uchar (ch_at text (p + 2)))
            then (p + 2, 16) else (p, 8))
         else (p, 10))
      else if base = 16 then
        (if ch_at text p = CHR ''0'' \<and> (ch_at text (p + 1) = CHR ''x'' \<or> ch_at text (p + 1) = CHR ''X'')
         then (p + 2, 16) else (p, 16))
      else (p, base))"

text \<open>The digit loop over the rest of the text: the value, whether a digit was read, whether the
  value left the limit, and the number of digits.\<close>

fun digit_loop :: "nat \<Rightarrow> int \<Rightarrow> string \<Rightarrow> nat \<Rightarrow> bool \<Rightarrow> bool \<Rightarrow> nat \<Rightarrow> nat \<times> bool \<times> bool \<times> nat" where
  "digit_loop lim base [] value any overflow n = (value, any, overflow, n)"
| "digit_loop lim base (c # cs) value any overflow n =
     (let digit = clib_digit_value (uchar c) in
      if digit < 0 \<or> base \<le> digit then (value, any, overflow, n)
      else if value > sub64 lim (nat digit) div nat base
           then digit_loop lim base cs lim True True (n + 1)
      else if \<not> overflow
           then digit_loop lim base cs (add64 (mul64 value (nat base)) (nat digit)) True overflow (n + 1)
      else digit_loop lim base cs value True overflow (n + 1))"

definition c_strtoul :: "string option \<Rightarrow> int \<Rightarrow> nat \<times> nat" where
  "c_strtoul text base =
     (case text of None \<Rightarrow> (0, 0)
      | Some text \<Rightarrow>
        let (p, negative) = num_sign text (clib_skip_space text);
            (p, base) = num_base text p base in
        if base < 2 \<or> 36 < base then (0, 0)
        else let (value, any, overflow, n) = digit_loop ULONG_MAX base (drop p text) 0 False False 0 in
          if \<not> any then (0, 0)
          else (if negative then sub64 0 value else value, p + n))"

definition c_strtol :: "string option \<Rightarrow> int \<Rightarrow> int \<times> nat" where
  "c_strtol text base =
     (case text of None \<Rightarrow> (0, 0)
      | Some text \<Rightarrow>
        let (p, negative) = num_sign text (clib_skip_space text);
            (p, base) = num_base text p base in
        if base < 2 \<or> 36 < base then (0, 0)
        else
          let lim = (if negative then add64 (nat LONG_MAX) 1 else nat LONG_MAX);
              (value, any, overflow, n) = digit_loop lim base (drop p text) 0 False False 0 in
          if \<not> any then (0, 0)
          else if overflow then (if negative then LONG_MIN else LONG_MAX, p + n)
          else if negative
               then (if value = add64 (nat LONG_MAX) 1 then LONG_MIN else - int value, p + n)
          else (int value, p + n))"

definition c_strtoll :: "string option \<Rightarrow> int \<Rightarrow> int \<times> nat" where
  "c_strtoll text base = c_strtol text base"

definition c_strtoull :: "string option \<Rightarrow> int \<Rightarrow> nat \<times> nat" where
  "c_strtoull text base = c_strtoul text base"

text \<open>The conversion of a \<open>long\<close> to \<open>int\<close> keeps the low 32 bits (two's complement).\<close>

definition long_to_int :: "int \<Rightarrow> int" where
  "long_to_int v = (v + 2 ^ 31) mod 2 ^ 32 - 2 ^ 31"

definition c_atoi :: "string option \<Rightarrow> int" where
  "c_atoi text = long_to_int (fst (c_strtol text 10))"

definition c_atol :: "string option \<Rightarrow> int" where
  "c_atol text = fst (c_strtol text 10)"

definition c_atoll :: "string option \<Rightarrow> int" where
  "c_atoll text = fst (c_strtoll text 10)"

section \<open>\<open>srand\<close> and \<open>rand\<close>\<close>

definition RAND_MAX :: nat where "RAND_MAX = 0x7FFF"

definition c_srand :: "u32 \<Rightarrow> u64" where
  "c_srand seed = (if seed = 0 then 1 else ucast seed)"

definition c_rand :: "u64 \<Rightarrow> u64 \<times> int" where
  "c_rand state =
     (let state = 1103515245 * state + 12345
      in (state, uint (drop_bit 16 state AND of_nat RAND_MAX)))"

section \<open>The conversions compute the mathematical value, saturated\<close>

definition is_digit_in :: "int \<Rightarrow> char \<Rightarrow> bool" where
  "is_digit_in base c \<longleftrightarrow> 0 \<le> clib_digit_value (uchar c) \<and> clib_digit_value (uchar c) < base"

definition digits_from :: "int \<Rightarrow> nat \<Rightarrow> string \<Rightarrow> nat" where
  "digits_from base v ds = foldl (\<lambda>v c. v * nat base + nat (clib_digit_value (uchar c))) v ds"

definition digits_val :: "int \<Rightarrow> string \<Rightarrow> nat" where
  "digits_val base ds = digits_from base 0 ds"

lemma digits_from_Nil [simp]: "digits_from base v [] = v"
  by (simp add: digits_from_def)

lemma digits_from_Cons [simp]:
  "digits_from base v (c # ds) = digits_from base (v * nat base + nat (clib_digit_value (uchar c))) ds"
  by (simp add: digits_from_def)

lemma is_digit_in_nat: "is_digit_in base c \<Longrightarrow> nat (clib_digit_value (uchar c)) < nat base"
  by (auto simp: is_digit_in_def)

lemma overflow_test:
  fixes v b d lim :: nat
  assumes "d \<le> lim" "2 \<le> b"
  shows "v > (lim - d) div b \<longleftrightarrow> v * b + d > lim"
proof -
  have "v > (lim - d) div b \<longleftrightarrow> lim - d < v * b"
    using assms by (simp add: div_less_iff_less_mult)
  then show ?thesis using assms by linarith
qed

lemma overflow_stays:
  fixes v b d lim :: nat
  assumes "lim < v" "2 \<le> b" shows "lim < v * b + d"
proof -
  have "v * 1 \<le> v * b" using assms by (intro mult_le_mono) simp_all
  with assms show ?thesis by linarith
qed

lemma digit_loop_spec:
  fixes lim :: nat and base :: int
  assumes lim: "lim < 2 ^ 64" "36 \<le> lim" and base: "2 \<le> base" "base \<le> 36"
  shows "digit_loop lim base s (min v lim) any (lim < v) n =
    (let ds = takeWhile (is_digit_in base) s; v' = digits_from base v ds
     in (min v' lim, any \<or> ds \<noteq> [], lim < v', n + length ds))"
proof (induction s arbitrary: v any n)
  case (Cons c s)
  let ?d = "nat (clib_digit_value (uchar c))"
  let ?b = "nat base"
  show ?case
  proof (cases "is_digit_in base c")
    case False
    then show ?thesis by (auto simp: is_digit_in_def Let_def)
  next
    case True
    then have g: "\<not> (clib_digit_value (uchar c) < 0 \<or> base \<le> clib_digit_value (uchar c))"
      by (auto simp: is_digit_in_def)
    have d: "?d < ?b" "?b \<le> 36" "2 \<le> ?b" using True base by (auto simp: is_digit_in_def)
    then have dl: "?d \<le> lim" using lim by linarith
    have s: "sub64 lim ?d = lim - ?d" using dl lim by (simp add: sub64_small)
    note test = overflow_test [OF dl d(3)]
    let ?v = "v * ?b + ?d"
    have goal: "digit_loop lim base (c # s) (min v lim) any (lim < v) n
      = digit_loop lim base s (min ?v lim) True (lim < ?v) (n + 1)"
    proof (cases "lim < v")
      case True
      have "(lim - ?d) div ?b \<le> lim div ?b" by (intro div_le_mono) simp
      also have "lim div ?b < lim" using d lim by (intro div_less_dividend) simp_all
      finally have "(lim - ?d) div ?b < lim" .
      with True overflow_stays [OF True d(3), of ?d] g s show ?thesis by (simp add: Let_def)
    next
      case False
      then have m: "min v lim = v" by simp
      show ?thesis
      proof (cases "lim < ?v")
        case True
        then have "v > (lim - ?d) div ?b" using test by simp
        with True False g s m show ?thesis by (simp add: Let_def)
      next
        case nov: False
        then have "\<not> v > (lim - ?d) div ?b" using test by simp
        moreover have "add64 (mul64 v ?b) ?d = ?v"
          using nov lim by (simp add: add64_small mul64_small)
        ultimately show ?thesis using False nov g s m by (simp add: Let_def)
      qed
    qed
    show ?thesis unfolding goal Cons.IH using True by (simp add: Let_def)
  qed
qed simp

lemma digit_loop_from_0:
  assumes "lim < 2 ^ 64" "36 \<le> lim" "2 \<le> base" "base \<le> 36"
  shows "digit_loop lim base s 0 False False 0 =
    (let ds = takeWhile (is_digit_in base) s; v = digits_val base ds
     in (min v lim, ds \<noteq> [], lim < v, length ds))"
  using digit_loop_spec [OF assms, of s 0 False 0] by (simp add: digits_val_def)

text \<open>What \<open>strtol\<close> computes.\<close>

definition strtol_spec :: "string \<Rightarrow> int \<Rightarrow> int \<times> nat" where
  "strtol_spec text base0 =
     (let (q, negative) = num_sign text (clib_skip_space text);
          (p, base) = num_base text q base0;
          ds = takeWhile (is_digit_in base) (drop p text);
          v = int (digits_val base ds)
      in if base < 2 \<or> 36 < base \<or> ds = [] then (0, 0)
         else (max LONG_MIN (min LONG_MAX (if negative then - v else v)), p + length ds))"

lemma strtol_correct [c_spec]: "c_strtol (Some text) base0 = strtol_spec text base0"
proof -
  obtain q negative where q: "num_sign text (clib_skip_space text) = (q, negative)" by fastforce
  obtain p base where p: "num_base text q base0 = (p, base)" by fastforce
  show ?thesis
  proof (cases "base < 2 \<or> 36 < base")
    case True
    then show ?thesis by (auto simp: c_strtol_def strtol_spec_def q p)
  next
    case False
    then have b: "2 \<le> base" "base \<le> 36" by simp_all
    have l: "add64 9223372036854775807 (Suc 0) = 9223372036854775808" "nat LONG_MAX = 9223372036854775807"
      by (simp_all add: LONG_MAX_def add64_def)
    have n: "\<not> base < 2" "\<not> 36 < base" using b by simp_all
    show ?thesis
    proof (cases negative)
      case True
      have "digit_loop (add64 (nat LONG_MAX) 1) base (drop p text) 0 False False 0 =
        (let ds = takeWhile (is_digit_in base) (drop p text); v = digits_val base ds
         in (min v (add64 (nat LONG_MAX) 1), ds \<noteq> [], add64 (nat LONG_MAX) 1 < v, length ds))"
        by (rule digit_loop_from_0) (simp_all add: l b)
      with True n show ?thesis
        by (simp add: c_strtol_def strtol_spec_def q p Let_def l LONG_MIN_def LONG_MAX_def)
    next
      case neg: False
      have "digit_loop (nat LONG_MAX) base (drop p text) 0 False False 0 =
        (let ds = takeWhile (is_digit_in base) (drop p text); v = digits_val base ds
         in (min v (nat LONG_MAX), ds \<noteq> [], nat LONG_MAX < v, length ds))"
        by (rule digit_loop_from_0) (simp_all add: l b)
      with neg n show ?thesis
        by (simp add: c_strtol_def strtol_spec_def q p Let_def l LONG_MIN_def LONG_MAX_def)
    qed
  qed
qed

lemma strtoul_saturates [c_spec]:
  "c_strtoul (Some text) base0 =
     (let (q, negative) = num_sign text (clib_skip_space text);
          (p, base) = num_base text q base0;
          ds = takeWhile (is_digit_in base) (drop p text);
          v = min (digits_val base ds) ULONG_MAX
      in if base < 2 \<or> 36 < base \<or> ds = [] then (0, 0)
         else (if negative then sub64 0 v else v, p + length ds))"
proof -
  obtain q negative where q: "num_sign text (clib_skip_space text) = (q, negative)" by fastforce
  obtain p base where p: "num_base text q base0 = (p, base)" by fastforce
  show ?thesis
  proof (cases "base < 2 \<or> 36 < base")
    case True
    then show ?thesis by (auto simp: c_strtoul_def q p)
  next
    case False
    then have b: "2 \<le> base" "base \<le> 36" by simp_all
    have "digit_loop ULONG_MAX base (drop p text) 0 False False 0 =
      (let ds = takeWhile (is_digit_in base) (drop p text); v = digits_val base ds
       in (min v ULONG_MAX, ds \<noteq> [], ULONG_MAX < v, length ds))"
      by (rule digit_loop_from_0) (simp_all add: b ULONG_MAX_def)
    with False show ?thesis by (simp add: c_strtoul_def q p Let_def)
  qed
qed

text \<open>For every text and every base, \<open>strtol\<close> returns the value of the maximal run of digits
  after the spaces, sign and base prefix, with the sign, saturated to the range of \<open>long\<close>, and
  leaves \<open>*out_end\<close> right behind that run; without a digit (or with a base that is not
  supported) it returns 0 and \<open>*out_end = text\<close>.\<close>

theorem strtol_saturates: "c_strtol (Some text) base0 = strtol_spec text base0"
  by (rule strtol_correct)

text \<open>With base 16 the prefix \<open>0x\<close> is skipped without checking that a digit follows, so a
  text such as \<open>0xg\<close> is reported as holding no number at all, although its first character is
  the number 0 (base 0, which has the check, finds it).\<close>

theorem strtol_hex_prefix_without_digits:
  "c_strtol (Some ''0xg'') 16 = (0, 0) \<and> c_strtol (Some ''0xg'') 0 = (0, 1)"
  by (simp add: strtol_correct strtol_spec_def num_sign_def num_base_def clib_skip_space_def
      ctype_defs is_digit_in_def clib_digit_value_def uchar_def ch_at_def Let_def
      digits_val_def LONG_MIN_def LONG_MAX_def)

text \<open>\<open>rand\<close> stays within \<open>RAND_MAX\<close>, and \<open>srand\<close> never leaves the generator in state 0.\<close>

theorem rand_range:
  "0 \<le> snd (c_rand state) \<and> snd (c_rand state) \<le> int RAND_MAX \<and> c_srand seed \<noteq> 0"
proof -
  have "drop_bit 16 s AND of_nat RAND_MAX \<le> (of_nat RAND_MAX :: u64)" for s :: u64
    by (rule word_and_le1)
  then have "uint (drop_bit 16 s AND of_nat RAND_MAX) \<le> uint (of_nat RAND_MAX :: u64)" for s :: u64
    by (simp add: word_le_def)
  then have "uint (drop_bit 16 s AND of_nat RAND_MAX) \<le> int RAND_MAX" for s :: u64
    by (simp add: RAND_MAX_def)
  moreover have "ucast seed \<noteq> (0 :: u64)" if "seed \<noteq> 0"
  proof -
    have "uint seed < 2 ^ 64" using uint_lt2p [of seed] by simp
    then have "uint (ucast seed :: u64) = uint seed"
      by (simp add: unsigned_ucast_eq take_bit_int_eq_self)
    with that show ?thesis by (auto simp: uint_0_iff)
  qed
  ultimately show ?thesis by (simp add: c_rand_def c_srand_def Let_def)
qed

end
