(* ===== verification/LibcHeap.thy ===== *)
theory LibcHeap
  imports LibcString
begin

text \<open>
  The allocator of \<open>cleonos/c/src/libc_stdlib.c\<close> (\<open>malloc\<close>, \<open>free\<close>, \<open>calloc\<close>, \<open>realloc\<close>). The
  block headers form a doubly linked list in memory; they are kept here as a partial map from
  header addresses to header records, with the \<open>next\<close> and \<open>prev\<close> pointers as addresses and the
  statics \<open>clib_heap_head\<close> and \<open>clib_heap_tail\<close> in the state. Following a pointer to an address
  that holds no header is undefined behaviour (\<open>None\<close>). Sizes are \<open>size_t\<close>: every addition
  and subtraction of the code wraps at 64 bits.
\<close>

section \<open>State\<close>

definition HEAP_MAGIC :: nat where "HEAP_MAGIC = 0xC10B5A7E"
definition HEAP_CAPACITY :: nat where "HEAP_CAPACITY = 256 * 1024"
definition HEAP_CHUNK_MIN :: nat where "HEAP_CHUNK_MIN = 64 * 1024"
definition HEAP_CHUNK_MAX :: nat where "HEAP_CHUNK_MAX = 4 * 1024 * 1024"

record clib_heap_block =
  hb_size :: nat
  hb_used :: bool
  hb_magic :: nat
  hb_next :: addr
  hb_prev :: addr

type_synonym headers = "addr \<rightharpoonup> clib_heap_block"

record clib_heap =
  hp_blocks :: headers
  hp_head :: addr
  hp_tail :: addr

definition empty_heap :: clib_heap where
  "empty_heap = \<lparr>hp_blocks = Map.empty, hp_head = 0, hp_tail = 0\<rparr>"

text \<open>The two system calls that provide chunks, as functions of the requested size
  (the kernel is not part of the repository).\<close>

record vm_kernel =
  sys_vm_alloc :: "nat \<Rightarrow> addr"
  sys_user_heap_alloc :: "nat \<Rightarrow> addr"

section \<open>Operations\<close>

definition clib_align_up :: "u64 \<Rightarrow> u64 \<Rightarrow> u64" where
  "clib_align_up value align =
     (if align = 0 then value else (let mask = align - 1 in (value + mask) AND NOT mask))"

text \<open>\<open>clib_align_up(n, CLIB_HEAP_ALIGN)\<close> on sizes.\<close>

definition align16 :: "nat \<Rightarrow> nat" where
  "align16 n = unat (clib_align_up (of_nat n) 16)"

text \<open>\<open>sizeof(clib_heap_block)\<close> is 32 on LP64 (8 + 4 + 4 + 8 + 8).\<close>

definition clib_heap_header_size :: nat where
  "clib_heap_header_size = align16 32"

definition upd_block :: "clib_heap \<Rightarrow> addr \<Rightarrow> (clib_heap_block \<Rightarrow> clib_heap_block) \<Rightarrow> clib_heap option" where
  "upd_block h a f =
     do { b \<leftarrow> hp_blocks h a; Some (h\<lparr>hp_blocks := (hp_blocks h)(a \<mapsto> f b)\<rparr>) }"

definition clib_heap_blocks_are_adjacent :: "addr \<Rightarrow> clib_heap_block \<Rightarrow> addr \<Rightarrow> bool" where
  "clib_heap_blocks_are_adjacent block b next_at \<longleftrightarrow>
     block \<noteq> 0 \<and> next_at \<noteq> 0 \<and> add64 (add64 block clib_heap_header_size) (hb_size b) = next_at"

definition clib_heap_split :: "clib_heap \<Rightarrow> addr \<Rightarrow> nat \<Rightarrow> clib_heap option" where
  "clib_heap_split h block need =
     (if block = 0 then Some h
      else do {
        b \<leftarrow> hp_blocks h block;
        if hb_size b \<le> add64 (add64 need clib_heap_header_size) 16 then Some h
        else do {
          let next_addr = add64 (add64 block clib_heap_header_size) need;
          let nb = \<lparr>hb_size = sub64 (sub64 (hb_size b) need) clib_heap_header_size, hb_used = False,
                    hb_magic = HEAP_MAGIC, hb_next = hb_next b, hb_prev = block\<rparr>;
          let h = h\<lparr>hp_blocks := (hp_blocks h)(next_addr \<mapsto> nb)\<rparr>;
          h \<leftarrow> (if hb_next b \<noteq> 0 then upd_block h (hb_next b) (\<lambda>n. n\<lparr>hb_prev := next_addr\<rparr>)
               else Some (h\<lparr>hp_tail := next_addr\<rparr>));
          upd_block h block (\<lambda>b. b\<lparr>hb_next := next_addr, hb_size := need\<rparr>)
        }
      })"

definition clib_heap_merge_next :: "clib_heap \<Rightarrow> addr \<Rightarrow> clib_heap option" where
  "clib_heap_merge_next h block =
     (if block = 0 then Some h
      else do {
        b \<leftarrow> hp_blocks h block;
        if hb_used b then Some h
        else if hb_next b = 0 then Some h
        else do {
          n \<leftarrow> hp_blocks h (hb_next b);
          if hb_magic n \<noteq> HEAP_MAGIC \<or> hb_used n \<or> \<not> clib_heap_blocks_are_adjacent block b (hb_next b)
          then Some h
          else do {
            h \<leftarrow> upd_block h block (\<lambda>b. b\<lparr>hb_size := add64 (hb_size b) (add64 clib_heap_header_size (hb_size n)),
                                        hb_next := hb_next n\<rparr>);
            if hb_next n \<noteq> 0 then upd_block h (hb_next n) (\<lambda>k. k\<lparr>hb_prev := block\<rparr>)
            else Some (h\<lparr>hp_tail := block\<rparr>)
          }
        }
      })"

partial_function (option) block_from_ptr_loop :: "headers \<Rightarrow> addr \<Rightarrow> addr \<Rightarrow> addr option" where
  "block_from_ptr_loop m ptr current =
     (if current = 0 then Some 0
      else do {
        b \<leftarrow> m current;
        if hb_magic b \<noteq> HEAP_MAGIC then Some 0
        else if add64 current clib_heap_header_size = ptr \<and> hb_used b then Some current
        else block_from_ptr_loop m ptr (hb_next b)
      })"

definition clib_heap_block_from_ptr :: "clib_heap \<Rightarrow> addr \<Rightarrow> addr option" where
  "clib_heap_block_from_ptr h ptr =
     (if ptr = 0 then Some 0 else block_from_ptr_loop (hp_blocks h) ptr (hp_head h))"

definition heap_chunk_size :: "nat \<Rightarrow> nat" where
  "heap_chunk_size need =
     (let c = HEAP_CAPACITY;
          c = (if c < HEAP_CHUNK_MIN then HEAP_CHUNK_MIN else c);
          c = (if c > HEAP_CHUNK_MAX then HEAP_CHUNK_MAX else c);
          c = (if c < add64 need clib_heap_header_size then add64 need clib_heap_header_size else c)
      in align16 c)"

definition chunk_addr :: "vm_kernel \<Rightarrow> nat \<Rightarrow> addr" where
  "chunk_addr K c = (let a = sys_vm_alloc K c in if a = 0 then sys_user_heap_alloc K c else a)"

definition clib_heap_request_chunk :: "vm_kernel \<Rightarrow> clib_heap \<Rightarrow> nat \<Rightarrow> (clib_heap \<times> addr) option" where
  "clib_heap_request_chunk K h need =
     (let chunk_size = heap_chunk_size need; block = chunk_addr K chunk_size in
      if block = 0 then Some (h, 0)
      else do {
        let b = \<lparr>hb_size = sub64 chunk_size clib_heap_header_size, hb_used = False,
                 hb_magic = HEAP_MAGIC, hb_next = 0, hb_prev = hp_tail h\<rparr>;
        let h = h\<lparr>hp_blocks := (hp_blocks h)(block \<mapsto> b)\<rparr>;
        h \<leftarrow> (if hp_tail h \<noteq> 0 then upd_block h (hp_tail h) (\<lambda>t. t\<lparr>hb_next := block\<rparr>)
             else Some (h\<lparr>hp_head := block\<rparr>));
        Some (h\<lparr>hp_tail := block\<rparr>, block)
      })"

text \<open>The first-fit search of \<open>malloc\<close>; \<open>0\<close> when no block fits.\<close>

partial_function (option) first_fit :: "headers \<Rightarrow> nat \<Rightarrow> addr \<Rightarrow> addr option" where
  "first_fit m need current =
     (if current = 0 then Some 0
      else do {
        b \<leftarrow> m current;
        if hb_magic b = HEAP_MAGIC \<and> \<not> hb_used b \<and> need \<le> hb_size b then Some current
        else first_fit m need (hb_next b)
      })"

definition heap_take :: "clib_heap \<Rightarrow> addr \<Rightarrow> nat \<Rightarrow> (clib_heap \<times> addr) option" where
  "heap_take h current need =
     do { h \<leftarrow> clib_heap_split h current need;
          h \<leftarrow> upd_block h current (\<lambda>b. b\<lparr>hb_used := True\<rparr>);
          Some (h, add64 current clib_heap_header_size) }"

definition c_malloc :: "vm_kernel \<Rightarrow> clib_heap \<Rightarrow> nat \<Rightarrow> (clib_heap \<times> addr) option" where
  "c_malloc K h sz =
     (if sz = 0 then Some (h, 0)
      else do {
        let need = align16 sz;
        current \<leftarrow> first_fit (hp_blocks h) need (hp_head h);
        if current \<noteq> 0 then heap_take h current need
        else do {
          (h, current) \<leftarrow> clib_heap_request_chunk K h need;
          if current = 0 then Some (h, 0) else heap_take h current need
        }
      })"

definition c_free :: "clib_heap \<Rightarrow> addr \<Rightarrow> clib_heap option" where
  "c_free h ptr =
     do { block \<leftarrow> clib_heap_block_from_ptr h ptr;
          if block = 0 then Some h
          else do {
            h \<leftarrow> upd_block h block (\<lambda>b. b\<lparr>hb_used := False\<rparr>);
            h \<leftarrow> clib_heap_merge_next h block;
            b \<leftarrow> hp_blocks h block;
            if hb_prev b \<noteq> 0 then clib_heap_merge_next h (hb_prev b) else Some h
          } }"

definition c_calloc :: "vm_kernel \<Rightarrow> clib_heap \<Rightarrow> mem \<Rightarrow> nat \<Rightarrow> nat \<Rightarrow> (clib_heap \<times> mem \<times> addr) option" where
  "c_calloc K h m count sz =
     (if count = 0 \<or> sz = 0 then Some (h, m, 0)
      else if ULONG_MAX div sz < count then Some (h, m, 0)
      else do {
        let total = mul64 count sz;
        (h, ptr) \<leftarrow> c_malloc K h total;
        if ptr = 0 then Some (h, m, 0)
        else do { (m, _) \<leftarrow> c_memset m ptr 0 total; Some (h, m, ptr) }
      })"

definition c_realloc :: "vm_kernel \<Rightarrow> clib_heap \<Rightarrow> mem \<Rightarrow> addr \<Rightarrow> nat \<Rightarrow> (clib_heap \<times> mem \<times> addr) option" where
  "c_realloc K h m ptr sz =
     (if ptr = 0 then do { (h, p) \<leftarrow> c_malloc K h sz; Some (h, m, p) }
      else if sz = 0 then do { h \<leftarrow> c_free h ptr; Some (h, m, 0) }
      else do {
        block \<leftarrow> clib_heap_block_from_ptr h ptr;
        if block = 0 then Some (h, m, 0)
        else do {
          b \<leftarrow> hp_blocks h block;
          let old_size = hb_size b;
          let sz = align16 sz;
          if sz \<le> old_size then do { h \<leftarrow> clib_heap_split h block sz; Some (h, m, ptr) }
          else do {
            grow \<leftarrow> (if hb_next b \<noteq> 0
                    then do { n \<leftarrow> hp_blocks h (hb_next b); Some (\<not> hb_used n) } else Some False);
            h \<leftarrow> (if grow then clib_heap_merge_next h block else Some h);
            b \<leftarrow> hp_blocks h block;
            if grow \<and> sz \<le> hb_size b then do { h \<leftarrow> clib_heap_split h block sz; Some (h, m, ptr) }
            else do {
              (h, out) \<leftarrow> c_malloc K h sz;
              if out = 0 then Some (h, m, 0)
              else do {
                (m, _) \<leftarrow> (if old_size < sz then c_memcpy m out ptr old_size else c_memcpy m out ptr sz);
                h \<leftarrow> c_free h ptr;
                Some (h, m, out)
              }
            }
          }
        }
      })"

section \<open>Alignment\<close>

lemma and_not_mask4: "(x :: u64) AND NOT 15 = push_bit 4 (drop_bit 4 x)"
proof -
  have m: "(15 :: u64) = mask 4" by (simp add: mask_eq_exp_minus_1)
  show ?thesis unfolding m by (rule bit_word_eqI) (auto simp: bit_simps)
qed

lemma clib_align_up_16: "clib_align_up x 16 = push_bit 4 (drop_bit 4 (x + 15))"
proof -
  have "(16 :: u64) \<noteq> 0" "(16 :: u64) - 1 = 15" by simp_all
  then show ?thesis by (simp only: clib_align_up_def Let_def if_False and_not_mask4)
qed

lemma align16_eq:
  assumes "n + 15 < 2 ^ 64" shows "align16 n = (n + 15) div 16 * 16"
proof -
  have n: "unat (of_nat (n + 15) :: u64) = n + 15"
    by (simp only: unat_of_nat) (use assms in simp)
  have "clib_align_up (of_nat n) 16 = push_bit 4 (drop_bit 4 (of_nat (n + 15) :: u64))"
    by (simp only: clib_align_up_16 of_nat_add of_nat_numeral)
  then have "align16 n = unat (push_bit 4 (drop_bit 4 (of_nat (n + 15) :: u64)))"
    by (simp add: align16_def)
  also have "\<dots> = ((n + 15) div 16 * 16) mod 2 ^ 64"
    by (simp only: unsigned_push_bit_eq unsigned_drop_bit_eq n)
      (use assms in \<open>simp add: push_bit_eq_mult drop_bit_eq_div take_bit_eq_mod\<close>)
  also have "\<dots> = (n + 15) div 16 * 16"
    using assms by (intro mod_less) (meson div_times_less_eq_dividend le_less_trans)
  finally show ?thesis .
qed

lemma align16_bounds:
  assumes "n + 15 < 2 ^ 64"
  shows "n \<le> align16 n" "align16 n < n + 16" "align16 n mod 16 = 0" "align16 n < 2 ^ 64"
  using assms by (simp_all add: align16_eq)

lemma header_size [simp]: "clib_heap_header_size = 32"
  by (simp add: clib_heap_header_size_def align16_eq)

section \<open>The abstract heap\<close>

text \<open>A heap is represented by the list of its blocks: address of the header, payload size, and
  whether the payload is in use. \<open>dll m p c bs l n\<close>: starting at \<open>c\<close> with predecessor \<open>p\<close>, the
  headers of \<open>bs\<close> are linked in both directions; the last one is \<open>l\<close> and links to \<open>n\<close>.\<close>

type_synonym blk = "addr \<times> nat \<times> bool"

fun dll :: "headers \<Rightarrow> addr \<Rightarrow> addr \<Rightarrow> blk list \<Rightarrow> addr \<Rightarrow> addr \<Rightarrow> bool" where
  "dll m p c [] l n \<longleftrightarrow> p = l \<and> c = n"
| "dll m p c ((x, s, u) # bs) l n \<longleftrightarrow> c = x \<and> x \<noteq> 0 \<and>
     (\<exists>b. m x = Some b \<and> hb_magic b = HEAP_MAGIC \<and> hb_prev b = p \<and> hb_size b = s \<and> hb_used b = u
        \<and> dll m x (hb_next b) bs l n)"

definition blk_ok :: "blk \<Rightarrow> bool" where
  "blk_ok b \<longleftrightarrow> (case b of (x, s, u) \<Rightarrow>
     0 < x \<and> x mod 16 = 0 \<and> s mod 16 = 0 \<and> x + 32 + s < 2 ^ 64)"

definition blk_disj :: "blk \<Rightarrow> blk \<Rightarrow> bool" where
  "blk_disj a b \<longleftrightarrow> disjoint_ranges (fst a) (32 + fst (snd a)) (fst b) (32 + fst (snd b))"

definition heap_rep :: "clib_heap \<Rightarrow> blk list \<Rightarrow> bool" where
  "heap_rep h bs \<longleftrightarrow> dll (hp_blocks h) 0 (hp_head h) bs (hp_tail h) 0
     \<and> list_all blk_ok bs \<and> sorted_wrt blk_disj bs"

text \<open>The payloads in use (address and size), and the bytes a heap occupies.\<close>

definition live :: "blk list \<Rightarrow> (addr \<times> nat) set" where
  "live bs = {(x + 32, s) | x s. (x, s, True) \<in> set bs}"

definition extent :: "blk list \<Rightarrow> addr set" where
  "extent bs = (\<Union>(x, s, u)\<in>set bs. {x..<x + 32 + s})"

lemma live_simps [simp]:
  "live [] = {}" "live ((x, s, True) # bs) = insert (x + 32, s) (live bs)"
  "live ((x, s, False) # bs) = live bs" "live (as @ bs) = live as \<union> live bs"
  by (auto simp: live_def)

lemma extent_simps [simp]:
  "extent [] = {}" "extent ((x, s, u) # bs) = {x..<x + 32 + s} \<union> extent bs"
  "extent (as @ bs) = extent as \<union> extent bs"
  by (auto simp: extent_def)

lemma blk_disj_sym: "blk_disj a b \<longleftrightarrow> blk_disj b a"
  by (auto simp: blk_disj_def disjoint_ranges_def)

lemma blk_disj_addr: "blk_disj a b \<Longrightarrow> fst a \<noteq> fst b"
  by (auto simp: blk_disj_def disjoint_ranges_def)

lemma heap_rep_empty: "heap_rep empty_heap []"
  by (simp add: heap_rep_def empty_heap_def)

lemma dll_append:
  "dll m p c (as @ bs) l n \<longleftrightarrow> (\<exists>q r. dll m p c as q r \<and> dll m q r bs l n)"
proof (induction as arbitrary: p c)
  case (Cons a as)
  obtain x s u where a: "a = (x, s, u)" by (cases a)
  show ?case by (auto simp: a Cons.IH)
qed simp

lemma dll_cong:
  "(\<And>a. a \<in> fst ` set bs \<Longrightarrow> m a = m' a) \<Longrightarrow> dll m p c bs l n = dll m' p c bs l n"
proof (induction bs arbitrary: p c)
  case (Cons a bs)
  obtain x s u where a: "a = (x, s, u)" by (cases a)
  with Cons.prems have "m x = m' x" "\<And>p c. dll m p c bs l n = dll m' p c bs l n"
    using Cons.IH by auto
  then show ?case by (simp add: a)
qed simp

lemma dll_upd: "y \<notin> fst ` set bs \<Longrightarrow> dll (m(y \<mapsto> b)) p c bs l n = dll m p c bs l n"
  by (rule dll_cong) auto

lemma dll_Cons_upd:
  "x \<notin> fst ` set bs \<Longrightarrow> dll (m(x \<mapsto> b)) p c ((x, s, u) # bs) l n \<longleftrightarrow> c = x \<and> x \<noteq> 0 \<and>
     hb_magic b = HEAP_MAGIC \<and> hb_prev b = p \<and> hb_size b = s \<and> hb_used b = u \<and> dll m x (hb_next b) bs l n"
  by (simp only: dll.simps fun_upd_same option.inject ex_simps simp_thms dll_upd)

lemma dll_head: "dll m p c ((x, s, u) # bs) l n \<Longrightarrow> c = x"
  by simp

lemma dll_next_0: "dll m p c bs l 0 \<Longrightarrow> c = 0 \<longleftrightarrow> bs = []"
proof (cases bs)
  case (Cons b bs')
  moreover assume "dll m p c bs l 0"
  ultimately show ?thesis by (cases b) auto
qed simp

lemma dll_next_Some: "dll m p c bs l 0 \<Longrightarrow> c \<noteq> 0 \<Longrightarrow> \<exists>b. m c = Some b"
proof (cases bs)
  case (Cons b bs')
  moreover assume "dll m p c bs l 0"
  ultimately show ?thesis by (cases b) auto
qed simp

lemma dll_last_0: "dll m 0 c bs l n \<Longrightarrow> l = 0 \<longleftrightarrow> bs = []"
proof (induction bs rule: rev_induct)
  case (snoc b bs)
  then show ?case by (cases b) (auto simp: dll_append)
qed simp

lemma dll_relink_prev:
  assumes "dll m p c bs l n" "distinct (map fst bs)" "bs \<noteq> []" "m c = Some b"
  shows "dll (m(c \<mapsto> b\<lparr>hb_prev := p'\<rparr>)) p' c bs l n"
proof -
  obtain x s u bs' where bs: "bs = (x, s, u) # bs'" using assms(3) by (cases bs) auto
  with assms have x: "x = c" "x \<noteq> 0" "hb_magic b = HEAP_MAGIC" "hb_size b = s" "hb_used b = u"
    "dll m x (hb_next b) bs' l n" and n: "x \<notin> fst ` set bs'" by auto
  show ?thesis using x n by (simp only: bs dll_Cons_upd [OF n]) (simp add: dll_upd)
qed

lemma dll_relink_last:
  assumes "dll m p c bs l n" "distinct (map fst bs)" "bs \<noteq> []" "m l = Some b"
  shows "dll (m(l \<mapsto> b\<lparr>hb_next := n'\<rparr>)) p c bs l n'"
proof -
  obtain bs' x s u where bs: "bs = bs' @ [(x, s, u)]" using assms(3) by (cases bs rule: rev_exhaust) auto
  with assms(1) obtain q r where 1: "dll m p c bs' q r" and 2: "dll m q r [(x, s, u)] l n"
    by (auto simp: dll_append)
  have n: "x \<notin> fst ` set bs'" using assms(2) by (auto simp: bs)
  from 2 assms(4) have "x = l" "r = x" "x \<noteq> 0" "hb_magic b = HEAP_MAGIC" "hb_prev b = q" "hb_size b = s"
    "hb_used b = u" by auto
  then have "dll (m(l \<mapsto> b\<lparr>hb_next := n'\<rparr>)) q r [(x, s, u)] l n'"
    using dll_Cons_upd [of x "[]" m] by simp
  moreover have "dll (m(l \<mapsto> b\<lparr>hb_next := n'\<rparr>)) p c bs' q r"
    using 1 n \<open>x = l\<close> by (simp add: dll_upd)
  ultimately show ?thesis by (auto simp: bs dll_append simp del: dll.simps)
qed

lemma sorted_wrt_disj_distinct: "sorted_wrt blk_disj bs \<Longrightarrow> distinct (map fst bs)"
proof (induction bs)
  case (Cons b bs)
  then have "fst b \<noteq> fst a" if "a \<in> set bs" for a
    using that blk_disj_addr [of b a] by auto
  with Cons show ?case by auto
qed simp

text \<open>Setting the \<open>used\<close> flag of one block.\<close>

lemma dll_set_used:
  assumes "dll m p c (as @ (x, s, u) # bs) l n" "distinct (map fst (as @ (x, s, u) # bs))"
  obtains b where "m x = Some b" "hb_size b = s" "hb_used b = u" "hb_magic b = HEAP_MAGIC"
    "dll (m(x \<mapsto> b\<lparr>hb_used := v\<rparr>)) p c (as @ (x, s, v) # bs) l n"
proof -
  from assms(1) obtain q r b where 1: "dll m p c as q r" and x: "r = x" "x \<noteq> 0" "m x = Some b"
    "hb_magic b = HEAP_MAGIC" "hb_prev b = q" "hb_size b = s" "hb_used b = u" "dll m x (hb_next b) bs l n"
    by (auto simp: dll_append)
  have n: "x \<notin> fst ` set as" "x \<notin> fst ` set bs" using assms(2) by auto
  have "dll (m(x \<mapsto> b\<lparr>hb_used := v\<rparr>)) q r ((x, s, v) # bs) l n"
    using x by (simp only: dll_Cons_upd [OF n(2)]) simp
  moreover have "dll (m(x \<mapsto> b\<lparr>hb_used := v\<rparr>)) p c as q r"
    using 1 n by (simp add: dll_upd)
  ultimately have "dll (m(x \<mapsto> b\<lparr>hb_used := v\<rparr>)) p c (as @ (x, s, v) # bs) l n"
    by (auto simp: dll_append simp del: dll.simps)
  with x that show ?thesis by blast
qed

section \<open>Refinement of split and merge\<close>

fun blk_split :: "nat \<Rightarrow> blk \<Rightarrow> blk list" where
  "blk_split need (x, s, u) =
     (if s \<le> need + 48 then [(x, s, u)] else [(x, need, u), (x + 32 + need, s - need - 32, False)])"

fun blk_merge :: "blk \<Rightarrow> blk list \<Rightarrow> blk list" where
  "blk_merge b [] = [b]"
| "blk_merge (x, s, u) ((y, t, v) # bs) =
     (if \<not> u \<and> \<not> v \<and> y = x + 32 + s then (x, s + 32 + t, False) # bs else (x, s, u) # (y, t, v) # bs)"

lemma heap_rep_dest:
  assumes "heap_rep h (pre @ (x, s, u) # post)"
  obtains q b where "dll (hp_blocks h) 0 (hp_head h) pre q x" "x \<noteq> 0" "hp_blocks h x = Some b"
    "hb_magic b = HEAP_MAGIC" "hb_prev b = q" "hb_size b = s" "hb_used b = u"
    "dll (hp_blocks h) x (hb_next b) post (hp_tail h) 0"
    "x \<notin> fst ` set pre" "x \<notin> fst ` set post" "fst ` set pre \<inter> fst ` set post = {}"
    "distinct (map fst post)" "blk_ok (x, s, u)"
proof -
  have "sorted_wrt blk_disj (pre @ (x, s, u) # post)"
    using assms by (simp only: heap_rep_def)
  from sorted_wrt_disj_distinct [OF this] have d: "x \<notin> fst ` set pre" "x \<notin> fst ` set post" "fst ` set pre \<inter> fst ` set post = {}"
    "distinct (map fst post)" by auto
  from assms obtain q r where "dll (hp_blocks h) 0 (hp_head h) pre q r"
    "dll (hp_blocks h) q r ((x, s, u) # post) (hp_tail h) 0"
    unfolding heap_rep_def dll_append by blast
  moreover have "blk_ok (x, s, u)" using assms by (simp add: heap_rep_def)
  ultimately show thesis using that d by auto
qed

lemma dll_insert3:
  assumes "dll m p c pre q x" "x \<noteq> 0" "m x = Some b" "hb_magic b = HEAP_MAGIC" "hb_prev b = q"
    "hb_size b = s" "hb_used b = u" "dll m x (hb_next b) post l n"
    "x \<notin> fst ` set pre" "x \<notin> fst ` set post"
  shows "dll m p c (pre @ (x, s, u) # post) l n"
  using assms by (auto simp: dll_append)

lemma blk_split_ok:
  assumes "list_all blk_ok (pre @ (x, s, u) # post)" "need mod 16 = 0"
  shows "list_all blk_ok (pre @ blk_split need (x, s, u) @ post)"
proof -
  have "blk_ok (x, need, u)" "blk_ok (x + 32 + need, s - need - 32, False)" if "\<not> s \<le> need + 48"
    using assms that by (auto simp: blk_ok_def)
  then show ?thesis using assms(1) by auto
qed

lemma blk_split_disj:
  assumes "sorted_wrt blk_disj (pre @ (x, s, u) # post)"
  shows "sorted_wrt blk_disj (pre @ blk_split need (x, s, u) @ post)"
proof (cases "s \<le> need + 48")
  case False
  have 1: "blk_disj (x, need, u) b" "blk_disj b (x, need, u)"
      "blk_disj (x + 32 + need, s - need - 32, False) b" "blk_disj b (x + 32 + need, s - need - 32, False)"
    if "blk_disj b (x, s, u) \<or> blk_disj (x, s, u) b" for b
    using that False by (auto simp: blk_disj_def disjoint_ranges_def)
  have 2: "blk_disj (x, need, u) (x + 32 + need, s - need - 32, False)"
    by (simp add: blk_disj_def disjoint_ranges_def)
  from assms have "sorted_wrt blk_disj pre" "sorted_wrt blk_disj post"
    "\<forall>a\<in>set pre. blk_disj a (x, s, u) \<and> (\<forall>b\<in>set post. blk_disj a b)"
    "\<forall>b\<in>set post. blk_disj (x, s, u) b"
    by (simp_all add: sorted_wrt_append)
  with False 2 show ?thesis by (simp add: sorted_wrt_append 1 del: diff_diff_left)
qed (use assms in simp)

lemma blk_merge_ok:
  assumes "list_all blk_ok (b # post)" shows "list_all blk_ok (blk_merge b post)"
proof (cases "(b, post)" rule: blk_merge.cases)
  case (2 x s u y t v bs)
  have "blk_ok (x, s + 32 + t, False)" if "y = x + 32 + s"
    using assms 2 that by (auto simp: blk_ok_def)
  then show ?thesis using assms 2 by simp
qed (use assms in simp)

lemma blk_disj_join:
  "blk_disj (x, s, u) b \<Longrightarrow> blk_disj (x + 32 + s, t, v) b \<Longrightarrow> blk_disj (x, s + 32 + t, w) b"
  by (auto simp: blk_disj_def disjoint_ranges_def)

lemma blk_merge_disj:
  assumes "sorted_wrt blk_disj (pre @ b # post)"
  shows "sorted_wrt blk_disj (pre @ blk_merge b post)"
proof (cases "(b, post)" rule: blk_merge.cases)
  case (2 x s u y t v bs)
  have j: "\<And>c. blk_disj c (x, s, u) \<Longrightarrow> blk_disj c (x + 32 + s, t, v) \<Longrightarrow> blk_disj c (x, s + 32 + t, False)"
    using blk_disj_join blk_disj_sym by metis
  show ?thesis using assms 2
    by (auto simp: sorted_wrt_append intro: blk_disj_join j)
qed (use assms in simp)


text \<open>\<open>clib_heap_split\<close> cuts a block as \<open>blk_split\<close> says, \<open>clib_heap_merge_next\<close> joins as
  \<open>blk_merge\<close> says; both keep the list well linked.\<close>

lemma split_refines [c_spec]:
  assumes rep: "heap_rep h (pre @ (x, s, u) # post)" and need: "need mod 16 = 0" "need \<le> s"
  shows "\<exists>h'. clib_heap_split h x need = Some h' \<and> heap_rep h' (pre @ blk_split need (x, s, u) @ post)"
proof -
  obtain q b where d: "dll (hp_blocks h) 0 (hp_head h) pre q x" "x \<noteq> 0" "hp_blocks h x = Some b"
    "hb_magic b = HEAP_MAGIC" "hb_prev b = q" "hb_size b = s" "hb_used b = u"
    "dll (hp_blocks h) x (hb_next b) post (hp_tail h) 0"
    "x \<notin> fst ` set pre" "x \<notin> fst ` set post" "fst ` set pre \<inter> fst ` set post = {}"
    "distinct (map fst post)" "blk_ok (x, s, u)"
    using heap_rep_dest [OF rep] by blast
  have w: "x + 32 + s < 2 ^ 64" "16 \<le> x" using d(13,2) by (auto simp: blk_ok_def)
  then have c: "add64 (add64 need 32) 16 = need + 48" using need by (simp add: add64_small)
  show ?thesis
  proof (cases "s \<le> need + 48")
    case True
    then show ?thesis using rep d c by (simp add: clib_heap_split_def)
  next
    case False
    define y where "y = x + 32 + need"
    define nb where "nb = \<lparr>hb_size = s - need - 32, hb_used = False, hb_magic = HEAP_MAGIC,
      hb_next = hb_next b, hb_prev = x\<rparr>"
    define b' where "b' = b\<lparr>hb_next := y, hb_size := need\<rparr>"
    have y: "add64 (add64 x 32) need = y" "y \<noteq> x" "y \<noteq> 0"
      using w False need by (simp_all add: y_def add64_small)
    have sz: "sub64 (sub64 s need) 32 = s - need - 32" using w False need by (simp add: sub64_small)
    have "list_all blk_ok (pre @ (x, s, u) # post)" "sorted_wrt blk_disj (pre @ (x, s, u) # post)"
      using rep by (simp_all only: heap_rep_def)
    note all = blk_split_ok [OF this(1) need(1)] blk_split_disj [OF this(2), of need]
    have "distinct (map fst (pre @ blk_split need (x, s, u) @ post))"
      using all(2) by (rule sorted_wrt_disj_distinct)
    then have yn: "y \<notin> fst ` set pre" "y \<notin> fst ` set post"
      using False by (auto simp: y_def)
    have fin: "dll M 0 (hp_head h) (pre @ blk_split need (x, s, u) @ post) l 0"
      if M: "M x = Some b'" "M y = Some nb" "dll M 0 (hp_head h) pre q x"
        "dll M y (hb_next b) post l 0" for M l
    proof -
      have "dll M x y ((y, s - need - 32, False) # post) l 0" using M y by (simp add: nb_def)
      then have "dll M 0 (hp_head h) (pre @ (x, need, u) # (y, s - need - 32, False) # post) l 0"
        using M d y by (intro dll_insert3 [where b = b']) (auto simp: b'_def)
      then show ?thesis using False by (simp add: y_def)
    qed
    show ?thesis
    proof (cases "hb_next b = 0")
      case True
      then have post: "post = []" using dll_next_0 [OF d(8)] by simp
      define M where "M = (hp_blocks h)(y \<mapsto> nb, x \<mapsto> b')"
      have "clib_heap_split h x need = Some (h\<lparr>hp_blocks := M, hp_tail := y\<rparr>)"
        using d True y c False sz
        by (simp add: clib_heap_split_def upd_block_def M_def nb_def b'_def)
      moreover have "dll M 0 (hp_head h) (pre @ blk_split need (x, s, u) @ post) y 0"
      proof (rule fin)
        show "dll M 0 (hp_head h) pre q x"
          unfolding M_def using d yn by (simp only: dll_upd not_False_eq_True)
      qed (use True post y in \<open>simp_all add: M_def\<close>)
      ultimately show ?thesis using all by (auto simp: heap_rep_def simp del: blk_split.simps)
    next
      case False': False
      then have post: "post \<noteq> []" using dll_next_0 [OF d(8)] by simp
      then obtain z t v post' where z: "post = (z, t, v) # post'" by (cases post) auto
      with d(8) obtain k where k: "hb_next b = z" "hp_blocks h z = Some k" by auto
      have zn: "z \<noteq> y" "z \<noteq> x" "z \<notin> fst ` set pre" using z yn d by auto
      define k' where "k' = k\<lparr>hb_prev := y\<rparr>"
      define M where "M = (hp_blocks h)(y \<mapsto> nb, z \<mapsto> k', x \<mapsto> b')"
      have "clib_heap_split h x need = Some (h\<lparr>hp_blocks := M\<rparr>)"
        using d False' y c False sz k zn
        by (simp add: clib_heap_split_def upd_block_def M_def nb_def b'_def k'_def)
      moreover have "dll M 0 (hp_head h) (pre @ blk_split need (x, s, u) @ post) (hp_tail h) 0"
      proof (rule fin)
        show "dll M 0 (hp_head h) pre q x"
          unfolding M_def using d yn zn by (simp only: dll_upd not_False_eq_True)
        have "dll ((hp_blocks h)(y \<mapsto> nb)) x (hb_next b) post (hp_tail h) 0"
          using d(8) yn by (simp only: dll_upd not_False_eq_True)
        moreover have "((hp_blocks h)(y \<mapsto> nb)) (hb_next b) = Some k" using k zn by simp
        ultimately have "dll ((hp_blocks h)(y \<mapsto> nb, hb_next b \<mapsto> k')) y (hb_next b) post (hp_tail h) 0"
          unfolding k'_def using d(12) post by (blast intro: dll_relink_prev)
        then show "dll M y (hb_next b) post (hp_tail h) 0"
          unfolding M_def using d(10) k(1) by (simp only: dll_upd not_False_eq_True)
      qed (use y zn in \<open>simp_all add: M_def\<close>)
      ultimately show ?thesis using all by (auto simp: heap_rep_def simp del: blk_split.simps)
    qed
  qed
qed


lemma merge_refines [c_spec]:
  assumes rep: "heap_rep h (pre @ (x, s, u) # post)"
  shows "\<exists>h'. clib_heap_merge_next h x = Some h' \<and> heap_rep h' (pre @ blk_merge (x, s, u) post)"
proof -
  obtain q b where d: "dll (hp_blocks h) 0 (hp_head h) pre q x" "x \<noteq> 0" "hp_blocks h x = Some b"
    "hb_magic b = HEAP_MAGIC" "hb_prev b = q" "hb_size b = s" "hb_used b = u"
    "dll (hp_blocks h) x (hb_next b) post (hp_tail h) 0"
    "x \<notin> fst ` set pre" "x \<notin> fst ` set post" "fst ` set pre \<inter> fst ` set post = {}"
    "distinct (map fst post)" "blk_ok (x, s, u)"
    using heap_rep_dest [OF rep] by blast
  show ?thesis
  proof (cases post)
    case Nil
    then show ?thesis using rep d by (cases u) (simp_all add: clib_heap_merge_next_def)
  next
    case (Cons e bs)
    obtain y t v where e: "e = (y, t, v)" by (cases e)
    obtain n where n: "hb_next b = y" "y \<noteq> 0" "hp_blocks h y = Some n" "hb_magic n = HEAP_MAGIC"
      "hb_prev n = x" "hb_size n = t" "hb_used n = v" "dll (hp_blocks h) y (hb_next n) bs (hp_tail h) 0"
      using d(8) unfolding Cons e by auto
    have w: "x + 32 + s < 2 ^ 64" using d(13) by (simp add: blk_ok_def)
    then have adj: "clib_heap_blocks_are_adjacent x b y \<longleftrightarrow> y = x + 32 + s"
      using d n by (auto simp: clib_heap_blocks_are_adjacent_def add64_small)
    show ?thesis
    proof (cases "\<not> u \<and> \<not> v \<and> y = x + 32 + s")
      case False
      then show ?thesis using rep d n adj by (auto simp: clib_heap_merge_next_def Cons e)
    next
      case True
      have okv: "blk_ok (y, t, v)" using rep by (simp add: heap_rep_def Cons e)
      then have "s + (32 + t) < 2 ^ 64" using True by (simp add: blk_ok_def)
      then have sz: "add64 s (add64 32 t) = s + 32 + t" by (simp add: add64_small)
      define b' where "b' = b\<lparr>hb_size := s + 32 + t, hb_next := hb_next n\<rparr>"
      have all: "list_all blk_ok (pre @ blk_merge (x, s, u) post)"
        "sorted_wrt blk_disj (pre @ blk_merge (x, s, u) post)"
        using rep blk_merge_ok [of "(x, s, u)" post] blk_merge_disj unfolding heap_rep_def by auto
      have dist: "x \<notin> fst ` set bs" "y \<notin> fst ` set bs" "distinct (map fst bs)" "x \<noteq> y"
        using d(10,12) by (auto simp: Cons e)
      have fin: "dll M 0 (hp_head h) (pre @ blk_merge (x, s, u) post) l 0"
        if M: "M x = Some b'" "dll M 0 (hp_head h) pre q x" "dll M x (hb_next n) bs l 0" for M l
      proof -
        have "dll M 0 (hp_head h) (pre @ (x, s + 32 + t, False) # bs) l 0"
          using M d True dist by (intro dll_insert3 [where b = b']) (auto simp: b'_def)
        then show ?thesis using True by (simp add: Cons e)
      qed
      show ?thesis
      proof (cases "hb_next n = 0")
        case T: True
        then have bs: "bs = []" using dll_next_0 [OF n(8)] by simp
        define M where "M = (hp_blocks h)(x \<mapsto> b')"
        have "clib_heap_merge_next h x = Some (h\<lparr>hp_blocks := M, hp_tail := x\<rparr>)"
          using d True T adj n sz by (simp add: clib_heap_merge_next_def upd_block_def M_def b'_def)
        moreover have "dll M 0 (hp_head h) (pre @ blk_merge (x, s, u) post) x 0"
        proof (rule fin)
          show "dll M 0 (hp_head h) pre q x"
            unfolding M_def using d by (simp only: dll_upd not_False_eq_True)
        qed (use T bs in \<open>simp_all add: M_def\<close>)
        ultimately show ?thesis using all by (auto simp: heap_rep_def simp del: blk_merge.simps)
      next
        case F: False
        then have "bs \<noteq> []" using dll_next_0 [OF n(8)] by simp
        then obtain z t' v' bs' where z: "bs = (z, t', v') # bs'" by (cases bs) auto
        with n(8) obtain k where k: "hb_next n = z" "hp_blocks h z = Some k" by auto
        have zn: "z \<noteq> y" "z \<noteq> x" "z \<notin> fst ` set pre" using z dist d(11) by (auto simp: Cons e)
        define k' where "k' = k\<lparr>hb_prev := x\<rparr>"
        define M where "M = (hp_blocks h)(x \<mapsto> b', z \<mapsto> k')"
        have "clib_heap_merge_next h x = Some (h\<lparr>hp_blocks := M\<rparr>)"
          using d True F adj n sz k zn
          by (simp add: clib_heap_merge_next_def upd_block_def M_def b'_def k'_def)
        moreover have "dll M 0 (hp_head h) (pre @ blk_merge (x, s, u) post) (hp_tail h) 0"
        proof (rule fin)
          show "dll M 0 (hp_head h) pre q x"
            unfolding M_def using d zn by (simp only: dll_upd not_False_eq_True)
          have "dll ((hp_blocks h)(x \<mapsto> b')) y (hb_next n) bs (hp_tail h) 0"
            using n(8) dist by (simp only: dll_upd not_False_eq_True)
          moreover have "((hp_blocks h)(x \<mapsto> b')) (hb_next n) = Some k" using k zn by simp
          ultimately show "dll M x (hb_next n) bs (hp_tail h) 0"
            unfolding M_def k'_def k(1) using dist(3) \<open>bs \<noteq> []\<close> k(1) by (metis dll_relink_prev)
        qed (use zn in \<open>simp_all add: M_def\<close>)
        ultimately show ?thesis using all by (auto simp: heap_rep_def simp del: blk_merge.simps)
      qed
    qed
  qed
qed

section \<open>Searching the block list\<close>

lemma block_from_ptr_find:
  assumes "dll m p c bs l 0" "list_all blk_ok bs"
  shows "block_from_ptr_loop m ptr c =
    Some (case find (\<lambda>(x, s, u). x + 32 = ptr \<and> u) bs of None \<Rightarrow> 0 | Some b \<Rightarrow> fst b)"
  using assms
proof (induction bs arbitrary: p c)
  case Nil
  then show ?case by (simp add: block_from_ptr_loop.simps)
next
  case (Cons a bs)
  obtain x s u where a: "a = (x, s, u)" by (cases a)
  have "add64 x 32 = x + 32" using Cons.prems by (simp add: a blk_ok_def add64_small)
  then show ?case using Cons.prems Cons.IH by (auto simp: a block_from_ptr_loop.simps [of m ptr x])
qed

lemma first_fit_find:
  assumes "dll m p c bs l 0"
  shows "first_fit m need c =
    Some (case find (\<lambda>(x, s, u). \<not> u \<and> need \<le> s) bs of None \<Rightarrow> 0 | Some b \<Rightarrow> fst b)"
  using assms
proof (induction bs arbitrary: p c)
  case Nil
  then show ?case by (simp add: first_fit.simps)
next
  case (Cons a bs)
  obtain x s u where a: "a = (x, s, u)" by (cases a)
  show ?case using Cons.prems Cons.IH by (auto simp: a first_fit.simps [of m need x])
qed

lemma find_split:
  assumes "find P xs = Some x"
  obtains ys zs where "xs = ys @ x # zs" "P x"
  using assms by (metis find_Some_iff id_take_nth_drop)


section \<open>Correctness of the allocator\<close>

text \<open>What the two system calls must promise: a null pointer, or an aligned range of the requested
  size that overlaps no block of the heap.\<close>

definition kernel_ok :: "vm_kernel \<Rightarrow> blk list \<Rightarrow> bool" where
  "kernel_ok K bs \<longleftrightarrow> (\<forall>c. let a = chunk_addr K c in a \<noteq> 0 \<longrightarrow>
     a mod 16 = 0 \<and> a + c < 2 ^ 64 \<and> (\<forall>b\<in>set bs. disjoint_ranges a c (fst b) (32 + fst (snd b))))"

definition chunk_bytes :: "vm_kernel \<Rightarrow> addr set" where
  "chunk_bytes K = {a. \<exists>c. chunk_addr K c \<noteq> 0 \<and> chunk_addr K c \<le> a \<and> a < chunk_addr K c + c}"

lemma request_chunk_refines [c_spec]:
  assumes rep: "heap_rep h bs" and K: "kernel_ok K bs" and need: "need < 2 ^ 63" "need mod 16 = 0"
  shows "(clib_heap_request_chunk K h need = Some (h, 0)) \<or>
    (\<exists>h' a c. clib_heap_request_chunk K h need = Some (h', a) \<and> a \<noteq> 0 \<and> need \<le> c
       \<and> {a..<a + 32 + c} \<subseteq> chunk_bytes K \<and> heap_rep h' (bs @ [(a, c, False)]))"
proof -
  define C where "C = heap_chunk_size need"
  define a where "a = chunk_addr K C"
  have "(if (262144 :: nat) < need + 32 then need + 32 else 262144) = max 262144 (need + 32)"
    by (auto simp: max_def)
  then have Ceq: "C = align16 (max 262144 (need + 32))" using need(1)
    by (simp add: C_def heap_chunk_size_def Let_def HEAP_CAPACITY_def HEAP_CHUNK_MIN_def
        HEAP_CHUNK_MAX_def add64_small)
  have "max 262144 (need + 32) + 15 < 2 ^ 64" using need(1) by simp
  note al = align16_bounds [OF this]
  have C: "need + 32 \<le> C" "C mod 16 = 0" "C < 2 ^ 64"
    unfolding Ceq using al by simp_all
  have sz: "sub64 C 32 = C - 32" using C by (simp add: sub64_small)
  show ?thesis
  proof (cases "a = 0")
    case True
    then show ?thesis by (simp add: clib_heap_request_chunk_def a_def C_def)
  next
    case False
    have Ka: "a mod 16 = 0" "a + C < 2 ^ 64" "\<forall>b\<in>set bs. disjoint_ranges a C (fst b) (32 + fst (snd b))"
      using K False by (auto simp: kernel_ok_def a_def Let_def)
    have cb: "{a..<a + 32 + (C - 32)} \<subseteq> chunk_bytes K"
      using C False by (auto simp: chunk_bytes_def a_def)
    have ok: "blk_ok (a, C - 32, False)" using Ka C False by (auto simp: blk_ok_def)
    have dj: "\<forall>b\<in>set bs. blk_disj b (a, C - 32, False)"
      using Ka(3) C by (auto simp: blk_disj_def disjoint_ranges_def)
    have all: "list_all blk_ok (bs @ [(a, C - 32, False)])" "sorted_wrt blk_disj (bs @ [(a, C - 32, False)])"
      using rep ok dj by (simp_all add: heap_rep_def sorted_wrt_append)
    have an: "a \<notin> fst ` set bs" using sorted_wrt_disj_distinct [OF all(2)] by simp
    define b where "b = \<lparr>hb_size = C - 32, hb_used = False, hb_magic = HEAP_MAGIC, hb_next = 0,
      hb_prev = hp_tail h\<rparr>"
    have D: "dll (hp_blocks h) 0 (hp_head h) bs (hp_tail h) 0" using rep by (simp add: heap_rep_def)
    have one: "dll M q a [(a, C - 32, False)] a 0" if "M a = Some b" "q = hp_tail h" for M q
      using that False by (simp add: b_def)
    show ?thesis
    proof (cases "hp_tail h = 0")
      case True
      then have bs: "bs = []" using dll_last_0 [OF D] by simp
      have "clib_heap_request_chunk K h need =
        Some (h\<lparr>hp_blocks := (hp_blocks h)(a \<mapsto> b), hp_head := a, hp_tail := a\<rparr>, a)"
        using False True sz
        by (simp add: clib_heap_request_chunk_def Let_def C_def [symmetric] a_def [symmetric] b_def)
      moreover have "heap_rep (h\<lparr>hp_blocks := (hp_blocks h)(a \<mapsto> b), hp_head := a, hp_tail := a\<rparr>)
          (bs @ [(a, C - 32, False)])"
        using all one [of "(hp_blocks h)(a \<mapsto> b)" 0] True bs by (simp add: heap_rep_def)
      ultimately show ?thesis using C False cb by (metis add_le_imp_le_diff)
    next
      case F: False
      then have ne: "bs \<noteq> []" using dll_last_0 [OF D] by simp
      define t where "t = hp_tail h"
      obtain k where k: "hp_blocks h t = Some k" and ta: "t \<noteq> a"
      proof -
        obtain bs' x s u where "bs = bs' @ [(x, s, u)]" using ne by (cases bs rule: rev_exhaust) auto
        with D an that show ?thesis by (auto simp: dll_append t_def)
      qed
      define M where "M = (hp_blocks h)(a \<mapsto> b, t \<mapsto> k\<lparr>hb_next := a\<rparr>)"
      have "clib_heap_request_chunk K h need = Some (h\<lparr>hp_blocks := M, hp_tail := a\<rparr>, a)"
        using False F sz k ta
        by (simp add: clib_heap_request_chunk_def Let_def C_def [symmetric] a_def [symmetric] b_def
            M_def t_def upd_block_def)
      moreover have "dll M 0 (hp_head h) (bs @ [(a, C - 32, False)]) a 0"
      proof -
        have "dll ((hp_blocks h)(a \<mapsto> b)) 0 (hp_head h) bs t 0"
          using D an by (simp only: dll_upd t_def not_False_eq_True)
        moreover have "((hp_blocks h)(a \<mapsto> b)) t = Some k" using k ta by simp
        moreover have "distinct (map fst bs)" using sorted_wrt_disj_distinct [OF all(2)] by simp
        ultimately have "dll M 0 (hp_head h) bs t a"
          unfolding M_def using ne by (blast intro: dll_relink_last)
        moreover have "dll M t a [(a, C - 32, False)] a 0"
          using ta by (intro one) (simp_all add: M_def t_def)
        ultimately show ?thesis unfolding dll_append by blast
      qed
      ultimately show ?thesis using C False all cb
        by (intro disjI2 exI [of _ "h\<lparr>hp_blocks := M, hp_tail := a\<rparr>"] exI [of _ a] exI [of _ "C - 32"])
          (simp add: heap_rep_def)
    qed
  qed
qed

lemma set_used_refines [c_spec]:
  assumes rep: "heap_rep h (pre @ (x, s, u) # post)"
  shows "\<exists>h'. upd_block h x (\<lambda>b. b\<lparr>hb_used := v\<rparr>) = Some h' \<and> heap_rep h' (pre @ (x, s, v) # post)"
proof -
  have D: "dll (hp_blocks h) 0 (hp_head h) (pre @ (x, s, u) # post) (hp_tail h) 0"
    and ok: "list_all blk_ok (pre @ (x, s, u) # post)" and dj: "sorted_wrt blk_disj (pre @ (x, s, u) # post)"
    using rep by (auto simp only: heap_rep_def)
  obtain b where b: "hp_blocks h x = Some b"
    "dll ((hp_blocks h)(x \<mapsto> b\<lparr>hb_used := v\<rparr>)) 0 (hp_head h) (pre @ (x, s, v) # post) (hp_tail h) 0"
    using dll_set_used [OF D sorted_wrt_disj_distinct [OF dj]] by metis
  have "list_all blk_ok (pre @ (x, s, v) # post)" using ok by (simp add: blk_ok_def)
  moreover have "sorted_wrt blk_disj (pre @ (x, s, v) # post)"
    using dj by (simp add: sorted_wrt_append blk_disj_def)
  ultimately show ?thesis using b by (simp add: upd_block_def heap_rep_def)
qed


lemma blk_split_facts:
  assumes "need \<le> s"
  obtains s' rest where "blk_split need (x, s, u) = (x, s', u) # rest" "need \<le> s'" "live rest = {}"
    "extent ((x, s', u) # rest) = {x..<x + 32 + s}"
proof (cases "s \<le> need + 48")
  case False
  then have "{x..<x + 32 + need} \<union> {x + 32 + need..<x + 32 + s} = {x..<x + 32 + s}"
    using ivl_disj_un_two(3) [of x "x + 32 + need" "x + 32 + s"] by simp
  moreover have "x + 32 + need + 32 + (s - need - 32) = x + 32 + s" using False by simp
  ultimately have "extent [(x, need, u), (x + 32 + need, s - need - 32, False)] = {x..<x + 32 + s}"
    by (simp only: extent_simps Un_empty_right)
  with False show ?thesis by (intro that [of need "[(x + 32 + need, s - need - 32, False)]"]) simp_all
qed (use that [of s "[]"] assms in simp)

lemma extent_merge: "extent (blk_merge b bs) = extent (b # bs)"
  by (cases "(b, bs)" rule: blk_merge.cases) auto

lemma live_merge: "live (blk_merge b bs) = live (b # bs)"
proof (cases "(b, bs)" rule: blk_merge.cases)
  case (2 x s u y t v zs)
  then show ?thesis by (cases u; cases v) auto
qed simp

lemma heap_take_refines [c_spec]:
  assumes rep: "heap_rep h (pre @ (x, s, False) # post)" and need: "need mod 16 = 0" "need \<le> s"
  shows "\<exists>h' s' rest. heap_take h x need = Some (h', x + 32) \<and> need \<le> s' \<and> live rest = {}
    \<and> heap_rep h' (pre @ (x, s', True) # rest @ post) \<and> extent ((x, s', True) # rest) = {x..<x + 32 + s}"
proof -
  have "blk_ok (x, s, False)" using rep by (simp add: heap_rep_def)
  then have x: "add64 x 32 = x + 32" by (simp add: blk_ok_def add64_small)
  obtain s' rest where sp: "blk_split need (x, s, False) = (x, s', False) # rest" "need \<le> s'" "live rest = {}"
    "extent ((x, s', False) # rest) = {x..<x + 32 + s}"
    using blk_split_facts [OF need(2)] by blast
  obtain h1 where h1: "clib_heap_split h x need = Some h1" "heap_rep h1 (pre @ (x, s', False) # rest @ post)"
    using split_refines [OF rep need] by (auto simp: sp(1) simp del: blk_split.simps)
  obtain h2 where h2: "upd_block h1 x (\<lambda>b. b\<lparr>hb_used := True\<rparr>) = Some h2"
    "heap_rep h2 (pre @ (x, s', True) # rest @ post)"
    using set_used_refines [OF h1(2)] by blast
  show ?thesis
    by (rule exI [of _ h2], rule exI [of _ s'], rule exI [of _ rest])
      (use h1 h2 sp x in \<open>simp add: heap_take_def\<close>)
qed

lemma live_payload_ok:
  "list_all blk_ok bs \<Longrightarrow> (p, s) \<in> live bs \<Longrightarrow> 32 < p \<and> p mod 16 = 0 \<and> p + s < 2 ^ 64 \<and> s mod 16 = 0"
  by (auto simp: live_def list_all_iff blk_ok_def)

lemma live_disjoint:
  assumes "sorted_wrt blk_disj bs" "(p, s) \<in> live bs" "(q, t) \<in> live bs" "p \<noteq> q"
  shows "disjoint_ranges p (s + 32) q (t + 32)"
  using assms
proof (induction bs)
  case (Cons b bs)
  obtain x r u where b: "b = (x, r, u)" by (cases b)
  show ?case using Cons by (cases u) (auto simp: b live_def blk_disj_def disjoint_ranges_def)
qed simp

lemma live_unique:
  assumes "sorted_wrt blk_disj bs" "(p, s) \<in> live bs" "(p, t) \<in> live bs"
  shows "s = t"
  using assms
proof (induction bs)
  case (Cons b bs)
  obtain x r u where b: "b = (x, r, u)" by (cases b)
  show ?case using Cons by (cases u) (auto simp: b live_def blk_disj_def disjoint_ranges_def)
qed simp

lemma malloc_refines [c_spec]:
  assumes rep: "heap_rep h bs" and K: "kernel_ok K bs" and sz: "0 < sz" "sz < 2 ^ 62"
  shows "\<exists>h' p bs'. c_malloc K h sz = Some (h', p) \<and> heap_rep h' bs'
    \<and> (p = 0 \<and> h' = h \<and> bs' = bs \<or> (\<exists>s. align16 sz \<le> s \<and> (p, s) \<notin> live bs \<and> live bs' = insert (p, s) (live bs)))
    \<and> extent bs' \<subseteq> extent bs \<union> chunk_bytes K"
proof -
  define need where "need = align16 sz"
  have sz16: "sz + 15 < 2 ^ 64" using sz by simp
  have need: "need mod 16 = 0" "need < 2 ^ 63" using align16_bounds [OF sz16] sz by (simp_all add: need_def)
  have D: "dll (hp_blocks h) 0 (hp_head h) bs (hp_tail h) 0" using rep by (simp add: heap_rep_def)
  have take: "\<exists>h' p bs'. heap_take g x need = Some (h', p) \<and> heap_rep h' bs'
      \<and> (\<exists>t. need \<le> t \<and> (p, t) \<notin> live bs \<and> live bs' = insert (p, t) (live bs)) \<and> extent bs' \<subseteq> E"
    if g: "heap_rep g (pre @ (x, s, False) # post)" "need \<le> s" "live bs = live (pre @ post)"
      "extent (pre @ (x, s, False) # post) \<subseteq> E" for g pre x s post E
  proof -
    obtain h' s' rest where t: "heap_take g x need = Some (h', x + 32)" "need \<le> s'" "live rest = {}"
      "heap_rep h' (pre @ (x, s', True) # rest @ post)" "extent ((x, s', True) # rest) = {x..<x + 32 + s}"
      using heap_take_refines [OF g(1) need(1) g(2)] by blast
    have "distinct (map fst (pre @ (x, s', True) # rest @ post))"
      using t(4) sorted_wrt_disj_distinct by (simp only: heap_rep_def)
    then have "(x + 32, s') \<notin> live bs" using g(3) by (auto simp: live_def image_iff)
    moreover have "live (pre @ (x, s', True) # rest @ post) = insert (x + 32, s') (live bs)"
      using t(3) g(3) by simp
    moreover have "extent (pre @ (x, s', True) # rest @ post) \<subseteq> E"
      using g(4) t(5) [symmetric] by auto
    ultimately show ?thesis using t by blast
  qed
  show ?thesis
  proof (cases "find (\<lambda>(x, s, u). \<not> u \<and> need \<le> s) bs")
    case (Some b)
    then obtain pre post x s where b: "bs = pre @ (x, s, False) # post" "b = (x, s, False)" "need \<le> s"
      by (elim find_split) auto
    have "x \<noteq> 0" using rep b by (simp add: heap_rep_def blk_ok_def)
    then have "c_malloc K h sz = heap_take h x need"
      using first_fit_find [OF D, of need] Some sz b(2)
      by (simp add: c_malloc_def need_def [symmetric])
    moreover have "live bs = live (pre @ post)" by (simp add: b)
    moreover have "extent (pre @ (x, s, False) # post) \<subseteq> extent bs \<union> chunk_bytes K" by (auto simp: b)
    ultimately show ?thesis
      using take [of h pre x s post "extent bs \<union> chunk_bytes K"] rep b unfolding need_def by metis
  next
    case None
    have m: "c_malloc K h sz = do { (h, current) \<leftarrow> clib_heap_request_chunk K h need;
          if current = 0 then Some (h, 0) else heap_take h current need }"
      using first_fit_find [OF D, of need] None sz by (simp add: c_malloc_def need_def [symmetric])
    from request_chunk_refines [OF rep K need(2,1)] show ?thesis
    proof (elim disjE exE conjE)
      assume "clib_heap_request_chunk K h need = Some (h, 0)"
      then show ?thesis using m rep by (intro exI [of _ h] exI [of _ 0] exI [of _ bs]) simp
    next
      fix h' a c
      assume r: "clib_heap_request_chunk K h need = Some (h', a)" "a \<noteq> 0" "need \<le> c"
        "{a..<a + 32 + c} \<subseteq> chunk_bytes K" "heap_rep h' (bs @ [(a, c, False)])"
      then have "c_malloc K h sz = heap_take h' a need" using m by simp
      moreover have "live bs = live (bs @ [])" by simp
      moreover have "extent (bs @ [(a, c, False)]) \<subseteq> extent bs \<union> chunk_bytes K" using r by auto
      ultimately show ?thesis
        using take [OF r(5,3), of "extent bs \<union> chunk_bytes K"] unfolding need_def by metis
    qed
  qed
qed


lemma block_prev:
  assumes "heap_rep h (pre @ (x, s, u) # post)"
  obtains b where "hp_blocks h x = Some b" "hb_prev b = (if pre = [] then 0 else fst (last pre))"
proof -
  obtain q b where d: "dll (hp_blocks h) 0 (hp_head h) pre q x" "hp_blocks h x = Some b" "hb_prev b = q"
    using heap_rep_dest [OF assms] by metis
  have "q = (if pre = [] then 0 else fst (last pre))"
    using d(1) by (cases pre rule: rev_exhaust) (auto simp: dll_append)
  with d that show thesis by blast
qed

lemma block_from_ptr_refines [c_spec]:
  assumes rep: "heap_rep h bs"
  obtains "clib_heap_block_from_ptr h p = Some 0" "\<forall>s. (p, s) \<notin> live bs"
  | x s pre post where "clib_heap_block_from_ptr h p = Some x" "bs = pre @ (x, s, True) # post"
      "p = x + 32" "x \<noteq> 0" "\<forall>t. (p, t) \<in> live bs \<longleftrightarrow> t = s"
proof -
  have D: "dll (hp_blocks h) 0 (hp_head h) bs (hp_tail h) 0" and ok: "list_all blk_ok bs"
    and dj: "sorted_wrt blk_disj bs"
    using rep by (simp_all add: heap_rep_def)
  show thesis
  proof (cases "find (\<lambda>(x, s, u). x + 32 = p \<and> u) bs")
    case None
    then have "\<forall>s. (p, s) \<notin> live bs" by (auto simp: live_def find_None_iff)
    moreover have "clib_heap_block_from_ptr h p = Some 0"
      using block_from_ptr_find [OF D ok, of p] None by (simp add: clib_heap_block_from_ptr_def)
    ultimately show thesis using that(1) by blast
  next
    case (Some b)
    obtain pre post x s where b: "bs = pre @ (x, s, True) # post" "b = (x, s, True)" "x + 32 = p"
      using Some by (elim find_split) auto
    have "x \<noteq> 0" using ok by (simp add: b blk_ok_def)
    moreover have "clib_heap_block_from_ptr h p = Some x"
      using block_from_ptr_find [OF D ok, of p] Some b(2,3) by (simp add: clib_heap_block_from_ptr_def)
    moreover have "(p, s) \<in> live bs" using b by auto
    then have "\<forall>t. (p, t) \<in> live bs \<longleftrightarrow> t = s" using live_unique [OF dj] by auto
    ultimately show thesis using that(2) b by blast
  qed
qed

lemma free_refines [c_spec]:
  assumes rep: "heap_rep h bs"
  shows "\<exists>h' bs'. c_free h p = Some h' \<and> heap_rep h' bs' \<and> live bs' = {(q, t) \<in> live bs. q \<noteq> p}
    \<and> extent bs' = extent bs"
  using rep
proof (cases rule: block_from_ptr_refines [where p = p])
  case 1
  then have "live bs = {(q, t) \<in> live bs. q \<noteq> p}" by auto
  with 1 rep show ?thesis by (intro exI [of _ h] exI [of _ bs]) (simp add: c_free_def)
next
  case (2 x s pre post)
  obtain h1 where h1: "upd_block h x (\<lambda>b. b\<lparr>hb_used := False\<rparr>) = Some h1" "heap_rep h1 (pre @ (x, s, False) # post)"
    using set_used_refines [of h pre x s True post False] rep 2(2) by blast
  obtain h2 where h2: "clib_heap_merge_next h1 x = Some h2" "heap_rep h2 (pre @ blk_merge (x, s, False) post)"
    using merge_refines [OF h1(2)] by blast
  define ys where "ys = blk_merge (x, s, False) post"
  have ys: "live ys = live post" "extent ys = extent ((x, s, False) # post)"
    by (simp_all add: ys_def live_merge extent_merge)
  have "\<exists>s' post'. ys = (x, s', False) # post'"
    by (cases "((x, s, False), post)" rule: blk_merge.cases) (auto simp: ys_def)
  then obtain s' post' where ys': "ys = (x, s', False) # post'" by blast
  have L: "live (pre @ post) = {(q, t) \<in> live bs. q \<noteq> p}"
  proof -
    have "distinct (map fst bs)" using rep sorted_wrt_disj_distinct by (simp add: heap_rep_def)
    then show ?thesis using 2(2,3) by (auto simp: live_def image_iff)
  qed
  obtain b where b: "hp_blocks h2 x = Some b" "hb_prev b = (if pre = [] then 0 else fst (last pre))"
    using block_prev h2(2) unfolding ys_def [symmetric] ys' by metis
  have E: "extent (pre @ ys) = extent bs" by (simp only: extent_simps ys 2(2))
  show ?thesis
  proof (cases pre rule: rev_exhaust)
    case Nil
    have "c_free h p = Some h2" using 2 h1 h2 b Nil by (simp add: c_free_def)
    moreover have "live (pre @ ys) = {(q, t) \<in> live bs. q \<noteq> p}" using L ys by simp
    ultimately show ?thesis using h2(2) E unfolding ys_def by blast
  next
    case (snoc pre0 a)
    obtain y t v where a: "a = (y, t, v)" by (cases a)
    have "y \<noteq> 0" using rep 2(2) by (simp add: snoc a heap_rep_def blk_ok_def)
    have r: "heap_rep h2 (pre0 @ (y, t, v) # ys)" using h2(2) by (simp add: snoc a ys_def)
    obtain h3 where h3: "clib_heap_merge_next h2 y = Some h3" "heap_rep h3 (pre0 @ blk_merge (y, t, v) ys)"
      using merge_refines [OF r] by blast
    have "c_free h p = Some h3" using 2 h1 h2 b \<open>y \<noteq> 0\<close> h3 by (simp add: c_free_def snoc a)
    moreover have "live (pre0 @ blk_merge (y, t, v) ys) = live (pre @ post)"
      by (cases v) (simp_all add: live_merge ys snoc a)
    moreover have "extent (pre0 @ blk_merge (y, t, v) ys) = extent bs"
      using E by (simp add: extent_merge snoc a Un_assoc)
    ultimately show ?thesis using h3 L by metis
  qed
qed

section \<open>The allocator interface\<close>

text \<open>What a client of \<open>malloc\<close> and \<open>free\<close> relies on. \<open>rep h b\<close>: the state \<open>h\<close> represents the
  abstract heap \<open>b\<close>; \<open>env k b\<close>: the operating system hands out fresh memory.\<close>

locale allocator =
  fixes rep :: "'h \<Rightarrow> 'b \<Rightarrow> bool"
    and lv :: "'b \<Rightarrow> (addr \<times> nat) set"
    and env :: "'k \<Rightarrow> 'b \<Rightarrow> bool"
    and alloc :: "'k \<Rightarrow> 'h \<Rightarrow> nat \<Rightarrow> ('h \<times> addr) option"
    and release :: "'h \<Rightarrow> addr \<Rightarrow> 'h option"
  assumes lv_disjoint: "rep h b \<Longrightarrow> (p, s) \<in> lv b \<Longrightarrow> (q, t) \<in> lv b \<Longrightarrow> p \<noteq> q \<Longrightarrow> disjoint_ranges p s q t"
    and lv_unique: "rep h b \<Longrightarrow> (p, s) \<in> lv b \<Longrightarrow> (p, t) \<in> lv b \<Longrightarrow> s = t"
    and lv_aligned: "rep h b \<Longrightarrow> (p, s) \<in> lv b \<Longrightarrow> p \<noteq> 0 \<and> p mod 16 = 0 \<and> p + s < 2 ^ 64"
    and alloc_law: "rep h b \<Longrightarrow> env k b \<Longrightarrow> 0 < n \<Longrightarrow> n < 2 ^ 62 \<Longrightarrow>
      \<exists>h' p b'. alloc k h n = Some (h', p) \<and> rep h' b' \<and>
        (p = 0 \<and> h' = h \<and> b' = b \<or> (\<exists>s\<ge>n. (p, s) \<notin> lv b \<and> lv b' = insert (p, s) (lv b)))"
    and release_law: "rep h b \<Longrightarrow>
      \<exists>h' b'. release h p = Some h' \<and> rep h' b' \<and> lv b' = {(q, t) \<in> lv b. q \<noteq> p}"
begin

lemma alloc_fresh:
  assumes "rep h b" "env k b" "0 < n" "n < 2 ^ 62" "alloc k h n = Some (h', p)" "p \<noteq> 0" "(q, t) \<in> lv b"
  obtains s where "n \<le> s" "disjoint_ranges p s q t"
proof -
  obtain b' s where b': "rep h' b'" "n \<le> s" "(p, s) \<notin> lv b" "lv b' = insert (p, s) (lv b)"
    using alloc_law [OF assms(1-4)] assms(5,6) by auto
  then have "(p, s) \<in> lv b'" "(q, t) \<in> lv b'" using assms(7) by auto
  moreover from this have "p \<noteq> q"
    using b' assms(7) lv_unique by metis
  ultimately show thesis using that b' lv_disjoint by metis
qed

lemma release_twice:
  assumes "rep h b" "release h p = Some h1"
  shows "\<exists>h2 b1 b2. release h1 p = Some h2 \<and> rep h1 b1 \<and> rep h2 b2 \<and> lv b1 = lv b2"
proof -
  obtain h' b1 where "release h p = Some h'" "rep h' b1" "lv b1 = {(q, t) \<in> lv b. q \<noteq> p}"
    using release_law [OF assms(1)] by blast
  then have 1: "rep h1 b1" "lv b1 = {(q, t) \<in> lv b. q \<noteq> p}" using assms(2) by simp_all
  obtain h2 b2 where "release h1 p = Some h2" "rep h2 b2" "lv b2 = {(q, t) \<in> lv b1. q \<noteq> p}"
    using release_law [OF 1(1)] by blast
  moreover from this 1 have "lv b1 = lv b2" by auto
  ultimately show ?thesis using 1(1) by blast
qed

lemma alloc_release:
  assumes "rep h b" "env k b" "0 < n" "n < 2 ^ 62"
  shows "\<exists>h1 p h2 b2. alloc k h n = Some (h1, p) \<and> release h1 p = Some h2 \<and> rep h2 b2 \<and> lv b2 = lv b"
proof -
  obtain h1 p b1 where 1: "alloc k h n = Some (h1, p)" "rep h1 b1"
    "p = 0 \<and> h1 = h \<and> b1 = b \<or> (\<exists>s\<ge>n. (p, s) \<notin> lv b \<and> lv b1 = insert (p, s) (lv b))"
    using alloc_law [OF assms] by blast
  have p: "(p, t) \<notin> lv b" for t
  proof
    assume t: "(p, t) \<in> lv b"
    with 1 lv_unique [OF 1(2)] lv_aligned [OF assms(1) t] show False by auto
  qed
  obtain h2 b2 where 2: "release h1 p = Some h2" "rep h2 b2" "lv b2 = {(q, t) \<in> lv b1. q \<noteq> p}"
    using release_law [OF 1(2)] by blast
  moreover have "q \<noteq> p" if "(q, t) \<in> lv b" for q t using p that by blast
  ultimately have "lv b2 = lv b" using 1(3) by auto
  with 1 2 show ?thesis by blast
qed

end

interpretation clib_alloc: allocator heap_rep live kernel_ok c_malloc c_free
proof
  fix h b p s q t assume "heap_rep h b" "(p, s) \<in> live b" "(q, t) \<in> live b" "p \<noteq> q"
  then show "disjoint_ranges p s q t"
    using live_disjoint [of b p s q t] by (auto simp: heap_rep_def disjoint_ranges_def)
next
  fix h b p s t assume "heap_rep h b" "(p, s) \<in> live b" "(p, t) \<in> live b"
  then show "s = t" using live_unique by (auto simp: heap_rep_def)
next
  fix h b p s assume "heap_rep h b" "(p, s) \<in> live b"
  then show "p \<noteq> 0 \<and> p mod 16 = 0 \<and> p + s < 2 ^ 64" using live_payload_ok [of b p s] by (simp add: heap_rep_def)
next
  fix h b k and n :: nat
  assume a: "heap_rep h b" "kernel_ok k b" "0 < n" "n < 2 ^ 62"
  have "n \<le> align16 n" using a by (intro align16_bounds) simp
  then show "\<exists>h' p b'. c_malloc k h n = Some (h', p) \<and> heap_rep h' b' \<and>
        (p = 0 \<and> h' = h \<and> b' = b \<or> (\<exists>s\<ge>n. (p, s) \<notin> live b \<and> live b' = insert (p, s) (live b)))"
    using malloc_refines [OF a] by (blast intro: le_trans)
next
  fix h b p assume "heap_rep h b"
  then show "\<exists>h' b'. c_free h p = Some h' \<and> heap_rep h' b' \<and> live b' = {(q, t) \<in> live b. q \<noteq> p}"
    using free_refines by blast
qed


section \<open>calloc and realloc\<close>

lemma live_extent: "(p, s) \<in> live bs \<Longrightarrow> {p..<p + s} \<subseteq> extent bs"
proof
  fix a assume "(p, s) \<in> live bs" "a \<in> {p..<p + s}"
  then obtain x where "(x, s, True) \<in> set bs" "p = x + 32" "x \<le> a" "a < x + 32 + s"
    by (auto simp: live_def)
  then show "a \<in> extent bs" unfolding extent_def by force
qed

lemma merge_next_used [c_frame]:
  assumes "heap_rep h (pre @ (x, s, True) # post)"
  shows "clib_heap_merge_next h x = Some h"
proof -
  obtain b where "hp_blocks h x = Some b" "hb_used b" using heap_rep_dest [OF assms] by metis
  then show ?thesis by (simp add: clib_heap_merge_next_def)
qed

lemma calloc_refines [c_spec]:
  assumes rep: "heap_rep h bs" and K: "kernel_ok K bs" and n: "0 < n * k" "n * k < 2 ^ 62"
    and m: "\<forall>a\<in>extent bs \<union> chunk_bytes K. m a \<noteq> None"
  shows "\<exists>h' m' p bs'. c_calloc K h m n k = Some (h', m', p) \<and> heap_rep h' bs'
    \<and> (p = 0 \<and> m' = m \<and> live bs' = live bs \<or> (\<exists>s\<ge>n * k. (p, s) \<notin> live bs \<and>
        live bs' = insert (p, s) (live bs) \<and> m' = put_bytes m p (replicate (n * k) NUL)))"
proof -
  obtain h' p bs' where mal: "c_malloc K h (n * k) = Some (h', p)" "heap_rep h' bs'"
    "p = 0 \<and> h' = h \<and> bs' = bs \<or> (\<exists>s. align16 (n * k) \<le> s \<and> (p, s) \<notin> live bs \<and> live bs' = insert (p, s) (live bs))"
    "extent bs' \<subseteq> extent bs \<union> chunk_bytes K"
    using malloc_refines [OF rep K n] by blast
  have z: "n \<noteq> 0" "k \<noteq> 0" using n by auto
  have "n * k \<le> ULONG_MAX" using n by (simp add: ULONG_MAX_def)
  then have nk: "\<not> ULONG_MAX div k < n" using z by (simp add: div_less_iff_less_mult not_less)
    
  have mu: "mul64 n k = n * k" using n by (simp add: mul64_small)
  show ?thesis
  proof (cases "p = 0")
    case True
    then have "c_calloc K h m n k = Some (h', m, 0)" using z nk mu mal by (simp add: c_calloc_def)
    moreover have "live bs' = live bs"
      using mal(2,3) True live_payload_ok [of bs' 0] by (auto simp: heap_rep_def)
    ultimately show ?thesis using mal(2) True by blast
  next
    case False
    then obtain s where s: "align16 (n * k) \<le> s" "(p, s) \<notin> live bs" "live bs' = insert (p, s) (live bs)"
      using mal(3) by blast
    have nks: "n * k \<le> s" using align16_bounds(1) [of "n * k"] n s(1) by simp
    have "{p..<p + s} \<subseteq> extent bs'" using s by (intro live_extent) simp
    then have "mapped m p (n * k)" using mal(4) m nks unfolding mapped_def
      by (metis Un_iff atLeastLessThan_iff in_mono le_add1 nat_add_left_cancel_less order_less_le_trans)
    then have "c_memset m p 0 (n * k) = Some (put_bytes m p (replicate (n * k) (to_char 0)), p)"
      using False by (rule c_memset_spec [rotated])
    moreover have "to_char 0 = NUL" by code_simp
    ultimately have "c_calloc K h m n k = Some (h', put_bytes m p (replicate (n * k) NUL), p)"
      using z nk mu mal False by (simp add: c_calloc_def)
    then show ?thesis using mal(2) s nks by blast
  qed
qed

lemma realloc_refines [c_spec]:
  assumes rep: "heap_rep h bs" and K: "kernel_ok K bs" and n: "0 < n" "n < 2 ^ 61"
    and p: "(p, s) \<in> live bs" and data: "bytes_at m p data" "length data = s"
    and m: "\<forall>a\<in>extent bs \<union> chunk_bytes K. m a \<noteq> None"
  shows "\<exists>h' m' q bs'. c_realloc K h m p n = Some (h', m', q) \<and> heap_rep h' bs'
    \<and> (q = 0 \<and> m' = m \<and> live bs' = live bs
       \<or> (\<exists>t\<ge>n. live bs' = insert (q, t) (live bs - {(p, s)}) \<and> bytes_at m' q (take n data)
            \<and> (\<forall>(r, k)\<in>live bs - {(p, s)}. \<forall>i<k. m' (r + i) = m (r + i))))"
proof -
  have dj: "sorted_wrt blk_disj bs" using rep by (simp add: heap_rep_def)
  define sz where "sz = align16 n"
  have n15: "n + 15 < 2 ^ 64" using n by simp
  have sz: "n \<le> sz" "sz < n + 16" "sz mod 16 = 0" using align16_bounds [OF n15] by (simp_all add: sz_def)
  obtain x pre post where b: "clib_heap_block_from_ptr h p = Some x" "bs = pre @ (x, s, True) # post"
    "p = x + 32" "x \<noteq> 0"
    using rep
  proof (cases rule: block_from_ptr_refines [where p = p])
    case (2 x s' pre post)
    moreover have "s' = s" using 2(5) p by simp
    ultimately show ?thesis using that by simp
  qed (use p in blast)
  obtain blk where blk: "hp_blocks h x = Some blk" "hb_size blk = s"
    "dll (hp_blocks h) x (hb_next blk) post (hp_tail h) 0"
    using heap_rep_dest [of h pre x s True post] rep b(2) by metis
  have "\<exists>nb. hp_blocks h (hb_next blk) = Some nb" if "hb_next blk \<noteq> 0"
    using dll_next_Some [OF blk(3) that] .
  then obtain grow where grow: "(if hb_next blk \<noteq> 0 then do { n \<leftarrow> hp_blocks h (hb_next blk); Some (\<not> hb_used n) }
      else Some False) = Some grow" by (cases "hb_next blk = 0") auto
  have mg: "(if grow then clib_heap_merge_next h x else Some h) = Some h"
    using merge_next_used [of h pre x s post] rep b(2) by simp
  have p0: "p \<noteq> 0" using b by simp
  show ?thesis
  proof (cases "sz \<le> s")
    case True
    obtain s' rest where sp: "blk_split sz (x, s, True) = (x, s', True) # rest" "sz \<le> s'" "live rest = {}"
      using blk_split_facts [OF True] by metis
    obtain h' where h': "clib_heap_split h x sz = Some h'" "heap_rep h' (pre @ (x, s', True) # rest @ post)"
      using split_refines [of h pre x s True post sz] rep b(2) sz(3) True
      by (auto simp: sp(1) simp del: blk_split.simps)
    have "c_realloc K h m p n = Some (h', m, p)"
      using p0 n b blk True h'(1) by (simp add: c_realloc_def sz_def)
    moreover have "live (pre @ (x, s', True) # rest @ post) = insert (p, s') (live bs - {(p, s)})"
    proof -
      have "(p, s) \<notin> live pre \<union> live post"
        using sorted_wrt_disj_distinct [OF dj] by (auto simp: b live_def image_iff)
      then show ?thesis using sp(3) by (auto simp: b)
    qed
    moreover have "bytes_at m p (take n data)" using data(1) by (simp add: bytes_at_nth)
    moreover have "n \<le> s'" using sz(1) sp(2) by simp
    ultimately show ?thesis using h'(2) by blast
  next
    case False
    have n62: "0 < sz" "sz < 2 ^ 62" using n sz by simp_all
    obtain h1 q bs1 where mal: "c_malloc K h sz = Some (h1, q)" "heap_rep h1 bs1"
      "q = 0 \<and> h1 = h \<and> bs1 = bs \<or> (\<exists>t. align16 sz \<le> t \<and> (q, t) \<notin> live bs \<and> live bs1 = insert (q, t) (live bs))"
      "extent bs1 \<subseteq> extent bs \<union> chunk_bytes K"
      using malloc_refines [OF rep K n62] by blast
    show ?thesis
    proof (cases "q = 0")
      case True
      have "c_realloc K h m p n = Some (h1, m, 0)"
        using p0 n b blk False grow mg mal True by (simp add: c_realloc_def sz_def [symmetric])
      moreover have "live bs1 = live bs"
        using mal(2,3) True live_payload_ok [of bs1 0] by (auto simp: heap_rep_def)
      ultimately show ?thesis using mal(2) by blast
    next
      case q0: False
      then obtain t where t: "align16 sz \<le> t" "(q, t) \<notin> live bs" "live bs1 = insert (q, t) (live bs)"
        using mal(3) by blast
      have szt: "sz \<le> t" using align16_bounds(1) [of sz] n62 t(1) by simp
      have dj1: "sorted_wrt blk_disj bs1" using mal(2) by (simp add: heap_rep_def)
      have ne: "r \<noteq> q" if "(r, k) \<in> live bs" for r k
        using live_unique [OF dj1, of q k t] t that by auto
      have dis: "disjoint_ranges q t r k" if "(r, k) \<in> live bs" for r k
        using live_disjoint [OF dj1, of q t r k] ne [OF that] t(3) that by (auto simp: disjoint_ranges_def)
      have "{q..<q + t} \<subseteq> extent bs1" using t by (intro live_extent) simp
      then have "\<forall>a\<in>{q..<q + t}. m a \<noteq> None" using mal(4) m by blast
      then have map: "mapped m q s" using szt False by (auto simp: mapped_def)
      have "disjoint_ranges q s p s" using dis [OF p] szt False by (auto simp: disjoint_ranges_def)
      then have cp: "c_memcpy m q p s = Some (put_bytes m q data, q)"
        using c_memcpy_spec [of q p m data] q0 p0 data map by simp
      obtain h2 bs2 where fr: "c_free h1 p = Some h2" "heap_rep h2 bs2"
        "live bs2 = {(r, k) \<in> live bs1. r \<noteq> p}"
        using free_refines [OF mal(2)] by blast
      have "c_realloc K h m p n = Some (h2, put_bytes m q data, q)"
        using p0 n b blk False grow mg mal q0 cp fr by (simp add: c_realloc_def sz_def [symmetric])
      moreover have "live bs2 = insert (q, t) (live bs - {(p, s)})"
      proof -
        have "(p, k) \<in> live bs \<longleftrightarrow> k = s" for k using live_unique [OF dj _ p] p by blast
        then have "{(r, k) \<in> live bs. r \<noteq> p} = live bs - {(p, s)}" by auto
        then show ?thesis unfolding fr(3) t(3) using ne [OF p] by auto
      qed
      moreover have "bytes_at (put_bytes m q data) q (take n data)"
        using bytes_at_put_bytes [of m q data] by (simp add: bytes_at_nth)
      moreover have "\<forall>(r, k)\<in>live bs - {(p, s)}. \<forall>i<k. put_bytes m q data (r + i) = m (r + i)"
      proof (intro ballI, clarify)
        fix r k i assume "(r, k) \<in> live bs" "i < k"
        then have "r + i < q \<or> q + length data \<le> r + i"
          using dis [of r k] data szt False by (auto simp: disjoint_ranges_def)
        then show "put_bytes m q data (r + i) = m (r + i)" by (rule put_bytes_other)
      qed
      moreover have "n \<le> t" using szt sz(1) by simp
      ultimately show ?thesis using fr(2) by blast
    qed
  qed
qed


section \<open>Properties\<close>

text \<open>A concrete kernel and heap for the witnesses: one chunk, its first 64 bytes in use.\<close>

definition demo_kernel :: vm_kernel where
  "demo_kernel = \<lparr>sys_vm_alloc = (\<lambda>c. if c < 1048576 then 1048576 else 0), sys_user_heap_alloc = (\<lambda>c. 0)\<rparr>"

definition demo_heap :: clib_heap where
  "demo_heap = \<lparr>hp_blocks =
     [65536 \<mapsto> \<lparr>hb_size = 64, hb_used = True, hb_magic = HEAP_MAGIC, hb_next = 65632, hb_prev = 0\<rparr>,
      65632 \<mapsto> \<lparr>hb_size = 128, hb_used = False, hb_magic = HEAP_MAGIC, hb_next = 0, hb_prev = 65536\<rparr>],
     hp_head = 65536, hp_tail = 65632\<rparr>"

lemma demo_heap_rep: "heap_rep demo_heap [(65536, 64, True), (65632, 128, False)]"
  by (simp add: heap_rep_def demo_heap_def blk_ok_def blk_disj_def disjoint_ranges_def)

lemma demo_kernel_ok:
  "kernel_ok demo_kernel []" "kernel_ok demo_kernel [(65536, 64, True), (65632, 128, False)]"
  by (simp_all add: kernel_ok_def demo_kernel_def chunk_addr_def Let_def disjoint_ranges_def)



text \<open>C5. \<open>free\<close> releases exactly the payload at the given pointer: after it the payloads in use are
  those before without the one at \<open>p\<close>, and the block list is well linked again whatever neighbours
  were joined. A pointer that no payload in use starts at (null, wild, or freed before) changes
  nothing that is in use.\<close>

theorem free_correct:
  assumes "heap_rep h bs"
  shows "\<exists>h' bs'. c_free h p = Some h' \<and> heap_rep h' bs' \<and> live bs' = {(q, t) \<in> live bs. q \<noteq> p}
    \<and> extent bs' = extent bs"
  using assms by (rule free_refines)

theorem free_correct_witness:
  "\<exists>h' bs'. c_free demo_heap 65568 = Some h' \<and> heap_rep h' bs' \<and> live bs' = {}"
  using free_correct [OF demo_heap_rep, of 65568] by auto

text \<open>\<open>realloc\<close> of a payload in use to \<open>n\<close> bytes: null with nothing changed, or a payload of at
  least \<open>n\<close> bytes that replaces the old one, starts with the first \<open>n\<close> bytes of the old contents
  (all of them when it grew), and leaves the contents of every other payload in use untouched.\<close>

theorem realloc_preserves_contents:
  assumes "heap_rep h bs" "kernel_ok K bs" "0 < n" "n < 2 ^ 61"
    "(p, s) \<in> live bs" "bytes_at m p data" "length data = s"
    "\<forall>a\<in>extent bs \<union> chunk_bytes K. m a \<noteq> None"
  shows "\<exists>h' m' q bs'. c_realloc K h m p n = Some (h', m', q) \<and> heap_rep h' bs'
    \<and> (q = 0 \<and> m' = m \<and> live bs' = live bs
       \<or> (\<exists>t\<ge>n. live bs' = insert (q, t) (live bs - {(p, s)}) \<and> bytes_at m' q (take n data)
            \<and> (\<forall>(r, k)\<in>live bs - {(p, s)}. \<forall>i<k. m' (r + i) = m (r + i))))"
  using assms by (rule realloc_refines)

theorem realloc_preserves_contents_witness:
  "\<exists>h' m' q bs'. c_realloc demo_kernel demo_heap (\<lambda>a. Some (CHR ''x'')) 65568 100 = Some (h', m', q)
    \<and> heap_rep h' bs' \<and> (q = 0 \<or> (\<exists>t\<ge>100. live bs' = {(q, t)} \<and> bytes_at m' q (replicate 64 (CHR ''x''))))"
proof -
  have "bytes_at (\<lambda>a. Some (CHR ''x'')) 65568 (replicate 64 (CHR ''x''))" by (simp add: bytes_at_nth)
  from realloc_preserves_contents [OF demo_heap_rep demo_kernel_ok(2) _ _ _ this, of 100 64]
  show ?thesis by simp blast
qed

text \<open>\<open>calloc\<close> of \<open>n\<close> elements of \<open>k\<close> bytes returns null or a fresh payload of at least \<open>n * k\<close>
  bytes that are all zero, with nothing else in memory changed.\<close>

theorem calloc_zeroes:
  assumes "heap_rep h bs" "kernel_ok K bs" "0 < n * k" "n * k < 2 ^ 62"
    "\<forall>a\<in>extent bs \<union> chunk_bytes K. m a \<noteq> None"
  shows "\<exists>h' m' p bs'. c_calloc K h m n k = Some (h', m', p) \<and> heap_rep h' bs'
    \<and> (p = 0 \<and> m' = m \<and> live bs' = live bs \<or> (\<exists>s\<ge>n * k. (p, s) \<notin> live bs \<and>
        live bs' = insert (p, s) (live bs) \<and> m' = put_bytes m p (replicate (n * k) NUL)))"
  using assms by (rule calloc_refines)

theorem calloc_zeroes_witness:
  "\<exists>h' m' p bs'. c_calloc demo_kernel demo_heap (\<lambda>a. Some (CHR ''x'')) 10 8 = Some (h', m', p)
    \<and> heap_rep h' bs' \<and> (p = 0 \<or> (\<exists>s\<ge>80. live bs' = {(p, s), (65568, 64)}
        \<and> m' = put_bytes (\<lambda>a. Some (CHR ''x'')) p (replicate 80 NUL)))"
proof -
  have "(0 :: nat) < 10 * 8" "(10 :: nat) * 8 < 2 ^ 62"
    "\<forall>a\<in>extent [(65536, 64, True), (65632, 128, False)] \<union> chunk_bytes demo_kernel. (\<lambda>a. Some (CHR ''x'')) a \<noteq> None"
    by simp_all
  from calloc_zeroes [OF demo_heap_rep demo_kernel_ok(2) this]
  obtain h' m' p bs' where c: "c_calloc demo_kernel demo_heap (\<lambda>a. Some (CHR ''x'')) 10 8 = Some (h', m', p)"
    "heap_rep h' bs'" and d: "p = 0 \<and> m' = (\<lambda>a. Some (CHR ''x'')) \<and> live bs' = live [(65536, 64, True), (65632, 128, False)]
      \<or> (\<exists>s\<ge>10 * 8. (p, s) \<notin> live [(65536, 64, True), (65632, 128, False)] \<and>
        live bs' = insert (p, s) (live [(65536, 64, True), (65632, 128, False)]) \<and>
        m' = put_bytes (\<lambda>a. Some (CHR ''x'')) p (replicate (10 * 8) NUL))"
    by (elim exE conjE)
  show ?thesis by (rule exI [of _ h'], rule exI [of _ m'], rule exI [of _ p], rule exI [of _ bs'])
    (use c d in auto)
qed

text \<open>The rounding of \<open>malloc\<close> wraps: a request within 15 bytes of \<open>SIZE_MAX\<close> is rounded up to
  zero, and on an empty heap \<open>malloc\<close> answers it with a non-null pointer to a payload of 0 bytes.\<close>

theorem malloc_huge_request_wraps:
  assumes "2 ^ 64 - 15 \<le> n" "n < 2 ^ 64"
  shows "c_malloc demo_kernel empty_heap n = c_malloc demo_kernel empty_heap (2 ^ 64 - 1)
    \<and> (\<exists>h'. c_malloc demo_kernel empty_heap n = Some (h', 1048608) \<and>
         map_option hb_size (hp_blocks h' 1048576) = Some 0)"
proof -
  have wrap: "align16 n = 0" if "2 ^ 64 - 15 \<le> n" "n < 2 ^ 64" for n
  proof -
    have "unat (of_nat n + 15 :: u64) = (n + 15) mod 2 ^ 64"
      by (simp add: unat_word_ariths unat_of_nat mod_simps)
    also have "\<dots> = n + 15 - 2 ^ 64" using that by (simp add: mod_if)
    finally have "unat (of_nat n + 15 :: u64) div 16 = 0" using that by simp
    moreover have "unat (drop_bit 4 (of_nat n + 15 :: u64)) = unat (of_nat n + 15 :: u64) div 16"
      by (simp add: drop_bit_eq_div unat_div)
    ultimately have "drop_bit 4 (of_nat n + 15 :: u64) = 0" by (simp only: unat_eq_0)
    then show ?thesis
      by (simp only: align16_def clib_align_up_16) simp
  qed
  have C: "heap_chunk_size 0 = 262144"
    by (simp add: heap_chunk_size_def HEAP_CAPACITY_def HEAP_CHUNK_MIN_def HEAP_CHUNK_MAX_def
        add64_def align16_eq)
  have M: "c_malloc demo_kernel empty_heap n = do { (h, current) \<leftarrow> clib_heap_request_chunk demo_kernel empty_heap 0;
          if current = 0 then Some (h, 0) else heap_take h current 0 }"
    if "2 ^ 64 - 15 \<le> n" "n < 2 ^ 64" for n
    using wrap [OF that] that by (simp add: c_malloc_def empty_heap_def first_fit.simps)
  have "c_malloc demo_kernel empty_heap n = c_malloc demo_kernel empty_heap (2 ^ 64 - 1)"
    using M [OF assms] M [of "2 ^ 64 - 1"] by simp
  moreover have "\<exists>h'. c_malloc demo_kernel empty_heap n = Some (h', 1048608) \<and>
      map_option hb_size (hp_blocks h' 1048576) = Some 0"
    unfolding M [OF assms]
    by (simp add: clib_heap_request_chunk_def C chunk_addr_def demo_kernel_def empty_heap_def
        heap_take_def clib_heap_split_def upd_block_def add64_def sub64_def Let_def)
  ultimately show ?thesis by blast
qed

theorem malloc_huge_request_wraps_witness:
  "\<exists>h'. c_malloc demo_kernel empty_heap 18446744073709551615 = Some (h', 1048608)"
  using malloc_huge_request_wraps [of 18446744073709551615] by auto

end
