(* ===== verification/LibcStdio.thy ===== *)
theory LibcStdio
  imports LibcNum
begin

text \<open>
  Formatted output of \<open>cleonos/c/src/stdio.c\<close>. \<open>clio_vformat\<close> hands pieces of text to a sink; the
  sink is a descriptor or a bounded buffer. The formatter is written over any emit function, as
  the code is over \<open>clio_sink_emit\<close>, and an interface (\<open>text_sink\<close>) says what a sink promises.

  An action is a function of the sink state to the new state and a success flag; the flag false is
  the early \<open>return EOF\<close>. The variadic arguments are a list of typed values; fetching one of another
  type or past the end is undefined (\<open>None\<close>), and so is \<open>%n\<close> with a pointer, which is not modelled.
\<close>

section \<open>Descriptors\<close>

record 'k fd_calls =
  fd_write :: "'k \<Rightarrow> int \<Rightarrow> string \<Rightarrow> 'k \<times> nat option"
  fd_read1 :: "'k \<Rightarrow> int \<Rightarrow> 'k \<times> char option option"
  fd_yield :: "'k \<Rightarrow> 'k"

definition clio_strlen :: "string option \<Rightarrow> nat" where
  "clio_strlen text = (case text of None \<Rightarrow> 0 | Some t \<Rightarrow> length t)"

text \<open>The write loop: no progress or an error ends it, more than asked counts as everything.\<close>

function write_loop :: "'k fd_calls \<Rightarrow> 'k \<Rightarrow> int \<Rightarrow> string \<Rightarrow> 'k \<times> bool" where
  "write_loop F k fd text =
     (if text = [] then (k, True)
      else (case fd_write F k fd text of
          (k, None) \<Rightarrow> (k, False)
        | (k, Some wrote) \<Rightarrow>
            if wrote = 0 then (k, False)
            else write_loop F k fd (drop (if length text < wrote then length text else wrote) text)))"
  by pat_completeness auto
termination by (relation "measure (\<lambda>(F, k, fd, t). length t)") auto

declare write_loop.simps [simp del]

text \<open>The result is the number of bytes, capped at \<open>INT_MAX\<close>; \<open>EOF\<close> is \<open>- 1\<close>.\<close>

definition clio_write_all_fd :: "'k fd_calls \<Rightarrow> 'k \<Rightarrow> int \<Rightarrow> string option \<Rightarrow> 'k \<times> int" where
  "clio_write_all_fd F k fd text =
     (if fd < 0 then (k, - 1)
      else (case text of None \<Rightarrow> (k, 0)
        | Some t \<Rightarrow> (case write_loop F k fd t of
            (k, False) \<Rightarrow> (k, - 1)
          | (k, True) \<Rightarrow> (k, if 0x7FFFFFFF < length t then 0x7FFFFFFF else int (length t)))))"

definition c_fputc :: "'k fd_calls \<Rightarrow> int \<Rightarrow> int \<Rightarrow> 'k \<Rightarrow> 'k \<times> int" where
  "c_fputc F ch fd k =
     (let out = to_char (ch mod 256); (k, r) = clio_write_all_fd F k fd (Some [out])
      in (k, if r = - 1 then - 1 else uchar out))"

definition c_putchar :: "'k fd_calls \<Rightarrow> int \<Rightarrow> 'k \<Rightarrow> 'k \<times> int" where
  "c_putchar F ch k =
     (let out = to_char (ch mod 256); (k, r) = clio_write_all_fd F k 1 (Some [out])
      in (k, if r = - 1 then - 1 else uchar out))"

definition c_fputs :: "'k fd_calls \<Rightarrow> string option \<Rightarrow> int \<Rightarrow> 'k \<Rightarrow> 'k \<times> int" where
  "c_fputs F text fd k =
     (case text of None \<Rightarrow> (k, - 1) | Some t \<Rightarrow> clio_write_all_fd F k fd (Some t))"

definition c_puts :: "'k fd_calls \<Rightarrow> string option \<Rightarrow> 'k \<Rightarrow> 'k \<times> int" where
  "c_puts F text k =
     (case c_fputs F text 1 k of (k, wrote) \<Rightarrow>
        if wrote = - 1 then (k, - 1)
        else (case c_putchar F 10 k of (k, r) \<Rightarrow> if r = - 1 then (k, - 1) else (k, wrote + 1)))"

text \<open>Reading one byte: the loop yields while nothing is there. \<open>fd_read1\<close> answers an error (\<open>None\<close>),
  no byte (\<open>Some None\<close>) or a byte. Waiting forever is the result \<open>None\<close>.\<close>

partial_function (option) read_byte_loop :: "'k fd_calls \<Rightarrow> int \<Rightarrow> 'k \<Rightarrow> ('k \<times> int) option" where
  "read_byte_loop F fd k =
     (case fd_read1 F k fd of
        (k, None) \<Rightarrow> Some (k, - 1)
      | (k, Some (Some ch)) \<Rightarrow> Some (k, uchar ch)
      | (k, Some None) \<Rightarrow> read_byte_loop F fd (fd_yield F k))"

definition c_getchar :: "'k fd_calls \<Rightarrow> 'k \<Rightarrow> ('k \<times> int) option" where
  "c_getchar F k = read_byte_loop F 0 k"

definition c_fgetc :: "'k fd_calls \<Rightarrow> int \<Rightarrow> 'k \<Rightarrow> ('k \<times> int) option" where
  "c_fgetc F fd k = (if fd < 0 then Some (k, - 1) else read_byte_loop F fd k)"

section \<open>Sinks\<close>

datatype sink_mode = CLIO_SINK_FD | CLIO_SINK_BUF

record clio_sink =
  sk_mode :: sink_mode
  sk_fd :: int
  sk_buffer :: "string option"
  sk_capacity :: nat
  sk_count :: nat
  sk_failed :: bool

definition clio_sink_init_fd :: "int \<Rightarrow> clio_sink" where
  "clio_sink_init_fd fd =
     \<lparr>sk_mode = CLIO_SINK_FD, sk_fd = fd, sk_buffer = None, sk_capacity = 0, sk_count = 0, sk_failed = False\<rparr>"

definition clio_sink_init_buffer :: "string option \<Rightarrow> nat \<Rightarrow> clio_sink" where
  "clio_sink_init_buffer out out_size =
     \<lparr>sk_mode = CLIO_SINK_BUF, sk_fd = - 1,
      sk_buffer = (if 0 < out_size then map_option (\<lambda>b. b[0 := NUL]) out else out),
      sk_capacity = out_size, sk_count = 0, sk_failed = False\<rparr>"

definition clio_sink_finalize_buffer :: "clio_sink \<Rightarrow> clio_sink" where
  "clio_sink_finalize_buffer sink =
     (case sk_buffer sink of
        None \<Rightarrow> sink
      | Some b \<Rightarrow>
        if sk_mode sink \<noteq> CLIO_SINK_BUF \<or> sk_capacity sink = 0 then sink
        else if sk_count sink < sk_capacity sink
        then sink\<lparr>sk_buffer := Some (b[sk_count sink := NUL])\<rparr>
        else sink\<lparr>sk_buffer := Some (b[sk_capacity sink - 1 := NUL])\<rparr>)"

text \<open>\<open>buffer[start + i] = text[i]\<close> for \<open>i < writable\<close>.\<close>

definition copy_into :: "string \<Rightarrow> nat \<Rightarrow> string \<Rightarrow> nat \<Rightarrow> string" where
  "copy_into b start text writable = fold (\<lambda>i b. b[start + i := text ! i]) [0..<writable] b"

definition clio_sink_emit :: "'k fd_calls \<Rightarrow> string \<Rightarrow> clio_sink \<times> 'k \<Rightarrow> (clio_sink \<times> 'k) \<times> bool" where
  "clio_sink_emit F text = (\<lambda>(sink, k).
     if text = [] then ((sink, k), True)
     else (case sk_mode sink of
         CLIO_SINK_FD \<Rightarrow>
           (case clio_write_all_fd F k (sk_fd sink) (Some text) of (k, r) \<Rightarrow>
              if r = - 1 then ((sink\<lparr>sk_failed := True\<rparr>, k), False)
              else ((sink\<lparr>sk_count := sk_count sink + length text\<rparr>, k), True))
       | CLIO_SINK_BUF \<Rightarrow>
           (let sink = (case sk_buffer sink of
                  None \<Rightarrow> sink
                | Some b \<Rightarrow>
                  if sk_capacity sink = 0 then sink
                  else (let start = sk_count sink;
                            writable = (if start + 1 < sk_capacity sink then (sk_capacity sink - 1) - start else 0);
                            writable = (if length text < writable then length text else writable)
                        in sink\<lparr>sk_buffer := Some (copy_into b start text writable)\<rparr>))
            in ((sink\<lparr>sk_count := sk_count sink + length text\<rparr>, k), True))))"

section \<open>Numbers\<close>

text \<open>The digits go to \<open>tmp\<close> of 64 bytes, least significant first; the result \<open>None\<close> is the return
  value 0 for unusable arguments or too small a buffer.\<close>

definition base_digit :: "bool \<Rightarrow> nat \<Rightarrow> char" where
  "base_digit uppercase digit =
     (if digit < 10 then digit_char digit
      else to_char ((if uppercase then 65 else 97) + (int digit - 10)))"

function base_loop :: "nat \<Rightarrow> nat \<Rightarrow> bool \<Rightarrow> string \<Rightarrow> string" where
  "base_loop v base uppercase tmp =
     (if v \<noteq> 0 \<and> length tmp < 64 \<and> 2 \<le> base
      then base_loop (v div base) base uppercase (tmp @ [base_digit uppercase (v mod base)])
      else tmp)"
  by pat_completeness auto
termination by (relation "measure fst") auto

declare base_loop.simps [simp del]

definition clio_u64_to_base :: "nat \<Rightarrow> nat \<Rightarrow> bool \<Rightarrow> nat \<Rightarrow> string option" where
  "clio_u64_to_base v base uppercase out_size =
     (if out_size < 2 \<or> base < 2 \<or> 16 < base then None
      else if v = 0 then Some ''0''
      else (let tmp = base_loop v base uppercase []
            in if out_size < length tmp + 1 then None else Some (rev tmp)))"

text \<open>The magnitude of a negative value is computed as \<open>(unsigned long long)(-(value + 1)) + 1\<close>, which
  does not overflow.\<close>

definition clio_i64_to_dec :: "int \<Rightarrow> nat \<Rightarrow> string option" where
  "clio_i64_to_dec v out_size =
     (if out_size < 2 then None
      else if v < 0
      then (if out_size < 1 + 2 then None
            else map_option (\<lambda>ds. CHR ''-'' # ds) (clio_u64_to_base (nat (- (v + 1)) + 1) 10 False (out_size - 1)))
      else clio_u64_to_base (nat v) 10 False out_size)"

definition clio_is_digit :: "char \<Rightarrow> bool" where
  "clio_is_digit ch = (48 \<le> schar ch \<and> schar ch \<le> 57)"

section \<open>Actions\<close>

fun run_all :: "('s \<Rightarrow> 's \<times> bool) list \<Rightarrow> 's \<Rightarrow> 's \<times> bool" where
  "run_all [] s = (s, True)"
| "run_all (a # as) s = (case a s of (s, ok) \<Rightarrow> if ok then run_all as s else (s, False))"

definition act_if :: "bool \<Rightarrow> ('s \<Rightarrow> 's \<times> bool) \<Rightarrow> 's \<Rightarrow> 's \<times> bool" where
  "act_if c a s = (if c then a s else (s, True))"

fun clio_emit_repeat :: "(string \<Rightarrow> 's \<Rightarrow> 's \<times> bool) \<Rightarrow> char \<Rightarrow> nat \<Rightarrow> 's \<Rightarrow> 's \<times> bool" where
  "clio_emit_repeat put ch 0 s = (s, True)"
| "clio_emit_repeat put ch (Suc n) s =
     (case put [ch] s of (s, ok) \<Rightarrow> if ok then clio_emit_repeat put ch n s else (s, False))"

definition clio_emit_with_width ::
    "(string \<Rightarrow> 's \<Rightarrow> 's \<times> bool) \<Rightarrow> string \<Rightarrow> bool \<Rightarrow> char \<Rightarrow> nat \<Rightarrow> 's \<Rightarrow> 's \<times> bool" where
  "clio_emit_with_width put text left_align pad_char width =
     run_all
      [act_if (\<not> left_align \<and> length text < width) (clio_emit_repeat put pad_char (width - length text)),
       act_if (0 < length text) (put text),
       act_if (left_align \<and> length text < width) (clio_emit_repeat put (CHR '' '') (width - length text))]"

section \<open>The formatter\<close>

datatype va_arg = VInt i32 | VLong i64 | VStr "string option" | VPtr u64

record fmt_spec =
  fs_left :: bool
  fs_zero :: bool
  fs_width :: nat
  fs_prec :: "nat option"
  fs_length :: nat

fun fmt_flags :: "bool \<Rightarrow> bool \<Rightarrow> string \<Rightarrow> bool \<times> bool \<times> string" where
  "fmt_flags left zero (c # cs) =
     (if c = CHR ''-'' then fmt_flags True zero cs
      else if c = CHR ''0'' then fmt_flags left True cs
      else (left, zero, c # cs))"
| "fmt_flags left zero [] = (left, zero, [])"

fun fmt_number :: "nat \<Rightarrow> string \<Rightarrow> nat \<times> string" where
  "fmt_number v (c # cs) =
     (if clio_is_digit c then fmt_number (add64 (mul64 v 10) (nat (schar c - 48))) cs else (v, c # cs))"
| "fmt_number v [] = (v, [])"

definition fmt_precision :: "string \<Rightarrow> nat option \<times> string" where
  "fmt_precision s =
     (if ch_at s 0 = CHR ''.'' then (let (v, s) = fmt_number 0 (drop 1 s) in (Some v, s)) else (None, s))"

definition fmt_length :: "string \<Rightarrow> nat \<times> string" where
  "fmt_length s =
     (if ch_at s 0 = CHR ''l''
      then (if ch_at s 1 = CHR ''l'' then (2, drop 2 s) else (1, drop 1 s))
      else if ch_at s 0 = CHR ''z'' then (3, drop 1 s) else (0, s))"

text \<open>The text behind the percent sign up to the conversion character.\<close>

definition fmt_parse :: "string \<Rightarrow> fmt_spec \<times> string" where
  "fmt_parse s =
     (let (left, zero, s) = fmt_flags False False s;
          (width, s) = fmt_number 0 s;
          (prec, s) = fmt_precision s;
          (len, s) = fmt_length s
      in (\<lparr>fs_left = left, fs_zero = zero, fs_width = width, fs_prec = prec, fs_length = len\<rparr>, s))"

fun fetch_signed :: "nat \<Rightarrow> va_arg list \<Rightarrow> (int \<times> va_arg list) option" where
  "fetch_signed len (VInt v # args) = (if len = 0 then Some (sint v, args) else None)"
| "fetch_signed len (VLong v # args) = (if len \<noteq> 0 then Some (sint v, args) else None)"
| "fetch_signed len _ = None"

fun fetch_unsigned :: "nat \<Rightarrow> va_arg list \<Rightarrow> (nat \<times> va_arg list) option" where
  "fetch_unsigned len (VInt v # args) = (if len = 0 then Some (unat v, args) else None)"
| "fetch_unsigned len (VLong v # args) = (if len \<noteq> 0 then Some (unat v, args) else None)"
| "fetch_unsigned len _ = None"

text \<open>The conversions \<open>d\<close> and \<open>i\<close>.\<close>

definition act_signed :: "(string \<Rightarrow> 's \<Rightarrow> 's \<times> bool) \<Rightarrow> fmt_spec \<Rightarrow> int \<Rightarrow> 's \<Rightarrow> 's \<times> bool" where
  "act_signed put sp v =
     (case clio_i64_to_dec v 96 of
        None \<Rightarrow> (\<lambda>s. (s, False))
      | Some number_buf \<Rightarrow>
        (let neg = (ch_at number_buf 0 = CHR ''-'');
             digits = (if neg then drop 1 number_buf else number_buf);
             digits = (if fs_prec sp = Some 0 \<and> v = 0 then [] else digits);
             leading_zeros = (case fs_prec sp of None \<Rightarrow> 0 | Some p \<Rightarrow> p - length digits);
             core_len = length digits + leading_zeros + (if neg then 1 else 0);
             padded = (\<not> fs_left sp \<and> core_len < fs_width sp);
             zero_padded = (fs_zero sp \<and> fs_prec sp = None)
         in run_all
             [act_if padded
                (if zero_padded
                 then run_all [act_if neg (put ''-''), clio_emit_repeat put (CHR ''0'') (fs_width sp - core_len)]
                 else clio_emit_repeat put (CHR '' '') (fs_width sp - core_len)),
              act_if (neg \<and> \<not> (padded \<and> zero_padded)) (put ''-''),
              clio_emit_repeat put (CHR ''0'') leading_zeros,
              act_if (digits \<noteq> []) (put digits),
              act_if (fs_left sp \<and> core_len < fs_width sp)
                (clio_emit_repeat put (CHR '' '') (fs_width sp - core_len))]))"

text \<open>The conversions \<open>u\<close>, \<open>x\<close> and \<open>X\<close>.\<close>

definition act_unsigned ::
    "(string \<Rightarrow> 's \<Rightarrow> 's \<times> bool) \<Rightarrow> fmt_spec \<Rightarrow> nat \<Rightarrow> bool \<Rightarrow> nat \<Rightarrow> 's \<Rightarrow> 's \<times> bool" where
  "act_unsigned put sp base upper v =
     (case clio_u64_to_base v base upper 96 of
        None \<Rightarrow> (\<lambda>s. (s, False))
      | Some number_buf \<Rightarrow>
        (let digits = (if fs_prec sp = Some 0 \<and> v = 0 then [] else number_buf);
             leading_zeros = (case fs_prec sp of None \<Rightarrow> 0 | Some p \<Rightarrow> p - length digits);
             core_len = length digits + leading_zeros;
             pad_char = (if fs_zero sp \<and> fs_prec sp = None \<and> \<not> fs_left sp then CHR ''0'' else CHR '' '')
         in run_all
             [act_if (\<not> fs_left sp \<and> core_len < fs_width sp) (clio_emit_repeat put pad_char (fs_width sp - core_len)),
              clio_emit_repeat put (CHR ''0'') leading_zeros,
              act_if (digits \<noteq> []) (put digits),
              act_if (fs_left sp \<and> core_len < fs_width sp)
                (clio_emit_repeat put (CHR '' '') (fs_width sp - core_len))]))"

text \<open>The conversion \<open>p\<close>.\<close>

definition act_pointer :: "(string \<Rightarrow> 's \<Rightarrow> 's \<times> bool) \<Rightarrow> fmt_spec \<Rightarrow> nat \<Rightarrow> 's \<Rightarrow> 's \<times> bool" where
  "act_pointer put sp v =
     (case clio_u64_to_base v 16 False 96 of
        None \<Rightarrow> (\<lambda>s. (s, False))
      | Some number_buf \<Rightarrow>
        (let digits = (if fs_prec sp = Some 0 \<and> v = 0 then [] else number_buf);
             leading_zeros = (case fs_prec sp of None \<Rightarrow> 0 | Some p \<Rightarrow> p - length digits);
             core_len = 2 + leading_zeros + length digits
         in run_all
             [act_if (\<not> fs_left sp \<and> core_len < fs_width sp)
                (clio_emit_repeat put (CHR '' '') (fs_width sp - core_len)),
              put ''0x'',
              clio_emit_repeat put (CHR ''0'') leading_zeros,
              act_if (digits \<noteq> []) (put digits),
              act_if (fs_left sp \<and> core_len < fs_width sp)
                (clio_emit_repeat put (CHR '' '') (fs_width sp - core_len))]))"

text \<open>One directive: the action and the arguments left.\<close>

definition directive ::
    "(string \<Rightarrow> 's \<Rightarrow> 's \<times> bool) \<Rightarrow> fmt_spec \<Rightarrow> char \<Rightarrow> va_arg list \<Rightarrow> (('s \<Rightarrow> 's \<times> bool) \<times> va_arg list) option" where
  "directive put sp conv args =
     (if conv = CHR ''s'' then
        (case args of
           VStr text # args \<Rightarrow>
             (let t = (case text of None \<Rightarrow> ''(null)'' | Some t \<Rightarrow> t);
                  t = (case fs_prec sp of None \<Rightarrow> t | Some p \<Rightarrow> if p < length t then take p t else t)
              in Some (clio_emit_with_width put t (fs_left sp) (CHR '' '') (fs_width sp), args))
         | _ \<Rightarrow> None)
      else if conv = CHR ''c'' then
        (case args of
           VInt v # args \<Rightarrow>
             Some (clio_emit_with_width put [to_char (sint v)] (fs_left sp) (CHR '' '') (fs_width sp), args)
         | _ \<Rightarrow> None)
      else if conv = CHR ''d'' \<or> conv = CHR ''i'' then
        (case fetch_signed (fs_length sp) args of
           None \<Rightarrow> None | Some (v, args) \<Rightarrow> Some (act_signed put sp v, args))
      else if conv = CHR ''u'' \<or> conv = CHR ''x'' \<or> conv = CHR ''X'' then
        (case fetch_unsigned (fs_length sp) args of
           None \<Rightarrow> None
         | Some (v, args) \<Rightarrow>
             Some (act_unsigned put sp (if conv = CHR ''u'' then 10 else 16) (conv = CHR ''X'') v, args))
      else if conv = CHR ''p'' then
        (case args of VPtr v # args \<Rightarrow> Some (act_pointer put sp (unat v), args) | _ \<Rightarrow> None)
      else if conv = CHR ''n'' then
        (case args of VPtr v # args \<Rightarrow> if v = 0 then Some (\<lambda>s. (s, True), args) else None | _ \<Rightarrow> None)
      else Some (run_all [put ''%'', put [conv]], args))"

lemma fmt_parse_shorter: "fmt_parse s = (sp, rest) \<Longrightarrow> length rest \<le> length s"
proof -
  have f: "fmt_flags l z s = (l', z', r) \<Longrightarrow> length r \<le> length s" for l z s l' z' r
    by (induction l z s rule: fmt_flags.induct) (auto split: if_splits)
  have n: "fmt_number v s = (v', r) \<Longrightarrow> length r \<le> length s" for v s v' r
    by (induction v s rule: fmt_number.induct) (auto split: if_splits)
  have p: "fmt_precision s = (v, r) \<Longrightarrow> length r \<le> length s" for s v r
    using n [of 0 "drop 1 s"] by (fastforce simp: fmt_precision_def split: if_splits prod.splits)
  have l: "fmt_length s = (v, r) \<Longrightarrow> length r \<le> length s" for s v r
    by (auto simp: fmt_length_def split: if_splits)
  assume "fmt_parse s = (sp, rest)"
  then show ?thesis
    by (auto simp: fmt_parse_def split: prod.splits dest!: f n p l)
qed

function clio_vformat ::
    "(string \<Rightarrow> 's \<Rightarrow> 's \<times> bool) \<Rightarrow> string \<Rightarrow> va_arg list \<Rightarrow> 's \<Rightarrow> ('s \<times> bool) option" where
  "clio_vformat put fmt args s =
     (case fmt of
        [] \<Rightarrow> Some (s, True)
      | c # cs \<Rightarrow>
        if c \<noteq> CHR ''%''
        then (case put [c] s of (s, ok) \<Rightarrow> if ok then clio_vformat put cs args s else Some (s, False))
        else if ch_at cs 0 = CHR ''%''
        then (case put ''%'' s of (s, ok) \<Rightarrow> if ok then clio_vformat put (drop 1 cs) args s else Some (s, False))
        else (case fmt_parse cs of (sp, rest) \<Rightarrow>
          if rest = [] then Some (s, True)
          else (case directive put sp (hd rest) args of
              None \<Rightarrow> None
            | Some (act, args) \<Rightarrow>
                (case act s of (s, ok) \<Rightarrow> if ok then clio_vformat put (tl rest) args s else Some (s, False)))))"
  by pat_completeness auto
termination
proof (relation "measure (\<lambda>(put, fmt, args, s). length fmt)", simp_all, goal_cases)
  case (1 put fmt args s c cs sp rest)
  then have "length rest \<le> length cs" using fmt_parse_shorter [of cs sp rest] by simp
  then show ?case by simp
qed

declare clio_vformat.simps [simp del]

text \<open>\<open>vsnprintf\<close> and \<open>vdprintf\<close>: the final part of \<open>clio_vformat\<close> terminates the buffer and computes
  the result. The other functions of the family only pass their arguments on.\<close>

definition clio_result :: "clio_sink \<Rightarrow> int" where
  "clio_result sink =
     (if sk_failed sink then - 1
      else if 0x7FFFFFFF < sk_count sink then 0x7FFFFFFF else int (sk_count sink))"

definition c_vsnprintf ::
    "'k fd_calls \<Rightarrow> 'k \<Rightarrow> string option \<Rightarrow> nat \<Rightarrow> string \<Rightarrow> va_arg list \<Rightarrow> (string option \<times> int) option" where
  "c_vsnprintf F k out out_size fmt args =
     (case clio_vformat (clio_sink_emit F) fmt args (clio_sink_init_buffer out out_size, k) of
        None \<Rightarrow> None
      | Some ((sink, k), ok) \<Rightarrow>
          if \<not> ok then Some (sk_buffer sink, - 1)
          else (let sink = clio_sink_finalize_buffer sink in Some (sk_buffer sink, clio_result sink)))"

definition c_vdprintf ::
    "'k fd_calls \<Rightarrow> int \<Rightarrow> string \<Rightarrow> va_arg list \<Rightarrow> 'k \<Rightarrow> ('k \<times> int) option" where
  "c_vdprintf F fd fmt args k =
     (case clio_vformat (clio_sink_emit F) fmt args (clio_sink_init_fd fd, k) of
        None \<Rightarrow> None
      | Some ((sink, k), ok) \<Rightarrow> if \<not> ok then Some (k, - 1) else Some (k, clio_result sink))"

definition c_snprintf ::
    "'k fd_calls \<Rightarrow> 'k \<Rightarrow> string option \<Rightarrow> nat \<Rightarrow> string \<Rightarrow> va_arg list \<Rightarrow> (string option \<times> int) option" where
  "c_snprintf F k out out_size fmt args = c_vsnprintf F k out out_size fmt args"

definition c_fprintf :: "'k fd_calls \<Rightarrow> int \<Rightarrow> string \<Rightarrow> va_arg list \<Rightarrow> 'k \<Rightarrow> ('k \<times> int) option" where
  "c_fprintf F fd fmt args k = c_vdprintf F fd fmt args k"

definition c_printf :: "'k fd_calls \<Rightarrow> string \<Rightarrow> va_arg list \<Rightarrow> 'k \<Rightarrow> ('k \<times> int) option" where
  "c_printf F fmt args k = c_vdprintf F 1 fmt args k"

section \<open>The text of a format\<close>

text \<open>What a format and its arguments denote, without sinks: the reference for the code above.\<close>

definition pad :: "bool \<Rightarrow> char \<Rightarrow> nat \<Rightarrow> string \<Rightarrow> string" where
  "pad left ch width t =
     (if left then t @ replicate (width - length t) (CHR '' '') else replicate (width - length t) ch @ t)"

text \<open>Digits with the precision as the minimal number of digits; the value 0 with precision 0 has none.\<close>

definition min_digits :: "nat option \<Rightarrow> bool \<Rightarrow> string \<Rightarrow> string" where
  "min_digits prec zero ds =
     (case prec of None \<Rightarrow> ds
      | Some p \<Rightarrow> (let ds = (if p = 0 \<and> zero then [] else ds) in replicate (p - length ds) (CHR ''0'') @ ds))"

definition base_text :: "nat \<Rightarrow> bool \<Rightarrow> nat \<Rightarrow> string" where
  "base_text base upper v = (if v = 0 then ''0'' else rev (base_loop v base upper []))"

definition text_signed :: "fmt_spec \<Rightarrow> int \<Rightarrow> string" where
  "text_signed sp v =
     (let ds = min_digits (fs_prec sp) (v = 0) (base_text 10 False (nat \<bar>v\<bar>));
          sign = (if v < 0 then ''-'' else [])
      in if fs_zero sp \<and> fs_prec sp = None \<and> \<not> fs_left sp
         then sign @ replicate (fs_width sp - length (sign @ ds)) (CHR ''0'') @ ds
         else pad (fs_left sp) (CHR '' '') (fs_width sp) (sign @ ds))"

definition text_unsigned :: "fmt_spec \<Rightarrow> nat \<Rightarrow> bool \<Rightarrow> nat \<Rightarrow> string" where
  "text_unsigned sp base upper v =
     pad (fs_left sp) (if fs_zero sp \<and> fs_prec sp = None \<and> \<not> fs_left sp then CHR ''0'' else CHR '' '') (fs_width sp)
       (min_digits (fs_prec sp) (v = 0) (base_text base upper v))"

definition text_pointer :: "fmt_spec \<Rightarrow> nat \<Rightarrow> string" where
  "text_pointer sp v =
     pad (fs_left sp) (CHR '' '') (fs_width sp) (''0x'' @ min_digits (fs_prec sp) (v = 0) (base_text 16 False v))"

definition text_directive :: "fmt_spec \<Rightarrow> char \<Rightarrow> va_arg list \<Rightarrow> (string \<times> va_arg list) option" where
  "text_directive sp conv args =
     (if conv = CHR ''s'' then
        (case args of
           VStr text # args \<Rightarrow>
             (let t = (case text of None \<Rightarrow> ''(null)'' | Some t \<Rightarrow> t)
              in Some (pad (fs_left sp) (CHR '' '') (fs_width sp) (case fs_prec sp of None \<Rightarrow> t | Some p \<Rightarrow> take p t), args))
         | _ \<Rightarrow> None)
      else if conv = CHR ''c'' then
        (case args of
           VInt v # args \<Rightarrow> Some (pad (fs_left sp) (CHR '' '') (fs_width sp) [to_char (sint v)], args) | _ \<Rightarrow> None)
      else if conv = CHR ''d'' \<or> conv = CHR ''i'' then
        map_option (\<lambda>(v, args). (text_signed sp v, args)) (fetch_signed (fs_length sp) args)
      else if conv = CHR ''u'' \<or> conv = CHR ''x'' \<or> conv = CHR ''X'' then
        map_option (\<lambda>(v, args). (text_unsigned sp (if conv = CHR ''u'' then 10 else 16) (conv = CHR ''X'') v, args))
          (fetch_unsigned (fs_length sp) args)
      else if conv = CHR ''p'' then
        (case args of VPtr v # args \<Rightarrow> Some (text_pointer sp (unat v), args) | _ \<Rightarrow> None)
      else if conv = CHR ''n'' then
        (case args of VPtr v # args \<Rightarrow> if v = 0 then Some ([], args) else None | _ \<Rightarrow> None)
      else Some ([CHR ''%'', conv], args))"

function format_text :: "string \<Rightarrow> va_arg list \<Rightarrow> string option" where
  "format_text fmt args =
     (case fmt of
        [] \<Rightarrow> Some []
      | c # cs \<Rightarrow>
        if c \<noteq> CHR ''%'' then map_option (\<lambda>t. c # t) (format_text cs args)
        else if ch_at cs 0 = CHR ''%'' then map_option (\<lambda>t. CHR ''%'' # t) (format_text (drop 1 cs) args)
        else (case fmt_parse cs of (sp, rest) \<Rightarrow>
          if rest = [] then Some []
          else (case text_directive sp (hd rest) args of
              None \<Rightarrow> None
            | Some (t, args) \<Rightarrow> map_option (\<lambda>u. t @ u) (format_text (tl rest) args))))"
  by pat_completeness auto
termination
proof (relation "measure (\<lambda>(fmt, args). length fmt)", simp_all, goal_cases)
  case (1 fmt args c cs sp rest)
  then have "length rest \<le> length cs" using fmt_parse_shorter [of cs sp rest] by simp
  then show ?case by simp
qed

declare format_text.simps [simp del]

section \<open>The sink interface\<close>

text \<open>\<open>holds s t\<close>: the sink state \<open>s\<close> has received the text \<open>t\<close>. A sink takes every text whole.\<close>

locale text_sink =
  fixes put :: "string \<Rightarrow> 's \<Rightarrow> 's \<times> bool" and holds :: "'s \<Rightarrow> string \<Rightarrow> bool"
  assumes put_ok: "holds s t \<Longrightarrow> \<exists>s'. put u s = (s', True) \<and> holds s' (t @ u)"
begin

text \<open>An action that always succeeds and adds the text \<open>u\<close>.\<close>

definition adds :: "('s \<Rightarrow> 's \<times> bool) \<Rightarrow> string \<Rightarrow> bool" where
  "adds a u \<longleftrightarrow> (\<forall>s t. holds s t \<longrightarrow> (\<exists>s'. a s = (s', True) \<and> holds s' (t @ u)))"

lemma adds_put: "adds (put u) u"
  using put_ok by (simp add: adds_def)

lemma adds_skip: "adds (\<lambda>s. (s, True)) []"
  by (simp add: adds_def)

lemma adds_if: "(c \<Longrightarrow> adds a u) \<Longrightarrow> adds (act_if c a) (if c then u else [])"
  by (cases c) (simp_all add: adds_def act_if_def)

lemma adds_run_Nil: "adds (run_all []) []"
  by (simp add: adds_def)

lemma adds_run_Cons: "adds a u \<Longrightarrow> adds (run_all as) v \<Longrightarrow> adds (run_all (a # as)) (u @ v)"
  unfolding adds_def
proof (intro allI impI)
  fix s t assume a: "\<forall>s t. holds s t \<longrightarrow> (\<exists>s'. a s = (s', True) \<and> holds s' (t @ u))"
    and as: "\<forall>s t. holds s t \<longrightarrow> (\<exists>s'. run_all as s = (s', True) \<and> holds s' (t @ v))" and "holds s t"
  then obtain s' where s': "a s = (s', True)" "holds s' (t @ u)" by blast
  then obtain s'' where "run_all as s' = (s'', True)" "holds s'' ((t @ u) @ v)" using as by blast
  with s' show "\<exists>s'. run_all (a # as) s = (s', True) \<and> holds s' (t @ u @ v)" by simp
qed

lemma adds_repeat: "adds (clio_emit_repeat put ch n) (replicate n ch)"
proof (induction n)
  case (Suc n)
  have "clio_emit_repeat put ch (Suc n) = run_all [put [ch], clio_emit_repeat put ch n]"
    by (rule ext) (simp split: prod.splits)
  moreover have "adds (run_all [put [ch], clio_emit_repeat put ch n]) ([ch] @ replicate n ch @ [])"
    by (intro adds_run_Cons adds_run_Nil adds_put Suc)
  ultimately show ?case by (simp only: replicate_Suc append_Cons append_Nil append_Nil2)
qed (simp add: adds_def)

lemma adds_eq: "adds a u \<Longrightarrow> u = v \<Longrightarrow> adds a v"
  by simp

lemmas adds_intros = adds_run_Cons adds_run_Nil adds_if adds_repeat adds_put adds_skip

lemma adds_width: "adds (clio_emit_with_width put t left ch w) (pad left ch w t)"
  unfolding clio_emit_with_width_def
  by (rule adds_eq, (rule adds_intros)+) (auto simp: pad_def)

lemma adds_signed:
  assumes "clio_i64_to_dec v 96 = Some ((if v < 0 then ''-'' else []) @ base_text 10 False (nat \<bar>v\<bar>))"
    and "ch_at (base_text 10 False (nat \<bar>v\<bar>)) 0 \<noteq> CHR ''-''"
  shows "adds (act_signed put sp v) (text_signed sp v)"
proof -
  define ds where "ds = base_text 10 False (nat \<bar>v\<bar>)"
  define digits where "digits = (if fs_prec sp = Some 0 \<and> v = 0 then [] else ds)"
  define zs where "zs = (case fs_prec sp of None \<Rightarrow> 0 | Some p \<Rightarrow> p - length digits)"
  define core where "core = length digits + zs + (if v < 0 then 1 else 0)"
  define padded where "padded = (\<not> fs_left sp \<and> core < fs_width sp)"
  define zp where "zp = (fs_zero sp \<and> fs_prec sp = None)"
  have neg: "ch_at ((if v < 0 then ''-'' else []) @ ds) 0 = CHR ''-'' \<longleftrightarrow> v < 0"
    "(if v < 0 then drop 1 ((if v < 0 then ''-'' else []) @ ds) else (if v < 0 then ''-'' else []) @ ds) = ds"
    using assms(2) unfolding ds_def [symmetric] by (cases "v < 0"; simp)+
  have md: "min_digits (fs_prec sp) (v = 0) ds = replicate zs (CHR ''0'') @ digits"
    by (auto simp: min_digits_def zs_def digits_def Let_def split: option.splits)
  have a: "act_signed put sp v = run_all
      [act_if padded (if zp then run_all [act_if (v < 0) (put ''-''), clio_emit_repeat put (CHR ''0'') (fs_width sp - core)]
         else clio_emit_repeat put (CHR '' '') (fs_width sp - core)),
       act_if (v < 0 \<and> \<not> (padded \<and> zp)) (put ''-''), clio_emit_repeat put (CHR ''0'') zs,
       act_if (digits \<noteq> []) (put digits),
       act_if (fs_left sp \<and> core < fs_width sp) (clio_emit_repeat put (CHR '' '') (fs_width sp - core))]"
    unfolding act_signed_def assms(1) ds_def [symmetric]
    by (simp only: option.case Let_def neg digits_def [symmetric] zs_def [symmetric] core_def [symmetric]
        padded_def [symmetric] zp_def [symmetric])
  have z: "adds (if zp then run_all [act_if (v < 0) (put ''-''), clio_emit_repeat put (CHR ''0'') (fs_width sp - core)]
         else clio_emit_repeat put (CHR '' '') (fs_width sp - core))
      (if zp then (if v < 0 then ''-'' else []) @ replicate (fs_width sp - core) (CHR ''0'') @ []
       else replicate (fs_width sp - core) (CHR '' ''))"
  proof (cases zp)
    case True
    show ?thesis unfolding if_P [OF True] by (rule adds_eq, (rule adds_intros)+) simp
  next
    case False
    show ?thesis unfolding if_not_P [OF False] by (rule adds_repeat)
  qed
  show ?thesis unfolding a
  proof (rule adds_eq, (rule adds_run_Cons adds_run_Nil adds_if z adds_repeat adds_put)+)
    show "(if padded then (if zp then (if v < 0 then ''-'' else []) @ replicate (fs_width sp - core) (CHR ''0'') @ []
         else replicate (fs_width sp - core) (CHR '' '')) else []) @
       (if v < 0 \<and> \<not> (padded \<and> zp) then ''-'' else []) @ replicate zs (CHR ''0'') @
       (if digits \<noteq> [] then digits else []) @
       (if fs_left sp \<and> core < fs_width sp then replicate (fs_width sp - core) (CHR '' '') else []) @ [] = text_signed sp v"
    proof -
      have c: "length ((if v < 0 then ''-'' else []) @ replicate zs (CHR ''0'') @ digits) = core"
        by (simp add: core_def)
      have z0: "zs = 0" if "fs_prec sp = None" using that by (simp add: zs_def)
      show ?thesis
        unfolding text_signed_def ds_def [symmetric] Let_def md pad_def c
        by (cases "fs_left sp"; cases "core < fs_width sp"; cases "v < 0"; cases zp)
          (use z0 in \<open>auto simp: padded_def zp_def\<close>)
    qed
  qed
qed

lemma adds_unsigned:
  assumes "clio_u64_to_base v base upper 96 = Some (base_text base upper v)"
  shows "adds (act_unsigned put sp base upper v) (text_unsigned sp base upper v)"
  unfolding act_unsigned_def assms option.case Let_def
  by (rule adds_eq, (rule adds_intros)+)
    (auto simp: text_unsigned_def pad_def min_digits_def Let_def split: option.splits)

lemma adds_pointer:
  assumes "clio_u64_to_base v 16 False 96 = Some (base_text 16 False v)"
  shows "adds (act_pointer put sp v) (text_pointer sp v)"
  unfolding act_pointer_def assms option.case Let_def
  by (rule adds_eq, (rule adds_intros)+)
    (auto simp: text_pointer_def pad_def min_digits_def Let_def split: option.splits)

end

section \<open>Digits\<close>

lemma base_loop_spec:
  "2 \<le> base \<Longrightarrow> base \<le> 16 \<Longrightarrow> v < base ^ (64 - length tmp) \<Longrightarrow> length tmp \<le> 64 \<Longrightarrow>
    length (base_loop v base upper tmp) \<le> 64 \<and> (v \<noteq> 0 \<longrightarrow> base_loop v base upper tmp \<noteq> tmp) \<and>
    (\<exists>ds. base_loop v base upper tmp = tmp @ map (base_digit upper) ds \<and> (\<forall>d\<in>set ds. d < base)
       \<and> foldr (\<lambda>d n. d + base * n) ds 0 = v)"
proof (induction v base upper tmp rule: base_loop.induct)
  case (1 v b upper tmp)
  show ?case
  proof (cases "v \<noteq> 0 \<and> length tmp < 64 \<and> 2 \<le> b")
    case False
    then have "v = 0" using "1.prems" by (cases "length tmp = 64") auto
    then show ?thesis using False "1.prems"
      by (subst (1 2 3) base_loop.simps) (auto intro: exI [of _ "[]"])
  next
    case True
    then have e: "64 - length tmp = Suc (64 - length (tmp @ [base_digit upper (v mod b)]))" by simp arith
    have "v div b < b ^ (64 - length (tmp @ [base_digit upper (v mod b)]))"
      using "1.prems"(3) True unfolding e by (simp add: less_mult_imp_div_less mult.commute)
    then obtain ds where l: "length (base_loop (v div b) b upper (tmp @ [base_digit upper (v mod b)])) \<le> 64"
      and ds: "base_loop (v div b) b upper (tmp @ [base_digit upper (v mod b)]) =
        (tmp @ [base_digit upper (v mod b)]) @ map (base_digit upper) ds" "\<forall>d\<in>set ds. d < b"
        "foldr (\<lambda>d n. d + b * n) ds 0 = v div b"
      using "1.IH" [OF True] True "1.prems" by auto
    have s: "base_loop v b upper tmp = base_loop (v div b) b upper (tmp @ [base_digit upper (v mod b)])"
      using True by (subst base_loop.simps) simp
    have "foldr (\<lambda>d n. d + b * n) (v mod b # ds) 0 = v" using ds(3) by simp
    moreover have "\<forall>d\<in>set (v mod b # ds). d < b" using ds(2) True by simp
    moreover have "base_loop v b upper tmp = tmp @ map (base_digit upper) (v mod b # ds)" using s ds(1) by simp
    ultimately show ?thesis using l s by (metis append_self_conv list.distinct(1) list.map_disc_iff)
  qed
qed

lemma u64_to_base_text [c_spec]:
  assumes "2 \<le> base" "base \<le> 16" "v < 2 ^ 64" "65 \<le> n"
  shows "clio_u64_to_base v base upper n = Some (base_text base upper v)"
proof -
  have "(2 :: nat) ^ 64 \<le> base ^ 64" using assms(1) by (rule power_mono) simp
  then have "v < base ^ (64 - length ([] :: string))" using assms(3) by simp
  then have "length (base_loop v base upper []) \<le> 64"
    using base_loop_spec [OF assms(1,2), of v "[]" upper] by simp
  then show ?thesis using assms by (auto simp: clio_u64_to_base_def base_text_def Let_def)
qed

text \<open>A printed number is digits in its base, without a leading zero except for 0 itself.\<close>

lemma base_text_digits:
  assumes "2 \<le> base" "base \<le> 16" "v < 2 ^ 64"
  shows "\<exists>ds. base_text base upper v = map (base_digit upper) ds \<and> (\<forall>d\<in>set ds. d < base) \<and> ds \<noteq> []
    \<and> foldl (\<lambda>n d. n * base + d) 0 ds = v"
proof (cases "v = 0")
  case True
  have "base_digit upper 0 = CHR ''0''" by (simp add: base_digit_def digit_char_eval)
  with True show ?thesis using assms by (intro exI [of _ "[0]"]) (simp add: base_text_def)
next
  case False
  have "(2 :: nat) ^ 64 \<le> base ^ 64" using assms(1) by (rule power_mono) simp
  then have "v < base ^ (64 - length ([] :: string))" using assms(3) by simp
  then obtain ds where ds: "base_loop v base upper [] = map (base_digit upper) ds" "\<forall>d\<in>set ds. d < base"
    "foldr (\<lambda>d n. d + base * n) ds 0 = v" "base_loop v base upper [] \<noteq> []"
    using base_loop_spec [OF assms(1,2), of v "[]" upper] False by auto
  have "foldl (\<lambda>n d. n * base + d) 0 (rev ds) = v"
    using ds(3) by (simp add: foldl_conv_foldr mult.commute add.commute)
  then show ?thesis using False ds by (intro exI [of _ "rev ds"]) (simp add: base_text_def rev_map)
qed

lemma base_digit_not_minus: "d < 16 \<Longrightarrow> base_digit upper d \<noteq> CHR ''-'' \<and> base_digit upper d \<noteq> NUL"
proof -
  assume d: "d < 16"
  have "uchar (base_digit upper d) \<ge> 48" using d
    by (auto simp: base_digit_def uchar_digit_char)
  moreover have "uchar (CHR ''-'') = 45" by (simp add: uchar_def)
  ultimately show ?thesis using uchar_NUL by fastforce
qed

lemma base_text_head: "2 \<le> base \<Longrightarrow> base \<le> 16 \<Longrightarrow> v < 2 ^ 64 \<Longrightarrow> ch_at (base_text base upper v) 0 \<noteq> CHR ''-''"
proof -
  assume a: "2 \<le> base" "base \<le> 16" "v < 2 ^ 64"
  obtain ds where "base_text base upper v = map (base_digit upper) ds" "\<forall>d\<in>set ds. d < base" "ds \<noteq> []"
    using base_text_digits [OF a] by blast
  then show ?thesis using base_digit_not_minus [of "hd ds" upper] a by (cases ds) auto
qed

lemma i64_to_dec_text [c_spec]:
  assumes "- (2 ^ 63) \<le> v" "v < 2 ^ 63"
  shows "clio_i64_to_dec v 96 = Some ((if v < 0 then ''-'' else []) @ base_text 10 False (nat \<bar>v\<bar>))"
proof (cases "v < 0")
  case True
  then have e: "nat (- (v + 1)) + 1 = nat \<bar>v\<bar>" by simp
  have "clio_u64_to_base (nat (- (v + 1)) + 1) 10 False 95 = Some (base_text 10 False (nat \<bar>v\<bar>))"
    unfolding e by (rule u64_to_base_text) (use assms in simp_all)
  then show ?thesis using True by (simp add: clio_i64_to_dec_def)
next
  case False
  then have "nat v < 2 ^ 64" using assms by simp
  then show ?thesis using False by (simp add: clio_i64_to_dec_def u64_to_base_text)
qed

section \<open>The formatter is correct on every sink\<close>

lemma fetch_signed_bounds:
  "fetch_signed len args = Some (v, args') \<Longrightarrow> - (2 ^ 63) \<le> v \<and> v < 2 ^ 63"
proof (induction len args rule: fetch_signed.induct)
  case (1 len v args)
  then show ?case using sint_range_size [of v] by (auto simp: word_size split: if_splits)
next
  case (2 len v args)
  then show ?case using sint_range_size [of v] by (auto simp: word_size split: if_splits)
qed simp_all

lemma fetch_unsigned_bounds: "fetch_unsigned len args = Some (v, args') \<Longrightarrow> v < 2 ^ 64"
proof (induction len args rule: fetch_unsigned.induct)
  case (1 len v args)
  then show ?case using unsigned_less [of v, where ?'a = nat] by (auto split: if_splits)
next
  case (2 len v args)
  then show ?case using unsigned_less [of v, where ?'a = nat] by (auto split: if_splits)
qed simp_all

context text_sink
begin

lemma adds_signed': "- (2 ^ 63) \<le> v \<Longrightarrow> v < 2 ^ 63 \<Longrightarrow> adds (act_signed put sp v) (text_signed sp v)"
  by (intro adds_signed i64_to_dec_text base_text_head) simp_all

lemma directive_correct:
  "case text_directive sp conv args of
     None \<Rightarrow> directive put sp conv args = None
   | Some (u, args') \<Rightarrow> \<exists>a. directive put sp conv args = Some (a, args') \<and> adds a u"
proof -
  consider "conv = CHR ''s''" | "conv = CHR ''c''" | (d) "conv = CHR ''d'' \<or> conv = CHR ''i''"
    | (u) "conv = CHR ''u'' \<or> conv = CHR ''x'' \<or> conv = CHR ''X''" | "conv = CHR ''p''" | "conv = CHR ''n''"
    | (o) "conv \<notin> set ''scdiuxXpn''" by auto
  then show ?thesis
  proof cases
    case 1
    have t: "(case fs_prec sp of None \<Rightarrow> t | Some p \<Rightarrow> if p < length t then take p t else t) =
        (case fs_prec sp of None \<Rightarrow> t | Some p \<Rightarrow> take p t)" for t :: string
      by (simp split: option.splits)
    show ?thesis unfolding 1
      by (simp add: text_directive_def directive_def Let_def t adds_width split: list.splits va_arg.splits)
  next
    case 2
    then show ?thesis
      by (simp add: text_directive_def directive_def adds_width split: list.splits va_arg.splits)
  next
    case d
    show ?thesis
    proof (cases "fetch_signed (fs_length sp) args")
      case (Some r)
      obtain v args' where r: "r = (v, args')" by (cases r)
      have "adds (act_signed put sp v) (text_signed sp v)"
        using fetch_signed_bounds Some r by (intro adds_signed') auto
      then show ?thesis using d Some r by (auto simp: text_directive_def directive_def)
    qed (use d in \<open>auto simp: text_directive_def directive_def\<close>)
  next
    case u
    show ?thesis
    proof (cases "fetch_unsigned (fs_length sp) args")
      case (Some r)
      obtain v args' where r: "r = (v, args')" by (cases r)
      have "v < 2 ^ 64" using fetch_unsigned_bounds Some r by simp
      then have "adds (act_unsigned put sp base upper v) (text_unsigned sp base upper v)"
        if "base = 10 \<or> base = 16" for base upper
        using that by (intro adds_unsigned u64_to_base_text) auto
      then show ?thesis using u Some r by (auto simp: text_directive_def directive_def)
    qed (use u in \<open>auto simp: text_directive_def directive_def\<close>)
  next
    case 5
    have "unat v < 2 ^ 64" for v :: u64 using unsigned_less [of v, where ?'a = nat] by simp
    then have "adds (act_pointer put sp (unat v)) (text_pointer sp (unat v))" for v :: u64
      by (intro adds_pointer u64_to_base_text) auto
    then show ?thesis using 5
      by (auto simp: text_directive_def directive_def split: list.splits va_arg.splits)
  next
    case 6
    then show ?thesis using adds_skip
      by (auto simp: text_directive_def directive_def split: list.splits va_arg.splits)
  next
    case o
    have "adds (run_all [put ''%'', put [conv]]) [CHR ''%'', conv]"
      by (rule adds_eq, (rule adds_intros)+) simp
    then show ?thesis using o by (simp add: text_directive_def directive_def)
  qed
qed

lemma vformat_correct:
  "holds s t \<Longrightarrow> (case format_text fmt args of
     None \<Rightarrow> clio_vformat put fmt args s = None
   | Some u \<Rightarrow> \<exists>s'. clio_vformat put fmt args s = Some (s', True) \<and> holds s' (t @ u))"
proof (induction fmt args arbitrary: s t rule: format_text.induct)
  case (1 fmt args)
  show ?case
  proof (cases fmt)
    case Nil
    then show ?thesis using "1.prems" by (simp add: format_text.simps clio_vformat.simps)
  next
    case (Cons c cs)
    consider (plain) "c \<noteq> CHR ''%''" | (percent) "c = CHR ''%''" "ch_at cs 0 = CHR ''%''"
      | (dir) "c = CHR ''%''" "ch_at cs 0 \<noteq> CHR ''%''" by blast
    then show ?thesis
    proof cases
      case plain
      obtain s' where s': "put [c] s = (s', True)" "holds s' (t @ [c])" using put_ok [OF "1.prems", of "[c]"] by blast
      show ?thesis using 1(1) [OF Cons plain s'(2)] s'(1) plain
        by (simp add: Cons format_text.simps [of "c # cs"] clio_vformat.simps [of put "c # cs"] split: option.splits)
    next
      case percent
      obtain s' where s': "put ''%'' s = (s', True)" "holds s' (t @ ''%'')" using put_ok [OF "1.prems", of "''%''"] by blast
      show ?thesis using 1(2) [OF Cons _ percent(2) s'(2)] s'(1) percent
        by (simp add: Cons format_text.simps [of "_ # cs"] clio_vformat.simps [of put "_ # cs"] split: option.splits)
    next
      case dir
      obtain sp rest where p: "fmt_parse cs = (sp, rest)" by fastforce
      show ?thesis
      proof (cases "rest = []")
        case True
        then show ?thesis using dir p "1.prems"
          by (simp add: Cons format_text.simps [of "_ # cs"] clio_vformat.simps [of put "_ # cs"])
      next
        case False
        show ?thesis
        proof (cases "text_directive sp (hd rest) args")
          case None
          then have "directive put sp (hd rest) args = None" using directive_correct [of sp "hd rest" args] by simp
          then show ?thesis using dir p False None
            by (simp add: Cons format_text.simps [of "_ # cs"] clio_vformat.simps [of put "_ # cs"])
        next
          case (Some r)
          obtain u args' where r: "r = (u, args')" by (cases r)
          then obtain a where a: "directive put sp (hd rest) args = Some (a, args')" "adds a u"
            using directive_correct [of sp "hd rest" args] Some by auto
          obtain s' where s': "a s = (s', True)" "holds s' (t @ u)" using a(2) "1.prems" unfolding adds_def by blast
          have f: "format_text fmt args = map_option (\<lambda>v. u @ v) (format_text (tl rest) args')"
            by (subst format_text.simps) (simp add: Cons dir p False Some r)
          have c: "clio_vformat put fmt args s = clio_vformat put (tl rest) args' s'"
            by (subst clio_vformat.simps) (simp add: Cons dir p False a s'(1))
          have "case format_text (tl rest) args' of None \<Rightarrow> clio_vformat put (tl rest) args' s' = None
            | Some v \<Rightarrow> \<exists>s''. clio_vformat put (tl rest) args' s' = Some (s'', True) \<and> holds s'' ((t @ u) @ v)"
            by (rule 1(3) [OF Cons _ dir(2) p [symmetric] False Some r [symmetric] s'(2)]) (simp add: dir)
          then show ?thesis unfolding c f by (cases "format_text (tl rest) args'") simp_all
        qed
      qed
    qed
  qed
qed

end

section \<open>The sinks keep the contract\<close>

text \<open>The bounded buffer: what a buffer \<open>b\<close> of capacity \<open>n\<close> looks like after the text \<open>t\<close>.\<close>

definition buffer_after :: "nat \<Rightarrow> string \<Rightarrow> string \<Rightarrow> string" where
  "buffer_after n b t = (if n = 0 then b else take (n - 1) t @ drop (length (take (n - 1) t)) (b[0 := NUL]))"

definition holds_buffer :: "string option \<Rightarrow> nat \<Rightarrow> clio_sink \<times> 'k \<Rightarrow> string \<Rightarrow> bool" where
  "holds_buffer b0 n s t \<longleftrightarrow>
     sk_mode (fst s) = CLIO_SINK_BUF \<and> \<not> sk_failed (fst s) \<and> sk_capacity (fst s) = n \<and> sk_count (fst s) = length t
     \<and> sk_buffer (fst s) = map_option (\<lambda>b. buffer_after n b t) b0 \<and> (\<forall>b. b0 = Some b \<longrightarrow> n \<le> length b)"

lemma copy_into_eq:
  "start + w \<le> length b \<Longrightarrow> w \<le> length u \<Longrightarrow>
    copy_into b start u w = take start b @ take w u @ drop (start + w) b"
proof (induction w)
  case (Suc w)
  have "copy_into b start u (Suc w) = (copy_into b start u w)[start + w := u ! w]"
    by (simp add: copy_into_def)
  also have "\<dots> = take start b @ take w u @ (drop (start + w) b)[0 := u ! w]"
    using Suc by (simp add: list_update_append)
  also have "(drop (start + w) b)[0 := u ! w] = u ! w # drop (start + Suc w) b"
    using Suc.prems by (subst Cons_nth_drop_Suc [symmetric]) simp_all
  finally show ?case using Suc.prems by (simp add: take_Suc_conv_app_nth)
qed (simp add: copy_into_def)

lemma buffer_after_0 [simp]: "buffer_after 0 b t = b"
  by (simp add: buffer_after_def)

lemma length_buffer_after [simp]: "n \<le> length b \<Longrightarrow> length (buffer_after n b t) = length b"
  by (auto simp: buffer_after_def)

lemma buffer_after_full: "n - 1 \<le> length t \<Longrightarrow> buffer_after n b (t @ u) = buffer_after n b t"
  by (simp add: buffer_after_def)

lemma buffer_after_copy:
  assumes "length t + 1 < n" "n \<le> length b" and w_def: "w = min (length u) (n - 1 - length t)"
  shows "copy_into (buffer_after n b t) (length t) u w = buffer_after n b (t @ u)"
proof -
  have l: "length t + w \<le> length (buffer_after n b t)" using assms by simp
  have "copy_into (buffer_after n b t) (length t) u w =
      take (length t) (buffer_after n b t) @ take w u @ drop (length t + w) (buffer_after n b t)"
    by (rule copy_into_eq [OF l]) (simp add: w_def)
  also have "take (length t) (buffer_after n b t) = t" using assms by (simp add: buffer_after_def)
  also have "drop (length t + w) (buffer_after n b t) = drop (length t + w) (b[0 := NUL])"
    using assms by (simp add: buffer_after_def add.commute)
  also have "take w u = take (n - 1 - length t) u" by (simp add: w_def min_def)
  finally show ?thesis using assms by (simp add: buffer_after_def w_def min_def)
qed

interpretation buffer_sink: text_sink "clio_sink_emit F" "holds_buffer b0 n" for F b0 n
proof (unfold_locales, goal_cases)
  case (1 s t u)
  obtain sink k where s: "s = (sink, k)" by (cases s)
  show ?case
  proof (cases "u = []")
    case True
    then show ?thesis using 1 by (simp add: s clio_sink_emit_def)
  next
    case False
    have "holds_buffer b0 n (fst (clio_sink_emit F u s)) (t @ u)" "snd (clio_sink_emit F u s)"
      using 1 False buffer_after_copy [where t = t and n = n and u = u] buffer_after_full [where n = n and t = t and u = u]
      by (cases b0; cases "length t + 1 < n"; cases "length u < n - 1 - length t";
          simp add: s clio_sink_emit_def holds_buffer_def Let_def copy_into_def; simp add: buffer_after_def)+
    then show ?thesis by (metis (full_types) prod.collapse)
  qed
qed

text \<open>The descriptor: \<open>out k\<close> is what was written so far; a write of text makes progress, possibly
  a short one.\<close>

definition fd_accepts :: "'k fd_calls \<Rightarrow> int \<Rightarrow> ('k \<Rightarrow> string) \<Rightarrow> bool" where
  "fd_accepts F fd out \<longleftrightarrow>
     (\<forall>k u. u \<noteq> [] \<longrightarrow> (\<exists>k' n. fd_write F k fd u = (k', Some n) \<and> 0 < n \<and> n \<le> length u \<and> out k' = out k @ take n u))"

definition holds_fd :: "'k fd_calls \<Rightarrow> int \<Rightarrow> ('k \<Rightarrow> string) \<Rightarrow> string \<Rightarrow> clio_sink \<times> 'k \<Rightarrow> string \<Rightarrow> bool" where
  "holds_fd F fd out base s t \<longleftrightarrow>
     fd_accepts F fd out \<and> 0 \<le> fd \<and> sk_mode (fst s) = CLIO_SINK_FD \<and> sk_fd (fst s) = fd \<and> \<not> sk_failed (fst s)
     \<and> sk_count (fst s) = length t \<and> out (snd s) = base @ t"

lemma write_loop_writes:
  "fd_accepts F fd out \<Longrightarrow> \<exists>k'. write_loop F k fd u = (k', True) \<and> out k' = out k @ u"
proof (induction F k fd u rule: write_loop.induct)
  case (1 F k fd u)
  show ?case
  proof (cases "u = []")
    case True
    then show ?thesis by (simp add: write_loop.simps)
  next
    case False
    then obtain k' n where w: "fd_write F k fd u = (k', Some n)" "0 < n" "n \<le> length u" "out k' = out k @ take n u"
      using "1.prems" unfolding fd_accepts_def by blast
    then have "write_loop F k fd u = write_loop F k' fd (drop n u)"
      using False by (subst write_loop.simps) simp
    moreover obtain k'' where "write_loop F k' fd (drop n u) = (k'', True)" "out k'' = out k' @ drop n u"
      using "1.IH" [OF False w(1) [symmetric] refl] w(2,3) "1.prems" by auto
    ultimately show ?thesis using w(4) by simp
  qed
qed

lemma write_all_writes [c_spec]:
  "fd_accepts F fd out \<Longrightarrow> 0 \<le> fd \<Longrightarrow>
    \<exists>k'. clio_write_all_fd F k fd (Some t) = (k', min 0x7FFFFFFF (int (length t))) \<and> out k' = out k @ t"
  using write_loop_writes [of F fd out k t] by (fastforce simp: clio_write_all_fd_def min_def)

text \<open>The empty write and the failing write.\<close>

lemma write_all_fails:
  "fd_write F k fd (c # cs) = (k', r) \<Longrightarrow> r = None \<or> r = Some 0 \<Longrightarrow>
    clio_write_all_fd F k fd (Some (c # cs)) = (if fd < 0 then k else k', - 1)"
  by (auto simp: clio_write_all_fd_def write_loop.simps)

interpretation fd_sink: text_sink "clio_sink_emit F" "holds_fd F fd out base" for F fd out base
proof (unfold_locales, goal_cases)
  case (1 s t u)
  obtain sink k where s: "s = (sink, k)" by (cases s)
  have a: "fd_accepts F fd out" "0 \<le> fd" using 1 by (simp_all add: holds_fd_def)
  obtain k' where k': "clio_write_all_fd F k fd (Some u) = (k', min 0x7FFFFFFF (int (length u)))" "out k' = out k @ u"
    using write_all_writes [OF a] by blast
  show ?case
  proof (cases "u = []")
    case True
    then show ?thesis using 1 by (simp add: s clio_sink_emit_def)
  next
    case False
    then have "(min 0x7FFFFFFF (int (length u)) = - 1) = False" by (simp add: min_def)
    then show ?thesis using 1 k' False by (simp add: s clio_sink_emit_def holds_fd_def)
  qed
qed

section \<open>What the printf family promises\<close>



text \<open>On a descriptor whose writes make progress, short writes included, \<open>vdprintf\<close> (and with it
  \<open>printf\<close> and \<open>fprintf\<close>) writes exactly the text of the format behind what was written before and
  returns its length.\<close>

theorem vdprintf_correct:
  assumes "fd_accepts F fd out" "0 \<le> fd"
  shows "case format_text fmt args of
      None \<Rightarrow> c_vdprintf F fd fmt args k = None
    | Some t \<Rightarrow> \<exists>k'. c_vdprintf F fd fmt args k = Some (k', min 0x7FFFFFFF (int (length t))) \<and> out k' = out k @ t"
proof -
  have h: "holds_fd F fd out (out k) (clio_sink_init_fd fd, k) []"
    using assms by (simp add: holds_fd_def clio_sink_init_fd_def)
  show ?thesis
  proof (cases "format_text fmt args")
    case None
    then show ?thesis using fd_sink.vformat_correct [OF h, where fmt = fmt and args = args] by (simp add: c_vdprintf_def)
  next
    case (Some t)
    then obtain sink k' where "clio_vformat (clio_sink_emit F) fmt args (clio_sink_init_fd fd, k) = Some ((sink, k'), True)"
      and "holds_fd F fd out (out k) (sink, k') t"
      using fd_sink.vformat_correct [OF h, where fmt = fmt and args = args] by auto
    then show ?thesis using Some by (auto simp: c_vdprintf_def holds_fd_def clio_result_def min_def)
  qed
qed

definition demo_calls :: "string fd_calls" where
  "demo_calls = \<lparr>fd_write = \<lambda>k fd t. (k @ take 2 t, Some (min 2 (length t))), fd_read1 = \<lambda>k fd. (k, None), fd_yield = id\<rparr>"

lemma vdprintf_correct_witness:
  "\<exists>k'. c_vdprintf demo_calls 1 ''[%-4s]'' [VStr (Some ''abc'')] ''> '' = Some (k', 6) \<and> k' = ''> [abc ]''"
proof -
  have p: "fmt_parse ''-4s]'' = (\<lparr>fs_left = True, fs_zero = False, fs_width = 4, fs_prec = None, fs_length = 0\<rparr>, ''s]'')"
    by (simp add: fmt_parse_def fmt_precision_def fmt_length_def clio_is_digit_def schar_def uchar_def add64_def mul64_def)
  have t: "format_text ''[%-4s]'' [VStr (Some ''abc'')] = Some ''[abc ]''"
    by (simp add: format_text.simps p text_directive_def pad_def)
  have f: "fd_accepts demo_calls 1 id"
    unfolding fd_accepts_def demo_calls_def by (simp add: min_def)
  show ?thesis
    using vdprintf_correct [OF f, of "''[%-4s]''" "[VStr (Some ''abc'')]" "''> ''"] t by simp
qed

section \<open>Printed numbers read back\<close>

lemma base_loop_length: "v < base ^ m \<Longrightarrow> length (base_loop v base upper tmp) \<le> length tmp + m"
proof (induction v base upper tmp arbitrary: m rule: base_loop.induct)
  case (1 v b upper tmp)
  show ?case
  proof (cases "v \<noteq> 0 \<and> length tmp < 64 \<and> 2 \<le> b")
    case True
    then obtain m' where m: "m = Suc m'" using "1.prems" by (cases m) auto
    then have "v div b < b ^ m'" using "1.prems" by (simp add: less_mult_imp_div_less mult.commute)
    then show ?thesis using "1.IH" [OF True, of m'] True m by (subst base_loop.simps) simp
  qed (use base_loop.simps [of v b upper tmp] in auto)
qed

lemma base_digit_value:
  assumes "d < base" "base \<le> 16"
  shows "is_digit_in (int base) (base_digit upper d)" "clib_digit_value (uchar (base_digit upper d)) = int d"
  using assms by (auto simp: is_digit_in_def base_digit_def clib_digit_value_def uchar_digit_char)

text \<open>The digits that \<open>clio_u64_to_base\<close> prints are the digits \<open>strtoul\<close> reads, of the same value.\<close>

lemma base_text_reads [c_spec]:
  assumes "2 \<le> base" "base \<le> 16" "v < 2 ^ 64"
  shows "\<forall>c \<in> set (base_text base upper v). is_digit_in (int base) c"
    and "digits_val (int base) (base_text base upper v) = v" and "base_text base upper v \<noteq> []"
proof -
  obtain ds where ds: "base_text base upper v = map (base_digit upper) ds" "\<forall>d\<in>set ds. d < base" "ds \<noteq> []"
    "foldl (\<lambda>n d. n * base + d) 0 ds = v" using base_text_digits [OF assms, where upper = upper] by blast
  have val: "\<forall>d\<in>set ds. d < base \<Longrightarrow>
      digits_from (int base) n (map (base_digit upper) ds) = foldl (\<lambda>n d. n * base + d) n ds" for n ds
    by (induction ds arbitrary: n) (use base_digit_value assms(2) in auto)
  show "\<forall>c \<in> set (base_text base upper v). is_digit_in (int base) c"
    using ds(1,2) base_digit_value assms(2) by auto
  show "digits_val (int base) (base_text base upper v) = v"
    using val [OF ds(2)] ds(1,4) by (simp add: digits_val_def)
  show "base_text base upper v \<noteq> []" using ds by simp
qed

definition signed_text :: "int \<Rightarrow> string" where
  "signed_text v = (if v < 0 then ''-'' else []) @ base_text 10 False (nat \<bar>v\<bar>)"

lemma signed_text_length: "- (2 ^ 63) \<le> v \<Longrightarrow> v < 2 ^ 63 \<Longrightarrow> length (signed_text v) \<le> 20"
proof -
  assume v: "- (2 ^ 63) \<le> v" "v < 2 ^ 63"
  then have "nat \<bar>v\<bar> < 10 ^ 19" by simp
  then have "length (base_loop (nat \<bar>v\<bar>) 10 False []) \<le> 19"
    using base_loop_length [of "nat \<bar>v\<bar>" 10 19 False "[]"] by simp
  then show ?thesis by (cases "v < 0") (simp_all add: signed_text_def base_text_def)
qed

lemma digit_head_not_space:
  "is_digit_in 10 c \<Longrightarrow> \<not> c_isspace (uchar c) \<and> c \<noteq> CHR ''+'' \<and> c \<noteq> CHR ''-''"
  by (auto simp: is_digit_in_def clib_digit_value_def c_isspace_def uchar_def split: if_splits)

lemma strtol_signed_text [c_spec]:
  assumes "- (2 ^ 63) \<le> v" "v < 2 ^ 63"
  shows "c_strtol (Some (signed_text v)) 10 = (v, length (signed_text v))"
proof -
  define ds where "ds = base_text 10 False (nat \<bar>v\<bar>)"
  have n: "nat \<bar>v\<bar> < 2 ^ 64" using assms by simp
  have all: "\<forall>c \<in> set ds. is_digit_in 10 c" and dv: "digits_val 10 ds = nat \<bar>v\<bar>" and ne: "ds \<noteq> []"
    using base_text_reads [OF _ _ n, of 10 False] by (simp_all add: ds_def)
  obtain c cs where cs: "ds = c # cs" using ne by (cases ds) auto
  then have c: "\<not> c_isspace (uchar c)" "c \<noteq> CHR ''+''" "c \<noteq> CHR ''-''"
    using all digit_head_not_space by auto
  have tw: "takeWhile (is_digit_in 10) ds = ds" using all by (simp add: takeWhile_eq_all_conv)
  have t: "signed_text v = (if v < 0 then ''-'' else []) @ ds" by (simp add: signed_text_def ds_def)
  show ?thesis
  proof (cases "v < 0")
    case True
    have "clib_skip_space (CHR ''-'' # ds) = 0"
      by (simp add: clib_skip_space_def c_isspace_def uchar_def)
    then show ?thesis using True ne dv assms
      by (simp add: t strtol_correct strtol_spec_def num_sign_def num_base_def Let_def tw
          LONG_MIN_def LONG_MAX_def)
  next
    case False
    have "clib_skip_space ds = 0" "ch_at ds 0 = c" using c by (simp_all add: cs clib_skip_space_def)
    then show ?thesis using False ne dv assms c
      by (simp add: t strtol_correct strtol_spec_def num_sign_def num_base_def Let_def tw
          LONG_MIN_def LONG_MAX_def)
  qed
qed

lemma signed_text_NUL: "- (2 ^ 63) \<le> v \<Longrightarrow> v < 2 ^ 63 \<Longrightarrow> NUL \<notin> set (signed_text v)"
proof -
  assume v: "- (2 ^ 63) \<le> v" "v < 2 ^ 63"
  then have n: "nat \<bar>v\<bar> < 2 ^ 64" by simp
  have "\<not> is_digit_in 10 NUL" by (simp add: is_digit_in_def clib_digit_value_def)
  then show ?thesis using base_text_reads(1) [OF _ _ n, of 10 False] by (auto simp: signed_text_def)
qed

text \<open>Printing a \<open>long\<close> with \<open>snprintf "%ld"\<close> into a buffer of at least 21 bytes and reading the
  buffer back with \<open>strtol\<close> in base 10 gives the value back and consumes every byte, for all of the
  range including \<open>LONG_MIN\<close>, whose magnitude no \<open>long\<close> holds.\<close>

theorem printed_long_reads_back:
  assumes "21 \<le> n" "n \<le> length b"
  shows "\<exists>b' len. c_snprintf F k (Some b) n ''%ld'' [VLong w] = Some (Some b', int len) \<and> len \<le> 20
    \<and> c_strtol (Some (takeWhile (\<lambda>c. c \<noteq> NUL) b')) 10 = (sint w, len)"
proof -
  have v: "- (2 ^ 63) \<le> sint w" "sint w < 2 ^ 63" using sint_range_size [of w] by (simp_all add: word_size)
  have p: "fmt_parse ''ld'' = (\<lparr>fs_left = False, fs_zero = False, fs_width = 0, fs_prec = None, fs_length = 1\<rparr>, ''d'')"
    by (simp add: fmt_parse_def fmt_precision_def fmt_length_def clio_is_digit_def schar_def uchar_def)
  have t: "format_text ''%ld'' [VLong w] = Some (signed_text (sint w))"
    by (simp add: format_text.simps p text_directive_def text_signed_def min_digits_def pad_def signed_text_def)
  let ?t = "signed_text (sint w)"
  have l: "length ?t \<le> 20" by (rule signed_text_length [OF v])
  have f: "holds_buffer (Some b) n (clio_sink_init_buffer (Some b) n, k) []"
    using assms by (auto simp: holds_buffer_def clio_sink_init_buffer_def buffer_after_def)
  obtain sink k' where s: "clio_vformat (clio_sink_emit F) ''%ld'' [VLong w] (clio_sink_init_buffer (Some b) n, k) = Some ((sink, k'), True)"
    and h: "holds_buffer (Some b) n (sink, k') ?t"
    using buffer_sink.vformat_correct [OF f, where fmt = "''%ld''" and args = "[VLong w]" and F = F] t by auto
  have b: "buffer_after n b ?t = ?t @ drop (length ?t) (b[0 := NUL])" using assms l by (simp add: buffer_after_def)
  have d: "drop (length ?t) (b[0 := NUL]) = (b[0 := NUL]) ! length ?t # drop (Suc (length ?t)) (b[0 := NUL])"
    using assms l by (intro Cons_nth_drop_Suc [symmetric]) simp
  have r: "c_snprintf F k (Some b) n ''%ld'' [VLong w] =
      Some (Some (?t @ NUL # drop (Suc (length ?t)) (b[0 := NUL])), int (length ?t))"
    using h l assms
    by (simp add: c_snprintf_def c_vsnprintf_def s holds_buffer_def clio_result_def clio_sink_finalize_buffer_def b d
        list_update_append)
  have "takeWhile (\<lambda>c. c \<noteq> NUL) (?t @ NUL # drop (Suc (length ?t)) (b[0 := NUL])) = ?t"
    using signed_text_NUL [OF v] by (subst takeWhile_append2) auto
  then show ?thesis using strtol_signed_text [OF v] r l by (intro exI conjI) (assumption | simp)+
qed

lemma printed_long_reads_back_witness:
  "\<exists>b' len. c_snprintf demo_calls [] (Some (replicate 32 NUL)) 24 ''%ld'' [VLong (- 42)] = Some (Some b', int len) \<and> len \<le> 20
    \<and> c_strtol (Some (takeWhile (\<lambda>c. c \<noteq> NUL) b')) 10 = (- 42, len)"
  using printed_long_reads_back [of 24 "replicate 32 NUL" demo_calls "[]" "- 42"] by simp

end
