(* ===== verification/UshText.thy ===== *)
theory UshText
  imports LibcString LibcNum
begin

text \<open>
  The text helpers of \<open>cleonos/c/apps/cmd_runtime.c\<close>, which every command of the user space
  shares: comparison, decimal numbers, bounded copies, and the splitting of command lines.

  A \<open>const char *\<close> argument is a \<open>string option\<close> (\<open>None\<close> is the null pointer); the text of a
  C string holds no NUL. A destination buffer is not null; what it holds after the call, up to its
  NUL, is the result. Functions that report success return an option (\<open>None\<close> is the result \<open>0\<close>) or
  a flag beside their outputs where these are written on failure too. \<open>u64\<close> values are natural
  numbers below \<open>2 ^ 64\<close>.
\<close>

section \<open>Comparison\<close>

fun has_prefix_loop :: "string \<Rightarrow> string \<Rightarrow> bool" where
  "has_prefix_loop text [] = True"
| "has_prefix_loop [] (p # prefix) = False"
| "has_prefix_loop (t # text) (p # prefix) = (t = p \<and> has_prefix_loop text prefix)"

definition ush_cmd_runtime_has_prefix :: "string option \<Rightarrow> string option \<Rightarrow> bool" where
  "ush_cmd_runtime_has_prefix text prefix =
     (case (text, prefix) of (Some t, Some p) \<Rightarrow> has_prefix_loop t p | _ \<Rightarrow> False)"

definition ush_strlen :: "string option \<Rightarrow> nat" where
  "ush_strlen str = (case str of None \<Rightarrow> 0 | Some s \<Rightarrow> length s)"

definition ush_streq :: "string option \<Rightarrow> string option \<Rightarrow> bool" where
  "ush_streq left right = (case (left, right) of (Some l, Some r) \<Rightarrow> s_strcmp l r = 0 | _ \<Rightarrow> False)"

definition ush_is_space :: "char \<Rightarrow> bool" where
  "ush_is_space ch = c_isspace (uchar ch)"

definition ush_is_printable :: "char \<Rightarrow> bool" where
  "ush_is_printable ch = (c_isprint (uchar ch) \<or> 0x80 \<le> uchar ch)"

definition ush_has_suffix :: "string option \<Rightarrow> string option \<Rightarrow> bool" where
  "ush_has_suffix name suffix = (case (name, suffix) of
     (Some n, Some s) \<Rightarrow> (if length s > length n then False
                       else s_strncmp (drop (length n - length s) n) s (length s) = 0)
   | _ \<Rightarrow> False)"

text \<open>\<open>strchr(text, needle)\<close> finds the terminating NUL too.\<close>

definition ush_contains_char :: "string option \<Rightarrow> char \<Rightarrow> bool" where
  "ush_contains_char text needle =
     (case text of None \<Rightarrow> False | Some t \<Rightarrow> needle \<in> set (t @ [NUL]))"

section \<open>Decimal numbers\<close>

definition U64_MAX :: nat where "U64_MAX = 0xFFFFFFFFFFFFFFFF"

fun parse_u64_loop :: "nat \<Rightarrow> string \<Rightarrow> nat option" where
  "parse_u64_loop value [] = Some value"
| "parse_u64_loop value (c # cs) =
     (if \<not> c_isdigit (uchar c) then None
      else (let digit = nat (uchar c - 48) in
        if value > (U64_MAX - digit) div 10 then None
        else parse_u64_loop (value * 10 + digit) cs))"

definition ush_parse_u64_dec :: "string option \<Rightarrow> nat option" where
  "ush_parse_u64_dec text =
     (case text of None \<Rightarrow> None | Some t \<Rightarrow> if t = [] then None else parse_u64_loop 0 t)"

text \<open>The digits of \<open>ush_write_u64_dec\<close>, least significant first, in a buffer of 32 bytes; the
  same loop with its own buffer is in \<open>wc\<close> and \<open>grep\<close>.\<close>

function dec_loop :: "nat \<Rightarrow> string \<Rightarrow> string" where
  "dec_loop value buf =
     (if value \<noteq> 0 \<and> length buf < 32 then dec_loop (value div 10) (buf @ [digit_char (value mod 10)])
      else buf)"
  by pat_completeness auto
termination by (relation "measure fst") auto

declare dec_loop.simps [simp del]

definition u64_dec :: "nat \<Rightarrow> string" where
  "u64_dec value = (if value = 0 then ''0'' else rev (dec_loop value []))"

definition hex_digit :: "nat \<Rightarrow> char" where
  "hex_digit current = (if current < 10 then digit_char current else to_char (65 + (int current - 10)))"

definition u64_hex :: "u64 \<Rightarrow> string" where
  "u64_hex value =
     ''0X'' @ map (\<lambda>nibble. hex_digit (unat (drop_bit (nibble * 4) value AND 0x0F))) (rev [0..<16])"

text \<open>The scaling loop of \<open>ush_write_human_bytes\<close>: the whole part, one decimal, the unit.\<close>

definition byte_units :: "string list" where
  "byte_units = [''B'', ''KiB'', ''MiB'', ''GiB'']"

function human_loop :: "nat \<Rightarrow> nat \<Rightarrow> nat \<Rightarrow> nat \<times> nat \<times> nat" where
  "human_loop whole frac u =
     (if 1024 \<le> whole \<and> u + 1 < length byte_units
      then human_loop (whole div 1024) ((whole mod 1024 * 10) div 1024) (u + 1)
      else (whole, frac, u))"
  by pat_completeness auto
termination by (relation "measure fst") auto

declare human_loop.simps [simp del]

definition human_text :: "nat \<Rightarrow> string" where
  "human_text bytes =
     (let (whole, frac, u) = human_loop bytes 0 0
      in u64_dec whole @ (if u \<noteq> 0 \<and> frac \<noteq> 0 then ''.'' @ u64_dec frac else []) @ '' '' @ byte_units ! u)"

section \<open>Bounded copies and command lines\<close>

text \<open>\<open>strncpy\<close> of \<open>dst_size - 1\<close> bytes and a NUL at the last position: the buffer then holds a
  prefix of \<open>src\<close>. With a size of 0 or a null source the destination keeps its text \<open>dst\<close>.\<close>

definition ush_copy :: "string \<Rightarrow> nat \<Rightarrow> string option \<Rightarrow> string" where
  "ush_copy dst dst_size src =
     (case src of None \<Rightarrow> dst
      | Some s \<Rightarrow> if dst_size = 0 then dst
                 else takeWhile (\<lambda>c. c \<noteq> NUL) (s_strncpy s (dst_size - 1) @ [NUL]))"

text \<open>Leading spaces are moved out, trailing ones cut off one by one.\<close>

function cut_trailing :: "string \<Rightarrow> nat \<Rightarrow> string" where
  "cut_trailing line len =
     (if 0 < len \<and> c_isspace (uchar (line ! (len - 1))) then cut_trailing line (len - 1) else take len line)"
  by pat_completeness auto
termination by (relation "measure snd") auto

declare cut_trailing.simps [simp del]

definition ush_trim_line :: "string \<Rightarrow> string" where
  "ush_trim_line line =
     (let line = dropWhile (\<lambda>c. c_isspace (uchar c)) line in cut_trailing line (length line))"

text \<open>A word is copied as far as it fits: at most \<open>sz - 1\<close> bytes.\<close>

fun fill :: "nat \<Rightarrow> nat \<Rightarrow> string \<Rightarrow> string" where
  "fill sz pos [] = []"
| "fill sz pos (c # cs) = (if pos + 1 < sz then c # fill sz (pos + 1) cs else fill sz pos cs)"

abbreviation skip_spaces :: "string \<Rightarrow> string" where
  "skip_spaces \<equiv> dropWhile ush_is_space"

abbreviation word_of :: "string \<Rightarrow> string" where
  "word_of \<equiv> takeWhile (\<lambda>c. \<not> ush_is_space c)"

abbreviation after_word :: "string \<Rightarrow> string" where
  "after_word \<equiv> dropWhile (\<lambda>c. \<not> ush_is_space c)"

definition ush_parse_line :: "string \<Rightarrow> nat \<Rightarrow> nat \<Rightarrow> string \<times> string" where
  "ush_parse_line line cmd_size arg_size =
     (let line = skip_spaces line;
          out_cmd = fill cmd_size 0 (word_of line);
          line = skip_spaces (after_word line)
      in (out_cmd, fill arg_size 0 line))"

text \<open>The first word and the text behind it; \<open>None\<close> when there is no word.\<close>

definition ush_split_first_and_rest :: "string option \<Rightarrow> nat \<Rightarrow> (string \<times> string) option" where
  "ush_split_first_and_rest arg out_first_size =
     (case arg of None \<Rightarrow> None
      | Some arg \<Rightarrow>
        if out_first_size = 0 then None
        else (let arg = skip_spaces arg in
          if arg = [] then None
          else Some (fill out_first_size 0 (word_of arg), skip_spaces (after_word arg))))"

text \<open>The first two words, with the result flag: the outputs are written on failure too.\<close>

definition ush_split_two_args :: "string option \<Rightarrow> nat \<Rightarrow> nat \<Rightarrow> bool \<times> string \<times> string" where
  "ush_split_two_args arg out_first_size out_second_size =
     (case arg of None \<Rightarrow> (False, [], [])
      | Some arg \<Rightarrow>
        if out_first_size = 0 \<or> out_second_size = 0 then (False, [], [])
        else (let arg = skip_spaces arg in
          if arg = [] then (False, [], [])
          else (let out_first = fill out_first_size 0 (word_of arg);
                    arg = skip_spaces (after_word arg) in
            if arg = [] then (False, out_first, [])
            else (let out_second = fill out_second_size 0 (word_of arg)
              in (out_first \<noteq> [] \<and> out_second \<noteq> [], out_first, out_second)))))"

section \<open>Lemmas\<close>

lemma has_prefix_loop_iff [c_spec]: "has_prefix_loop t p \<longleftrightarrow> take (length p) t = p"
  by (induction t p rule: has_prefix_loop.induct) auto

lemma ush_streq_iff [c_spec]:
  "NUL \<notin> set l \<Longrightarrow> NUL \<notin> set r \<Longrightarrow> ush_streq (Some l) (Some r) \<longleftrightarrow> l = r"
  by (simp add: ush_streq_def s_strcmp_zero_iff)

lemma ush_has_suffix_iff [c_spec]:
  assumes "NUL \<notin> set n" "NUL \<notin> set s"
  shows "ush_has_suffix (Some n) (Some s) \<longleftrightarrow> (\<exists>b. n = b @ s)"
proof (cases "length s \<le> length n")
  case True
  define k t where "k = length n - length s" and "t = drop k n"
  have n: "n = take k n @ t" unfolding t_def by (rule append_take_drop_id [symmetric])
  have t1: "length t = length s" using True by (simp add: t_def k_def)
  have t2: "NUL \<notin> set t" unfolding t_def by (rule set_drop_notin [OF assms(1)])
  have "ush_has_suffix (Some n) (Some s) \<longleftrightarrow> s_strcmp t s = 0"
    using True t1 by (simp add: ush_has_suffix_def s_strncmp_def t_def k_def)
  also have "\<dots> \<longleftrightarrow> t = s" by (rule s_strcmp_zero_iff [OF t2 assms(2)])
  also have "\<dots> \<longleftrightarrow> (\<exists>b. n = b @ s)"
  proof
    show "\<exists>b. n = b @ s" if "t = s" using n that by blast
    show "t = s" if "\<exists>b. n = b @ s" using that by (auto simp: t_def k_def)
  qed
  finally show ?thesis .
qed (auto simp: ush_has_suffix_def)

lemma is_space_NUL [simp]: "\<not> ush_is_space NUL"
  by (simp add: ush_is_space_def c_isspace_def)

lemma ush_copy_take [c_spec]:
  assumes "NUL \<notin> set s" "0 < n"
  shows "ush_copy d n (Some s) = take (n - 1) s"
proof -
  have "NUL \<notin> set (take (n - 1) s)" using assms(1) by (rule set_take_notin)
  then have "\<forall>c\<in>set (take (n - 1) s). c \<noteq> NUL" by auto
  then have "takeWhile (\<lambda>c. c \<noteq> NUL) (take (n - 1) s @ replicate (n - 1 - length s) NUL @ [NUL]) = take (n - 1) s"
    by (cases "n - 1 - length s") (simp_all add: takeWhile_append_stop)
  then show ?thesis using assms(2) by (simp add: ush_copy_def s_strncpy_def)
qed

lemma fill_take [c_spec]: "fill sz pos s = take (sz - 1 - pos) s"
proof (induction sz pos s rule: fill.induct)
  case (2 sz pos c cs)
  show ?case
  proof (cases "pos + 1 < sz")
    case True
    then have "sz - 1 - pos = Suc (sz - 1 - (pos + 1))" by simp
    with True 2 show ?thesis by simp
  qed (use 2 in auto)
qed simp

lemma cut_trailing_eq [c_spec]:
  "len \<le> length line \<Longrightarrow> cut_trailing line len = rev (dropWhile (\<lambda>c. c_isspace (uchar c)) (rev (take len line)))"
proof (induction line len rule: cut_trailing.induct)
  case (1 line len)
  show ?case
  proof (cases len)
    case (Suc k)
    then have t: "take (Suc k) line = take k line @ [line ! k]" using 1 by (simp add: take_Suc_conv_app_nth)
    show ?thesis
      using 1 Suc by (subst cut_trailing.simps) (simp add: t)
  qed (simp add: cut_trailing.simps)
qed

lemma is_space_fun: "(\<lambda>c. c_isspace (uchar c)) = ush_is_space"
  by (rule ext) (simp add: ush_is_space_def)

lemma ush_trim_line_eq [c_spec]:
  "ush_trim_line line = rev (dropWhile ush_is_space (rev (dropWhile ush_is_space line)))"
  by (simp add: ush_trim_line_def Let_def cut_trailing_eq is_space_fun)

section \<open>Decimal round trip\<close>

text \<open>The value of a digit string.\<close>

definition dec_val :: "string \<Rightarrow> nat" where
  "dec_val ds = foldl (\<lambda>v c. v * 10 + nat (uchar c - 48)) 0 ds"

lemma dec_foldl_le: "v \<le> foldl (\<lambda>v c. v * 10 + nat (uchar c - 48)) v ds"
proof (induction ds arbitrary: v)
  case (Cons c ds)
  have "v \<le> v * 10 + nat (uchar c - 48)" by simp
  also have "\<dots> \<le> foldl (\<lambda>v c. v * 10 + nat (uchar c - 48)) (v * 10 + nat (uchar c - 48)) ds"
    by (rule Cons)
  finally show ?case by simp
qed simp

text \<open>The overflow test is exact: the parser accepts a digit string when its value fits.\<close>

lemma parse_u64_loop_spec [c_spec]:
  "v \<le> U64_MAX \<Longrightarrow> parse_u64_loop v ds =
     (if (\<forall>c\<in>set ds. c_isdigit (uchar c)) \<and> foldl (\<lambda>v c. v * 10 + nat (uchar c - 48)) v ds \<le> U64_MAX
      then Some (foldl (\<lambda>v c. v * 10 + nat (uchar c - 48)) v ds) else None)"
proof (induction v ds rule: parse_u64_loop.induct)
  case (2 v0 c cs)
  show ?case
  proof (cases "c_isdigit (uchar c)")
    case True
    define d where "d = nat (uchar c - 48)"
    have d: "d < 10" using True by (auto simp: d_def c_isdigit_def)
    have fits: "\<not> (U64_MAX - d) div 10 < v0 \<longleftrightarrow> v0 * 10 + d \<le> U64_MAX"
      using d by (auto simp: U64_MAX_def)
    show ?thesis
    proof (cases "v0 * 10 + d \<le> U64_MAX")
      case t: True
      then show ?thesis using 2 True fits by (simp add: d_def Let_def)
    next
      case f: False
      then have "\<not> foldl (\<lambda>v c. v * 10 + nat (uchar c - 48)) (v0 * 10 + d) cs \<le> U64_MAX"
        using dec_foldl_le [of "v0 * 10 + d" cs] by linarith
      then show ?thesis using f fits True by (simp add: d_def Let_def)
    qed
  qed simp
qed simp

lemma ush_parse_u64_dec_spec [c_spec]:
  "ush_parse_u64_dec (Some t) = (if t \<noteq> [] \<and> (\<forall>c\<in>set t. c_isdigit (uchar c)) \<and> dec_val t \<le> U64_MAX
     then Some (dec_val t) else None)"
  by (simp add: ush_parse_u64_dec_def parse_u64_loop_spec dec_val_def)

lemma dec_val_append_digit: "d < 10 \<Longrightarrow> dec_val (ds @ [digit_char d]) = dec_val ds * 10 + d"
  by (simp add: dec_val_def uchar_digit_char)

lemma dec_loop_spec:
  "n0 < 10 ^ (32 - length buf) \<Longrightarrow> length buf \<le> 32 \<Longrightarrow>
   \<exists>ds. dec_loop n0 buf = buf @ ds \<and> (\<forall>c\<in>set ds. c_isdigit (uchar c)) \<and> dec_val (rev ds) = n0
     \<and> (n0 = 0 \<longleftrightarrow> ds = []) \<and> (ds \<noteq> [] \<longrightarrow> last ds \<noteq> CHR ''0'')"
proof (induction n0 buf rule: dec_loop.induct)
  case (1 n0 buf)
  show ?case
  proof (cases "n0 \<noteq> 0 \<and> length buf < 32")
    case False
    then have "n0 = 0" using "1.prems" by (cases "length buf = 32") auto
    then show ?thesis using False
      by (intro exI [of _ "[]"]) (simp add: dec_loop.simps dec_val_def)
  next
    case True
    then have "32 - length buf = Suc (32 - length (buf @ [digit_char (n0 mod 10)]))" by simp arith
    then have "10 ^ (32 - length buf) = 10 * (10 :: nat) ^ (32 - length (buf @ [digit_char (n0 mod 10)]))"
      by (simp only: power_Suc)
    with "1.prems" have "n0 div 10 < 10 ^ (32 - length (buf @ [digit_char (n0 mod 10)]))"
      by (simp add: less_mult_imp_div_less mult.commute)
    then obtain ds where ds: "dec_loop (n0 div 10) (buf @ [digit_char (n0 mod 10)]) =
        (buf @ [digit_char (n0 mod 10)]) @ ds" "\<forall>c\<in>set ds. c_isdigit (uchar c)"
      "dec_val (rev ds) = n0 div 10" "n0 div 10 = 0 \<longleftrightarrow> ds = []" "ds \<noteq> [] \<longrightarrow> last ds \<noteq> CHR ''0''"
      using "1.IH" [OF True] True by auto
    have l: "dec_loop n0 buf = buf @ digit_char (n0 mod 10) # ds"
      using True ds(1) by (subst dec_loop.simps) simp
    have dg: "c_isdigit (uchar (digit_char (n0 mod 10)))"
      by (simp add: uchar_digit_char c_isdigit_def)
    have v: "dec_val (rev (digit_char (n0 mod 10) # ds)) = n0"
      using ds(3) by (simp add: dec_val_append_digit)
    have nz: "digit_char (n0 mod 10) \<noteq> CHR ''0''" if "ds = []"
    proof
      assume "digit_char (n0 mod 10) = CHR ''0''"
      then have "uchar (digit_char (n0 mod 10)) = 48" by (simp add: uchar_def)
      then have "n0 mod 10 = 0" by (simp add: uchar_digit_char)
      with that ds(4) True show False by (simp add: div_eq_0_iff)
    qed
    show ?thesis
      by (rule exI [of _ "digit_char (n0 mod 10) # ds"]) (use l dg v nz ds True in auto)
  qed
qed

lemma u64_dec_spec [c_spec]:
  assumes "v \<le> U64_MAX"
  shows "dec_val (u64_dec v) = v" "\<forall>c\<in>set (u64_dec v). c_isdigit (uchar c)" "u64_dec v \<noteq> []"
    "v \<noteq> 0 \<Longrightarrow> hd (u64_dec v) \<noteq> CHR ''0''"
proof -
  have "v < 10 ^ (32 - length ([] :: string))" using assms by (simp add: U64_MAX_def)
  then obtain ds where ds: "dec_loop v [] = ds" "\<forall>c\<in>set ds. c_isdigit (uchar c)" "dec_val (rev ds) = v"
    "v = 0 \<longleftrightarrow> ds = []" "ds \<noteq> [] \<longrightarrow> last ds \<noteq> CHR ''0''"
    using dec_loop_spec [of v "[]"] by auto
  have z: "dec_val ''0'' = 0" "c_isdigit (uchar (CHR ''0''))" by (simp_all add: dec_val_def uchar_def c_isdigit_def)
  show "dec_val (u64_dec v) = v" "\<forall>c\<in>set (u64_dec v). c_isdigit (uchar c)" "u64_dec v \<noteq> []"
    "v \<noteq> 0 \<Longrightarrow> hd (u64_dec v) \<noteq> CHR ''0''"
    using ds z by (auto simp: u64_dec_def hd_rev)
qed

lemma u64_dec_no_NUL: "v \<le> U64_MAX \<Longrightarrow> NUL \<notin> set (u64_dec v)"
  using u64_dec_spec(2) [of v] by (auto simp: c_isdigit_def)

lemma human_loop_spec [c_spec]:
  "u \<le> 3 \<Longrightarrow> whole * 1024 ^ u \<le> bytes \<Longrightarrow> bytes < (whole + 1) * 1024 ^ u \<Longrightarrow> frac < 10 \<Longrightarrow>
   (case human_loop whole frac u of (w, f, v) \<Rightarrow> v \<le> 3 \<and> f < 10 \<and> w * 1024 ^ v \<le> bytes
      \<and> bytes < (w + 1) * 1024 ^ v \<and> (v < 3 \<longrightarrow> w < 1024))"
proof (induction whole frac u rule: human_loop.induct)
  case (1 whole frac u)
  show ?case
  proof (cases "1024 \<le> whole \<and> u + 1 < length byte_units")
    case True
    have lo: "whole div 1024 * 1024 ^ (u + 1) \<le> whole * 1024 ^ u"
      using mult_right_mono [OF div_times_less_eq_dividend [of whole 1024], of "1024 ^ u"]
      by (simp add: mult.assoc mult.left_commute)
    have "whole + 1 \<le> (whole div 1024 + 1) * 1024"
      using dividend_less_div_times [of 1024 whole] by (simp add: Suc_le_eq)
    then have "(whole + 1) * 1024 ^ u \<le> (whole div 1024 + 1) * 1024 * 1024 ^ u" by (rule mult_right_mono) simp
    then have hi: "(whole + 1) * 1024 ^ u \<le> (whole div 1024 + 1) * 1024 ^ (u + 1)"
      by (simp only: power_add power_one_right mult.assoc mult.commute mult.left_commute)
    have d: "(whole mod 1024 * 10) div 1024 < 10" by (rule less_mult_imp_div_less) simp
    have u: "u + 1 \<le> 3" using True by (simp add: byte_units_def)
    have "human_loop whole frac u = human_loop (whole div 1024) ((whole mod 1024 * 10) div 1024) (u + 1)"
      using True by (subst human_loop.simps) simp
    with "1.IH" [OF True u le_trans [OF lo "1.prems"(2)] less_le_trans [OF "1.prems"(3) hi] d]
    show ?thesis by (simp only:)
  next
    case False
    then show ?thesis using "1.prems" by (subst human_loop.simps) (auto simp: byte_units_def)
  qed
qed

section \<open>Properties\<close>

text \<open>The decimal parser accepts exactly the non-empty digit strings whose value fits in 64 bits
  and returns that value; and it reads back every number that the decimal writer prints.\<close>

theorem parse_u64_exact_roundtrip:
  "ush_parse_u64_dec (Some t) = (if t \<noteq> [] \<and> list_all (\<lambda>c. c_isdigit (uchar c)) t \<and> dec_val t \<le> U64_MAX
     then Some (dec_val t) else None)
   \<and> ush_parse_u64_dec (Some (u64_dec (unat (v :: u64)))) = Some (unat v)"
proof -
  have "unat v < 2 ^ 64" using unsigned_less [of v] by simp
  then have v: "unat v \<le> U64_MAX" by (simp add: U64_MAX_def)
  show ?thesis
    using u64_dec_spec [OF v] v by (auto simp: ush_parse_u64_dec_spec list_all_iff)
qed

text \<open>The size in human units never overstates: the printed whole part is the number of full
  units, it is below 1024 unless the unit is already GiB, and the decimal is a single digit.\<close>

theorem human_bytes_accurate:
  "case human_loop bytes 0 0 of (whole, frac, u) \<Rightarrow>
     u < length byte_units \<and> frac < 10 \<and> whole * 1024 ^ u \<le> bytes \<and> bytes < (whole + 1) * 1024 ^ u
     \<and> (whole < 1024 \<or> byte_units ! u = ''GiB'')"
proof -
  obtain w f v where h: "human_loop bytes 0 0 = (w, f, v)" by (cases "human_loop bytes 0 0")
  have "v \<le> 3 \<and> f < 10 \<and> w * 1024 ^ v \<le> bytes \<and> bytes < (w + 1) * 1024 ^ v \<and> (v < 3 \<longrightarrow> w < 1024)"
    using human_loop_spec [of 0 bytes bytes 0] h by simp
  moreover have "v = 3 \<or> v < 3" if "v \<le> 3" using that by auto
  ultimately show ?thesis unfolding h by (auto simp: byte_units_def)
qed

text \<open>Splitting a command line off its first word loses nothing that fits: the first output is
  the first word (cut at the buffer size), the rest starts behind the spaces after it, and the
  split fails exactly on lines of spaces.\<close>

theorem split_first_and_rest_spec:
  "0 < n \<Longrightarrow> ush_split_first_and_rest (Some arg) n =
     (if list_all ush_is_space arg then None
      else Some (take (n - 1) (word_of (skip_spaces arg)), skip_spaces (after_word (skip_spaces arg))))
   \<and> arg = takeWhile ush_is_space arg @ word_of (skip_spaces arg) @ after_word (skip_spaces arg)"
  by (auto simp: ush_split_first_and_rest_def Let_def fill_take list_all_iff dropWhile_eq_Nil_conv)

theorem split_first_and_rest_spec_witness:
  "ush_split_first_and_rest (Some ''  grep -n x'') 4 = Some (''gre'', ''-n x'')"
proof -
  have "\<not> list_all ush_is_space ''  grep -n x''" by code_simp
  moreover have "word_of (skip_spaces ''  grep -n x'') = ''grep''"
    "skip_spaces (after_word (skip_spaces ''  grep -n x'')) = ''-n x''" by code_simp+
  ultimately show ?thesis
    using split_first_and_rest_spec [of 4 "''  grep -n x''"] by simp
qed

end
