(* ===== verification/UshPath.thy ===== *)
theory UshPath
  imports UshText
begin

text \<open>
  The shell state and the path functions of \<open>cleonos/c/apps/cmd_runtime.c\<close>. A path under
  construction is the text in the output buffer; \<open>*io_len\<close> is its length. A relative path is
  resolved against the working directory, \<open>.\<close> and \<open>..\<close> are removed while the path is built, and
  the functions fail when a component does not fit. The abstract view is a stack of components.
\<close>

section \<open>State\<close>

definition USH_CMD_MAX :: nat where "USH_CMD_MAX = 32"
definition USH_ARG_MAX :: nat where "USH_ARG_MAX = 160"
definition USH_PATH_MAX :: nat where "USH_PATH_MAX = 192"
definition USH_COPY_MAX :: nat where "USH_COPY_MAX = 65536"

record ush_state =
  sh_line :: string
  sh_line_len :: nat
  sh_cursor :: nat
  sh_rendered_len :: nat
  sh_cwd :: string
  sh_history :: "string list"
  sh_history_count :: nat
  sh_history_nav :: int
  sh_nav_saved_line :: string
  sh_nav_saved_len :: nat
  sh_nav_saved_cursor :: nat
  sh_cmd_total :: nat
  sh_cmd_ok :: nat
  sh_cmd_fail :: nat
  sh_cmd_unknown :: nat
  sh_exit_requested :: bool
  sh_exit_code :: nat

definition ush_init_state :: ush_state where
  "ush_init_state =
     \<lparr>sh_line = [], sh_line_len = 0, sh_cursor = 0, sh_rendered_len = 0,
      sh_cwd = ush_copy [] USH_PATH_MAX (Some ''/''),
      sh_history = replicate 16 [], sh_history_count = 0, sh_history_nav = - 1,
      sh_nav_saved_line = [], sh_nav_saved_len = 0, sh_nav_saved_cursor = 0,
      sh_cmd_total = 0, sh_cmd_ok = 0, sh_cmd_fail = 0, sh_cmd_unknown = 0,
      sh_exit_requested = False, sh_exit_code = 0\<rparr>"

section \<open>Operations\<close>

definition ush_path_push_component :: "string \<Rightarrow> nat \<Rightarrow> string \<Rightarrow> string option" where
  "ush_path_push_component path path_size component =
     (if component = [] then None
      else if length path = 1
      then (if path_size \<le> length path + length component then None else Some (path @ component))
      else (if path_size \<le> length path + 1 + length component then None
            else Some (path @ ''/'' @ component)))"

fun pop_len :: "string \<Rightarrow> nat \<Rightarrow> nat" where
  "pop_len path 0 = 0"
| "pop_len path (Suc k) = (if 1 < Suc k \<and> path ! k \<noteq> CHR ''/'' then pop_len path k else Suc k)"

definition ush_path_pop_component :: "string \<Rightarrow> string" where
  "ush_path_pop_component path =
     (if length path \<le> 1 then ''/''
      else (let io_len = pop_len path (length path);
                io_len = (if 1 < io_len then io_len - 1 else io_len)
            in take io_len path))"

function parse_into_loop :: "string \<Rightarrow> nat \<Rightarrow> string \<Rightarrow> string option" where
  "parse_into_loop out_path out_size src =
     (let src = dropWhile (\<lambda>c. c = CHR ''/'') src in
      if src = [] then Some out_path
      else (let comp = takeWhile (\<lambda>c. c \<noteq> CHR ''/'') src; rest = dropWhile (\<lambda>c. c \<noteq> CHR ''/'') src in
        if comp = ''.'' then parse_into_loop out_path out_size rest
        else if comp = ''..'' then parse_into_loop (ush_path_pop_component out_path) out_size rest
        else (case ush_path_push_component out_path out_size comp of
            None \<Rightarrow> None
          | Some p \<Rightarrow> parse_into_loop p out_size rest)))"
  by pat_completeness auto

lemma component_shorter:
  assumes "s = dropWhile (\<lambda>c. c = CHR ''/'') src" "s \<noteq> []"
  shows "length (dropWhile (\<lambda>c. c \<noteq> CHR ''/'') s) < length src"
proof -
  obtain c t where s: "s = c # t" using assms(2) by (cases s) auto
  then have "c \<noteq> CHR ''/''" using hd_dropWhile [of "\<lambda>c. c = CHR ''/''" src] assms by auto
  then have "length (dropWhile (\<lambda>c. c \<noteq> CHR ''/'') s) < length s"
    using length_dropWhile_le [of _ t] by (simp add: s less_Suc_eq_le)
  also have "length s \<le> length src" using assms(1) length_dropWhile_le by metis
  finally show ?thesis .
qed

termination parse_into_loop
  by (relation "measure (\<lambda>(p, n, src). length src)") (auto simp: component_shorter)

declare parse_into_loop.simps [simp del]

definition ush_path_parse_into :: "string \<Rightarrow> string \<Rightarrow> nat \<Rightarrow> string option" where
  "ush_path_parse_into src out_path out_size =
     (let src = (if ch_at src 0 = CHR ''/'' then drop 1 src else src)
      in parse_into_loop out_path out_size src)"

definition ush_resolve_path :: "ush_state \<Rightarrow> string option \<Rightarrow> nat \<Rightarrow> string option" where
  "ush_resolve_path sh arg out_size =
     (if out_size < 2 then None
      else (case arg of
          None \<Rightarrow> ush_path_parse_into (sh_cwd sh) ''/'' out_size
        | Some a \<Rightarrow>
          if a = [] then ush_path_parse_into (sh_cwd sh) ''/'' out_size
          else if ch_at a 0 \<noteq> CHR ''/'' then
            (case ush_path_parse_into (sh_cwd sh) ''/'' out_size of
               None \<Rightarrow> None
             | Some p \<Rightarrow> ush_path_parse_into a p out_size)
          else ush_path_parse_into a ''/'' out_size))"

text \<open>\<open>strncmp(path, "/system", 7)\<close> and the byte behind it.\<close>

definition ush_path_is_under_system :: "string option \<Rightarrow> bool" where
  "ush_path_is_under_system path =
     (case path of None \<Rightarrow> False
      | Some p \<Rightarrow> s_strncmp p ''/system'' 7 = 0 \<and> (ch_at p 7 = NUL \<or> ch_at p 7 = CHR ''/''))"

section \<open>Stacks of components\<close>

function components :: "string \<Rightarrow> string list" where
  "components src =
     (let src = dropWhile (\<lambda>c. c = CHR ''/'') src in
      if src = [] then []
      else takeWhile (\<lambda>c. c \<noteq> CHR ''/'') src # components (dropWhile (\<lambda>c. c \<noteq> CHR ''/'') src))"
  by pat_completeness auto
termination by (relation "measure length") (auto simp: component_shorter)

declare components.simps [simp del]

definition plain :: "string \<Rightarrow> bool" where
  "plain c \<longleftrightarrow> c \<noteq> [] \<and> CHR ''/'' \<notin> set c \<and> c \<noteq> ''.'' \<and> c \<noteq> ''..''"

definition enter :: "string list \<Rightarrow> string \<Rightarrow> string list" where
  "enter st c = (if c = ''.'' then st else if c = ''..'' then butlast st else st @ [c])"

abbreviation normal :: "string list \<Rightarrow> string list \<Rightarrow> string list" where
  "normal \<equiv> foldl enter"

definition render :: "string list \<Rightarrow> string" where
  "render st = (if st = [] then ''/'' else concat (map (\<lambda>c. CHR ''/'' # c) st))"

text \<open>An implementation of bounded stacks: \<open>rep\<close> relates its values to component lists, \<open>fits\<close>
  says which lists it can hold. \<open>walk\<close> is the loop over the components of a path on it.\<close>

fun walk :: "('p \<Rightarrow> string \<Rightarrow> 'p option) \<Rightarrow> ('p \<Rightarrow> 'p) \<Rightarrow> 'p \<Rightarrow> string list \<Rightarrow> 'p option" where
  "walk psh pp p [] = Some p"
| "walk psh pp p (c # cs) =
     (if c = ''.'' then walk psh pp p cs
      else if c = ''..'' then walk psh pp (pp p) cs
      else (case psh p c of None \<Rightarrow> None | Some p' \<Rightarrow> walk psh pp p' cs))"

locale path_stack =
  fixes psh :: "'p \<Rightarrow> string \<Rightarrow> 'p option"
    and pp :: "'p \<Rightarrow> 'p"
    and rep :: "'p \<Rightarrow> string list \<Rightarrow> bool"
    and fits :: "string list \<Rightarrow> bool"
  assumes push_fits: "rep p st \<Longrightarrow> plain c \<Longrightarrow> fits (st @ [c]) \<Longrightarrow> \<exists>p'. psh p c = Some p' \<and> rep p' (st @ [c])"
    and push_full: "rep p st \<Longrightarrow> plain c \<Longrightarrow> \<not> fits (st @ [c]) \<Longrightarrow> psh p c = None"
    and pop_rep: "rep p st \<Longrightarrow> rep (pp p) (butlast st)"
    and rep_fits: "rep p st \<Longrightarrow> fits st"
    and fits_butlast: "fits st \<Longrightarrow> fits (butlast st)"
begin

lemma walk_normal:
  assumes "rep p st" "\<forall>c\<in>set cs. c \<noteq> [] \<and> CHR ''/'' \<notin> set c"
  shows "(\<exists>p'. walk psh pp p cs = Some p' \<and> rep p' (normal st cs) \<and> (\<forall>k. fits (normal st (take k cs))))
       \<or> walk psh pp p cs = None \<and> (\<exists>k\<le>length cs. \<not> fits (normal st (take k cs)))"
  using assms
proof (induction cs arbitrary: p st)
  case Nil
  then show ?case using rep_fits by auto
next
  case (Cons c cs)
  have ks: "(\<forall>k. fits (normal st (take k (c # cs)))) \<longleftrightarrow> (\<forall>k. fits (normal (enter st c) (take k cs)))"
    if "fits st"
  proof
    assume "\<forall>k. fits (normal st (take k (c # cs)))"
    then have "fits (normal st (take (Suc k) (c # cs)))" for k by (rule spec)
    then show "\<forall>k. fits (normal (enter st c) (take k cs))" by simp
  next
    assume "\<forall>k. fits (normal (enter st c) (take k cs))"
    then show "\<forall>k. fits (normal st (take k (c # cs)))" using that by (simp add: take_Cons')
  qed
  have kn: "\<exists>k\<le>length (c # cs). \<not> fits (normal st (take k (c # cs)))"
    if "\<exists>k\<le>length cs. \<not> fits (normal (enter st c) (take k cs))"
  proof -
    from that obtain k where "k \<le> length cs" "\<not> fits (normal (enter st c) (take k cs))"
      by (elim exE conjE)
    then show ?thesis by (intro exI [of _ "Suc k"]) simp
  qed
  have step: ?case if r: "rep p' (enter st c)" and w: "walk psh pp p (c # cs) = walk psh pp p' cs" for p'
  proof -
    have n: "normal st (c # cs) = normal (enter st c) cs" by simp
    have "\<forall>c\<in>set cs. c \<noteq> [] \<and> CHR ''/'' \<notin> set c" using Cons.prems(2) by simp
    from Cons.IH [OF r this] show ?thesis
    proof (elim disjE exE conjE)
      fix q assume "walk psh pp p' cs = Some q" "rep q (normal (enter st c) cs)"
        "\<forall>k. fits (normal (enter st c) (take k cs))"
      then show ?thesis
        unfolding w n ks [OF rep_fits [OF Cons.prems(1)]] by (intro disjI1 exI [of _ q] conjI)
    next
      fix k assume "walk psh pp p' cs = None" "k \<le> length cs" "\<not> fits (normal (enter st c) (take k cs))"
      then show ?thesis unfolding w by (intro disjI2 conjI kn exI [of _ k])
    qed
  qed
  show ?case
  proof (cases "c = ''.'' \<or> c = ''..''")
    case True
    then show ?thesis using Cons.prems(1) pop_rep
      by (intro step [of "if c = ''.'' then p else pp p"]) (auto simp: enter_def)
  next
    case False
    then have pl: "plain c" "enter st c = st @ [c]" using Cons.prems(2) by (auto simp: plain_def enter_def)
    show ?thesis
    proof (cases "fits (st @ [c])")
      case True
      then obtain p' where "psh p c = Some p'" "rep p' (st @ [c])" using push_fits Cons.prems(1) pl by blast
      then show ?thesis using False pl by (intro step [of p']) auto
    next
      case f: False
      then have "psh p c = None" using push_full Cons.prems(1) pl by blast
      moreover have "\<not> fits (normal st (take 1 (c # cs)))" using f pl by simp
      ultimately show ?thesis using False by (intro disjI2 conjI exI [of _ 1]) auto
    qed
  qed
qed

lemma walk_append:
  "walk psh pp p (cs @ ds) = (case walk psh pp p cs of None \<Rightarrow> None | Some p' \<Rightarrow> walk psh pp p' ds)"
  by (induction cs arbitrary: p) (auto split: option.splits)

end

section \<open>The path buffer is such a stack\<close>

definition path_rep :: "nat \<Rightarrow> string \<Rightarrow> string list \<Rightarrow> bool" where
  "path_rep n p st \<longleftrightarrow> p = render st \<and> list_all plain st \<and> length p < n"

definition path_fits :: "nat \<Rightarrow> string list \<Rightarrow> bool" where
  "path_fits n st \<longleftrightarrow> length (render st) < n"

lemma render_snoc: "render (st @ [c]) = (if st = [] then [] else render st) @ CHR ''/'' # c"
  by (simp add: render_def)

lemma length_render_gt: "list_all plain st \<Longrightarrow> st \<noteq> [] \<Longrightarrow> 1 < length (render st)"
  by (cases st) (auto simp: render_def plain_def)

lemma pop_len_stop:
  assumes "CHR ''/'' \<notin> set c" "k \<le> length c"
  shows "pop_len (pre @ CHR ''/'' # c) (Suc (length pre + k)) = Suc (length pre)"
  using assms(2)
proof (induction k)
  case (Suc k)
  then have "(pre @ CHR ''/'' # c) ! (length pre + Suc k) = c ! k" by (simp add: nth_append)
  moreover have "c ! k \<noteq> CHR ''/''" using assms(1) Suc.prems by (metis Suc_le_lessD nth_mem)
  ultimately show ?case using Suc by simp
qed (simp add: nth_append)

lemma pop_render:
  assumes "list_all plain (st @ [c])"
  shows "ush_path_pop_component (render (st @ [c])) = render st"
proof -
  define pre where "pre = (if st = [] then [] else render st)"
  have c: "CHR ''/'' \<notin> set c" "c \<noteq> []" using assms by (auto simp: plain_def)
  have r: "render (st @ [c]) = pre @ CHR ''/'' # c" by (simp add: render_snoc pre_def)
  have "pop_len (render (st @ [c])) (length (render (st @ [c]))) = Suc (length pre)"
    using pop_len_stop [OF c(1) le_refl, of pre] by (simp add: r)
  moreover have "\<not> length (render (st @ [c])) \<le> 1" unfolding r using c by (cases c) auto
  ultimately have "ush_path_pop_component (render (st @ [c])) =
      take (if 0 < length pre then length pre else 1) (pre @ CHR ''/'' # c)"
    by (simp add: ush_path_pop_component_def r)
  also have "\<dots> = render st"
  proof (cases "st = []")
    case False
    then have "0 < length pre" using length_render_gt [of st] assms by (auto simp: pre_def)
    then show ?thesis using False by (simp add: pre_def)
  qed (simp add: pre_def render_def)
  finally show ?thesis .
qed

interpretation ush_path: path_stack "\<lambda>p c. ush_path_push_component p n c" ush_path_pop_component
  "path_rep n" "path_fits n" for n
proof
  fix p st c
  assume rep: "path_rep n p st" and c: "plain c"
  then have c0: "c \<noteq> []" by (simp add: plain_def)
  have l: "length p = 1 \<longleftrightarrow> st = []" using rep length_render_gt [of st] by (auto simp: path_rep_def render_def)
  have p: "ush_path_push_component p n c = (if n \<le> length (render (st @ [c])) then None else Some (render (st @ [c])))"
    using rep c0 l by (cases "st = []") (auto simp: ush_path_push_component_def path_rep_def render_snoc render_def)
  show "\<exists>p'. ush_path_push_component p n c = Some p' \<and> path_rep n p' (st @ [c])" if "path_fits n (st @ [c])"
    using that rep c p by (auto simp: path_fits_def path_rep_def)
  show "ush_path_push_component p n c = None" if "\<not> path_fits n (st @ [c])"
    using that p by (simp add: path_fits_def)
next
  fix p st assume rep: "path_rep n p st"
  show "path_rep n (ush_path_pop_component p) (butlast st)"
  proof (cases st rule: rev_exhaust)
    case Nil
    then show ?thesis using rep by (auto simp: path_rep_def render_def ush_path_pop_component_def)
  next
    case (snoc st' c)
    then have "ush_path_pop_component p = render st'" using rep pop_render by (auto simp: path_rep_def)
    moreover have "length (render st') \<le> length (render st)" using snoc by (auto simp: render_snoc render_def)
    moreover have "render st = p" "length p < n" "list_all plain st" using rep by (auto simp: path_rep_def)
    ultimately show ?thesis using snoc by (auto simp: path_rep_def)
  qed
next
  fix p st assume "path_rep n p st" then show "path_fits n st" by (auto simp: path_rep_def path_fits_def)
next
  fix st assume "path_fits n st"
  moreover have "length (render (butlast st)) \<le> length (render st)" if "st \<noteq> []"
    using that by (cases st rule: rev_exhaust) (auto simp: render_snoc render_def)
  ultimately show "path_fits n (butlast st)" by (cases "st = []") (auto simp: path_fits_def)
qed

section \<open>Resolution\<close>

lemma parse_into_walk:
  "parse_into_loop p n src = walk (\<lambda>p c. ush_path_push_component p n c) ush_path_pop_component p (components src)"
proof (induction p n src rule: parse_into_loop.induct)
  case (1 p n src)
  define s where "s = dropWhile (\<lambda>c. c = CHR ''/'') src"
  show ?case
  proof (cases "s = []")
    case True
    then show ?thesis by (simp add: parse_into_loop.simps [of p n src] components.simps [of src] s_def Let_def)
  next
    case False
    then show ?thesis
      using "1.IH" [OF s_def _ refl refl]
      by (simp add: parse_into_loop.simps [of p n src] components.simps [of src] s_def [symmetric] Let_def
          split: option.splits)
  qed
qed

lemma components_slash [simp]: "components (CHR ''/'' # s) = components s"
  by (simp add: components.simps [of "CHR ''/'' # s"] components.simps [of s])

lemma parse_into_components [c_spec]:
  "ush_path_parse_into src p n = walk (\<lambda>p c. ush_path_push_component p n c) ush_path_pop_component p (components src)"
proof (cases src)
  case (Cons c s)
  then show ?thesis by (simp add: ush_path_parse_into_def parse_into_walk ch_at_def)
qed (simp add: ush_path_parse_into_def parse_into_walk)

lemma components_ok: "\<forall>c\<in>set (components s). c \<noteq> [] \<and> CHR ''/'' \<notin> set c"
proof (induction s rule: components.induct)
  case (1 s)
  define t where "t = dropWhile (\<lambda>c. c = CHR ''/'') s"
  show ?case
  proof (cases t)
    case Nil
    then show ?thesis by (simp add: components.simps [of s] t_def Let_def)
  next
    case (Cons c r)
    then have "c \<noteq> CHR ''/''" using hd_dropWhile [of "\<lambda>c. c = CHR ''/''" s] by (auto simp: t_def)
    moreover have "CHR ''/'' \<notin> set (takeWhile (\<lambda>c. c \<noteq> CHR ''/'') t)" by (auto dest: set_takeWhileD)
    ultimately show ?thesis using 1 [OF t_def] Cons
      by (simp add: components.simps [of s] t_def [symmetric] Let_def)
  qed
qed

lemma components_component:
  assumes "c \<noteq> []" "CHR ''/'' \<notin> set c"
  shows "components (c @ CHR ''/'' # s) = c # components (CHR ''/'' # s)" "components c = [c]"
proof -
  have n: "\<forall>x\<in>set c. x \<noteq> CHR ''/''" using assms(2) by auto
  have t: "takeWhile (\<lambda>x. x \<noteq> CHR ''/'') (c @ CHR ''/'' # s) = c"
    "dropWhile (\<lambda>x. x \<noteq> CHR ''/'') (c @ CHR ''/'' # s) = CHR ''/'' # s"
    using takeWhile_append_stop [OF n] dropWhile_append_stop [OF n] by simp_all
  have w: "dropWhile (\<lambda>x. x = CHR ''/'') (c @ u) = c @ u" for u
    using assms by (cases c) auto
  show "components (c @ CHR ''/'' # s) = c # components (CHR ''/'' # s)"
    using assms(1) by (subst components.simps) (simp only: w t Let_def append_is_Nil_conv if_False simp_thms)
  have t': "takeWhile (\<lambda>x. x \<noteq> CHR ''/'') c = c" "dropWhile (\<lambda>x. x \<noteq> CHR ''/'') c = []" using n by auto
  show "components c = [c]"
    using assms(1) w [of "[]"] by (subst components.simps) (simp add: t' components.simps [of "[]"])
qed

lemma components_render: "list_all plain st \<Longrightarrow> components (render st) = st"
proof (induction st)
  case Nil
  show ?case by (simp add: render_def components.simps [of "[]"])
next
  case (Cons c st)
  then have c: "c \<noteq> []" "CHR ''/'' \<notin> set c" by (auto simp: plain_def)
  show ?case
  proof (cases st)
    case Nil
    then show ?thesis using components_component(2) [OF c] by (simp add: render_def)
  next
    case (Cons d ds)
    then have "render (c # st) = CHR ''/'' # c @ CHR ''/'' # (d @ concat (map (\<lambda>c. CHR ''/'' # c) ds))"
      "CHR ''/'' # (d @ concat (map (\<lambda>c. CHR ''/'' # c) ds)) = render st"
      by (simp_all add: render_def)
    moreover have "components (render st) = st" using Cons.IH \<open>list_all plain (c # st)\<close> by simp
    ultimately show ?thesis using components_component(1) [OF c] by (metis components_slash)
  qed
qed

lemma normal_plain: "list_all plain cs \<Longrightarrow> normal st cs = st @ cs"
  by (induction cs arbitrary: st) (auto simp: enter_def plain_def)

text \<open>The components that a call resolves: those of the working directory first, unless the
  argument is absolute.\<close>

definition path_target :: "ush_state \<Rightarrow> string option \<Rightarrow> string list" where
  "path_target sh arg =
     (case arg of None \<Rightarrow> components (sh_cwd sh)
      | Some a \<Rightarrow> (if ch_at a 0 = CHR ''/'' then [] else components (sh_cwd sh)) @ components a)"

lemma resolve_walk:
  assumes "2 \<le> n"
  shows "ush_resolve_path sh arg n =
    walk (\<lambda>p c. ush_path_push_component p n c) ush_path_pop_component ''/'' (path_target sh arg)"
proof -
  have "components [] = []" by (simp add: components.simps [of "[]"])
  then show ?thesis using assms
    by (cases arg) (auto simp: ush_resolve_path_def path_target_def parse_into_components
        ush_path.walk_append split: option.splits)
qed

lemma path_rep_root: "2 \<le> n \<Longrightarrow> path_rep n ''/'' []"
  by (simp add: path_rep_def render_def)

lemma path_target_ok: "\<forall>c\<in>set (path_target sh arg). c \<noteq> [] \<and> CHR ''/'' \<notin> set c"
  using components_ok by (auto simp: path_target_def split: option.splits)

lemma resolve_path_spec [c_spec]:
  assumes "2 \<le> n"
  shows "(\<exists>p. ush_resolve_path sh arg n = Some p \<and> path_rep n p (normal [] (path_target sh arg))
      \<and> (\<forall>k. path_fits n (normal [] (take k (path_target sh arg)))))
    \<or> ush_resolve_path sh arg n = None \<and> (\<exists>k\<le>length (path_target sh arg). \<not> path_fits n (normal [] (take k (path_target sh arg))))"
  unfolding resolve_walk [OF assms]
  by (rule ush_path.walk_normal [OF path_rep_root [OF assms] path_target_ok])

lemma resolve_path_small: "n < 2 \<Longrightarrow> ush_resolve_path sh arg n = None"
  by (simp add: ush_resolve_path_def)

lemma resolve_path_Some:
  assumes "ush_resolve_path sh arg n = Some p"
  shows "p = render (normal [] (path_target sh arg))" "list_all plain (normal [] (path_target sh arg))"
    "length p < n" "2 \<le> n"
proof -
  show n: "2 \<le> n" using assms resolve_path_small [of n sh arg] by (cases "2 \<le> n") auto
  show "p = render (normal [] (path_target sh arg))" "list_all plain (normal [] (path_target sh arg))"
    "length p < n"
    using resolve_path_spec [OF n, of sh arg] assms by (auto simp: path_rep_def)
qed

lemma under_system_iff [c_spec]:
  assumes "NUL \<notin> set p"
  shows "ush_path_is_under_system (Some p) \<longleftrightarrow> p = ''/system'' \<or> (\<exists>r. p = ''/system/'' @ r)"
proof -
  have "NUL \<notin> set (take 7 p)" using assms by (rule set_take_notin)
  moreover have "NUL \<notin> set ''/system''" by simp
  ultimately have "s_strncmp p ''/system'' 7 = 0 \<longleftrightarrow> take 7 p = ''/system''"
    by (simp add: s_strncmp_def s_strcmp_zero_iff)
  moreover have "take 7 p = ''/system'' \<and> (ch_at p 7 = NUL \<or> ch_at p 7 = CHR ''/'') \<longleftrightarrow>
      p = ''/system'' \<or> (\<exists>r. p = ''/system/'' @ r)"
  proof
    assume a: "take 7 p = ''/system'' \<and> (ch_at p 7 = NUL \<or> ch_at p 7 = CHR ''/'')"
    have p: "p = ''/system'' @ drop 7 p" using a append_take_drop_id [of 7 p] by simp
    have l: "7 \<le> length p" using arg_cong [OF p, of length] by simp
    show "p = ''/system'' \<or> (\<exists>r. p = ''/system/'' @ r)"
    proof (cases "drop 7 p")
      case (Cons c r)
      then have "ch_at p 7 = c" by (metis ch_at_0_Cons ch_at_drop add_0_right)
      moreover have "c \<noteq> NUL" using assms p Cons by (metis in_set_conv_decomp_first list.set_intros(1) in_set_dropD)
      ultimately show ?thesis using a p Cons by auto
    qed (use p in simp)
  next
    assume "p = ''/system'' \<or> (\<exists>r. p = ''/system/'' @ r)"
    then show "take 7 p = ''/system'' \<and> (ch_at p 7 = NUL \<or> ch_at p 7 = CHR ''/'')"
      by (auto simp: ch_at_def)
  qed
  ultimately show ?thesis by (simp add: ush_path_is_under_system_def)
qed

section \<open>Properties\<close>

text \<open>C4. A resolved path is the normal form of the working directory (for a relative argument)
  followed by the argument: components in order, \<open>.\<close> dropped, \<open>..\<close> removing the component before it
  and never leaving the root, no empty component, and it fits in the output buffer.\<close>

theorem resolve_path_normalises:
  "ush_resolve_path sh arg n = Some p \<Longrightarrow>
     p = render (normal [] (path_target sh arg)) \<and> components p = normal [] (path_target sh arg)
     \<and> list_all plain (components p) \<and> length p < n"
  using resolve_path_Some [of sh arg n p] by (auto simp: components_render)

theorem resolve_path_normalises_witness:
  "\<exists>p. ush_resolve_path (ush_init_state\<lparr>sh_cwd := ''/a/b''\<rparr>) (Some ''../c/./d'') 192 = Some p
     \<and> components p = [''a'', ''c'', ''d'']"
proof -
  have p: "ush_resolve_path (ush_init_state\<lparr>sh_cwd := ''/a/b''\<rparr>) (Some ''../c/./d'') 192 = Some ''/a/c/d''"
    by code_simp
  have "normal [] (path_target (ush_init_state\<lparr>sh_cwd := ''/a/b''\<rparr>) (Some ''../c/./d'')) = [''a'', ''c'', ''d'']"
    by code_simp
  then show ?thesis using p resolve_path_normalises [OF p] by metis
qed

text \<open>Resolution fails only for lack of room: with a buffer of at least two bytes it fails exactly
  when some prefix of the components normalises to a path that does not fit.\<close>

theorem resolve_path_fails_iff_too_long:
  "2 \<le> n \<Longrightarrow> (ush_resolve_path sh arg n = None) =
     (\<exists>k. n \<le> length (render (normal [] (take k (path_target sh arg)))))"
  using resolve_path_spec [of n sh arg] unfolding path_fits_def by (metis not_less option.distinct(1))

theorem resolve_path_fails_iff_too_long_witness:
  "ush_resolve_path ush_init_state (Some ''/abc/..'') 4 = None"
proof -
  have "4 \<le> length (render (normal [] (take 1 (path_target ush_init_state (Some ''/abc/..'')))))"
    by code_simp
  then show ?thesis using resolve_path_fails_iff_too_long [of 4 ush_init_state "Some ''/abc/..''"] by auto
qed

text \<open>Resolution is idempotent: resolving a resolved path again, from any working directory,
  returns it unchanged.\<close>

theorem resolve_path_idempotent:
  assumes "ush_resolve_path sh arg n = Some p"
  shows "ush_resolve_path sh' (Some p) n = Some p"
proof -
  define st where "st = normal [] (path_target sh arg)"
  have p: "p = render st" "list_all plain st" "length p < n" "2 \<le> n"
    using resolve_path_Some [OF assms] by (simp_all add: st_def)
  have "ch_at p 0 = CHR ''/''" using p(1) by (cases st) (auto simp: render_def)
  then have t: "path_target sh' (Some p) = st" using p by (simp add: path_target_def components_render)
  have fit: "path_fits n (normal [] (take k st))" for k
  proof -
    have "list_all plain (take k st)" using p(2) by (metis append_take_drop_id list_all_append)
    then have "normal [] (take k st) = take k st" by (simp add: normal_plain)
    moreover have "length (render (take k st)) \<le> length (render st)"
    proof -
      have "length (concat (map (\<lambda>c. CHR ''/'' # c) (take k st))) \<le> length (concat (map (\<lambda>c. CHR ''/'' # c) st))"
        by (metis append_take_drop_id concat_append le_add1 length_append map_append)
      moreover have "1 \<le> length (render st)" by (cases st) (auto simp: render_def)
      ultimately show ?thesis by (auto simp: render_def)
    qed
    ultimately show ?thesis using p by (simp add: path_fits_def)
  qed
  show ?thesis
    using resolve_path_spec [OF p(4), of sh' "Some p"] fit normal_plain [OF p(2), of "[]"] p(1)
    unfolding t by (auto simp: path_rep_def)
qed

theorem resolve_path_idempotent_witness:
  "ush_resolve_path (ush_init_state\<lparr>sh_cwd := ''/x''\<rparr>) (Some ''/a/c'') 192 = Some ''/a/c''"
proof -
  have "ush_resolve_path ush_init_state (Some ''a/b/../c'') 192 = Some ''/a/c''" by code_simp
  then show ?thesis by (rule resolve_path_idempotent)
qed

end
