(* ===== verification/CmdRuntime.thy ===== *)
theory CmdRuntime
  imports UshPath
begin

text \<open>
  The part of \<open>cleonos/c/apps/cmd_runtime.c\<close> that talks to the system, and the \<open>cleonos_app_main\<close>
  that the commands share. The kernel is a parameter: a record of the system calls that the
  commands use, over a kernel state of any type. A read returns the bytes that it stored in the
  caller's buffer (the count is their number). The world of a process is the kernel state, the
  bytes written to the terminal (descriptor 1), the cached locale and the pipeline input.
\<close>

section \<open>The system calls and the world\<close>

record 'k kernel =
  k_fs_stat_type :: "'k \<Rightarrow> string \<Rightarrow> nat"
  k_fs_stat_size :: "'k \<Rightarrow> string \<Rightarrow> nat"
  k_fs_read :: "'k \<Rightarrow> string \<Rightarrow> nat \<Rightarrow> string"
  k_fs_write :: "'k \<Rightarrow> string \<Rightarrow> string \<Rightarrow> 'k \<times> nat"
  k_fd_read :: "'k \<Rightarrow> nat \<Rightarrow> nat \<Rightarrow> 'k \<times> string option"
  k_locale_get :: "'k \<Rightarrow> nat \<Rightarrow> string"
  k_disk_present :: "'k \<Rightarrow> nat"
  k_disk_sector_count :: "'k \<Rightarrow> nat"
  k_disk_read_sector :: "'k \<Rightarrow> nat \<Rightarrow> string option"
  k_disk_write_sector :: "'k \<Rightarrow> nat \<Rightarrow> string \<Rightarrow> 'k \<times> nat"

record 'k world =
  w_k :: 'k
  w_out :: string
  w_locale :: "bool option"
  w_pipe :: "string option"

section \<open>Output\<close>

definition emit :: "string \<Rightarrow> 'k world \<Rightarrow> 'k world" where
  "emit s w = w\<lparr>w_out := w_out w @ s\<rparr>"

definition ush_write :: "string option \<Rightarrow> 'k world \<Rightarrow> 'k world" where
  "ush_write text w = (case text of None \<Rightarrow> w | Some t \<Rightarrow> emit t w)"

definition ush_write_char :: "char \<Rightarrow> 'k world \<Rightarrow> 'k world" where
  "ush_write_char ch w = emit [ch] w"

definition newline :: char where "newline = CHR 0x0A"

definition ush_writeln :: "string option \<Rightarrow> 'k world \<Rightarrow> 'k world" where
  "ush_writeln text w = ush_write_char newline (ush_write text w)"

definition ush_write_hex_u64 :: "u64 \<Rightarrow> 'k world \<Rightarrow> 'k world" where
  "ush_write_hex_u64 v w = emit (u64_hex v) w"

definition ush_write_u64_dec :: "nat \<Rightarrow> 'k world \<Rightarrow> 'k world" where
  "ush_write_u64_dec v w = emit (u64_dec v) w"

definition ush_write_human_bytes :: "nat \<Rightarrow> 'k world \<Rightarrow> 'k world" where
  "ush_write_human_bytes bytes w = emit (human_text bytes) w"

definition ush_print_kv_hex :: "string option \<Rightarrow> u64 \<Rightarrow> 'k world \<Rightarrow> 'k world" where
  "ush_print_kv_hex label v w =
     ush_write_char newline (ush_write_hex_u64 v (ush_write (Some '': '') (ush_write label w)))"

definition ush_print_kv_dec :: "string option \<Rightarrow> nat \<Rightarrow> 'k world \<Rightarrow> 'k world" where
  "ush_print_kv_dec label v w =
     ush_write_char newline (ush_write_u64_dec v (ush_write (Some '': '') (ush_write label w)))"

definition ush_print_kv_bytes :: "string option \<Rightarrow> nat \<Rightarrow> 'k world \<Rightarrow> 'k world" where
  "ush_print_kv_bytes label bytes w =
     (let w = ush_write label w; w = ush_write (Some '': '') w; w = ush_write_human_bytes bytes w;
          w = ush_write (Some '' ('') w; w = ush_write_u64_dec bytes w
      in ush_writeln (Some '' bytes)'') w)"

section \<open>Locale\<close>

definition CLEONOS_LOCALE_TEXT_MAX :: nat where "CLEONOS_LOCALE_TEXT_MAX = 32"

text \<open>The first answer is cached; no bytes read counts as not Chinese. The buffer is zeroed before
  the call.\<close>

definition ush_locale_is_zh :: "'k kernel \<Rightarrow> 'k world \<Rightarrow> 'k world \<times> bool" where
  "ush_locale_is_zh K w =
     (case w_locale w of
        Some zh \<Rightarrow> (w, zh)
      | None \<Rightarrow>
        (let t = k_locale_get K (w_k w) CLEONOS_LOCALE_TEXT_MAX;
             zh = (t \<noteq> [] \<and> ch_at t 0 = CHR ''z'' \<and> ch_at t 1 = CHR ''h'' \<and>
                   (ch_at t 2 = NUL \<or> ch_at t 2 = CHR ''_'' \<or> ch_at t 2 = CHR ''-'' \<or> ch_at t 2 = CHR ''.''))
         in (w\<lparr>w_locale := Some zh\<rparr>, zh)))"

definition ush_write_i18n_label :: "'k kernel \<Rightarrow> string option \<Rightarrow> string option \<Rightarrow> 'k world \<Rightarrow> 'k world" where
  "ush_write_i18n_label K en zh w =
     (let (w, is_zh) = ush_locale_is_zh K w in
      if is_zh \<and> zh \<noteq> None \<and> zh \<noteq> Some []
      then (let w = (case en of None \<Rightarrow> w | Some e \<Rightarrow> emit (takeWhile (\<lambda>c. c = CHR '' '') e) w)
            in ush_write (map_option (dropWhile (\<lambda>c. c = CHR '' '')) zh) w)
      else ush_write en w)"

definition ush_writeln_i18n :: "'k kernel \<Rightarrow> string \<Rightarrow> string \<Rightarrow> 'k world \<Rightarrow> 'k world" where
  "ush_writeln_i18n K en zh w = ush_write_char newline (ush_write_i18n_label K (Some en) (Some zh) w)"

definition ush_print_kv_hex_i18n :: "'k kernel \<Rightarrow> string option \<Rightarrow> string option \<Rightarrow> u64 \<Rightarrow> 'k world \<Rightarrow> 'k world" where
  "ush_print_kv_hex_i18n K en zh v w =
     ush_write_char newline (ush_write_hex_u64 v (ush_write (Some '': '') (ush_write_i18n_label K en zh w)))"

definition ush_print_kv_dec_i18n :: "'k kernel \<Rightarrow> string option \<Rightarrow> string option \<Rightarrow> nat \<Rightarrow> 'k world \<Rightarrow> 'k world" where
  "ush_print_kv_dec_i18n K en zh v w =
     ush_write_char newline (ush_write_u64_dec v (ush_write (Some '': '') (ush_write_i18n_label K en zh w)))"

definition ush_print_kv_bytes_i18n :: "'k kernel \<Rightarrow> string option \<Rightarrow> string option \<Rightarrow> nat \<Rightarrow> 'k world \<Rightarrow> 'k world" where
  "ush_print_kv_bytes_i18n K en zh bytes w =
     (let w = ush_write_i18n_label K en zh w; w = ush_write (Some '': '') w;
          w = ush_write_human_bytes bytes w; w = ush_write (Some '' ('') w; w = ush_write_u64_dec bytes w
      in ush_writeln (Some '' bytes)'') w)"

section \<open>Names of states and signals\<close>

definition ush_proc_state_name :: "nat \<Rightarrow> string" where
  "ush_proc_state_name state =
     (if state = 1 then ''pending'' else if state = 2 then ''running'' else if state = 4 then ''stopped''
      else if state = 3 then ''exited'' else if state = 0 then ''unused'' else ''unknown'')"

definition ush_thread_state_name :: "nat \<Rightarrow> string" where
  "ush_thread_state_name state =
     (if state = 1 then ''ready'' else if state = 2 then ''running'' else if state = 3 then ''blocked''
      else if state = 4 then ''sleeping'' else if state = 5 then ''stopped'' else if state = 6 then ''zombie''
      else ''none'')"

definition ush_block_reason_name :: "nat \<Rightarrow> string" where
  "ush_block_reason_name reason =
     (if reason = 1 then ''waiting for tty input'' else if reason = 2 then ''waiting for pty input''
      else if reason = 3 then ''sleeping'' else if reason = 4 then ''waiting for child process''
      else if reason = 5 then ''yielded'' else if reason = 6 then ''waiting for I/O'' else ''not blocked'')"

definition ush_signal_name :: "nat \<Rightarrow> string" where
  "ush_signal_name signal =
     (if signal = 9 then ''KILL'' else if signal = 15 then ''TERM'' else if signal = 18 then ''CONT''
      else if signal = 19 then ''STOP'' else ''UNKNOWN'')"

definition ush_print_exit_status_i18n ::
    "'k kernel \<Rightarrow> string option \<Rightarrow> string option \<Rightarrow> u64 \<Rightarrow> 'k world \<Rightarrow> 'k world" where
  "ush_print_exit_status_i18n K prefix_en prefix_zh status w =
     (let w = (if prefix_en \<noteq> None \<or> prefix_zh \<noteq> None
               then ush_write (Some '': '')
                      (ush_write_i18n_label K (Some (case prefix_en of None \<Rightarrow> [] | Some p \<Rightarrow> p)) prefix_zh w)
               else w)
      in if status AND push_bit 63 1 \<noteq> 0
      then (let signal = unat (status AND 0xFF);
                vector = unat (drop_bit 8 status AND 0xFF);
                error = unat (drop_bit 16 status AND 0xFFFF);
                w = ush_write_i18n_label K (Some ''terminated by signal'') (Some (utf8 [0x88AB, 0x4FE1, 0x53F7, 0x7EC8, 0x6B62])) w;
                w = ush_write (Some '' '') w;
                w = ush_write (Some (ush_signal_name signal)) w;
                w = ush_write (Some '' ('') w;
                w = ush_write_u64_dec signal w;
                w = ush_write (Some ''), '') w;
                w = ush_write_i18n_label K (Some ''exception vector'') (Some (utf8 [0x5F02, 0x5E38, 0x5411, 0x91CF])) w;
                w = ush_write (Some '' '') w;
                w = ush_write_u64_dec vector w;
                w = ush_write (Some '', '') w;
                w = ush_write_i18n_label K (Some ''error'') (Some (utf8 [0x9519, 0x8BEF, 0x7801])) w;
                w = ush_write (Some '' '') w;
                w = ush_write_u64_dec error w
            in ush_write_char newline w)
      else (let w = ush_write_i18n_label K (Some ''exit code'') (Some (utf8 [0x9000, 0x51FA, 0x7801])) w;
                w = ush_write (Some '' '') w;
                w = ush_write_u64_dec (unat status) w
            in ush_write_char newline w))"

section \<open>Pipeline input\<close>

definition ush_cmd_runtime_stdin_pipe_enabled :: "string list option \<Rightarrow> bool" where
  "ush_cmd_runtime_stdin_pipe_enabled envp =
     (case envp of None \<Rightarrow> False
      | Some es \<Rightarrow> list_ex (\<lambda>e. ush_cmd_runtime_has_prefix (Some e) (Some ''USH_STDIN_MODE=PIPE'')) es)"

text \<open>The read loop: it ends when a read fails or returns nothing. Once the buffer is full, further
  input is read into a scratch buffer and dropped. A system that never stops delivering input keeps
  the loop running (\<open>None\<close>).\<close>

partial_function (option) capture_loop ::
    "'k kernel \<Rightarrow> 'k \<Rightarrow> string \<Rightarrow> bool \<Rightarrow> ('k \<times> string \<times> bool) option" where
  "capture_loop K k buf truncated =
     (let full = \<not> length buf < USH_COPY_MAX;
          (k, got) = k_fd_read K k 0 (if full then 256 else USH_COPY_MAX - length buf);
          truncated = (truncated \<or> full)
      in case got of
           None \<Rightarrow> Some (k, buf, truncated)
         | Some bytes \<Rightarrow>
             if bytes = [] then Some (k, buf, truncated)
             else capture_loop K k (if full then buf else buf @ bytes) truncated)"

definition ush_cmd_runtime_capture_stdin_pipe :: "'k kernel \<Rightarrow> 'k world \<Rightarrow> 'k world option" where
  "ush_cmd_runtime_capture_stdin_pipe K w =
     (case capture_loop K (w_k w) [] False of
        None \<Rightarrow> None
      | Some (k, buf, truncated) \<Rightarrow>
          (let w = w\<lparr>w_k := k, w_pipe := Some buf\<rparr>
           in Some (if truncated then ush_writeln (Some ''[pipe] input truncated'') w else w)))"

definition cleonos_cmd_runtime_pre_main :: "'k kernel \<Rightarrow> string list option \<Rightarrow> 'k world \<Rightarrow> 'k world option" where
  "cleonos_cmd_runtime_pre_main K envp w =
     (let w = w\<lparr>w_pipe := None\<rparr>
      in if ush_cmd_runtime_stdin_pipe_enabled envp then ush_cmd_runtime_capture_stdin_pipe K w else Some w)"

section \<open>Finding programs\<close>

text \<open>\<open>candidate[cursor++] = ...\<close> with the check \<open>cursor + 1 >= sizeof(candidate)\<close> before it.\<close>

fun append_checked :: "string \<Rightarrow> nat \<Rightarrow> string \<Rightarrow> string option" where
  "append_checked buf sz [] = Some buf"
| "append_checked buf sz (c # cs) =
     (if sz \<le> length buf + 1 then None else append_checked (buf @ [c]) sz cs)"

definition exec_dirs :: "string list" where
  "exec_dirs = [''/shell/apps/'', ''/shell/apps/uwm/'', ''/shell/apps/inputm/'']"

definition exec_candidate :: "string \<Rightarrow> string \<Rightarrow> string option" where
  "exec_candidate dir arg =
     (if USH_PATH_MAX \<le> length dir + 1 then None
      else (case append_checked dir USH_PATH_MAX arg of
          None \<Rightarrow> None
        | Some candidate \<Rightarrow>
            if \<not> ush_has_suffix (Some candidate) (Some ''.elf'')
            then append_checked candidate USH_PATH_MAX ''.elf''
            else Some candidate))"

fun exec_search :: "'k kernel \<Rightarrow> 'k \<Rightarrow> string \<Rightarrow> nat \<Rightarrow> string \<Rightarrow> nat \<Rightarrow> string list \<Rightarrow> string option" where
  "exec_search K k arg out_size fallback dir_index [] = Some (ush_copy [] out_size (Some fallback))"
| "exec_search K k arg out_size fallback dir_index (dir # dirs) =
     (case exec_candidate dir arg of
        None \<Rightarrow> None
      | Some candidate \<Rightarrow>
          (let fallback = (if dir_index = 0 then ush_copy fallback USH_PATH_MAX (Some candidate) else fallback)
           in if k_fs_stat_type K k candidate = 1 then Some (ush_copy [] out_size (Some candidate))
              else exec_search K k arg out_size fallback (dir_index + 1) dirs))"

definition ush_resolve_exec_path ::
    "'k kernel \<Rightarrow> 'k \<Rightarrow> ush_state \<Rightarrow> string option \<Rightarrow> nat \<Rightarrow> string option" where
  "ush_resolve_exec_path K k sh arg out_size =
     (case arg of None \<Rightarrow> None
      | Some a \<Rightarrow>
        if out_size = 0 then None
        else if a = [] then None
        else if ch_at a 0 \<noteq> CHR ''/'' \<and> \<not> ush_contains_char (Some a) (CHR ''/'')
        then exec_search K k a out_size [] 0 exec_dirs
        else (case (if ch_at a 0 = CHR ''/'' then Some (ush_copy [] out_size (Some a))
                    else ush_resolve_path sh (Some a) out_size) of
            None \<Rightarrow> None
          | Some out_path \<Rightarrow>
              if \<not> ush_has_suffix (Some out_path) (Some ''.elf'')
              then append_checked out_path out_size ''.elf''
              else Some out_path))"

section \<open>Command context and result\<close>

text \<open>The three arrays of \<open>ush_cmd_ctx\<close> lie behind each other in the file; a field without a NUL runs
  on into the next one.\<close>

record ush_cmd_ctx =
  ctx_cmd :: string
  ctx_arg :: string
  ctx_cwd :: string

definition cstr_in :: "nat \<Rightarrow> string \<Rightarrow> string" where
  "cstr_in off raw = takeWhile (\<lambda>c. c \<noteq> NUL) (drop off raw)"

definition ctx_of_bytes :: "string \<Rightarrow> ush_cmd_ctx" where
  "ctx_of_bytes raw =
     \<lparr>ctx_cmd = cstr_in 0 raw, ctx_arg = cstr_in USH_CMD_MAX raw,
      ctx_cwd = cstr_in (USH_CMD_MAX + USH_ARG_MAX) raw\<rparr>"

definition sizeof_ctx :: nat where "sizeof_ctx = USH_CMD_MAX + USH_ARG_MAX + USH_PATH_MAX"

definition ush_command_ctx_read :: "'k kernel \<Rightarrow> 'k world \<Rightarrow> ush_cmd_ctx option" where
  "ush_command_ctx_read K w =
     (let raw = k_fs_read K (w_k w) ''/temp/.ush_cmd_ctx.bin'' sizeof_ctx
      in if length raw = sizeof_ctx then Some (ctx_of_bytes raw) else None)"

record ush_cmd_ret =
  ret_flags :: nat
  ret_exit_code :: nat
  ret_cwd :: string

definition USH_CMD_RET_FLAG_CWD :: nat where "USH_CMD_RET_FLAG_CWD = 1"
definition USH_CMD_RET_FLAG_EXIT :: nat where "USH_CMD_RET_FLAG_EXIT = 2"

text \<open>Little-endian bytes, as the structures are laid out in memory.\<close>

primrec le_bytes :: "nat \<Rightarrow> nat \<Rightarrow> string" where
  "le_bytes 0 v = []"
| "le_bytes (Suc n) v = char_of (v mod 256) # le_bytes n (v div 256)"

primrec le_value :: "string \<Rightarrow> nat" where
  "le_value [] = 0"
| "le_value (c # cs) = of_char c + 256 * le_value cs"

definition ret_bytes :: "ush_cmd_ret \<Rightarrow> string" where
  "ret_bytes r = le_bytes 8 (ret_flags r) @ le_bytes 8 (ret_exit_code r) @
     ret_cwd r @ replicate (USH_PATH_MAX - length (ret_cwd r)) NUL"

definition ush_command_ret_write :: "'k kernel \<Rightarrow> ush_cmd_ret \<Rightarrow> 'k world \<Rightarrow> 'k world \<times> bool" where
  "ush_command_ret_write K r w =
     (let (k, n) = k_fs_write K (w_k w) ''/temp/.ush_cmd_ret.bin'' (ret_bytes r)
      in (w\<lparr>w_k := k\<rparr>, n \<noteq> 0))"

section \<open>The main function of a command\<close>

text \<open>\<open>cleonos_app_main\<close> is the same code in every command, around its own \<open>ush_cmd_...\<close>: the context
  file is used when it names this command, and the result is reported when it was.\<close>

type_synonym 'k command = "ush_state \<Rightarrow> string \<Rightarrow> 'k world \<Rightarrow> 'k world \<times> ush_state \<times> bool"

definition app_context :: "'k kernel \<Rightarrow> string \<Rightarrow> 'k world \<Rightarrow> bool \<times> string \<times> ush_state" where
  "app_context K name w =
     (case ush_command_ctx_read K w of
        None \<Rightarrow> (False, [], ush_init_state)
      | Some ctx \<Rightarrow>
          if ctx_cmd ctx \<noteq> [] \<and> ush_streq (Some (ctx_cmd ctx)) (Some name)
          then (True, ctx_arg ctx,
                if ch_at (ctx_cwd ctx) 0 = CHR ''/''
                then ush_init_state\<lparr>sh_cwd := ush_copy (sh_cwd ush_init_state) USH_PATH_MAX (Some (ctx_cwd ctx))\<rparr>
                else ush_init_state)
          else (False, [], ush_init_state))"

definition app_result :: "ush_state \<Rightarrow> string \<Rightarrow> ush_cmd_ret" where
  "app_result sh initial_cwd =
     (let ret = \<lparr>ret_flags = 0, ret_exit_code = 0, ret_cwd = []\<rparr>;
          ret = (if \<not> ush_streq (Some (sh_cwd sh)) (Some initial_cwd)
                 then ret\<lparr>ret_flags := ret_flags ret OR USH_CMD_RET_FLAG_CWD,
                          ret_cwd := ush_copy (ret_cwd ret) USH_PATH_MAX (Some (sh_cwd sh))\<rparr>
                 else ret)
      in if sh_exit_requested sh
         then ret\<lparr>ret_flags := ret_flags ret OR USH_CMD_RET_FLAG_EXIT, ret_exit_code := sh_exit_code sh\<rparr>
         else ret)"

definition app_main :: "'k kernel \<Rightarrow> string \<Rightarrow> 'k command \<Rightarrow> 'k world \<Rightarrow> 'k world \<times> int" where
  "app_main K name cmd w =
     (let (has_context, arg, sh) = app_context K name w;
          initial_cwd = sh_cwd sh;
          (w, sh, success) = cmd sh arg w;
          w = (if has_context then fst (ush_command_ret_write K (app_result sh initial_cwd) w) else w)
      in (w, if success then 0 else 1))"

section \<open>Pipeline input is captured\<close>

text \<open>What the kernel promises for descriptor 0: \<open>inp k\<close> is the input not read yet, and a read of
  \<open>n > 0\<close> bytes takes at most \<open>n\<close> bytes off its front, none only at the end of the input.\<close>

definition stream_source :: "'k kernel \<Rightarrow> ('k \<Rightarrow> string) \<Rightarrow> bool" where
  "stream_source K inp \<longleftrightarrow> (\<forall>k n. 0 < n \<longrightarrow> (\<exists>k' b. k_fd_read K k 0 n = (k', Some b) \<and>
     inp k = b @ inp k' \<and> length b \<le> n \<and> (b = [] \<longrightarrow> inp k = [])))"

lemma capture_loop_spec [c_spec]:
  assumes src: "stream_source K inp" and "length buf \<le> USH_COPY_MAX"
  shows "\<exists>k'. capture_loop K k buf tr =
    Some (k', take USH_COPY_MAX (buf @ inp k), tr \<or> USH_COPY_MAX \<le> length (buf @ inp k))"
  using assms(2)
proof (induction "length (inp k)" arbitrary: k buf tr rule: less_induct)
  case less
  define full where "full = (\<not> length buf < USH_COPY_MAX)"
  define n where "n = (if full then 256 else USH_COPY_MAX - length buf)"
  have "0 < n" by (auto simp: n_def full_def)
  then obtain k' b where r: "k_fd_read K k 0 n = (k', Some b)" "inp k = b @ inp k'" "length b \<le> n"
    "b = [] \<longrightarrow> inp k = []"
    using src unfolding stream_source_def by blast
  have step: "capture_loop K k buf tr = (if b = [] then Some (k', buf, tr \<or> full)
      else capture_loop K k' (if full then buf else buf @ b) (tr \<or> full))"
    by (subst capture_loop.simps) (simp add: Let_def full_def [symmetric] n_def [symmetric] r(1))
  show ?case
  proof (cases "b = []")
    case True
    then have "inp k = []" using r(4) by simp
    then show ?thesis using True step less.prems by (simp add: full_def not_less)
  next
    case False
    then have "length (inp k') < length (inp k)" using r(2) by (cases b) auto
    moreover have "length (if full then buf else buf @ b) \<le> USH_COPY_MAX"
      using less.prems r(3) by (auto simp: n_def full_def)
    ultimately obtain k'' where "capture_loop K k' (if full then buf else buf @ b) (tr \<or> full) =
        Some (k'', take USH_COPY_MAX ((if full then buf else buf @ b) @ inp k'),
          (tr \<or> full) \<or> USH_COPY_MAX \<le> length ((if full then buf else buf @ b) @ inp k'))"
      using less.hyps by blast
    then show ?thesis using False step r(2) less.prems by (cases full) (auto simp: full_def)
  qed
qed

section \<open>Programs are found\<close>

lemma append_checked_spec [c_spec]:
  "append_checked buf sz s = (if s = [] \<or> length buf + length s < sz then Some (buf @ s) else None)"
  by (induction buf sz s rule: append_checked.induct) auto

definition elf_name :: "string \<Rightarrow> string" where
  "elf_name a = (if \<exists>b. a = b @ ''.elf'' then a else a @ ''.elf'')"

lemma suffix_after_slash:
  assumes "CHR ''/'' \<notin> set t"
  shows "(\<exists>b. d @ ''/'' @ a = b @ t) \<longleftrightarrow> (\<exists>b. a = b @ t)"
proof
  assume "\<exists>b. d @ ''/'' @ a = b @ t"
  then obtain b where b: "(d @ ''/'') @ a = b @ t" by auto
  show "\<exists>b. a = b @ t"
  proof -
    from b obtain us where "d @ ''/'' = b @ us \<and> us @ a = t \<or> (d @ ''/'') @ us = b \<and> a = us @ t"
      unfolding append_eq_append_conv2 [of "d @ ''/''" a b t] ..
    then show ?thesis
    proof
      assume u: "d @ ''/'' = b @ us \<and> us @ a = t"
      then have "us = [] \<or> last us = CHR ''/''" by (metis last_appendR last_snoc)
      then have "us = []" using u assms by (metis Un_iff last_in_set set_append)
      with u show ?thesis by auto
    qed auto
  qed
next
  assume "\<exists>b. a = b @ t"
  then obtain b where "a = b @ t" ..
  then have "d @ ''/'' @ a = (d @ ''/'' @ b) @ t" by simp
  then show "\<exists>b. d @ ''/'' @ a = b @ t" ..
qed

lemma exec_candidate_spec [c_spec]:
  assumes "NUL \<notin> set a" "NUL \<notin> set d" "length d + 1 + length (elf_name a) < USH_PATH_MAX" "a \<noteq> []"
  shows "exec_candidate (d @ ''/'') a = Some (d @ ''/'' @ elf_name a)"
proof -
  have l: "length a \<le> length (elf_name a)" by (simp add: elf_name_def)
  have "ush_has_suffix (Some (d @ ''/'' @ a)) (Some ''.elf'') \<longleftrightarrow> (\<exists>b. a = b @ ''.elf'')"
    using assms(1,2) suffix_after_slash [of "''.elf''" d a] by (simp add: ush_has_suffix_iff)
  then show ?thesis using assms(3,4) l
    by (auto simp: exec_candidate_def append_checked_spec elf_name_def)
qed

lemma contains_slash: "ush_contains_char (Some a) (CHR ''/'') \<longleftrightarrow> CHR ''/'' \<in> set a"
  by (simp add: ush_contains_char_def)

lemma resolve_exec_path_spec [c_spec]:
  assumes "NUL \<notin> set a" "CHR ''/'' \<notin> set a" "a \<noteq> []" "length (elf_name a) < 173"
  shows "ush_resolve_exec_path K k sh (Some a) USH_PATH_MAX =
    Some ((case find (\<lambda>d. k_fs_stat_type K k (d @ elf_name a) = 1) exec_dirs of
             None \<Rightarrow> ''/shell/apps/'' | Some d \<Rightarrow> d) @ elf_name a)"
proof -
  have n: "NUL \<notin> set (elf_name a)" using assms(1) by (simp add: elf_name_def)
  have c: "exec_candidate ''/shell/apps/'' a = Some (''/shell/apps/'' @ elf_name a)"
    "exec_candidate ''/shell/apps/uwm/'' a = Some (''/shell/apps/uwm/'' @ elf_name a)"
    "exec_candidate ''/shell/apps/inputm/'' a = Some (''/shell/apps/inputm/'' @ elf_name a)"
    using exec_candidate_spec [of a "''/shell/apps''"] exec_candidate_spec [of a "''/shell/apps/uwm''"]
      exec_candidate_spec [of a "''/shell/apps/inputm''"] assms by (simp_all add: USH_PATH_MAX_def)
  have cp: "ush_copy [] USH_PATH_MAX (Some s) = s" if "NUL \<notin> set s" "length s < USH_PATH_MAX" for s
    using that by (simp add: ush_copy_take USH_PATH_MAX_def)
  have cp': "ush_copy [] USH_PATH_MAX (Some (d @ elf_name a)) = d @ elf_name a" if "d \<in> set exec_dirs" for d
    using that n assms(4) by (intro cp) (auto simp: exec_dirs_def USH_PATH_MAX_def)
  note cps = cp' [of "''/shell/apps/''"] cp' [of "''/shell/apps/uwm/''"] cp' [of "''/shell/apps/inputm/''"]
  have s: "ch_at a 0 \<noteq> CHR ''/''" using assms(2,3) by (cases a) auto
  show ?thesis
    unfolding ush_resolve_exec_path_def option.case contains_slash
    using assms(2,3) s c cps by (simp add: exec_dirs_def USH_PATH_MAX_def)
qed

section \<open>Layout of context and result\<close>

lemma length_le_bytes [simp]: "length (le_bytes n v) = n"
  by (induction n arbitrary: v) auto

lemma le_value_bytes [c_spec]: "v < 256 ^ n \<Longrightarrow> le_value (le_bytes n v) = v"
proof (induction n arbitrary: v)
  case (Suc n)
  then have "v div 256 < 256 ^ n" by (simp add: less_mult_imp_div_less mult.commute)
  then show ?case using Suc.IH by (simp add: of_char_of)
qed simp

definition field :: "nat \<Rightarrow> string \<Rightarrow> string" where
  "field n s = s @ replicate (n - length s) NUL"

lemma length_field: "length s \<le> n \<Longrightarrow> length (field n s) = n"
  by (simp add: field_def)

lemma takeWhile_field:
  assumes "NUL \<notin> set s" "length s < n"
  shows "takeWhile (\<lambda>c. c \<noteq> NUL) (field n s @ r) = s"
proof -
  have "\<forall>c\<in>set s. c \<noteq> NUL" using assms(1) by auto
  moreover obtain k where "n - length s = Suc k" using assms(2) by (cases "n - length s") auto
  ultimately show ?thesis by (simp add: field_def takeWhile_append_stop)
qed

lemma ctx_of_fields [c_spec]:
  assumes "NUL \<notin> set a" "length a < USH_CMD_MAX" "NUL \<notin> set b" "length b < USH_ARG_MAX"
    "NUL \<notin> set c" "length c < USH_PATH_MAX"
  shows "ctx_of_bytes (field USH_CMD_MAX a @ field USH_ARG_MAX b @ field USH_PATH_MAX c) =
    \<lparr>ctx_cmd = a, ctx_arg = b, ctx_cwd = c\<rparr>"
proof -
  have l: "length (field USH_CMD_MAX a) = USH_CMD_MAX" "length (field USH_ARG_MAX b) = USH_ARG_MAX"
    using assms by (simp_all add: length_field)
  then show ?thesis
    using takeWhile_field [OF assms(1,2)] takeWhile_field [OF assms(3,4)] takeWhile_field [OF assms(5,6), of "[]"]
    by (simp add: ctx_of_bytes_def cstr_in_def)
qed

section \<open>Properties\<close>

text \<open>A kernel for the witnesses: its state is the pipeline input that is left.\<close>

definition demo_sys :: "string kernel" where
  "demo_sys = \<lparr>k_fs_stat_type = (\<lambda>k p. if p = ''/shell/apps/uwm/clock.elf'' then 1 else 0),
     k_fs_stat_size = (\<lambda>k p. 0),
     k_fs_read = (\<lambda>k p n. if n = 384 then field 32 ''sort'' @ field 160 ''f'' @ field 192 ''/d'' else []),
     k_fs_write = (\<lambda>k p d. (k, length d)),
     k_fd_read = (\<lambda>k fd n. (drop n k, Some (take n k))),
     k_locale_get = (\<lambda>k n. ''en''),
     k_disk_present = (\<lambda>k. 0), k_disk_sector_count = (\<lambda>k. 0),
     k_disk_read_sector = (\<lambda>k n. None), k_disk_write_sector = (\<lambda>k n d. (k, 0))\<rparr>"

definition demo_world :: "string \<Rightarrow> string world" where
  "demo_world inp = \<lparr>w_k = inp, w_out = [], w_locale = None, w_pipe = None\<rparr>"

lemma demo_stream: "stream_source demo_sys (\<lambda>k. k)"
  by (auto simp: stream_source_def demo_sys_def)

lemma pre_main_captures [c_spec]:
  assumes "stream_source K inp" "ush_cmd_runtime_stdin_pipe_enabled envp"
  shows "\<exists>k. cleonos_cmd_runtime_pre_main K envp w = Some (w\<lparr>w_k := k,
      w_pipe := Some (take USH_COPY_MAX (inp (w_k w))),
      w_out := w_out w @ (if USH_COPY_MAX \<le> length (inp (w_k w))
        then ''[pipe] input truncated'' @ [newline] else [])\<rparr>)"
proof -
  obtain k' where "capture_loop K (w_k w) [] False =
      Some (k', take USH_COPY_MAX (inp (w_k w)), USH_COPY_MAX \<le> length (inp (w_k w)))"
    using capture_loop_spec [OF assms(1), of "[]" "w_k w" False] by auto
  then show ?thesis using assms(2)
    by (intro exI [of _ k']) (simp add: cleonos_cmd_runtime_pre_main_def
        ush_cmd_runtime_capture_stdin_pipe_def ush_writeln_def ush_write_def ush_write_char_def emit_def Let_def)
qed

text \<open>With \<open>USH_STDIN_MODE=PIPE\<close> in the environment, the start-up code reads the input to its
  end and keeps its first 65536 bytes. It reports truncation when the input has 65536 bytes or
  more, so also when it had exactly 65536 and nothing was lost.\<close>

theorem pipe_capture:
  assumes "stream_source K inp" "ush_cmd_runtime_stdin_pipe_enabled envp"
  shows "\<exists>k. cleonos_cmd_runtime_pre_main K envp w = Some (w\<lparr>w_k := k,
      w_pipe := Some (take USH_COPY_MAX (inp (w_k w))),
      w_out := w_out w @ (if USH_COPY_MAX \<le> length (inp (w_k w))
        then ''[pipe] input truncated'' @ [newline] else [])\<rparr>)"
  using assms by (rule pre_main_captures)

theorem pipe_capture_witness:
  "\<exists>k. cleonos_cmd_runtime_pre_main demo_sys (Some [''HOME=/'', ''USH_STDIN_MODE=PIPE'']) (demo_world ''ab'') =
     Some ((demo_world ''ab'')\<lparr>w_k := k, w_pipe := Some ''ab''\<rparr>)"
proof -
  have "ush_cmd_runtime_stdin_pipe_enabled (Some [''HOME=/'', ''USH_STDIN_MODE=PIPE''])" by code_simp
  from pipe_capture [OF demo_stream this, of "demo_world ''ab''"] show ?thesis
    by (simp add: demo_world_def USH_COPY_MAX_def)
qed

text \<open>A program name without a slash is looked up in the three application directories, with
  \<open>.elf\<close> added when it is missing: the result is the first regular file among the candidates, and
  the candidate in \<open>/shell/apps/\<close> when there is none.\<close>

theorem resolve_exec_path_search:
  assumes "NUL \<notin> set a" "CHR ''/'' \<notin> set a" "a \<noteq> []" "length (elf_name a) < 173"
  shows "ush_resolve_exec_path K k sh (Some a) USH_PATH_MAX =
    Some ((case find (\<lambda>d. k_fs_stat_type K k (d @ elf_name a) = 1) exec_dirs of
             None \<Rightarrow> ''/shell/apps/'' | Some d \<Rightarrow> d) @ elf_name a)"
  using assms by (rule resolve_exec_path_spec)

theorem resolve_exec_path_search_witness:
  "ush_resolve_exec_path demo_sys [] ush_init_state (Some ''clock'') USH_PATH_MAX = Some ''/shell/apps/uwm/clock.elf''"
proof -
  have e: "elf_name ''clock'' = ''clock.elf''"
  proof -
    have "\<not> ush_has_suffix (Some ''clock'') (Some ''.elf'')" by code_simp
    then show ?thesis unfolding elf_name_def by (subst (asm) ush_has_suffix_iff) simp_all
  qed
  from resolve_exec_path_search [of "''clock''" demo_sys "[]" ush_init_state] show ?thesis
    by (simp add: e exec_dirs_def demo_sys_def)
qed

text \<open>A command started by the shell gets exactly the argument and the working directory of the
  context file, its result file is written once with the changed working directory and the exit
  request, and its exit code is 0 exactly when it succeeded.\<close>

theorem app_main_runs_context:
  assumes "k_fs_read K (w_k w) ''/temp/.ush_cmd_ctx.bin'' sizeof_ctx =
      field USH_CMD_MAX name @ field USH_ARG_MAX arg @ field USH_PATH_MAX cwd"
    and "NUL \<notin> set name" "length name < USH_CMD_MAX" "NUL \<notin> set arg" "length arg < USH_ARG_MAX"
    and "NUL \<notin> set cwd" "length cwd < USH_PATH_MAX" "name \<noteq> []" "ch_at cwd 0 = CHR ''/''"
  shows "app_main K name cmd w =
    (let (w', sh', success) = cmd (ush_init_state\<lparr>sh_cwd := cwd\<rparr>) arg w
     in (fst (ush_command_ret_write K (app_result sh' cwd) w'), if success then 0 else 1))"
proof -
  have "length (field USH_CMD_MAX name @ field USH_ARG_MAX arg @ field USH_PATH_MAX cwd) = sizeof_ctx"
    using assms(3,5,7) by (simp add: length_field sizeof_ctx_def)
  then have r: "ush_command_ctx_read K w = Some \<lparr>ctx_cmd = name, ctx_arg = arg, ctx_cwd = cwd\<rparr>"
    using assms by (simp add: ush_command_ctx_read_def ctx_of_fields)
  have "ush_copy d USH_PATH_MAX (Some cwd) = cwd" for d
    using assms(6,7) by (simp add: ush_copy_take USH_PATH_MAX_def)
  then have "app_context K name w = (True, arg, ush_init_state\<lparr>sh_cwd := cwd\<rparr>)"
    using assms(2,8,9) by (simp add: app_context_def r ush_streq_iff)
  then show ?thesis by (simp add: app_main_def split: prod.splits)
qed

theorem app_main_runs_context_witness:
  "app_main demo_sys ''sort'' (\<lambda>sh arg w. (emit arg w, sh, True)) (demo_world []) =
     (fst (ush_command_ret_write demo_sys (app_result (ush_init_state\<lparr>sh_cwd := ''/d''\<rparr>) ''/d'') (emit ''f'' (demo_world []))), 0)"
proof -
  have r: "k_fs_read demo_sys (w_k (demo_world [])) ''/temp/.ush_cmd_ctx.bin'' sizeof_ctx =
      field USH_CMD_MAX ''sort'' @ field USH_ARG_MAX ''f'' @ field USH_PATH_MAX ''/d''"
    by (simp add: demo_sys_def sizeof_ctx_def USH_CMD_MAX_def USH_ARG_MAX_def USH_PATH_MAX_def)
  show ?thesis
    using app_main_runs_context [OF r, of "\<lambda>sh arg w. (emit arg w, sh, True)"]
    by (simp add: USH_CMD_MAX_def USH_ARG_MAX_def USH_PATH_MAX_def)
qed

text \<open>The result file has 208 bytes, and reading them back as the C structure gives the flags, the
  exit code and the working directory that were stored.\<close>

theorem ret_bytes_roundtrip:
  assumes "ret_flags r < 2 ^ 64" "ret_exit_code r < 2 ^ 64" "NUL \<notin> set (ret_cwd r)"
    "length (ret_cwd r) < USH_PATH_MAX"
  shows "length (ret_bytes r) = 208 \<and> le_value (take 8 (ret_bytes r)) = ret_flags r
    \<and> le_value (take 8 (drop 8 (ret_bytes r))) = ret_exit_code r \<and> cstr_in 16 (ret_bytes r) = ret_cwd r"
proof -
  have p: "(256 :: nat) ^ 8 = 2 ^ 64" by simp
  have "cstr_in 16 (ret_bytes r) = takeWhile (\<lambda>c. c \<noteq> NUL) (field USH_PATH_MAX (ret_cwd r) @ [])"
    by (simp add: cstr_in_def ret_bytes_def field_def)
  also have "\<dots> = ret_cwd r" by (rule takeWhile_field [OF assms(3,4)])
  finally have "cstr_in 16 (ret_bytes r) = ret_cwd r" .
  moreover have "le_value (le_bytes 8 (ret_flags r)) = ret_flags r"
    "le_value (le_bytes 8 (ret_exit_code r)) = ret_exit_code r"
    using assms(1,2) by (simp_all only: le_value_bytes p)
  moreover have "length (ret_bytes r) = 208" using assms(4) by (simp add: ret_bytes_def USH_PATH_MAX_def)
  ultimately show ?thesis by (simp add: ret_bytes_def del: le_bytes.simps)
qed

theorem ret_bytes_roundtrip_witness:
  "cstr_in 16 (ret_bytes \<lparr>ret_flags = 3, ret_exit_code = 7, ret_cwd = ''/temp''\<rparr>) = ''/temp''"
  using ret_bytes_roundtrip [of "\<lparr>ret_flags = 3, ret_exit_code = 7, ret_cwd = ''/temp''\<rparr>"]
  by (simp add: USH_PATH_MAX_def)

end
