(* ===== verification/TextTools.thy ===== *)
theory TextTools
  imports CmdRuntime
begin

text \<open>
  What the text filters of \<open>cleonos/c/apps\<close> (\<open>sort\<close>, \<open>uniq\<close>, \<open>head\<close>, \<open>tail\<close>, \<open>cut\<close>, \<open>wc\<close>, \<open>grep\<close>)
  share: each source file holds its own copy of the argument parser, of the input loader and of
  the loop over lines, with its name in the messages. The name is a parameter here.
\<close>

section \<open>Arguments and input\<close>

text \<open>\<open>[file]\<close>: at most one word.\<close>

definition parse_file_only :: "string \<Rightarrow> string option" where
  "parse_file_only arg =
     (if arg = [] then Some []
      else (case ush_split_first_and_rest (Some arg) USH_PATH_MAX of
          None \<Rightarrow> None
        | Some (first, rest) \<Rightarrow> if rest \<noteq> [] then None else Some (ush_copy [] USH_PATH_MAX (Some first))))"

text \<open>\<open>[-n N] [file]\<close>, ten lines by default.\<close>

definition parse_count_file :: "string \<Rightarrow> (nat \<times> string) option" where
  "parse_count_file arg =
     (if arg = [] then Some (10, [])
      else (case ush_split_first_and_rest (Some arg) USH_PATH_MAX of
          None \<Rightarrow> None
        | Some (first, rest) \<Rightarrow>
          if ush_streq (Some first) (Some ''-n'')
          then (case ush_split_first_and_rest (Some rest) USH_PATH_MAX of
              None \<Rightarrow> None
            | Some (second, rest2) \<Rightarrow>
              (case ush_parse_u64_dec (Some second) of
                 None \<Rightarrow> None
               | Some line_count \<Rightarrow>
                 if rest2 \<noteq> []
                 then (case ush_split_first_and_rest (Some rest2) USH_PATH_MAX of
                     None \<Rightarrow> None
                   | Some (third, rest) \<Rightarrow>
                     if rest \<noteq> [] then None
                     else Some (line_count, ush_copy [] USH_PATH_MAX (Some third)))
                 else Some (line_count, [])))
          else if rest \<noteq> [] then None
          else Some (10, ush_copy [] USH_PATH_MAX (Some first))))"

definition tool_msg :: "'k kernel \<Rightarrow> string \<Rightarrow> string \<Rightarrow> string \<Rightarrow> 'k world \<Rightarrow> 'k world" where
  "tool_msg K name en zh w = ush_writeln_i18n K (name @ en) (name @ zh) w"

definition tool_load_file ::
    "'k kernel \<Rightarrow> string \<Rightarrow> ush_state \<Rightarrow> string \<Rightarrow> 'k world \<Rightarrow> 'k world \<times> string option" where
  "tool_load_file K name sh file_arg w =
     (case ush_resolve_path sh (Some file_arg) USH_PATH_MAX of
        None \<Rightarrow> (tool_msg K name '': invalid path'' ('': '' @ utf8 [0x65E0, 0x6548, 0x8DEF, 0x5F84]) w, None)
      | Some path \<Rightarrow>
        if k_fs_stat_type K (w_k w) path \<noteq> 1
        then (tool_msg K name '': file not found'' ('': '' @ utf8 [0x6587, 0x4EF6, 0x4E0D, 0x5B58, 0x5728]) w, None)
        else (let sz = k_fs_stat_size K (w_k w) path in
          if sz = U64_MAX then (tool_msg K name '': failed to stat file'' ('': '' @ utf8 [0x83B7, 0x53D6, 0x6587, 0x4EF6, 0x4FE1, 0x606F, 0x5931, 0x8D25]) w, None)
          else if USH_COPY_MAX < sz
          then (tool_msg K name '': file too large for user buffer'' ('': '' @ utf8 [0x6587, 0x4EF6, 0x8FC7, 0x5927, 0xFF0C, 0x65E0, 0x6CD5, 0x653E, 0x5165, 0x7528, 0x6237, 0x7F13, 0x51B2, 0x533A]) w, None)
          else if sz = 0 then (w, Some [])
          else (let got = k_fs_read K (w_k w) path sz in
            if got = [] \<or> length got \<noteq> sz
            then (tool_msg K name '': read failed'' ('': '' @ utf8 [0x8BFB, 0x53D6, 0x5931, 0x8D25]) w, None)
            else (w, Some got))))"

definition tool_load_input ::
    "'k kernel \<Rightarrow> string \<Rightarrow> ush_state \<Rightarrow> string \<Rightarrow> 'k world \<Rightarrow> 'k world \<times> string option" where
  "tool_load_input K name sh file_arg w =
     (if file_arg \<noteq> [] then tool_load_file K name sh file_arg w
      else (case w_pipe w of
          None \<Rightarrow> (tool_msg K name '': file path required (or pipeline input)'' ('': '' @ utf8 [0x9700, 0x8981, 0x6587, 0x4EF6, 0x8DEF, 0x5F84, 0x6216, 0x7BA1, 0x9053, 0x8F93, 0x5165]) w, None)
        | Some t \<Rightarrow> (w, Some t)))"

section \<open>Lines\<close>

text \<open>The loop over the input that hands on each line without its newline, and a last line without
  a newline when there is one: \<open>cur\<close> is the text since the last newline.\<close>

fun segments_from :: "string \<Rightarrow> string \<Rightarrow> string list" where
  "segments_from cur [] = (if cur = [] then [] else [cur])"
| "segments_from cur (c # cs) =
     (if c = newline then cur # segments_from [] cs else segments_from (cur @ [c]) cs)"

abbreviation line_segments :: "string \<Rightarrow> string list" where
  "line_segments \<equiv> segments_from []"

text \<open>The lines with their newlines.\<close>

function raw_lines :: "string \<Rightarrow> string list" where
  "raw_lines s =
     (if s = [] then []
      else (let l = takeWhile (\<lambda>c. c \<noteq> newline) s; r = dropWhile (\<lambda>c. c \<noteq> newline) s in
        (case r of [] \<Rightarrow> [l] | n # r' \<Rightarrow> (l @ [n]) # raw_lines r')))"
  by pat_completeness auto
termination
proof (relation "measure length", simp)
  fix s l r n r' assume a: "s \<noteq> []" "l = takeWhile (\<lambda>c. c \<noteq> newline) s"
    "r = dropWhile (\<lambda>c. c \<noteq> newline) s" "r = n # r'"
  have "length r' < length r" using a(4) by simp
  also have "length r \<le> length s" unfolding a(3) by (rule length_dropWhile_le)
  finally show "(r', s) \<in> measure length" by simp
qed

declare raw_lines.simps [simp del]

lemma raw_lines_Nil [simp]: "raw_lines [] = []"
  by (simp add: raw_lines.simps)

lemma raw_lines_step:
  "newline \<notin> set l \<Longrightarrow> raw_lines (l @ newline # r) = (l @ [newline]) # raw_lines r"
  "newline \<notin> set l \<Longrightarrow> l \<noteq> [] \<Longrightarrow> raw_lines l = [l]"
proof -
  assume "newline \<notin> set l"
  then have n: "\<forall>x\<in>set l. x \<noteq> newline" by auto
  show "raw_lines (l @ newline # r) = (l @ [newline]) # raw_lines r"
    using takeWhile_append_stop [OF n] dropWhile_append_stop [OF n]
    by (simp add: raw_lines.simps [of "l @ newline # r"])
  have t: "takeWhile (\<lambda>c. c \<noteq> newline) l = l" "dropWhile (\<lambda>c. c \<noteq> newline) l = []" using n by auto
  show "raw_lines l = [l]" if "l \<noteq> []" using that by (simp add: raw_lines.simps [of l] t)
qed

text \<open>A text is empty, a line without newline, or a line with one and a rest.\<close>

lemma text_cases [case_names empty last line]:
  obtains "s = []" | "newline \<notin> set s" "s \<noteq> []"
  | l r where "s = l @ newline # r" "newline \<notin> set l"
proof (cases "newline \<in> set s")
  case True
  then show thesis using split_list_first that(3) by metis
qed (use that in blast)

lemma text_induct [case_names empty last line]:
  assumes "P []" "\<And>s. newline \<notin> set s \<Longrightarrow> s \<noteq> [] \<Longrightarrow> P s"
    "\<And>l r. newline \<notin> set l \<Longrightarrow> P r \<Longrightarrow> P (l @ newline # r)"
  shows "P s"
proof (induction s rule: length_induct)
  case (1 s)
  show ?case
  proof (cases s rule: text_cases)
    case (line l r)
    then show ?thesis using 1 assms(3) by simp
  qed (use assms in auto)
qed

lemma segments_from_line:
  "newline \<notin> set l \<Longrightarrow> segments_from cur (l @ newline # r) = (cur @ l) # segments_from [] r"
  "newline \<notin> set l \<Longrightarrow> segments_from cur l = (if cur @ l = [] then [] else [cur @ l])"
  by (induction l arbitrary: cur) auto

lemma raw_lines_segments:
  "raw_lines s = (let ls = line_segments s in
     if s \<noteq> [] \<and> last s \<noteq> newline then map (\<lambda>l. l @ [newline]) (butlast ls) @ [last ls]
     else map (\<lambda>l. l @ [newline]) ls)"
proof (induction s rule: text_induct)
  case (last s)
  then have "List.last s \<noteq> newline" using last_in_set by metis
  with last show ?case by (simp add: raw_lines_step segments_from_line)
next
  case (line l r)
  have "line_segments r = [] \<longleftrightarrow> r = []"
    by (cases r rule: text_cases) (auto simp: segments_from_line)
  with line show ?case by (auto simp: raw_lines_step segments_from_line Let_def)
qed simp

lemma concat_raw_lines [c_spec]: "concat (raw_lines s) = s"
  by (induction s rule: text_induct) (simp_all add: raw_lines_step)

lemma segments_no_newline: "l \<in> set (line_segments s) \<Longrightarrow> newline \<notin> set l"
  by (induction s rule: text_induct) (auto simp: segments_from_line)

text \<open>Writing the lines with newlines again gives the input back, with a final newline.\<close>

definition unlines :: "string list \<Rightarrow> string" where
  "unlines ls = concat (map (\<lambda>l. l @ [newline]) ls)"

lemma unlines_segments [c_spec]:
  "unlines (line_segments s) = (if s = [] \<or> last s = newline then s else s @ [newline])"
proof (induction s rule: text_induct)
  case (last s)
  then have "List.last s \<noteq> newline" using last_in_set by metis
  with last show ?case by (simp add: unlines_def segments_from_line)
qed (auto simp: unlines_def segments_from_line)

lemma emit_emit [simp]: "emit t (emit s w) = emit (s @ t) w"
  by (simp add: emit_def)

lemma emit_Nil [simp]: "emit [] w = w"
  by (simp add: emit_def)

lemma load_pipe [c_spec]: "w_pipe w = Some t \<Longrightarrow> tool_load_input K name sh [] w = (w, Some t)"
  by (simp add: tool_load_input_def)

lemma parse_file_only_Nil [simp]: "parse_file_only [] = Some []"
  by (simp add: parse_file_only_def)

lemma load_file_unchanged [c_frame]:
  "tool_load_file K name sh f w = (w', Some t) \<Longrightarrow> w' = w \<and> length t \<le> USH_COPY_MAX"
  by (auto simp: tool_load_file_def Let_def split: option.splits if_splits)

end
