(* ===== verification/SortTool.thy ===== *)
theory SortTool
  imports TextTools "HOL-Library.Multiset"
begin

text \<open>
  \<open>cleonos/c/apps/sort_main.c\<close>: the line comparison, the insertion sort on the array of line
  pointers, and the command. A line pointer stands for the text at it, which ends at the first NUL
  of the input line. The comparison is shown to be a linear order and the loop to compute the
  library's \<open>sort\<close> for it.
\<close>

section \<open>Definitions\<close>

definition USH_SORT_MAX_LINES :: nat where "USH_SORT_MAX_LINES = 4096"

fun ush_sort_compare_line :: "string \<Rightarrow> string \<Rightarrow> int" where
  "ush_sort_compare_line [] [] = 0"
| "ush_sort_compare_line [] (r # rs) = - 1"
| "ush_sort_compare_line (l # ls) [] = 1"
| "ush_sort_compare_line (l # ls) (r # rs) =
     (if schar l < schar r then - 1 else if schar r < schar l then 1 else ush_sort_compare_line ls rs)"

text \<open>The lines and the status: 2 when lines had to be left out, 0 for unusable arguments.\<close>

definition ush_sort_collect_lines :: "string \<Rightarrow> nat \<Rightarrow> string list \<times> nat" where
  "ush_sort_collect_lines buf max_lines =
     (if max_lines = 0 then ([], 0)
      else (let lines = map (takeWhile (\<lambda>c. c \<noteq> NUL)) (line_segments buf)
        in (take max_lines lines, if length lines \<le> max_lines then 1 else 2)))"

text \<open>The inner loop moves larger lines up; the result is the position for the key.\<close>

fun sort_shift :: "string list \<Rightarrow> string \<Rightarrow> nat \<Rightarrow> string list \<times> nat" where
  "sort_shift lines key 0 = (lines, 0)"
| "sort_shift lines key (Suc j) =
     (if 0 < ush_sort_compare_line (lines ! j) key then sort_shift (lines[Suc j := lines ! j]) key j
      else (lines, Suc j))"

definition sort_insert :: "nat \<Rightarrow> string list \<Rightarrow> string list" where
  "sort_insert i lines =
     (let key = lines ! i; (lines, j) = sort_shift lines key i in lines[j := key])"

definition ush_sort_lines :: "string list \<Rightarrow> string list" where
  "ush_sort_lines lines = fold sort_insert [1..<length lines] lines"

definition ush_sort_parse_args :: "string \<Rightarrow> string option" where
  "ush_sort_parse_args arg = parse_file_only arg"

text \<open>The input is copied into \<open>sort_buf\<close> of \<open>USH_COPY_MAX + 1\<close> bytes.\<close>

definition ush_sort_load_input ::
    "'k kernel \<Rightarrow> ush_state \<Rightarrow> string \<Rightarrow> 'k world \<Rightarrow> 'k world \<times> string option" where
  "ush_sort_load_input K sh file_arg w =
     (if file_arg \<noteq> [] then tool_load_file K ''sort'' sh file_arg w
      else (case tool_load_input K ''sort'' sh [] w of
          (w, None) \<Rightarrow> (w, None)
        | (w, Some t) \<Rightarrow>
            if USH_COPY_MAX + 1 < length t + 1
            then (ush_writeln_i18n K ''sort: pipeline input too large'' (''sort: '' @ utf8 [0x7BA1, 0x9053, 0x8F93, 0x5165, 0x8FC7, 0x5927]) w, None)
            else (w, Some t)))"

definition ush_cmd_sort :: "'k kernel \<Rightarrow> 'k command" where
  "ush_cmd_sort K sh arg w =
     (case ush_sort_parse_args arg of
        None \<Rightarrow> (ush_writeln_i18n K ''sort: usage sort [file]'' (''sort: '' @ utf8 [0x7528, 0x6CD5] @ '' sort [file]'') w, sh, False)
      | Some file_arg \<Rightarrow>
        (case ush_sort_load_input K sh file_arg w of
           (w, None) \<Rightarrow> (w, sh, False)
         | (w, Some buf) \<Rightarrow>
           (let (lines, status) = ush_sort_collect_lines buf USH_SORT_MAX_LINES in
            if status = 0 then (ush_writeln_i18n K ''sort: internal parse error'' (''sort: '' @ utf8 [0x5185, 0x90E8, 0x89E3, 0x6790, 0x9519, 0x8BEF]) w, sh, False)
            else (let w = fold (\<lambda>l. ush_writeln (Some l)) (ush_sort_lines lines) w;
                      w = (if status = 2
                           then ush_writeln_i18n K ''[sort] line count truncated'' (''[sort] '' @ utf8 [0x884C, 0x6570, 0x5DF2, 0x622A, 0x65AD]) w else w)
                  in (w, sh, True)))))"

definition sort_main :: "'k kernel \<Rightarrow> 'k world \<Rightarrow> 'k world \<times> int" where
  "sort_main K w = app_main K ''sort'' (ush_cmd_sort K) w"

section \<open>The order on lines\<close>

datatype sort_line = Line (line_text: string)

instantiation sort_line :: linorder
begin

definition less_eq_sort_line :: "sort_line \<Rightarrow> sort_line \<Rightarrow> bool" where
  "less_eq_sort_line a b \<longleftrightarrow> ush_sort_compare_line (line_text a) (line_text b) \<le> 0"

definition less_sort_line :: "sort_line \<Rightarrow> sort_line \<Rightarrow> bool" where
  "less_sort_line a b \<longleftrightarrow> ush_sort_compare_line (line_text a) (line_text b) < 0"

lemma compare_swap: "ush_sort_compare_line b a = - ush_sort_compare_line a b"
  by (induction a b rule: ush_sort_compare_line.induct) auto

lemma compare_0: "ush_sort_compare_line a b = 0 \<longleftrightarrow> a = b"
proof (induction a b rule: ush_sort_compare_line.induct)
  case (4 l ls r rs)
  then show ?case by (cases "schar l" "schar r" rule: linorder_cases) auto
qed simp_all

lemma compare_trans:
  "ush_sort_compare_line a b \<le> 0 \<Longrightarrow> ush_sort_compare_line b c \<le> 0 \<Longrightarrow> ush_sort_compare_line a c \<le> 0"
proof (induction a b arbitrary: c rule: ush_sort_compare_line.induct)
  case (1 c) then show ?case by simp
next
  case (2 r rs c) then show ?case by (cases c) auto
next
  case (4 l ls r rs c)
  show ?case
  proof (cases c)
    case (Cons x xs)
    have lr: "schar l < schar r \<or> l = r \<and> ush_sort_compare_line ls rs \<le> 0"
      using "4.prems"(1) by (cases "schar l" "schar r" rule: linorder_cases) simp_all
    have rx: "schar r < schar x \<or> r = x \<and> ush_sort_compare_line rs xs \<le> 0"
      using "4.prems"(2) unfolding Cons by (cases "schar r" "schar x" rule: linorder_cases) simp_all
    show ?thesis
    proof (cases "l = r \<and> r = x")
      case True
      then show ?thesis using "4.IH" [of xs] lr rx by (simp add: Cons)
    next
      case False
      then have "schar l < schar x" using lr rx by auto
      then show ?thesis by (simp add: Cons)
    qed
  qed (use 4 in simp)
qed simp

instance
proof
  fix a b c :: sort_line
  show "(a < b) = (a \<le> b \<and> \<not> b \<le> a)"
    using compare_swap [of "line_text a" "line_text b"]
    by (auto simp: less_eq_sort_line_def less_sort_line_def)
  show "a \<le> a" using compare_0 [of "line_text a" "line_text a"] by (simp add: less_eq_sort_line_def)
  show "a \<le> b \<Longrightarrow> b \<le> c \<Longrightarrow> a \<le> c" using compare_trans by (simp add: less_eq_sort_line_def)
  show "a \<le> b \<Longrightarrow> b \<le> a \<Longrightarrow> a = b"
    using compare_swap [of "line_text a" "line_text b"] compare_0 [of "line_text a" "line_text b"]
    by (auto simp: less_eq_sort_line_def intro: sort_line.expand)
  show "a \<le> b \<or> b \<le> a"
    using compare_swap [of "line_text a" "line_text b"] by (auto simp: less_eq_sort_line_def)
qed

end

lemma compare_pos: "0 < ush_sort_compare_line a b \<longleftrightarrow> Line b < Line a"
  using compare_swap [of a b] by (simp add: less_sort_line_def)

section \<open>The insertion sort\<close>

text \<open>The part of the sorted lines that stays and the part that moves up.\<close>

definition keep_part :: "string \<Rightarrow> string list \<Rightarrow> string list" where
  "keep_part key xs = rev (dropWhile (\<lambda>l. 0 < ush_sort_compare_line l key) (rev xs))"

definition move_part :: "string \<Rightarrow> string list \<Rightarrow> string list" where
  "move_part key xs = rev (takeWhile (\<lambda>l. 0 < ush_sort_compare_line l key) (rev xs))"

lemma keep_move: "keep_part key xs @ move_part key xs = xs"
  by (simp add: keep_part_def move_part_def flip: rev_append)

lemma sort_shift_spec:
  "case sort_shift (xs @ z # ys) key (length xs) of (ls, j) \<Rightarrow>
     j = length (keep_part key xs) \<and> ls[j := key] = keep_part key xs @ key # move_part key xs @ ys"
proof (induction xs arbitrary: z ys rule: rev_induct)
  case (snoc x xs)
  have nth: "(xs @ x # z # ys) ! length xs = x" by simp
  have upd: "(xs @ x # z # ys)[Suc (length xs) := x] = xs @ x # x # ys" by (simp add: list_update_append)
  show ?case
  proof (cases "0 < ush_sort_compare_line x key")
    case True
    then have "sort_shift ((xs @ [x]) @ z # ys) key (length (xs @ [x])) = sort_shift (xs @ x # x # ys) key (length xs)"
      using nth upd by simp
    then show ?thesis using snoc.IH [where z = x and ys = "x # ys"] True by (simp add: keep_part_def move_part_def)
  next
    case False
    then show ?thesis using nth by (simp add: keep_part_def move_part_def list_update_append)
  qed
qed (simp add: keep_part_def move_part_def)

lemma sort_insert_eq:
  "sort_insert (length xs) (xs @ key # ys) = keep_part key xs @ key # move_part key xs @ ys"
  using sort_shift_spec [where xs = xs and z = key and ys = ys and key = key] by (simp add: sort_insert_def split: prod.splits)

lemma sorted_insert:
  assumes "sorted (map Line xs)"
  shows "sorted (map Line (keep_part key xs @ key # move_part key xs))"
proof -
  have s: "sorted (map Line (keep_part key xs) @ map Line (move_part key xs))"
    using assms keep_move [of key xs] by (metis map_append)
  have mv: "\<forall>l\<in>set (move_part key xs). Line key < Line l"
    by (auto simp: move_part_def compare_pos dest: set_takeWhileD)
  have kp: "Line l \<le> Line key" if l: "l \<in> set (keep_part key xs)" for l
  proof -
    obtain ps p where ps: "keep_part key xs = ps @ [p]" using l by (cases "keep_part key xs" rule: rev_exhaust) auto
    then have "dropWhile (\<lambda>l. 0 < ush_sort_compare_line l key) (rev xs) = p # rev ps"
      unfolding keep_part_def by (metis rev_eq_Cons_iff rev_rev_ident)
    then have "\<not> 0 < ush_sort_compare_line p key"
      using hd_dropWhile [of "\<lambda>l. 0 < ush_sort_compare_line l key" "rev xs"] by simp
    then have "Line p \<le> Line key" by (simp add: compare_pos)
    moreover have "Line l \<le> Line p" using s l by (auto simp: ps sorted_append)
    ultimately show ?thesis by simp
  qed
  show ?thesis using s mv kp by (auto simp: sorted_append less_imp_le)
qed

lemma sort_lines_prefix:
  "i \<le> length lines \<Longrightarrow> 0 < i \<Longrightarrow>
   \<exists>xs. fold sort_insert [1..<i] lines = xs @ drop i lines \<and> length xs = i
     \<and> sorted (map Line xs) \<and> mset xs = mset (take i lines)"
proof (induction i)
  case (Suc i)
  show ?case
  proof (cases "i = 0")
    case True
    with Suc.prems obtain x xs where "lines = x # xs" by (cases lines) auto
    then show ?thesis using True by (intro exI [of _ "[x]"]) simp
  next
    case False
    then obtain xs where xs: "fold sort_insert [1..<i] lines = xs @ drop i lines" "length xs = i"
      "sorted (map Line xs)" "mset xs = mset (take i lines)" using Suc by auto
    have d: "drop i lines = lines ! i # drop (Suc i) lines" using Suc.prems by (simp add: Cons_nth_drop_Suc)
    define ys where "ys = keep_part (lines ! i) xs @ lines ! i # move_part (lines ! i) xs"
    have "fold sort_insert [1..<Suc i] lines = sort_insert i (xs @ drop i lines)"
      using False xs(1) by simp
    also have "\<dots> = ys @ drop (Suc i) lines"
      using sort_insert_eq [of xs "lines ! i" "drop (Suc i) lines"] xs(2) by (simp add: d ys_def)
    finally have f: "fold sort_insert [1..<Suc i] lines = ys @ drop (Suc i) lines" .
    have m: "mset ys = add_mset (lines ! i) (mset xs)"
      using arg_cong [OF keep_move [of "lines ! i" xs], of mset] by (simp add: ys_def)
    have "length ys = Suc i" using arg_cong [OF m, of size] xs(2) by simp
    moreover have "mset ys = mset (take (Suc i) lines)"
      using Suc.prems m xs(4) by (simp add: take_Suc_conv_app_nth)
    moreover have "sorted (map Line ys)" unfolding ys_def by (rule sorted_insert [OF xs(3)])
    ultimately show ?thesis using f by blast
  qed
qed simp

lemma sort_lines_correct [c_spec]:
  "sorted (map Line (ush_sort_lines lines)) \<and> mset (ush_sort_lines lines) = mset lines"
proof (cases lines)
  case (Cons x xs)
  then obtain ys where "fold sort_insert [1..<length lines] lines = ys @ drop (length lines) lines"
    "sorted (map Line ys)" "mset ys = mset (take (length lines) lines)"
    using sort_lines_prefix [of "length lines" lines] by auto
  then show ?thesis by (simp add: ush_sort_lines_def)
qed (simp add: ush_sort_lines_def)

lemma sort_lines_sort: "map Line (ush_sort_lines lines) = sort (map Line lines)"
  by (rule properties_for_sort [symmetric]) (use sort_lines_correct [of lines] in simp_all)

section \<open>Properties\<close>

text \<open>C6. The insertion sort computes the library's sort for the order of the line comparison: its
  result is ascending and a permutation of the lines.\<close>

theorem sort_lines_sorts:
  "map Line (ush_sort_lines lines) = sort (map Line lines) \<and> sorted (map Line (ush_sort_lines lines))
   \<and> mset (ush_sort_lines lines) = mset lines"
  using sort_lines_sort sort_lines_correct by blast

lemma fold_writeln: "fold (\<lambda>l. ush_writeln (Some l)) ls w = emit (unlines ls) w"
  by (induction ls arbitrary: w) (simp_all add: unlines_def ush_writeln_def ush_write_def ush_write_char_def)

lemma cmd_sort_spec [c_spec]:
  assumes "w_pipe w = Some t" "length t \<le> USH_COPY_MAX" "NUL \<notin> set t"
    "length (line_segments t) \<le> USH_SORT_MAX_LINES"
  shows "ush_cmd_sort K sh [] w =
    (emit (unlines (map line_text (sort (map Line (line_segments t))))) w, sh, True)"
proof -
  have "set l \<subseteq> set t" if "l \<in> set (line_segments t)" for l
    using that by (induction t rule: text_induct) (auto simp: segments_from_line)
  then have "map (takeWhile (\<lambda>c. c \<noteq> NUL)) (line_segments t) = line_segments t"
    using assms(3) by (intro map_idI) (auto simp: takeWhile_eq_all_conv)
  then have c: "ush_sort_collect_lines t USH_SORT_MAX_LINES = (line_segments t, 1)"
    using assms(4) by (simp add: ush_sort_collect_lines_def USH_SORT_MAX_LINES_def)
  have l: "ush_sort_load_input K sh [] w = (w, Some t)"
    using assms(1,2) by (simp add: ush_sort_load_input_def load_pipe)
  have s: "map line_text (sort (map Line (line_segments t))) = ush_sort_lines (line_segments t)"
    unfolding sort_lines_sort [symmetric] by (simp add: comp_def)
  show ?thesis unfolding s by (simp add: ush_cmd_sort_def ush_sort_parse_args_def l c fold_writeln)
qed

text \<open>\<open>sort\<close> on pipeline input without NUL bytes and with at most 4096 lines writes the lines of the
  input in ascending order, each with a newline, and succeeds.\<close>

theorem cmd_sort_pipeline:
  assumes "w_pipe w = Some t" "length t \<le> USH_COPY_MAX" "NUL \<notin> set t"
    "length (line_segments t) \<le> USH_SORT_MAX_LINES"
  shows "ush_cmd_sort K sh [] w =
    (emit (unlines (map line_text (sort (map Line (line_segments t))))) w, sh, True)"
  using assms by (rule cmd_sort_spec)

theorem cmd_sort_pipeline_witness:
  "ush_cmd_sort demo_sys ush_init_state [] ((demo_world [])\<lparr>w_pipe := Some (''b'' @ newline # ''a'')\<rparr>) =
     (emit (''a'' @ newline # ''b'' @ [newline]) ((demo_world [])\<lparr>w_pipe := Some (''b'' @ newline # ''a'')\<rparr>),
      ush_init_state, True)"
proof -
  have s: "line_segments (''b'' @ newline # ''a'') = [''b'', ''a'']" by code_simp
  have o: "map line_text (sort (map Line [''b'', ''a''])) = [''a'', ''b'']" by code_simp
  have "NUL \<notin> set (''b'' @ newline # ''a'')" by code_simp
  then show ?thesis
    using cmd_sort_pipeline [of "(demo_world [])\<lparr>w_pipe := Some (''b'' @ newline # ''a'')\<rparr>" "''b'' @ newline # ''a''"
        demo_sys ush_init_state]
    unfolding s o by (simp add: USH_COPY_MAX_def USH_SORT_MAX_LINES_def unlines_def)
qed

end
