(* ===== verification/LineTools.thy ===== *)
theory LineTools
  imports TextTools
begin

text \<open>
  The line filters \<open>uniq_main.c\<close>, \<open>head_main.c\<close>, \<open>tail_main.c\<close>, \<open>cut_main.c\<close>, \<open>wc_main.c\<close> and
  \<open>grep_main.c\<close> of \<open>cleonos/c/apps\<close>: their loops over the input, their commands, and what the
  output is in terms of the lines of the input. The input may hold any bytes.
\<close>

section \<open>\<open>uniq\<close>\<close>

definition ush_uniq_line_equal :: "string \<Rightarrow> string \<Rightarrow> bool" where
  "ush_uniq_line_equal left right =
     (if length left \<noteq> length right then False else list_all (\<lambda>i. left ! i = right ! i) [0..<length left])"

definition ush_uniq_emit_line :: "string \<Rightarrow> 'k world \<Rightarrow> 'k world" where
  "ush_uniq_emit_line line w = ush_write_char newline (fold ush_write_char line w)"

fun uniq_loop :: "string option \<Rightarrow> string list \<Rightarrow> 'k world \<Rightarrow> 'k world" where
  "uniq_loop prev [] w = w"
| "uniq_loop prev (line # ls) w =
     (if (case prev of None \<Rightarrow> True | Some p \<Rightarrow> \<not> ush_uniq_line_equal p line)
      then uniq_loop (Some line) ls (ush_uniq_emit_line line w)
      else uniq_loop prev ls w)"

definition ush_uniq_parse_args :: "string \<Rightarrow> string option" where
  "ush_uniq_parse_args arg = parse_file_only arg"

definition ush_uniq_load_input ::
    "'k kernel \<Rightarrow> ush_state \<Rightarrow> string \<Rightarrow> 'k world \<Rightarrow> 'k world \<times> string option" where
  "ush_uniq_load_input K = tool_load_input K ''uniq''"

definition ush_cmd_uniq :: "'k kernel \<Rightarrow> 'k command" where
  "ush_cmd_uniq K sh arg w =
     (case ush_uniq_parse_args arg of
        None \<Rightarrow> (ush_writeln_i18n K ''uniq: usage uniq [file]'' (''uniq: '' @ utf8 [0x7528, 0x6CD5] @ '' uniq [file]'') w, sh, False)
      | Some file_arg \<Rightarrow>
        (case ush_uniq_load_input K sh file_arg w of
           (w, None) \<Rightarrow> (w, sh, False)
         | (w, Some input) \<Rightarrow> (uniq_loop None (line_segments input) w, sh, True)))"

definition uniq_main :: "'k kernel \<Rightarrow> 'k world \<Rightarrow> 'k world \<times> int" where
  "uniq_main K w = app_main K ''uniq'' (ush_cmd_uniq K) w"

section \<open>\<open>head\<close>\<close>

fun head_loop :: "nat \<Rightarrow> nat \<Rightarrow> string \<Rightarrow> 'k world \<Rightarrow> 'k world" where
  "head_loop line_count emitted [] w = w"
| "head_loop line_count emitted (c # cs) w =
     (if line_count \<le> emitted then w
      else head_loop line_count (if c = newline then emitted + 1 else emitted) cs (emit [c] w))"

definition ush_head_emit :: "string \<Rightarrow> nat \<Rightarrow> 'k world \<Rightarrow> 'k world" where
  "ush_head_emit input line_count w = (if line_count = 0 then w else head_loop line_count 0 input w)"

definition ush_head_parse_args :: "string \<Rightarrow> (nat \<times> string) option" where
  "ush_head_parse_args arg = parse_count_file arg"

definition ush_head_load_input ::
    "'k kernel \<Rightarrow> ush_state \<Rightarrow> string \<Rightarrow> 'k world \<Rightarrow> 'k world \<times> string option" where
  "ush_head_load_input K = tool_load_input K ''head''"

definition ush_cmd_head :: "'k kernel \<Rightarrow> 'k command" where
  "ush_cmd_head K sh arg w =
     (case ush_head_parse_args arg of
        None \<Rightarrow> (ush_writeln_i18n K ''head: usage head [-n N] [file]'' (''head: '' @ utf8 [0x7528, 0x6CD5] @ '' head [-n N] [file]'') w, sh, False)
      | Some (line_count, file_arg) \<Rightarrow>
        (case ush_head_load_input K sh file_arg w of
           (w, None) \<Rightarrow> (w, sh, False)
         | (w, Some input) \<Rightarrow> (ush_head_emit input line_count w, sh, True)))"

definition head_main :: "'k kernel \<Rightarrow> 'k world \<Rightarrow> 'k world \<times> int" where
  "head_main K w = app_main K ''head'' (ush_cmd_head K) w"

section \<open>\<open>tail\<close>\<close>

text \<open>A newline that is the last byte does not start another line.\<close>

fun tail_count_loop :: "nat \<Rightarrow> string \<Rightarrow> nat" where
  "tail_count_loop lines [] = lines"
| "tail_count_loop lines (c # cs) =
     tail_count_loop (if c = newline \<and> cs \<noteq> [] then lines + 1 else lines) cs"

definition ush_tail_count_lines :: "string \<Rightarrow> nat" where
  "ush_tail_count_lines input = (if input = [] then 0 else tail_count_loop 1 input)"

fun tail_start_loop :: "nat \<Rightarrow> nat \<Rightarrow> nat \<Rightarrow> string \<Rightarrow> nat" where
  "tail_start_loop skip_lines lines_seen i [] = i"
| "tail_start_loop skip_lines lines_seen i (c # cs) =
     (if c = newline \<and> cs \<noteq> []
      then (if lines_seen + 1 = skip_lines then i + 1
            else tail_start_loop skip_lines (lines_seen + 1) (i + 1) cs)
      else tail_start_loop skip_lines lines_seen (i + 1) cs)"

definition ush_tail_find_start_offset :: "string \<Rightarrow> nat \<Rightarrow> nat" where
  "ush_tail_find_start_offset input skip_lines =
     (if input = [] \<or> skip_lines = 0 then 0 else tail_start_loop skip_lines 0 0 input)"

definition ush_tail_parse_args :: "string \<Rightarrow> (nat \<times> string) option" where
  "ush_tail_parse_args arg = parse_count_file arg"

definition ush_tail_load_input ::
    "'k kernel \<Rightarrow> ush_state \<Rightarrow> string \<Rightarrow> 'k world \<Rightarrow> 'k world \<times> string option" where
  "ush_tail_load_input K = tool_load_input K ''tail''"

definition ush_cmd_tail :: "'k kernel \<Rightarrow> 'k command" where
  "ush_cmd_tail K sh arg w =
     (case ush_tail_parse_args arg of
        None \<Rightarrow> (ush_writeln_i18n K ''tail: usage tail [-n N] [file]'' (''tail: '' @ utf8 [0x7528, 0x6CD5] @ '' tail [-n N] [file]'') w, sh, False)
      | Some (line_count, file_arg) \<Rightarrow>
        (case ush_tail_load_input K sh file_arg w of
           (w, None) \<Rightarrow> (w, sh, False)
         | (w, Some input) \<Rightarrow>
           if line_count = 0 \<or> input = [] then (w, sh, True)
           else (let total_lines = ush_tail_count_lines input;
                     skip_lines = (if line_count < total_lines then total_lines - line_count else 0);
                     start_offset = ush_tail_find_start_offset input skip_lines
                 in (emit (drop start_offset input) w, sh, True))))"

definition tail_main :: "'k kernel \<Rightarrow> 'k world \<Rightarrow> 'k world \<times> int" where
  "tail_main K w = app_main K ''tail'' (ush_cmd_tail K) w"

section \<open>\<open>cut\<close>\<close>

definition ush_cut_parse_delim :: "string \<Rightarrow> char option" where
  "ush_cut_parse_delim token =
     (if ch_at token 0 = CHR 0x5C \<and> ch_at token 1 = CHR ''t'' \<and> ch_at token 2 = NUL then Some (CHR 0x09)
      else if ch_at token 0 = NUL \<or> ch_at token 1 \<noteq> NUL then None
      else Some (ch_at token 0))"

text \<open>The loop over the options: the values so far, and which of them have been set.\<close>

record cut_opts =
  co_delim :: char
  co_field :: nat
  co_file :: string
  co_delim_set :: bool
  co_field_set :: bool
  co_file_set :: bool

lemma split_rest_shorter:
  "ush_split_first_and_rest (Some arg) n = Some (first, rest) \<Longrightarrow> length rest < length arg"
proof -
  assume a: "ush_split_first_and_rest (Some arg) n = Some (first, rest)"
  define s where "s = skip_spaces arg"
  have s: "s \<noteq> []" "rest = skip_spaces (after_word s)"
    using a by (auto simp: ush_split_first_and_rest_def Let_def s_def split: if_splits)
  then obtain c t where ct: "s = c # t" by (cases s) auto
  have "\<not> ush_is_space c" using hd_dropWhile [of ush_is_space arg] s(1) ct by (simp add: s_def)
  then have "length (after_word s) \<le> length t" by (simp add: ct length_dropWhile_le)
  moreover have "length rest \<le> length (after_word s)" using s(2) by (simp add: length_dropWhile_le)
  moreover have "length s \<le> length arg" by (simp add: s_def length_dropWhile_le)
  ultimately show "length rest < length arg" by (simp add: ct)
qed

function cut_args_loop :: "cut_opts \<Rightarrow> string \<Rightarrow> cut_opts option" where
  "cut_args_loop opts cursor =
     (if cursor = [] then Some opts
      else (case ush_split_first_and_rest (Some cursor) USH_PATH_MAX of
          None \<Rightarrow> None
        | Some (token, rest) \<Rightarrow>
          if ush_streq (Some token) (Some ''-d'')
          then (case ush_split_first_and_rest (Some rest) USH_PATH_MAX of
              None \<Rightarrow> None
            | Some (val, cursor) \<Rightarrow>
              (case ush_cut_parse_delim val of
                 None \<Rightarrow> None
               | Some d \<Rightarrow> cut_args_loop (opts\<lparr>co_delim := d, co_delim_set := True\<rparr>) cursor))
          else if ush_streq (Some token) (Some ''-f'')
          then (case ush_split_first_and_rest (Some rest) USH_PATH_MAX of
              None \<Rightarrow> None
            | Some (val, cursor) \<Rightarrow>
              (case ush_parse_u64_dec (Some val) of
                 None \<Rightarrow> None
               | Some n \<Rightarrow> if n = 0 then None
                          else cut_args_loop (opts\<lparr>co_field := n, co_field_set := True\<rparr>) cursor))
          else if ch_at token 0 = CHR ''-'' then None
          else if co_file_set opts then None
          else cut_args_loop (opts\<lparr>co_file := ush_copy (co_file opts) USH_PATH_MAX (Some token), co_file_set := True\<rparr>) rest))"
  by pat_completeness auto
termination
  by (relation "measure (\<lambda>(o', c). length c)") (auto dest!: split_rest_shorter)

declare cut_args_loop.simps [simp del]

definition ush_cut_parse_args :: "string \<Rightarrow> (char \<times> nat \<times> string) option" where
  "ush_cut_parse_args arg =
     (if arg = [] then None
      else (case cut_args_loop \<lparr>co_delim = CHR '','', co_field = 1, co_file = [],
               co_delim_set = False, co_field_set = False, co_file_set = False\<rparr> arg of
          None \<Rightarrow> None
        | Some opts \<Rightarrow> if co_delim_set opts \<and> co_field_set opts
                      then Some (co_delim opts, co_field opts, co_file opts) else None))"

definition ush_cut_load_input ::
    "'k kernel \<Rightarrow> ush_state \<Rightarrow> string \<Rightarrow> 'k world \<Rightarrow> 'k world \<times> string option" where
  "ush_cut_load_input K = tool_load_input K ''cut''"

text \<open>The scan of a line: \<open>cur\<close> is \<open>line[field_start..<pos]\<close>.\<close>

fun cut_scan :: "char \<Rightarrow> nat \<Rightarrow> nat \<Rightarrow> string \<Rightarrow> string \<Rightarrow> string" where
  "cut_scan delim field_index current_field cur [] = (if current_field = field_index then cur else [])"
| "cut_scan delim field_index current_field cur (c # cs) =
     (if c = delim
      then (if current_field = field_index then cur else cut_scan delim field_index (current_field + 1) [] cs)
      else cut_scan delim field_index current_field (cur @ [c]) cs)"

definition ush_cut_emit_field :: "char \<Rightarrow> nat \<Rightarrow> string \<Rightarrow> 'k world \<Rightarrow> 'k world" where
  "ush_cut_emit_field delim field_index line w =
     ush_write_char newline (fold ush_write_char (cut_scan delim field_index 1 [] line) w)"

definition ush_cmd_cut :: "'k kernel \<Rightarrow> 'k command" where
  "ush_cmd_cut K sh arg w =
     (case ush_cut_parse_args arg of
        None \<Rightarrow> (ush_writeln_i18n K ''cut: usage cut -d <char> -f <N> [file]''
                  (''cut: '' @ utf8 [0x7528, 0x6CD5] @ '' cut -d <char> -f <N> [file]'') w, sh, False)
      | Some (delim, field_index, file_arg) \<Rightarrow>
        (case ush_cut_load_input K sh file_arg w of
           (w, None) \<Rightarrow> (w, sh, False)
         | (w, Some input) \<Rightarrow> (fold (ush_cut_emit_field delim field_index) (line_segments input) w, sh, True)))"

definition cut_main :: "'k kernel \<Rightarrow> 'k world \<Rightarrow> 'k world \<times> int" where
  "cut_main K w = app_main K ''cut'' (ush_cmd_cut K) w"

section \<open>\<open>wc\<close>\<close>

definition ush_wc_parse_args :: "string \<Rightarrow> string option" where
  "ush_wc_parse_args arg = parse_file_only arg"

definition ush_wc_load_input ::
    "'k kernel \<Rightarrow> ush_state \<Rightarrow> string \<Rightarrow> 'k world \<Rightarrow> 'k world \<times> string option" where
  "ush_wc_load_input K = tool_load_input K ''wc''"

definition ush_wc_write_u64_dec :: "nat \<Rightarrow> 'k world \<Rightarrow> 'k world" where
  "ush_wc_write_u64_dec v w = emit (u64_dec v) w"

fun wc_loop :: "nat \<Rightarrow> nat \<Rightarrow> bool \<Rightarrow> string \<Rightarrow> nat \<times> nat" where
  "wc_loop lines words in_word [] = (lines, words)"
| "wc_loop lines words in_word (ch # cs) =
     (let lines = (if ch = newline then lines + 1 else lines) in
      if ush_is_space ch then wc_loop lines words False cs
      else if \<not> in_word then wc_loop lines (words + 1) True cs
      else wc_loop lines words in_word cs)"

definition ush_cmd_wc :: "'k kernel \<Rightarrow> 'k command" where
  "ush_cmd_wc K sh arg w =
     (case ush_wc_parse_args arg of
        None \<Rightarrow> (ush_writeln_i18n K ''wc: usage wc [file]'' (''wc: '' @ utf8 [0x7528, 0x6CD5] @ '' wc [file]'') w, sh, False)
      | Some file_arg \<Rightarrow>
        (case ush_wc_load_input K sh file_arg w of
           (w, None) \<Rightarrow> (w, sh, False)
         | (w, Some input) \<Rightarrow>
           (let (lines, words) = wc_loop 0 0 False input;
                w = ush_wc_write_u64_dec lines w; w = emit '' '' w;
                w = ush_wc_write_u64_dec words w; w = emit '' '' w;
                w = ush_wc_write_u64_dec (length input) w
            in (emit [newline] w, sh, True))))"

definition wc_main :: "'k kernel \<Rightarrow> 'k world \<Rightarrow> 'k world \<times> int" where
  "wc_main K w = app_main K ''wc'' (ush_cmd_wc K) w"

section \<open>\<open>grep\<close>\<close>

definition ush_grep_write_u64_dec :: "nat \<Rightarrow> 'k world \<Rightarrow> 'k world" where
  "ush_grep_write_u64_dec v w = emit (u64_dec v) w"

definition ush_grep_line_has_pattern :: "string \<Rightarrow> string \<Rightarrow> bool" where
  "ush_grep_line_has_pattern line pattern =
     (if pattern = [] then True
      else if length line < length pattern then False
      else list_ex (\<lambda>i. has_prefix_loop (drop i line) pattern) [0..<length line - length pattern + 1])"

text \<open>Its loop runs to \<open>i = input_len\<close>, so the text after the last newline is always a line.\<close>

fun grep_segments :: "string \<Rightarrow> string \<Rightarrow> string list" where
  "grep_segments cur [] = [cur]"
| "grep_segments cur (c # cs) =
     (if c = newline then cur # grep_segments [] cs else grep_segments (cur @ [c]) cs)"

fun grep_loop :: "string \<Rightarrow> bool \<Rightarrow> nat \<Rightarrow> nat \<Rightarrow> string list \<Rightarrow> 'k world \<Rightarrow> 'k world \<times> nat" where
  "grep_loop pattern with_line_number line_no matches [] w = (w, matches)"
| "grep_loop pattern with_line_number line_no matches (line # ls) w =
     (if ush_grep_line_has_pattern line pattern
      then (let w = (if with_line_number then emit '':'' (ush_grep_write_u64_dec line_no w) else w);
                w = emit line w; w = emit [newline] w
            in grep_loop pattern with_line_number (line_no + 1) (matches + 1) ls w)
      else grep_loop pattern with_line_number (line_no + 1) matches ls w)"

definition ush_grep_emit_matches :: "string \<Rightarrow> string \<Rightarrow> bool \<Rightarrow> 'k world \<Rightarrow> 'k world \<times> nat" where
  "ush_grep_emit_matches input pattern with_line_number w =
     grep_loop pattern with_line_number 1 0 (grep_segments [] input) w"

definition grep_usage :: "'k kernel \<Rightarrow> 'k world \<Rightarrow> 'k world" where
  "grep_usage K w = ush_writeln_i18n K ''grep: usage grep [-n] <pattern> [file]''
     (''grep: '' @ utf8 [0x7528, 0x6CD5] @ '' grep [-n] <pattern> [file]'') w"

text \<open>Pattern, file argument and \<open>-n\<close>; \<open>None\<close> when the usage is printed.\<close>

definition grep_args :: "string \<Rightarrow> (bool \<times> string \<times> string option) option" where
  "grep_args arg =
     (if arg = [] then None
      else (case ush_split_first_and_rest (Some arg) USH_PATH_MAX of
          None \<Rightarrow> None
        | Some (first, rest) \<Rightarrow>
          (case (if ush_streq (Some first) (Some ''-n'')
                 then (case ush_split_first_and_rest (Some rest) USH_PATH_MAX of
                     None \<Rightarrow> None
                   | Some (second, rest2) \<Rightarrow> Some (True, second, rest2))
                 else Some (False, first, rest)) of
             None \<Rightarrow> None
           | Some (with_line_number, pattern, rest) \<Rightarrow>
             if rest \<noteq> []
             then (case ush_split_first_and_rest (Some rest) USH_PATH_MAX of
                 None \<Rightarrow> None
               | Some (third, rest2) \<Rightarrow>
                 if rest2 \<noteq> [] then None else Some (with_line_number, pattern, Some third))
             else Some (with_line_number, pattern, None))))"

definition ush_cmd_grep :: "'k kernel \<Rightarrow> 'k command" where
  "ush_cmd_grep K sh arg w =
     (case grep_args arg of
        None \<Rightarrow> (grep_usage K w, sh, False)
      | Some (with_line_number, pattern, file_arg) \<Rightarrow>
        if pattern = []
        then (ush_writeln_i18n K ''grep: pattern required'' (''grep: '' @ utf8 [0x9700, 0x8981, 0x5339, 0x914D, 0x6A21, 0x5F0F]) w, sh, False)
        else (case file_arg of
            Some f \<Rightarrow>
              (case tool_load_file K ''grep'' sh f w of
                 (w, None) \<Rightarrow> (w, sh, False)
               | (w, Some input) \<Rightarrow>
                   if input = [] then (w, sh, True)
                   else (fst (ush_grep_emit_matches input pattern with_line_number w), sh, True))
          | None \<Rightarrow>
              (case tool_load_input K ''grep'' sh [] w of
                 (w, None) \<Rightarrow> (w, sh, False)
               | (w, Some input) \<Rightarrow> (fst (ush_grep_emit_matches input pattern with_line_number w), sh, True))))"

definition grep_main :: "'k kernel \<Rightarrow> 'k world \<Rightarrow> 'k world \<times> int" where
  "grep_main K w = app_main K ''grep'' (ush_cmd_grep K) w"

section \<open>Lemmas on the loops\<close>

lemma fold_write_char [simp]: "fold ush_write_char s w = emit s w"
  by (induction s arbitrary: w) (simp_all add: ush_write_char_def)

lemma uniq_line_equal_iff [simp]: "ush_uniq_line_equal l r \<longleftrightarrow> l = r"
proof
  assume "ush_uniq_line_equal l r"
  then have "length l = length r" "\<forall>i<length l. l ! i = r ! i"
    by (simp_all add: ush_uniq_line_equal_def list_all_iff split: if_splits)
  then show "l = r" by (intro nth_equalityI) simp_all
qed (simp add: ush_uniq_line_equal_def list_all_iff)

lemma emit_unlines_Cons: "emit (unlines ls) (emit (l @ [newline]) w) = emit (unlines (l # ls)) w"
  by (simp add: unlines_def)

lemma uniq_loop_spec [c_spec]:
  "uniq_loop (Some p) ls w = emit (unlines (tl (remdups_adj (p # ls)))) w"
  "uniq_loop None ls w = emit (unlines (remdups_adj ls)) w"
proof -
  show s: "uniq_loop (Some p) ls w = emit (unlines (tl (remdups_adj (p # ls)))) w" for p ls w
  proof (induction ls arbitrary: p w)
    case (Cons l ls)
    have h: "remdups_adj (l # ls) = l # tl (remdups_adj (l # ls))"
      using remdups_adj_Cons' [of l ls] by (metis list.sel(3))
    show ?case
    proof (cases "p = l")
      case True
      then show ?thesis using Cons.IH [of l w] by simp
    next
      case False
      have "uniq_loop (Some p) (l # ls) w = emit (unlines (tl (remdups_adj (l # ls)))) (emit (l @ [newline]) w)"
        using False Cons.IH [of l] by (simp add: ush_uniq_emit_line_def ush_write_char_def)
      also have "\<dots> = emit (unlines (l # tl (remdups_adj (l # ls)))) w" by (rule emit_unlines_Cons)
      also have "l # tl (remdups_adj (l # ls)) = tl (remdups_adj (p # l # ls))"
        using False h by simp
      finally show ?thesis .
    qed
  qed (simp add: unlines_def)
  show "uniq_loop None ls w = emit (unlines (remdups_adj ls)) w"
  proof (cases ls)
    case (Cons l ls')
    have h: "remdups_adj (l # ls') = l # tl (remdups_adj (l # ls'))"
      using remdups_adj_Cons' [of l ls'] by (metis list.sel(3))
    have "uniq_loop None (l # ls') w = emit (unlines (tl (remdups_adj (l # ls')))) (emit (l @ [newline]) w)"
      by (simp add: s ush_uniq_emit_line_def ush_write_char_def)
    also have "\<dots> = emit (unlines (l # tl (remdups_adj (l # ls')))) w" by (rule emit_unlines_Cons)
    finally show ?thesis unfolding Cons h [symmetric] .
  qed (simp add: unlines_def)
qed

lemma head_loop_line:
  "newline \<notin> set l \<Longrightarrow> e < n \<Longrightarrow>
   head_loop n e (l @ newline # r) w = head_loop n (e + 1) r (emit (l @ [newline]) w)"
  "newline \<notin> set l \<Longrightarrow> e < n \<Longrightarrow> head_loop n e l w = emit l w"
  by (induction l arbitrary: w) auto

lemma head_loop_spec [c_spec]: "head_loop n e s w = emit (concat (take (n - e) (raw_lines s))) w"
proof (induction s arbitrary: e w rule: text_induct)
  case (last s)
  show ?case
  proof (cases "e < n")
    case True
    then have "take (n - e) [s] = [s]" by simp
    then show ?thesis using last True by (simp add: head_loop_line raw_lines_step)
  next
    case False
    then show ?thesis by (cases s) simp_all
  qed
next
  case (line l r)
  show ?case
  proof (cases "e < n")
    case True
    then have "n - e = Suc (n - (e + 1))" by simp
    then show ?thesis using line True by (simp add: head_loop_line raw_lines_step)
  next
    case False
    then show ?thesis by (cases l) simp_all
  qed
qed simp

lemma tail_count_line:
  "newline \<notin> set l \<Longrightarrow> tail_count_loop k (l @ newline # r) = tail_count_loop (if r = [] then k else k + 1) r"
  "newline \<notin> set l \<Longrightarrow> tail_count_loop k l = k"
  by (induction l) auto

lemma tail_count_spec [c_spec]:
  "s \<noteq> [] \<Longrightarrow> tail_count_loop k s = k + length (raw_lines s) - 1"
proof (induction s arbitrary: k rule: text_induct)
  case (line l r)
  show ?case
  proof (cases "r = []")
    case False
    then have "raw_lines r \<noteq> []" using concat_raw_lines [of r] by force
    then show ?thesis using line False by (cases "raw_lines r") (simp_all add: tail_count_line raw_lines_step)
  qed (use line in \<open>simp add: tail_count_line raw_lines_step\<close>)
qed (simp_all add: tail_count_line raw_lines_step)

lemma tail_start_line:
  "newline \<notin> set l \<Longrightarrow> tail_start_loop k e i (l @ newline # r) =
     (if r = [] then i + length l + 1
      else if e + 1 = k then i + length l + 1 else tail_start_loop k (e + 1) (i + length l + 1) r)"
  by (induction l arbitrary: i) auto

lemma tail_start_spec [c_spec]:
  "e < k \<Longrightarrow> k - e < length (raw_lines s) \<Longrightarrow>
   tail_start_loop k e i s = i + length (concat (take (k - e) (raw_lines s)))"
proof (induction s arbitrary: e i rule: text_induct)
  case (line l r)
  have r: "r \<noteq> []" using line.prems line.hyps by (cases "r = []") (auto simp: raw_lines_step)
  show ?case
  proof (cases "e + 1 = k")
    case True
    then have "k - e = Suc 0" by simp
    then show ?thesis using line.hyps r True by (simp add: tail_start_line raw_lines_step)
  next
    case False
    then have ke: "e + 1 < k" "k - e = Suc (k - (e + 1))" using line.prems by simp_all
    moreover have "k - (e + 1) < length (raw_lines r)" using line.prems line.hyps ke by (simp add: raw_lines_step)
    ultimately show ?thesis using line.hyps line.IH [of "e + 1"] r False
      by (simp add: tail_start_line raw_lines_step)
  qed
qed (simp_all add: raw_lines_step)

lemma drop_concat_take: "drop (length (concat (take k ls))) (concat ls) = concat (drop k ls)"
  by (metis append_eq_conv_conj append_take_drop_id concat_append)

text \<open>What \<open>tail\<close> writes of a non-empty input.\<close>

lemma tail_output [c_spec]:
  assumes "s \<noteq> []" "n \<noteq> 0"
  shows "drop (ush_tail_find_start_offset s (if n < ush_tail_count_lines s then ush_tail_count_lines s - n else 0)) s
    = concat (drop (length (raw_lines s) - n) (raw_lines s))"
proof -
  have r: "raw_lines s \<noteq> []" using concat_raw_lines [of s] assms(1) by force
  then have c: "ush_tail_count_lines s = length (raw_lines s)"
    using assms(1) by (simp add: ush_tail_count_lines_def tail_count_spec)
  show ?thesis
  proof (cases "n < length (raw_lines s)")
    case True
    define k where "k = length (raw_lines s) - n"
    have "tail_start_loop k 0 0 s = length (concat (take k (raw_lines s)))"
      using tail_start_spec [of 0 k s 0] True assms(2) by (simp add: k_def)
    then have "drop (tail_start_loop k 0 0 s) s = drop (length (concat (take k (raw_lines s)))) (concat (raw_lines s))"
      by (simp only: concat_raw_lines)
    also have "\<dots> = concat (drop k (raw_lines s))" by (rule drop_concat_take)
    finally show ?thesis using True assms(1) by (simp add: ush_tail_find_start_offset_def c k_def)
  next
    case False
    then show ?thesis by (simp add: c ush_tail_find_start_offset_def concat_raw_lines)
  qed
qed

text \<open>The fields of a line.\<close>

fun fields_from :: "char \<Rightarrow> string \<Rightarrow> string \<Rightarrow> string list" where
  "fields_from delim cur [] = [cur]"
| "fields_from delim cur (c # cs) =
     (if c = delim then cur # fields_from delim [] cs else fields_from delim (cur @ [c]) cs)"

lemma cut_scan_spec [c_spec]:
  "current \<le> idx \<Longrightarrow> cut_scan delim idx current cur line =
     (let fs = fields_from delim cur line in if idx - current < length fs then fs ! (idx - current) else [])"
proof (induction line arbitrary: current cur)
  case (Cons c cs)
  show ?case
  proof (cases "c = delim \<and> current \<noteq> idx")
    case True
    then have "idx - current = Suc (idx - (current + 1))" "current + 1 \<le> idx" using Cons.prems by auto
    then show ?thesis using Cons.IH [of "current + 1" "[]"] True by (simp add: Let_def)
  qed (use Cons in auto)
qed simp

definition field_at :: "char \<Rightarrow> nat \<Rightarrow> string \<Rightarrow> string" where
  "field_at d n l = (let fs = fields_from d [] l in if n - 1 < length fs then fs ! (n - 1) else [])"

lemma cut_scan_field: "1 \<le> n \<Longrightarrow> cut_scan d n 1 [] = field_at d n"
  unfolding field_at_def by (rule ext) (rule cut_scan_spec)

lemma fields_join: "fields_from delim cur line \<noteq> [] \<and>
   cur @ line = concat (map (\<lambda>f. f @ [delim]) (butlast (fields_from delim cur line))) @ last (fields_from delim cur line)"
proof (induction line arbitrary: cur)
  case (Cons c cs)
  show ?case using Cons [of "[]"] Cons [of "cur @ [c]"] by auto
qed simp

lemma cut_fold [c_spec]:
  "fold (ush_cut_emit_field d n) ls w = emit (unlines (map (cut_scan d n 1 []) ls)) w"
  by (induction ls arbitrary: w) (simp_all add: ush_cut_emit_field_def ush_write_char_def unlines_def)

text \<open>The words of a text.\<close>

function text_words :: "string \<Rightarrow> string list" where
  "text_words s = (let t = skip_spaces s in if t = [] then [] else word_of t # text_words (after_word t))"
  by pat_completeness auto
termination
proof (relation "measure length", simp)
  fix s t assume a: "t = skip_spaces s" "t \<noteq> []"
  from a(2) obtain c u where t: "t = c # u" by (cases t) auto
  have "\<not> ush_is_space (hd t)" unfolding a(1) by (rule hd_dropWhile) (use a in simp)
  then have "\<not> ush_is_space c" by (simp add: t)
  then have "length (after_word t) \<le> length u" by (simp add: t length_dropWhile_le)
  also have "length u < length t" by (simp add: t)
  also have "length t \<le> length s" unfolding a(1) by (rule length_dropWhile_le)
  finally show "(after_word t, s) \<in> measure length" by simp
qed

declare text_words.simps [simp del]

lemma text_words_space: "ush_is_space c \<Longrightarrow> text_words (c # s) = text_words s"
  by (simp add: text_words.simps [of "c # s"] text_words.simps [of s])

lemma text_words_word: "\<not> ush_is_space c \<Longrightarrow> text_words (c # s) = (c # word_of s) # text_words (after_word s)"
  by (simp add: text_words.simps [of "c # s"])

lemma wc_loop_spec [c_spec]:
  "wc_loop l k False s = (l + count_list s newline, k + length (text_words s))"
  "wc_loop l k True s = (l + count_list s newline, k + length (text_words (after_word s)))"
proof (induction s arbitrary: l k)
  case Nil
  case 1 show ?case by (simp add: text_words.simps [of "[]"])
  case 2 show ?case by (simp add: text_words.simps [of "[]"])
next
  case (Cons c s)
  case 1 show ?case using Cons by (auto simp: Let_def text_words_space text_words_word)
  case 2 show ?case using Cons by (auto simp: Let_def text_words_space text_words_word)
qed

lemma has_pattern_iff [c_spec]:
  "ush_grep_line_has_pattern line pattern \<longleftrightarrow> (\<exists>a b. line = a @ pattern @ b)"
proof
  assume h: "ush_grep_line_has_pattern line pattern"
  show "\<exists>a b. line = a @ pattern @ b"
  proof (cases "pattern = []")
    case True
    then show ?thesis by (intro exI [of _ "[]"] exI [of _ line]) simp
  next
    case False
    then have "list_ex (\<lambda>i. take (length pattern) (drop i line) = pattern) [0..<length line - length pattern + 1]"
      using h by (simp only: ush_grep_line_has_pattern_def has_prefix_loop_iff split: if_splits)
    then obtain i where "take (length pattern) (drop i line) = pattern" by (meson list_ex_iff)
    then have "drop i line = pattern @ drop (length pattern) (drop i line)" by (metis append_take_drop_id)
    then show ?thesis by (metis append_take_drop_id)
  qed
next
  assume "\<exists>a b. line = a @ pattern @ b"
  then obtain a b where l: "line = a @ pattern @ b" by blast
  then have "length a \<in> set [0..<length line - length pattern + 1]" by simp
  moreover have "has_prefix_loop (drop (length a) line) pattern" by (simp add: l has_prefix_loop_iff)
  ultimately have "list_ex (\<lambda>i. has_prefix_loop (drop i line) pattern) [0..<length line - length pattern + 1]"
    unfolding list_ex_iff by (rule bexI [rotated])
  moreover have "\<not> length line < length pattern" by (simp add: l)
  ultimately show "ush_grep_line_has_pattern line pattern"
    unfolding ush_grep_line_has_pattern_def by (simp only: if_False simp_thms split: if_split)
qed

lemma grep_segments_line:
  "newline \<notin> set l \<Longrightarrow> grep_segments cur (l @ newline # r) = (cur @ l) # grep_segments [] r"
  "newline \<notin> set l \<Longrightarrow> grep_segments cur l = [cur @ l]"
  by (induction l arbitrary: cur) auto

text \<open>Its lines are those of the other tools, and an empty one behind a final newline.\<close>

lemma grep_segments_lines:
  "grep_segments [] s = line_segments s @ (if s = [] \<or> last s = newline then [[]] else [])"
proof (induction s rule: text_induct)
  case (last s)
  then have "List.last s \<noteq> newline" using last_in_set by metis
  with last show ?case by (simp add: grep_segments_line segments_from_line)
qed (auto simp: grep_segments_line segments_from_line)

lemma grep_loop_plain [c_spec]:
  "grep_loop pattern False n m ls w =
    (emit (unlines (filter (\<lambda>l. ush_grep_line_has_pattern l pattern) ls)) w,
     m + length (filter (\<lambda>l. ush_grep_line_has_pattern l pattern) ls))"
  by (induction ls arbitrary: n m w) (simp_all add: unlines_def Let_def)

lemma grep_loop_numbered [c_spec]:
  "grep_loop pattern True n m ls w =
    (let found = filter (\<lambda>(i, l). ush_grep_line_has_pattern l pattern) (enumerate n ls)
     in (emit (unlines (map (\<lambda>(i, l). u64_dec i @ '':'' @ l) found)) w, m + length found))"
  by (induction ls arbitrary: n m w) (simp_all add: unlines_def Let_def ush_grep_write_u64_dec_def)

lemma cut_args_field:
  "cut_args_loop opts c = Some opts' \<Longrightarrow> 0 < co_field opts \<Longrightarrow> 0 < co_field opts'"
proof (induction opts c rule: cut_args_loop.induct)
  case (1 opts cursor)
  show ?case
  proof (cases "cursor = []")
    case False
    note e = "1.prems"(1) [unfolded cut_args_loop.simps [of opts cursor]]
    obtain token rest where sp: "ush_split_first_and_rest (Some cursor) USH_PATH_MAX = Some (token, rest)"
      using e False by (cases "ush_split_first_and_rest (Some cursor) USH_PATH_MAX") auto
    consider (d) "ush_streq (Some token) (Some ''-d'')"
      | (f) "\<not> ush_streq (Some token) (Some ''-d'')" "ush_streq (Some token) (Some ''-f'')"
      | (o) "\<not> ush_streq (Some token) (Some ''-d'')" "\<not> ush_streq (Some token) (Some ''-f'')" by blast
    then show ?thesis
    proof cases
      case d
      then obtain v c' dl where s2: "ush_split_first_and_rest (Some rest) USH_PATH_MAX = Some (v, c')"
        and dl: "ush_cut_parse_delim v = Some dl"
        and r: "cut_args_loop (opts\<lparr>co_delim := dl, co_delim_set := True\<rparr>) c' = Some opts'"
        using e False by (simp add: sp split: option.splits prod.splits)
      show ?thesis using "1.IH"(1) [OF False sp refl d s2 refl dl r] "1.prems"(2) by simp
    next
      case f
      then obtain v c' n where s2: "ush_split_first_and_rest (Some rest) USH_PATH_MAX = Some (v, c')"
        and n: "ush_parse_u64_dec (Some v) = Some n" "n \<noteq> 0"
        and r: "cut_args_loop (opts\<lparr>co_field := n, co_field_set := True\<rparr>) c' = Some opts'"
        using e False by (simp add: sp split: option.splits prod.splits if_splits)
      show ?thesis using "1.IH"(2) [OF False sp refl f s2 refl n r] n(2) by simp
    next
      case o
      then have c: "ch_at token 0 \<noteq> CHR ''-''" "\<not> co_file_set opts"
        and r: "cut_args_loop (opts\<lparr>co_file := ush_copy (co_file opts) USH_PATH_MAX (Some token), co_file_set := True\<rparr>) rest = Some opts'"
        using e False by (simp_all add: sp split: if_splits)
      show ?thesis using "1.IH"(3) [OF False sp refl o c r] "1.prems"(2) by simp
    qed
  next
    case True
    then have "cut_args_loop opts cursor = Some opts" by (simp add: cut_args_loop.simps)
    then show ?thesis using "1.prems" by simp
  qed
qed

lemma cut_parse_field: "ush_cut_parse_args arg = Some (d, n, f) \<Longrightarrow> 1 \<le> n"
  by (auto simp: ush_cut_parse_args_def Suc_le_eq split: if_splits option.splits dest: cut_args_field)

text \<open>Evaluation of the argument parsers on given texts.\<close>

lemma split_eval:
  "ush_split_first_and_rest (Some arg) USH_PATH_MAX =
     (let arg = skip_spaces arg in
      if arg = [] then None else Some (take 191 (word_of arg), skip_spaces (after_word arg)))"
  by (simp add: ush_split_first_and_rest_def fill_take USH_PATH_MAX_def Let_def)

lemmas parse_eval = split_eval ush_is_space_def c_isspace_def uchar_def ush_streq_def Let_def
  ush_parse_u64_dec_def c_isdigit_def U64_MAX_def ush_cut_parse_delim_def cut_args_loop.simps ch_at_def

section \<open>Properties\<close>

definition pipe_world :: "string \<Rightarrow> string world" where
  "pipe_world t = (demo_world [])\<lparr>w_pipe := Some t\<rparr>"

definition demo_text :: string where
  "demo_text = ''a,b'' @ newline # ''a,b'' @ newline # ''c d'' @ newline # ''e,f''"

lemma demo_text_lines:
  "line_segments demo_text = [''a,b'', ''a,b'', ''c d'', ''e,f'']"
  "raw_lines demo_text = [''a,b'' @ [newline], ''a,b'' @ [newline], ''c d'' @ [newline], ''e,f'']"
  by code_simp+

lemma cmd_uniq_spec [c_spec]:
  "w_pipe w = Some t \<Longrightarrow>
   ush_cmd_uniq K sh [] w = (emit (unlines (remdups_adj (line_segments t))) w, sh, True)"
  by (simp add: ush_cmd_uniq_def ush_uniq_parse_args_def ush_uniq_load_input_def load_pipe uniq_loop_spec)

text \<open>\<open>uniq\<close> writes the lines of its input without those equal to the line before them.\<close>

theorem cmd_uniq_pipeline:
  "w_pipe w = Some t \<Longrightarrow>
   ush_cmd_uniq K sh [] w = (emit (unlines (remdups_adj (line_segments t))) w, sh, True)"
  by (rule cmd_uniq_spec)

theorem cmd_uniq_pipeline_witness:
  "ush_cmd_uniq demo_sys ush_init_state [] (pipe_world demo_text) =
     (emit (unlines [''a,b'', ''c d'', ''e,f'']) (pipe_world demo_text), ush_init_state, True)"
  using cmd_uniq_pipeline [of "pipe_world demo_text" demo_text demo_sys ush_init_state]
  by (simp add: pipe_world_def demo_text_lines)

text \<open>\<open>head -n N\<close> writes the first \<open>N\<close> lines of its input and \<open>tail -n N\<close> the last \<open>N\<close> (all when there
  are fewer), byte for byte: the lines with their newlines make up the input.\<close>

theorem head_tail_pipeline:
  assumes "parse_count_file arg = Some (n, [])" "w_pipe w = Some t"
  shows "ush_cmd_head K sh arg w = (emit (concat (take n (raw_lines t))) w, sh, True)
    \<and> ush_cmd_tail K sh arg w = (emit (concat (drop (length (raw_lines t) - n) (raw_lines t))) w, sh, True)
    \<and> concat (raw_lines t) = t"
proof -
  have "ush_cmd_head K sh arg w = (emit (concat (take n (raw_lines t))) w, sh, True)"
    using assms by (simp add: ush_cmd_head_def ush_head_parse_args_def ush_head_load_input_def load_pipe
        ush_head_emit_def head_loop_spec)
  moreover have "ush_cmd_tail K sh arg w = (emit (concat (drop (length (raw_lines t) - n) (raw_lines t))) w, sh, True)"
  proof (cases "n = 0 \<or> t = []")
    case True
    then show ?thesis using assms
      by (auto simp: ush_cmd_tail_def ush_tail_parse_args_def ush_tail_load_input_def load_pipe)
  next
    case False
    then show ?thesis using assms tail_output [of t n]
      by (simp add: ush_cmd_tail_def ush_tail_parse_args_def ush_tail_load_input_def load_pipe Let_def)
  qed
  ultimately show ?thesis by (simp add: concat_raw_lines)
qed

theorem head_tail_pipeline_witness:
  "ush_cmd_head demo_sys ush_init_state ''-n 1'' (pipe_world demo_text) =
     (emit (''a,b'' @ [newline]) (pipe_world demo_text), ush_init_state, True)"
proof -
  have "parse_count_file ''-n 1'' = Some (1, [])" by (simp add: parse_count_file_def parse_eval)
  from head_tail_pipeline [OF this, of "pipe_world demo_text" demo_text] show ?thesis
    by (simp add: pipe_world_def demo_text_lines)
qed

text \<open>\<open>cut -d D -f N\<close> writes of every line the \<open>N\<close>-th field between delimiters, and an empty line when
  the line has fewer fields (the fields joined by the delimiter are the line).\<close>

theorem cmd_cut_pipeline:
  assumes "ush_cut_parse_args arg = Some (d, n, [])" "w_pipe w = Some t"
  shows "ush_cmd_cut K sh arg w = (emit (unlines (map (field_at d n) (line_segments t))) w, sh, True)
    \<and> (\<forall>l. l = concat (map (\<lambda>f. f @ [d]) (butlast (fields_from d [] l))) @ last (fields_from d [] l))"
proof -
  have "ush_cmd_cut K sh arg w = (emit (unlines (map (cut_scan d n 1 []) (line_segments t))) w, sh, True)"
    using assms by (simp add: ush_cmd_cut_def ush_cut_load_input_def load_pipe cut_fold)
  then show ?thesis
    unfolding cut_scan_field [OF cut_parse_field [OF assms(1)]] using fields_join [of d "[]"] by simp
qed

theorem cmd_cut_pipeline_witness:
  "ush_cmd_cut demo_sys ush_init_state ''-f 2 -d ,'' (pipe_world demo_text) =
     (emit (unlines [''b'', ''b'', [], ''f'']) (pipe_world demo_text), ush_init_state, True)"
proof -
  have "ush_cut_parse_args ''-f 2 -d ,'' = Some (CHR '','', 2, [])"
    by (simp add: ush_cut_parse_args_def parse_eval)
  from cmd_cut_pipeline [OF this, of "pipe_world demo_text" demo_text] show ?thesis
    by (simp add: pipe_world_def demo_text_lines field_at_def)
qed

text \<open>\<open>wc\<close> prints the numbers of newlines, of words (maximal runs of characters that are not space)
  and of bytes of its input.\<close>

theorem cmd_wc_pipeline:
  "w_pipe w = Some t \<Longrightarrow> ush_cmd_wc K sh [] w =
     (emit (u64_dec (count_list t newline) @ '' '' @ u64_dec (length (text_words t)) @ '' '' @
            u64_dec (length t) @ [newline]) w, sh, True)"
  by (simp add: ush_cmd_wc_def ush_wc_parse_args_def ush_wc_load_input_def load_pipe wc_loop_spec
      ush_wc_write_u64_dec_def Let_def)

theorem cmd_wc_pipeline_witness:
  "ush_cmd_wc demo_sys ush_init_state [] (pipe_world demo_text) =
     (emit ''3 5 15'' (pipe_world demo_text) \<lparr>w_out := ''3 5 15'' @ [newline]\<rparr>, ush_init_state, True)"
proof -
  have "u64_dec (count_list demo_text newline) = ''3''" "u64_dec (length (text_words demo_text)) = ''5''"
    "u64_dec (length demo_text) = ''15''" by code_simp+
  then show ?thesis
    using cmd_wc_pipeline [of "pipe_world demo_text" demo_text demo_sys ush_init_state]
    by (simp add: pipe_world_def demo_world_def emit_def)
qed

text \<open>\<open>grep\<close> writes exactly the lines of its input that contain the pattern, in order; with \<open>-n\<close> each
  behind its line number, counted from 1.\<close>

theorem cmd_grep_pipeline:
  assumes "grep_args arg = Some (numbered, pat, None)" "pat \<noteq> []" "w_pipe w = Some t"
  shows "ush_cmd_grep K sh arg w = (emit (unlines (if numbered
      then map (\<lambda>(i, l). u64_dec i @ '':'' @ l) (filter (\<lambda>(i, l). \<exists>a b. l = a @ pat @ b) (enumerate 1 (line_segments t)))
      else filter (\<lambda>l. \<exists>a b. l = a @ pat @ b) (line_segments t))) w, sh, True)"
proof -
  have e: "\<not> ush_grep_line_has_pattern [] pat" using assms(2) by (simp add: has_pattern_iff)
  have "fst (ush_grep_emit_matches t pat numbered w) = emit (unlines (if numbered
      then map (\<lambda>(i, l). u64_dec i @ '':'' @ l) (filter (\<lambda>(i, l). ush_grep_line_has_pattern l pat) (enumerate 1 (line_segments t)))
      else filter (\<lambda>l. ush_grep_line_has_pattern l pat) (line_segments t))) w"
    using e by (simp add: ush_grep_emit_matches_def grep_segments_lines grep_loop_plain grep_loop_numbered
        enumerate_append_eq Let_def)
  then show ?thesis using assms unfolding has_pattern_iff
    by (simp add: ush_cmd_grep_def load_pipe)
qed

theorem cmd_grep_pipeline_witness:
  "ush_cmd_grep demo_sys ush_init_state ''-n c'' (pipe_world demo_text) =
     (emit (unlines [''3:c d'']) (pipe_world demo_text), ush_init_state, True)"
proof -
  have g: "grep_args ''-n c'' = Some (True, ''c'', None)" by (simp add: grep_args_def parse_eval)
  have h: "ush_grep_line_has_pattern l ''c'' \<longleftrightarrow> CHR ''c'' \<in> set l" for l
    by (simp add: has_pattern_iff in_set_conv_decomp)
  have "u64_dec (Suc (Suc (Suc 0))) = ''3''" by code_simp
  then show ?thesis
    using cmd_grep_pipeline [OF g, of "pipe_world demo_text" demo_text demo_sys ush_init_state]
    unfolding has_pattern_iff [symmetric] h by (simp add: pipe_world_def demo_text_lines)
qed

end
