(* ===== verification/Partctl.thy ===== *)
theory Partctl
  imports LibcStdio TextTools
begin

text \<open>
  \<open>cleonos/c/apps/partctl_main.c\<close>: the editor of the partition table in sector 0 of the disk. A
  sector is a string of 512 bytes; the disk is behind the \<open>k_disk_...\<close> calls of the kernel record.
  \<open>printf\<close> is the formatter of \<open>LibcStdio\<close> on the terminal. The edits of the sector that the
  commands make in place are definitions of their own (\<open>..._edit\<close>), and each is shown to refine an
  operation on the table of four entries.
\<close>

section \<open>Definitions\<close>

definition PARTCTL_SECTOR_SIZE :: nat where "PARTCTL_SECTOR_SIZE = 512"
definition PARTCTL_MBR_ENTRY_OFFSET :: nat where "PARTCTL_MBR_ENTRY_OFFSET = 446"
definition PARTCTL_MBR_ENTRY_SIZE :: nat where "PARTCTL_MBR_ENTRY_SIZE = 16"
definition PARTCTL_MBR_ENTRY_COUNT :: nat where "PARTCTL_MBR_ENTRY_COUNT = 4"
definition PARTCTL_MBR_SIG_OFFSET :: nat where "PARTCTL_MBR_SIG_OFFSET = 510"

lemmas partctl_consts = PARTCTL_SECTOR_SIZE_def PARTCTL_MBR_ENTRY_OFFSET_def PARTCTL_MBR_ENTRY_SIZE_def
  PARTCTL_MBR_ENTRY_COUNT_def PARTCTL_MBR_SIG_OFFSET_def

definition byte_at :: "string \<Rightarrow> nat \<Rightarrow> u32" where
  "byte_at s i = word_of_int (uchar (s ! i))"

definition partctl_read_u32_le :: "string \<Rightarrow> nat \<Rightarrow> u32" where
  "partctl_read_u32_le s p =
     or (or (or (byte_at s p) (push_bit 8 (byte_at s (p + 1)))) (push_bit 16 (byte_at s (p + 2))))
        (push_bit 24 (byte_at s (p + 3)))"

definition partctl_write_u32_le :: "string \<Rightarrow> nat \<Rightarrow> u32 \<Rightarrow> string" where
  "partctl_write_u32_le s p v =
     s[p := to_char (uint (and v 0xFF)),
       p + 1 := to_char (uint (and (drop_bit 8 v) 0xFF)),
       p + 2 := to_char (uint (and (drop_bit 16 v) 0xFF)),
       p + 3 := to_char (uint (and (drop_bit 24 v) 0xFF))]"

definition partctl_parse_u64 :: "string option \<Rightarrow> nat option" where
  "partctl_parse_u64 text =
     (case text of None \<Rightarrow> None
      | Some t \<Rightarrow>
        if t = [] then None
        else (let (v, end) = c_strtoull (Some t) 0
              in if end = 0 \<or> ch_at t end \<noteq> NUL then None else Some v))"

text \<open>\<open>tokens[count]\<close> takes at most \<open>USH_ARG_MAX - 1\<close> bytes of a word; the rest of it is skipped.\<close>

function partctl_tokenize :: "string \<Rightarrow> nat \<Rightarrow> string list" where
  "partctl_tokenize arg max_tokens =
     (if arg = [] \<or> max_tokens = 0 then []
      else (let arg = dropWhile ush_is_space arg in
        if arg = [] then []
        else take (USH_ARG_MAX - 1) (takeWhile (\<lambda>c. \<not> ush_is_space c) arg)
             # partctl_tokenize (dropWhile (\<lambda>c. \<not> ush_is_space c) arg) (max_tokens - 1)))"
  by pat_completeness auto
termination by (relation "measure snd") auto

declare partctl_tokenize.simps [simp del]

text \<open>\<open>printf\<close> on the terminal, which takes every byte.\<close>

definition term_put :: "string \<Rightarrow> 'k world \<Rightarrow> 'k world \<times> bool" where
  "term_put s w = (emit s w, True)"

definition term_printf :: "string \<Rightarrow> va_arg list \<Rightarrow> 'k world \<Rightarrow> 'k world" where
  "term_printf fmt args w = (case clio_vformat term_put fmt args w of None \<Rightarrow> w | Some (w, ok) \<Rightarrow> w)"

definition term_printf_i18n :: "'k kernel \<Rightarrow> string \<Rightarrow> string \<Rightarrow> va_arg list \<Rightarrow> 'k world \<Rightarrow> 'k world" where
  "term_printf_i18n K en zh args w =
     (let (w, is_zh) = ush_locale_is_zh K w in term_printf (if is_zh then zh else en) args w)"

definition partctl_disk_required :: "'k kernel \<Rightarrow> 'k world \<Rightarrow> 'k world \<times> bool" where
  "partctl_disk_required K w =
     (if k_disk_present K (w_k w) = 0
      then (ush_writeln_i18n K ''partctl: disk not present'' (''partctl: '' @ utf8 [0x78C1, 0x76D8, 0x4E0D, 0x5B58, 0x5728]) w, False)
      else (w, True))"

definition partctl_read_sector0 :: "'k kernel \<Rightarrow> 'k world \<Rightarrow> 'k world \<times> string option" where
  "partctl_read_sector0 K w =
     (case partctl_disk_required K w of
        (w, False) \<Rightarrow> (w, None)
      | (w, True) \<Rightarrow>
          (case k_disk_read_sector K (w_k w) 0 of
             None \<Rightarrow> (ush_writeln_i18n K ''partctl: read sector0 failed'' (''partctl: '' @ utf8 [0x8BFB, 0x53D6] @ '' sector0 '' @ utf8 [0x5931, 0x8D25]) w, None)
           | Some sector \<Rightarrow> (w, Some sector)))"

definition partctl_write_sector0 :: "'k kernel \<Rightarrow> string \<Rightarrow> 'k world \<Rightarrow> 'k world \<times> bool" where
  "partctl_write_sector0 K sector w =
     (case partctl_disk_required K w of
        (w, False) \<Rightarrow> (w, False)
      | (w, True) \<Rightarrow>
          (case k_disk_write_sector K (w_k w) 0 sector of (k, r) \<Rightarrow>
             if r = 0
             then (ush_writeln_i18n K ''partctl: write sector0 failed'' (''partctl: '' @ utf8 [0x5199, 0x5165] @ '' sector0 '' @ utf8 [0x5931, 0x8D25]) (w\<lparr>w_k := k\<rparr>), False)
             else (w\<lparr>w_k := k\<rparr>, True)))"

definition partctl_mbr_has_signature :: "string \<Rightarrow> bool" where
  "partctl_mbr_has_signature sector \<longleftrightarrow>
     sector ! PARTCTL_MBR_SIG_OFFSET = CHR 0x55 \<and> sector ! (PARTCTL_MBR_SIG_OFFSET + 1) = CHR 0xAA"

definition partctl_mbr_ensure_signature :: "string \<Rightarrow> string" where
  "partctl_mbr_ensure_signature sector =
     sector[PARTCTL_MBR_SIG_OFFSET := CHR 0x55, PARTCTL_MBR_SIG_OFFSET + 1 := CHR 0xAA]"

definition partctl_usage :: "'k kernel \<Rightarrow> 'k world \<Rightarrow> 'k world" where
  "partctl_usage K w =
     (let w = ush_writeln_i18n K ''partctl usage:'' (''partctl '' @ utf8 [0x7528, 0x6CD5] @ '':'') w;
          w = ush_writeln (Some ''  partctl list'') w;
          w = ush_writeln (Some ''  partctl init-mbr'') w;
          w = ush_writeln (Some ''  partctl create <index:1-4> <start_lba> <sectors> <type_hex> [boot:0|1]'') w;
          w = ush_writeln (Some ''  partctl delete <index:1-4>'') w
      in ush_writeln (Some ''  partctl set-boot <index:1-4> <0|1>'') w)"

text \<open>\<open>ush_zero(&sector[off], n)\<close>.\<close>

definition sector_zero :: "string \<Rightarrow> nat \<Rightarrow> nat \<Rightarrow> string" where
  "sector_zero s off n = fold (\<lambda>i s. s[off + i := NUL]) [0..<n] s"

definition entry_off :: "nat \<Rightarrow> nat" where
  "entry_off i = PARTCTL_MBR_ENTRY_OFFSET + i * PARTCTL_MBR_ENTRY_SIZE"

definition partctl_list_row :: "string \<Rightarrow> nat \<Rightarrow> 'k world \<Rightarrow> 'k world" where
  "partctl_list_row sector i w =
     (let off = entry_off i;
          boot = sector ! off;
          type = sector ! (off + 4);
          start = partctl_read_u32_le sector (off + 8);
          size' = partctl_read_u32_le sector (off + 12);
          end_lba = (if size' \<noteq> 0 then ucast start + ucast size' - 1 else 0 :: u64);
          w = term_printf ''%llu    %s   0x%02X  %-12llu %-12llu ''
                [VLong (of_nat (i + 1)), VStr (Some (if boot = CHR 0x80 then ''yes '' else ''no  '')),
                 VInt (word_of_int (uchar type)), VLong (ucast start), VLong (ucast size')] w
      in if size' = 0 then emit (''-'' @ [newline]) w
         else term_printf (''%llu'' @ [newline]) [VLong end_lba] w)"

definition partctl_cmd_list :: "'k kernel \<Rightarrow> 'k world \<Rightarrow> 'k world \<times> bool" where
  "partctl_cmd_list K w =
     (case partctl_read_sector0 K w of
        (w, None) \<Rightarrow> (w, False)
      | (w, Some sector) \<Rightarrow>
          (let disk_sectors = k_disk_sector_count K (w_k w);
               w = term_printf (''disk.sectors: %llu'' @ [newline]) [VLong (of_nat disk_sectors)] w;
               w = term_printf (''mbr.signature: %s'' @ [newline])
                     [VStr (Some (if partctl_mbr_has_signature sector then ''0x55AA'' else ''invalid''))] w;
               w = emit (''idx  boot  type  start_lba    sectors      end_lba'' @ [newline]) w;
               w = fold (partctl_list_row sector) [0..<PARTCTL_MBR_ENTRY_COUNT] w;
               has_any = list_ex (\<lambda>i. partctl_read_u32_le sector (entry_off i + 12) \<noteq> 0) [0..<PARTCTL_MBR_ENTRY_COUNT];
               w = (if \<not> has_any
                    then ush_writeln_i18n K ''partctl: no partition entries'' (''partctl: '' @ utf8 [0x6CA1, 0x6709, 0x5206, 0x533A, 0x9879]) w else w)
           in (w, True)))"

text \<open>The sums are of \<open>u64\<close> type; \<open>start\<close> and \<open>sectors\<close> are arbitrary here.\<close>

definition partctl_check_overlap :: "string \<Rightarrow> nat \<Rightarrow> nat \<Rightarrow> nat \<Rightarrow> bool" where
  "partctl_check_overlap sector skip_index start sectors =
     (let end = add64 start sectors in
      list_all (\<lambda>i.
        i = skip_index
        \<or> (let ex_start = unat (partctl_read_u32_le sector (entry_off i + 8));
               ex_size = unat (partctl_read_u32_le sector (entry_off i + 12))
           in ex_size = 0 \<or> end \<le> ex_start \<or> add64 ex_start ex_size \<le> start))
       [0..<PARTCTL_MBR_ENTRY_COUNT])"

definition init_mbr_edit :: "string \<Rightarrow> string" where
  "init_mbr_edit sector = partctl_mbr_ensure_signature (sector_zero sector 0 PARTCTL_SECTOR_SIZE)"

definition partctl_cmd_init_mbr :: "'k kernel \<Rightarrow> 'k world \<Rightarrow> 'k world \<times> bool" where
  "partctl_cmd_init_mbr K w =
     (case partctl_disk_required K w of
        (w, False) \<Rightarrow> (w, False)
      | (w, True) \<Rightarrow>
          (case partctl_write_sector0 K (init_mbr_edit (replicate PARTCTL_SECTOR_SIZE NUL)) w of
             (w, False) \<Rightarrow> (w, False)
           | (w, True) \<Rightarrow> (ush_writeln_i18n K ''partctl: MBR initialized'' (''partctl: MBR '' @ utf8 [0x5DF2, 0x521D, 0x59CB, 0x5316]) w, True)))"

definition parse_index :: "string option \<Rightarrow> nat option" where
  "parse_index text =
     (case partctl_parse_u64 text of None \<Rightarrow> None
      | Some index \<Rightarrow> if index < 1 \<or> PARTCTL_MBR_ENTRY_COUNT < index then None else Some index)"

definition delete_edit :: "nat \<Rightarrow> string \<Rightarrow> string" where
  "delete_edit i sector = partctl_mbr_ensure_signature (sector_zero sector (entry_off i) PARTCTL_MBR_ENTRY_SIZE)"

definition partctl_cmd_delete :: "'k kernel \<Rightarrow> string option \<Rightarrow> 'k world \<Rightarrow> 'k world \<times> bool" where
  "partctl_cmd_delete K index_text w =
     (case parse_index index_text of
        None \<Rightarrow> (ush_writeln_i18n K ''partctl: delete usage: partctl delete <index:1-4>''
                   (''partctl: delete '' @ utf8 [0x7528, 0x6CD5] @ '': partctl delete <index:1-4>'') w, False)
      | Some index \<Rightarrow>
        (case partctl_read_sector0 K w of
           (w, None) \<Rightarrow> (w, False)
         | (w, Some sector) \<Rightarrow>
             (case partctl_write_sector0 K (delete_edit (index - 1) sector) w of
                (w, False) \<Rightarrow> (w, False)
              | (w, True) \<Rightarrow>
                  (term_printf_i18n K (''partctl: deleted partition %llu'' @ [newline])
                     ((''partctl: '' @ utf8 [0x5DF2, 0x5220, 0x9664, 0x5206, 0x533A] @ '' %llu'') @ [newline]) [VLong (of_nat index)] w, True))))"

definition set_boot_edit :: "nat \<Rightarrow> nat \<Rightarrow> string \<Rightarrow> string" where
  "set_boot_edit index v sector =
     (let sector = fold (\<lambda>i s. if v \<noteq> 0 \<and> i + 1 \<noteq> index then s[entry_off i := CHR 0x00] else s)
                     [0..<PARTCTL_MBR_ENTRY_COUNT] sector;
          sector = sector[entry_off (index - 1) := (if v \<noteq> 0 then CHR 0x80 else CHR 0x00)]
      in partctl_mbr_ensure_signature sector)"

definition set_boot_usage :: "'k kernel \<Rightarrow> 'k world \<Rightarrow> 'k world" where
  "set_boot_usage K w =
     ush_writeln_i18n K ''partctl: set-boot usage: partctl set-boot <index:1-4> <0|1>''
       (''partctl: set-boot '' @ utf8 [0x7528, 0x6CD5] @ '': partctl set-boot <index:1-4> <0|1>'') w"

definition partctl_cmd_set_boot ::
    "'k kernel \<Rightarrow> string option \<Rightarrow> string option \<Rightarrow> 'k world \<Rightarrow> 'k world \<times> bool" where
  "partctl_cmd_set_boot K index_text value_text w =
     (case parse_index index_text of
        None \<Rightarrow> (set_boot_usage K w, False)
      | Some index \<Rightarrow>
        (case partctl_parse_u64 value_text of
           None \<Rightarrow> (set_boot_usage K w, False)
         | Some v \<Rightarrow>
           if v \<noteq> 0 \<and> v \<noteq> 1 then (set_boot_usage K w, False)
           else (case partctl_read_sector0 K w of
               (w, None) \<Rightarrow> (w, False)
             | (w, Some sector) \<Rightarrow>
                 (case partctl_write_sector0 K (set_boot_edit index v sector) w of
                    (w, False) \<Rightarrow> (w, False)
                  | (w, True) \<Rightarrow>
                      (term_printf_i18n K (''partctl: partition %llu boot flag=%llu'' @ [newline])
                         ((''partctl: '' @ utf8 [0x5206, 0x533A] @ '' %llu boot flag=%llu'') @ [newline])
                         [VLong (of_nat index), VLong (of_nat v)] w, True)))))"

definition create_edit :: "nat \<Rightarrow> nat \<Rightarrow> nat \<Rightarrow> nat \<Rightarrow> nat \<Rightarrow> string \<Rightarrow> string" where
  "create_edit i start_lba sectors type boot sector =
     (let sector = (if boot \<noteq> 0
                    then fold (\<lambda>j s. s[entry_off j := CHR 0x00]) [0..<PARTCTL_MBR_ENTRY_COUNT] sector else sector);
          off = entry_off i;
          sector = sector_zero sector off PARTCTL_MBR_ENTRY_SIZE;
          sector = sector[off + 0 := (if boot \<noteq> 0 then CHR 0x80 else CHR 0x00),
                          off + 1 := CHR 0xFF, off + 2 := CHR 0xFF, off + 3 := CHR 0xFF,
                          off + 4 := to_char (int type),
                          off + 5 := CHR 0xFF, off + 6 := CHR 0xFF, off + 7 := CHR 0xFF];
          sector = partctl_write_u32_le sector (off + 8) (of_nat start_lba);
          sector = partctl_write_u32_le sector (off + 12) (of_nat sectors)
      in partctl_mbr_ensure_signature sector)"

text \<open>The boot argument: empty means 0; \<open>None\<close> is the rejected one.\<close>

definition parse_boot :: "string option \<Rightarrow> nat option" where
  "parse_boot boot_text =
     (if boot_text \<noteq> None \<and> boot_text \<noteq> Some []
      then (case partctl_parse_u64 boot_text of None \<Rightarrow> None
            | Some boot \<Rightarrow> if boot \<noteq> 0 \<and> boot \<noteq> 1 then None else Some boot)
      else Some 0)"

text \<open>The part of \<open>partctl_cmd_create\<close> behind the number checks.\<close>

definition partctl_create_checked ::
    "'k kernel \<Rightarrow> nat \<Rightarrow> nat \<Rightarrow> nat \<Rightarrow> nat \<Rightarrow> nat \<Rightarrow> 'k world \<Rightarrow> 'k world \<times> bool" where
  "partctl_create_checked K index start_lba sectors type boot w =
     (let disk_sectors = k_disk_sector_count K (w_k w) in
      if disk_sectors \<le> start_lba \<or> disk_sectors < sectors \<or> disk_sectors < add64 start_lba sectors
         \<or> add64 start_lba sectors < start_lba
      then (ush_writeln_i18n K ''partctl: range exceeds disk size'' (''partctl: '' @ utf8 [0x8303, 0x56F4, 0x8D85, 0x8FC7, 0x78C1, 0x76D8, 0x5927, 0x5C0F]) w, False)
      else (case partctl_read_sector0 K w of
          (w, None) \<Rightarrow> (w, False)
        | (w, Some sector) \<Rightarrow>
            if \<not> partctl_check_overlap sector (index - 1) start_lba sectors
            then (ush_writeln_i18n K ''partctl: range overlaps an existing partition'' (''partctl: '' @ utf8 [0x8303, 0x56F4, 0x4E0E, 0x5DF2, 0x6709, 0x5206, 0x533A, 0x91CD, 0x53E0]) w, False)
            else (case partctl_write_sector0 K (create_edit (index - 1) start_lba sectors type boot sector) w of
                (w, False) \<Rightarrow> (w, False)
              | (w, True) \<Rightarrow>
                  (term_printf_i18n K
                     (''partctl: created p%llu start=%llu sectors=%llu type=0x%02X boot=%llu'' @ [newline])
                     ((''partctl: '' @ utf8 [0x5DF2, 0x521B, 0x5EFA] @ '' p%llu start=%llu sectors=%llu type=0x%02X boot=%llu'') @ [newline])
                     [VLong (of_nat index), VLong (of_nat start_lba), VLong (of_nat sectors),
                      VInt (of_nat (type mod 256)), VLong (of_nat boot)] w, True))))"

definition partctl_cmd_create ::
    "'k kernel \<Rightarrow> string option \<Rightarrow> string option \<Rightarrow> string option \<Rightarrow> string option \<Rightarrow> string option \<Rightarrow>
     'k world \<Rightarrow> 'k world \<times> bool" where
  "partctl_cmd_create K index_text start_text sectors_text type_text boot_text w =
     (case parse_index index_text of
        None \<Rightarrow> (ush_writeln_i18n K ''partctl: create invalid index'' (''partctl: create '' @ utf8 [0x7684, 0x7D22, 0x5F15, 0x65E0, 0x6548]) w, False)
      | Some index \<Rightarrow>
        (case (partctl_parse_u64 start_text, partctl_parse_u64 sectors_text, partctl_parse_u64 type_text) of
           (Some start_lba, Some sectors, Some type) \<Rightarrow>
             (case parse_boot boot_text of
                None \<Rightarrow> (ush_writeln_i18n K ''partctl: create invalid boot flag (expected 0|1)''
                           (''partctl: create '' @ utf8 [0x7684] @ '' boot '' @ utf8 [0x6807, 0x5FD7, 0x65E0, 0x6548, 0xFF08, 0x9700, 0x8981] @ '' 0|1'' @ utf8 [0xFF09]) w, False)
              | Some boot \<Rightarrow>
                if start_lba = 0 \<or> sectors = 0
                then (ush_writeln_i18n K ''partctl: start_lba and sectors must be > 0''
                        (''partctl: start_lba '' @ utf8 [0x548C] @ '' sectors '' @ utf8 [0x5FC5, 0x987B, 0x5927, 0x4E8E] @ '' 0'') w, False)
                else if 0xFF < type \<or> 0xFFFFFFFF < start_lba \<or> 0xFFFFFFFF < sectors
                then (ush_writeln_i18n K ''partctl: MBR supports only 32-bit LBA/size and 8-bit type''
                        (''partctl: MBR '' @ utf8 [0x53EA, 0x652F, 0x6301] @ '' 32-bit LBA/'' @ utf8 [0x5927, 0x5C0F, 0x548C] @ '' 8-bit '' @ utf8 [0x7C7B, 0x578B]) w, False)
                else partctl_create_checked K index start_lba sectors type boot w)
         | _ \<Rightarrow> (ush_writeln_i18n K ''partctl: create invalid number'' (''partctl: create '' @ utf8 [0x7684, 0x6570, 0x5B57, 0x65E0, 0x6548]) w, False)))"

definition partctl_run :: "'k kernel \<Rightarrow> string \<Rightarrow> 'k world \<Rightarrow> 'k world \<times> bool" where
  "partctl_run K arg w =
     (let tokens = partctl_tokenize arg 8; token_count = length tokens; tok = (\<lambda>i. Some (tokens ! i)) in
      if token_count = 0 \<or> ush_streq (tok 0) (Some ''help'') then (partctl_usage K w, True)
      else if ush_streq (tok 0) (Some ''list'') then partctl_cmd_list K w
      else if ush_streq (tok 0) (Some ''init-mbr'') then partctl_cmd_init_mbr K w
      else if ush_streq (tok 0) (Some ''delete'')
      then (if token_count \<noteq> 2 then (partctl_usage K w, False) else partctl_cmd_delete K (tok 1) w)
      else if ush_streq (tok 0) (Some ''set-boot'')
      then (if token_count \<noteq> 3 then (partctl_usage K w, False) else partctl_cmd_set_boot K (tok 1) (tok 2) w)
      else if ush_streq (tok 0) (Some ''create'')
      then (if token_count \<noteq> 5 \<and> token_count \<noteq> 6 then (partctl_usage K w, False)
            else partctl_cmd_create K (tok 1) (tok 2) (tok 3) (tok 4)
                   (if token_count = 6 then tok 5 else Some []) w)
      else (partctl_usage K (ush_writeln_i18n K ''partctl: unknown subcommand'' (''partctl: '' @ utf8 [0x672A, 0x77E5, 0x5B50, 0x547D, 0x4EE4]) w), False))"

definition partctl_main :: "'k kernel \<Rightarrow> 'k world \<Rightarrow> 'k world \<times> int" where
  "partctl_main K = app_main K ''partctl''
     (\<lambda>sh arg w. case partctl_run K arg w of (w, ok) \<Rightarrow> (w, sh, ok))"

section \<open>Words in the sector\<close>

lemma low_byte_mask: "and (x :: u32) 0xFF = take_bit 8 x"
proof -
  have "(0xFF :: u32) = mask 8" by (simp add: mask_eq_exp_minus_1)
  then show ?thesis by (simp add: take_bit_eq_mask)
qed

lemma byte_word: "word_of_int (uint (and (x :: u32) 0xFF) mod 256) = take_bit 8 x"
proof -
  have "uint (take_bit 8 x) mod 256 = uint (take_bit 8 x)"
    using take_bit_int_less_exp [of 8 "uint x"] by (simp add: unsigned_take_bit_eq)
  then show ?thesis by (simp add: low_byte_mask)
qed

lemma bytes_of_word:
  "or (or (or (take_bit 8 v) (push_bit 8 (take_bit 8 (drop_bit 8 v)))) (push_bit 16 (take_bit 8 (drop_bit 16 v))))
      (push_bit 24 (take_bit 8 (drop_bit 24 v))) = (v :: u32)"
proof (rule bit_word_eqI)
  fix n assume "n < LENGTH(32)"
  then show "bit (or (or (or (take_bit 8 v) (push_bit 8 (take_bit 8 (drop_bit 8 v)))) (push_bit 16 (take_bit 8 (drop_bit 16 v))))
      (push_bit 24 (take_bit 8 (drop_bit 24 v)))) n = bit v n"
    by (cases "n < 8"; cases "n < 16"; cases "n < 24") (simp_all add: bit_simps, arith+)
qed

lemma read_write_u32 [c_spec]:
  "p + 3 < length s \<Longrightarrow> partctl_read_u32_le (partctl_write_u32_le s p v) p = v"
  by (simp add: partctl_read_u32_le_def partctl_write_u32_le_def byte_at_def nth_list_update byte_word bytes_of_word)

lemma read_write_u32_other:
  "q + 3 < p \<or> p + 3 < q \<Longrightarrow> partctl_read_u32_le (partctl_write_u32_le s p v) q = partctl_read_u32_le s q"
  by (auto simp: partctl_read_u32_le_def partctl_write_u32_le_def byte_at_def)

lemma length_write_u32 [simp]: "length (partctl_write_u32_le s p v) = length s"
  by (simp add: partctl_write_u32_le_def)

lemma read_u32_update_other:
  "i < p \<or> p + 3 < i \<Longrightarrow> partctl_read_u32_le (s[i := c]) p = partctl_read_u32_le s p"
  by (auto simp: partctl_read_u32_le_def byte_at_def)

lemma nth_write_u32_other: "i < p \<or> p + 3 < i \<Longrightarrow> partctl_write_u32_le s p v ! i = s ! i"
  by (auto simp: partctl_write_u32_le_def)

text \<open>Zeroing a range.\<close>

lemma length_sector_zero [simp]: "length (sector_zero s off n) = length s"
proof -
  have "length (fold (\<lambda>i s. s[off + i := NUL]) xs s) = length s" for xs :: "nat list"
    by (induction xs arbitrary: s) simp_all
  then show ?thesis by (simp add: sector_zero_def)
qed

lemma nth_sector_zero:
  "i < length s \<Longrightarrow> sector_zero s off n ! i = (if off \<le> i \<and> i < off + n then NUL else s ! i)"
proof (induction n)
  case (Suc n)
  have "sector_zero s off (Suc n) = (sector_zero s off n)[off + n := NUL]" by (simp add: sector_zero_def)
  then show ?case using Suc by (cases "i = off + n") auto
qed (auto simp: sector_zero_def)

lemma read_u32_zero:
  assumes "p + 3 < length s"
  shows "p + 3 < off \<or> off + n \<le> p \<Longrightarrow> partctl_read_u32_le (sector_zero s off n) p = partctl_read_u32_le s p"
    and "off \<le> p \<Longrightarrow> p + 3 < off + n \<Longrightarrow> partctl_read_u32_le (sector_zero s off n) p = 0"
  using assms by (auto simp: partctl_read_u32_le_def byte_at_def nth_sector_zero)

section \<open>The table\<close>

text \<open>What the tool means by the sector: four entries.\<close>

record mbr_entry =
  me_boot :: char
  me_type :: char
  me_start :: u32
  me_size :: u32

definition entry_at :: "string \<Rightarrow> nat \<Rightarrow> mbr_entry" where
  "entry_at s i = \<lparr>me_boot = s ! entry_off i, me_type = s ! (entry_off i + 4),
     me_start = partctl_read_u32_le s (entry_off i + 8), me_size = partctl_read_u32_le s (entry_off i + 12)\<rparr>"

definition mbr_table :: "string \<Rightarrow> mbr_entry list" where
  "mbr_table s = map (entry_at s) [0..<4]"

definition empty_entry :: mbr_entry where
  "empty_entry = \<lparr>me_boot = NUL, me_type = NUL, me_start = 0, me_size = 0\<rparr>"

definition table_set_boot :: "nat \<Rightarrow> nat \<Rightarrow> mbr_entry list \<Rightarrow> mbr_entry list" where
  "table_set_boot i v t =
     (let t = (if v \<noteq> 0 then map (\<lambda>e. e\<lparr>me_boot := NUL\<rparr>) t else t)
      in t[i := (t ! i)\<lparr>me_boot := (if v \<noteq> 0 then CHR 0x80 else NUL)\<rparr>])"

definition table_create :: "nat \<Rightarrow> nat \<Rightarrow> nat \<Rightarrow> nat \<Rightarrow> nat \<Rightarrow> mbr_entry list \<Rightarrow> mbr_entry list" where
  "table_create i start sectors type boot t =
     (let t = (if boot \<noteq> 0 then map (\<lambda>e. e\<lparr>me_boot := NUL\<rparr>) t else t)
      in t[i := \<lparr>me_boot = (if boot \<noteq> 0 then CHR 0x80 else NUL), me_type = to_char (int type),
               me_start = of_nat start, me_size = of_nat sectors\<rparr>])"

lemma four: "i < (4 :: nat) \<Longrightarrow> i = 0 \<or> i = 1 \<or> i = 2 \<or> i = 3"
  by arith

lemma upt4: "[0..<4] = [0, 1, 2, 3 :: nat]"
  by code_simp

lemma length_mbr_table [simp]: "length (mbr_table s) = 4"
  by (simp add: mbr_table_def)

lemma nth_mbr_table: "i < 4 \<Longrightarrow> mbr_table s ! i = entry_at s i"
  by (simp add: mbr_table_def)

lemma signature_entry [simp]:
  "i < 4 \<Longrightarrow> entry_at (partctl_mbr_ensure_signature s) i = entry_at s i"
  by (auto simp: entry_at_def partctl_mbr_ensure_signature_def entry_off_def partctl_consts read_u32_update_other
      dest!: four)

lemma signature_keeps:
  "length (partctl_mbr_ensure_signature s) = length s"
  "take 446 (partctl_mbr_ensure_signature s) = take 446 s"
  "length s = 512 \<Longrightarrow> partctl_mbr_has_signature (partctl_mbr_ensure_signature s)"
  by (simp_all add: partctl_mbr_ensure_signature_def partctl_mbr_has_signature_def partctl_consts)

text \<open>Entries after an update of one boot byte.\<close>

lemma entry_boot_update:
  assumes "i < 4" "j < 4" "length s = 512"
  shows "entry_at (s[entry_off i := c]) j = (if i = j then (entry_at s j)\<lparr>me_boot := c\<rparr> else entry_at s j)"
  using assms four [of i] four [of j]
  by (auto simp: entry_at_def entry_off_def partctl_consts read_u32_update_other nth_list_update)

lemma entry_zero:
  assumes "i < 4" "j < 4" "length s = 512"
  shows "entry_at (sector_zero s (entry_off i) 16) j = (if i = j then empty_entry else entry_at s j)"
proof -
  have "entry_off i + 16 \<le> entry_off j \<or> entry_off j + 16 \<le> entry_off i" if "i \<noteq> j"
    using that by (auto simp: entry_off_def partctl_consts)
  moreover have "entry_off j + 16 \<le> 512" using assms by (simp add: entry_off_def partctl_consts)
  ultimately show ?thesis using assms
    by (auto simp: entry_at_def empty_entry_def nth_sector_zero read_u32_zero)
qed

lemma length_clear_boots [simp]: "length (fold (\<lambda>i s. if P i then s[entry_off i := c] else s) xs s) = length s"
  by (induction xs arbitrary: s) simp_all

lemma clear_boots:
  assumes "j < 4" "length s = 512" "distinct xs" "\<forall>k\<in>set xs. k < 4"
  shows "entry_at (fold (\<lambda>i s. if P i then s[entry_off i := c] else s) xs s) j =
    (if j \<in> set xs \<and> P j then (entry_at s j)\<lparr>me_boot := c\<rparr> else entry_at s j)"
  using assms(2-)
proof (induction xs arbitrary: s)
  case (Cons i xs)
  have "i < 4" "i \<notin> set xs" using Cons.prems by auto
  then show ?case using Cons entry_boot_update [of i j s c] assms(1)
    by (cases "i = j"; cases "P i") auto
qed simp

lemma clear_all_boots:
  assumes "j < 4" "length s = 512"
  shows "entry_at (fold (\<lambda>i s. s[entry_off i := c]) [0..<4] s) j = (entry_at s j)\<lparr>me_boot := c\<rparr>"
    and "length (fold (\<lambda>i s. s[entry_off i := c]) [0..<4] s) = length s"
  using clear_boots [of j s "[0..<4]" "\<lambda>_. True" c] length_clear_boots [of "\<lambda>_. True" c "[0..<4]" s] assms by simp_all

text \<open>The edits refine the operations on the table.\<close>

lemma table_delete_edit:
  assumes "i < 4" "length s = 512"
  shows "mbr_table (delete_edit i s) = (mbr_table s)[i := empty_entry]"
proof (rule nth_equalityI)
  fix j assume "j < length (mbr_table (delete_edit i s))"
  then show "mbr_table (delete_edit i s) ! j = (mbr_table s)[i := empty_entry] ! j"
    using entry_zero [of i j s] assms
    by (cases "i = j") (simp_all add: nth_mbr_table delete_edit_def PARTCTL_MBR_ENTRY_SIZE_def)
qed simp

lemma table_set_boot_edit:
  assumes "i < 4" "length s = 512"
  shows "mbr_table (set_boot_edit (Suc i) v s) = table_set_boot i v (mbr_table s)"
proof (rule nth_equalityI)
  fix j assume "j < length (mbr_table (set_boot_edit (Suc i) v s))"
  then have j: "j < 4" by simp
  define s1 where "s1 = fold (\<lambda>k s. if v \<noteq> 0 \<and> k \<noteq> i then s[entry_off k := CHR 0x00] else s) [0..<4] s"
  have l: "length s1 = 512" using assms by (simp add: s1_def)
  have e1: "entry_at s1 j = (if v \<noteq> 0 \<and> j \<noteq> i then (entry_at s j)\<lparr>me_boot := CHR 0x00\<rparr> else entry_at s j)"
    unfolding s1_def using clear_boots [of j s "[0..<4]" "\<lambda>k. v \<noteq> 0 \<and> k \<noteq> i" "CHR 0x00"] j assms by auto
  have "set_boot_edit (Suc i) v s = partctl_mbr_ensure_signature (s1[entry_off i := (if v \<noteq> 0 then CHR 0x80 else CHR 0x00)])"
    by (simp add: set_boot_edit_def s1_def PARTCTL_MBR_ENTRY_COUNT_def Let_def)
  then show "mbr_table (set_boot_edit (Suc i) v s) ! j = table_set_boot i v (mbr_table s) ! j"
    using entry_boot_update [OF assms(1) j l] e1 j assms(1)
    by (cases "i = j"; cases "v = 0") (simp_all add: nth_mbr_table table_set_boot_def Let_def)
qed (simp add: table_set_boot_def Let_def)

lemma table_create_edit:
  assumes "i < 4" "length s = 512"
  shows "mbr_table (create_edit i start sectors type boot s) = table_create i start sectors type boot (mbr_table s)"
proof (rule nth_equalityI)
  fix j assume "j < length (mbr_table (create_edit i start sectors type boot s))"
  then have j: "j < 4" by simp
  define s1 where "s1 = (if boot \<noteq> 0 then fold (\<lambda>j s. s[entry_off j := CHR 0x00]) [0..<4] s else s)"
  define s2 where "s2 = sector_zero s1 (entry_off i) 16"
  define o' where "o' = entry_off i"
  have l: "length s1 = 512" "length s2 = 512"
    using assms clear_all_boots(2) [of 0 s] by (simp_all add: s1_def s2_def)
  have e1: "entry_at s1 j = (if boot \<noteq> 0 then (entry_at s j)\<lparr>me_boot := CHR 0x00\<rparr> else entry_at s j)"
    using clear_all_boots(1) [OF j assms(2)] by (simp add: s1_def)
  have e2: "entry_at s2 j = (if i = j then empty_entry else entry_at s1 j)"
    unfolding s2_def by (rule entry_zero [OF assms(1) j l(1)])
  have o: "o' + 16 \<le> 512" using assms(1) by (simp add: o'_def entry_off_def partctl_consts)
  have d: "entry_off j + 16 \<le> o' \<or> o' + 16 \<le> entry_off j" if "i \<noteq> j"
    using that by (auto simp: o'_def entry_off_def partctl_consts)
  define s3 where "s3 = partctl_write_u32_le (partctl_write_u32_le
    (s2[o' + 0 := (if boot \<noteq> 0 then CHR 0x80 else CHR 0x00), o' + 1 := CHR 0xFF, o' + 2 := CHR 0xFF, o' + 3 := CHR 0xFF,
        o' + 4 := to_char (int type), o' + 5 := CHR 0xFF, o' + 6 := CHR 0xFF, o' + 7 := CHR 0xFF])
    (o' + 8) (of_nat start)) (o' + 12) (of_nat sectors)"
  have c: "create_edit i start sectors type boot s = partctl_mbr_ensure_signature s3"
    by (simp add: create_edit_def s1_def s2_def s3_def o'_def PARTCTL_MBR_ENTRY_COUNT_def PARTCTL_MBR_ENTRY_SIZE_def Let_def)
  have r: "mbr_table (create_edit i start sectors type boot s) ! j = entry_at s3 j"
    by (simp only: nth_mbr_table [OF j] c signature_entry [OF j])
  show "mbr_table (create_edit i start sectors type boot s) ! j = table_create i start sectors type boot (mbr_table s) ! j"
  proof (cases "i = j")
    case True
    have "entry_at s3 i = \<lparr>me_boot = (if boot \<noteq> 0 then CHR 0x80 else NUL), me_type = to_char (int type),
               me_start = of_nat start, me_size = of_nat sectors\<rparr>"
      using o l(2)
      by (simp add: entry_at_def o'_def [symmetric] s3_def nth_write_u32_other read_write_u32 read_write_u32_other)
    then show ?thesis using True j unfolding r by (simp add: table_create_def Let_def)
  next
    case False
    have "entry_at s3 j = entry_at s2 j"
      using d [OF False] by (auto simp: entry_at_def s3_def nth_write_u32_other read_write_u32_other read_u32_update_other)
    then show ?thesis using False j e2 e1 unfolding r
      by (cases "boot = 0") (simp_all add: nth_mbr_table table_create_def Let_def)
  qed
qed (simp add: table_create_def Let_def)

lemma table_init_edit: "mbr_table (init_mbr_edit (replicate 512 NUL)) = replicate 4 empty_entry"
proof (rule nth_equalityI)
  fix j assume "j < length (mbr_table (init_mbr_edit (replicate 512 NUL)))"
  then have j: "j < 4" by simp
  have "entry_off j + 16 \<le> 512" using j by (simp add: entry_off_def partctl_consts)
  then have "entry_at (sector_zero (replicate 512 NUL) 0 512) j = empty_entry"
    by (simp add: entry_at_def empty_entry_def nth_sector_zero read_u32_zero)
  with j show "mbr_table (init_mbr_edit (replicate 512 NUL)) ! j = replicate 4 empty_entry ! j"
    by (simp add: nth_mbr_table init_mbr_edit_def PARTCTL_SECTOR_SIZE_def)
qed simp

section \<open>Well-formed tables\<close>

definition entry_disjoint :: "mbr_entry \<Rightarrow> mbr_entry \<Rightarrow> bool" where
  "entry_disjoint a b \<longleftrightarrow> me_size a = 0 \<or> me_size b = 0
     \<or> unat (me_start a) + unat (me_size a) \<le> unat (me_start b)
     \<or> unat (me_start b) + unat (me_size b) \<le> unat (me_start a)"

definition entry_on_disk :: "nat \<Rightarrow> mbr_entry \<Rightarrow> bool" where
  "entry_on_disk n e \<longleftrightarrow> me_size e \<noteq> 0 \<longrightarrow> me_start e \<noteq> 0 \<and> unat (me_start e) + unat (me_size e) \<le> n"

definition bootable :: "mbr_entry \<Rightarrow> bool" where
  "bootable e \<longleftrightarrow> me_boot e = CHR 0x80"

text \<open>On a disk of \<open>n\<close> sectors: every partition lies on the disk behind sector 0, no two overlap,
  and at most one is bootable.\<close>

definition table_ok :: "nat \<Rightarrow> mbr_entry list \<Rightarrow> bool" where
  "table_ok n t \<longleftrightarrow> length t = 4 \<and> (\<forall>i<4. entry_on_disk n (t ! i))
     \<and> (\<forall>i<4. \<forall>j<4. i \<noteq> j \<longrightarrow> entry_disjoint (t ! i) (t ! j))
     \<and> (\<forall>i<4. \<forall>j<4. bootable (t ! i) \<and> bootable (t ! j) \<longrightarrow> i = j)"

lemma entry_disjoint_sym: "entry_disjoint a b \<longleftrightarrow> entry_disjoint b a"
  by (auto simp: entry_disjoint_def)

lemma entry_disjoint_boot [simp]:
  "entry_disjoint (a\<lparr>me_boot := c\<rparr>) b = entry_disjoint a b"
  "entry_disjoint a (b\<lparr>me_boot := c\<rparr>) = entry_disjoint a b"
  "entry_on_disk n (a\<lparr>me_boot := c\<rparr>) = entry_on_disk n a"
  by (simp_all add: entry_disjoint_def entry_on_disk_def)

text \<open>Replacing one entry by one that lies on the disk, is disjoint from the others, and is the only
  bootable one if it is bootable.\<close>

lemma table_ok_update [c_inv]:
  assumes "table_ok n t" "i < 4" "entry_on_disk n e" "\<And>j. j < 4 \<Longrightarrow> j \<noteq> i \<Longrightarrow> entry_disjoint e (t ! j)"
    "\<And>j. bootable e \<Longrightarrow> j < 4 \<Longrightarrow> j \<noteq> i \<Longrightarrow> \<not> bootable (t ! j)"
  shows "table_ok n (t[i := e])"
  unfolding table_ok_def
proof (intro conjI allI impI)
  have l: "length t = 4" using assms(1) by (simp add: table_ok_def)
  show "length (t[i := e]) = 4" by (simp add: l)
  show "entry_on_disk n (t[i := e] ! j)" if "j < 4" for j
    using that assms l by (cases "j = i") (auto simp: table_ok_def)
  show "entry_disjoint (t[i := e] ! j) (t[i := e] ! k)" if "j < 4" "k < 4" "j \<noteq> k" for j k
  proof (cases "k = i")
    case True
    then show ?thesis using assms(2,4) that l entry_disjoint_sym [of "t ! j" e] by simp
  next
    case False
    then show ?thesis using that assms(1,2,4) l by (cases "j = i") (simp_all add: table_ok_def)
  qed
  show "j = k" if "j < 4" "k < 4" "bootable (t[i := e] ! j) \<and> bootable (t[i := e] ! k)" for j k
  proof (cases "j = i \<or> k = i")
    case True
    then show ?thesis using assms(2) assms(5) [of j] assms(5) [of k] that l by (cases "j = k") auto
  next
    case False
    then have "bootable (t ! j) \<and> bootable (t ! k)" using that by simp
    then show ?thesis using assms(1) that(1,2) unfolding table_ok_def by blast
  qed
qed

lemma table_ok_clear_boots [c_inv]: "table_ok n t \<Longrightarrow> table_ok n (map (\<lambda>e. e\<lparr>me_boot := NUL\<rparr>) t)"
  by (auto simp: table_ok_def bootable_def)

lemma nth_clear_boots:
  "length t = 4 \<Longrightarrow> j < 4 \<Longrightarrow> map (\<lambda>e. e\<lparr>me_boot := NUL\<rparr>) t ! j = (t ! j)\<lparr>me_boot := NUL\<rparr>"
  by simp

lemma not_bootable_NUL [simp]: "\<not> bootable (e\<lparr>me_boot := NUL\<rparr>)" "bootable (e\<lparr>me_boot := CHR 0x80\<rparr>)"
  by (simp_all add: bootable_def)

lemma table_ok_delete [c_inv]: "table_ok n t \<Longrightarrow> i < 4 \<Longrightarrow> table_ok n (t[i := empty_entry])"
  by (rule table_ok_update)
    (simp_all add: entry_on_disk_def entry_disjoint_def empty_entry_def bootable_def)

lemma table_ok_set_boot [c_inv]:
  assumes "table_ok n t" "i < 4" shows "table_ok n (table_set_boot i v t)"
proof -
  define t1 where "t1 = (if v \<noteq> 0 then map (\<lambda>e. e\<lparr>me_boot := NUL\<rparr>) t else t)"
  have ok: "table_ok n t1" using assms table_ok_clear_boots by (simp add: t1_def)
  have l: "length t = 4" using assms by (simp add: table_ok_def)
  have "table_ok n (t1[i := (t1 ! i)\<lparr>me_boot := (if v \<noteq> 0 then CHR 0x80 else NUL)\<rparr>])"
  proof (rule table_ok_update [OF ok assms(2)])
    show "\<not> bootable (t1 ! j)" if "bootable ((t1 ! i)\<lparr>me_boot := (if v \<noteq> 0 then CHR 0x80 else NUL)\<rparr>)" "j < 4" for j
      using that l by (cases "v = 0") (simp_all add: t1_def)
  qed (use ok assms(2) in \<open>auto simp: table_ok_def\<close>)
  then show ?thesis by (simp add: table_set_boot_def t1_def Let_def)
qed

text \<open>The overlap check against the table.\<close>

definition range_free :: "nat \<Rightarrow> nat \<Rightarrow> nat \<Rightarrow> mbr_entry list \<Rightarrow> bool" where
  "range_free i start sectors t \<longleftrightarrow> (\<forall>j<4. j \<noteq> i \<longrightarrow> me_size (t ! j) = 0
     \<or> start + sectors \<le> unat (me_start (t ! j)) \<or> unat (me_start (t ! j)) + unat (me_size (t ! j)) \<le> start)"

lemma check_overlap_spec [c_spec]:
  assumes "start < 2 ^ 32" "sectors < 2 ^ 32"
  shows "partctl_check_overlap s i start sectors \<longleftrightarrow> range_free i start sectors (mbr_table s)"
proof -
  have w: "unat (x :: u32) < 2 ^ 32" for x using unsigned_less [of x, where ?'a = nat] by simp
  have a: "add64 (unat (x :: u32)) (unat (y :: u32)) = unat x + unat y" for x y
    using w [of x] w [of y] by (intro add64_small) simp
  have z: "unat (x :: u32) = 0 \<longleftrightarrow> x = 0" for x by (rule unat_eq_zero)
  have all4: "list_all P [0..<PARTCTL_MBR_ENTRY_COUNT] \<longleftrightarrow> (\<forall>j<4. P j)" for P
    by (auto simp: list_all_iff PARTCTL_MBR_ENTRY_COUNT_def)
  have b: "add64 start sectors = start + sectors" using assms by (intro add64_small) simp
  show ?thesis
    unfolding partctl_check_overlap_def range_free_def Let_def all4 a b z
    by (rule all_cong) (auto simp: nth_mbr_table entry_at_def)
qed

lemma table_ok_create [c_inv]:
  assumes "table_ok n t" "i < 4" "0 < start" "start < 2 ^ 32" "sectors < 2 ^ 32" "start + sectors \<le> n"
    "range_free i start sectors t"
  shows "table_ok n (table_create i start sectors type boot t)"
proof -
  define t1 where "t1 = (if boot \<noteq> 0 then map (\<lambda>e. e\<lparr>me_boot := NUL\<rparr>) t else t)"
  have ok: "table_ok n t1" using assms table_ok_clear_boots by (simp add: t1_def)
  have l: "length t = 4" using assms by (simp add: table_ok_def)
  have u: "unat (of_nat start :: u32) = start" "unat (of_nat sectors :: u32) = sectors"
    using assms by (simp_all add: unat_of_nat)
  then have "(of_nat start :: u32) \<noteq> 0" using assms(3) by force
  define e where "e = \<lparr>me_boot = (if boot \<noteq> 0 then CHR 0x80 else NUL), me_type = to_char (int type),
    me_start = of_nat start, me_size = of_nat sectors\<rparr>"
  have "table_ok n (t1[i := e])"
  proof (rule table_ok_update [OF ok assms(2)])
    show "entry_on_disk n e" using assms u \<open>of_nat start \<noteq> 0\<close> by (simp add: entry_on_disk_def e_def)
    have "entry_disjoint e (t ! j)" if "j < 4" "j \<noteq> i" for j
      using assms(7) that u by (auto simp: range_free_def entry_disjoint_def e_def)
    then show "entry_disjoint e (t1 ! j)" if "j < 4" "j \<noteq> i" for j
      using that l by (simp add: t1_def)
    show "\<not> bootable (t1 ! j)" if "bootable e" "j < 4" for j
      using that l by (cases "boot = 0") (simp_all add: t1_def e_def bootable_def)
  qed
  then show ?thesis by (simp add: table_create_def t1_def e_def Let_def)
qed

section \<open>The interface of an edit\<close>

text \<open>An in-place edit of the sector at entry \<open>i\<close>: it refines an operation on the table, keeps the boot
  code in front of the table and leaves a signed sector. A safe edit also keeps tables well formed,
  under its own condition on the disk size, the index and the table.\<close>

locale mbr_edit =
  fixes edit :: "nat \<Rightarrow> string \<Rightarrow> string" and tedit :: "nat \<Rightarrow> mbr_entry list \<Rightarrow> mbr_entry list"
  assumes edit_length: "length s = 512 \<Longrightarrow> length (edit i s) = 512"
    and edit_table: "i < 4 \<Longrightarrow> length s = 512 \<Longrightarrow> mbr_table (edit i s) = tedit i (mbr_table s)"
    and edit_code: "i < 4 \<Longrightarrow> take 446 (edit i s) = take 446 s"
    and edit_signed: "length s = 512 \<Longrightarrow> partctl_mbr_has_signature (edit i s)"

locale safe_mbr_edit = mbr_edit +
  fixes cond :: "nat \<Rightarrow> nat \<Rightarrow> mbr_entry list \<Rightarrow> bool"
  assumes tedit_ok: "table_ok n t \<Longrightarrow> i < 4 \<Longrightarrow> cond n i t \<Longrightarrow> table_ok n (tedit i t)"

text \<open>What the commands rely on the disk calls for: a sector has 512 bytes, a write that reports success
  is read back and touches no other sector, a failed one changes nothing, and the size is fixed.\<close>

definition disk_calls_ok :: "'k kernel \<Rightarrow> bool" where
  "disk_calls_ok K \<longleftrightarrow>
     (\<forall>k lba s. k_disk_read_sector K k lba = Some s \<longrightarrow> length s = 512)
     \<and> (\<forall>k lba s k' r. length s = 512 \<longrightarrow> k_disk_write_sector K k lba s = (k', r) \<longrightarrow>
          k_disk_sector_count K k' = k_disk_sector_count K k
          \<and> (r \<noteq> 0 \<longrightarrow> (\<forall>l. k_disk_read_sector K k' l = (if l = lba then Some s else k_disk_read_sector K k l)))
          \<and> (r = 0 \<longrightarrow> (\<forall>l. k_disk_read_sector K k' l = k_disk_read_sector K k l)))"

abbreviation sector0 :: "'k kernel \<Rightarrow> 'k world \<Rightarrow> string option" where
  "sector0 K w \<equiv> k_disk_read_sector K (w_k w) 0"

abbreviation disk_size :: "'k kernel \<Rightarrow> 'k world \<Rightarrow> nat" where
  "disk_size K w \<equiv> k_disk_sector_count K (w_k w)"

lemma sector_length:
  assumes "disk_calls_ok K" "sector0 K w = Some s" shows "length s = 512"
proof -
  have "\<forall>k lba s. k_disk_read_sector K k lba = Some s \<longrightarrow> length s = 512"
    using assms(1) unfolding disk_calls_ok_def by (rule conjunct1)
  with assms(2) show ?thesis by blast
qed

lemma disk_write:
  assumes "disk_calls_ok K" "length s = 512" "k_disk_write_sector K k lba s = (k', r)"
  shows "k_disk_sector_count K k' = k_disk_sector_count K k"
    and "k_disk_read_sector K k' l = (if r \<noteq> 0 \<and> l = lba then Some s else k_disk_read_sector K k l)"
proof -
  have "k_disk_sector_count K k' = k_disk_sector_count K k
    \<and> (r \<noteq> 0 \<longrightarrow> (\<forall>l. k_disk_read_sector K k' l = (if l = lba then Some s else k_disk_read_sector K k l)))
    \<and> (r = 0 \<longrightarrow> (\<forall>l. k_disk_read_sector K k' l = k_disk_read_sector K k l))"
    using conjunct2 [OF assms(1) [unfolded disk_calls_ok_def]] assms(2,3) by presburger
  then show "k_disk_sector_count K k' = k_disk_sector_count K k"
    and "k_disk_read_sector K k' l = (if r \<noteq> 0 \<and> l = lba then Some s else k_disk_read_sector K k l)"
    by (cases "r = 0"; simp)+
qed

interpretation terminal: text_sink term_put "\<lambda>w t. w = emit t w0" for w0
  by unfold_locales (simp add: term_put_def)

lemma term_printf_text [c_spec]:
  "term_printf fmt args w = (case format_text fmt args of None \<Rightarrow> w | Some t \<Rightarrow> emit t w)"
proof -
  have "w = emit [] w" by simp
  then show ?thesis
    using terminal.vformat_correct [where ?w0.0 = w and s = w and t = "[]" and fmt = fmt and args = args]
    by (auto simp: term_printf_def split: option.splits)
qed

lemma disk_frame [c_frame]:
  "w_k (emit t w) = w_k w" "w_k (ush_write a w) = w_k w" "w_k (ush_writeln a w) = w_k w"
  "w_k (ush_write_i18n_label K a b w) = w_k w" "w_k (ush_writeln_i18n K e z w) = w_k w"
  "w_k (term_printf fmt args w) = w_k w" "w_k (term_printf_i18n K e z args w) = w_k w"
proof -
  have l: "w_k (fst (ush_locale_is_zh K w)) = w_k w" for w :: "'a world"
    by (simp add: ush_locale_is_zh_def Let_def split: option.splits)
  have e: "w_k (emit t w) = w_k w" for t and w :: "'a world" by (simp add: emit_def)
  show "w_k (emit t w) = w_k w" by (rule e)
  show wr: "w_k (ush_write a w) = w_k w" for a and w :: "'a world" by (simp add: ush_write_def e split: option.splits)
  show "w_k (ush_writeln a w) = w_k w" by (simp add: ush_writeln_def ush_write_char_def e wr)
  show lab: "w_k (ush_write_i18n_label K a b w) = w_k w" for a b and w :: "'a world"
    using l [of w] by (cases "ush_locale_is_zh K w")
      (simp add: ush_write_i18n_label_def Let_def e wr split: option.splits)
  show "w_k (ush_writeln_i18n K e z w) = w_k w"
    by (simp add: ush_writeln_i18n_def ush_write_char_def e lab)
  show tp: "w_k (term_printf fmt args w) = w_k w" for fmt args and w :: "'a world"
    by (simp add: term_printf_text e split: option.splits)
  show "w_k (term_printf_i18n K e z args w) = w_k w"
    using l [of w] by (cases "ush_locale_is_zh K w") (simp add: term_printf_i18n_def tp)
qed

lemma required_frame [c_frame]: "partctl_disk_required K w = (w', b) \<Longrightarrow> w_k w' = w_k w"
  by (auto simp: partctl_disk_required_def c_frame split: if_splits)

lemma read_sector0_spec [c_spec]:
  "partctl_read_sector0 K w = (w', r) \<Longrightarrow> w_k w' = w_k w \<and> (\<forall>s. r = Some s \<longrightarrow> sector0 K w = Some s)"
  by (auto simp: partctl_read_sector0_def c_frame dest!: required_frame split: prod.splits bool.splits option.splits)

lemma write_sector0_spec [c_spec]:
  assumes "disk_calls_ok K" "length s = 512" "partctl_write_sector0 K s w = (w', ok)"
  shows "sector0 K w' = (if ok then Some s else sector0 K w)" "disk_size K w' = disk_size K w"
proof -
  obtain w1 b where r: "partctl_disk_required K w = (w1, b)" by fastforce
  have k: "w_k w1 = w_k w" using required_frame [OF r] .
  have "sector0 K w' = (if ok then Some s else sector0 K w) \<and> disk_size K w' = disk_size K w"
  proof (cases b)
    case False
    then show ?thesis using assms(3) r k by (simp add: partctl_write_sector0_def)
  next
    case True
    obtain k' n where n: "k_disk_write_sector K (w_k w) 0 s = (k', n)" by fastforce
    then have "w_k w' = k'" "ok = (n \<noteq> 0)"
      using assms(3) r k True by (auto simp: partctl_write_sector0_def c_frame split: if_splits)
    then show ?thesis using disk_write [OF assms(1,2) n] by simp
  qed
  then show "sector0 K w' = (if ok then Some s else sector0 K w)" "disk_size K w' = disk_size K w" by simp_all
qed

context safe_mbr_edit
begin

text \<open>Writing an edited sector back: it is there as a whole or not at all, and the table is well formed
  again either way.\<close>

lemma write_back:
  assumes "disk_calls_ok K" "sector0 K w = Some s" "i < 4" "partctl_write_sector0 K (edit i s) w = (w', ok)"
    and "table_ok (disk_size K w) (mbr_table s)" "cond (disk_size K w) i (mbr_table s)"
  shows "\<exists>s'. sector0 K w' = Some s' \<and> table_ok (disk_size K w') (mbr_table s') \<and> take 446 s' = take 446 s
    \<and> disk_size K w' = disk_size K w
    \<and> (if ok then partctl_mbr_has_signature s' \<and> mbr_table s' = tedit i (mbr_table s) else s' = s)"
proof -
  have l: "length s = 512" using sector_length assms(1,2) by blast
  note wr = write_sector0_spec [OF assms(1) edit_length [OF l] assms(4)]
  show ?thesis
    using wr assms(2) tedit_ok [OF assms(5,3,6)] edit_table [OF assms(3) l] edit_code [OF assms(3)] edit_signed [OF l] assms(5)
    by (cases ok) simp_all
qed

end

lemma take_before [simp]:
  "446 \<le> off \<Longrightarrow> take 446 (s[off := c]) = take 446 s"
  by simp

lemma take_sector_zero: "446 \<le> off \<Longrightarrow> take 446 (sector_zero s off n) = take 446 s"
proof (rule nth_equalityI)
  fix i assume "446 \<le> off" "i < length (take 446 (sector_zero s off n))"
  then show "take 446 (sector_zero s off n) ! i = take 446 s ! i" by (simp add: nth_sector_zero)
qed simp

lemma take_write_u32: "446 \<le> p \<Longrightarrow> take 446 (partctl_write_u32_le s p v) = take 446 s"
  by (simp add: partctl_write_u32_le_def)

lemma entry_off_ge: "446 \<le> entry_off i"
  by (simp add: entry_off_def partctl_consts)

lemma take_clear_boots: "take 446 (fold (\<lambda>i s. if P i then s[entry_off i := c] else s) xs s) = take 446 s"
proof (induction xs arbitrary: s)
  case (Cons i xs)
  then show ?case using entry_off_ge [of i] by simp
qed simp

interpretation delete: safe_mbr_edit delete_edit "\<lambda>i t. t[i := empty_entry]" "\<lambda>n i t. True"
proof (unfold_locales, goal_cases)
  case (3 i s)
  then show ?case using entry_off_ge by (simp add: delete_edit_def signature_keeps take_sector_zero)
qed (simp_all add: table_delete_edit table_ok_delete, simp_all add: delete_edit_def signature_keeps)

interpretation set_boot: safe_mbr_edit "\<lambda>i. set_boot_edit (Suc i) v" "\<lambda>i. table_set_boot i v" "\<lambda>n i t. True" for v
proof (unfold_locales, goal_cases)
  case (3 i s)
  then show ?case using entry_off_ge by (simp add: set_boot_edit_def signature_keeps take_clear_boots Let_def)
qed (simp_all add: table_set_boot_edit table_ok_set_boot, simp_all add: set_boot_edit_def signature_keeps Let_def)

interpretation create: safe_mbr_edit "\<lambda>i. create_edit i start sectors type boot" "\<lambda>i. table_create i start sectors type boot"
  "\<lambda>n i t. 0 < start \<and> start < 2 ^ 32 \<and> sectors < 2 ^ 32 \<and> start + sectors \<le> n \<and> range_free i start sectors t"
  for start sectors type boot
proof (unfold_locales, goal_cases)
  case (1 s i)
  then show ?case using length_clear_boots [of "\<lambda>_. True" "CHR 0x00" "[0..<PARTCTL_MBR_ENTRY_COUNT]" s]
    by (simp add: create_edit_def signature_keeps Let_def)
next
  case (2 i s)
  then show ?case by (rule table_create_edit)
next
  case (3 i s)
  then show ?case using take_clear_boots [of "\<lambda>_. True" "CHR 0x00" "[0..<PARTCTL_MBR_ENTRY_COUNT]" s] entry_off_ge [of i]
    by (simp add: create_edit_def signature_keeps take_write_u32 take_sector_zero Let_def)
next
  case (4 s i)
  then show ?case using length_clear_boots [of "\<lambda>_. True" "CHR 0x00" "[0..<PARTCTL_MBR_ENTRY_COUNT]" s]
    by (simp add: create_edit_def signature_keeps Let_def)
next
  case (5 n t i)
  then show ?case using table_ok_create by blast
qed

section \<open>The commands\<close>

text \<open>The disk holds a well-formed table; and what one command may do to sector 0: replace it by a
  sector with the table \<open>t\<close>, the boot code kept, when it reports success, and nothing otherwise.\<close>

definition disk_table_ok :: "'k kernel \<Rightarrow> 'k world \<Rightarrow> bool" where
  "disk_table_ok K w \<longleftrightarrow> (\<exists>s. sector0 K w = Some s \<and> table_ok (disk_size K w) (mbr_table s))"

definition edited :: "'k kernel \<Rightarrow> 'k world \<Rightarrow> 'k world \<Rightarrow> string \<Rightarrow> mbr_entry list \<Rightarrow> bool \<Rightarrow> bool" where
  "edited K w w' s t ok \<longleftrightarrow> disk_size K w' = disk_size K w \<and> (\<exists>s'. sector0 K w' = Some s' \<and>
     table_ok (disk_size K w) (mbr_table s') \<and> take 446 s' = take 446 s \<and>
     (if ok then partctl_mbr_has_signature s' \<and> mbr_table s' = t else s' = s))"

lemma edited_ok: "edited K w w' s t ok \<Longrightarrow> disk_table_ok K w'"
  by (auto simp: edited_def disk_table_ok_def)

lemma edited_refl:
  "w_k w' = w_k w \<Longrightarrow> sector0 K w = Some s \<Longrightarrow> table_ok (disk_size K w) (mbr_table s) \<Longrightarrow> edited K w w' s t False"
  by (simp add: edited_def)

text \<open>The shared end of the commands: read sector 0, edit it, write it back, report.\<close>

definition read_edit_write :: "'k kernel \<Rightarrow> (string \<Rightarrow> string) \<Rightarrow> ('k world \<Rightarrow> 'k world) \<Rightarrow> 'k world \<Rightarrow> 'k world \<times> bool" where
  "read_edit_write K f report w =
     (case partctl_read_sector0 K w of
        (w, None) \<Rightarrow> (w, False)
      | (w, Some sector) \<Rightarrow>
          (case partctl_write_sector0 K (f sector) w of (w, False) \<Rightarrow> (w, False) | (w, True) \<Rightarrow> (report w, True)))"

context safe_mbr_edit
begin

lemma read_edit_write_spec:
  assumes "disk_calls_ok K" "sector0 K w = Some s" "i < 4" "read_edit_write K (edit i) report w = (w', ok)"
    and "table_ok (disk_size K w) (mbr_table s)" "cond (disk_size K w) i (mbr_table s)"
    and "\<And>w. w_k (report w) = w_k w"
  shows "edited K w w' s (tedit i (mbr_table s)) ok"
proof -
  obtain w1 r where r: "partctl_read_sector0 K w = (w1, r)" by fastforce
  note rs = read_sector0_spec [OF r]
  show ?thesis
  proof (cases r)
    case None
    then show ?thesis using assms(2,4,5) r rs by (auto simp: read_edit_write_def intro: edited_refl)
  next
    case (Some s1)
    then have s1: "s1 = s" using rs assms(2) by simp
    obtain w2 b where w: "partctl_write_sector0 K (edit i s) w1 = (w2, b)" by fastforce
    have e: "w_k w' = w_k w2" "ok = b"
      using assms(4,7) r Some s1 w by (auto simp: read_edit_write_def split: bool.splits)
    show ?thesis
      using write_back [OF assms(1) _ assms(3) w] assms(2,5,6) rs e by (auto simp: edited_def)
  qed
qed

end

lemma parse_index_bounds: "parse_index t = Some index \<Longrightarrow> 1 \<le> index \<and> index - 1 < 4 \<and> Suc (index - 1) = index"
  by (auto simp: parse_index_def PARTCTL_MBR_ENTRY_COUNT_def split: option.splits if_splits)

lemma cmd_delete_spec [c_spec]:
  assumes "disk_calls_ok K" "sector0 K w = Some s" "table_ok (disk_size K w) (mbr_table s)"
    and "partctl_cmd_delete K it w = (w', ok)"
  shows "case parse_index it of None \<Rightarrow> edited K w w' s [] ok \<and> \<not> ok
    | Some index \<Rightarrow> edited K w w' s ((mbr_table s)[index - 1 := empty_entry]) ok"
proof (cases "parse_index it")
  case None
  then show ?thesis using assms by (auto simp: partctl_cmd_delete_def c_frame intro: edited_refl)
next
  case (Some index)
  have "partctl_cmd_delete K it w = read_edit_write K (delete_edit (index - 1))
      (term_printf_i18n K (''partctl: deleted partition %llu'' @ [newline])
         ((''partctl: '' @ utf8 [0x5DF2, 0x5220, 0x9664, 0x5206, 0x533A] @ '' %llu'') @ [newline]) [VLong (of_nat index)]) w"
    by (simp add: partctl_cmd_delete_def Some read_edit_write_def)
  then show ?thesis
    using delete.read_edit_write_spec [OF assms(1,2), of "index - 1"] assms(3,4) parse_index_bounds [OF Some] Some
    by (simp add: c_frame)
qed

lemma cmd_set_boot_spec [c_spec]:
  assumes "disk_calls_ok K" "sector0 K w = Some s" "table_ok (disk_size K w) (mbr_table s)"
    and "partctl_cmd_set_boot K it vt w = (w', ok)"
  shows "case (parse_index it, partctl_parse_u64 vt) of
      (Some index, Some v) \<Rightarrow> if v \<le> 1 then edited K w w' s (table_set_boot (index - 1) v (mbr_table s)) ok
                              else edited K w w' s [] ok \<and> \<not> ok
    | _ \<Rightarrow> edited K w w' s [] ok \<and> \<not> ok"
proof (cases "\<exists>index v. parse_index it = Some index \<and> partctl_parse_u64 vt = Some v \<and> v \<le> 1")
  case False
  then have "partctl_cmd_set_boot K it vt w = (set_boot_usage K w, False)"
    by (auto simp: partctl_cmd_set_boot_def split: option.splits)
  then have "edited K w w' s [] ok \<and> \<not> ok"
    using assms by (auto simp: set_boot_usage_def c_frame intro: edited_refl)
  then show ?thesis using False by (auto split: option.splits)
next
  case True
  then obtain index v where p: "parse_index it = Some index" "partctl_parse_u64 vt = Some v" "v \<le> 1" by blast
  have nv: "\<not> (v \<noteq> 0 \<and> v \<noteq> 1)" using p(3) by arith
  have "partctl_cmd_set_boot K it vt w = read_edit_write K (set_boot_edit index v)
      (term_printf_i18n K (''partctl: partition %llu boot flag=%llu'' @ [newline])
         ((''partctl: '' @ utf8 [0x5206, 0x533A] @ '' %llu boot flag=%llu'') @ [newline]) [VLong (of_nat index), VLong (of_nat v)]) w"
    unfolding partctl_cmd_set_boot_def p option.case if_not_P [OF nv] read_edit_write_def by (rule refl)
  then show ?thesis
    using set_boot.read_edit_write_spec [OF assms(1,2), of "index - 1"] assms(3,4) parse_index_bounds [OF p(1)] p
    by (simp add: c_frame)
qed

text \<open>The arguments that \<open>create\<close> accepts, and the table it then writes.\<close>

definition create_args ::
    "string option \<Rightarrow> string option \<Rightarrow> string option \<Rightarrow> string option \<Rightarrow> string option \<Rightarrow>
     (nat \<times> nat \<times> nat \<times> nat \<times> nat) option" where
  "create_args it st ct tt bt =
     (case (parse_index it, partctl_parse_u64 st, partctl_parse_u64 ct, partctl_parse_u64 tt, parse_boot bt) of
        (Some index, Some start, Some sectors, Some type, Some boot) \<Rightarrow>
          if 0 < start \<and> start < 2 ^ 32 \<and> 0 < sectors \<and> sectors < 2 ^ 32 \<and> type < 256
          then Some (index, start, sectors, type, boot) else None
      | _ \<Rightarrow> None)"

lemma cmd_create_spec [c_spec]:
  assumes "disk_calls_ok K" "sector0 K w = Some s" "table_ok (disk_size K w) (mbr_table s)"
    and "partctl_cmd_create K it st ct tt bt w = (w', ok)"
  shows "case create_args it st ct tt bt of
      None \<Rightarrow> edited K w w' s [] ok \<and> \<not> ok
    | Some (index, start, sectors, type, boot) \<Rightarrow>
        edited K w w' s (table_create (index - 1) start sectors type boot (mbr_table s)) ok
        \<and> (ok \<longrightarrow> start + sectors \<le> disk_size K w \<and> range_free (index - 1) start sectors (mbr_table s))"
proof (cases "create_args it st ct tt bt")
  case None
  then have "w_k (fst (partctl_cmd_create K it st ct tt bt w)) = w_k w \<and> \<not> snd (partctl_cmd_create K it st ct tt bt w)"
    by (auto simp: create_args_def partctl_cmd_create_def c_frame split: option.splits if_splits)
  then show ?thesis using None assms by (auto intro: edited_refl)
next
  case (Some a)
  obtain index start sectors type boot where a: "a = (index, start, sectors, type, boot)" by (cases a)
  have p: "parse_index it = Some index" and g: "0 < start" "start < 2 ^ 32" "0 < sectors" "sectors < 2 ^ 32"
    and c: "partctl_cmd_create K it st ct tt bt w = partctl_create_checked K index start sectors type boot w"
    using Some unfolding a by (auto simp: create_args_def partctl_cmd_create_def split: option.splits if_splits)
  have i: "index - 1 < 4" using parse_index_bounds [OF p] by simp
  have add: "add64 start sectors = start + sectors" using g by (intro add64_small) simp
  have co: "partctl_check_overlap s (index - 1) start sectors \<longleftrightarrow> range_free (index - 1) start sectors (mbr_table s)"
    by (rule check_overlap_spec) (use g in simp_all)
  show ?thesis
  proof (cases "start + sectors \<le> disk_size K w \<and> range_free (index - 1) start sectors (mbr_table s)")
    case True
    have "partctl_create_checked K index start sectors type boot w = read_edit_write K
        (create_edit (index - 1) start sectors type boot) (term_printf_i18n K
           (''partctl: created p%llu start=%llu sectors=%llu type=0x%02X boot=%llu'' @ [newline])
           ((''partctl: '' @ utf8 [0x5DF2, 0x521B, 0x5EFA] @ '' p%llu start=%llu sectors=%llu type=0x%02X boot=%llu'') @ [newline])
           [VLong (of_nat index), VLong (of_nat start), VLong (of_nat sectors),
            VInt (of_nat (type mod 256)), VLong (of_nat boot)]) w"
    proof -
      have n: "\<not> (disk_size K w \<le> start \<or> disk_size K w < sectors \<or> disk_size K w < add64 start sectors \<or> add64 start sectors < start)"
        using True g unfolding add by simp
      have ov: "partctl_check_overlap s1 (index - 1) start sectors" if "partctl_read_sector0 K w = (w1, Some s1)" for w1 s1
        using read_sector0_spec [OF that] assms(2) True co by simp
      show ?thesis unfolding partctl_create_checked_def Let_def if_not_P [OF n] read_edit_write_def
        using ov by (auto split: prod.splits option.splits)
    qed
    then have "edited K w w' s (table_create (index - 1) start sectors type boot (mbr_table s)) ok"
      using create.read_edit_write_spec [OF assms(1,2) i] assms(3,4) c g True by (simp add: c_frame)
    then show ?thesis using True by (simp add: Some a)
  next
    case False
    have "w_k (fst (partctl_create_checked K index start sectors type boot w)) = w_k w
      \<and> \<not> snd (partctl_create_checked K index start sectors type boot w)"
    proof (cases "start + sectors \<le> disk_size K w")
      case True
      then have nf: "\<not> range_free (index - 1) start sectors (mbr_table s)" using False by simp
      obtain w1 r where r: "partctl_read_sector0 K w = (w1, r)" by fastforce
      then show ?thesis using read_sector0_spec [OF r] assms(2) nf co
        by (cases r) (auto simp: partctl_create_checked_def Let_def c_frame)
    next
      case False
      then show ?thesis using add by (simp add: partctl_create_checked_def Let_def c_frame)
    qed
    then have "edited K w w' s (table_create (index - 1) start sectors type boot (mbr_table s)) ok \<and> \<not> ok"
      using assms c by (auto intro: edited_refl)
    then show ?thesis by (cases ok) (simp_all add: Some a)
  qed
qed

lemma table_ok_empty: "table_ok n (replicate 4 empty_entry)"
  by (simp add: table_ok_def entry_on_disk_def entry_disjoint_def empty_entry_def bootable_def)

lemma cmd_init_spec [c_spec]:
  assumes "disk_calls_ok K" "partctl_cmd_init_mbr K w = (w', ok)"
  shows "disk_size K w' = disk_size K w"
    and "if ok then \<exists>s. sector0 K w' = Some s \<and> mbr_table s = replicate 4 empty_entry \<and> partctl_mbr_has_signature s
         else sector0 K w' = sector0 K w"
proof -
  let ?s = "init_mbr_edit (replicate PARTCTL_SECTOR_SIZE NUL)"
  have l: "length ?s = 512" by (simp add: init_mbr_edit_def signature_keeps PARTCTL_SECTOR_SIZE_def)
  have sg: "partctl_mbr_has_signature ?s"
    by (simp add: init_mbr_edit_def signature_keeps PARTCTL_SECTOR_SIZE_def)
  have t: "mbr_table ?s = replicate 4 empty_entry" using table_init_edit by (simp add: PARTCTL_SECTOR_SIZE_def)
  obtain w1 b where r: "partctl_disk_required K w = (w1, b)" by fastforce
  obtain w2 c where w: "partctl_write_sector0 K ?s w1 = (w2, c)" by fastforce
  have k: "w_k w1 = w_k w" using required_frame [OF r] .
  have res: "if b then w_k w' = w_k w2 \<and> ok = c else w_k w' = w_k w \<and> \<not> ok"
    using assms(2) r w k by (cases b; cases c) (auto simp: partctl_cmd_init_mbr_def c_frame)
  show "disk_size K w' = disk_size K w"
    using res write_sector0_spec(2) [OF assms(1) l w] k by (cases b) simp_all
  show "if ok then \<exists>s. sector0 K w' = Some s \<and> mbr_table s = replicate 4 empty_entry \<and> partctl_mbr_has_signature s
         else sector0 K w' = sector0 K w"
    using res write_sector0_spec(1) [OF assms(1) l w] k t sg by (cases b; cases c) simp_all
qed

lemma list_row_frame [c_frame]: "w_k (partctl_list_row s i w) = w_k w"
  by (simp add: partctl_list_row_def Let_def c_frame)

lemma list_rows_frame [c_frame]: "w_k (fold (partctl_list_row s) is w) = w_k w"
  by (induction "is" arbitrary: w) (simp_all add: list_row_frame)

lemma cmd_list_frame [c_frame]: "partctl_cmd_list K w = (w', ok) \<Longrightarrow> w_k w' = w_k w"
proof -
  assume a: "partctl_cmd_list K w = (w', ok)"
  obtain w1 r where r: "partctl_read_sector0 K w = (w1, r)" by fastforce
  with a read_sector0_spec [OF r] show ?thesis
    by (cases r) (auto simp: partctl_cmd_list_def Let_def c_frame)
qed

lemma usage_frame [c_frame]: "w_k (partctl_usage K w) = w_k w"
  by (simp add: partctl_usage_def Let_def c_frame)

section \<open>Sessions\<close>

text \<open>One use of the tool, by subcommand, and the states that uses of it lead to.\<close>

inductive partctl_step :: "'k kernel \<Rightarrow> 'k world \<Rightarrow> 'k world \<Rightarrow> bool" for K where
  silent: "w_k w' = w_k w \<Longrightarrow> partctl_step K w w'"
| init: "partctl_cmd_init_mbr K w = (w', ok) \<Longrightarrow> partctl_step K w w'"
| delete: "partctl_cmd_delete K it w = (w', ok) \<Longrightarrow> partctl_step K w w'"
| set_boot: "partctl_cmd_set_boot K it vt w = (w', ok) \<Longrightarrow> partctl_step K w w'"
| create: "partctl_cmd_create K it st ct tt bt w = (w', ok) \<Longrightarrow> partctl_step K w w'"

inductive partctl_session :: "'k kernel \<Rightarrow> 'k world \<Rightarrow> 'k world \<Rightarrow> bool" for K w0 where
  start: "partctl_session K w0 w0"
| run: "partctl_session K w0 w \<Longrightarrow> partctl_run K arg w = (w', ok) \<Longrightarrow> partctl_session K w0 w'"

inductive_cases partctl_session_cases: "partctl_session K w0 w"

lemma run_step: "partctl_run K arg w = (w', ok) \<Longrightarrow> partctl_step K w w'"
  unfolding partctl_run_def Let_def
  by (auto split: if_splits intro: partctl_step.intros simp: usage_frame c_frame dest: cmd_list_frame)

lemma step_keeps [c_inv]:
  assumes "partctl_step K w w'" "disk_calls_ok K" "disk_table_ok K w"
  shows "disk_table_ok K w' \<and> disk_size K w' = disk_size K w"
proof -
  obtain s where s: "sector0 K w = Some s" "table_ok (disk_size K w) (mbr_table s)"
    using assms(3) by (auto simp: disk_table_ok_def)
  have ed: "edited K w w' s t ok \<Longrightarrow> disk_table_ok K w' \<and> disk_size K w' = disk_size K w" for t ok
    using edited_ok [of K w w' s t ok] by (simp add: edited_def)
  from assms(1) show ?thesis
  proof cases
    case silent
    then show ?thesis using s by (simp add: disk_table_ok_def)
  next
    case (init ok)
    then show ?thesis using cmd_init_spec [OF assms(2) init] s table_ok_empty
      by (cases ok) (auto simp: disk_table_ok_def)
  next
    case (delete it ok)
    then show ?thesis using cmd_delete_spec [OF assms(2) s delete] ed by (auto split: option.splits)
  next
    case (set_boot it vt ok)
    then show ?thesis using cmd_set_boot_spec [OF assms(2) s set_boot] ed by (auto split: option.splits if_splits)
  next
    case (create it st ct tt bt ok)
    then show ?thesis using cmd_create_spec [OF assms(2) s create] ed by (auto split: option.splits prod.splits)
  qed
qed

section \<open>Properties\<close>

text \<open>A disk with one sector to witness the properties: the kernel state is sector 0.\<close>

definition demo_disk :: "string kernel" where
  "demo_disk = demo_sys\<lparr>k_disk_present := (\<lambda>k. 1), k_disk_sector_count := (\<lambda>k. 4096),
     k_disk_read_sector := (\<lambda>k lba. if lba = 0 \<and> length k = 512 then Some k else None),
     k_disk_write_sector := (\<lambda>k lba d. if lba = 0 \<and> length d = 512 then (d, 1) else (k, 0))\<rparr>"

definition blank_disk :: "string world" where
  "blank_disk = demo_world (init_mbr_edit (replicate 512 NUL))"

lemma demo_disk_ok: "disk_calls_ok demo_disk"
  by (auto simp: disk_calls_ok_def demo_disk_def split: if_splits)

lemma blank_disk_table:
  "sector0 demo_disk blank_disk = Some (init_mbr_edit (replicate 512 NUL))"
  "disk_size demo_disk blank_disk = 4096"
  "table_ok (disk_size demo_disk blank_disk) (mbr_table (init_mbr_edit (replicate 512 NUL)))"
proof -
  have l: "length (init_mbr_edit (replicate 512 NUL)) = 512" by (simp add: init_mbr_edit_def signature_keeps)
  show "sector0 demo_disk blank_disk = Some (init_mbr_edit (replicate 512 NUL))" "disk_size demo_disk blank_disk = 4096"
    by (simp_all add: demo_disk_def blank_disk_def demo_world_def l)
  show "table_ok (disk_size demo_disk blank_disk) (mbr_table (init_mbr_edit (replicate 512 NUL)))"
    unfolding table_init_edit by (rule table_ok_empty)
qed

text \<open>C7: \<open>partctl create\<close> never damages the partition table. On a disk whose table is well formed
  (partitions inside the disk, pairwise disjoint, at most one bootable) the table is well formed
  afterwards and the boot code is kept, for all argument texts. When the command reports success,
  the arguments were numbers in range, the new partition lies on the disk and is disjoint from the
  others, and the sector holds exactly the updated table; when it fails, sector 0 is unchanged.\<close>

theorem partctl_create_safe:
  assumes "disk_calls_ok K" "sector0 K w = Some s" "table_ok (disk_size K w) (mbr_table s)"
  shows "case partctl_cmd_create K it st ct tt bt w of (w', ok) \<Rightarrow>
    \<exists>s'. sector0 K w' = Some s' \<and> table_ok (disk_size K w') (mbr_table s') \<and> take 446 s' = take 446 s \<and>
      (if ok then \<exists>index start sectors type boot. create_args it st ct tt bt = Some (index, start, sectors, type, boot)
          \<and> start + sectors \<le> disk_size K w \<and> range_free (index - 1) start sectors (mbr_table s)
          \<and> mbr_table s' = table_create (index - 1) start sectors type boot (mbr_table s)
       else s' = s)"
proof -
  obtain w' ok where c: "partctl_cmd_create K it st ct tt bt w = (w', ok)" by fastforce
  show ?thesis unfolding c prod.case
    using cmd_create_spec [OF assms c] by (cases ok) (auto simp: edited_def split: option.splits)
qed

lemma partctl_create_safe_witness:
  "case partctl_cmd_create demo_disk (Some ''1'') (Some ''64'') (Some ''128'') (Some ''0x0C'') (Some ''1'') blank_disk of
     (w', ok) \<Rightarrow> \<exists>s'. sector0 demo_disk w' = Some s' \<and> table_ok (disk_size demo_disk w') (mbr_table s')"
proof -
  note c = partctl_create_safe [OF demo_disk_ok blank_disk_table(1,3), of "Some ''1''" "Some ''64''" "Some ''128''"
    "Some ''0x0C''" "Some ''1''"]
  then show ?thesis by (auto split: prod.splits)
qed

text \<open>On a disk that is present and takes the write, \<open>partctl create\<close> succeeds exactly for
  argument texts that are numbers in range whose sectors lie on the disk and overlap no other
  partition; replacing the entry itself is allowed.\<close>

theorem partctl_create_accepts:
  assumes "disk_calls_ok K" "sector0 K w = Some s" "k_disk_present K (w_k w) \<noteq> 0"
    and "\<And>d. length d = 512 \<Longrightarrow> snd (k_disk_write_sector K (w_k w) 0 d) \<noteq> 0"
  shows "snd (partctl_cmd_create K it st ct tt bt w) \<longleftrightarrow>
    (\<exists>index start sectors type boot. create_args it st ct tt bt = Some (index, start, sectors, type, boot)
       \<and> start + sectors \<le> disk_size K w \<and> range_free (index - 1) start sectors (mbr_table s))"
proof (cases "create_args it st ct tt bt")
  case None
  then show ?thesis by (auto simp: create_args_def partctl_cmd_create_def split: option.splits if_splits)
next
  case (Some a)
  obtain index start sectors type boot where a: "a = (index, start, sectors, type, boot)" by (cases a)
  have g: "start < 2 ^ 32" "0 < sectors" "sectors < 2 ^ 32"
    and c: "partctl_cmd_create K it st ct tt bt w = partctl_create_checked K index start sectors type boot w"
    using Some unfolding a by (auto simp: create_args_def partctl_cmd_create_def split: option.splits if_splits)
  have add: "add64 start sectors = start + sectors" using g by (intro add64_small) simp
  have r: "partctl_read_sector0 K w = (w, Some s)"
    using assms(2,3) by (simp add: partctl_read_sector0_def partctl_disk_required_def)
  have w: "snd (partctl_write_sector0 K (create_edit (index - 1) start sectors type boot s) w)"
    using assms(3) assms(4) [OF create.edit_length [OF sector_length [OF assms(1,2)]], of "index - 1" start sectors type boot]
    by (auto simp: partctl_write_sector0_def partctl_disk_required_def split: prod.splits)
  have "snd (partctl_create_checked K index start sectors type boot w) \<longleftrightarrow>
      start + sectors \<le> disk_size K w \<and> range_free (index - 1) start sectors (mbr_table s)"
    using w check_overlap_spec [OF g(1,3), of s "index - 1"] g(2)
    by (auto simp: partctl_create_checked_def Let_def add r split: prod.splits bool.splits)
  then show ?thesis unfolding c by (simp add: Some a)
qed

lemma parse_u64_demo:
  "partctl_parse_u64 (Some ''1'') = Some 1" "partctl_parse_u64 (Some ''64'') = Some 64"
  "partctl_parse_u64 (Some ''128'') = Some 128" "partctl_parse_u64 (Some ''0x0C'') = Some 12"
  by (simp_all add: partctl_parse_u64_def c_strtoull_def strtoul_saturates num_sign_def num_base_def clib_skip_space_def
      ctype_defs is_digit_in_def clib_digit_value_def uchar_def ch_at_def Let_def digits_val_def ULONG_MAX_def)

lemma partctl_create_accepts_witness:
  "snd (partctl_cmd_create demo_disk (Some ''1'') (Some ''64'') (Some ''128'') (Some ''0x0C'') (Some ''1'') blank_disk)"
proof -
  have p: "create_args (Some ''1'') (Some ''64'') (Some ''128'') (Some ''0x0C'') (Some ''1'') = Some (1, 64, 128, 12, 1)"
    by (simp add: create_args_def parse_u64_demo parse_index_def parse_boot_def PARTCTL_MBR_ENTRY_COUNT_def)
  have f: "range_free (1 - 1) 64 128 (mbr_table (init_mbr_edit (replicate 512 NUL)))"
    unfolding table_init_edit by (simp add: range_free_def empty_entry_def)
  have "k_disk_present demo_disk (w_k blank_disk) \<noteq> 0"
    "\<And>d. length d = 512 \<Longrightarrow> snd (k_disk_write_sector demo_disk (w_k blank_disk) 0 d) \<noteq> 0"
    by (simp_all add: demo_disk_def)
  from partctl_create_accepts [OF demo_disk_ok blank_disk_table(1) this] show ?thesis
    using p f blank_disk_table(2) by auto
qed

text \<open>\<open>partctl delete\<close> and \<open>partctl set-boot\<close> refine the operations on the abstract table: success
  means that entry \<open>index - 1\<close> is emptied, or that the boot flag is set there and cleared in every
  other entry (or cleared there only, for 0), and nothing else changes; failure changes nothing.\<close>

theorem partctl_edit_refines:
  assumes "disk_calls_ok K" "sector0 K w = Some s" "table_ok (disk_size K w) (mbr_table s)"
  shows "(case partctl_cmd_delete K it w of (w', ok) \<Rightarrow> \<exists>s'. sector0 K w' = Some s' \<and>
      (if ok then \<exists>index. parse_index it = Some index \<and> mbr_table s' = (mbr_table s)[index - 1 := empty_entry]
       else s' = s))
    \<and> (case partctl_cmd_set_boot K it vt w of (w', ok) \<Rightarrow> \<exists>s'. sector0 K w' = Some s' \<and>
      (if ok then \<exists>index v. parse_index it = Some index \<and> partctl_parse_u64 vt = Some v \<and> v \<le> 1
          \<and> mbr_table s' = table_set_boot (index - 1) v (mbr_table s)
       else s' = s))"
proof -
  obtain w' ok where d: "partctl_cmd_delete K it w = (w', ok)" by fastforce
  obtain w'' ok' where b: "partctl_cmd_set_boot K it vt w = (w'', ok')" by fastforce
  show ?thesis unfolding d b prod.case
    using cmd_delete_spec [OF assms d] cmd_set_boot_spec [OF assms b]
    by (cases ok; cases ok') (auto simp: edited_def split: option.splits if_splits)
qed

lemma partctl_edit_refines_witness:
  "case partctl_cmd_delete demo_disk (Some ''2'') blank_disk of (w', ok) \<Rightarrow> \<exists>s'. sector0 demo_disk w' = Some s'"
  using partctl_edit_refines [OF demo_disk_ok blank_disk_table(1,3), of "Some ''2''" "Some ''1''"]
  by (elim conjE) (auto split: prod.splits)

text \<open>C2: the invariant of the tool: on a disk with a well-formed table, every sequence of \<open>partctl\<close>
  runs with any command lines, failing ones included, leaves a well-formed table.\<close>

theorem partctl_session_keeps_table:
  assumes "disk_calls_ok K" "disk_table_ok K w0" "partctl_session K w0 w"
  shows "disk_table_ok K w \<and> disk_size K w = disk_size K w0"
  using assms(3)
proof (induction rule: partctl_session.induct)
  case start
  then show ?case using assms(2) by simp
next
  case (run w arg w' ok)
  then show ?case using step_keeps [OF run_step [OF run.hyps(2)] assms(1)] by simp
qed

lemma partctl_session_keeps_table_witness:
  "disk_table_ok demo_disk (fst (partctl_run demo_disk ''create 1 64 128 0x0C'' blank_disk))"
proof -
  have "disk_table_ok demo_disk blank_disk" using blank_disk_table by (auto simp: disk_table_ok_def)
  moreover have "partctl_session demo_disk blank_disk (fst (partctl_run demo_disk ''create 1 64 128 0x0C'' blank_disk))"
    by (rule partctl_session.run [OF partctl_session.start prod.collapse [symmetric]])
  ultimately show ?thesis using partctl_session_keeps_table [OF demo_disk_ok] by blast
qed

text \<open>A 32-bit number written little-endian at any position of a sector is read back, and four
  bytes elsewhere are not changed.\<close>

theorem partctl_u32_roundtrip:
  assumes "p + 3 < length s"
  shows "partctl_read_u32_le (partctl_write_u32_le s p v) p = v
    \<and> (q + 3 < p \<or> p + 3 < q \<longrightarrow> partctl_read_u32_le (partctl_write_u32_le s p v) q = partctl_read_u32_le s q)"
  using assms by (simp add: read_write_u32 read_write_u32_other)

lemma partctl_u32_roundtrip_witness:
  "partctl_read_u32_le (partctl_write_u32_le (replicate 512 NUL) 454 0xDEADBEEF) 454 = 0xDEADBEEF"
  using partctl_u32_roundtrip [of 454 "replicate 512 NUL" "0xDEADBEEF"] by simp

end
