(* ===== verification/LibcTime.thy ===== *)
theory LibcTime
  imports LibcNum "HOL-Library.Signed_Division"
begin

text \<open>
  \<open>cleonos/c/src/time.c\<close>. C's division truncates towards zero: \<open>sdiv\<close> and \<open>smod\<close>. A \<open>time_t\<close> is a
  \<open>long\<close>, here an integer; the year of the loops is an \<open>int\<close> whose overflow is undefined (\<open>None\<close>), as is
  an index outside the table of month lengths. The reference is the Gregorian calendar by its closed
  formula for the first day of a year.
\<close>

section \<open>Definitions\<close>

record tm =
  tm_sec :: int
  tm_min :: int
  tm_hour :: int
  tm_mday :: int
  tm_mon :: int
  tm_year :: int
  tm_wday :: int
  tm_yday :: int
  tm_isdst :: int

definition cleonos_time_is_leap :: "int \<Rightarrow> bool" where
  "cleonos_time_is_leap year_full =
     (if year_full smod 400 = 0 then True
      else if year_full smod 100 = 0 then False
      else year_full smod 4 = 0)"

definition cleonos_time_days_in_year :: "int \<Rightarrow> int" where
  "cleonos_time_days_in_year year_full = (if cleonos_time_is_leap year_full then 366 else 365)"

definition month_days :: "int list" where
  "month_days = [31, 28, 31, 30, 31, 30, 31, 31, 30, 31, 30, 31]"

definition cleonos_time_days_in_month :: "int \<Rightarrow> nat \<Rightarrow> int" where
  "cleonos_time_days_in_month year_full month_zero_based =
     (if month_zero_based = 1 \<and> cleonos_time_is_leap year_full then 29 else month_days ! month_zero_based)"

text \<open>The clock in milliseconds comes from the kernel.\<close>

definition c_time :: "u64 \<Rightarrow> int" where
  "c_time time_ms = sint (time_ms div 1000)"

definition c_clock :: "u64 \<Rightarrow> int" where
  "c_clock time_ms = sint time_ms"

lemma diy_pos: "365 \<le> cleonos_time_days_in_year y" "cleonos_time_days_in_year y \<le> 366"
  by (simp_all add: cleonos_time_days_in_year_def)

function year_up :: "int \<Rightarrow> int \<Rightarrow> (int \<times> int) option" where
  "year_up days year =
     (if cleonos_time_days_in_year year \<le> days
      then (if year = INT_MAX then None else year_up (days - cleonos_time_days_in_year year) (year + 1))
      else Some (days, year))"
  by pat_completeness auto
termination
proof (relation "measure (\<lambda>(days, year). nat days)", simp)
  fix days year assume "cleonos_time_days_in_year year \<le> days"
  then show "((days - cleonos_time_days_in_year year, year + 1), (days, year)) \<in> measure (\<lambda>(days, year). nat days)"
    using diy_pos [of year] by simp
qed

function year_down :: "int \<Rightarrow> int \<Rightarrow> (int \<times> int) option" where
  "year_down days year =
     (if days < 0
      then (if year = INT_MIN then None else year_down (days + cleonos_time_days_in_year (year - 1)) (year - 1))
      else Some (days, year))"
  by pat_completeness auto
termination
proof (relation "measure (\<lambda>(days, year). nat (- days))", simp)
  fix days year :: int assume "days < 0"
  then show "((days + cleonos_time_days_in_year (year - 1), year - 1), (days, year)) \<in> measure (\<lambda>(days, year). nat (- days))"
    using diy_pos [of "year - 1"] by simp
qed

function month_loop :: "int \<Rightarrow> int \<Rightarrow> nat \<Rightarrow> int \<times> nat" where
  "month_loop year days month =
     (if month < 12 \<and> cleonos_time_days_in_month year month \<le> days
      then month_loop year (days - cleonos_time_days_in_month year month) (month + 1)
      else (days, month))"
  by pat_completeness auto
termination by (relation "measure (\<lambda>(year, days, month). 12 - month)") auto

declare year_up.simps [simp del] year_down.simps [simp del] month_loop.simps [simp del]

text \<open>\<open>gmtime_r\<close> on a time; a null pointer is handled by the callers' option.\<close>

definition c_gmtime_r :: "int \<Rightarrow> tm option" where
  "c_gmtime_r seconds =
     (let days = seconds sdiv 86400;
          rem = seconds smod 86400;
          (rem, days) = (if rem < 0 then (rem + 86400, days - 1) else (rem, days));
          hour = rem sdiv 3600;
          rem = rem smod 3600;
          wday = (days + 4) smod 7;
          wday = (if wday < 0 then wday + 7 else wday)
      in case year_up days 1970 of
           None \<Rightarrow> None
         | Some (days, year) \<Rightarrow>
           (case year_down days year of
              None \<Rightarrow> None
            | Some (days, year) \<Rightarrow>
              (case month_loop year days 0 of
                 (mday, month) \<Rightarrow>
                   Some \<lparr>tm_sec = rem smod 60, tm_min = rem sdiv 60, tm_hour = hour, tm_mday = mday + 1,
                     tm_mon = int month, tm_year = year - 1900, tm_wday = wday, tm_yday = days, tm_isdst = 0\<rparr>)))"

definition c_gmtime :: "int \<Rightarrow> tm option" where
  "c_gmtime seconds = c_gmtime_r seconds"

definition c_localtime_r :: "int \<Rightarrow> tm option" where
  "c_localtime_r seconds = c_gmtime_r seconds"

definition c_localtime :: "int \<Rightarrow> tm option" where
  "c_localtime seconds = c_localtime_r seconds"

definition c_mktime :: "tm option \<Rightarrow> int option" where
  "c_mktime tm_value =
     (case tm_value of
        None \<Rightarrow> Some (- 1)
      | Some t \<Rightarrow>
        if INT_MAX < tm_year t + 1900 \<or> 12 < tm_mon t \<or> tm_mday t = INT_MIN then None
        else (let days = fold (\<lambda>year days. days + cleonos_time_days_in_year year) [1970..tm_year t + 1899] 0;
                  days = fold (\<lambda>month days. days + cleonos_time_days_in_month (tm_year t + 1900) month)
                           [0..<nat (tm_mon t)] days;
                  days = days + (tm_mday t - 1)
              in Some (days * 86400 + tm_hour t * 3600 + tm_min t * 60 + tm_sec t)))"

text \<open>The digits are taken from the end; negative values print as 0.\<close>

definition pad_digits :: "int \<Rightarrow> nat \<Rightarrow> string" where
  "pad_digits v width =
     (let u = (if v < 0 then 0 else nat v) in map (\<lambda>i. digit_char (u div 10 ^ (width - 1 - i) mod 10)) [0..<width])"

fun append_chars :: "nat \<Rightarrow> string \<Rightarrow> string \<Rightarrow> string option" where
  "append_chars out_size out [] = Some out"
| "append_chars out_size out (c # cs) =
     (if out_size \<le> length out + 1 then None else append_chars out_size (out @ [c]) cs)"

definition cleonos_time_append_num :: "nat \<Rightarrow> string \<Rightarrow> int \<Rightarrow> nat \<Rightarrow> string option" where
  "cleonos_time_append_num out_size out v width = append_chars out_size out (pad_digits v width)"

text \<open>The number that a conversion character stands for, and its width.\<close>

definition strftime_num :: "tm \<Rightarrow> char \<Rightarrow> (int \<times> nat) option" where
  "strftime_num t d =
     (if d = CHR ''Y'' then Some (tm_year t + 1900, 4)
      else if d = CHR ''m'' then Some (tm_mon t + 1, 2)
      else if d = CHR ''d'' then Some (tm_mday t, 2)
      else if d = CHR ''H'' then Some (tm_hour t, 2)
      else if d = CHR ''M'' then Some (tm_min t, 2)
      else if d = CHR ''S'' then Some (tm_sec t, 2)
      else None)"

text \<open>The text written so far; \<open>None\<close> is the result 0 with an empty buffer.\<close>

fun strftime_loop :: "nat \<Rightarrow> tm \<Rightarrow> string \<Rightarrow> string \<Rightarrow> string option" where
  "strftime_loop out_size t out [] = Some out"
| "strftime_loop out_size t out [c] =
     (if c \<noteq> CHR ''%'' then append_chars out_size out [c] else None)"
| "strftime_loop out_size t out (c # d # cs) =
     (if c \<noteq> CHR ''%''
      then (case append_chars out_size out [c] of None \<Rightarrow> None | Some out \<Rightarrow> strftime_loop out_size t out (d # cs))
      else (case (case strftime_num t d of
                    Some (v, width) \<Rightarrow> cleonos_time_append_num out_size out v width
                  | None \<Rightarrow> if d = CHR ''%'' then append_chars out_size out ''%'' else None) of
              None \<Rightarrow> None
            | Some out \<Rightarrow> strftime_loop out_size t out cs))"

text \<open>The returned length and what the buffer begins with.\<close>

definition c_strftime :: "nat \<Rightarrow> string \<Rightarrow> tm \<Rightarrow> nat \<times> string" where
  "c_strftime out_size format t =
     (if out_size = 0 then (0, [])
      else (case strftime_loop out_size t [] format of
          None \<Rightarrow> (0, [NUL]) | Some out \<Rightarrow> (length out, out @ [NUL])))"

section \<open>Truncating division\<close>

lemma smod_sdiv_floor:
  fixes a b :: int
  assumes "0 < b"
  shows "(if a smod b < 0 then a smod b + b else a smod b) = a mod b"
    and "(if a smod b < 0 then a sdiv b - 1 else a sdiv b) = a div b"
proof -
  have e: "a = b * (a sdiv b) + a smod b" by (simp add: mult_sdiv_smod_eq)
  have r: "\<bar>a smod b\<bar> < b" using assms by (simp add: signed_modulo_int_def abs_mult sgn_if)
  have "a div b = (if a smod b < 0 then a sdiv b - 1 else a sdiv b)
    \<and> a mod b = (if a smod b < 0 then a smod b + b else a smod b)"
  proof (cases "a smod b < 0")
    case True
    have "a = b * (a sdiv b - 1) + (a smod b + b)" using e by (simp add: algebra_simps)
    then show ?thesis using True r int_div_pos_eq [of a b "a sdiv b - 1" "a smod b + b"]
        int_mod_pos_eq [of a b "a sdiv b - 1" "a smod b + b"] by simp
  next
    case False
    then show ?thesis using r e int_div_pos_eq [of a b "a sdiv b" "a smod b"]
        int_mod_pos_eq [of a b "a sdiv b" "a smod b"] by simp
  qed
  then show "(if a smod b < 0 then a smod b + b else a smod b) = a mod b"
    and "(if a smod b < 0 then a sdiv b - 1 else a sdiv b) = a div b" by simp_all
qed

lemma div_less_mult:
  fixes a b c :: int
  assumes "0 < b" "a < c * b" shows "a div b < c"
proof (rule ccontr)
  assume "\<not> a div b < c"
  then have "c * b \<le> a div b * b" using assms(1) by (simp add: mult_right_mono)
  also have "\<dots> \<le> a" by (simp add: minus_mod_eq_div_mult [symmetric] assms(1))
  finally show False using assms(2) by simp
qed

lemma sdiv_nonneg: "0 \<le> (a :: int) \<Longrightarrow> 0 < b \<Longrightarrow> a sdiv b = a div b \<and> a smod b = a mod b"
  by (simp add: signed_divide_int_def signed_modulo_int_def sgn_if)

lemma smod_eq_0: "(a :: int) smod b = 0 \<longleftrightarrow> b dvd a"
  by (cases "a = 0") (simp_all add: signed_modulo_int_def sgn_if mod_eq_0_iff_dvd)

section \<open>The Gregorian calendar\<close>

definition leap_year :: "int \<Rightarrow> bool" where
  "leap_year y \<longleftrightarrow> 4 dvd y \<and> (\<not> 100 dvd y \<or> 400 dvd y)"

lemma is_leap_correct [c_spec]: "cleonos_time_is_leap y = leap_year y"
proof -
  have "400 dvd y \<Longrightarrow> 4 dvd y" using dvd_trans [of 4 400 y] by simp
  then show ?thesis by (auto simp: cleonos_time_is_leap_def leap_year_def smod_eq_0)
qed

definition leaps_before :: "int \<Rightarrow> int" where
  "leaps_before y = (y - 1) div 4 - (y - 1) div 100 + (y - 1) div 400"

text \<open>The number of the first day of a year, counted from 1 January 1970.\<close>

definition year_start :: "int \<Rightarrow> int" where
  "year_start y = 365 * (y - 1970) + (leaps_before y - leaps_before 1970)"

lemma div_step: "0 < n \<Longrightarrow> (y :: int) div n = (y - 1) div n + of_bool (n dvd y)"
proof -
  assume n: "0 < n"
  have e: "y = n * (y div n) + y mod n" "0 \<le> y mod n" "y mod n < n" using n by simp_all
  show ?thesis
  proof (cases "n dvd y")
    case True
    then have "y - 1 = n * (y div n - 1) + (n - 1)" by (simp add: algebra_simps)
    then have "(y - 1) div n = y div n - 1" using n int_div_pos_eq [of "y - 1" n "y div n - 1" "n - 1"] by simp
    then show ?thesis using True by simp
  next
    case False
    then have "y mod n \<noteq> 0" by (simp add: mod_eq_0_iff_dvd)
    then have p: "0 \<le> y mod n - 1" "y mod n - 1 < n" using e by linarith+
    have "y - 1 = n * (y div n) + (y mod n - 1)" using e(1) by linarith
    then have "(y - 1) div n = y div n" using p by (rule int_div_pos_eq)
    then show ?thesis using False by simp
  qed
qed

lemma year_start_step: "year_start (y + 1) = year_start y + cleonos_time_days_in_year y"
proof -
  have d: "400 dvd y \<Longrightarrow> 100 dvd y" "100 dvd y \<Longrightarrow> 4 dvd y"
    using dvd_trans [of 100 400 y] dvd_trans [of 4 100 y] by simp_all
  have "leaps_before (y + 1) = leaps_before y + (of_bool (4 dvd y) - of_bool (100 dvd y) + of_bool (400 dvd y))"
    unfolding leaps_before_def add_diff_cancel_right'
    using div_step [of 4 y] div_step [of 100 y] div_step [of 400 y] by linarith
  also have "of_bool (4 dvd y) - of_bool (100 dvd y) + of_bool (400 dvd y) = (of_bool (leap_year y) :: int)"
    using d by (cases "4 dvd y"; cases "100 dvd y"; cases "400 dvd y") (simp_all add: leap_year_def)
  finally show ?thesis
    by (simp add: year_start_def cleonos_time_days_in_year_def is_leap_correct algebra_simps)
qed

lemma year_start_1970 [simp]: "year_start 1970 = 0"
  by (simp add: year_start_def)

definition month_start :: "int \<Rightarrow> nat \<Rightarrow> int" where
  "month_start y m = sum_list (map (cleonos_time_days_in_month y) [0..<m])"

lemma upt12: "[0..<12] = [0, 1, 2, 3, 4, 5, 6, 7, 8, 9, 10, 11 :: nat]"
  by code_simp

lemma month_start_12: "month_start y 12 = cleonos_time_days_in_year y"
  by (simp add: month_start_def upt12 cleonos_time_days_in_month_def month_days_def cleonos_time_days_in_year_def)

lemma dim_bounds: "m < 12 \<Longrightarrow> 28 \<le> cleonos_time_days_in_month y m \<and> cleonos_time_days_in_month y m \<le> 31"
proof -
  assume "m < 12"
  then have "m \<in> set [0..<12]" by simp
  then have "m \<in> set [0, 1, 2, 3, 4, 5, 6, 7, 8, 9, 10, 11]" by (simp only: upt12)
  then show ?thesis by (auto simp: cleonos_time_days_in_month_def month_days_def)
qed

section \<open>The loops\<close>

lemma year_up_spec:
  "0 \<le> days \<Longrightarrow> days < 365 * (INT_MAX - year) \<Longrightarrow>
    \<exists>d y. year_up days year = Some (d, y) \<and> year_start y + d = year_start year + days
      \<and> 0 \<le> d \<and> d < cleonos_time_days_in_year y \<and> year \<le> y \<and> y \<le> INT_MAX"
proof (induction days year rule: year_up.induct)
  case (1 days year)
  show ?case
  proof (cases "cleonos_time_days_in_year year \<le> days")
    case True
    then have n: "year \<noteq> INT_MAX" using "1.prems" by auto
    have "days - cleonos_time_days_in_year year < 365 * (INT_MAX - (year + 1))"
      using "1.prems" diy_pos [of year] by simp
    then obtain d y where "year_up (days - cleonos_time_days_in_year year) (year + 1) = Some (d, y)"
      "year_start y + d = year_start (year + 1) + (days - cleonos_time_days_in_year year)"
      "0 \<le> d" "d < cleonos_time_days_in_year y" "year + 1 \<le> y" "y \<le> INT_MAX"
      using "1.IH" [OF True n] True by auto
    then show ?thesis using True n by (subst year_up.simps) (simp add: year_start_step)
  next
    case False
    then have "year \<le> INT_MAX" using "1.prems" by simp
    then show ?thesis using False "1.prems" by (subst year_up.simps) simp
  qed
qed

lemma year_down_spec:
  "days < cleonos_time_days_in_year year \<Longrightarrow> 365 * (INT_MIN - year) \<le> days \<Longrightarrow>
    \<exists>d y. year_down days year = Some (d, y) \<and> year_start y + d = year_start year + days
      \<and> 0 \<le> d \<and> d < cleonos_time_days_in_year y \<and> y \<le> year"
proof (induction days year rule: year_down.induct)
  case (1 days year)
  show ?case
  proof (cases "days < 0")
    case True
    then have n: "year \<noteq> INT_MIN" using "1.prems" by auto
    have s: "year_start year = year_start (year - 1) + cleonos_time_days_in_year (year - 1)"
      using year_start_step [of "year - 1"] by simp
    have "365 * (INT_MIN - (year - 1)) \<le> days + cleonos_time_days_in_year (year - 1)"
      "days + cleonos_time_days_in_year (year - 1) < cleonos_time_days_in_year (year - 1)"
      using "1.prems" True diy_pos [of "year - 1"] by simp_all
    then obtain d y where "year_down (days + cleonos_time_days_in_year (year - 1)) (year - 1) = Some (d, y)"
      "year_start y + d = year_start (year - 1) + (days + cleonos_time_days_in_year (year - 1))"
      "0 \<le> d" "d < cleonos_time_days_in_year y" "y \<le> year - 1"
      using "1.IH" [OF True n] by auto
    then show ?thesis using True n s by (subst year_down.simps) simp
  next
    case False
    then show ?thesis using "1.prems" by (subst year_down.simps) simp
  qed
qed

lemma month_loop_spec:
  "0 \<le> days \<Longrightarrow> days + month_start y m < cleonos_time_days_in_year y \<Longrightarrow> m \<le> 12 \<Longrightarrow>
    \<exists>d k. month_loop y days m = (d, k) \<and> k < 12 \<and> 0 \<le> d \<and> d < cleonos_time_days_in_month y k
      \<and> month_start y k + d = month_start y m + days"
proof (induction y days m rule: month_loop.induct)
  case (1 y days m)
  have m: "m < 12" using "1.prems" month_start_12 [of y] by (cases "m = 12") auto
  have s: "month_start y (m + 1) = month_start y m + cleonos_time_days_in_month y m"
    by (simp add: month_start_def)
  show ?case
  proof (cases "cleonos_time_days_in_month y m \<le> days")
    case True
    then obtain d k where "month_loop y (days - cleonos_time_days_in_month y m) (m + 1) = (d, k)" "k < 12" "0 \<le> d"
      "d < cleonos_time_days_in_month y k" "month_start y k + d = month_start y (m + 1) + (days - cleonos_time_days_in_month y m)"
      using "1.IH" m "1.prems" s by auto
    then show ?thesis using True m s by (subst month_loop.simps) simp
  next
    case False
    then show ?thesis using m "1.prems" by (subst month_loop.simps) simp
  qed
qed

section \<open>Broken-down times\<close>

text \<open>A valid date and time of the calendar, and the second it denotes.\<close>

definition tm_valid :: "tm \<Rightarrow> bool" where
  "tm_valid t \<longleftrightarrow> 0 \<le> tm_sec t \<and> tm_sec t < 60 \<and> 0 \<le> tm_min t \<and> tm_min t < 60 \<and> 0 \<le> tm_hour t \<and> tm_hour t < 24
     \<and> 0 \<le> tm_mon t \<and> tm_mon t < 12 \<and> 1 \<le> tm_mday t
     \<and> tm_mday t \<le> cleonos_time_days_in_month (tm_year t + 1900) (nat (tm_mon t))"

definition tm_day :: "tm \<Rightarrow> int" where
  "tm_day t = year_start (tm_year t + 1900) + month_start (tm_year t + 1900) (nat (tm_mon t)) + (tm_mday t - 1)"

definition tm_seconds :: "tm \<Rightarrow> int" where
  "tm_seconds t = tm_day t * 86400 + tm_hour t * 3600 + tm_min t * 60 + tm_sec t"

definition gmtime_limit :: int where
  "gmtime_limit = 86400 * 365 * (INT_MAX - 1970)"

lemma gmtime_fields:
  "c_gmtime_r s = (case year_up (s div 86400) 1970 of None \<Rightarrow> None
     | Some (days, year) \<Rightarrow> (case year_down days year of None \<Rightarrow> None
       | Some (days, year) \<Rightarrow> (case month_loop year days 0 of (mday, month) \<Rightarrow>
           Some \<lparr>tm_sec = s mod 60, tm_min = s mod 3600 div 60, tm_hour = s mod 86400 div 3600, tm_mday = mday + 1,
             tm_mon = int month, tm_year = year - 1900, tm_wday = (s div 86400 + 4) mod 7, tm_yday = days, tm_isdst = 0\<rparr>)))"
proof -
  note fl = smod_sdiv_floor [of 86400 s]
  have r: "0 \<le> s mod 86400" by simp
  have m: "s mod 86400 mod 3600 = s mod 3600" "s mod 3600 mod 60 = s mod 60"
    by (simp_all add: mod_mod_cancel)
  have w: "(if (d + 4) smod 7 < 0 then (d + 4) smod 7 + 7 else (d + 4) smod 7) = (d + 4) mod 7" for d :: int
    using smod_sdiv_floor(1) [of 7 "d + 4"] by simp
  have p: "(if s smod 86400 < 0 then (s smod 86400 + 86400, s sdiv 86400 - 1) else (s smod 86400, s sdiv 86400))
      = (s mod 86400, s div 86400)" using fl by (cases "s smod 86400 < 0") simp_all
  have q: "s mod 86400 sdiv 3600 = s mod 86400 div 3600" "s mod 86400 smod 3600 = s mod 3600"
    "s mod 3600 sdiv 60 = s mod 3600 div 60" "s mod 3600 smod 60 = s mod 60"
    using sdiv_nonneg [OF r, of 3600] sdiv_nonneg [of "s mod 3600" 60] m by simp_all
  show ?thesis
    unfolding c_gmtime_r_def Let_def p prod.case w q by (rule refl)
qed

lemma gmtime_spec [c_spec]:
  assumes "- gmtime_limit \<le> s" "s < gmtime_limit"
  shows "\<exists>t. c_gmtime_r s = Some t \<and> tm_valid t \<and> tm_seconds t = s \<and> tm_wday t = (s div 86400 + 4) mod 7
    \<and> tm_yday t = tm_day t - year_start (tm_year t + 1900) \<and> tm_isdst t = 0 \<and> tm_year t + 1900 \<le> INT_MAX
    \<and> (0 \<le> s \<longrightarrow> 70 \<le> tm_year t)"
proof -
  let ?D = "s div 86400"
  have D: "- (365 * (INT_MAX - 1970)) \<le> ?D" "?D < 365 * (INT_MAX - 1970)"
    using assms by (simp_all add: gmtime_limit_def INT_MAX_def)
  obtain d1 y1 d y where u: "year_up ?D 1970 = Some (d1, y1)" and v: "year_down d1 y1 = Some (d, y)"
    and e: "year_start y + d = ?D" and d: "0 \<le> d" "d < cleonos_time_days_in_year y"
    and y: "y \<le> INT_MAX" "0 \<le> ?D \<longrightarrow> 1970 \<le> y"
  proof (cases "0 \<le> ?D")
    case True
    then obtain d y where u: "year_up ?D 1970 = Some (d, y)" "year_start y + d = ?D" "0 \<le> d"
      "d < cleonos_time_days_in_year y" "1970 \<le> y" "y \<le> INT_MAX"
      using year_up_spec [of ?D 1970] D by auto
    then show thesis using that [of d y d y] by (simp add: year_down.simps)
  next
    case False
    have l: "?D < cleonos_time_days_in_year 1970" using False diy_pos [of 1970] by linarith
    have b: "365 * (INT_MIN - 1970) \<le> ?D" using D by (simp add: INT_MIN_def INT_MAX_def)
    obtain d y where v: "year_down ?D 1970 = Some (d, y)" "year_start y + d = year_start 1970 + ?D" "0 \<le> d"
      "d < cleonos_time_days_in_year y" "y \<le> 1970"
      using year_down_spec [OF l b] by blast
    have "year_up ?D 1970 = Some (?D, 1970)" using l by (subst year_up.simps) simp
    then show thesis using that [of ?D 1970 d y] v False by (simp add: INT_MAX_def)
  qed
  obtain md k where ml: "month_loop y d 0 = (md, k)" and k: "k < 12" "0 \<le> md" "md < cleonos_time_days_in_month y k"
    "month_start y k + md = d"
    using month_loop_spec [of d y 0] d by (auto simp: month_start_def)
  have s: "s = ?D * 86400 + s mod 86400 div 3600 * 3600 + s mod 3600 div 60 * 60 + s mod 60"
  proof -
    have "s = ?D * 86400 + s mod 86400" by simp
    moreover have "s mod 86400 = s mod 86400 div 3600 * 3600 + s mod 3600"
      using div_mult_mod_eq [of "s mod 86400" 3600] by (simp add: mod_mod_cancel)
    moreover have "s mod 3600 = s mod 3600 div 60 * 60 + s mod 60"
      using div_mult_mod_eq [of "s mod 3600" 60] by (simp add: mod_mod_cancel)
    ultimately show ?thesis by linarith
  qed
  have h: "0 \<le> s mod 86400 div 3600" "s mod 86400 div 3600 < 24" "0 \<le> s mod 3600 div 60" "s mod 3600 div 60 < 60"
    by (simp_all add: pos_imp_zdiv_nonneg_iff div_less_mult)
  define t where "t = \<lparr>tm_sec = s mod 60, tm_min = s mod 3600 div 60, tm_hour = s mod 86400 div 3600, tm_mday = md + 1,
    tm_mon = int k, tm_year = y - 1900, tm_wday = (?D + 4) mod 7, tm_yday = d, tm_isdst = 0\<rparr>"
  have r: "c_gmtime_r s = Some t" by (simp add: gmtime_fields u v ml t_def)
  have day: "tm_day t = ?D" using k(4) e by (simp add: tm_day_def t_def)
  have sec: "tm_seconds t = s" unfolding tm_seconds_def day unfolding t_def tm.select_convs by (rule s [symmetric])
  have "tm_valid t" using h k by (simp add: tm_valid_def t_def)
  moreover have "0 \<le> s \<longrightarrow> 70 \<le> tm_year t" using y(2) by (simp add: t_def pos_imp_zdiv_nonneg_iff)
  moreover have "tm_yday t = tm_day t - year_start (tm_year t + 1900)" using e by (simp add: day) (simp add: t_def)
  moreover have "tm_wday t = (?D + 4) mod 7" "tm_isdst t = 0" "tm_year t + 1900 \<le> INT_MAX"
    using y(1) by (simp_all add: t_def)
  ultimately show ?thesis using r sec by blast
qed

lemma fold_years:
  "y0 \<le> y \<Longrightarrow> fold (\<lambda>year days. days + cleonos_time_days_in_year year) [y0..y - 1] a = a + (year_start y - year_start y0)"
proof (induction "nat (y - y0)" arbitrary: y0 a)
  case 0
  then show ?case by simp
next
  case (Suc n)
  then have "y0 < y" by simp
  then have "[y0..y - 1] = y0 # [y0 + 1..y - 1]" by (simp add: upto_rec1)
  moreover have "n = nat (y - (y0 + 1))" using Suc.hyps(2) by simp
  ultimately show ?case
    using Suc.hyps(1) [of "y0 + 1" "a + cleonos_time_days_in_year y0"] \<open>y0 < y\<close> by (simp add: year_start_step)
qed

lemma fold_months:
  "fold (\<lambda>month days. days + cleonos_time_days_in_month y month) [0..<m] a = a + month_start y m"
  by (induction m) (simp_all add: month_start_def)

lemma mktime_spec [c_spec]:
  assumes "tm_valid t" "tm_year t + 1900 \<le> INT_MAX"
  shows "c_mktime (Some t) = Some (tm_seconds t - (if tm_year t < 70 then year_start (tm_year t + 1900) * 86400 else 0))"
proof -
  have "[1970..tm_year t + 1899] = []" if "tm_year t < 70" using that by simp
  moreover have "fold (\<lambda>year days. days + cleonos_time_days_in_year year) [1970..tm_year t + 1899] 0 = year_start (tm_year t + 1900)"
    if "70 \<le> tm_year t"
  proof -
    have "tm_year t + 1900 - 1 = tm_year t + 1899" by simp
    with fold_years [of 1970 "tm_year t + 1900" 0] that show ?thesis by (simp only:) simp
  qed
  ultimately show ?thesis using assms
    by (cases "tm_year t < 70")
      (auto simp: c_mktime_def tm_valid_def fold_months tm_seconds_def tm_day_def INT_MIN_def Let_def algebra_simps)
qed

text \<open>\<open>gmtime_r\<close> computes the Gregorian calendar. For every time within \<open>gmtime_limit\<close> of the epoch
  (about two thousand million years; further away the year does not fit an \<open>int\<close>) the result is a valid
  date and time, it denotes exactly the given second by the closed formula for the days before a year,
  and the weekday and the day of the year are right (1 January 1970 was a Thursday).\<close>

theorem gmtime_calendar:
  assumes "- gmtime_limit \<le> s" "s < gmtime_limit"
  shows "\<exists>t. c_gmtime_r s = Some t \<and> tm_valid t \<and> tm_seconds t = s \<and> tm_wday t = (s div 86400 + 4) mod 7
    \<and> tm_yday t = tm_day t - year_start (tm_year t + 1900)"
  using gmtime_spec [OF assms] by blast

lemma gmtime_calendar_witness:
  "\<exists>t. c_gmtime_r (- 1) = Some t \<and> tm_valid t \<and> tm_seconds t = - 1 \<and> tm_wday t = 3"
  using gmtime_calendar [of "- 1"] by (auto simp: gmtime_limit_def INT_MAX_def)

text \<open>C10: \<open>mktime\<close> inverts \<open>gmtime\<close> from the epoch on. Before it, \<open>mktime\<close> skips the years between the
  date and 1970, so its result is off by them: for the last second of 1969 it answers 31535999.\<close>

theorem mktime_inverts_gmtime:
  assumes "- gmtime_limit \<le> s" "s < gmtime_limit"
  shows "\<exists>t. c_gmtime_r s = Some t \<and> (0 \<le> s \<longrightarrow> c_mktime (Some t) = Some s)
    \<and> (tm_year t < 70 \<longrightarrow> c_mktime (Some t) = Some (s - year_start (tm_year t + 1900) * 86400))"
proof -
  obtain t where "c_gmtime_r s = Some t" "tm_valid t" "tm_seconds t = s" "tm_year t + 1900 \<le> INT_MAX"
    "0 \<le> s \<longrightarrow> 70 \<le> tm_year t" using gmtime_spec [OF assms] by blast
  then show ?thesis using mktime_spec [of t] by auto
qed

lemma gmtime_minus_1: "c_gmtime_r (- 1) =
    Some \<lparr>tm_sec = 59, tm_min = 59, tm_hour = 23, tm_mday = 31, tm_mon = 11, tm_year = 69, tm_wday = 3, tm_yday = 364, tm_isdst = 0\<rparr>"
  by code_simp

lemma mktime_inverts_gmtime_witness:
  "\<exists>t t'. c_gmtime_r 951782400 = Some t \<and> c_mktime (Some t) = Some 951782400
    \<and> c_gmtime_r (- 1) = Some t' \<and> c_mktime (Some t') = Some 31535999"
proof -
  have "year_start 1969 = - 365" by code_simp
  then show ?thesis
    using mktime_inverts_gmtime [of 951782400] mktime_inverts_gmtime [of "- 1"] gmtime_minus_1
    by (auto simp: gmtime_limit_def INT_MAX_def)
qed

section \<open>\<open>strftime\<close>\<close>

text \<open>What a format denotes; \<open>None\<close> for a conversion that is not supported.\<close>

definition tm_piece :: "tm \<Rightarrow> char \<Rightarrow> string option" where
  "tm_piece t d = (case strftime_num t d of
     Some (v, width) \<Rightarrow> Some (pad_digits v width) | None \<Rightarrow> if d = CHR ''%'' then Some ''%'' else None)"

fun tm_text :: "tm \<Rightarrow> string \<Rightarrow> string option" where
  "tm_text t [] = Some []"
| "tm_text t [c] = (if c \<noteq> CHR ''%'' then Some [c] else None)"
| "tm_text t (c # d # cs) =
     (if c \<noteq> CHR ''%'' then map_option ((#) c) (tm_text t (d # cs))
      else (case tm_piece t d of None \<Rightarrow> None | Some u \<Rightarrow> map_option ((@) u) (tm_text t cs)))"

lemma append_chars_spec [c_spec]:
  "append_chars n out u = (if u = [] \<or> length out + length u < n then Some (out @ u) else None)"
  by (induction n out u rule: append_chars.induct) auto

lemma length_pad_digits [simp]: "length (pad_digits v w) = w"
  by (simp add: pad_digits_def Let_def)

lemma tm_piece_not_empty: "tm_piece t d = Some u \<Longrightarrow> u \<noteq> []"
  by (auto simp: tm_piece_def strftime_num_def pad_digits_def Let_def split: if_splits)

lemma strftime_piece:
  "(case strftime_num t d of Some (v, width) \<Rightarrow> cleonos_time_append_num n out v width
    | None \<Rightarrow> if d = CHR ''%'' then append_chars n out ''%'' else None) =
   (case tm_piece t d of None \<Rightarrow> None | Some u \<Rightarrow> append_chars n out u)"
  by (simp add: tm_piece_def cleonos_time_append_num_def split: option.splits)

lemma strftime_loop_spec [c_spec]:
  "length out < n \<Longrightarrow> strftime_loop n t out fmt =
    (case tm_text t fmt of None \<Rightarrow> None | Some u \<Rightarrow> if length out + length u < n then Some (out @ u) else None)"
proof (induction n t out fmt rule: strftime_loop.induct)
  case (3 n t out c d cs)
  show ?case
  proof (cases "c = CHR ''%''")
    case False
    then show ?thesis using 3 by (auto simp: append_chars_spec split: option.splits)
  next
    case True
    show ?thesis
    proof (cases "tm_piece t d")
      case None
      then show ?thesis using True by (simp add: strftime_piece)
    next
      case (Some u)
      have "strftime_loop n t (out @ u) cs = (case tm_text t cs of None \<Rightarrow> None
          | Some v \<Rightarrow> if length (out @ u) + length v < n then Some ((out @ u) @ v) else None)"
        if "length (out @ u) < n"
        using 3(2) [of "out @ u"] True Some that by (simp add: strftime_piece append_chars_spec)
      then show ?thesis using True Some tm_piece_not_empty [OF Some]
        by (auto simp: strftime_piece append_chars_spec split: option.splits)
    qed
  qed
qed (auto simp: append_chars_spec)

text \<open>\<open>strftime\<close> never writes past the buffer: it returns the whole text of the format with a NUL
  behind it when both fit, and otherwise 0 with an empty buffer, also for a conversion that is not
  supported or a percent sign at the end.\<close>

theorem strftime_bounded:
  assumes "0 < n"
  shows "c_strftime n fmt t =
    (case tm_text t fmt of
       Some u \<Rightarrow> if length u < n then (length u, u @ [NUL]) else (0, [NUL])
     | None \<Rightarrow> (0, [NUL])) \<and> length (snd (c_strftime n fmt t)) \<le> n"
  using assms by (auto simp: c_strftime_def strftime_loop_spec split: option.splits)

lemma strftime_bounded_witness:
  "c_strftime 11 ''%Y-%m-%d'' \<lparr>tm_sec = 0, tm_min = 0, tm_hour = 0, tm_mday = 29, tm_mon = 1, tm_year = 100, tm_wday = 2,
     tm_yday = 59, tm_isdst = 0\<rparr> = (10, ''2000-02-29'' @ [NUL])"
proof -
  define t where "t = \<lparr>tm_sec = 0, tm_min = 0, tm_hour = 0, tm_mday = 29, tm_mon = 1, tm_year = 100, tm_wday = 2, tm_yday = 59, tm_isdst = 0\<rparr>"
  have "[0..<2] = [0, 1 :: nat]" "[0..<4] = [0, 1, 2, 3 :: nat]" by code_simp+
  then have "tm_text t ''%Y-%m-%d'' = Some ''2000-02-29''"
    by (simp add: t_def tm_piece_def strftime_num_def pad_digits_def digit_char_eval)
  then show ?thesis using strftime_bounded [of 11 "''%Y-%m-%d''" t] by (simp add: t_def)
qed

end
