(* ===== verification/UserHash.thy ===== *)
theory UserHash
  imports LibcString
begin

text \<open>
  The password hash of \<open>cleonos/c/apps/user/cleonos_user.c\<close>: SHA-256 with a streaming interface, and its
  hexadecimal text. The reference is FIPS 180-4: the padded message as a list of 64-byte blocks, the
  message schedule by recursion, and constants that are checked against the roots of primes.
\<close>

section \<open>Definitions\<close>

record cleonos_user_sha256_ctx =
  sc_data :: "u8 list"
  sc_datalen :: nat
  sc_bitlen :: u64
  sc_state :: "u32 list"

definition cu_rotr :: "u32 \<Rightarrow> nat \<Rightarrow> u32" where
  "cu_rotr v count = or (drop_bit count v) (push_bit (32 - count) v)"

definition cu_load_be32 :: "u8 list \<Rightarrow> nat \<Rightarrow> u32" where
  "cu_load_be32 data p =
     or (or (or (push_bit 24 (ucast (data ! p))) (push_bit 16 (ucast (data ! (p + 1)))))
            (push_bit 8 (ucast (data ! (p + 2))))) (ucast (data ! (p + 3)))"

definition cu_store_be32 :: "u32 \<Rightarrow> u8 list" where
  "cu_store_be32 v =
     [ucast (and (drop_bit 24 v) 0xFF), ucast (and (drop_bit 16 v) 0xFF), ucast (and (drop_bit 8 v) 0xFF), ucast (and v 0xFF)]"

definition sha256_k :: "u32 list" where
  "sha256_k = [
     0x428A2F98, 0x71374491, 0xB5C0FBCF, 0xE9B5DBA5, 0x3956C25B, 0x59F111F1, 0x923F82A4,
     0xAB1C5ED5, 0xD807AA98, 0x12835B01, 0x243185BE, 0x550C7DC3, 0x72BE5D74, 0x80DEB1FE,
     0x9BDC06A7, 0xC19BF174, 0xE49B69C1, 0xEFBE4786, 0x0FC19DC6, 0x240CA1CC, 0x2DE92C6F,
     0x4A7484AA, 0x5CB0A9DC, 0x76F988DA, 0x983E5152, 0xA831C66D, 0xB00327C8, 0xBF597FC7,
     0xC6E00BF3, 0xD5A79147, 0x06CA6351, 0x14292967, 0x27B70A85, 0x2E1B2138, 0x4D2C6DFC,
     0x53380D13, 0x650A7354, 0x766A0ABB, 0x81C2C92E, 0x92722C85, 0xA2BFE8A1, 0xA81A664B,
     0xC24B8B70, 0xC76C51A3, 0xD192E819, 0xD6990624, 0xF40E3585, 0x106AA070, 0x19A4C116,
     0x1E376C08, 0x2748774C, 0x34B0BCB5, 0x391C0CB3, 0x4ED8AA4A, 0x5B9CCA4F, 0x682E6FF3,
     0x748F82EE, 0x78A5636F, 0x84C87814, 0x8CC70208, 0x90BEFFFA, 0xA4506CEB, 0xBEF9A3F7,
     0xC67178F2]"

text \<open>The array \<open>m\<close> of 64 words.\<close>

definition schedule_step :: "nat \<Rightarrow> u32 list \<Rightarrow> u32 list" where
  "schedule_step i m =
     (let s0 = xor (xor (cu_rotr (m ! (i - 15)) 7) (cu_rotr (m ! (i - 15)) 18)) (drop_bit 3 (m ! (i - 15)));
          s1 = xor (xor (cu_rotr (m ! (i - 2)) 17) (cu_rotr (m ! (i - 2)) 19)) (drop_bit 10 (m ! (i - 2)))
      in m @ [m ! (i - 16) + s0 + m ! (i - 7) + s1])"

definition sha256_schedule :: "u8 list \<Rightarrow> u32 list" where
  "sha256_schedule data = fold schedule_step [16..<64] (map (\<lambda>i. cu_load_be32 data (i * 4)) [0..<16])"

type_synonym sha_vars = "u32 \<times> u32 \<times> u32 \<times> u32 \<times> u32 \<times> u32 \<times> u32 \<times> u32"

definition sha256_round :: "u32 list \<Rightarrow> nat \<Rightarrow> sha_vars \<Rightarrow> sha_vars" where
  "sha256_round m i = (\<lambda>(a, b, c, d, e, f, g, h).
     let s1 = xor (xor (cu_rotr e 6) (cu_rotr e 11)) (cu_rotr e 25);
         ch = xor (and e f) (and (not e) g);
         temp1 = h + s1 + ch + sha256_k ! i + m ! i;
         s0 = xor (xor (cu_rotr a 2) (cu_rotr a 13)) (cu_rotr a 22);
         maj = xor (xor (and a b) (and a c)) (and b c);
         temp2 = s0 + maj
     in (temp1 + temp2, a, b, c, d + temp1, e, f, g))"

definition cu_sha256_transform :: "u32 list \<Rightarrow> u8 list \<Rightarrow> u32 list" where
  "cu_sha256_transform st data =
     (let m = sha256_schedule data;
          (a, b, c, d, e, f, g, h) =
            fold (sha256_round m) [0..<64] (st ! 0, st ! 1, st ! 2, st ! 3, st ! 4, st ! 5, st ! 6, st ! 7)
      in [st ! 0 + a, st ! 1 + b, st ! 2 + c, st ! 3 + d, st ! 4 + e, st ! 5 + f, st ! 6 + g, st ! 7 + h])"

definition sha256_h0 :: "u32 list" where
  "sha256_h0 = [0x6A09E667, 0xBB67AE85, 0x3C6EF372, 0xA54FF53A, 0x510E527F, 0x9B05688C, 0x1F83D9AB, 0x5BE0CD19]"

text \<open>\<open>ctx\<close> is on the stack, so the bytes of its buffer are arbitrary.\<close>

definition cu_sha256_init :: "cleonos_user_sha256_ctx \<Rightarrow> cleonos_user_sha256_ctx" where
  "cu_sha256_init ctx = ctx\<lparr>sc_datalen := 0, sc_bitlen := 0, sc_state := sha256_h0\<rparr>"

definition sha256_push :: "u8 \<Rightarrow> cleonos_user_sha256_ctx \<Rightarrow> cleonos_user_sha256_ctx" where
  "sha256_push b ctx =
     (let ctx = ctx\<lparr>sc_data := (sc_data ctx)[sc_datalen ctx := b], sc_datalen := sc_datalen ctx + 1\<rparr>
      in if sc_datalen ctx = 64
         then ctx\<lparr>sc_state := cu_sha256_transform (sc_state ctx) (sc_data ctx),
                  sc_bitlen := sc_bitlen ctx + 512, sc_datalen := 0\<rparr>
         else ctx)"

definition cu_sha256_update :: "cleonos_user_sha256_ctx \<Rightarrow> u8 list \<Rightarrow> cleonos_user_sha256_ctx" where
  "cu_sha256_update ctx data = fold sha256_push data ctx"

text \<open>\<open>data[i++] = 0x80; while (i < end) data[i++] = 0;\<close>\<close>

definition pad_to :: "u8 list \<Rightarrow> nat \<Rightarrow> nat \<Rightarrow> u8 list" where
  "pad_to data i stop = fold (\<lambda>j d. d[j := 0]) [i + 1..<stop] (data[i := 0x80])"

definition length_bytes :: "u64 \<Rightarrow> u8 list" where
  "length_bytes n = [ucast (drop_bit 56 n), ucast (drop_bit 48 n), ucast (drop_bit 40 n), ucast (drop_bit 32 n),
     ucast (drop_bit 24 n), ucast (drop_bit 16 n), ucast (drop_bit 8 n), ucast n]"

definition cu_sha256_final :: "cleonos_user_sha256_ctx \<Rightarrow> u8 list" where
  "cu_sha256_final ctx =
     (let (data, st) =
        (if sc_datalen ctx < 56 then (pad_to (sc_data ctx) (sc_datalen ctx) 56, sc_state ctx)
         else (let data = pad_to (sc_data ctx) (sc_datalen ctx) 64;
                   st = cu_sha256_transform (sc_state ctx) data
               in (replicate 56 0 @ drop 56 data, st)));
          bitlen = sc_bitlen ctx + of_nat (sc_datalen ctx) * 8;
          data = take 56 data @ length_bytes bitlen;
          st = cu_sha256_transform st data
      in concat (map cu_store_be32 st))"

definition cu_hex_digit :: "nat \<Rightarrow> char" where
  "cu_hex_digit v = (let v = v mod 16 in if v < 10 then digit_char v else to_char (97 + (int v - 10)))"

definition bytes_of :: "string \<Rightarrow> u8 list" where
  "bytes_of s = map (\<lambda>c. word_of_int (uchar c)) s"

definition fresh_ctx :: cleonos_user_sha256_ctx where
  "fresh_ctx = \<lparr>sc_data = replicate 64 0, sc_datalen = 0, sc_bitlen = 0, sc_state = replicate 8 0\<rparr>"

definition cleonos_user_hash_password :: "string option \<Rightarrow> string" where
  "cleonos_user_hash_password password =
     (let ctx = cu_sha256_init fresh_ctx;
          ctx = (case password of None \<Rightarrow> ctx | Some p \<Rightarrow> cu_sha256_update ctx (bytes_of p));
          hash = cu_sha256_final ctx
      in concat (map (\<lambda>b. [cu_hex_digit (unat b div 16), cu_hex_digit (unat b)]) hash))"

section \<open>The reference\<close>

text \<open>FIPS 180-4. The constants are the first 32 bits of the fractional parts of the square roots of the
  first 8 and of the cube roots of the first 64 primes (a number below
  \<open>19\<^sup>2\<close> is prime when it has no prime divisor up to 17 but itself).\<close>

definition small_primes :: "int list" where
  "small_primes = filter (\<lambda>n. list_all (\<lambda>d. n = d \<or> n mod d \<noteq> 0) [2, 3, 5, 7, 11, 13, 17]) [2..311]"

definition root_bits :: "nat \<Rightarrow> int \<Rightarrow> int \<Rightarrow> bool" where
  "root_bits k p w \<longleftrightarrow> list_ex (\<lambda>i. (i * 2 ^ 32 + w) ^ k \<le> p * 2 ^ (32 * k) \<and> p * 2 ^ (32 * k) < (i * 2 ^ 32 + w + 1) ^ k) [1..6]"

fun fips_W :: "(nat \<Rightarrow> u32) \<Rightarrow> nat \<Rightarrow> u32" where
  "fips_W M t =
     (if t < 16 then M t
      else xor (xor (word_rotr 17 (fips_W M (t - 2))) (word_rotr 19 (fips_W M (t - 2)))) (drop_bit 10 (fips_W M (t - 2)))
         + fips_W M (t - 7)
         + xor (xor (word_rotr 7 (fips_W M (t - 15))) (word_rotr 18 (fips_W M (t - 15)))) (drop_bit 3 (fips_W M (t - 15)))
         + fips_W M (t - 16))"

declare fips_W.simps [simp del]

definition fips_T1 :: "u32 \<Rightarrow> u32 \<Rightarrow> u32 \<Rightarrow> u32 \<Rightarrow> u32 \<Rightarrow> u32 \<Rightarrow> u32" where
  "fips_T1 e f g h k w =
     h + xor (xor (word_rotr 6 e) (word_rotr 11 e)) (word_rotr 25 e) + xor (and e f) (and (not e) g) + k + w"

definition fips_T2 :: "u32 \<Rightarrow> u32 \<Rightarrow> u32 \<Rightarrow> u32" where
  "fips_T2 a b c =
     xor (xor (word_rotr 2 a) (word_rotr 13 a)) (word_rotr 22 a) + xor (xor (and a b) (and a c)) (and b c)"

primrec fips_rounds :: "(nat \<Rightarrow> u32) \<Rightarrow> sha_vars \<Rightarrow> nat \<Rightarrow> sha_vars" where
  "fips_rounds M v 0 = v"
| "fips_rounds M v (Suc t) = (case fips_rounds M v t of (a, b, c, d, e, f, g, h) \<Rightarrow>
     let t1 = fips_T1 e f g h (sha256_k ! t) (fips_W M t) in (t1 + fips_T2 a b c, a, b, c, d + t1, e, f, g))"

text \<open>A block is 16 big-endian words.\<close>

definition be_word :: "u8 list \<Rightarrow> u32" where
  "be_word bs = fold (\<lambda>b v. v * 256 + ucast b) bs 0"

definition fips_compress :: "u32 list \<Rightarrow> u8 list \<Rightarrow> u32 list" where
  "fips_compress H block =
     (case fips_rounds (\<lambda>t. be_word (take 4 (drop (4 * t) block)))
             (H ! 0, H ! 1, H ! 2, H ! 3, H ! 4, H ! 5, H ! 6, H ! 7) 64 of
        (a, b, c, d, e, f, g, h) \<Rightarrow>
          [H ! 0 + a, H ! 1 + b, H ! 2 + c, H ! 3 + d, H ! 4 + e, H ! 5 + f, H ! 6 + g, H ! 7 + h])"

definition be_bytes :: "nat \<Rightarrow> nat \<Rightarrow> u8 list" where
  "be_bytes n v = map (\<lambda>i. of_nat (v div 256 ^ (n - 1 - i))) [0..<n]"

definition fips_pad :: "u8 list \<Rightarrow> u8 list" where
  "fips_pad m = m @ [0x80] @ replicate ((119 - length m mod 64) mod 64) 0 @ be_bytes 8 (8 * length m)"

function blocks :: "u8 list \<Rightarrow> u8 list list" where
  "blocks m = (if m = [] then [] else take 64 m # blocks (drop 64 m))"
  by pat_completeness auto
termination by (relation "measure length") auto

declare blocks.simps [simp del]

definition fips_sha256 :: "u8 list \<Rightarrow> u8 list" where
  "fips_sha256 m = concat (map (\<lambda>w. be_bytes 4 (unat w)) (foldl fips_compress sha256_h0 (blocks (fips_pad m))))"

section \<open>The constants\<close>

lemma small_primes_list: "small_primes = [2, 3, 5, 7, 11, 13, 17, 19, 23, 29, 31, 37, 41, 43, 47, 53, 59, 61, 67, 71, 73, 79, 83, 89, 97, 101, 103, 107, 109, 113, 127, 131, 137, 139, 149, 151, 157, 163, 167, 173, 179, 181, 191, 193, 197, 199, 211, 223, 227, 229, 233, 239, 241, 251, 257, 263, 269, 271, 277, 281, 283, 293, 307, 311]"
  by code_simp

lemma sha256_h0_roots: "list_all2 (\<lambda>p w. root_bits 2 p (uint w)) (take 8 small_primes) sha256_h0"
  unfolding small_primes_list by code_simp

lemma sha256_k_roots: "list_all2 (\<lambda>p w. root_bits 3 p (uint w)) small_primes sha256_k"
  unfolding small_primes_list by code_simp

section \<open>The compression function\<close>

lemma cu_rotr_word_rotr: "0 < n \<Longrightarrow> n < 32 \<Longrightarrow> cu_rotr v n = word_rotr n v"
proof (rule bit_word_eqI)
  fix k assume n: "0 < n" "n < 32" and k: "k < LENGTH(32)"
  show "bit (cu_rotr v n) k = bit (word_rotr n v) k"
  proof (cases "k + n < 32")
    case True
    then have "\<not> 32 - n \<le> k" using n by simp
    then show ?thesis using k True by (simp add: cu_rotr_def bit_simps bit_word_rotr_iff add.commute)
  next
    case False
    then have "(k + n) mod 32 = k + n - 32" using n k by (simp add: mod_if)
    moreover have "\<not> bit v (n + k)" using False bit_imp_le_length [of v "n + k"] by auto
    moreover have "32 - n \<le> k" "k - (32 - n) = k + n - 32" using False n by simp_all
    ultimately show ?thesis using k n False by (simp add: cu_rotr_def bit_simps bit_word_rotr_iff)
  qed
qed

lemma mul256_or: "(v :: u32) * 256 + ucast (b :: u8) = or (push_bit 8 v) (ucast b)"
proof -
  have "v * 256 = push_bit 8 v" by (simp add: push_bit_eq_mult)
  moreover have "push_bit 8 v + ucast b = or (push_bit 8 v) (ucast b)"
    by (rule disjunctive_add) (auto simp: bit_simps dest: bit_imp_le_length)
  ultimately show ?thesis by simp
qed

lemma load_be32_word: "length bs = 4 \<Longrightarrow> be_word bs = cu_load_be32 bs 0"
proof -
  assume "length bs = 4"
  then obtain b0 b1 b2 b3 where bs: "bs = [b0, b1, b2, b3]"
    by (auto simp: length_Suc_conv numeral_eq_Suc)
  have "be_word bs = or (push_bit 8 (or (push_bit 8 (or (push_bit 8 (ucast b0)) (ucast b1))) (ucast b2))) (ucast b3)"
    by (simp only: bs be_word_def fold_simps mul256_or comp_apply id_apply) simp
  also have "\<dots> = cu_load_be32 bs 0"
    by (simp add: bs cu_load_be32_def push_bit_or)
  finally show ?thesis .
qed

abbreviation block_words :: "u8 list \<Rightarrow> nat \<Rightarrow> u32" where
  "block_words block t \<equiv> be_word (take 4 (drop (4 * t) block))"

lemma load_be32_drop:
  "length block = 64 \<Longrightarrow> t < 16 \<Longrightarrow> cu_load_be32 block (t * 4) = block_words block t"
  by (simp add: load_be32_word) (simp add: cu_load_be32_def mult.commute)

lemma schedule_eq:
  assumes "length block = 64"
  shows "sha256_schedule block = map (fips_W (block_words block)) [0..<64]"
proof -
  let ?W = "fips_W (block_words block)"
  have init: "map (\<lambda>i. cu_load_be32 block (i * 4)) [0..<16] = map ?W [0..<16]"
    using assms by (simp add: load_be32_drop fips_W.simps)
  have "fold schedule_step [16..<16 + n] (map ?W [0..<16]) = map ?W [0..<16 + n]" for n
  proof (induction n)
    case (Suc n)
    have w: "?W (16 + n) = ?W n + xor (xor (cu_rotr (?W (n + 1)) 7) (cu_rotr (?W (n + 1)) 18)) (drop_bit 3 (?W (n + 1)))
        + ?W (n + 9) + xor (xor (cu_rotr (?W (n + 14)) 17) (cu_rotr (?W (n + 14)) 19)) (drop_bit 10 (?W (n + 14)))"
      by (subst fips_W.simps) (simp add: cu_rotr_word_rotr add.commute)
    have e: "[16..<16 + Suc n] = [16..<16 + n] @ [16 + n]" "[0..<16 + Suc n] = [0..<16 + n] @ [16 + n]"
      using upt_Suc_append [of 16 "16 + n"] upt_Suc_append [of 0 "16 + n"] by simp_all
    have "fold schedule_step [16..<16 + Suc n] (map ?W [0..<16]) = schedule_step (16 + n) (map ?W [0..<16 + n])"
      unfolding e(1) fold_append comp_apply Suc by simp
    also have "\<dots> = map ?W [0..<16 + n] @ [?W (16 + n)]"
      unfolding w by (simp add: schedule_step_def Let_def add.commute)
    finally show ?case unfolding e(2) by simp
  qed simp
  from this [of 48] show ?thesis unfolding sha256_schedule_def init by simp
qed

lemma rounds_eq:
  "t \<le> 64 \<Longrightarrow> fold (sha256_round (map (fips_W M) [0..<64])) [0..<t] v = fips_rounds M v t"
proof (induction t)
  case (Suc t)
  obtain a b c d e f g h where p: "fips_rounds M v t = (a, b, c, d, e, f, g, h)"
  proof -
    obtain a r where "fips_rounds M v t = (a, r)" by (rule prod.exhaust)
    moreover obtain b c d e f g h where "r = (b, c, d, e, f, g, h)" by (rule prod_cases7)
    ultimately show thesis using that by simp
  qed
  have "sha256_round (map (fips_W M) [0..<64]) t (a, b, c, d, e, f, g, h) = fips_rounds M v (Suc t)"
    using Suc.prems by (simp add: p sha256_round_def fips_T1_def fips_T2_def cu_rotr_word_rotr Let_def)
  then show ?case using Suc p by simp
qed simp

lemma transform_eq [c_spec]: "length block = 64 \<Longrightarrow> cu_sha256_transform st block = fips_compress st block"
  by (simp add: cu_sha256_transform_def fips_compress_def schedule_eq rounds_eq Let_def)

section \<open>The streaming interface\<close>

text \<open>After the message \<open>m\<close>: the full blocks of \<open>m\<close> are compressed, the rest is in the buffer.\<close>

definition sha_inv :: "u8 list \<Rightarrow> cleonos_user_sha256_ctx \<Rightarrow> bool" where
  "sha_inv m ctx \<longleftrightarrow> length (sc_data ctx) = 64 \<and>
     (\<exists>bs r. m = concat bs @ r \<and> (\<forall>b\<in>set bs. length b = 64) \<and> length r < 64 \<and> sc_datalen ctx = length r
       \<and> take (length r) (sc_data ctx) = r \<and> sc_state ctx = foldl fips_compress sha256_h0 bs
       \<and> sc_bitlen ctx = of_nat (512 * length bs))"

lemma sha_inv_init: "length (sc_data ctx) = 64 \<Longrightarrow> sha_inv [] (cu_sha256_init ctx)"
  by (auto simp: sha_inv_def cu_sha256_init_def intro!: exI [of _ "[]"])

lemma sha_inv_push [c_inv]:
  assumes "sha_inv m ctx" shows "sha_inv (m @ [b]) (sha256_push b ctx)"
proof -
  obtain bs r where l: "length (sc_data ctx) = 64" and m: "m = concat bs @ r" "\<forall>b\<in>set bs. length b = 64" "length r < 64"
    and c: "sc_datalen ctx = length r" "take (length r) (sc_data ctx) = r" "sc_state ctx = foldl fips_compress sha256_h0 bs"
      "sc_bitlen ctx = of_nat (512 * length bs)"
    using assms by (auto simp: sha_inv_def)
  have t: "take (Suc (length r)) ((sc_data ctx)[length r := b]) = r @ [b]"
    using c(2) l m(3) by (simp add: take_Suc_conv_app_nth)
  show ?thesis
  proof (cases "Suc (length r) = 64")
    case True
    then have d: "(sc_data ctx)[length r := b] = r @ [b]" using t l by simp
    have f: "cu_sha256_transform (sc_state ctx) (r @ [b]) = foldl fips_compress sha256_h0 (bs @ [r @ [b]])"
      using True c(3) by (simp add: transform_eq)
    have lr: "length r = 63" using True by simp
    have p: "sha256_push b ctx = ctx\<lparr>sc_data := r @ [b], sc_state := foldl fips_compress sha256_h0 (bs @ [r @ [b]]),
        sc_bitlen := sc_bitlen ctx + 512, sc_datalen := 0\<rparr>"
      using d f by (simp add: sha256_push_def c(1) lr)
    have "m @ [b] = concat (bs @ [r @ [b]]) @ []" using m by simp
    moreover have "\<forall>x\<in>set (bs @ [r @ [b]]). length x = 64" using m(2) True by simp
    moreover have "of_nat (512 * length bs) + 512 = (of_nat (512 * length (bs @ [r @ [b]])) :: u64)" by simp
    ultimately show ?thesis unfolding sha_inv_def p
      using True c(4) by (intro conjI exI [of _ "bs @ [r @ [b]]"] exI [of _ "[]"]) simp_all
  next
    case False
    then have "sha256_push b ctx = ctx\<lparr>sc_data := (sc_data ctx)[length r := b], sc_datalen := Suc (length r)\<rparr>"
      by (simp add: sha256_push_def c(1))
    then show ?thesis unfolding sha_inv_def using False l m c t
      by (intro conjI exI [of _ bs] exI [of _ "r @ [b]"]) auto
  qed
qed

lemma sha_inv_update [c_inv]: "sha_inv m ctx \<Longrightarrow> sha_inv (m @ bs) (cu_sha256_update ctx bs)"
proof (induction bs arbitrary: m ctx)
  case (Cons b bs)
  then show ?case using sha_inv_push [of m ctx b] Cons.IH [of "m @ [b]" "sha256_push b ctx"]
    by (simp add: cu_sha256_update_def)
qed (simp add: cu_sha256_update_def)

lemma pad_to_eq:
  assumes "i < stop" "stop \<le> length d"
  shows "pad_to d i stop = take i d @ [0x80] @ replicate (stop - i - 1) 0 @ drop stop d"
proof -
  have "fold (\<lambda>j d. d[j := 0]) [i + 1..<i + 1 + n] (d[i := 0x80]) = take i d @ [0x80] @ replicate n 0 @ drop (i + 1 + n) d"
    if "i + 1 + n \<le> length d" for n
    using that
  proof (induction n)
    case 0
    then show ?case by (simp add: upd_conv_take_nth_drop)
  next
    case (Suc n)
    have u: "(drop (i + 1 + n) d)[0 := 0] = 0 # drop (i + 1 + Suc n) d"
      using Suc.prems by (subst Cons_nth_drop_Suc [symmetric]) simp_all
    have "fold (\<lambda>j d. d[j := 0]) [i + 1..<i + 1 + Suc n] (d[i := 0x80]) =
        (take i d @ [0x80] @ replicate n 0 @ drop (i + 1 + n) d)[i + 1 + n := 0]" using Suc by simp
    also have "\<dots> = take i d @ [0x80] @ replicate n 0 @ (drop (i + 1 + n) d)[0 := 0]"
      using Suc.prems by (simp add: list_update_append)
    finally show ?case unfolding u by (simp add: replicate_append_same [symmetric])
  qed
  from this [of "stop - i - 1"] show ?thesis using assms by (simp add: pad_to_def)
qed

lemma length_bytes_eq: "n < 2 ^ 64 \<Longrightarrow> length_bytes (of_nat n) = be_bytes 8 n"
proof -
  assume n: "n < 2 ^ 64"
  have d: "drop_bit k (of_nat n :: u64) = of_nat (n div 2 ^ k)" for k
  proof -
    have m: "n div 2 ^ k < 2 ^ 64" using n div_le_dividend [of n "2 ^ k"] by linarith
    have un: "unat (of_nat m :: u64) = m" if "m < 2 ^ 64" for m
      using that by (simp add: unsigned_of_nat take_bit_nat_eq_self)
    have "unat (drop_bit k (of_nat n :: u64)) = drop_bit k (unat (of_nat n :: u64))"
      by (rule unat_drop_bit_eq)
    also have "\<dots> = unat (of_nat (n div 2 ^ k) :: u64)"
      unfolding un [OF n] un [OF m] drop_bit_nat_def by (rule refl)
    finally show ?thesis by (simp only: word_unat_eq_iff)
  qed
  have u: "ucast (of_nat x :: u64) = (of_nat x :: u8)" for x
    by (simp add: unsigned_of_nat word_of_nat_eq_iff min_def)
  have l: "[0..<8] = [0, 1, 2, 3, 4, 5, 6, 7 :: nat]" by code_simp
  show ?thesis by (simp add: length_bytes_def be_bytes_def d u l)
qed

lemma blocks_concat:
  "\<forall>b\<in>set bs. length b = 64 \<Longrightarrow> length r < 64 \<Longrightarrow> blocks (concat bs @ r) = bs @ (if r = [] then [] else [r])"
proof (induction bs)
  case Nil
  then show ?case by (simp add: blocks.simps [of r] blocks.simps [of "[]"])
next
  case (Cons b bs)
  then have l: "length b = 64" "b \<noteq> []" by auto
  then show ?case using Cons by (subst blocks.simps) simp
qed

lemma length_be_bytes [simp]: "length (be_bytes n v) = n"
  by (simp add: be_bytes_def)

lemma store_be32_eq: "cu_store_be32 v = be_bytes 4 (unat v)"
proof -
  have m: "ucast (and x 0xFF) = (ucast x :: u8)" for x :: u32
  proof (rule bit_word_eqI)
    fix n assume n: "n < LENGTH(8)"
    have "(0xFF :: u32) = mask 8" by (simp add: mask_eq_exp_minus_1)
    then have "and x 0xFF = take_bit 8 x" by (simp add: take_bit_eq_mask)
    then show "bit (ucast (and x 0xFF) :: u8) n = bit (ucast x :: u8) n" using n by (simp only: bit_simps) simp
  qed
  have d: "ucast (drop_bit k v) = (of_nat (unat v div 2 ^ k) :: u8)" for k
  proof -
    have "ucast (drop_bit k v) = (of_nat (unat (drop_bit k v)) :: u8)"
      using of_nat_unat [where ?'a = u8, of "drop_bit k v"] by simp
    then show ?thesis by (simp only: unat_drop_bit_eq drop_bit_nat_def)
  qed
  have "[0..<4] = [0, 1, 2, 3 :: nat]" by code_simp
  then show ?thesis using d [of 0] d [of 8] d [of 16] d [of 24]
    by (simp add: cu_store_be32_def be_bytes_def m)
qed

lemma final_correct [c_spec]:
  assumes "sha_inv m ctx" "8 * length m < 2 ^ 64"
  shows "cu_sha256_final ctx = fips_sha256 m"
proof -
  obtain bs r where l: "length (sc_data ctx) = 64" and m: "m = concat bs @ r" and b64: "\<forall>b\<in>set bs. length b = 64"
    and r: "length r < 64" and c: "sc_datalen ctx = length r" "take (length r) (sc_data ctx) = r"
      "sc_state ctx = foldl fips_compress sha256_h0 bs" "sc_bitlen ctx = of_nat (512 * length bs)"
    using assms(1) by (auto simp: sha_inv_def)
  have cl: "length (concat bs) = 64 * length bs" using b64 by (induction bs) auto
  then have lm: "length m mod 64 = length r" "8 * length m = 512 * length bs + length r * 8" using m r by simp_all
  have bl: "sc_bitlen ctx + of_nat (sc_datalen ctx) * 8 = of_nat (8 * length m)"
    unfolding lm(2) c(1,4) by simp
  have lb: "length_bytes (of_nat (8 * length m)) = be_bytes 8 (8 * length m)" by (rule length_bytes_eq [OF assms(2)])
  define tail where "tail = be_bytes 8 (8 * length m)"
  have lt: "length tail = 8" by (simp add: tail_def)
  have out: "concat (map cu_store_be32 st) = concat (map (\<lambda>w. be_bytes 4 (unat w)) st)" for st
  proof -
    have "cu_store_be32 = (\<lambda>w. be_bytes 4 (unat w))" by (rule ext) (rule store_be32_eq)
    then show ?thesis by simp
  qed
  show ?thesis
  proof (cases "length r < 56")
    case True
    define last where "last = r @ [0x80] @ replicate (55 - length r) 0 @ tail"
    have "(119 - length r) mod 64 = 55 - length r" using True by (simp add: mod_if)
    then have pad: "fips_pad m = concat (bs @ [last]) @ []"
      unfolding fips_pad_def lm(1) by (simp add: m last_def tail_def)
    have ll: "length last = 64" using True lt by (simp add: last_def)
    have "blocks (fips_pad m) = bs @ [last]"
      unfolding pad using blocks_concat [of "bs @ [last]" "[]"] b64 ll by simp
    moreover have "take 56 (pad_to (sc_data ctx) (length r) 56) @ tail = last"
    proof -
      have "pad_to (sc_data ctx) (length r) 56 = (r @ [0x80] @ replicate (55 - length r) 0) @ drop 56 (sc_data ctx)"
        using True l c(2) by (simp add: pad_to_eq)
      moreover have "length (r @ [0x80 :: u8] @ replicate (55 - length r) 0) = 56" using True by simp
      ultimately have "take 56 (pad_to (sc_data ctx) (length r) 56) = r @ [0x80] @ replicate (55 - length r) 0"
        by (simp only: take_append) simp
      then show ?thesis by (simp add: last_def)
    qed
    ultimately show ?thesis
      using True ll bl lb c by (simp add: cu_sha256_final_def fips_sha256_def out Let_def transform_eq tail_def [symmetric])
  next
    case False
    define b1 where "b1 = r @ [0x80] @ replicate (63 - length r) 0"
    define last where "last = replicate 56 0 @ tail"
    have "(119 - length r) mod 64 = 63 - length r + 56" using False r by (simp add: mod_if)
    then have pad: "fips_pad m = concat (bs @ [b1, last]) @ []"
      unfolding fips_pad_def lm(1)
      by (simp only: replicate_add) (simp add: m last_def b1_def tail_def)
    have ll: "length b1 = 64" "length last = 64" using False r lt by (simp_all add: last_def b1_def)
    have "blocks (fips_pad m) = bs @ [b1, last]"
      unfolding pad using blocks_concat [of "bs @ [b1, last]" "[]"] b64 ll by simp
    moreover have "pad_to (sc_data ctx) (length r) 64 = b1"
      using False r l c(2) by (simp add: pad_to_eq b1_def)
    ultimately show ?thesis
      using False ll bl lb c by (simp add: cu_sha256_final_def fips_sha256_def out Let_def transform_eq last_def tail_def [symmetric])
  qed
qed

text \<open>C9: the password hash is SHA-256. For every buffer content left on the stack and every split of the
  message into updates, initialising, updating and finalising the context computes the FIPS 180-4 digest
  of the message (below \<open>2\<^sup>6\<^sup>1\<close> bytes), whose round and initial constants are the roots of primes that
  the standard prescribes.\<close>

theorem sha256_correct:
  assumes "length (sc_data ctx) = 64" "8 * length (concat parts) < 2 ^ 64"
  shows "cu_sha256_final (foldl cu_sha256_update (cu_sha256_init ctx) parts) = fips_sha256 (concat parts)
    \<and> list_all2 (\<lambda>p w. root_bits 3 p (uint w)) small_primes sha256_k
    \<and> list_all2 (\<lambda>p w. root_bits 2 p (uint w)) (take 8 small_primes) sha256_h0"
proof -
  have "sha_inv (m @ concat parts) (foldl cu_sha256_update c parts)" if "sha_inv m c" for m c
    using that
  proof (induction parts arbitrary: m c)
    case (Cons p parts)
    then show ?case using sha_inv_update [of m c p] by fastforce
  qed simp
  from this [OF sha_inv_init [OF assms(1)]] show ?thesis
    using final_correct assms(2) sha256_k_roots sha256_h0_roots by auto
qed

lemma sha256_correct_witness:
  "cu_sha256_final (foldl cu_sha256_update (cu_sha256_init fresh_ctx) [bytes_of ''ab'', bytes_of ''c'']) = fips_sha256 (bytes_of ''abc'')"
  using sha256_correct [of fresh_ctx "[bytes_of ''ab'', bytes_of ''c'']"] by (simp add: fresh_ctx_def bytes_of_def)

lemma hash_password_spec [c_spec]:
  "8 * length p < 2 ^ 64 \<Longrightarrow> cleonos_user_hash_password (Some p) =
    concat (map (\<lambda>b. [cu_hex_digit (unat b div 16), cu_hex_digit (unat b)]) (fips_sha256 (bytes_of p)))"
proof -
  assume "8 * length p < 2 ^ 64"
  moreover have "sha_inv ([] @ bytes_of p) (cu_sha256_update (cu_sha256_init fresh_ctx) (bytes_of p))"
    by (intro sha_inv_update sha_inv_init) (simp add: fresh_ctx_def)
  ultimately show ?thesis
    using final_correct by (simp add: cleonos_user_hash_password_def Let_def) (simp add: bytes_of_def)
qed

end
