(* ===== verification/UserDb.thy ===== *)
theory UserDb
  imports UserHash CmdRuntime
begin

text \<open>
  The user database of \<open>cleonos/c/apps/user/cleonos_user.c\<close>: one record per line in a text file,
  \<open>name:role:hash:home\<close>. The reference is a map from names to records (\<open>db_map\<close>): looking a user up is
  the lookup in it, and creating, changing and removing users update it. The account service of the
  kernel is a parameter; the file is used when the service declines (answers 0).
\<close>

section \<open>System calls and records\<close>

record cleonos_user_info =
  ui_uid :: nat
  ui_role :: nat
  ui_logged_in :: nat
  ui_disk_login_required :: nat
  ui_name :: string
  ui_home :: string

record 'k user_kernel = "'k kernel" +
  k_fs_append :: "'k \<Rightarrow> string \<Rightarrow> string \<Rightarrow> 'k \<times> nat"
  k_fs_mkdir :: "'k \<Rightarrow> string \<Rightarrow> 'k \<times> nat"
  k_fs_remove :: "'k \<Rightarrow> string \<Rightarrow> 'k \<times> nat"
  k_user_add :: "'k \<Rightarrow> string \<Rightarrow> string \<Rightarrow> nat \<Rightarrow> 'k \<times> nat"
  k_user_passwd :: "'k \<Rightarrow> string \<Rightarrow> string \<Rightarrow> string \<Rightarrow> 'k \<times> nat"
  k_user_set_role :: "'k \<Rightarrow> string \<Rightarrow> nat \<Rightarrow> 'k \<times> nat"
  k_user_remove :: "'k \<Rightarrow> string \<Rightarrow> 'k \<times> nat"
  k_user_count :: "'k \<Rightarrow> nat"
  k_user_at :: "'k \<Rightarrow> nat \<Rightarrow> cleonos_user_info option"
  k_user_current :: "'k \<Rightarrow> cleonos_user_info option"
  k_user_logout :: "'k \<Rightarrow> 'k"
  k_user_is_admin :: "'k \<Rightarrow> nat"
  k_disk_mounted :: "'k \<Rightarrow> nat"
  k_disk_mount_path :: "'k \<Rightarrow> nat \<Rightarrow> string option"

definition CLEONOS_USER_NAME_MAX :: nat where "CLEONOS_USER_NAME_MAX = 32"
definition CLEONOS_USER_HOME_MAX :: nat where "CLEONOS_USER_HOME_MAX = 96"
definition CLEONOS_USER_HASH_HEX_LEN :: nat where "CLEONOS_USER_HASH_HEX_LEN = 64"
definition CLEONOS_USER_RECORD_MAX :: nat where "CLEONOS_USER_RECORD_MAX = 192"
definition CLEONOS_USER_ROLE_USER :: nat where "CLEONOS_USER_ROLE_USER = 0"
definition CLEONOS_USER_ROLE_ADMIN :: nat where "CLEONOS_USER_ROLE_ADMIN = 1"
definition CLEONOS_USER_DB_PATH :: string where "CLEONOS_USER_DB_PATH = ''/system/databases/users.db''"
definition CLEONOS_USER_SESSION_PATH :: string where "CLEONOS_USER_SESSION_PATH = ''/temp/.cleonos_user_session''"

record cleonos_user_record =
  rc_name :: string
  rc_hash :: string
  rc_role :: nat
  rc_home :: string

lemmas user_consts = CLEONOS_USER_NAME_MAX_def CLEONOS_USER_HOME_MAX_def CLEONOS_USER_HASH_HEX_LEN_def
  CLEONOS_USER_RECORD_MAX_def CLEONOS_USER_ROLE_USER_def CLEONOS_USER_ROLE_ADMIN_def

section \<open>Text helpers\<close>

text \<open>\<open>strcmp\<close> of two C strings is 0 exactly when they are equal.\<close>

definition cu_streq :: "string option \<Rightarrow> string option \<Rightarrow> bool" where
  "cu_streq left right = (case (left, right) of (Some l, Some r) \<Rightarrow> l = r | _ \<Rightarrow> False)"

definition cu_copy :: "string \<Rightarrow> nat \<Rightarrow> string option \<Rightarrow> string" where
  "cu_copy dst dst_size src =
     (if dst_size = 0 then dst else (case src of None \<Rightarrow> [] | Some s \<Rightarrow> take (dst_size - 1) s))"

definition cu_append :: "string \<Rightarrow> nat \<Rightarrow> string option \<Rightarrow> string" where
  "cu_append dst dst_size src =
     (if dst_size = 0 \<or> src = None then dst
      else if dst_size \<le> length dst then take (dst_size - 1) dst
      else dst @ cu_copy [] (dst_size - length dst) src)"

definition cu_trim :: "string \<Rightarrow> string" where
  "cu_trim text = (let text = dropWhile (\<lambda>c. c_isspace (uchar c)) text in cut_trailing text (length text))"

definition cu_read_all :: "'k user_kernel \<Rightarrow> 'k \<Rightarrow> string \<Rightarrow> nat \<Rightarrow> string option" where
  "cu_read_all K k path out_size =
     (if out_size = 0 then None
      else (let size = k_fs_stat_size K k path in
        if size = U64_MAX \<or> out_size < add64 size 1 then None
        else if size = 0 then Some []
        else (let got = k_fs_read K k path size in if length got \<noteq> size then None else Some got)))"

definition name_char :: "char \<Rightarrow> bool" where
  "name_char ch \<longleftrightarrow> (97 \<le> schar ch \<and> schar ch \<le> 122) \<or> (65 \<le> schar ch \<and> schar ch \<le> 90)
     \<or> (48 \<le> schar ch \<and> schar ch \<le> 57) \<or> ch = CHR ''_'' \<or> ch = CHR ''-''"

definition cleonos_user_name_valid :: "string option \<Rightarrow> bool" where
  "cleonos_user_name_valid name =
     (case name of
        None \<Rightarrow> False
      | Some n \<Rightarrow> n \<noteq> [] \<and> \<not> CLEONOS_USER_NAME_MAX \<le> length n \<and> list_all name_char n)"

definition cleonos_user_home_for :: "string \<Rightarrow> nat \<Rightarrow> string option \<Rightarrow> string" where
  "cleonos_user_home_for out_home out_size name =
     (if out_size = 0 then out_home
      else cu_append (cu_append [] out_size (Some ''/home/'')) out_size name)"

definition cleonos_user_is_disk_boot :: "'k user_kernel \<Rightarrow> 'k \<Rightarrow> bool" where
  "cleonos_user_is_disk_boot K k =
     (if k_disk_mounted K k = 0 then False
      else (case k_disk_mount_path K k 64 of None \<Rightarrow> False | Some p \<Rightarrow> cu_streq (Some p) (Some ''/'')))"

definition cleonos_user_db_exists :: "'k user_kernel \<Rightarrow> 'k \<Rightarrow> bool" where
  "cleonos_user_db_exists K k \<longleftrightarrow> k_fs_stat_type K k CLEONOS_USER_DB_PATH = 1"

section \<open>Records as lines\<close>

definition cu_parse_record :: "string \<Rightarrow> cleonos_user_record option" where
  "cu_parse_record line =
     (let tmp = cu_trim (cu_copy [] CLEONOS_USER_RECORD_MAX (Some line)) in
      if tmp = [] \<or> hd tmp = CHR ''#'' then None
      else (case s_strtok '':'' tmp of None \<Rightarrow> None | Some (name, save) \<Rightarrow>
        (case s_strtok '':'' save of None \<Rightarrow> None | Some (role_text, save) \<Rightarrow>
        (case s_strtok '':'' save of None \<Rightarrow> None | Some (hash, save) \<Rightarrow>
        (case s_strtok '':'' save of None \<Rightarrow> None | Some (home, save) \<Rightarrow>
          if \<not> cleonos_user_name_valid (Some name) \<or> length hash \<noteq> CLEONOS_USER_HASH_HEX_LEN
             \<or> hd home \<noteq> CHR ''/'' then None
          else Some \<lparr>rc_name = cu_copy [] CLEONOS_USER_NAME_MAX (Some name),
                     rc_hash = cu_copy [] (CLEONOS_USER_HASH_HEX_LEN + 1) (Some hash),
                     rc_role = (if cu_streq (Some role_text) (Some ''admin'') \<or> cu_streq (Some role_text) (Some ''root'')
                                then CLEONOS_USER_ROLE_ADMIN else CLEONOS_USER_ROLE_USER),
                     rc_home = cu_copy [] CLEONOS_USER_HOME_MAX (Some home)\<rparr>)))))"

definition cu_record_line :: "cleonos_user_record \<Rightarrow> nat \<Rightarrow> string" where
  "cu_record_line record out_size =
     (let out = cu_append [] out_size (Some (rc_name record));
          out = cu_append out out_size (Some '':'');
          out = cu_append out out_size (Some (if rc_role record = CLEONOS_USER_ROLE_ADMIN then ''admin'' else ''user''));
          out = cu_append out out_size (Some '':'');
          out = cu_append out out_size (Some (rc_hash record));
          out = cu_append out out_size (Some '':'');
          out = cu_append out out_size (Some (rc_home record))
      in cu_append out out_size (Some [newline]))"

section \<open>Reading the database\<close>

definition cu_db_load :: "'k user_kernel \<Rightarrow> 'k \<Rightarrow> nat \<Rightarrow> string option" where
  "cu_db_load K k out_size = cu_read_all K k CLEONOS_USER_DB_PATH out_size"

text \<open>The loop that \<open>find\<close>, \<open>rewrite\<close> and \<open>list\<close> share runs its body on the text before every newline
  and on the text after the last one.\<close>

fun db_segments :: "string \<Rightarrow> string \<Rightarrow> string list" where
  "db_segments cur [] = [cur]"
| "db_segments cur (c # cs) =
     (if c = newline then cur # db_segments [] cs else db_segments (cur @ [c]) cs)"

abbreviation segments :: "string \<Rightarrow> string list" where
  "segments \<equiv> db_segments []"

text \<open>The bytes copied into \<open>line\<close>, and \<open>line\<close> as a C string.\<close>

definition line_bytes :: "string \<Rightarrow> string" where
  "line_bytes seg = (if CLEONOS_USER_RECORD_MAX \<le> length seg then take (CLEONOS_USER_RECORD_MAX - 1) seg else seg)"

definition db_line :: "string \<Rightarrow> string" where
  "db_line seg = takeWhile (\<lambda>c. c \<noteq> NUL) (line_bytes seg)"

fun find_loop :: "string \<Rightarrow> string list \<Rightarrow> cleonos_user_record option" where
  "find_loop name [] = None"
| "find_loop name (seg # segs) =
     (case cu_parse_record (db_line seg) of
        None \<Rightarrow> find_loop name segs
      | Some record \<Rightarrow>
          if cu_streq (Some (rc_name record)) (Some name) then Some record else find_loop name segs)"

definition cleonos_user_find :: "'k user_kernel \<Rightarrow> 'k \<Rightarrow> string \<Rightarrow> cleonos_user_record option" where
  "cleonos_user_find K k name =
     (if \<not> cleonos_user_name_valid (Some name) then None
      else (case cu_db_load K k 4096 of None \<Rightarrow> None | Some db \<Rightarrow> find_loop name (segments db)))"

definition cleonos_user_verify_password ::
    "'k user_kernel \<Rightarrow> 'k \<Rightarrow> string \<Rightarrow> string option \<Rightarrow> cleonos_user_record option" where
  "cleonos_user_verify_password K k name password =
     (case cleonos_user_find K k name of
        None \<Rightarrow> None
      | Some record \<Rightarrow>
          if cu_streq (Some (rc_hash record)) (Some (cleonos_user_hash_password password)) then Some record else None)"

section \<open>Changing the database\<close>

text \<open>One line of \<open>cu_db_rewrite_with\<close>: the state is \<open>next_db\<close>, \<open>next_len\<close> and \<open>found\<close>; \<open>None\<close> is the
  early return.\<close>

type_synonym rewrite_state = "string \<times> nat \<times> bool"

definition emit_original :: "string \<Rightarrow> rewrite_state \<Rightarrow> rewrite_state option" where
  "emit_original seg = (\<lambda>(next_db, next_len, found).
     if db_line seg = [] then Some (next_db, next_len, found)
     else if 4096 \<le> next_len + length (line_bytes seg) + 2 then None
     else Some (cu_append (cu_append next_db 4096 (Some (db_line seg))) 4096 (Some [newline]),
                next_len + (length (line_bytes seg) + 1), found))"

definition rewrite_line ::
    "cleonos_user_record option \<Rightarrow> string option \<Rightarrow> string \<Rightarrow> rewrite_state \<Rightarrow> rewrite_state option" where
  "rewrite_line replace_record remove_name seg = (\<lambda>(next_db, next_len, found).
     case cu_parse_record (db_line seg) of
       None \<Rightarrow> emit_original seg (next_db, next_len, found)
     | Some record \<Rightarrow>
         if cu_streq (Some (rc_name record)) remove_name then Some (next_db, next_len, True)
         else if cu_streq (Some (rc_name record)) (map_option rc_name replace_record)
         then (let record_line = cu_record_line (the replace_record) CLEONOS_USER_RECORD_MAX in
               if 4096 \<le> next_len + length record_line + 1 then None
               else Some (cu_append next_db 4096 (Some record_line), next_len + length record_line, True))
         else emit_original seg (next_db, next_len, found))"

fun rewrite_loop ::
    "cleonos_user_record option \<Rightarrow> string option \<Rightarrow> string list \<Rightarrow> rewrite_state \<Rightarrow> rewrite_state option" where
  "rewrite_loop replace_record remove_name [] st = Some st"
| "rewrite_loop replace_record remove_name (seg # segs) st =
     (case rewrite_line replace_record remove_name seg st of
        None \<Rightarrow> None
      | Some st \<Rightarrow> rewrite_loop replace_record remove_name segs st)"

text \<open>The new text, or \<open>None\<close> when it does not fit or no line was concerned.\<close>

definition rewritten :: "cleonos_user_record option \<Rightarrow> string option \<Rightarrow> string \<Rightarrow> string option" where
  "rewritten replace_record remove_name db =
     (case rewrite_loop replace_record remove_name (segments db) ([], 0, False) of
        None \<Rightarrow> None
      | Some (next_db, next_len, found) \<Rightarrow> if \<not> found then None else Some next_db)"

definition cu_db_rewrite_with ::
    "'k user_kernel \<Rightarrow> cleonos_user_record option \<Rightarrow> string option \<Rightarrow> 'k \<Rightarrow> 'k \<times> bool" where
  "cu_db_rewrite_with K replace_record remove_name k =
     (case cu_db_load K k 4096 of
        None \<Rightarrow> (k, False)
      | Some db \<Rightarrow>
          (case rewritten replace_record remove_name db of
             None \<Rightarrow> (k, False)
           | Some next_db \<Rightarrow> (let (k, n) = k_fs_write K k CLEONOS_USER_DB_PATH next_db in (k, n \<noteq> 0))))"

text \<open>\<open>stat_type(path) != 2 && mkdir(path) == 0\<close> is the failure.\<close>

definition ensure_dir :: "'k user_kernel \<Rightarrow> string \<Rightarrow> 'k \<Rightarrow> 'k \<times> bool" where
  "ensure_dir K path k =
     (if k_fs_stat_type K k path = 2 then (k, True)
      else (let (k, n) = k_fs_mkdir K k path in (k, n \<noteq> 0)))"

definition new_record :: "string \<Rightarrow> string \<Rightarrow> nat \<Rightarrow> cleonos_user_record" where
  "new_record name password role =
     \<lparr>rc_name = cu_copy [] CLEONOS_USER_NAME_MAX (Some name),
      rc_hash = cleonos_user_hash_password (Some password),
      rc_role = (if role = CLEONOS_USER_ROLE_ADMIN then CLEONOS_USER_ROLE_ADMIN else CLEONOS_USER_ROLE_USER),
      rc_home = cleonos_user_home_for [] CLEONOS_USER_HOME_MAX (Some name)\<rparr>"

definition cleonos_user_create ::
    "'k user_kernel \<Rightarrow> string \<Rightarrow> string option \<Rightarrow> nat \<Rightarrow> bool \<Rightarrow> 'k \<Rightarrow> 'k \<times> bool" where
  "cleonos_user_create K name password role allow_existing k =
     (case password of
        None \<Rightarrow> (k, False)
      | Some pw \<Rightarrow>
        if \<not> cleonos_user_name_valid (Some name) \<or> pw = [] then (k, False)
        else (let (k, added) = k_user_add K k name pw role in
          if added \<noteq> 0 then (k, True)
          else (let (k, there) =
                  (if k_fs_stat_type K k CLEONOS_USER_DB_PATH \<noteq> 1
                   then (let (k, n) = k_fs_write K k CLEONOS_USER_DB_PATH [] in (k, n \<noteq> 0))
                   else (k, True)) in
            if \<not> there then (k, False)
            else if cleonos_user_find K k name \<noteq> None then (k, allow_existing)
            else (let record = new_record name pw role; (k, ok) = ensure_dir K ''/home'' k in
              if \<not> ok then (k, False)
              else (let (k, ok) = ensure_dir K (rc_home record) k in
                if \<not> ok then (k, False)
                else (let line = cu_record_line record CLEONOS_USER_RECORD_MAX;
                          (k, n) = k_fs_append K k CLEONOS_USER_DB_PATH line
                      in (k, n \<noteq> 0)))))))"

definition cleonos_user_change_password :: "'k user_kernel \<Rightarrow> string \<Rightarrow> string option \<Rightarrow> 'k \<Rightarrow> 'k \<times> bool" where
  "cleonos_user_change_password K name new_password k =
     (case cleonos_user_find K k name of
        None \<Rightarrow> (k, False)
      | Some record \<Rightarrow>
          if new_password = None \<or> new_password = Some [] then (k, False)
          else cu_db_rewrite_with K (Some (record\<lparr>rc_hash := cleonos_user_hash_password new_password\<rparr>)) None k)"

definition cleonos_user_set_role :: "'k user_kernel \<Rightarrow> string \<Rightarrow> nat \<Rightarrow> 'k \<Rightarrow> 'k \<times> bool" where
  "cleonos_user_set_role K name role k =
     (case cleonos_user_find K k name of
        None \<Rightarrow> (k, False)
      | Some record \<Rightarrow>
          (let (k, n) = k_user_set_role K k name role in
           if n \<noteq> 0 then (k, True)
           else cu_db_rewrite_with K
             (Some (record\<lparr>rc_role := if role = CLEONOS_USER_ROLE_ADMIN then CLEONOS_USER_ROLE_ADMIN
                                       else CLEONOS_USER_ROLE_USER\<rparr>)) None k))"

definition cleonos_user_remove :: "'k user_kernel \<Rightarrow> string \<Rightarrow> 'k \<Rightarrow> 'k \<times> bool" where
  "cleonos_user_remove K name k =
     (if \<not> cleonos_user_name_valid (Some name) \<or> cu_streq (Some name) (Some ''root'') then (k, False)
      else (let (k, n) = k_user_remove K k name in
            if n \<noteq> 0 then (k, True) else cu_db_rewrite_with K None (Some name) k))"

section \<open>Listing and the session\<close>

definition info_record :: "cleonos_user_info \<Rightarrow> cleonos_user_record" where
  "info_record info =
     \<lparr>rc_name = cu_copy [] CLEONOS_USER_NAME_MAX (Some (ui_name info)), rc_hash = [], rc_role = ui_role info,
      rc_home = cu_copy [] CLEONOS_USER_HOME_MAX (Some (ui_home info))\<rparr>"

text \<open>The records passed to \<open>emit\<close> (a non-null callback); their number is the result.\<close>

definition cleonos_user_list :: "'k user_kernel \<Rightarrow> 'k \<Rightarrow> cleonos_user_record list" where
  "cleonos_user_list K k =
     (let kernel_count = k_user_count K k in
      if kernel_count \<noteq> U64_MAX \<and> 0 < kernel_count
      then map info_record (List.map_filter (k_user_at K k) [0..<kernel_count])
      else (case cu_db_load K k 4096 of
          None \<Rightarrow> []
        | Some db \<Rightarrow> List.map_filter (\<lambda>seg. cu_parse_record (db_line seg)) (segments db)))"

definition cleonos_user_session_write :: "cleonos_user_record option \<Rightarrow> bool" where
  "cleonos_user_session_write record \<longleftrightarrow> record \<noteq> None"

definition cleonos_user_session_read :: "'k user_kernel \<Rightarrow> 'k \<Rightarrow> cleonos_user_record option" where
  "cleonos_user_session_read K k =
     (case k_user_current K k of
        None \<Rightarrow> None
      | Some info \<Rightarrow> if ui_logged_in info \<noteq> 0 then Some (info_record info) else None)"

definition cleonos_user_session_clear :: "'k user_kernel \<Rightarrow> 'k \<Rightarrow> 'k" where
  "cleonos_user_session_clear K k = fst (k_fs_remove K (k_user_logout K k) CLEONOS_USER_SESSION_PATH)"

definition cleonos_user_current_is_admin :: "'k user_kernel \<Rightarrow> 'k \<Rightarrow> bool" where
  "cleonos_user_current_is_admin K k \<longleftrightarrow> k_user_is_admin K k \<noteq> 0"


section \<open>The record format\<close>

lemma cu_append_fits: "length dst + length s < n \<Longrightarrow> cu_append dst n (Some s) = dst @ s"
  by (auto simp: cu_append_def cu_copy_def)

lemma cu_copy_fits: "length s < n \<Longrightarrow> cu_copy d n (Some s) = s"
  by (simp add: cu_copy_def)

lemma cu_streq_Some [simp]: "cu_streq (Some a) b \<longleftrightarrow> b = Some a"
  by (auto simp: cu_streq_def split: option.splits)

lemma cu_trim_eq: "cu_trim s = ush_trim_line s"
  by (simp add: cu_trim_def ush_trim_line_def)

lemma cu_trim_id:
  assumes "s \<noteq> []" "\<not> ush_is_space (hd s)" "\<not> ush_is_space (last s)"
  shows "cu_trim s = s" and "cu_trim (s @ [newline]) = s"
proof -
  have d: "dropWhile ush_is_space (s @ t) = s @ t" for t using assms(1,2) by (cases s) auto
  have r: "dropWhile ush_is_space (rev s) = rev s"
    using assms(1,3) by (cases s rule: rev_cases) auto
  have n: "ush_is_space newline" by code_simp
  show "cu_trim s = s" using d [of "[]"] r by (simp add: cu_trim_eq ush_trim_line_eq)
  show "cu_trim (s @ [newline]) = s" using d [of "[newline]"] r n by (simp add: cu_trim_eq ush_trim_line_eq)
qed

lemma strtok_field:
  assumes "x \<noteq> []" "CHR '':'' \<notin> set x"
  shows "s_strtok '':'' (x @ CHR '':'' # r) = Some (x, r)" and "s_strtok '':'' x = Some (x, [])"
proof -
  obtain c cs where x: "x = c # cs" "c \<noteq> CHR '':''" using assms by (cases x) auto
  have t: "takeWhile (\<lambda>c. c \<noteq> CHR '':'') (x @ CHR '':'' # r) = x \<and> dropWhile (\<lambda>c. c \<noteq> CHR '':'') (x @ CHR '':'' # r) = CHR '':'' # r"
    using assms(2) by (induction x) auto
  have u: "takeWhile (\<lambda>c. c \<noteq> CHR '':'') x = x" "dropWhile (\<lambda>c. c \<noteq> CHR '':'') x = []"
    using assms(2) by (auto simp: takeWhile_eq_all_conv dropWhile_eq_Nil_conv)
  have d: "dropWhile (\<lambda>c. c \<in> set '':'') (x @ t) = x @ t" for t using x by simp
  show "s_strtok '':'' (x @ CHR '':'' # r) = Some (x, r)"
    unfolding s_strtok_def d Let_def using t assms(1) by simp
  show "s_strtok '':'' x = Some (x, [])"
    unfolding s_strtok_def d [of "[]", unfolded append_Nil2] Let_def using assms(1) by (simp add: u)
qed

definition role_text :: "cleonos_user_record \<Rightarrow> string" where
  "role_text r = (if rc_role r = CLEONOS_USER_ROLE_ADMIN then ''admin'' else ''user'')"

definition rec_text :: "cleonos_user_record \<Rightarrow> string" where
  "rec_text r = rc_name r @ CHR '':'' # role_text r @ CHR '':'' # rc_hash r @ CHR '':'' # rc_home r"

text \<open>The records that the format can hold: no separator in a field, no blank at the end (it would be
  trimmed), and a line that fits the line buffer whatever the role.\<close>

definition rec_ok :: "cleonos_user_record \<Rightarrow> bool" where
  "rec_ok r \<longleftrightarrow> cleonos_user_name_valid (Some (rc_name r)) \<and> length (rc_hash r) = CLEONOS_USER_HASH_HEX_LEN
     \<and> rc_role r \<in> {CLEONOS_USER_ROLE_USER, CLEONOS_USER_ROLE_ADMIN}
     \<and> rc_home r \<noteq> [] \<and> hd (rc_home r) = CHR ''/'' \<and> \<not> ush_is_space (last (rc_home r)) \<and> length (rc_home r) < CLEONOS_USER_HOME_MAX
     \<and> set (rc_hash r @ rc_home r) \<inter> {CHR '':'', newline, NUL} = {}
     \<and> length (rc_name r) + length (rc_hash r) + length (rc_home r) + 8 < CLEONOS_USER_RECORD_MAX - 1"

lemma name_char_plain: "name_char c \<Longrightarrow> c \<notin> {CHR '':'', CHR ''#'', newline, NUL} \<and> \<not> ush_is_space c"
proof -
  assume "name_char c"
  then have "48 \<le> uchar c \<and> uchar c \<noteq> 58 \<and> uchar c < 128 \<or> uchar c = 45"
  proof -
    have "uchar (CHR ''_'') = 95" "uchar (CHR ''-'') = 45" by code_simp+
    then show ?thesis using \<open>name_char c\<close> uchar_bounds [of c] by (auto simp: name_char_def schar_def split: if_splits)
  qed
  moreover have "uchar (CHR '':'') = 58" "uchar (CHR ''#'') = 35" "uchar newline = 10" "uchar NUL = 0" by code_simp+
  ultimately show ?thesis by (auto simp: is_space_fun [symmetric] c_isspace_def)
qed

lemma name_valid_plain:
  assumes "cleonos_user_name_valid (Some n)"
  shows "n \<noteq> []" "length n < 32" "set n \<inter> {CHR '':'', CHR ''#'', newline, NUL} = {}" "\<forall>c\<in>set n. \<not> ush_is_space c"
  using assms name_char_plain
  by (auto simp: cleonos_user_name_valid_def list_all_iff CLEONOS_USER_NAME_MAX_def)

lemma role_text_plain: "set (role_text r) \<inter> {CHR '':'', newline, NUL} = {}" "role_text r \<noteq> []" "length (role_text r) \<le> 5"
proof -
  have "set ''admin'' \<inter> {CHR '':'', newline, NUL} = {}" "set ''user'' \<inter> {CHR '':'', newline, NUL} = {}" by code_simp+
  then show "set (role_text r) \<inter> {CHR '':'', newline, NUL} = {}" by (simp add: role_text_def)
qed (simp_all add: role_text_def)

lemma rec_ok_text:
  assumes "rec_ok r"
  shows "length (rec_text r) < 191" "newline \<notin> set (rec_text r)" "NUL \<notin> set (rec_text r)"
proof -
  note n = name_valid_plain [of "rc_name r"] and o = role_text_plain [of r]
  show "length (rec_text r) < 191" using assms o(3) by (simp add: rec_ok_def rec_text_def user_consts)
  have "CHR '':'' \<noteq> newline" "CHR '':'' \<noteq> NUL" by code_simp+
  then show "newline \<notin> set (rec_text r)" "NUL \<notin> set (rec_text r)"
    using assms n o(1) by (auto simp: rec_ok_def rec_text_def)
qed

lemma record_line_eq: "rec_ok r \<Longrightarrow> cu_record_line r CLEONOS_USER_RECORD_MAX = rec_text r @ [newline]"
proof -
  assume "rec_ok r"
  then have l: "length (rec_text r) < 191" by (rule rec_ok_text)
  then show ?thesis
    unfolding cu_record_line_def Let_def CLEONOS_USER_RECORD_MAX_def role_text_def [symmetric]
    by (simp add: cu_append_fits rec_text_def)
qed

lemma parse_fields:
  assumes v: "cleonos_user_name_valid (Some n)" and rt: "rt \<noteq> []" "CHR '':'' \<notin> set rt"
    and h: "length h = CLEONOS_USER_HASH_HEX_LEN" "CHR '':'' \<notin> set h"
    and m: "m \<noteq> []" "hd m = CHR ''/''" "CHR '':'' \<notin> set m" "length m < CLEONOS_USER_HOME_MAX"
    and t: "t = [] \<or> (\<exists>u. t = CHR '':'' # u)"
    and l: "cu_trim (cu_copy [] CLEONOS_USER_RECORD_MAX (Some l)) = n @ CHR '':'' # rt @ CHR '':'' # h @ CHR '':'' # m @ t"
  shows "cu_parse_record l = Some \<lparr>rc_name = n, rc_hash = h,
    rc_role = (if rt = ''admin'' \<or> rt = ''root'' then CLEONOS_USER_ROLE_ADMIN else CLEONOS_USER_ROLE_USER), rc_home = m\<rparr>"
proof -
  note n = name_valid_plain [OF v]
  have s1: "s_strtok '':'' (n @ CHR '':'' # rt @ CHR '':'' # h @ CHR '':'' # m @ t) = Some (n, rt @ CHR '':'' # h @ CHR '':'' # m @ t)"
    by (rule strtok_field) (use n in auto)
  have hn: "h \<noteq> []" using h(1) by (auto simp: user_consts)
  obtain u where s4: "s_strtok '':'' (m @ t) = Some (m, u)"
    using t strtok_field [OF m(1,3)] by auto
  have k: "cu_copy [] CLEONOS_USER_NAME_MAX (Some n) = n" "cu_copy [] CLEONOS_USER_HOME_MAX (Some m) = m"
    "cu_copy [] (Suc CLEONOS_USER_HASH_HEX_LEN) (Some h) = h"
    using n(2) m(4) h(1) by (simp_all add: cu_copy_def user_consts)
  have "hd n \<noteq> CHR ''#''" using n(3) hd_in_set [OF n(1)] by blast
  then have "hd (n @ x) \<noteq> CHR ''#''" for x using n(1) by simp
  then show ?thesis
    unfolding cu_parse_record_def l Let_def
    using v m(2) h(1) by (auto simp: s1 strtok_field(1) [OF rt] strtok_field(1) [OF hn h(2)] s4 k)
qed

lemma rec_eq:
  assumes "rec_ok r"
  shows "\<lparr>rc_name = rc_name r, rc_hash = rc_hash r, rc_role = (if role_text r = ''admin'' \<or> role_text r = ''root''
    then CLEONOS_USER_ROLE_ADMIN else CLEONOS_USER_ROLE_USER), rc_home = h\<rparr> = r\<lparr>rc_home := h\<rparr>"
  using assms by (auto simp: rec_ok_def role_text_def user_consts)

lemma rec_text_ends:
  assumes "rec_ok r"
  shows "rec_text r \<noteq> []" "\<not> ush_is_space (hd (rec_text r))" "\<not> ush_is_space (last (rec_text r))"
proof -
  note n = name_valid_plain [of "rc_name r"]
  have v: "cleonos_user_name_valid (Some (rc_name r))" using assms by (simp add: rec_ok_def)
  show "rec_text r \<noteq> []" by (simp add: rec_text_def)
  have "hd (rec_text r) = hd (rc_name r)" using n(1) [OF v] by (simp add: rec_text_def)
  then show "\<not> ush_is_space (hd (rec_text r))" using n(1,4) [OF v] by simp
  show "\<not> ush_is_space (last (rec_text r))" using assms by (simp add: rec_text_def rec_ok_def)
qed

lemma rec_ok_fields:
  assumes "rec_ok r"
  shows "cleonos_user_name_valid (Some (rc_name r))" "role_text r \<noteq> []" "CHR '':'' \<notin> set (role_text r)"
    "length (rc_hash r) = CLEONOS_USER_HASH_HEX_LEN" "CHR '':'' \<notin> set (rc_hash r)"
    "rc_home r \<noteq> []" "hd (rc_home r) = CHR ''/''" "CHR '':'' \<notin> set (rc_home r)" "length (rc_home r) < CLEONOS_USER_HOME_MAX"
  using assms role_text_plain [of r] by (auto simp: rec_ok_def)

lemma parse_rec_text:
  assumes r: "rec_ok r" and l: "l = rec_text r \<or> l = rec_text r @ [newline]"
  shows "cu_parse_record l = Some r"
proof -
  have c: "cu_copy [] CLEONOS_USER_RECORD_MAX (Some l) = l"
    using rec_ok_text(1) [OF r] l by (auto simp: cu_copy_def user_consts)
  have "cu_trim l = rec_text r" using l cu_trim_id [OF rec_text_ends [OF r]] by auto
  then have t: "cu_trim (cu_copy [] CLEONOS_USER_RECORD_MAX (Some l)) =
      rc_name r @ CHR '':'' # role_text r @ CHR '':'' # rc_hash r @ CHR '':'' # rc_home r @ []"
    unfolding c by (simp add: rec_text_def)
  show ?thesis using parse_fields [OF rec_ok_fields [OF r] disjI1 [OF refl] t] rec_eq [OF r, of "rc_home r"] by simp
qed

text \<open>What becomes of a record that is appended to a line without a newline.\<close>

lemma parse_merged:
  assumes r: "rec_ok r" and q: "rec_ok q"
    and l: "length (rec_text r) + length (rec_text q) < CLEONOS_USER_RECORD_MAX"
      "length (rc_home r) + length (rc_name q) < CLEONOS_USER_HOME_MAX"
  shows "cu_parse_record (rec_text r @ rec_text q) = Some (r\<lparr>rc_home := rc_home r @ rc_name q\<rparr>)"
proof -
  have c: "cu_copy [] CLEONOS_USER_RECORD_MAX (Some (rec_text r @ rec_text q)) = rec_text r @ rec_text q"
    using l(1) by (simp add: cu_copy_def)
  have "cu_trim (rec_text r @ rec_text q) = rec_text r @ rec_text q"
    using rec_text_ends [OF r] rec_text_ends [OF q] by (intro cu_trim_id) simp_all
  then have t: "cu_trim (cu_copy [] CLEONOS_USER_RECORD_MAX (Some (rec_text r @ rec_text q))) =
      rc_name r @ CHR '':'' # role_text r @ CHR '':'' # rc_hash r @ CHR '':'' # (rc_home r @ rc_name q)
        @ CHR '':'' # role_text q @ CHR '':'' # rc_hash q @ CHR '':'' # rc_home q"
    unfolding c by (simp add: rec_text_def)
  note f = rec_ok_fields [OF r] and g = name_valid_plain [OF rec_ok_fields(1) [OF q]]
  have m: "rc_home r @ rc_name q \<noteq> []" "hd (rc_home r @ rc_name q) = CHR ''/''" "CHR '':'' \<notin> set (rc_home r @ rc_name q)"
    "length (rc_home r @ rc_name q) < CLEONOS_USER_HOME_MAX" using f g(3) l(2) by auto
  show ?thesis using parse_fields [OF f(1-5) m disjI2 t] rec_eq [OF r, of "rc_home r @ rc_name q"] by simp
qed

section \<open>The database as a map\<close>

lemma segments_append: "db_segments cur (s @ newline # t) = db_segments cur s @ segments t"
  by (induction s arbitrary: cur) auto

lemma segments_line: "newline \<notin> set l \<Longrightarrow> db_segments cur l = [cur @ l]"
  by (induction l arbitrary: cur) auto

lemma db_segments_no_newline: "newline \<notin> set cur \<Longrightarrow> seg \<in> set (db_segments cur s) \<Longrightarrow> newline \<notin> set seg"
  by (induction cur s rule: db_segments.induct) (auto split: if_splits)

definition line_records :: "string list \<Rightarrow> cleonos_user_record list" where
  "line_records segs = List.map_filter (\<lambda>seg. cu_parse_record (db_line seg)) segs"

definition db_records :: "string \<Rightarrow> cleonos_user_record list" where
  "db_records db = line_records (segments db)"

definition names_map :: "cleonos_user_record list \<Rightarrow> string \<Rightarrow> cleonos_user_record option" where
  "names_map rs = map_of (map (\<lambda>r. (rc_name r, r)) rs)"

definition db_map :: "string \<Rightarrow> string \<Rightarrow> cleonos_user_record option" where
  "db_map db = names_map (db_records db)"

lemma line_records_simps [simp]:
  "line_records [] = []"
  "line_records (seg # segs) = (case cu_parse_record (db_line seg) of None \<Rightarrow> line_records segs | Some r \<Rightarrow> r # line_records segs)"
  "line_records (xs @ ys) = line_records xs @ line_records ys"
  by (simp_all add: line_records_def List.map_filter_def split: option.splits)

lemma find_loop_eq: "find_loop name segs = names_map (line_records segs) name"
  by (induction segs) (auto simp: names_map_def split: option.splits)

lemma parse_Nil [simp]: "cu_parse_record [] = None"
  by (simp add: cu_parse_record_def cu_copy_def cu_trim_eq ush_trim_line_eq)

lemma db_line_Nil [simp]: "db_line [] = []"
  by (simp add: db_line_def line_bytes_def)

lemma db_line_id: "length l < 192 \<Longrightarrow> NUL \<notin> set l \<Longrightarrow> db_line l = l"
  by (auto simp: db_line_def line_bytes_def user_consts takeWhile_eq_all_conv)

lemma db_line_plain: "length (db_line seg) < 192" "NUL \<notin> set (db_line seg)" "set (db_line seg) \<subseteq> set seg"
proof -
  have l: "length (line_bytes seg) < 192" by (simp add: line_bytes_def user_consts)
  then show "length (db_line seg) < 192"
    unfolding db_line_def using length_takeWhile_le [of _ "line_bytes seg"] by (rule order.strict_trans1 [rotated])
  show "NUL \<notin> set (db_line seg)" unfolding db_line_def by (metis (full_types) set_takeWhileD)
  have "set (line_bytes seg) \<subseteq> set seg" by (simp add: line_bytes_def set_take_subset)
  then show "set (db_line seg) \<subseteq> set seg" unfolding db_line_def by (auto dest: set_takeWhileD)
qed

lemma db_line_idem [simp]: "db_line (db_line seg) = db_line seg"
  using db_line_plain by (intro db_line_id) auto

lemma length_db_line: "length (db_line seg) \<le> length (line_bytes seg)"
  by (simp add: db_line_def length_takeWhile_le)

lemma parse_name_valid:
  assumes "cu_parse_record l = Some r" shows "cleonos_user_name_valid (Some (rc_name r))"
proof -
  have "cu_copy [] CLEONOS_USER_NAME_MAX (Some n) = n" if "cleonos_user_name_valid (Some n)" for n
    using name_valid_plain(2) [OF that] by (simp add: cu_copy_def user_consts)
  then show ?thesis using assms
    by (auto simp: cu_parse_record_def Let_def simp del: cu_streq_Some split: if_splits option.splits prod.splits)
qed

text \<open>The text of a list of lines, as the rewriting produces it.\<close>

lemma records_unlines:
  assumes "\<forall>l\<in>set ls. newline \<notin> set l"
  shows "segments (concat (map (\<lambda>l. l @ [newline]) ls)) = ls @ [[]]"
  using assms by (induction ls) (auto simp: segments_append segments_line)

lemma records_append:
  assumes "s = [] \<or> last s = newline" "newline \<notin> set l"
  shows "db_records (s @ l @ [newline]) = db_records s @ line_records [l]"
proof (cases "s = []")
  case True
  then show ?thesis using assms(2) by (auto simp: db_records_def segments_append segments_line split: option.splits)
next
  case False
  then obtain t where s: "s = t @ [newline]" using assms(1) by (metis append_butlast_last_id)
  then show ?thesis using assms(2) by (auto simp: db_records_def segments_append segments_line split: option.splits)
qed

section \<open>Rewriting\<close>

definition out_lines :: "cleonos_user_record option \<Rightarrow> string option \<Rightarrow> string \<Rightarrow> string list" where
  "out_lines rep rem seg =
     (case cu_parse_record (db_line seg) of
        None \<Rightarrow> if db_line seg = [] then [] else [db_line seg]
      | Some r \<Rightarrow>
          if rem = Some (rc_name r) then []
          else if map_option rc_name rep = Some (rc_name r) then [rec_text (the rep)]
          else [db_line seg])"

definition concerned :: "cleonos_user_record option \<Rightarrow> string option \<Rightarrow> cleonos_user_record \<Rightarrow> bool" where
  "concerned rep rem r \<longleftrightarrow> rem = Some (rc_name r) \<or> map_option rc_name rep = Some (rc_name r)"

lemma emit_original_eq:
  assumes "emit_original seg (nd, nl, f) = Some (nd', nl', f')" "length nd \<le> nl"
  shows "nd' = nd @ (if db_line seg = [] then [] else db_line seg @ [newline]) \<and> f' = f \<and> length nd' \<le> nl'"
proof (cases "db_line seg = []")
  case False
  have "length (db_line seg) \<le> length (line_bytes seg)" by (rule length_db_line)
  then show ?thesis using assms False
    by (auto simp: emit_original_def cu_append_fits split: if_splits)
qed (use assms in \<open>auto simp: emit_original_def\<close>)

lemma rewrite_line_eq:
  assumes "rewrite_line rep rem seg (nd, nl, f) = Some (nd', nl', f')" "length nd \<le> nl" "\<forall>r. rep = Some r \<longrightarrow> rec_ok r"
  shows "nd' = nd @ concat (map (\<lambda>l. l @ [newline]) (out_lines rep rem seg)) \<and> length nd' \<le> nl'
    \<and> f' = (f \<or> (\<exists>r. cu_parse_record (db_line seg) = Some r \<and> concerned rep rem r))"
proof (cases "cu_parse_record (db_line seg)")
  case None
  then have "emit_original seg (nd, nl, f) = Some (nd', nl', f')" using assms(1) by (simp add: rewrite_line_def)
  from emit_original_eq [OF this assms(2)] show ?thesis using None by (auto simp: out_lines_def)
next
  case (Some r)
  then have ne: "db_line seg \<noteq> []" by auto
  consider "rem = Some (rc_name r)" | "rem \<noteq> Some (rc_name r)" "map_option rc_name rep = Some (rc_name r)"
    | "rem \<noteq> Some (rc_name r)" "map_option rc_name rep \<noteq> Some (rc_name r)" by blast
  then show ?thesis
  proof cases
    case 1
    then show ?thesis using assms Some by (auto simp: rewrite_line_def out_lines_def concerned_def)
  next
    case 2
    then obtain q where q: "rep = Some q" "rc_name q = rc_name r" by auto
    then have "cu_record_line q CLEONOS_USER_RECORD_MAX = rec_text q @ [newline]" using assms(3) by (simp add: record_line_eq)
    then show ?thesis using assms 2 q Some
      by (auto simp: rewrite_line_def out_lines_def concerned_def Let_def cu_append_fits split: if_splits)
  next
    case 3
    then have "emit_original seg (nd, nl, f) = Some (nd', nl', f')"
      using assms(1) Some by (cases rep) (simp_all add: rewrite_line_def)
    from emit_original_eq [OF this assms(2)] show ?thesis using 3 Some ne
      by (auto simp: out_lines_def concerned_def)
  qed
qed

lemma rewrite_loop_eq:
  assumes "rewrite_loop rep rem segs (nd, nl, f) = Some (nd', nl', f')" "length nd \<le> nl" "\<forall>r. rep = Some r \<longrightarrow> rec_ok r"
  shows "nd' = nd @ concat (map (\<lambda>l. l @ [newline]) (concat (map (out_lines rep rem) segs)))
    \<and> f' = (f \<or> (\<exists>r\<in>set (line_records segs). concerned rep rem r))"
  using assms
proof (induction segs arbitrary: nd nl f)
  case (Cons seg segs)
  obtain nd1 nl1 f1 where 1: "rewrite_line rep rem seg (nd, nl, f) = Some (nd1, nl1, f1)"
    using Cons.prems(1) by (auto split: option.splits)
  note l = rewrite_line_eq [OF 1 Cons.prems(2,3)]
  have "rewrite_loop rep rem segs (nd1, nl1, f1) = Some (nd', nl', f')" using Cons.prems(1) 1 by simp
  from Cons.IH [OF this _ Cons.prems(3)] l show ?case by (auto split: option.splits)
qed simp

lemma out_lines_plain:
  assumes "newline \<notin> set seg" "\<forall>r. rep = Some r \<longrightarrow> rec_ok r" "l \<in> set (out_lines rep rem seg)"
  shows "newline \<notin> set l"
  using assms db_line_plain(3) [of seg] rec_ok_text(2)
  by (auto simp: out_lines_def split: option.splits if_splits)

definition changed :: "cleonos_user_record option \<Rightarrow> string option \<Rightarrow> cleonos_user_record list \<Rightarrow> cleonos_user_record list" where
  "changed rep rem rs = concat (map (\<lambda>r.
     if rem = Some (rc_name r) then [] else if map_option rc_name rep = Some (rc_name r) then [the rep] else [r]) rs)"

lemma out_lines_records:
  assumes "\<forall>r. rep = Some r \<longrightarrow> rec_ok r"
  shows "line_records (out_lines rep rem seg) = changed rep rem (line_records [seg])"
proof (cases "cu_parse_record (db_line seg)")
  case (Some r)
  have "line_records [rec_text q] = [q]" if "rep = Some q" for q
  proof -
    have q: "rec_ok q" using assms that by simp
    have "db_line (rec_text q) = rec_text q" using rec_ok_text [OF q] by (intro db_line_id) auto
    then show ?thesis using parse_rec_text [OF q] by simp
  qed
  then show ?thesis using Some by (auto simp: out_lines_def changed_def)
qed (simp add: out_lines_def changed_def)

theorem rewritten_records:
  assumes "rewritten rep rem db = Some db'" "\<forall>r. rep = Some r \<longrightarrow> rec_ok r"
  shows "db_records db' = changed rep rem (db_records db) \<and> (db' = [] \<or> last db' = newline)
    \<and> (\<exists>r\<in>set (db_records db). concerned rep rem r)"
proof -
  define ls where "ls = concat (map (out_lines rep rem) (segments db))"
  obtain nl where "rewrite_loop rep rem (segments db) ([], 0, False) = Some (db', nl, True)"
    using assms(1) by (auto simp: rewritten_def split: option.splits if_splits)
  from rewrite_loop_eq [OF this _ assms(2)] have d: "db' = concat (map (\<lambda>l. l @ [newline]) ls)"
    and f: "\<exists>r\<in>set (db_records db). concerned rep rem r" by (simp_all add: ls_def db_records_def)
  have "\<forall>l\<in>set ls. newline \<notin> set l"
  proof
    fix l assume "l \<in> set ls"
    then obtain seg where "seg \<in> set (segments db)" "l \<in> set (out_lines rep rem seg)" by (auto simp: ls_def)
    then show "newline \<notin> set l" using out_lines_plain [OF _ assms(2)] db_segments_no_newline [of "[]" seg db] by simp
  qed
  then have "db_records db' = line_records ls" by (simp add: d db_records_def records_unlines)
  moreover have "line_records (concat (map (out_lines rep rem) segs)) = changed rep rem (line_records segs)" for segs
  proof (induction segs)
    case (Cons seg segs)
    then show ?case using out_lines_records [OF assms(2), of rem seg]
      by (auto simp: changed_def split: option.splits)
  qed (simp add: changed_def)
  ultimately have "db_records db' = changed rep rem (db_records db)" by (simp add: ls_def db_records_def)
  moreover have "db' = [] \<or> last db' = newline" unfolding d by (induction ls rule: rev_induct) auto
  ultimately show ?thesis using f by simp
qed

lemma map_put:
  "(\<exists>q\<in>set rs. rc_name q = rc_name r) \<Longrightarrow> names_map (changed (Some r) None rs) = (names_map rs)(rc_name r \<mapsto> r)"
proof (rule ext)
  fix n assume ex: "\<exists>q\<in>set rs. rc_name q = rc_name r"
  show "names_map (changed (Some r) None rs) n = ((names_map rs)(rc_name r \<mapsto> r)) n"
  proof (cases "n = rc_name r")
    case True
    with ex show ?thesis by (induction rs) (auto simp: names_map_def changed_def)
  next
    case False
    then show ?thesis by (induction rs) (auto simp: names_map_def changed_def)
  qed
qed

lemma map_drop: "names_map (changed None (Some n) rs) = (names_map rs)(n := None)"
  by (rule ext, induction rs) (auto simp: names_map_def changed_def)

lemma map_add: "names_map rs (rc_name r) = None \<Longrightarrow> names_map (rs @ [r]) = (names_map rs)(rc_name r \<mapsto> r)"
proof (rule ext)
  fix n assume "names_map rs (rc_name r) = None"
  then show "names_map (rs @ [r]) n = ((names_map rs)(rc_name r \<mapsto> r)) n"
    by (induction rs) (auto simp: names_map_def)
qed

lemma names_map_dom: "q \<in> set rs \<Longrightarrow> names_map rs (rc_name q) \<noteq> None"
  by (induction rs) (auto simp: names_map_def)

lemma names_map_SomeD: "names_map rs n = Some r \<Longrightarrow> r \<in> set rs \<and> rc_name r = n"
  by (auto simp: names_map_def dest!: map_of_SomeD)

lemma rewrite_line_bound:
  "rewrite_line rep rem seg (nd, nl, f) = Some (nd', nl', f') \<Longrightarrow> nl < 4096 \<Longrightarrow> nl' < 4096"
  by (auto simp: rewrite_line_def emit_original_def Let_def split: option.splits if_splits)

lemma rewrite_loop_bound:
  "rewrite_loop rep rem segs (nd, nl, f) = Some (nd', nl', f') \<Longrightarrow> length nd \<le> nl \<Longrightarrow> nl < 4096 \<Longrightarrow>
   \<forall>r. rep = Some r \<longrightarrow> rec_ok r \<Longrightarrow> length nd' < 4096"
proof (induction segs arbitrary: nd nl f)
  case (Cons seg segs)
  obtain nd1 nl1 f1 where 1: "rewrite_line rep rem seg (nd, nl, f) = Some (nd1, nl1, f1)"
    using Cons.prems(1) by (auto split: option.splits)
  have "length nd1 \<le> nl1" using rewrite_line_eq [OF 1 Cons.prems(2,4)] by blast
  moreover have "nl1 < 4096" using rewrite_line_bound [OF 1 Cons.prems(3)] .
  moreover have "rewrite_loop rep rem segs (nd1, nl1, f1) = Some (nd', nl', f')" using Cons.prems(1) 1 by simp
  ultimately show ?case using Cons.IH [OF _ _ _ Cons.prems(4)] by blast
qed simp

lemma rewritten_bound:
  assumes "rewritten rep rem db = Some db'" "\<forall>r. rep = Some r \<longrightarrow> rec_ok r"
  shows "length db' < 4096"
proof -
  obtain nl where "rewrite_loop rep rem (segments db) ([], 0, False) = Some (db', nl, True)"
    using assms(1) by (auto simp: rewritten_def split: option.splits if_splits)
  from rewrite_loop_bound [OF this _ _ assms(2)] show ?thesis by simp
qed

section \<open>The interface of a record store\<close>

text \<open>What the account functions rely on: a store of records with a key, in which a record can be added
  under a new key, replaced and deleted.\<close>

locale record_store =
  fixes inv :: "'s \<Rightarrow> bool" and view :: "'s \<Rightarrow> 'n \<Rightarrow> 'r option" and key :: "'r \<Rightarrow> 'n" and good :: "'r \<Rightarrow> bool"
    and add :: "'r \<Rightarrow> 's \<Rightarrow> 's" and put :: "'r \<Rightarrow> 's \<Rightarrow> 's option" and del :: "'n \<Rightarrow> 's \<Rightarrow> 's option"
  assumes view_good: "inv s \<Longrightarrow> view s n = Some r \<Longrightarrow> good r \<and> key r = n"
    and add_law: "inv s \<Longrightarrow> good r \<Longrightarrow> view s (key r) = None \<Longrightarrow> inv (add r s) \<and> view (add r s) = (view s)(key r \<mapsto> r)"
    and put_law: "inv s \<Longrightarrow> good r \<Longrightarrow> put r s = Some s' \<Longrightarrow> inv s' \<and> view s' = (view s)(key r \<mapsto> r)"
    and del_law: "inv s \<Longrightarrow> del n s = Some s' \<Longrightarrow> inv s' \<and> view s n \<noteq> None \<and> view s' = (view s)(n := None)"
begin

lemma update_law:
  assumes "inv s" "view s n = Some r" "good r \<Longrightarrow> good (f r)" "key (f r) = key r" "put (f r) s = Some s'"
  shows "inv s' \<and> view s' = (view s)(n \<mapsto> f r)"
  using put_law [OF assms(1) _ assms(5)] view_good [OF assms(1,2)] assms(3,4) by simp

lemma add_get: "inv s \<Longrightarrow> good r \<Longrightarrow> view s (key r) = None \<Longrightarrow>
    view (add r s) n = (if n = key r then Some r else view s n)"
  using add_law by simp

end

definition db_ok :: "string \<Rightarrow> bool" where
  "db_ok s \<longleftrightarrow> (s = [] \<or> last s = newline) \<and> (\<forall>r\<in>set (db_records s). rec_ok r)"

lemma db_ok_map: "db_ok s \<Longrightarrow> db_map s n = Some r \<Longrightarrow> rec_ok r \<and> rc_name r = n"
  by (auto simp: db_ok_def db_map_def dest: names_map_SomeD)

lemma changed_ok: "\<forall>r\<in>set rs. rec_ok r \<Longrightarrow> \<forall>r. rep = Some r \<longrightarrow> rec_ok r \<Longrightarrow> q \<in> set (changed rep rem rs) \<Longrightarrow> rec_ok q"
  by (auto simp: changed_def split: if_splits)

lemma line_records_rec_text: "rec_ok r \<Longrightarrow> line_records [rec_text r] = [r]"
proof -
  assume r: "rec_ok r"
  then have "db_line (rec_text r) = rec_text r" using rec_ok_text [OF r] by (intro db_line_id) auto
  then show ?thesis using parse_rec_text [OF r] by simp
qed

interpretation db: record_store db_ok db_map rc_name rec_ok "\<lambda>r s. s @ cu_record_line r CLEONOS_USER_RECORD_MAX"
  "\<lambda>r. rewritten (Some r) None" "\<lambda>n. rewritten None (Some n)"
proof (unfold_locales, goal_cases)
  case (1 s n r)
  then show ?case by (rule db_ok_map)
next
  case (2 s r)
  have "db_records (s @ rec_text r @ [newline]) = db_records s @ [r]"
    unfolding line_records_rec_text [OF 2(2), symmetric]
    by (rule records_append) (use 2(1) rec_ok_text(2) [OF 2(2)] in \<open>simp_all add: db_ok_def\<close>)
  then show ?case using 2 by (auto simp: record_line_eq db_ok_def db_map_def map_add)
next
  case (3 s r s')
  have ok: "\<forall>q. Some r = Some q \<longrightarrow> rec_ok q" using 3(2) by simp
  note c = rewritten_records [OF 3(3) ok]
  have "\<exists>q\<in>set (db_records s). rc_name q = rc_name r" using c by (force simp: concerned_def)
  then have "db_map s' = (db_map s)(rc_name r \<mapsto> r)" unfolding db_map_def c [THEN conjunct1] by (rule map_put)
  moreover have "db_ok s'" unfolding db_ok_def c [THEN conjunct1]
    using c 3(1,2) by (intro conjI ballI, blast) (rule changed_ok [of "db_records s" "Some r"], auto simp: db_ok_def)
  ultimately show ?case by simp
next
  case (4 s n s')
  have ok: "\<forall>q. None = Some q \<longrightarrow> rec_ok q" by simp
  note c = rewritten_records [OF 4(2) ok]
  have "db_map s n \<noteq> None" using c names_map_dom by (fastforce simp: concerned_def db_map_def)
  moreover have "db_map s' = (db_map s)(n := None)" unfolding db_map_def c [THEN conjunct1] by (rule map_drop)
  moreover have "db_ok s'" unfolding db_ok_def c [THEN conjunct1]
    using c 4(1) by (intro conjI ballI, blast) (rule changed_ok [of "db_records s" None], auto simp: db_ok_def)
  ultimately show ?case by simp
qed

section \<open>The account functions on the file\<close>

text \<open>What the code relies on: \<open>db k\<close> is the content of the database file in the kernel state \<open>k\<close>; a write
  or append that reports success has happened, one that reports failure has not, making a directory
  leaves the file alone, and the account service declines.\<close>

definition db_disk :: "'k user_kernel \<Rightarrow> ('k \<Rightarrow> string option) \<Rightarrow> bool" where
  "db_disk K db \<longleftrightarrow>
     (\<forall>k. case db k of
        None \<Rightarrow> k_fs_stat_type K k CLEONOS_USER_DB_PATH \<noteq> 1
      | Some s \<Rightarrow> k_fs_stat_type K k CLEONOS_USER_DB_PATH = 1 \<and> k_fs_stat_size K k CLEONOS_USER_DB_PATH = length s
          \<and> length s < U64_MAX \<and> (\<forall>n. k_fs_read K k CLEONOS_USER_DB_PATH n = take n s))
     \<and> (\<forall>k d. db (fst (k_fs_write K k CLEONOS_USER_DB_PATH d)) =
          (if snd (k_fs_write K k CLEONOS_USER_DB_PATH d) = 0 then db k else Some d))
     \<and> (\<forall>k d. db (fst (k_fs_append K k CLEONOS_USER_DB_PATH d)) =
          (if snd (k_fs_append K k CLEONOS_USER_DB_PATH d) = 0 then db k else map_option (\<lambda>s. s @ d) (db k)))
     \<and> (\<forall>k p. db (fst (k_fs_mkdir K k p)) = db k)
     \<and> (\<forall>k n p r. db (fst (k_user_add K k n p r)) = db k \<and> snd (k_user_add K k n p r) = 0)
     \<and> (\<forall>k n r. db (fst (k_user_set_role K k n r)) = db k \<and> snd (k_user_set_role K k n r) = 0)
     \<and> (\<forall>k n. db (fst (k_user_remove K k n)) = db k \<and> snd (k_user_remove K k n) = 0)"

lemma db_disk_D:
  assumes "db_disk K db"
  shows disk_stat: "db k = Some s \<Longrightarrow> k_fs_stat_type K k CLEONOS_USER_DB_PATH = 1 \<and> k_fs_stat_size K k CLEONOS_USER_DB_PATH = length s
      \<and> length s < U64_MAX \<and> k_fs_read K k CLEONOS_USER_DB_PATH n = take n s"
    and disk_write: "k_fs_write K k CLEONOS_USER_DB_PATH d = (k', m) \<Longrightarrow> db k' = (if m = 0 then db k else Some d)"
    and disk_append: "k_fs_append K k CLEONOS_USER_DB_PATH d = (k', m) \<Longrightarrow> db k' = (if m = 0 then db k else map_option (\<lambda>s. s @ d) (db k))"
    and disk_mkdir: "k_fs_mkdir K k p = (k', m) \<Longrightarrow> db k' = db k"
    and disk_add: "k_user_add K k u pw r = (k', m) \<Longrightarrow> db k' = db k \<and> m = 0"
    and disk_set_role: "k_user_set_role K k u r = (k', m) \<Longrightarrow> db k' = db k \<and> m = 0"
    and disk_remove: "k_user_remove K k u = (k', m) \<Longrightarrow> db k' = db k \<and> m = 0"
proof -
  note a = assms [unfolded db_disk_def, THEN conjunct2]
  show "db k = Some s \<Longrightarrow> k_fs_stat_type K k CLEONOS_USER_DB_PATH = 1 \<and> k_fs_stat_size K k CLEONOS_USER_DB_PATH = length s
      \<and> length s < U64_MAX \<and> k_fs_read K k CLEONOS_USER_DB_PATH n = take n s"
    using assms [unfolded db_disk_def, THEN conjunct1, THEN spec [of _ k]] by simp
  show "k_fs_write K k CLEONOS_USER_DB_PATH d = (k', m) \<Longrightarrow> db k' = (if m = 0 then db k else Some d)"
    using a [THEN conjunct1, THEN spec [of _ k], THEN spec [of _ d]] by simp
  note a = a [THEN conjunct2]
  show "k_fs_append K k CLEONOS_USER_DB_PATH d = (k', m) \<Longrightarrow> db k' = (if m = 0 then db k else map_option (\<lambda>s. s @ d) (db k))"
    using a [THEN conjunct1, THEN spec [of _ k], THEN spec [of _ d]] by simp
  note a = a [THEN conjunct2]
  show "k_fs_mkdir K k p = (k', m) \<Longrightarrow> db k' = db k"
    using a [THEN conjunct1, THEN spec [of _ k], THEN spec [of _ p]] by simp
  note a = a [THEN conjunct2]
  show "k_user_add K k u pw r = (k', m) \<Longrightarrow> db k' = db k \<and> m = 0"
    using a [THEN conjunct1, THEN spec [of _ k], THEN spec [of _ u], THEN spec [of _ pw], THEN spec [of _ r]] by simp
  note a = a [THEN conjunct2]
  show "k_user_set_role K k u r = (k', m) \<Longrightarrow> db k' = db k \<and> m = 0"
    using a [THEN conjunct1, THEN spec [of _ k], THEN spec [of _ u], THEN spec [of _ r]] by simp
  show "k_user_remove K k u = (k', m) \<Longrightarrow> db k' = db k \<and> m = 0"
    using a [THEN conjunct2, THEN spec [of _ k], THEN spec [of _ u]] by simp
qed

lemma db_load_spec [c_spec]:
  assumes "db_disk K db" "db k = Some s"
  shows "cu_db_load K k 4096 = (if length s < 4096 then Some s else None)"
  using disk_stat [OF assms] by (auto simp: cu_db_load_def cu_read_all_def U64_MAX_def add64_def Let_def)

lemma find_spec [c_spec]:
  assumes "db_disk K db" "db k = Some s"
  shows "cleonos_user_find K k n = (if length s < 4096 then db_map s n else None)"
proof -
  have "cleonos_user_name_valid (Some n)" if n: "db_map s n = Some r" for r
  proof -
    have r: "r \<in> set (db_records s)" "rc_name r = n" using n by (auto simp: db_map_def dest: names_map_SomeD)
    then obtain seg where "cu_parse_record (db_line seg) = Some r"
      by (auto simp: db_records_def line_records_def List.map_filter_def split: option.splits)
    then show ?thesis using parse_name_valid r(2) by blast
  qed
  then show ?thesis
    by (cases "db_map s n") (auto simp: cleonos_user_find_def db_load_spec [OF assms] find_loop_eq db_map_def db_records_def)
qed

lemma rewrite_spec [c_spec]:
  assumes "db_disk K db" "db k = Some s" "length s < 4096" "cu_db_rewrite_with K rep rem k = (k', ok)"
  shows "if ok then \<exists>s'. rewritten rep rem s = Some s' \<and> db k' = Some s' else db k' = Some s"
  using assms disk_write [OF assms(1)]
  by (auto simp: cu_db_rewrite_with_def db_load_spec [OF assms(1,2)] split: option.splits prod.splits)

lemma ensure_dir_spec: "db_disk K db \<Longrightarrow> ensure_dir K p k = (k', ok) \<Longrightarrow> db k' = db k"
  using disk_mkdir [of K db k p] by (auto simp: ensure_dir_def split: if_splits prod.splits)

lemma create_spec [c_spec]:
  assumes D: "db_disk K db" and s: "db k = Some s" "length s < 4096"
    and c: "cleonos_user_create K n (Some pw) role ae k = (k', ok)"
  shows "if ok \<and> db_map s n = None
    then cleonos_user_name_valid (Some n) \<and> pw \<noteq> []
      \<and> db k' = Some (s @ cu_record_line (new_record n pw role) CLEONOS_USER_RECORD_MAX)
    else db k' = Some s \<and> (ok \<longrightarrow> ae)"
proof (cases "\<not> cleonos_user_name_valid (Some n) \<or> pw = []")
  case True
  then show ?thesis using c s by (auto simp: cleonos_user_create_def)
next
  case False
  obtain k1 m1 where 1: "k_user_add K k n pw role = (k1, m1)" by fastforce
  have k1: "db k1 = Some s" "m1 = 0" using disk_add [OF D 1] s by simp_all
  note st = disk_stat [OF D k1(1)] and f = find_spec [OF D k1(1), of n]
  obtain k2 o2 where 2: "ensure_dir K ''/home'' k1 = (k2, o2)" by fastforce
  obtain k3 o3 where 3: "ensure_dir K (rc_home (new_record n pw role)) k2 = (k3, o3)" by fastforce
  obtain k4 m4 where 4: "k_fs_append K k3 CLEONOS_USER_DB_PATH (cu_record_line (new_record n pw role) CLEONOS_USER_RECORD_MAX) = (k4, m4)"
    by fastforce
  have k: "db k2 = Some s" "db k3 = Some s" using ensure_dir_spec [OF D] 2 3 k1 by simp_all
  note k4 = disk_append [OF D 4]
  have e: "cleonos_user_create K n (Some pw) role ae k =
      (if db_map s n \<noteq> None then (k1, ae) else if \<not> o2 then (k2, False) else if \<not> o3 then (k3, False) else (k4, m4 \<noteq> 0))"
    using False 1 2 3 4 k1 st f s(2) by (auto simp: cleonos_user_create_def Let_def)
  show ?thesis using c k k1 k4 False unfolding e by (auto split: if_splits)
qed

lemma hex_digit_plain: "cu_hex_digit v \<in> set ''0123456789abcdef''"
proof -
  have "\<forall>i\<in>set [0..<16]. cu_hex_digit i \<in> set ''0123456789abcdef''" by code_simp
  moreover have "v mod 16 \<in> set [0..<16]" by simp
  ultimately have "cu_hex_digit (v mod 16) \<in> set ''0123456789abcdef''" by blast
  then show ?thesis by (simp add: cu_hex_digit_def)
qed

lemma concat_pairs: "length (concat (map (\<lambda>b. [f b, g b]) bs)) = 2 * length bs"
  by (induction bs) auto

lemma hash_password_plain:
  "length (cleonos_user_hash_password p) = 64" "set (cleonos_user_hash_password p) \<subseteq> set ''0123456789abcdef''"
proof -
  have "length (cu_sha256_transform st d) = 8" for st d
    by (simp add: cu_sha256_transform_def Let_def split: prod.splits)
  then have "length (concat (map cu_store_be32 (cu_sha256_transform st d))) = 32" for st d
    by (simp add: length_concat comp_def cu_store_be32_def sum_list_triv)
  then have "length (cu_sha256_final ctx) = 32" for ctx
    by (simp add: cu_sha256_final_def Let_def split: prod.splits)
  then show "length (cleonos_user_hash_password p) = 64"
    by (simp add: cleonos_user_hash_password_def Let_def concat_pairs)
  have "set (concat (map (\<lambda>b. [cu_hex_digit (f b), cu_hex_digit (g b)]) bs)) \<subseteq> range cu_hex_digit" for f g and bs :: "u8 list"
    by auto
  moreover have "range cu_hex_digit \<subseteq> set ''0123456789abcdef''" using hex_digit_plain by blast
  ultimately show "set (cleonos_user_hash_password p) \<subseteq> set ''0123456789abcdef''"
    unfolding cleonos_user_hash_password_def Let_def by (rule order.trans)
qed

lemma hash_no_separators: "set (cleonos_user_hash_password p) \<inter> {CHR '':'', newline, NUL} = {}"
proof -
  have d: "set ''0123456789abcdef'' \<inter> {CHR '':'', newline, NUL} = {}" by code_simp
  have "A \<inter> C = {}" if "A \<subseteq> B" "B \<inter> C = {}" for A B C :: "char set" using that by blast
  from this [OF hash_password_plain(2) d] show ?thesis .
qed

lemma new_record_ok:
  assumes "cleonos_user_name_valid (Some n)"
  shows "rec_ok (new_record n pw role)" "rc_name (new_record n pw role) = n" "rc_home (new_record n pw role) = ''/home/'' @ n"
    "length (rec_text (new_record n pw role)) \<le> 140"
proof -
  note n = name_valid_plain [OF assms]
  show nm: "rc_name (new_record n pw role) = n" using n(2) by (simp add: new_record_def cu_copy_def user_consts)
  show h: "rc_home (new_record n pw role) = ''/home/'' @ n"
    using n(2) by (simp add: new_record_def cleonos_user_home_for_def cu_append_fits user_consts)
  have x: "rc_hash (new_record n pw role) = cleonos_user_hash_password (Some pw)" by (simp add: new_record_def)
  have r: "rc_role (new_record n pw role) \<in> {CLEONOS_USER_ROLE_USER, CLEONOS_USER_ROLE_ADMIN}" by (simp add: new_record_def)
  have "set ''/home/'' \<inter> {CHR '':'', newline, NUL} = {}" by code_simp
  moreover have "set n \<inter> {CHR '':'', newline, NUL} = {}" using n(3) by blast
  ultimately have "set (''/home/'' @ n) \<inter> {CHR '':'', newline, NUL} = {}" by (simp only: set_append Int_Un_distrib2 Un_empty)
  moreover have "\<not> ush_is_space (last (''/home/'' @ n))" using n(1,4) by simp
  ultimately show "rec_ok (new_record n pw role)"
    using assms n(2) r hash_password_plain(1) hash_no_separators
    unfolding rec_ok_def nm h x set_append Int_Un_distrib2 by (simp add: user_consts)
  show "length (rec_text (new_record n pw role)) \<le> 140"
    using n(2) role_text_plain(3) [of "new_record n pw role"] by (simp add: rec_text_def nm h x hash_password_plain)
qed

section \<open>Refinement\<close>

datatype user_op =
    Create string string nat
  | Change string string
  | Set_role string nat
  | Remove string

fun user_step :: "'k user_kernel \<Rightarrow> user_op \<Rightarrow> 'k \<Rightarrow> 'k \<times> bool" where
  "user_step K (Create n pw role) k = cleonos_user_create K n (Some pw) role False k"
| "user_step K (Change n pw) k = cleonos_user_change_password K n (Some pw) k"
| "user_step K (Set_role n role) k = cleonos_user_set_role K n role k"
| "user_step K (Remove n) k = cleonos_user_remove K n k"

text \<open>The same on the map: \<open>None\<close> when the operation must be refused.\<close>

fun table_op :: "user_op \<Rightarrow> (string \<Rightarrow> cleonos_user_record option) \<Rightarrow> (string \<Rightarrow> cleonos_user_record option) option" where
  "table_op (Create n pw role) t =
     (if cleonos_user_name_valid (Some n) \<and> pw \<noteq> [] \<and> t n = None then Some (t(n \<mapsto> new_record n pw role)) else None)"
| "table_op (Change n pw) t =
     (case t n of Some r \<Rightarrow> if pw \<noteq> [] then Some (t(n \<mapsto> r\<lparr>rc_hash := cleonos_user_hash_password (Some pw)\<rparr>)) else None
      | None \<Rightarrow> None)"
| "table_op (Set_role n role) t =
     (case t n of Some r \<Rightarrow> Some (t(n \<mapsto> r\<lparr>rc_role := if role = CLEONOS_USER_ROLE_ADMIN then CLEONOS_USER_ROLE_ADMIN else CLEONOS_USER_ROLE_USER\<rparr>))
      | None \<Rightarrow> None)"
| "table_op (Remove n) t = (if n \<noteq> ''root'' \<and> t n \<noteq> None then Some (t(n := None)) else None)"

lemma put_spec:
  assumes D: "db_disk K db" and s: "db k = Some s" "length s < 4096" "db_ok s"
    and r: "db_map s n = Some r" "rec_ok r \<Longrightarrow> rec_ok (f r)" "rc_name (f r) = rc_name r"
    and c: "cu_db_rewrite_with K (Some (f r)) None k = (k', ok)"
  shows "if ok then \<exists>s'. db k' = Some s' \<and> length s' < 4096 \<and> db_ok s' \<and> db_map s' = (db_map s)(n \<mapsto> f r) else db k' = Some s"
proof -
  have ok: "\<forall>q. Some (f r) = Some q \<longrightarrow> rec_ok q" using db.view_good [OF s(3) r(1)] r(2) by simp
  show ?thesis
    using rewrite_spec [OF D s(1,2) c] db.update_law [where f = f, OF s(3) r] rewritten_bound [OF _ ok] by (auto split: if_splits)
qed

lemma del_spec:
  assumes D: "db_disk K db" and s: "db k = Some s" "length s < 4096" "db_ok s"
    and c: "cu_db_rewrite_with K None (Some n) k = (k', ok)"
  shows "if ok then \<exists>s'. db k' = Some s' \<and> length s' < 4096 \<and> db_ok s' \<and> db_map s n \<noteq> None \<and> db_map s' = (db_map s)(n := None)
    else db k' = Some s"
  using rewrite_spec [OF D s(1,2) c] db.del_law [OF s(3)] rewritten_bound [of None "Some n" s] by (auto split: if_splits)


section \<open>Properties\<close>

text \<open>A disk for the witnesses: the state is the database file.\<close>

definition demo_db :: "string option \<Rightarrow> string option" where
  "demo_db k = (case k of None \<Rightarrow> None | Some s \<Rightarrow> if length s < 100000 then Some s else None)"

definition demo_store :: "string option \<Rightarrow> string \<Rightarrow> string \<Rightarrow> string option \<times> nat" where
  "demo_store k p d = (if p = CLEONOS_USER_DB_PATH \<and> length d < 100000 then (Some d, 1) else (k, 0))"

definition demo_users :: "string option user_kernel" where
  "demo_users = \<lparr>k_fs_stat_type = (\<lambda>k p. if p = CLEONOS_USER_DB_PATH then (if demo_db k = None then 0 else 1) else 2),
     k_fs_stat_size = (\<lambda>k p. case demo_db k of None \<Rightarrow> U64_MAX | Some s \<Rightarrow> length s),
     k_fs_read = (\<lambda>k p n. case demo_db k of None \<Rightarrow> [] | Some s \<Rightarrow> take n s),
     k_fs_write = demo_store, k_fd_read = (\<lambda>k fd n. (k, None)), k_locale_get = (\<lambda>k n. []),
     k_disk_present = (\<lambda>k. 0), k_disk_sector_count = (\<lambda>k. 0),
     k_disk_read_sector = (\<lambda>k n. None), k_disk_write_sector = (\<lambda>k n d. (k, 0)),
     k_fs_append = (\<lambda>k p d. case demo_db k of None \<Rightarrow> (k, 0) | Some s \<Rightarrow> demo_store k p (s @ d)),
     k_fs_mkdir = (\<lambda>k p. (k, 1)), k_fs_remove = (\<lambda>k p. (k, 1)), k_user_add = (\<lambda>k n p r. (k, 0)),
     k_user_passwd = (\<lambda>k n p q. (k, 0)), k_user_set_role = (\<lambda>k n r. (k, 0)), k_user_remove = (\<lambda>k n. (k, 0)),
     k_user_count = (\<lambda>k. 0), k_user_at = (\<lambda>k i. None), k_user_current = (\<lambda>k. None), k_user_logout = (\<lambda>k. k),
     k_user_is_admin = (\<lambda>k. 0), k_disk_mounted = (\<lambda>k. 0), k_disk_mount_path = (\<lambda>k n. None)\<rparr>"

lemma demo_db_disk: "db_disk demo_users demo_db"
  unfolding db_disk_def
  by (auto simp: demo_users_def demo_store_def demo_db_def U64_MAX_def split: option.splits)

lemma demo_valid: "cleonos_user_name_valid (Some ''bob'')" "cleonos_user_name_valid (Some ''root'')"
  by code_simp+

lemma demo_create:
  assumes "demo_db k = Some s" "length s < 5000" "cleonos_user_find demo_users k ''bob'' = None"
  shows "user_step demo_users (Create ''bob'' ''pw'' 0) k =
    (Some (s @ cu_record_line (new_record ''bob'' ''pw'' 0) CLEONOS_USER_RECORD_MAX), True)"
proof -
  note r = new_record_ok [OF demo_valid(1), of "''pw''" 0]
  have "length (cu_record_line (new_record ''bob'' ''pw'' 0) CLEONOS_USER_RECORD_MAX) \<le> 141"
    using r(4) record_line_eq [OF r(1)] by simp
  moreover have "''/home'' \<noteq> CLEONOS_USER_DB_PATH" "''/home/bob'' \<noteq> CLEONOS_USER_DB_PATH"
    by (simp_all add: CLEONOS_USER_DB_PATH_def)
  ultimately show ?thesis
    using assms demo_valid r(3)
    by (simp add: cleonos_user_create_def ensure_dir_def Let_def demo_users_def demo_store_def)
qed

text \<open>C15: a record survives the file format: parsing the line written for a record gives the record back,
  with and without the newline, for every record whose fields hold no separator and whose line fits.\<close>

theorem user_record_roundtrip:
  assumes "rec_ok r"
  shows "cu_parse_record (cu_record_line r CLEONOS_USER_RECORD_MAX) = Some r
    \<and> cu_parse_record (butlast (cu_record_line r CLEONOS_USER_RECORD_MAX)) = Some r"
  using assms parse_rec_text [OF assms] by (simp add: record_line_eq)

lemma user_record_roundtrip_witness:
  "cu_parse_record (cu_record_line (new_record ''bob'' ''pw'' 1) CLEONOS_USER_RECORD_MAX) = Some (new_record ''bob'' ''pw'' 1)"
  using user_record_roundtrip [OF new_record_ok(1) [OF demo_valid(1)]] by blast


lemma created_account [c_spec]:
  assumes "db_disk K db" "db k = Some s" "length s + 141 < 4096" "db_ok s"
    and "cleonos_user_create K n (Some pw) role False k = (k', True)"
  shows "cleonos_user_verify_password K k' n (Some pw') =
      (if cleonos_user_hash_password (Some pw') = cleonos_user_hash_password (Some pw) then Some (new_record n pw role) else None)
    \<and> (m \<noteq> n \<longrightarrow> cleonos_user_find K k' m = cleonos_user_find K k m)"
proof -
  have l: "length s < 4096" using assms(3) by simp
  have s: "cleonos_user_name_valid (Some n)" "db_map s n = None"
    "db k' = Some (s @ cu_record_line (new_record n pw role) CLEONOS_USER_RECORD_MAX)"
    using create_spec [OF assms(1,2) l assms(5)] by (auto split: if_splits)
  note r = new_record_ok [OF s(1), of pw role]
  have v: "db_map (s @ cu_record_line (new_record n pw role) CLEONOS_USER_RECORD_MAX) m = (if m = n then Some (new_record n pw role) else db_map s m)" for m
    using db.add_get [OF assms(4) r(1)] s(2) r(2) by simp
  have "length (s @ cu_record_line (new_record n pw role) CLEONOS_USER_RECORD_MAX) < 4096"
    using r(4) record_line_eq [OF r(1)] assms(3) by simp
  then have f: "cleonos_user_find K k' m = (if m = n then Some (new_record n pw role) else db_map s m)" for m
    using find_spec [OF assms(1) s(3)] v by simp
  have h: "rc_hash (new_record n pw role) = cleonos_user_hash_password (Some pw)" by (simp add: new_record_def)
  show ?thesis using find_spec [OF assms(1,2)] l by (auto simp: cleonos_user_verify_password_def f h)
qed



text \<open>Creation does not check that the file still fits the buffer of the readers. When the record takes
  it to 4096 bytes or more, creation reports success and afterwards nobody is found, no password is
  accepted, and no account can be changed or removed: every user is locked out.\<close>

theorem user_create_lockout:
  assumes "db_disk K db" "db k = Some s" "length s < 4096" "db_map s n = None"
    and "4096 \<le> length (s @ cu_record_line (new_record n pw role) CLEONOS_USER_RECORD_MAX)"
    and "cleonos_user_create K n (Some pw) role False k = (k', True)"
  shows "cleonos_user_find K k' m = None \<and> cleonos_user_verify_password K k' m p = None
    \<and> \<not> snd (cleonos_user_change_password K m p k') \<and> \<not> snd (cleonos_user_set_role K m r k') \<and> \<not> snd (cleonos_user_remove K m k')"
proof -
  have s: "db k' = Some (s @ cu_record_line (new_record n pw role) CLEONOS_USER_RECORD_MAX)"
    using create_spec [OF assms(1-3,6)] assms(4) by simp
  then have f: "cleonos_user_find K k' m = None" using find_spec [OF assms(1) s] assms(5) by simp
  obtain k1 j where 1: "k_user_remove K k' m = (k1, j)" by fastforce
  have "db k1 = db k'" "j = 0" using disk_remove [OF assms(1) 1] by simp_all
  moreover have "cu_db_load K k1 4096 = None" using db_load_spec [OF assms(1), of k1] calculation s assms(5) by simp
  ultimately show ?thesis
    using f 1 by (simp add: cleonos_user_verify_password_def cleonos_user_change_password_def
        cleonos_user_set_role_def cleonos_user_remove_def cu_db_rewrite_with_def)
qed

lemma comment_records: "db_map (CHR ''#'' # replicate n CHR ''#'' @ [newline]) = Map.empty"
proof -
  have nl: "CHR ''#'' \<noteq> newline" by code_simp
  have "segments (CHR ''#'' # replicate n CHR ''#'' @ [newline]) = [CHR ''#'' # replicate n CHR ''#'', []]"
    using segments_append [of "[]" "CHR ''#'' # replicate n CHR ''#''" "[]"] segments_line [of "CHR ''#'' # replicate n CHR ''#''" "[]"] nl
    by simp
  moreover have "cu_parse_record (db_line (CHR ''#'' # xs)) = None" for xs
  proof -
    obtain ys where "db_line (CHR ''#'' # xs) = CHR ''#'' # ys"
      by (cases "CLEONOS_USER_RECORD_MAX \<le> Suc (length xs)") (auto simp: db_line_def line_bytes_def user_consts take_Cons')
    moreover obtain zs where "cu_copy [] CLEONOS_USER_RECORD_MAX (Some (CHR ''#'' # ys)) = CHR ''#'' # zs"
      by (auto simp: cu_copy_def user_consts take_Cons')
    moreover have "\<exists>ws. cu_trim (CHR ''#'' # zs) = CHR ''#'' # ws"
    proof -
      have h: "\<not> ush_is_space CHR ''#''" by code_simp
      have "dropWhile ush_is_space (rev zs @ [CHR ''#'']) = dropWhile ush_is_space (rev zs) @ [CHR ''#'']"
        using h by (induction zs rule: rev_induct) auto
      then show ?thesis using h by (simp add: cu_trim_eq ush_trim_line_eq)
    qed
    ultimately show ?thesis by (auto simp: cu_parse_record_def)
  qed
  ultimately show ?thesis by (auto simp: db_map_def db_records_def names_map_def)
qed

lemma user_create_lockout_witness:
  "\<exists>k k'. snd (user_step demo_users (Create ''bob'' ''pw'' 0) k) \<and> k' = fst (user_step demo_users (Create ''bob'' ''pw'' 0) k)
    \<and> cleonos_user_find demo_users k' ''bob'' = None"
proof -
  define s where "s = CHR ''#'' # replicate 4090 CHR ''#'' @ [newline]"
  have s: "demo_db (Some s) = Some s" "length s < 5000" "length s < 4096" by (simp_all add: demo_db_def s_def)
  have m: "db_map s ''bob'' = None" unfolding s_def comment_records by simp
  then have f: "cleonos_user_find demo_users (Some s) ''bob'' = None" by (simp add: find_spec [OF demo_db_disk s(1)])
  note c = demo_create [OF s(1,2) f]
  have "4 \<le> length (cu_record_line (new_record ''bob'' ''pw'' 0) CLEONOS_USER_RECORD_MAX)"
    using new_record_ok [OF demo_valid(1)] by (simp add: record_line_eq rec_text_def)
  then have l: "4096 \<le> length (s @ cu_record_line (new_record ''bob'' ''pw'' 0) CLEONOS_USER_RECORD_MAX)" by (simp add: s_def)
  have "cleonos_user_find demo_users (fst (user_step demo_users (Create ''bob'' ''pw'' 0) (Some s))) ''bob'' = None"
    unfolding c fst_conv using user_create_lockout [OF demo_db_disk s(1,3) m l c [unfolded user_step.simps]] by blast
  moreover have "snd (user_step demo_users (Create ''bob'' ''pw'' 0) (Some s))" unfolding c by simp
  ultimately show ?thesis by blast
qed

text \<open>Creation does not check that the file ends with a newline either. When its last line is a
  record without one, creation reports success, but the new record runs into that line: the new user
  does not exist, and the home directory of the last user has the new name appended.\<close>

theorem user_create_unterminated:
  assumes "db_disk K db" "db k = Some s" "length s + 141 < 4096" "s = s0 @ rec_text r" "s0 = [] \<or> last s0 = newline"
    and "rec_ok r" "db_map s n = None" "db_map s0 (rc_name r) = None"
    and "length (rec_text r) + length (rec_text (new_record n pw role)) < CLEONOS_USER_RECORD_MAX"
    and "length (rc_home r) + length n < CLEONOS_USER_HOME_MAX"
    and "cleonos_user_create K n (Some pw) role False k = (k', True)"
  shows "cleonos_user_find K k' n = None \<and> cleonos_user_find K k' (rc_name r) = Some (r\<lparr>rc_home := rc_home r @ n\<rparr>)"
proof -
  let ?q = "new_record n pw role" and ?r = "r\<lparr>rc_home := rc_home r @ n\<rparr>"
  have l: "length s < 4096" using assms(3) by simp
  have s: "cleonos_user_name_valid (Some n)" "db k' = Some (s @ cu_record_line ?q CLEONOS_USER_RECORD_MAX)"
    using create_spec [OF assms(1,2) l assms(11)] assms(7) by auto
  note q = new_record_ok [OF s(1), of pw role]
  have nl: "newline \<notin> set (rec_text r @ rec_text ?q)" "NUL \<notin> set (rec_text r @ rec_text ?q)"
    using rec_ok_text [OF assms(6)] rec_ok_text [OF q(1)] by auto
  have "db_line (rec_text r @ rec_text ?q) = rec_text r @ rec_text ?q"
    using nl(2) assms(9) by (intro db_line_id) (simp_all add: user_consts)
  then have p: "line_records [rec_text r @ rec_text ?q] = [?r]"
    using parse_merged [OF assms(6) q(1) assms(9)] assms(10) q(2) by simp
  have "db_records (s0 @ (rec_text r @ rec_text ?q) @ [newline]) = db_records s0 @ [?r]"
    unfolding p [symmetric] by (rule records_append [OF assms(5) nl(1)])
  then have m: "db_map (s @ cu_record_line ?q CLEONOS_USER_RECORD_MAX) = names_map (db_records s0 @ [?r])"
    by (simp add: record_line_eq [OF q(1)] assms(4) db_map_def)
  have "db_records s = db_records s0 @ [r]"
  proof (cases "s0 = []")
    case True
    then show ?thesis using rec_ok_text(2) [OF assms(6)] line_records_rec_text [OF assms(6)]
      by (simp add: assms(4) db_records_def segments_line del: line_records_simps(2)) simp
  next
    case False
    then obtain t where "s0 = t @ [newline]" using assms(5) by (metis append_butlast_last_id)
    then show ?thesis using rec_ok_text(2) [OF assms(6)] line_records_rec_text [OF assms(6)]
      by (simp add: assms(4) db_records_def segments_append segments_line)
  qed
  then have s1: "db_map s = (db_map s0)(rc_name r \<mapsto> r)" using map_add [of "db_records s0" r] assms(8) by (simp add: db_map_def)
  have m1: "names_map (db_records s0 @ [?r]) = (db_map s0)(rc_name r \<mapsto> ?r)"
    using map_add [of "db_records s0" ?r] assms(8) by (simp add: db_map_def)
  have "length (s @ cu_record_line ?q CLEONOS_USER_RECORD_MAX) < 4096"
    using q(4) record_line_eq [OF q(1)] assms(3) by simp
  then show ?thesis using find_spec [OF assms(1) s(2)] assms(7) unfolding m m1 s1 by (auto split: if_splits)
qed

lemma user_create_unterminated_witness:
  "\<exists>k k'. user_step demo_users (Create ''bob'' ''pw'' 0) k = (k', True) \<and> cleonos_user_find demo_users k' ''bob'' = None"
proof -
  let ?r = "new_record ''root'' ''x'' 1"
  note r = new_record_ok [OF demo_valid(2), of "''x''" 1] and b = new_record_ok [OF demo_valid(1), of "''pw''" 0]
  have n: "newline \<notin> set (rec_text ?r)" using rec_ok_text(2) [OF r(1)] .
  have l: "length (rec_text ?r) \<le> 86" "length (rec_text (new_record ''bob'' ''pw'' 0)) \<le> 83"
    using r(2,3) b(2,3) by (simp_all add: rec_text_def role_text_def new_record_def hash_password_plain CLEONOS_USER_ROLE_USER_def CLEONOS_USER_ROLE_ADMIN_def)
  have s: "demo_db (Some ([] @ rec_text ?r)) = Some ([] @ rec_text ?r)" using l by (simp add: demo_db_def)
  have "db_records ([] @ rec_text ?r) = [?r]"
    using line_records_rec_text [OF r(1)] n by (simp add: db_records_def segments_line del: line_records_simps(2))
  then have "db_map ([] @ rec_text ?r) = [''root'' \<mapsto> ?r]" unfolding db_map_def names_map_def by (simp only: list.map map_of.simps fst_conv snd_conv r(2))
  then have m: "db_map ([] @ rec_text ?r) ''bob'' = None" by (simp only:) simp
  then have f: "cleonos_user_find demo_users (Some ([] @ rec_text ?r)) ''bob'' = None" unfolding find_spec [where db = demo_db, OF demo_db_disk s] m by simp
  have c: "user_step demo_users (Create ''bob'' ''pw'' 0) (Some ([] @ rec_text ?r)) =
      (Some (([] @ rec_text ?r) @ cu_record_line (new_record ''bob'' ''pw'' 0) CLEONOS_USER_RECORD_MAX), True)"
    by (rule demo_create [OF s _ f]) (use l in simp)
  have "db_map [] (rc_name ?r) = None" by (simp add: db_map_def db_records_def names_map_def)
  from user_create_unterminated [where db = demo_db and ?s0.0 = "[]", OF demo_db_disk s _ refl _ r(1) m this _ _ c [unfolded user_step.simps]]
  have "cleonos_user_find demo_users (Some (([] @ rec_text ?r) @ cu_record_line (new_record ''bob'' ''pw'' 0) CLEONOS_USER_RECORD_MAX)) ''bob'' = None"
    using l r(3) by (simp add: user_consts)
  then show ?thesis using c by (intro exI conjI)
qed

end
