(* ===== verification/UserCmds.thy ===== *)
theory UserCmds
  imports UserDb LibcStdio
begin

text \<open>
  The account commands: the shared code of \<open>user_cmd_common.h\<close> and the commands \<open>useradd\<close>, \<open>userdel\<close>,
  \<open>usermod\<close>, \<open>users\<close>, \<open>passwd\<close>, \<open>whoami\<close> and \<open>logout\<close>. Keys come from \<open>getchar\<close> (a parameter \<open>F\<close>), accounts
  from the kernel or the database file (\<open>UserDb\<close>). A run that waits for a key forever has no result
  (\<open>None\<close>).
\<close>

section \<open>Shared code\<close>

definition ucmd_load_context :: "'k user_kernel \<Rightarrow> string \<Rightarrow> 'k world \<Rightarrow> bool \<times> string \<times> ush_state" where
  "ucmd_load_context K expected_cmd w =
     (case ush_command_ctx_read (kernel.truncate K) w of
        None \<Rightarrow> (False, [], ush_init_state)
      | Some ctx \<Rightarrow>
          if ctx_cmd ctx \<noteq> [] \<and> ush_streq (Some (ctx_cmd ctx)) (Some expected_cmd)
          then (True, ctx_arg ctx,
                if ch_at (ctx_cwd ctx) 0 = CHR ''/''
                then ush_init_state\<lparr>sh_cwd := ush_copy (sh_cwd ush_init_state) USH_PATH_MAX (Some (ctx_cwd ctx))\<rparr>
                else ush_init_state)
          else (False, [], ush_init_state))"

definition ucmd_finish_context :: "'k user_kernel \<Rightarrow> ush_state \<Rightarrow> string \<Rightarrow> bool \<Rightarrow> 'k world \<Rightarrow> 'k world" where
  "ucmd_finish_context K sh initial_cwd has_context w =
     (if \<not> has_context then w
      else (let ret = \<lparr>ret_flags = 0, ret_exit_code = 0, ret_cwd = []\<rparr>;
                ret = (if \<not> ush_streq (Some (sh_cwd sh)) (Some initial_cwd)
                       then ret\<lparr>ret_flags := ret_flags ret OR USH_CMD_RET_FLAG_CWD,
                                ret_cwd := ush_copy (ret_cwd ret) USH_PATH_MAX (Some (sh_cwd sh))\<rparr>
                       else ret);
                ret = (if sh_exit_requested sh
                       then ret\<lparr>ret_flags := ret_flags ret OR USH_CMD_RET_FLAG_EXIT, ret_exit_code := sh_exit_code sh\<rparr>
                       else ret)
            in fst (ush_command_ret_write (kernel.truncate K) ret w)))"

text \<open>The loop reads a key, edits the line and echoes unless the line is secret.\<close>

partial_function (option) read_line_loop ::
    "'k fd_calls \<Rightarrow> bool \<Rightarrow> nat \<Rightarrow> string \<Rightarrow> 'k world \<Rightarrow> ('k world \<times> string \<times> bool) option" where
  "read_line_loop F secret out_size line w =
     Option.bind (c_getchar F (w_k w)) (\<lambda>(k, ch).
       let w = w\<lparr>w_k := k\<rparr> in
       if ch = - 1 then Some (if secret then ush_write_char newline w else w, line, 0 < length line)
       else if ch = 13 \<or> ch = 10 then Some (ush_write_char newline w, line, True)
       else if ch = 8 \<or> ch = 127 then
         (if 0 < length line
          then read_line_loop F secret out_size (butlast line)
                 (if secret then w else ush_write (Some [CHR 0x08, CHR '' '', CHR 0x08]) w)
          else read_line_loop F secret out_size line w)
       else if \<not> ush_is_printable (to_char ch) then read_line_loop F secret out_size line w
       else if out_size \<le> length line + 1 then read_line_loop F secret out_size line w
       else read_line_loop F secret out_size (line @ [to_char ch])
              (if secret then w else ush_write_char (to_char ch) w))"

definition ucmd_read_line_internal ::
    "'k fd_calls \<Rightarrow> string option \<Rightarrow> nat \<Rightarrow> bool \<Rightarrow> 'k world \<Rightarrow> ('k world \<times> string \<times> bool) option" where
  "ucmd_read_line_internal F prompt out_size secret w =
     (if out_size = 0 then Some (w, [], False)
      else read_line_loop F secret out_size [] (if prompt \<noteq> None \<and> prompt \<noteq> Some [] then ush_write prompt w else w))"

definition ucmd_read_plain_line :: "'k fd_calls \<Rightarrow> string option \<Rightarrow> nat \<Rightarrow> 'k world \<Rightarrow> ('k world \<times> string \<times> bool) option" where
  "ucmd_read_plain_line F prompt out_size w = ucmd_read_line_internal F prompt out_size False w"

definition ucmd_read_secret_line :: "'k fd_calls \<Rightarrow> string option \<Rightarrow> nat \<Rightarrow> 'k world \<Rightarrow> ('k world \<times> string \<times> bool) option" where
  "ucmd_read_secret_line F prompt out_size w = ucmd_read_line_internal F prompt out_size True w"

definition ucmd_query_current_user :: "'k user_kernel \<Rightarrow> 'k world \<Rightarrow> cleonos_user_info option" where
  "ucmd_query_current_user K w = k_user_current K (w_k w)"

definition ucmd_require_disk_accounts :: "string \<Rightarrow> cleonos_user_info \<Rightarrow> 'k world \<Rightarrow> 'k world \<times> bool" where
  "ucmd_require_disk_accounts cmd info w =
     (if ui_disk_login_required info = 0
      then (ush_writeln (Some '': multi-user accounts are only enabled in disk boot mode'') (ush_write (Some cmd) w), False)
      else if ui_logged_in info = 0
      then (ush_writeln (Some '': login required'') (ush_write (Some cmd) w), False)
      else (w, True))"

definition ucmd_require_admin :: "string \<Rightarrow> cleonos_user_info \<Rightarrow> 'k world \<Rightarrow> 'k world \<times> bool" where
  "ucmd_require_admin cmd info w =
     (let (w, ok) = ucmd_require_disk_accounts cmd info w in
      if \<not> ok then (w, False)
      else if ui_role info \<noteq> CLEONOS_USER_ROLE_ADMIN
      then (ush_writeln (Some '': admin privileges required'') (ush_write (Some cmd) w), False)
      else (w, True))"

definition ucmd_emit_user_info :: "cleonos_user_info \<Rightarrow> 'k world \<Rightarrow> 'k world" where
  "ucmd_emit_user_info info w =
     (let w = ush_write (Some (ui_name info)) w; w = ush_write (Some ''  '') w;
          w = ush_write (Some (if ui_role info = CLEONOS_USER_ROLE_ADMIN then ''admin'' else ''user'')) w;
          w = ush_write (Some ''  '') w
      in ush_writeln (Some (ui_home info)) w)"

section \<open>The commands\<close>

text \<open>A message and the result 0.\<close>

definition fail_with :: "string \<Rightarrow> 'k world \<Rightarrow> ('k world \<times> bool) option" where
  "fail_with msg w = Some (ush_writeln (Some msg) w, False)"

definition read_password :: "'k fd_calls \<Rightarrow> string \<Rightarrow> 'k world \<Rightarrow> ('k world \<times> string \<times> bool) option" where
  "read_password F prompt w = ucmd_read_secret_line F (Some prompt) 96 w"

text \<open>The two prompts for a new password; the second one is skipped when the first one fails.\<close>

definition read_new_password ::
    "'k fd_calls \<Rightarrow> string \<Rightarrow> string \<Rightarrow> 'k world \<Rightarrow> ('k world \<times> (string \<times> string) option) option" where
  "read_new_password F prompt1 prompt2 w =
     Option.bind (read_password F prompt1 w) (\<lambda>(w, password, ok).
       if \<not> ok then Some (w, None)
       else Option.bind (read_password F prompt2 w) (\<lambda>(w, confirm, ok).
         Some (w, if ok then Some (password, confirm) else None)))"

definition useradd_run :: "'k user_kernel \<Rightarrow> 'k fd_calls \<Rightarrow> string option \<Rightarrow> 'k world \<Rightarrow> ('k world \<times> bool) option" where
  "useradd_run K F arg w =
     (case ucmd_query_current_user K w of
        None \<Rightarrow> Some (w, False)
      | Some info \<Rightarrow>
        (let (w, admin) = ucmd_require_admin ''useradd'' info w in
         if \<not> admin then Some (w, False)
         else if arg = None \<or> arg = Some [] then fail_with ''useradd: usage useradd [-a|--admin] <name>'' w
         else (case ush_split_first_and_rest arg CLEONOS_USER_NAME_MAX of
            None \<Rightarrow> fail_with ''useradd: usage useradd [-a|--admin] <name>'' w
          | Some (opt, rest) \<Rightarrow>
            (case (if ush_streq (Some opt) (Some ''-a'') \<or> ush_streq (Some opt) (Some ''--admin'')
                   then (case ush_split_first_and_rest (Some rest) CLEONOS_USER_NAME_MAX of
                           None \<Rightarrow> None | Some (name, rest) \<Rightarrow> Some (CLEONOS_USER_ROLE_ADMIN, name, rest))
                   else Some (CLEONOS_USER_ROLE_USER, ush_copy [] CLEONOS_USER_NAME_MAX (Some opt), rest)) of
               None \<Rightarrow> fail_with ''useradd: username required'' w
             | Some (role, name, rest) \<Rightarrow>
               if rest \<noteq> [] then fail_with ''useradd: too many arguments'' w
               else if \<not> cleonos_user_name_valid (Some name) then fail_with ''useradd: invalid username'' w
               else Option.bind (read_new_password F ''new user password: '' ''confirm password: '' w) (\<lambda>(w, pws).
                 case pws of
                   None \<Rightarrow> fail_with ''useradd: password input failed'' w
                 | Some (password, confirm) \<Rightarrow>
                   if password = [] then fail_with ''useradd: empty password rejected'' w
                   else if \<not> ush_streq (Some password) (Some confirm) then fail_with ''useradd: passwords do not match'' w
                   else (let (k, ok) = cleonos_user_create K name (Some password) role False (w_k w); w = w\<lparr>w_k := k\<rparr> in
                     if \<not> ok then fail_with ''useradd: failed'' w
                     else Some (ush_writeln (Some ''useradd: user created'') w, True)))))))"

definition userdel_run :: "'k user_kernel \<Rightarrow> string option \<Rightarrow> 'k world \<Rightarrow> ('k world \<times> bool) option" where
  "userdel_run K arg w =
     (case ucmd_query_current_user K w of
        None \<Rightarrow> Some (w, False)
      | Some info \<Rightarrow>
        (let (w, admin) = ucmd_require_admin ''userdel'' info w in
         if \<not> admin then Some (w, False)
         else if arg = None \<or> arg = Some [] then fail_with ''userdel: usage userdel <name>'' w
         else (let name = ush_trim_line (ush_copy [] CLEONOS_USER_NAME_MAX arg);
                   (k, ok) = cleonos_user_remove K name (w_k w); w = w\<lparr>w_k := k\<rparr> in
           if \<not> ok then fail_with ''userdel: failed'' w
           else Some (ush_writeln (Some ''userdel: user removed'') w, True))))"

definition usermod_run :: "'k user_kernel \<Rightarrow> string option \<Rightarrow> 'k world \<Rightarrow> ('k world \<times> bool) option" where
  "usermod_run K arg w =
     (case ucmd_query_current_user K w of
        None \<Rightarrow> Some (w, False)
      | Some info \<Rightarrow>
        (let (w, admin) = ucmd_require_admin ''usermod'' info w in
         if \<not> admin then Some (w, False)
         else (case (case ush_split_first_and_rest arg 32 of
                       None \<Rightarrow> None
                     | Some (mode, rest) \<Rightarrow>
                       (case ush_split_first_and_rest (Some rest) CLEONOS_USER_NAME_MAX of
                          None \<Rightarrow> None
                        | Some (name, rest) \<Rightarrow> if rest \<noteq> [] then None else Some (mode, name))) of
             None \<Rightarrow> fail_with ''usermod: usage usermod <admin|user> <name>'' w
           | Some (mode, name) \<Rightarrow>
             (case (if ush_streq (Some mode) (Some ''admin'') then Some CLEONOS_USER_ROLE_ADMIN
                    else if ush_streq (Some mode) (Some ''user'') then Some CLEONOS_USER_ROLE_USER else None) of
                None \<Rightarrow> fail_with ''usermod: role must be admin or user'' w
              | Some role \<Rightarrow>
                (let (k, ok) = cleonos_user_set_role K name role (w_k w); w = w\<lparr>w_k := k\<rparr> in
                 if \<not> ok then fail_with ''usermod: failed'' w
                 else Some (ush_writeln (Some ''usermod: role updated'') w, True))))))"

definition users_run :: "'k user_kernel \<Rightarrow> 'k world \<Rightarrow> ('k world \<times> bool) option" where
  "users_run K w =
     (case ucmd_query_current_user K w of
        None \<Rightarrow> Some (w, False)
      | Some current \<Rightarrow>
        (let (w, admin) = ucmd_require_admin ''users'' current w; count = k_user_count K (w_k w) in
         if \<not> admin then Some (w, False)
         else if count = U64_MAX \<or> count = 0 then fail_with ''users: no users or users.db unreadable'' w
         else (let infos = List.map_filter (k_user_at K (w_k w)) [0..<count]; w = fold ucmd_emit_user_info infos w in
           if length infos = 0 then fail_with ''users: no users or users.db unreadable'' w else Some (w, True))))"

definition passwd_run :: "'k user_kernel \<Rightarrow> 'k fd_calls \<Rightarrow> string option \<Rightarrow> 'k world \<Rightarrow> ('k world \<times> bool) option" where
  "passwd_run K F arg w =
     (case ucmd_query_current_user K w of
        None \<Rightarrow> Some (w, False)
      | Some info \<Rightarrow>
        (let (w, ok) = ucmd_require_disk_accounts ''passwd'' info w; other = (arg \<noteq> None \<and> arg \<noteq> Some []) in
         if \<not> ok then Some (w, False)
         else if other \<and> ui_role info \<noteq> CLEONOS_USER_ROLE_ADMIN
         then fail_with (''passwd: only admin can change another user'' @ CHR 0x27 # ''s password'') w
         else (let target = (if other then ush_trim_line (ush_copy [] CLEONOS_USER_NAME_MAX arg)
                             else ush_copy [] CLEONOS_USER_NAME_MAX (Some (ui_name info))) in
           if \<not> cleonos_user_name_valid (Some target) then fail_with ''passwd: invalid username'' w
           else Option.bind
             (if ui_role info \<noteq> CLEONOS_USER_ROLE_ADMIN \<or> ush_streq (Some target) (Some (ui_name info))
              then read_password F ''current password: '' w else Some (w, [], True)) (\<lambda>(w, old_password, ok).
             if \<not> ok then fail_with ''passwd: current password required'' w
             else Option.bind (read_new_password F ''new password: '' ''confirm new password: '' w) (\<lambda>(w, pws).
               case pws of
                 None \<Rightarrow> fail_with ''passwd: password input failed'' w
               | Some (new_password, confirm) \<Rightarrow>
                 if new_password = [] then fail_with ''passwd: empty password rejected'' w
                 else if \<not> ush_streq (Some new_password) (Some confirm) then fail_with ''passwd: passwords do not match'' w
                 else (let (k, n) = k_user_passwd K (w_k w) target old_password new_password; w = w\<lparr>w_k := k\<rparr> in
                   if n = 0 then fail_with ''passwd: failed'' w
                   else Some (ush_writeln (Some ''passwd: password updated'') w, True)))))))"

definition whoami_run :: "'k user_kernel \<Rightarrow> 'k world \<Rightarrow> ('k world \<times> bool) option" where
  "whoami_run K w =
     (case ucmd_query_current_user K w of
        None \<Rightarrow> Some (ush_writeln (Some ''user'') w, True)
      | Some info \<Rightarrow>
        if ui_logged_in info = 0 \<or> ui_name info = [] then Some (ush_writeln (Some ''user'') w, True)
        else Some (ush_writeln (Some (ui_name info)) w, True))"

definition logout_run :: "'k user_kernel \<Rightarrow> 'k world \<Rightarrow> ('k world \<times> bool) option" where
  "logout_run K w =
     (case ucmd_query_current_user K w of
        None \<Rightarrow> fail_with ''logout: failed'' w
      | Some info \<Rightarrow>
        if ui_disk_login_required info = 0 then fail_with ''logout: login is disabled in ISO temporary mode'' w
        else (let k = k_user_logout K (w_k w); (k, n) = k_fs_remove K k CLEONOS_USER_SESSION_PATH in
              Some (ush_writeln (Some ''logout: logged out'') (w\<lparr>w_k := k\<rparr>), True)))"

text \<open>The \<open>cleonos_app_main\<close> of these commands, around their \<open>run\<close>.\<close>

definition ucmd_main ::
    "'k user_kernel \<Rightarrow> string \<Rightarrow> (string option \<Rightarrow> 'k world \<Rightarrow> ('k world \<times> bool) option) \<Rightarrow> 'k world \<Rightarrow> ('k world \<times> int) option" where
  "ucmd_main K name run w =
     (let (has_context, arg, sh) = ucmd_load_context K name w; initial_cwd = sh_cwd sh in
      Option.bind (run (Some arg) w) (\<lambda>(w, success).
        Some (ucmd_finish_context K sh initial_cwd has_context w, if success then 0 else 1)))"

definition useradd_main :: "'k user_kernel \<Rightarrow> 'k fd_calls \<Rightarrow> 'k world \<Rightarrow> ('k world \<times> int) option" where
  "useradd_main K F = ucmd_main K ''useradd'' (useradd_run K F)"

definition userdel_main :: "'k user_kernel \<Rightarrow> 'k world \<Rightarrow> ('k world \<times> int) option" where
  "userdel_main K = ucmd_main K ''userdel'' (userdel_run K)"

definition usermod_main :: "'k user_kernel \<Rightarrow> 'k world \<Rightarrow> ('k world \<times> int) option" where
  "usermod_main K = ucmd_main K ''usermod'' (usermod_run K)"

definition users_main :: "'k user_kernel \<Rightarrow> 'k world \<Rightarrow> ('k world \<times> int) option" where
  "users_main K = ucmd_main K ''users'' (\<lambda>arg. users_run K)"

definition passwd_main :: "'k user_kernel \<Rightarrow> 'k fd_calls \<Rightarrow> 'k world \<Rightarrow> ('k world \<times> int) option" where
  "passwd_main K F = ucmd_main K ''passwd'' (passwd_run K F)"

definition whoami_main :: "'k user_kernel \<Rightarrow> 'k world \<Rightarrow> ('k world \<times> int) option" where
  "whoami_main K = ucmd_main K ''whoami'' (\<lambda>arg. whoami_run K)"

definition logout_main :: "'k user_kernel \<Rightarrow> 'k world \<Rightarrow> ('k world \<times> int) option" where
  "logout_main K = ucmd_main K ''logout'' (\<lambda>arg. logout_run K)"

section \<open>Reading a line\<close>

text \<open>What the keyboard promises: \<open>inp k\<close> are the keys to come, a read of one byte delivers the next one
  and reports the end as an error.\<close>

definition key_source :: "'k fd_calls \<Rightarrow> ('k \<Rightarrow> string) \<Rightarrow> bool" where
  "key_source F inp \<longleftrightarrow> (\<forall>k. case inp k of
     [] \<Rightarrow> snd (fd_read1 F k 0) = None
   | c # cs \<Rightarrow> snd (fd_read1 F k 0) = Some (Some c) \<and> inp (fst (fd_read1 F k 0)) = cs)"

definition keys_keep :: "'k fd_calls \<Rightarrow> ('k \<Rightarrow> 'a) \<Rightarrow> bool" where
  "keys_keep F obs \<longleftrightarrow> (\<forall>k. obs (fst (fd_read1 F k 0)) = obs k)"

definition is_eol :: "char \<Rightarrow> bool" where
  "is_eol c \<longleftrightarrow> uchar c = 13 \<or> uchar c = 10"

text \<open>The effect of a key on the line.\<close>

definition edit_key :: "nat \<Rightarrow> string \<Rightarrow> char \<Rightarrow> string" where
  "edit_key n line c =
     (if uchar c = 8 \<or> uchar c = 127 then butlast line
      else if ush_is_printable c \<and> length line + 1 < n then line @ [c] else line)"

lemma getchar_key:
  assumes "key_source F inp"
  shows "inp k = c # cs \<Longrightarrow> \<exists>k'. c_getchar F k = Some (k', uchar c) \<and> inp k' = cs \<and> k' = fst (fd_read1 F k 0)"
    and "inp k = [] \<Longrightarrow> \<exists>k'. c_getchar F k = Some (k', - 1) \<and> k' = fst (fd_read1 F k 0)"
proof -
  have s: "case inp k of [] \<Rightarrow> snd (fd_read1 F k 0) = None
     | c # cs \<Rightarrow> snd (fd_read1 F k 0) = Some (Some c) \<and> inp (fst (fd_read1 F k 0)) = cs"
    using assms unfolding key_source_def by (rule spec)
  obtain k' r where r: "fd_read1 F k 0 = (k', r)" by fastforce
  { assume "inp k = c # cs"
    then have "r = Some (Some c)" "inp k' = cs" using s r by simp_all
    then show "\<exists>k'. c_getchar F k = Some (k', uchar c) \<and> inp k' = cs \<and> k' = fst (fd_read1 F k 0)"
      using r by (intro exI [of _ k']) (simp add: c_getchar_def read_byte_loop.simps) }
  { assume "inp k = []"
    then have "r = None" using s r by simp
    then show "\<exists>k'. c_getchar F k = Some (k', - 1) \<and> k' = fst (fd_read1 F k 0)"
      using r by (intro exI [of _ k']) (simp add: c_getchar_def read_byte_loop.simps) }
qed

lemma world_out: "w\<lparr>w_k := k, w_out := w_out w\<rparr> = w\<lparr>w_k := k\<rparr>"
  by simp

lemma read_line_loop_spec [c_spec]:
  assumes src: "key_source F inp"
  shows "\<exists>k' e. read_line_loop F secret n line w =
      Some (w\<lparr>w_k := k', w_out := w_out w @ e\<rparr>, foldl (edit_key n) line (takeWhile (\<lambda>c. \<not> is_eol c) (inp (w_k w))),
        (\<exists>c\<in>set (inp (w_k w)). is_eol c) \<or> foldl (edit_key n) line (inp (w_k w)) \<noteq> [])
    \<and> (secret \<longrightarrow> e = [newline])
    \<and> ((\<exists>c\<in>set (inp (w_k w)). is_eol c) \<longrightarrow> inp k' = tl (dropWhile (\<lambda>c. \<not> is_eol c) (inp (w_k w))))
    \<and> (\<forall>obs :: 'k \<Rightarrow> string option. keys_keep F obs \<longrightarrow> obs k' = obs (w_k w))"
proof (induction "inp (w_k w)" arbitrary: line w)
  case Nil
  obtain k' where g: "c_getchar F (w_k w) = Some (k', - 1)" "k' = fst (fd_read1 F (w_k w) 0)"
    using getchar_key(2) [OF src Nil [symmetric]] by blast
  have "read_line_loop F secret n line w = Some (w\<lparr>w_k := k', w_out := w_out w @ (if secret then [newline] else [])\<rparr>, line, 0 < length line)"
    by (subst read_line_loop.simps) (simp add: g(1) Let_def ush_write_char_def emit_def)
  then show ?case using g(2) Nil [symmetric]
    by (intro exI [of _ k'] exI [of _ "if secret then [newline] else []"]) (simp add: keys_keep_def)
next
  case (Cons c cs)
  obtain k1 where g: "c_getchar F (w_k w) = Some (k1, uchar c)" "inp k1 = cs" "k1 = fst (fd_read1 F (w_k w) 0)"
    using getchar_key(1) [OF src Cons(2) [symmetric]] by blast
  note keys = Cons(2) [symmetric]
  show ?case
  proof (cases "is_eol c")
    case True
    then have "read_line_loop F secret n line w = Some (w\<lparr>w_k := k1, w_out := w_out w @ [newline]\<rparr>, line, True)"
      by (subst read_line_loop.simps) (auto simp: is_eol_def g(1) Let_def ush_write_char_def emit_def)
    then show ?thesis using g True unfolding keys
      by (intro exI [of _ k1] exI [of _ "[newline]"]) (auto simp: keys_keep_def)
  next
    case False
    define echo where "echo = (if secret then [] else if uchar c = 8 \<or> uchar c = 127 then (if line = [] then [] else [CHR 0x08, CHR '' '', CHR 0x08])
      else if ush_is_printable c \<and> length line + 1 < n then [c] else [])"
    have "0 \<le> uchar c" by (rule uchar_bounds)
    then have s: "read_line_loop F secret n line w =
        read_line_loop F secret n (edit_key n line c) (w\<lparr>w_k := k1, w_out := w_out w @ echo\<rparr>)"
      using False
      by (subst read_line_loop.simps)
        (auto simp: is_eol_def g(1) Let_def ush_write_char_def ush_write_def emit_def edit_key_def echo_def)
    from Cons(1) [of "w\<lparr>w_k := k1, w_out := w_out w @ echo\<rparr>" "edit_key n line c"] g(2)
    obtain k' e where l: "read_line_loop F secret n (edit_key n line c) (w\<lparr>w_k := k1, w_out := w_out w @ echo\<rparr>) =
        Some (w\<lparr>w_k := k', w_out := (w_out w @ echo) @ e\<rparr>, foldl (edit_key n) (edit_key n line c) (takeWhile (\<lambda>c. \<not> is_eol c) cs),
          (\<exists>c\<in>set cs. is_eol c) \<or> foldl (edit_key n) (edit_key n line c) cs \<noteq> [])"
      "secret \<longrightarrow> e = [newline]" "(\<exists>c\<in>set cs. is_eol c) \<longrightarrow> inp k' = tl (dropWhile (\<lambda>c. \<not> is_eol c) cs)"
      "\<forall>obs :: 'k \<Rightarrow> string option. keys_keep F obs \<longrightarrow> obs k' = obs k1" by auto
    show ?thesis unfolding s keys using l g(3) False
      by (intro exI [of _ k'] exI [of _ "echo @ e"]) (auto simp: echo_def keys_keep_def)
  qed
qed

lemma edit_printable:
  assumes "\<forall>c\<in>set t. ush_is_printable c \<and> uchar c \<noteq> 127" "length line < n"
  shows "foldl (edit_key n) line t = take (n - 1) (line @ t)"
  using assms
proof (induction t arbitrary: line)
  case (Cons c t)
  have "uchar c \<noteq> 8" using Cons.prems(1) by (auto simp: ush_is_printable_def c_isprint_def)
  moreover have "n - 1 - length line = Suc (n - 1 - length (line @ [c]))" if "length line + 1 < n" using that by simp
  ultimately show ?case using Cons by (auto simp: edit_key_def)
qed simp

lemma edit_length: "length line < n \<Longrightarrow> length (foldl (edit_key n) line t) < n"
  by (induction t arbitrary: line) (auto simp: edit_key_def)

text \<open>A secret line that was typed plainly and ended with a newline.\<close>

lemma read_password_typed [c_spec]:
  assumes src: "key_source F inp" and "inp (w_k w) = t @ newline # r"
    and t: "\<forall>c\<in>set t. ush_is_printable c \<and> uchar c \<noteq> 127" "length t < 96" and p: "prompt \<noteq> []"
  shows "\<exists>k'. read_password F prompt w = Some (w\<lparr>w_k := k', w_out := w_out w @ prompt @ [newline]\<rparr>, t, True)
    \<and> inp k' = r \<and> (\<forall>obs :: 'k \<Rightarrow> string option. keys_keep F obs \<longrightarrow> obs k' = obs (w_k w))"
proof -
  have nl: "is_eol newline" by code_simp
  have ne: "\<forall>c\<in>set t. \<not> is_eol c" using t(1) by (auto simp: is_eol_def ush_is_printable_def c_isprint_def)
  have k: "takeWhile (\<lambda>c. \<not> is_eol c) (t @ newline # r) = t" "dropWhile (\<lambda>c. \<not> is_eol c) (t @ newline # r) = newline # r"
    using ne nl by (induction t) auto
  have e: "foldl (edit_key 96) [] t = t" using edit_printable [OF t(1), of "[]" 96] t(2) by simp
  define w1 where "w1 = ush_write (Some prompt) w"
  have w1: "w_k w1 = w_k w" "w_out w1 = w_out w @ prompt" by (simp_all add: w1_def ush_write_def emit_def)
  have nx: "(\<exists>c\<in>set (t @ newline # r). is_eol c) = True" using nl by auto
  obtain k' where "read_line_loop F True 96 [] w1 = Some (w1\<lparr>w_k := k', w_out := w_out w1 @ [newline]\<rparr>, t, True)"
    "inp k' = r" "\<forall>obs :: 'k \<Rightarrow> string option. keys_keep F obs \<longrightarrow> obs k' = obs (w_k w)"
    using read_line_loop_spec [OF src, of True 96 "[]" w1] unfolding w1(1) assms(2) k e list.sel(3) nx by auto
  moreover have "w1\<lparr>w_k := k', w_out := w_out w1 @ [newline]\<rparr> = w\<lparr>w_k := k', w_out := w_out w @ prompt @ [newline]\<rparr>" for k'
    by (simp add: w1_def ush_write_def emit_def)
  moreover have "read_password F prompt w = read_line_loop F True 96 [] w1"
    using p by (simp add: read_password_def ucmd_read_secret_line_def ucmd_read_line_internal_def w1_def)
  ultimately show ?thesis by auto
qed


text \<open>A keyboard for the witnesses: its state is the input that is left.\<close>

definition demo_keys :: "string fd_calls" where
  "demo_keys = \<lparr>fd_write = (\<lambda>k fd s. (k, Some (length s))),
     fd_read1 = (\<lambda>k fd. case k of [] \<Rightarrow> ([], None) | c # cs \<Rightarrow> (cs, Some (Some c))), fd_yield = (\<lambda>k. k)\<rparr>"

lemma demo_key_source: "key_source demo_keys (\<lambda>k. k)"
  by (auto simp: key_source_def demo_keys_def split: list.splits)


section \<open>Permissions\<close>

definition admin_session :: "'k user_kernel \<Rightarrow> 'k \<Rightarrow> bool" where
  "admin_session K k \<longleftrightarrow> (case k_user_current K k of None \<Rightarrow> False
     | Some info \<Rightarrow> ui_disk_login_required info \<noteq> 0 \<and> ui_logged_in info \<noteq> 0 \<and> ui_role info = CLEONOS_USER_ROLE_ADMIN)"

lemma require_admin_spec:
  assumes "k_user_current K (w_k w) = Some info"
  obtains w' where "ucmd_require_admin cmd info w = (w', admin_session K (w_k w))" "w_k w' = w_k w"
    "admin_session K (w_k w) \<Longrightarrow> w' = w"
proof (rule that)
  show "ucmd_require_admin cmd info w = (fst (ucmd_require_admin cmd info w), admin_session K (w_k w))"
    using assms by (simp add: ucmd_require_admin_def ucmd_require_disk_accounts_def admin_session_def)
  show "w_k (fst (ucmd_require_admin cmd info w)) = w_k w"
    by (simp add: ucmd_require_admin_def ucmd_require_disk_accounts_def ush_writeln_def ush_write_def ush_write_char_def emit_def)
  show "fst (ucmd_require_admin cmd info w) = w" if "admin_session K (w_k w)"
    using assms that by (simp add: ucmd_require_admin_def ucmd_require_disk_accounts_def admin_session_def)
qed

text \<open>C13: only an administrator who is logged in can manage accounts. In any other session \<open>useradd\<close>,
  \<open>userdel\<close>, \<open>usermod\<close>, \<open>users\<close> and \<open>passwd\<close> with a name fail at once: they read no password, and the
  accounts, the database file and every other part of the system are as before.\<close>

theorem account_commands_need_admin:
  assumes "\<not> admin_session K (w_k w)"
  shows "(\<exists>w'. useradd_run K F arg w = Some (w', False) \<and> w_k w' = w_k w)
    \<and> (\<exists>w'. userdel_run K arg w = Some (w', False) \<and> w_k w' = w_k w)
    \<and> (\<exists>w'. usermod_run K arg w = Some (w', False) \<and> w_k w' = w_k w)
    \<and> (\<exists>w'. users_run K w = Some (w', False) \<and> w_k w' = w_k w)
    \<and> (\<exists>w'. passwd_run K F (Some (c # cs)) w = Some (w', False) \<and> w_k w' = w_k w)"
proof (cases "k_user_current K (w_k w)")
  case None
  then show ?thesis
    by (simp add: useradd_run_def userdel_run_def usermod_run_def users_run_def passwd_run_def ucmd_query_current_user_def)
next
  case (Some info)
  have r: "\<exists>w'. ucmd_require_admin cmd info w = (w', False) \<and> w_k w' = w_k w" for cmd
    using require_admin_spec [OF Some, of cmd] assms by metis
  obtain w1 w2 w3 w4 where "ucmd_require_admin ''useradd'' info w = (w1, False)" "w_k w1 = w_k w"
    "ucmd_require_admin ''userdel'' info w = (w2, False)" "w_k w2 = w_k w"
    "ucmd_require_admin ''usermod'' info w = (w3, False)" "w_k w3 = w_k w"
    "ucmd_require_admin ''users'' info w = (w4, False)" "w_k w4 = w_k w"
    using r by meson
  moreover have "\<exists>w'. passwd_run K F (Some (c # cs)) w = Some (w', False) \<and> w_k w' = w_k w"
    using Some assms
    by (auto simp: passwd_run_def ucmd_query_current_user_def ucmd_require_disk_accounts_def admin_session_def Let_def fail_with_def
        ush_writeln_def ush_write_def ush_write_char_def emit_def)
  ultimately show ?thesis using Some
    by (simp add: useradd_run_def userdel_run_def usermod_run_def users_run_def ucmd_query_current_user_def Let_def)
qed

lemma account_commands_need_admin_witness:
  "\<exists>w'. userdel_run demo_users (Some ''bob'') \<lparr>w_k = Some [], w_out = [], w_locale = None, w_pipe = None\<rparr> = Some (w', False)
    \<and> w_k w' = Some []"
proof -
  have "\<not> admin_session demo_users (w_k \<lparr>w_k = Some [], w_out = [], w_locale = None, w_pipe = None\<rparr>)"
    by (simp add: admin_session_def demo_users_def)
  from account_commands_need_admin [OF this] show ?thesis by simp
qed

text \<open>A name of more than 31 characters is not rejected but cut, so \<open>userdel\<close> and \<open>passwd\<close> act on
  another account: with a name whose first 31 characters are \<open>n\<close> they do what they do for \<open>n\<close>.\<close>

theorem account_names_truncated:
  assumes "length n = 31" "NUL \<notin> set n"
  shows "userdel_run K (Some (n @ x)) w = userdel_run K (Some n) w
    \<and> passwd_run K F (Some (n @ x)) w = passwd_run K F (Some n) w"
proof -
  have "ush_copy [] CLEONOS_USER_NAME_MAX (Some (n @ x)) = ush_copy [] CLEONOS_USER_NAME_MAX (Some n)"
    using assms by (simp add: ush_copy_def user_consts s_strncpy_def)
  moreover have "n \<noteq> []" "n @ x \<noteq> []" using assms(1) by auto
  ultimately show ?thesis unfolding userdel_run_def passwd_run_def by (simp only: option.inject option.distinct if_False simp_thms)
qed

lemma account_names_truncated_witness:
  "userdel_run demo_users (Some (replicate 31 CHR ''a'' @ ''-old'')) \<lparr>w_k = Some [], w_out = [], w_locale = None, w_pipe = None\<rparr> =
   userdel_run demo_users (Some (replicate 31 CHR ''a'')) \<lparr>w_k = Some [], w_out = [], w_locale = None, w_pipe = None\<rparr>"
  using account_names_truncated [of "replicate 31 CHR ''a''" demo_users "''-old''"
    "\<lparr>w_k = Some [], w_out = [], w_locale = None, w_pipe = None\<rparr>"] by simp

section \<open>Adding a user\<close>

lemma split_name:
  assumes "cleonos_user_name_valid (Some n)"
  shows "ush_split_first_and_rest (Some n) CLEONOS_USER_NAME_MAX = Some (n, [])" "ush_copy [] CLEONOS_USER_NAME_MAX (Some n) = n" "NUL \<notin> set n"
proof -
  note n = name_valid_plain [OF assms]
  have d: "skip_spaces n = n" using n(1,4) by (cases n) auto
  have w: "word_of n = n" "after_word n = []" using n(4) by (auto simp: takeWhile_eq_all_conv dropWhile_eq_Nil_conv)
  have "fill 32 0 n = n" using n(2) by (simp add: fill_take)
  then show "ush_split_first_and_rest (Some n) CLEONOS_USER_NAME_MAX = Some (n, [])"
    unfolding ush_split_first_and_rest_def option.case d Let_def w CLEONOS_USER_NAME_MAX_def using n(1) by simp
  show nul: "NUL \<notin> set n" using n(3) by blast
  have "takeWhile (\<lambda>c. c \<noteq> NUL) (n @ replicate m NUL @ [NUL]) = n" for m using nul by (cases m) (auto simp: takeWhile_append)
  moreover have "s_strncpy n 31 = n @ replicate (31 - length n) NUL" using n(2) by (simp add: s_strncpy_def)
  ultimately show "ush_copy [] CLEONOS_USER_NAME_MAX (Some n) = n" by (simp add: ush_copy_def user_consts)
qed

lemma read_new_password_typed [c_spec]:
  assumes src: "key_source F inp" and i: "inp (w_k w) = t @ newline # u @ newline # r"
    and t: "\<forall>c\<in>set t. ush_is_printable c \<and> uchar c \<noteq> 127" "length t < 96"
    and u: "\<forall>c\<in>set u. ush_is_printable c \<and> uchar c \<noteq> 127" "length u < 96" and p: "p1 \<noteq> []" "p2 \<noteq> []"
  shows "\<exists>k'. read_new_password F p1 p2 w = Some (w\<lparr>w_k := k', w_out := w_out w @ p1 @ newline # p2 @ [newline]\<rparr>, Some (t, u))
    \<and> (\<forall>obs :: 'k \<Rightarrow> string option. keys_keep F obs \<longrightarrow> obs k' = obs (w_k w))"
proof -
  obtain k1 where 1: "read_password F p1 w = Some (w\<lparr>w_k := k1, w_out := w_out w @ p1 @ [newline]\<rparr>, t, True)"
    "inp k1 = u @ newline # r" "\<forall>obs :: 'k \<Rightarrow> string option. keys_keep F obs \<longrightarrow> obs k1 = obs (w_k w)"
    using read_password_typed [OF src i t p(1)] by blast
  let ?w = "w\<lparr>w_k := k1, w_out := w_out w @ p1 @ [newline]\<rparr>"
  have "inp (w_k ?w) = u @ newline # r" using 1(2) by simp
  from read_password_typed [OF src this u p(2)]
  obtain k2 where 2: "read_password F p2 ?w = Some (?w\<lparr>w_k := k2, w_out := w_out ?w @ p2 @ [newline]\<rparr>, u, True)"
    "\<forall>obs :: 'k \<Rightarrow> string option. keys_keep F obs \<longrightarrow> obs k2 = obs k1" by auto
  have "\<forall>obs :: 'k \<Rightarrow> string option. keys_keep F obs \<longrightarrow> obs k2 = obs (w_k w)" using 1(3) 2(2) by metis
  then show ?thesis using 1(1) 2(1) by (intro exI [of _ k2] conjI) (simp_all add: read_new_password_def)
qed

text \<open>\<open>useradd\<close> end to end. An administrator gives a valid name that is free and types the same printable
  password twice. The command ends, shows the two prompts and one message, and when it reports success
  the new user can log in with that password: the password check answers the new record.\<close>

theorem useradd_then_verify:
  assumes "key_source F inp" "inp (w_k w) = pw @ newline # pw @ newline # r" "pw \<noteq> []" "length pw < 96"
    and "\<forall>c\<in>set pw. ush_is_printable c \<and> uchar c \<noteq> 127"
    and "admin_session K (w_k w)" "cleonos_user_name_valid (Some n)" "n \<noteq> ''-a''" "n \<noteq> ''--admin''"
    and "db_disk K db" "keys_keep F db" "db (w_k w) = Some s" "length s + 141 < 4096" "db_ok s"
  shows "\<exists>w' ok. useradd_run K F (Some n) w = Some (w', ok)
    \<and> w_out w' = w_out w @ ''new user password: '' @ newline # ''confirm password: '' @ newline #
        (if ok then ''useradd: user created'' else ''useradd: failed'') @ [newline]
    \<and> (ok \<longrightarrow> cleonos_user_verify_password K (w_k w') n (Some pw) = Some (new_record n pw CLEONOS_USER_ROLE_USER))"
proof -
  obtain info where u: "k_user_current K (w_k w) = Some info"
    using assms(6) by (auto simp: admin_session_def split: option.splits)
  have adm: "ucmd_require_admin ''useradd'' info w = (w, True)"
    using require_admin_spec [OF u, of "''useradd''"] assms(6) by metis
  have ne: "n \<noteq> []" using name_valid_plain(1) [OF assms(7)] .
  note sp = split_name [OF assms(7)]
  have opt: "\<not> ush_streq (Some n) (Some ''-a'')" "\<not> ush_streq (Some n) (Some ''--admin'')"
    using sp(3) assms(8,9) by (simp_all add: ush_streq_iff)
  obtain k1 where r: "read_new_password F ''new user password: '' ''confirm password: '' w =
      Some (w\<lparr>w_k := k1, w_out := w_out w @ ''new user password: '' @ newline # ''confirm password: '' @ [newline]\<rparr>, Some (pw, pw))"
    and obs: "\<forall>obs :: 'a \<Rightarrow> string option. keys_keep F obs \<longrightarrow> obs k1 = obs (w_k w)"
    using read_new_password_typed [OF assms(1,2,5,4,5,4)] by blast
  have k1: "db k1 = Some s" using obs [THEN spec [of _ db]] assms(11,12) by simp
  obtain k2 ok where c: "cleonos_user_create K n (Some pw) CLEONOS_USER_ROLE_USER False k1 = (k2, ok)" by fastforce
  have same: "ush_streq (Some pw) (Some pw)" by (simp add: ush_streq_def)
  have run: "useradd_run K F (Some n) w = Some (ush_writeln (Some (if ok then ''useradd: user created'' else ''useradd: failed''))
      (w\<lparr>w_out := w_out w @ ''new user password: '' @ newline # ''confirm password: '' @ [newline], w_k := k2\<rparr>), ok)"
    unfolding useradd_run_def ucmd_query_current_user_def u option.case Let_def adm prod.case
    using ne assms(3,7) same by (simp add: sp opt r c fail_with_def)
  have "ok \<longrightarrow> cleonos_user_verify_password K k2 n (Some pw) = Some (new_record n pw CLEONOS_USER_ROLE_USER)"
    using created_account [OF assms(10) k1 assms(13,14), of n pw CLEONOS_USER_ROLE_USER k2 pw] c by auto
  then show ?thesis unfolding run
    by (intro exI conjI) (rule refl | simp add: ush_writeln_def ush_write_def ush_write_char_def emit_def)+
qed

text \<open>A system for the witness: the state is the keys to come and the database file.\<close>

definition demo_admin :: "(string \<times> string option) user_kernel" where
  "demo_admin = \<lparr>k_fs_stat_type = (\<lambda>k. k_fs_stat_type demo_users (snd k)), k_fs_stat_size = (\<lambda>k. k_fs_stat_size demo_users (snd k)),
     k_fs_read = (\<lambda>k. k_fs_read demo_users (snd k)),
     k_fs_write = (\<lambda>k p d. apfst (Pair (fst k)) (k_fs_write demo_users (snd k) p d)),
     k_fd_read = (\<lambda>k fd n. (k, None)), k_locale_get = (\<lambda>k n. []),
     k_disk_present = (\<lambda>k. 0), k_disk_sector_count = (\<lambda>k. 0),
     k_disk_read_sector = (\<lambda>k n. None), k_disk_write_sector = (\<lambda>k n d. (k, 0)),
     k_fs_append = (\<lambda>k p d. apfst (Pair (fst k)) (k_fs_append demo_users (snd k) p d)),
     k_fs_mkdir = (\<lambda>k p. (k, 1)), k_fs_remove = (\<lambda>k p. (k, 1)), k_user_add = (\<lambda>k n p r. (k, 0)),
     k_user_passwd = (\<lambda>k n p q. (k, 0)), k_user_set_role = (\<lambda>k n r. (k, 0)), k_user_remove = (\<lambda>k n. (k, 0)),
     k_user_count = (\<lambda>k. 0), k_user_at = (\<lambda>k i. None),
     k_user_current = (\<lambda>k. Some \<lparr>ui_uid = 0, ui_role = 1, ui_logged_in = 1, ui_disk_login_required = 1, ui_name = ''root'', ui_home = ''/root''\<rparr>),
     k_user_logout = (\<lambda>k. k),
     k_user_is_admin = (\<lambda>k. 1), k_disk_mounted = (\<lambda>k. 1), k_disk_mount_path = (\<lambda>k n. Some ''/'')\<rparr>"

definition demo_admin_keys :: "(string \<times> string option) fd_calls" where
  "demo_admin_keys = \<lparr>fd_write = (\<lambda>k fd s. (k, Some (length s))),
     fd_read1 = (\<lambda>k fd. case fst k of [] \<Rightarrow> (k, None) | c # cs \<Rightarrow> ((cs, snd k), Some (Some c))), fd_yield = (\<lambda>k. k)\<rparr>"

lemma demo_admin_disk: "db_disk demo_admin (\<lambda>k. demo_db (snd k))"
  unfolding db_disk_def
  by (auto simp: demo_admin_def demo_users_def demo_store_def demo_db_def U64_MAX_def split: option.splits)

lemma demo_admin_source: "key_source demo_admin_keys fst" "keys_keep demo_admin_keys (\<lambda>k. demo_db (snd k))"
  by (auto simp: key_source_def keys_keep_def demo_admin_keys_def split: list.splits)

lemma useradd_then_verify_witness:
  "\<exists>w' ok. useradd_run demo_admin demo_admin_keys (Some ''bob'')
      \<lparr>w_k = (''pw'' @ newline # ''pw'' @ [newline], Some []), w_out = [], w_locale = None, w_pipe = None\<rparr> = Some (w', ok)
    \<and> (ok \<longrightarrow> cleonos_user_verify_password demo_admin (w_k w') ''bob'' (Some ''pw'') = Some (new_record ''bob'' ''pw'' 0))"
proof -
  define w :: "(string \<times> string option) world" where
    "w = \<lparr>w_k = (''pw'' @ newline # ''pw'' @ [newline], Some []), w_out = [], w_locale = None, w_pipe = None\<rparr>"
  have p: "\<forall>c\<in>set ''pw''. ush_is_printable c \<and> uchar c \<noteq> 127" by code_simp
  have k: "fst (w_k w) = ''pw'' @ newline # ''pw'' @ newline # []" "demo_db (snd (w_k w)) = Some []"
    by (simp_all add: w_def demo_db_def)
  have a: "admin_session demo_admin (w_k w)" by (simp add: admin_session_def demo_admin_def CLEONOS_USER_ROLE_ADMIN_def)
  have o: "db_ok []" by (simp add: db_ok_def db_records_def)
  show ?thesis
    using useradd_then_verify [where w = w and pw = "''pw''" and r = "[]" and n = "''bob''" and s = "[]" and db = "\<lambda>k. demo_db (snd k)",
        OF demo_admin_source(1) k(1) _ _ p a demo_valid(1) _ _ demo_admin_disk demo_admin_source(2) k(2) _ o]
    unfolding w_def [symmetric] by (auto simp: CLEONOS_USER_ROLE_USER_def)
qed

end
