(* ===== verification/BrowserHttp.thy ===== *)
theory BrowserHttp
  imports UshText
begin

text \<open>
  The HTTP response parser of the browser (\<open>apps/browser/browser_http.c\<close>, with the two text helpers it
  uses from \<open>browser_text.c\<close>): the end of the headers, the header fields, the status code, and the chunked
  transfer coding, both the test whether a body is complete and the decoder. Offsets are \<open>u64\<close>; where the
  code can wrap around, the model does. Reading a byte outside the received ones is the outcome
  \<open>Out_of_bounds\<close>.
\<close>

section \<open>Definitions\<close>

abbreviation CR :: char where "CR \<equiv> CHR 0x0D"
abbreviation LF :: char where "LF \<equiv> CHR 0x0A"
abbreviation TAB :: char where "TAB \<equiv> CHR 0x09"

definition ush_browser_ascii_tolower :: "char \<Rightarrow> char" where
  "ush_browser_ascii_tolower ch = (if 65 \<le> schar ch \<and> schar ch \<le> 90 then to_char (schar ch - 65 + 97) else ch)"

text \<open>The inner loop compares \<open>token\<close> with the text at one place, the outer one tries every place.\<close>

fun match_icase :: "string \<Rightarrow> string \<Rightarrow> bool" where
  "match_icase line [] = True"
| "match_icase [] (c # cs) = False"
| "match_icase (d # ds) (c # cs) =
     (if ush_browser_ascii_tolower d \<noteq> ush_browser_ascii_tolower c then False else match_icase ds cs)"

definition ush_browser_line_has_token_icase :: "string \<Rightarrow> string \<Rightarrow> bool" where
  "ush_browser_line_has_token_icase line token =
     (if token = [] \<or> length line < length token then False
      else list_ex (\<lambda>i. match_icase (drop i line) token) [0..<length line + 1 - length token])"

definition ush_browser_header_name_match_icase :: "string \<Rightarrow> string \<Rightarrow> bool" where
  "ush_browser_header_name_match_icase line name =
     (if \<not> match_icase line name then False
      else \<not> (length line \<le> length name \<or> line ! length name \<noteq> CHR '':''))"

abbreviation skip_blanks :: "string \<Rightarrow> string" where
  "skip_blanks \<equiv> dropWhile (\<lambda>c. c = CHR '' '' \<or> c = TAB)"

text \<open>The digit loop; \<open>None\<close> is the return on overflow. The overflow test only compares with the
  previous value.\<close>

fun content_digits :: "u64 \<Rightarrow> bool \<Rightarrow> string \<Rightarrow> (u64 \<times> bool) option" where
  "content_digits acc has_digit [] = Some (acc, has_digit)"
| "content_digits acc has_digit (c # cs) =
     (if 48 \<le> schar c \<and> schar c \<le> 57
      then (let n = acc * 10 + of_int (schar c - 48) in if n < acc then None else content_digits n True cs)
      else Some (acc, has_digit))"

definition ush_browser_parse_content_length :: "string \<Rightarrow> u64 option" where
  "ush_browser_parse_content_length v =
     (case content_digits 0 False (skip_blanks v) of
        None \<Rightarrow> None
      | Some (acc, has_digit) \<Rightarrow> if \<not> has_digit then None else Some acc)"

abbreviation is_digit :: "char \<Rightarrow> bool" where
  "is_digit c \<equiv> 48 \<le> schar c \<and> schar c \<le> 57"

definition ush_browser_http_status_code :: "string \<Rightarrow> int" where
  "ush_browser_http_status_code raw =
     (if length raw < 12 then 0
      else if take 4 raw \<noteq> ''HTTP'' then 0
      else (let r = dropWhile (\<lambda>c. c = CHR '' '') (dropWhile (\<lambda>c. c \<noteq> CHR '' '' \<and> c \<noteq> CR \<and> c \<noteq> LF) raw) in
        if length r \<le> 2 \<or> \<not> is_digit (r ! 0) \<or> \<not> is_digit (r ! 1) \<or> \<not> is_digit (r ! 2) then 0
        else (schar (r ! 0) - 48) * 100 + (schar (r ! 1) - 48) * 10 + (schar (r ! 2) - 48)))"

text \<open>The end of the headers: behind the first empty line.\<close>

function header_end_loop :: "string \<Rightarrow> nat \<Rightarrow> nat option" where
  "header_end_loop raw i =
     (if i + 3 < length raw
      then (if raw ! i = CR \<and> raw ! (i + 1) = LF \<and> raw ! (i + 2) = CR \<and> raw ! (i + 3) = LF then Some (i + 4)
            else header_end_loop raw (i + 1))
      else None)"
  by pat_completeness auto
termination by (relation "measure (\<lambda>(raw, i). length raw - i)") auto

definition ush_browser_find_http_header_end :: "string \<Rightarrow> nat option" where
  "ush_browser_find_http_header_end raw = header_end_loop raw 0"

text \<open>\<open>while (off + 1 < n && !(raw[off] == '\r' && raw[off + 1] == '\n')) off++;\<close>\<close>

function crlf_from :: "string \<Rightarrow> nat \<Rightarrow> nat \<Rightarrow> nat" where
  "crlf_from raw n off =
     (if off + 1 < n \<and> \<not> (raw ! off = CR \<and> raw ! (off + 1) = LF) then crlf_from raw n (off + 1) else off)"
  by pat_completeness auto
termination by (relation "measure (\<lambda>(raw, n, off). n - off)") auto

declare header_end_loop.simps [simp del] crlf_from.simps [simp del]

lemma crlf_from_ge: "off \<le> crlf_from raw n off"
  by (induction raw n off rule: crlf_from.induct) (subst crlf_from.simps, auto)

text \<open>The lines of the headers, as the loops over them see them.\<close>

function header_lines :: "string \<Rightarrow> nat \<Rightarrow> nat \<Rightarrow> string list" where
  "header_lines raw header_end off =
     (if off + 1 < header_end
      then (let line_start = off; off = crlf_from raw header_end off in
        if header_end \<le> off + 1 then []
        else take (off - line_start) (drop line_start raw) # header_lines raw header_end (off + 2))
      else [])"
  by pat_completeness auto
termination
proof (relation "measure (\<lambda>(raw, h, off). h - off)", simp)
  fix raw and h off line_start off' :: nat assume "off + 1 < h" "line_start = off" "off' = crlf_from raw h off"
  then show "((raw, h, off' + 2), raw, h, off) \<in> measure (\<lambda>(raw, h, off). h - off)"
    using crlf_from_ge [of off raw h] by simp
qed

declare header_lines.simps [simp del]

text \<open>The value of a header line, without the blanks around it.\<close>

definition trim_value :: "string \<Rightarrow> string" where
  "trim_value v = (let v = skip_blanks v in rev (skip_blanks (rev v)))"

fun header_value :: "string list \<Rightarrow> string \<Rightarrow> nat \<Rightarrow> string option" where
  "header_value [] name out_cap = None"
| "header_value (line # lines) name out_cap =
     (if line = [] then header_value lines name out_cap
      else if ush_browser_header_name_match_icase line name
      then (let v = trim_value (drop (length name + 1) line);
                v = (if out_cap < length v + 1 then take (out_cap - 1) v else v)
            in if 0 < length v then Some v else None)
      else header_value lines name out_cap)"

definition ush_browser_copy_http_header_value :: "string \<Rightarrow> string \<Rightarrow> nat \<Rightarrow> string option" where
  "ush_browser_copy_http_header_value raw name out_cap =
     (if out_cap = 0 then None
      else (case header_end_loop raw 0 of
          None \<Rightarrow> None
        | Some header_end \<Rightarrow> header_value (header_lines raw header_end 0) name out_cap))"

record http_info =
  hi_body_off :: nat
  hi_chunked :: bool
  hi_content_len :: u64
  hi_has_content_len :: bool
  hi_compressed :: bool

definition header_field :: "string \<Rightarrow> http_info \<Rightarrow> http_info" where
  "header_field line info =
     (if line = [] then info
      else if ush_browser_header_name_match_icase line ''Transfer-Encoding''
      then (if ush_browser_line_has_token_icase (skip_blanks (drop 18 line)) ''chunked'' then info\<lparr>hi_chunked := True\<rparr> else info)
      else if ush_browser_header_name_match_icase line ''Content-Encoding''
      then (let v = skip_blanks (drop 17 line) in
            if ush_browser_line_has_token_icase v ''gzip'' \<or> ush_browser_line_has_token_icase v ''deflate''
               \<or> ush_browser_line_has_token_icase v ''br''
            then info\<lparr>hi_compressed := True\<rparr> else info)
      else if ush_browser_header_name_match_icase line ''Content-Length''
      then (case ush_browser_parse_content_length (skip_blanks (drop 15 line)) of
              None \<Rightarrow> info
            | Some n \<Rightarrow> info\<lparr>hi_content_len := n, hi_has_content_len := True\<rparr>)
      else info)"

definition ush_browser_parse_http_headers :: "string \<Rightarrow> http_info option" where
  "ush_browser_parse_http_headers raw =
     (case header_end_loop raw 0 of
        None \<Rightarrow> None
      | Some header_end \<Rightarrow>
          Some ((fold header_field (header_lines raw header_end 0)
            \<lparr>hi_body_off = 0, hi_chunked = False, hi_content_len = 0, hi_has_content_len = False, hi_compressed = False\<rparr>)
            \<lparr>hi_body_off := header_end\<rparr>))"

section \<open>The chunked coding\<close>

definition hex_value :: "char \<Rightarrow> nat option" where
  "hex_value ch =
     (if 48 \<le> schar ch \<and> schar ch \<le> 57 then Some (nat (schar ch - 48))
      else if 97 \<le> schar ch \<and> schar ch \<le> 102 then Some (nat (schar ch - 97) + 10)
      else if 65 \<le> schar ch \<and> schar ch \<le> 70 then Some (nat (schar ch - 65) + 10)
      else None)"

text \<open>The size line: size, whether a digit was seen, and whether the loop met a bad character or a size
  that does not fit (invalid for the completeness test, the end of the loop for the decoder).\<close>

fun chunk_size_loop :: "string \<Rightarrow> nat \<Rightarrow> bool \<Rightarrow> nat \<times> bool \<times> bool" where
  "chunk_size_loop [] chunk_size has_digit = (chunk_size, has_digit, False)"
| "chunk_size_loop (ch # cs) chunk_size has_digit =
     (if ch = CHR '';'' then (chunk_size, has_digit, False)
      else if ch = CHR '' '' \<or> ch = TAB
      then (if has_digit then (chunk_size, has_digit, False) else chunk_size_loop cs chunk_size has_digit)
      else (case hex_value ch of
          None \<Rightarrow> (chunk_size, has_digit, True)
        | Some v \<Rightarrow>
            if 0xFFFFFFFFFFFFFFFF div 16 < chunk_size then (chunk_size, has_digit, True)
            else chunk_size_loop cs (chunk_size * 16 + v) True))"

datatype chunk_outcome = Complete | Incomplete | Invalid | Out_of_bounds

text \<open>The trailer lines behind the last chunk.\<close>

function trailer_loop :: "string \<Rightarrow> nat \<Rightarrow> chunk_outcome" where
  "trailer_loop body in_off =
     (let line_end = crlf_from body (length body) in_off in
      if length body \<le> line_end + 1 then Incomplete
      else if line_end = in_off then Complete
      else trailer_loop body (line_end + 2))"
  by pat_completeness auto
termination
proof (relation "measure (\<lambda>(body, off). length body - off)", simp)
  fix body in_off line_end assume "line_end = crlf_from body (length body) in_off" "\<not> length body \<le> line_end + 1"
  then show "((body, line_end + 2), body, in_off) \<in> measure (\<lambda>(body, off). length body - off)"
    using crlf_from_ge [of in_off body "length body"] by simp
qed

declare trailer_loop.simps [simp del]

text \<open>Whether \<open>body[p]\<close> and \<open>body[p + 1]\<close> are a line end; \<open>None\<close> when a byte outside the body is read.\<close>

definition crlf_at :: "string \<Rightarrow> nat \<Rightarrow> bool option" where
  "crlf_at body p =
     (if length body \<le> p then None
      else if body ! p \<noteq> CR then Some False
      else if length body \<le> add64 p 1 then None
      else Some (body ! add64 p 1 = LF))"

partial_function (option) chunked_loop :: "string \<Rightarrow> nat \<Rightarrow> chunk_outcome option" where
  "chunked_loop body in_off =
     (if in_off < length body
      then (let line_end = crlf_from body (length body) in_off in
        if length body \<le> line_end + 1 then Some Incomplete
        else (case chunk_size_loop (take (line_end - in_off) (drop in_off body)) 0 False of
          (chunk_size, has_digit, bad) \<Rightarrow>
            if bad \<or> \<not> has_digit then Some Invalid
            else (let in_off = line_end + 2 in
              if chunk_size = 0 then Some (trailer_loop body in_off)
              else if length body < add64 (add64 in_off chunk_size) 2 then Some Incomplete
              else (case crlf_at body (add64 in_off chunk_size) of
                  None \<Rightarrow> Some Out_of_bounds
                | Some crlf \<Rightarrow>
                    if \<not> crlf then Some Invalid else chunked_loop body (add64 in_off (add64 chunk_size 2))))))
      else Some Incomplete)"

definition ush_browser_is_chunked_body_complete :: "string \<Rightarrow> chunk_outcome option" where
  "ush_browser_is_chunked_body_complete body = chunked_loop body 0"

text \<open>The decoder stops at the first thing it does not understand and keeps what it has.\<close>

function decode_loop :: "string \<Rightarrow> nat \<Rightarrow> nat \<Rightarrow> string \<Rightarrow> string" where
  "decode_loop body out_cap in_off out =
     (if in_off < length body
      then (let line_end = crlf_from body (length body) in_off in
        if length body \<le> line_end + 1 then out
        else (case chunk_size_loop (take (line_end - in_off) (drop in_off body)) 0 False of
          (chunk_size, has_digit, bad) \<Rightarrow>
            if \<not> has_digit then out
            else (let in_off' = line_end + 2 in
              if chunk_size = 0 \<or> length body \<le> in_off' then out
              else (let chunk_size = (if length body - in_off' < chunk_size then length body - in_off' else chunk_size);
                        chunk_size = (if out_cap < length out + chunk_size + 1 then out_cap - 1 - length out else chunk_size) in
                if chunk_size = 0 then out
                else (let out = out @ take chunk_size (drop in_off' body); in_off' = in_off' + chunk_size in
                  if length body \<le> in_off' + 1 \<or> body ! in_off' \<noteq> CR \<or> body ! (in_off' + 1) \<noteq> LF then out
                  else decode_loop body out_cap (in_off' + 2) out)))))
      else out)"
  by pat_completeness auto
termination
proof (relation "measure (\<lambda>(body, cap, off, out). length body - off)", simp)
  fix body :: string and out_cap in_off :: nat and out :: string and line_end p chunk_size y has_digit bad off' n n' out' off''
  assume "in_off < length body" "line_end = crlf_from body (length body) in_off" "off' = line_end + 2" "off'' = off' + n'"
  then show "((body, out_cap, off'' + 2, out'), body, out_cap, in_off, out) \<in> measure (\<lambda>(body, cap, off, out). length body - off)"
    using crlf_from_ge [of in_off body "length body"] by simp
qed

declare decode_loop.simps [simp del]

definition ush_browser_decode_chunked_body :: "string \<Rightarrow> nat \<Rightarrow> string option" where
  "ush_browser_decode_chunked_body body out_cap =
     (if out_cap = 0 then None
      else (let out = decode_loop body out_cap 0 [] in if out = [] then None else Some out))"

section \<open>Lines\<close>

abbreviation CRLF :: string where "CRLF \<equiv> [CR, LF]"

lemma crlf_from_found:
  "off \<le> e \<Longrightarrow> e + 1 < n \<Longrightarrow> raw ! e = CR \<Longrightarrow> raw ! (e + 1) = LF \<Longrightarrow>
   \<forall>j. off \<le> j \<and> j < e \<longrightarrow> \<not> (raw ! j = CR \<and> raw ! (j + 1) = LF) \<Longrightarrow> crlf_from raw n off = e"
proof (induction raw n off rule: crlf_from.induct)
  case (1 raw n off)
  show ?case
  proof (cases "off = e")
    case True
    then show ?thesis using 1 by (subst crlf_from.simps) simp
  next
    case False
    then have "off < e" "\<not> (raw ! off = CR \<and> raw ! (off + 1) = LF)" using 1 by auto
    then show ?thesis using 1 by (subst crlf_from.simps) auto
  qed
qed

lemma crlf_from_none:
  "\<forall>j. off \<le> j \<and> j + 1 < n \<longrightarrow> \<not> (raw ! j = CR \<and> raw ! (j + 1) = LF) \<Longrightarrow> n \<le> crlf_from raw n off + 1"
proof (induction raw n off rule: crlf_from.induct)
  case (1 raw n off)
  show ?case
  proof (cases "off + 1 < n")
    case True
    then have "\<not> (raw ! off = CR \<and> raw ! (off + 1) = LF)" using 1(2) by simp
    then show ?thesis using 1(1) [of ] 1(2) True by (subst crlf_from.simps) simp
  next
    case False
    then show ?thesis by (subst crlf_from.simps) simp
  qed
qed

lemma crlf_from_line:
  assumes "CR \<notin> set l" "length pre + length l + 1 < n"
  shows "crlf_from (pre @ l @ CR # LF # post) n (length pre) = length pre + length l"
proof (rule crlf_from_found)
  show "\<forall>j. length pre \<le> j \<and> j < length pre + length l \<longrightarrow>
      \<not> ((pre @ l @ CR # LF # post) ! j = CR \<and> (pre @ l @ CR # LF # post) ! (j + 1) = LF)"
  proof (intro allI impI)
    fix j assume j: "length pre \<le> j \<and> j < length pre + length l"
    then have "(pre @ l @ CR # LF # post) ! j = l ! (j - length pre)" "j - length pre < length l"
      by (auto simp: nth_append)
    then show "\<not> ((pre @ l @ CR # LF # post) ! j = CR \<and> (pre @ l @ CR # LF # post) ! (j + 1) = LF)"
      using assms(1) by (metis nth_mem)
  qed
qed (use assms in \<open>auto simp: nth_append\<close>)

text \<open>A line that has not arrived completely.\<close>

lemma crlf_from_partial:
  assumes "CR \<notin> set l" "k < length l + 2"
  shows "length (pre @ take k (l @ CRLF)) \<le> crlf_from (pre @ take k (l @ CRLF)) (length (pre @ take k (l @ CRLF))) (length pre) + 1"
proof (rule crlf_from_none, intro allI impI)
  fix j let ?raw = "pre @ take k (l @ CRLF)"
  assume j: "length pre \<le> j \<and> j + 1 < length ?raw"
  then obtain i where i: "j = length pre + i" "i + 1 < k" "i < length l" using assms(2) by (auto simp: nat_le_iff_add)
  then have "?raw ! j = l ! i" by (simp add: nth_append)
  then show "\<not> (?raw ! j = CR \<and> ?raw ! (j + 1) = LF)" using assms(1) i by (metis nth_mem)
qed

section \<open>The chunked coding: reference\<close>

text \<open>A chunk is the text of its size, an extension, and its data.\<close>

type_synonym chunk = "string \<times> string \<times> string"

definition hex_val :: "string \<Rightarrow> nat" where
  "hex_val h = foldl (\<lambda>a c. a * 16 + the (hex_value c)) 0 h"

definition size_ok :: "string \<Rightarrow> string \<Rightarrow> nat \<Rightarrow> bool" where
  "size_ok h e n \<longleftrightarrow> h \<noteq> [] \<and> (\<forall>c\<in>set h. hex_value c \<noteq> None) \<and> hex_val h = n \<and> n < 2 ^ 64
     \<and> (e = [] \<or> hd e \<in> {CHR '';'', CHR '' '', TAB}) \<and> CR \<notin> set e"

definition chunk_ok :: "chunk \<Rightarrow> bool" where
  "chunk_ok c = (case c of (h, e, d) \<Rightarrow> d \<noteq> [] \<and> size_ok h e (length d))"

definition chunk_text :: "chunk \<Rightarrow> string" where
  "chunk_text c = (case c of (h, e, d) \<Rightarrow> h @ e @ CRLF @ d @ CRLF)"

definition chunk_data :: "chunk \<Rightarrow> string" where
  "chunk_data c = (case c of (h, e, d) \<Rightarrow> d)"

definition lines_text :: "string list \<Rightarrow> string" where
  "lines_text ls = concat (map (\<lambda>l. l @ CRLF) ls)"

definition body_text :: "chunk list \<Rightarrow> string \<times> string \<Rightarrow> string list \<Rightarrow> string" where
  "body_text cs z trailers = concat (map chunk_text cs) @ fst z @ snd z @ CRLF @ lines_text trailers @ CRLF"

definition body_ok :: "chunk list \<Rightarrow> string \<times> string \<Rightarrow> string list \<Rightarrow> bool" where
  "body_ok cs z trailers \<longleftrightarrow> (\<forall>c\<in>set cs. chunk_ok c) \<and> size_ok (fst z) (snd z) 0 \<and> (\<forall>l\<in>set trailers. l \<noteq> [] \<and> CR \<notin> set l)"

lemma hex_value_plain: "hex_value c \<noteq> None \<Longrightarrow> c \<noteq> CHR '';'' \<and> c \<noteq> CHR '' '' \<and> c \<noteq> TAB \<and> c \<noteq> CR"
proof -
  have "hex_value (CHR '';'') = None" "hex_value (CHR '' '') = None" "hex_value TAB = None" "hex_value CR = None" by code_simp+
  then show "hex_value c \<noteq> None \<Longrightarrow> ?thesis" by auto
qed

lemma hex_fold_ge: "(a :: nat) \<le> foldl (\<lambda>a c. a * 16 + the (hex_value c)) a h"
proof (induction h arbitrary: a)
  case (Cons c h)
  have "a \<le> a * 16 + the (hex_value c)" by simp
  then show ?case using Cons [of "a * 16 + the (hex_value c)"] by simp
qed simp

lemma chunk_size_digits:
  assumes "\<forall>c\<in>set h. hex_value c \<noteq> None" "foldl (\<lambda>a c. a * 16 + the (hex_value c)) a h < 2 ^ 64"
  shows "chunk_size_loop (h @ e) a d = chunk_size_loop e (foldl (\<lambda>a c. a * 16 + the (hex_value c)) a h) (d \<or> h \<noteq> [])"
  using assms
proof (induction h arbitrary: a d)
  case (Cons c h)
  then obtain v where v: "hex_value c = Some v" by auto
  have "a * 16 + v < 2 ^ 64" using hex_fold_ge [of "a * 16 + v" h] Cons.prems(2) v by simp
  then have "\<not> 0xFFFFFFFFFFFFFFFF div 16 < a" by simp
  then show ?case using Cons v hex_value_plain [of c] by simp
qed simp

lemma chunk_size_text [c_spec]:
  assumes "size_ok h e n" shows "chunk_size_loop (h @ e) 0 False = (n, True, False)"
proof -
  have "chunk_size_loop e n True = (n, True, False)" using assms by (cases e) (auto simp: size_ok_def)
  then show ?thesis using assms chunk_size_digits [of h 0 e False] by (simp add: size_ok_def hex_val_def)
qed

lemma size_line_plain: "size_ok h e n \<Longrightarrow> CR \<notin> set (h @ e)"
proof -
  have "hex_value CR = None" by code_simp
  then show "size_ok h e n \<Longrightarrow> ?thesis" by (auto simp: size_ok_def)
qed

section \<open>The completeness test\<close>

lemma trailer_loop_done:
  "\<forall>l\<in>set ls. l \<noteq> [] \<and> CR \<notin> set l \<Longrightarrow> trailer_loop (pre @ lines_text ls @ CRLF) (length pre) = Complete"
proof (induction ls arbitrary: pre)
  case Nil
  have "crlf_from (pre @ [] @ CR # LF # []) (length (pre @ CRLF)) (length pre) = length pre + length ([] :: string)"
    by (rule crlf_from_line) simp_all
  then show ?case by (subst trailer_loop.simps) (simp add: lines_text_def Let_def)
next
  case (Cons l ls)
  let ?body = "pre @ l @ CR # LF # lines_text ls @ CRLF"
  have e: "crlf_from ?body (length ?body) (length pre) = length pre + length l"
    by (rule crlf_from_line) (use Cons.prems in auto)
  have b: "?body = (pre @ l @ CRLF) @ lines_text ls @ CRLF" by simp
  have "trailer_loop ?body (length pre + length l + 2) = Complete"
    using Cons.IH [of "pre @ l @ CRLF"] Cons.prems unfolding b by simp
  then have "trailer_loop ?body (length pre) = Complete" using e Cons.prems
    by (subst trailer_loop.simps) (simp add: Let_def)
  then show ?case by (simp add: lines_text_def)
qed

lemma chunked_loop_step:
  assumes "chunk_ok (h, e, d)" "length pre + length (chunk_text (h, e, d)) + length post < 2 ^ 64"
  shows "chunked_loop (pre @ chunk_text (h, e, d) @ post) (length pre) =
    chunked_loop (pre @ chunk_text (h, e, d) @ post) (length (pre @ chunk_text (h, e, d)))"
proof -
  have s: "size_ok h e (length d)" "d \<noteq> []" using assms(1) by (simp_all add: chunk_ok_def)
  define body where "body = pre @ (h @ e) @ CR # LF # (d @ CRLF @ post)"
  have b: "pre @ chunk_text (h, e, d) @ post = body" by (simp add: body_def chunk_text_def)
  define q where "q = length pre + length (h @ e)"
  have lb: "length body = q + 4 + length d + length post" by (simp add: body_def q_def)
  have bound: "q + 4 + length d + length post < 2 ^ 64" using assms(2) by (simp add: chunk_text_def q_def)
  have c: "crlf_from body (length body) (length pre) = q"
    unfolding body_def q_def by (rule crlf_from_line [OF size_line_plain [OF s(1)]]) simp
  have t: "take (q - length pre) (drop (length pre) body) = h @ e" by (simp add: body_def q_def)
  have lt: "length pre < length body" by (simp add: body_def)
  let ?p = "q + 2"
  have a: "add64 ?p (length d) = ?p + length d" "add64 (?p + length d) 2 = ?p + length d + 2"
    "add64 (?p + length d) 1 = ?p + length d + 1" "add64 (length d) 2 = length d + 2" "add64 ?p (length d + 2) = ?p + length d + 2"
    using bound by (simp_all add: add64_small)
  have n: "body ! (?p + length d) = CR" "body ! (?p + length d + 1) = LF" by (simp_all add: body_def nth_append q_def)
  have "crlf_at body (?p + length d) = Some True" unfolding crlf_at_def a(3) using n lb by simp
  then have "chunked_loop body (length pre) = chunked_loop body (?p + length d + 2)"
    using c t chunk_size_text [OF s(1)] s(2) lb a lt
    by (subst chunked_loop.simps) (simp add: Let_def)
  then show ?thesis unfolding b by (simp add: chunk_text_def q_def add_ac)
qed

lemma chunked_loop_complete:
  assumes "body_ok cs z trailers" "length (pre @ body_text cs z trailers) < 2 ^ 64"
  shows "chunked_loop (pre @ body_text cs z trailers) (length pre) = Some Complete"
  using assms
proof (induction cs arbitrary: pre)
  case Nil
  obtain h e where z: "z = (h, e)" by fastforce
  have s: "size_ok h e 0" using Nil(1) z by (simp add: body_ok_def)
  define body where "body = pre @ (h @ e) @ CR # LF # (lines_text trailers @ CRLF)"
  have c: "crlf_from body (length body) (length pre) = length pre + length (h @ e)"
    unfolding body_def by (rule crlf_from_line [OF size_line_plain [OF s]]) simp
  have t: "take (length (h @ e)) (drop (length pre) body) = h @ e" by (simp add: body_def)
  have "trailer_loop ((pre @ h @ e @ CRLF) @ lines_text trailers @ CRLF) (length (pre @ h @ e @ CRLF)) = Complete"
    by (rule trailer_loop_done) (use Nil(1) in \<open>simp add: body_ok_def\<close>)
  then have "trailer_loop body (length pre + length (h @ e) + 2) = Complete" by (simp add: body_def add.assoc)
  moreover have "length pre < length body" "length pre + length (h @ e) + 1 < length body" by (simp_all add: body_def)
  ultimately have "chunked_loop body (length pre) = Some Complete"
    using c t chunk_size_text [OF s] by (subst chunked_loop.simps) (simp add: Let_def)
  then show ?case by (simp add: body_text_def z body_def)
next
  case (Cons c cs)
  obtain h e d where c: "c = (h, e, d)" using prod_cases3 by blast
  have b: "pre @ body_text (c # cs) z trailers = pre @ chunk_text c @ body_text cs z trailers" by (simp add: body_text_def)
  have ok: "chunk_ok c" "body_ok cs z trailers" using Cons.prems(1) by (simp_all add: body_ok_def)
  have l: "length pre + length (chunk_text c) + length (body_text cs z trailers) < 2 ^ 64" using Cons.prems(2) unfolding b by simp
  have "chunked_loop ((pre @ chunk_text c) @ body_text cs z trailers) (length (pre @ chunk_text c)) = Some Complete"
    by (rule Cons.IH [OF ok(2)]) (use l in simp)
  then show ?case unfolding b using chunked_loop_step [of h e d pre "body_text cs z trailers"] ok(1) l unfolding c by simp
qed

section \<open>Incomplete bodies\<close>

lemma take_line: "k < length l + 2 \<Longrightarrow> take k (l @ CR # LF # r) = take k (l @ CRLF)"
  by (simp add: take_Cons')

lemma trailer_loop_partial:
  "\<forall>l\<in>set ls. l \<noteq> [] \<and> CR \<notin> set l \<Longrightarrow> k < length (lines_text ls @ CRLF) \<Longrightarrow>
   trailer_loop (pre @ take k (lines_text ls @ CRLF)) (length pre) = Incomplete"
proof (induction ls arbitrary: pre k)
  case Nil
  then show ?case using crlf_from_partial [of "[]" k pre]
    by (subst trailer_loop.simps) (simp add: lines_text_def Let_def)
next
  case (Cons l ls)
  show ?case
  proof (cases "k < length l + 2")
    case True
    then have t: "take k (lines_text (l # ls) @ CRLF) = take k (l @ CRLF)" using take_line [OF True] by (simp add: lines_text_def)
    show ?thesis unfolding t using crlf_from_partial [of l k pre] Cons.prems True
      by (subst trailer_loop.simps) (simp add: Let_def)
  next
    case False
    then obtain j where k: "k = length l + 2 + j" by (metis le_Suc_ex not_less)
    have t: "take k (lines_text (l # ls) @ CRLF) = l @ CR # LF # take j (lines_text ls @ CRLF)"
      by (simp add: lines_text_def k take_append)
    let ?body = "pre @ l @ CR # LF # take j (lines_text ls @ CRLF)"
    have e: "crlf_from ?body (length ?body) (length pre) = length pre + length l"
      by (rule crlf_from_line) (use Cons.prems in auto)
    have b: "?body = (pre @ l @ CRLF) @ take j (lines_text ls @ CRLF)" by simp
    have "trailer_loop ?body (length pre + length l + 2) = Incomplete"
      using Cons.IH [of j "pre @ l @ CRLF"] Cons.prems k unfolding b by (simp add: lines_text_def)
    then show ?thesis unfolding t using e Cons.prems by (subst trailer_loop.simps) (simp add: Let_def)
  qed
qed

text \<open>The size line of the next chunk is there, but not all of what it announces.\<close>

lemma chunked_loop_wait:
  assumes s: "size_ok h e n" "0 < n" and r: "length r < n + 2" "length pre + length h + length e + n + 4 < 2 ^ 64"
  shows "chunked_loop (pre @ (h @ e) @ CR # LF # r) (length pre) = Some Incomplete"
proof -
  let ?body = "pre @ (h @ e) @ CR # LF # r"
  have c: "crlf_from ?body (length ?body) (length pre) = length pre + length (h @ e)"
    by (rule crlf_from_line [OF size_line_plain [OF s(1)]]) simp
  have t: "take (length (h @ e)) (drop (length pre) ?body) = h @ e" by simp
  have "add64 (add64 (length pre + length h + length e + 2) n) 2 = length pre + length h + length e + 2 + n + 2"
    using r(2) by (simp add: add64_small)
  then show ?thesis using c t chunk_size_text [OF s(1)] s(2) r(1)
    by (subst chunked_loop.simps) (simp add: Let_def add_ac)
qed

lemma chunked_loop_no_line:
  "length body \<le> crlf_from body (length body) off + 1 \<Longrightarrow> chunked_loop body off = Some Incomplete"
  by (subst chunked_loop.simps) (simp add: Let_def)

lemma chunked_loop_line_partial:
  assumes "size_ok h e n" "k < length h + length e + 2"
  shows "chunked_loop (pre @ take k ((h @ e) @ CRLF)) (length pre) = Some Incomplete"
  by (rule chunked_loop_no_line, rule crlf_from_partial) (use size_line_plain [OF assms(1)] assms(2) in simp_all)

lemma chunked_loop_partial:
  assumes "body_ok cs z trailers" "length (pre @ body_text cs z trailers) < 2 ^ 64" "k < length (body_text cs z trailers)"
  shows "chunked_loop (pre @ take k (body_text cs z trailers)) (length pre) = Some Incomplete"
  using assms
proof (induction cs arbitrary: pre k)
  case Nil
  obtain h e where z: "z = (h, e)" by fastforce
  have s: "size_ok h e 0" using Nil(1) z by (simp add: body_ok_def)
  show ?case
  proof (cases "k < length h + length e + 2")
    case True
    then have "take k (body_text [] z trailers) = take k ((h @ e) @ CRLF)" using take_line [of k "h @ e"] by (simp add: body_text_def z)
    then show ?thesis using chunked_loop_line_partial [OF s True] by simp
  next
    case False
    then obtain j where k: "k = length h + length e + 2 + j" by (metis le_Suc_ex not_less)
    define body where "body = pre @ (h @ e) @ CR # LF # take j (lines_text trailers @ CRLF)"
    have b: "pre @ take k (body_text [] z trailers) = body" by (simp add: body_text_def z k body_def take_append)
    have c: "crlf_from body (length body) (length pre) = length pre + length (h @ e)"
      unfolding body_def by (rule crlf_from_line [OF size_line_plain [OF s]]) simp
    have t: "take (length (h @ e)) (drop (length pre) body) = h @ e" by (simp add: body_def)
    have "trailer_loop ((pre @ h @ e @ CRLF) @ take j (lines_text trailers @ CRLF)) (length (pre @ h @ e @ CRLF)) = Incomplete"
      by (rule trailer_loop_partial) (use Nil k in \<open>simp_all add: body_ok_def body_text_def z\<close>)
    then have "trailer_loop body (length pre + length (h @ e) + 2) = Incomplete" by (simp add: body_def add.assoc)
    moreover have "length pre < length body" "length pre + length (h @ e) + 1 < length body" by (simp_all add: body_def)
    ultimately show ?thesis unfolding b
      using c t chunk_size_text [OF s] by (subst chunked_loop.simps) (simp add: Let_def)
  qed
next
  case (Cons c cs)
  obtain h e d where c: "c = (h, e, d)" using prod_cases3 by blast
  have ok: "chunk_ok (h, e, d)" "body_ok cs z trailers" using Cons.prems(1) c by (simp_all add: body_ok_def)
  then have s: "size_ok h e (length d)" "d \<noteq> []" by (simp_all add: chunk_ok_def)
  have bt: "body_text (c # cs) z trailers = chunk_text (h, e, d) @ body_text cs z trailers" by (simp add: body_text_def c)
  have l: "length pre + length (chunk_text (h, e, d)) + length (body_text cs z trailers) < 2 ^ 64" using Cons.prems(2) unfolding bt by simp
  consider "k < length h + length e + 2" | "length h + length e + 2 \<le> k" "k < length (chunk_text (h, e, d))"
    | "length (chunk_text (h, e, d)) \<le> k" by linarith
  then show ?case
  proof cases
    case 1
    then have "take k (body_text (c # cs) z trailers) = take k ((h @ e) @ CRLF)" using take_line [of k "h @ e"] by (simp add: bt chunk_text_def)
    then show ?thesis using chunked_loop_line_partial [OF s(1) 1] by simp
  next
    case 2
    then obtain j where k: "k = length h + length e + 2 + j" by (metis le_Suc_ex)
    have j: "j < length d + 2" using 2(2) by (simp add: k chunk_text_def)
    have "take k (body_text (c # cs) z trailers) = (h @ e) @ CR # LF # take j (d @ CRLF)"
      using take_line [OF j] by (simp add: bt chunk_text_def k take_append)
    moreover have "chunked_loop (pre @ (h @ e) @ CR # LF # take j (d @ CRLF)) (length pre) = Some Incomplete"
      by (rule chunked_loop_wait [OF s(1)]) (use s(2) j l in \<open>simp_all add: chunk_text_def\<close>)
    ultimately show ?thesis by simp
  next
    case 3
    then obtain j where k: "k = length (chunk_text (h, e, d)) + j" by (metis le_Suc_ex)
    have t: "pre @ take k (body_text (c # cs) z trailers) = pre @ chunk_text (h, e, d) @ take j (body_text cs z trailers)"
      by (simp add: bt k)
    have "chunked_loop ((pre @ chunk_text (h, e, d)) @ take j (body_text cs z trailers)) (length (pre @ chunk_text (h, e, d))) = Some Incomplete"
      by (rule Cons.IH [OF ok(2)]) (use l k Cons.prems(3) in \<open>simp_all add: bt\<close>)
    then show ?thesis unfolding t using chunked_loop_step [OF ok(1), of pre "take j (body_text cs z trailers)"] l by simp
  qed
qed

section \<open>Decoding\<close>

lemma decode_loop_step:
  assumes "chunk_ok (h, e, d)" "length out + length d < cap"
  shows "decode_loop (pre @ chunk_text (h, e, d) @ post) cap (length pre) out =
    decode_loop (pre @ chunk_text (h, e, d) @ post) cap (length (pre @ chunk_text (h, e, d))) (out @ d)"
proof -
  have s: "size_ok h e (length d)" "d \<noteq> []" using assms(1) by (simp_all add: chunk_ok_def)
  define body where "body = pre @ (h @ e) @ CR # LF # (d @ CRLF @ post)"
  have b: "pre @ chunk_text (h, e, d) @ post = body" by (simp add: body_def chunk_text_def)
  have lb: "length body = length pre + length h + length e + 4 + length d + length post" by (simp add: body_def)
  have c: "crlf_from body (length body) (length pre) = length pre + length (h @ e)"
    unfolding body_def by (rule crlf_from_line [OF size_line_plain [OF s(1)]]) simp
  have t: "take (length (h @ e)) (drop (length pre) body) = h @ e" by (simp add: body_def)
  let ?p = "length pre + length h + length e + 2"
  have n: "body ! (?p + length d) = CR" "body ! (?p + length d + 1) = LF" "take (length d) (drop ?p body) = d"
    by (simp_all add: body_def nth_append)
  have "decode_loop body cap (length pre) out = decode_loop body cap (?p + length d + 2) (out @ d)"
    using c t chunk_size_text [OF s(1)] s(2) lb n assms(2)
    by (subst decode_loop.simps) (simp add: Let_def add_ac)
  then show ?thesis unfolding b by (simp add: chunk_text_def add_ac)
qed

lemma decode_loop_all:
  assumes "body_ok cs z trailers" "length out + length (concat (map chunk_data cs)) < cap"
  shows "decode_loop (pre @ body_text cs z trailers) cap (length pre) out = out @ concat (map chunk_data cs)"
  using assms
proof (induction cs arbitrary: pre out)
  case Nil
  obtain h e where z: "z = (h, e)" by fastforce
  have s: "size_ok h e 0" using Nil(1) z by (simp add: body_ok_def)
  define body where "body = pre @ (h @ e) @ CR # LF # (lines_text trailers @ CRLF)"
  have c: "crlf_from body (length body) (length pre) = length pre + length (h @ e)"
    unfolding body_def by (rule crlf_from_line [OF size_line_plain [OF s]]) simp
  have t: "take (length (h @ e)) (drop (length pre) body) = h @ e" by (simp add: body_def)
  have "length pre < length body" "length pre + length (h @ e) + 1 < length body" by (simp_all add: body_def)
  then have "decode_loop body cap (length pre) out = out"
    using c t chunk_size_text [OF s] by (subst decode_loop.simps) (simp add: Let_def)
  then show ?case by (simp add: body_text_def z body_def)
next
  case (Cons c cs)
  obtain h e d where c: "c = (h, e, d)" using prod_cases3 by blast
  have b: "pre @ body_text (c # cs) z trailers = pre @ chunk_text (h, e, d) @ body_text cs z trailers" by (simp add: body_text_def c)
  have cd: "chunk_data c = d" by (simp add: chunk_data_def c)
  have ok: "chunk_ok (h, e, d)" "body_ok cs z trailers" using Cons.prems(1) c by (simp_all add: body_ok_def)
  have l: "length out + length d < cap" "length (out @ d) + length (concat (map chunk_data cs)) < cap"
    using Cons.prems(2) cd by simp_all
  show ?case unfolding b decode_loop_step [OF ok(1) l(1)]
    using Cons.IH [OF ok(2) l(2), of "pre @ chunk_text (h, e, d)"] by (simp add: cd)
qed

section \<open>Termination and memory safety of the completeness test\<close>

abbreviation is_hex :: "char \<Rightarrow> bool" where
  "is_hex c \<equiv> hex_value c \<noteq> None"

lemma hex_value_less: "hex_value c = Some v \<Longrightarrow> v < 16"
  by (auto simp: hex_value_def split: if_splits)

lemma chunk_size_bound:
  "a < 16 ^ k \<Longrightarrow> fst (chunk_size_loop s a True) < 16 ^ (k + length (takeWhile is_hex s))"
proof (induction s arbitrary: a k)
  case (Cons c s)
  have le: "a < 16 ^ (k + n)" for n
    using order.strict_trans2 [OF Cons.prems power_increasing [of k "k + n" "16 :: nat"]] by simp
  show ?case
  proof (cases "hex_value c")
    case None
    then show ?thesis using le [of 0] le [of "Suc (length (takeWhile is_hex s))"] by simp
  next
    case (Some v)
    then have "a * 16 + v < 16 ^ Suc k" using hex_value_less [OF Some] Cons.prems by simp
    from Cons.IH [OF this] show ?thesis
      using Some hex_value_plain [of c] le [of "Suc (length (takeWhile is_hex s))"] by simp
  qed
qed simp

lemma chunk_size_start:
  "\<exists>i. fst (chunk_size_loop s 0 False) < 16 ^ length (takeWhile is_hex (drop i s))"
proof (induction s)
  case Nil
  then show ?case by (intro exI [of _ 0]) simp
next
  case (Cons c s)
  show ?case
  proof (cases "c = CHR '' '' \<or> c = TAB")
    case True
    obtain i where "fst (chunk_size_loop s 0 False) < 16 ^ length (takeWhile is_hex (drop i s))" using Cons by blast
    then show ?thesis using True by (intro exI [of _ "Suc i"]) auto
  next
    case False
    show ?thesis
    proof (cases "hex_value c")
      case None
      then show ?thesis using False by (intro exI [of _ 0]) simp
    next
      case (Some v)
      then have "v < 16 ^ 1" using hex_value_less by simp
      from chunk_size_bound [OF this, of s] show ?thesis
        using Some False hex_value_plain [of c] by (intro exI [of _ 0]) simp
    qed
  qed
qed

text \<open>No 16 hexadecimal digits in a row.\<close>

definition short_sizes :: "string \<Rightarrow> bool" where
  "short_sizes body \<longleftrightarrow> (\<forall>i < length body. length (takeWhile is_hex (drop i body)) < 16)"

lemma takeWhile_take_length: "length (takeWhile P (take n xs)) \<le> length (takeWhile P xs)"
  by (induction xs arbitrary: n) (auto simp: take_Cons' split: if_splits)

lemma short_sizes_bound:
  assumes "short_sizes body"
  shows "fst (chunk_size_loop (take n (drop off body)) 0 False) < 16 ^ 15"
proof -
  obtain i where i: "fst (chunk_size_loop (take n (drop off body)) 0 False) < 16 ^ length (takeWhile is_hex (drop i (take n (drop off body))))"
    using chunk_size_start by blast
  have "length (takeWhile is_hex (drop i (take n (drop off body)))) \<le> length (takeWhile is_hex (drop (i + off) body))"
    using takeWhile_take_length [of is_hex "n - i" "drop (i + off) body"] by (simp add: drop_take)
  also have "\<dots> \<le> 15"
    using assms by (cases "i + off < length body") (auto simp: short_sizes_def less_Suc_eq_le)
  finally have "(16 :: nat) ^ length (takeWhile is_hex (drop i (take n (drop off body)))) \<le> 16 ^ 15" by (rule power_increasing) simp
  with i show ?thesis by linarith
qed

lemma trailer_loop_range: "trailer_loop body off \<noteq> Out_of_bounds"
  by (induction body off rule: trailer_loop.induct) (subst trailer_loop.simps, simp add: Let_def)

lemma chunked_loop_total:
  assumes "short_sizes body" "length body < 2 ^ 62"
  shows "\<exists>r. chunked_loop body off = Some r \<and> r \<noteq> Out_of_bounds"
proof (induction "length body - off" arbitrary: off rule: less_induct)
  case less
  define e where "e = crlf_from body (length body) off"
  obtain n d b where s: "chunk_size_loop (take (e - off) (drop off body)) 0 False = (n, d, b)" using prod_cases3 by blast
  have n: "n < 16 ^ 15" using short_sizes_bound [OF assms(1), of "e - off" off] s by simp
  have ge: "off \<le> e" unfolding e_def by (rule crlf_from_ge)
  show ?case
  proof (cases "off < length body \<and> e + 1 < length body \<and> \<not> b \<and> d \<and> 0 < n \<and> e + 2 + n + 2 \<le> length body")
    case True
    then have a: "add64 (e + 2) n = e + 2 + n" "add64 (e + 2 + n) 2 = e + 2 + n + 2" "add64 n 2 = n + 2"
      "add64 (e + 2) (n + 2) = e + 2 + n + 2" "add64 (e + 2 + n) 1 = e + 2 + n + 1"
      using assms(2) True by (simp_all add: add64_small)
    have "crlf_at body (e + 2 + n) = Some (body ! (e + 2 + n) = CR \<and> body ! (e + 2 + n + 1) = LF)"
      unfolding crlf_at_def a(5) using True by simp
    then obtain c where c: "crlf_at body (e + 2 + n) = Some c" by blast
    have "chunked_loop body off = (if \<not> c then Some Invalid else chunked_loop body (e + 2 + n + 2))"
      using True s c a unfolding e_def by (subst chunked_loop.simps) (simp add: Let_def)
    moreover have "length body - (e + 2 + n + 2) < length body - off" using True ge by linarith
    ultimately show ?thesis using less [of "e + 2 + n + 2"] by auto
  next
    case False
    have "e + 1 < length body \<Longrightarrow> add64 (add64 (e + 2) n) 2 = e + 2 + n + 2"
      using n assms(2) by (simp add: add64_small)
    then show ?thesis using False s trailer_loop_range [of body "e + 2"] unfolding e_def
      by (subst chunked_loop.simps) (auto simp: Let_def)
  qed
qed

lemma hex_value_F: "hex_value (CHR ''F'') = Some 15" "hex_value (CHR ''E'') = Some 14" "hex_value (CHR ''C'') = Some 12"
    "hex_value (CHR ''1'') = Some 1"
  by (code_simp, code_simp, code_simp, code_simp)

lemma evil_size: "chunk_size_loop ''FFFFFFFFFFFFFFEC'' 0 False = (18446744073709551596, True, False)"
proof -
  have "size_ok ''FFFFFFFFFFFFFFEC'' [] 18446744073709551596"
    by (simp add: size_ok_def hex_val_def hex_value_F)
  from chunk_size_text [OF this] show ?thesis by simp
qed

lemma add64_evil: "add64 18 18446744073709551596 = 18446744073709551614" "add64 18446744073709551614 2 = 0"
  "add64 24 18446744073709551596 = 4" "add64 4 2 = 6" "add64 18446744073709551596 2 = 18446744073709551598"
  "add64 24 18446744073709551598 = 6" "add64 4 (Suc 0) = 5" "add64 (Suc (Suc (Suc 0))) (Suc 0) = 4" "add64 (Suc 0) 2 = 3"
  "add64 (Suc (Suc (Suc 0))) 3 = 6"
  by (simp_all add: add64_def)

lemma take_drop_line: "take (length l) (drop (length pre) (pre @ l @ post)) = l"
  by simp

text \<open>The wrapped chunk end lies in front of the body \<dots>\<close>

lemma chunked_loop_wrap_read: "chunked_loop (''FFFFFFFFFFFFFFEC'' @ CRLF) 0 = Some Out_of_bounds"
proof -
  define evil where "evil = ''FFFFFFFFFFFFFFEC'' @ CRLF"
  have l: "length evil = 18" by (simp add: evil_def)
  have c: "crlf_from evil 18 0 = 16"
    unfolding evil_def using crlf_from_line [of "''FFFFFFFFFFFFFFEC''" "[]" 18 "[]"] by simp
  have s: "chunk_size_loop (take 16 evil) 0 False = (18446744073709551596, True, False)"
    unfolding evil_def using evil_size by simp
  have k: "crlf_at evil 18446744073709551614 = None" by (simp add: crlf_at_def l)
  show ?thesis unfolding evil_def [symmetric]
    by (subst chunked_loop.simps) (simp add: l c s k add64_evil Let_def)
qed

text \<open>\<dots> or at an earlier line end, from which the loop runs for ever.\<close>

definition evil_body :: string where
  "evil_body = ''1'' @ CRLF @ ''A'' @ CRLF @ ''FFFFFFFFFFFFFFEC'' @ CRLF"

lemma evil_facts:
  "length evil_body = 24" "crlf_from evil_body 24 0 = 1" "crlf_from evil_body 24 6 = 22"
  "chunk_size_loop (take (Suc 0) evil_body) 0 False = (1, True, False)"
  "chunk_size_loop (take 16 (drop 6 evil_body)) 0 False = (18446744073709551596, True, False)"
  "crlf_at evil_body 4 = Some True"
proof -
  show l: "length evil_body = 24" by (simp add: evil_body_def)
  show "crlf_from evil_body 24 0 = 1" unfolding evil_body_def
    using crlf_from_line [of "''1''" "[]" 24 "''A'' @ CRLF @ ''FFFFFFFFFFFFFFEC'' @ CRLF"] by simp
  show "crlf_from evil_body 24 6 = 22" unfolding evil_body_def
    using crlf_from_line [of "''FFFFFFFFFFFFFFEC''" "''1'' @ CRLF @ ''A'' @ CRLF" 24 "[]"] by (simp add: eval_nat_numeral)
  have "size_ok ''1'' [] 1" by (simp add: size_ok_def hex_val_def hex_value_F)
  from chunk_size_text [OF this] show "chunk_size_loop (take (Suc 0) evil_body) 0 False = (1, True, False)"
    by (simp add: evil_body_def)
  show "chunk_size_loop (take 16 (drop 6 evil_body)) 0 False = (18446744073709551596, True, False)"
    unfolding evil_body_def using evil_size by simp
  have "evil_body ! 4 = CR" "evil_body ! 5 = LF" by (simp_all add: evil_body_def)
  then show "crlf_at evil_body 4 = Some True" by (simp add: crlf_at_def l add64_evil)
qed

lemma chunked_loop_wrap_loops: "chunked_loop evil_body 0 = None"
proof -
  have "chunked_loop evil_body 0 = chunked_loop evil_body 6"
    by (subst chunked_loop.simps) (simp add: evil_facts Let_def add64_evil)
  moreover have "b = evil_body \<Longrightarrow> off \<noteq> 6" if "chunked_loop b off = Some r" for b off r
    using that
  proof (induction b off r rule: chunked_loop.raw_induct [rotated, consumes 1])
    case (1 f b off r)
    show ?case
    proof
      assume "off = 6"
      then have "f evil_body 6 = Some r" using 1(2,3) by (simp add: evil_facts Let_def add64_evil)
      then show False using 1(1) by blast
    qed
  qed
  ultimately show ?thesis by (metis not_Some_eq)
qed


section \<open>Headers\<close>

lemma header_end_skip:
  "i \<le> e \<Longrightarrow> \<forall>j. i \<le> j \<and> j < e \<longrightarrow> \<not> (raw ! j = CR \<and> raw ! (j + 1) = LF \<and> raw ! (j + 2) = CR) \<Longrightarrow>
   header_end_loop raw i = header_end_loop raw e"
proof (induction raw i rule: header_end_loop.induct)
  case (1 raw i)
  show ?case
  proof (cases "i < e \<and> i + 3 < length raw")
    case True
    then have "\<not> (raw ! i = CR \<and> raw ! (i + 1) = LF \<and> raw ! (i + 2) = CR \<and> raw ! (i + 3) = LF)" using 1(3) by blast
    with True show ?thesis using 1 by (subst header_end_loop.simps) auto
  next
    case False
    show ?thesis
    proof (cases "i = e")
      case False
      with \<open>\<not> (i < e \<and> i + 3 < length raw)\<close> 1(2) have "\<not> i + 3 < length raw" "\<not> e + 3 < length raw" by auto
      then show ?thesis by (simp add: header_end_loop.simps [of raw i] header_end_loop.simps [of raw e])
    qed simp
  qed
qed

definition header_line_ok :: "string \<Rightarrow> bool" where
  "header_line_ok l \<longleftrightarrow> l \<noteq> [] \<and> CR \<notin> set l"

lemma header_end_line:
  assumes "CR \<notin> set l"
  shows "header_end_loop (pre @ l @ CR # LF # post) (length pre) = header_end_loop (pre @ l @ CR # LF # post) (length pre + length l)"
proof (rule header_end_skip)
  show "\<forall>j. length pre \<le> j \<and> j < length pre + length l \<longrightarrow>
      \<not> ((pre @ l @ CR # LF # post) ! j = CR \<and> (pre @ l @ CR # LF # post) ! (j + 1) = LF \<and> (pre @ l @ CR # LF # post) ! (j + 2) = CR)"
  proof (intro allI impI)
    fix j assume j: "length pre \<le> j \<and> j < length pre + length l"
    then have "(pre @ l @ CR # LF # post) ! j = l ! (j - length pre)" "j - length pre < length l" by (auto simp: nth_append)
    then show "\<not> ((pre @ l @ CR # LF # post) ! j = CR \<and> (pre @ l @ CR # LF # post) ! (j + 1) = LF \<and> (pre @ l @ CR # LF # post) ! (j + 2) = CR)"
      using assms by (metis nth_mem)
  qed
qed simp

lemma header_end_found:
  "ls \<noteq> [] \<Longrightarrow> \<forall>l\<in>set ls. header_line_ok l \<Longrightarrow>
   header_end_loop (pre @ lines_text ls @ CRLF @ body) (length pre) = Some (length (pre @ lines_text ls) + 2)"
proof (induction ls arbitrary: pre)
  case (Cons l ls)
  then have l: "CR \<notin> set l" by (simp add: header_line_ok_def)
  let ?post = "lines_text ls @ CRLF @ body"
  define raw where "raw = pre @ l @ CR # LF # ?post"
  define q where "q = length pre + length l"
  have r: "pre @ lines_text (l # ls) @ CRLF @ body = raw" by (simp add: lines_text_def raw_def)
  have s: "header_end_loop raw (length pre) = header_end_loop raw q"
    unfolding raw_def q_def by (rule header_end_line [OF l])
  have n: "raw ! q = CR" "raw ! (q + 1) = LF" by (simp_all add: raw_def q_def nth_append)
  show ?case
  proof (cases ls)
    case Nil
    then have "raw ! (q + 2) = CR" "raw ! (q + 3) = LF" "q + 3 < length raw"
      by (simp_all add: raw_def q_def nth_append lines_text_def)
    then have "header_end_loop raw q = Some (q + 4)" using n by (subst header_end_loop.simps) simp
    then show ?thesis unfolding r s by (simp add: q_def Nil lines_text_def)
  next
    case (Cons l' ls')
    then obtain c cs where c: "l' = c # cs" "c \<noteq> CR" using Cons.prems(2) by (cases l') (auto simp: header_line_ok_def)
    have "raw ! (q + 2) \<noteq> CR" using c by (simp add: raw_def q_def nth_append lines_text_def Cons)
    then have "header_end_loop raw q = header_end_loop raw (q + 2)"
      using n by (intro header_end_skip) (auto simp: less_Suc_eq numeral_2_eq_2 le_less_Suc_eq)
    moreover have "header_end_loop ((pre @ l @ CRLF) @ ?post) (length (pre @ l @ CRLF)) = Some (length ((pre @ l @ CRLF) @ lines_text ls) + 2)"
      by (rule Cons.IH) (use Cons.prems \<open>ls = l' # ls'\<close> in auto)
    ultimately show ?thesis unfolding r s by (simp add: q_def raw_def lines_text_def add_ac)
  qed
qed simp

lemma header_lines_all:
  "\<forall>l\<in>set ls. CR \<notin> set l \<Longrightarrow>
   header_lines (pre @ lines_text ls @ CRLF @ body) (length (pre @ lines_text ls) + 2) (length pre) = ls @ [[]]"
proof (induction ls arbitrary: pre)
  case Nil
  have "crlf_from (pre @ [] @ CR # LF # body) (length pre + 2) (length pre) = length pre + length ([] :: string)"
    by (rule crlf_from_line) simp_all
  then show ?case by (subst header_lines.simps) (simp add: lines_text_def Let_def header_lines.simps)
next
  case (Cons l ls)
  let ?post = "lines_text ls @ CRLF @ body"
  define raw where "raw = pre @ l @ CR # LF # ?post"
  define h where "h = length pre + length l + length (lines_text ls) + 4"
  have r: "pre @ lines_text (l # ls) @ CRLF @ body = raw" "length (pre @ lines_text (l # ls)) + 2 = h"
    by (simp_all add: lines_text_def raw_def h_def)
  have e: "crlf_from raw h (length pre) = length pre + length l"
    unfolding raw_def by (rule crlf_from_line) (use Cons.prems in \<open>simp_all add: h_def\<close>)
  have t: "take (length l) (drop (length pre) raw) = l" by (simp add: raw_def)
  have g: "length pre + 1 < h" "length pre + length l + 1 < h" by (simp_all add: h_def)
  have "header_lines ((pre @ l @ CRLF) @ ?post) (length ((pre @ l @ CRLF) @ lines_text ls) + 2) (length (pre @ l @ CRLF)) = ls @ [[]]"
    by (rule Cons.IH) (use Cons.prems in simp)
  moreover have "(pre @ l @ CRLF) @ ?post = raw" "length ((pre @ l @ CRLF) @ lines_text ls) + 2 = h"
    "length (pre @ l @ CRLF) = length pre + length l + 2" by (simp_all add: raw_def h_def)
  ultimately have "header_lines raw h (length pre + length l + 2) = ls @ [[]]" by (simp only:)
  then show ?case unfolding r using e t g by (subst header_lines.simps) (simp add: Let_def)
qed

text \<open>What the header lines set, independently of each other.\<close>

lemma fold_chunked:
  "hi_chunked (fold header_field ls info) \<longleftrightarrow> hi_chunked info \<or>
     (\<exists>l\<in>set ls. ush_browser_header_name_match_icase l ''Transfer-Encoding'' \<and>
        ush_browser_line_has_token_icase (skip_blanks (drop 18 l)) ''chunked'')"
proof (induction ls arbitrary: info)
  case (Cons l ls)
  have nil: "\<not> ush_browser_header_name_match_icase [] ''Transfer-Encoding''"
    by (simp add: ush_browser_header_name_match_icase_def)
  have "hi_chunked (header_field l info) \<longleftrightarrow> hi_chunked info \<or> (ush_browser_header_name_match_icase l ''Transfer-Encoding'' \<and>
        ush_browser_line_has_token_icase (skip_blanks (drop 18 l)) ''chunked'')"
    using nil by (auto simp: header_field_def Let_def split: option.split)
  then show ?case by (simp add: Cons)
qed simp

lemma fold_body_off: "hi_body_off (fold header_field ls info) = hi_body_off info"
proof (induction ls arbitrary: info)
  case (Cons l ls)
  have "hi_body_off (header_field l info) = hi_body_off info" by (cases info) (auto simp: header_field_def Let_def split: option.split)
  then show ?case by (simp add: Cons)
qed simp

lemma parse_headers_text:
  assumes "ls \<noteq> []" "\<forall>l\<in>set ls. header_line_ok l"
  shows "ush_browser_parse_http_headers (lines_text ls @ CRLF @ body) = Some ((fold header_field ls
    \<lparr>hi_body_off = 0, hi_chunked = False, hi_content_len = 0, hi_has_content_len = False, hi_compressed = False\<rparr>)
    \<lparr>hi_body_off := length (lines_text ls) + 2\<rparr>)"
proof -
  have e: "header_end_loop (lines_text ls @ CRLF @ body) 0 = Some (length (lines_text ls) + 2)"
    using header_end_found [OF assms, of "[]" body] by simp
  have l: "header_lines (lines_text ls @ CRLF @ body) (length (lines_text ls) + 2) 0 = ls @ [[]]"
    using header_lines_all [of ls "[]" body] assms(2) by (simp add: header_line_ok_def)
  have n: "header_field [] i = i" for i by (simp add: header_field_def)
  show ?thesis unfolding ush_browser_parse_http_headers_def e option.case l by (simp add: n)
qed

text \<open>A response whose header lines are non-empty and free of carriage returns is split exactly: the body
  starts behind the empty line, the body is chunked iff some \<open>Transfer-Encoding\<close> line, whatever the case of
  its letters, has the token, and the other fields are those of the lines in order.\<close>

theorem http_headers_parsed:
  assumes "ls \<noteq> []" "\<forall>l\<in>set ls. header_line_ok l"
  shows "\<exists>info. ush_browser_parse_http_headers (lines_text ls @ CRLF @ body) = Some info
    \<and> drop (hi_body_off info) (lines_text ls @ CRLF @ body) = body
    \<and> info\<lparr>hi_body_off := 0\<rparr> = fold header_field ls \<lparr>hi_body_off = 0, hi_chunked = False, hi_content_len = 0,
        hi_has_content_len = False, hi_compressed = False\<rparr>
    \<and> (hi_chunked info \<longleftrightarrow> (\<exists>l\<in>set ls. ush_browser_header_name_match_icase l ''Transfer-Encoding'' \<and>
        ush_browser_line_has_token_icase (skip_blanks (drop 18 l)) ''chunked''))"
proof -
  define info where "info = fold header_field ls
    \<lparr>hi_body_off = 0, hi_chunked = False, hi_content_len = 0, hi_has_content_len = False, hi_compressed = False\<rparr>"
  let ?info = "info\<lparr>hi_body_off := length (lines_text ls) + 2\<rparr>"
  have "ush_browser_parse_http_headers (lines_text ls @ CRLF @ body) = Some ?info"
    unfolding info_def by (rule parse_headers_text [OF assms])
  moreover have "?info\<lparr>hi_body_off := 0\<rparr> = info"
    using fold_body_off [of ls] by (cases info) (simp add: info_def, metis http_info.select_convs(1))
  moreover have "drop (hi_body_off ?info) (lines_text ls @ CRLF @ body) = body" by simp
  moreover have "hi_chunked ?info \<longleftrightarrow> (\<exists>l\<in>set ls. ush_browser_header_name_match_icase l ''Transfer-Encoding'' \<and>
        ush_browser_line_has_token_icase (skip_blanks (drop 18 l)) ''chunked'')"
    by (simp add: info_def fold_chunked)
  ultimately show ?thesis unfolding info_def by blast
qed


section \<open>Content length\<close>

lemma content_digits_exact:
  "\<forall>c\<in>set ds. is_digit c \<Longrightarrow> foldl (\<lambda>v c. v * 10 + nat (schar c - 48)) a ds < 2 ^ 64 \<Longrightarrow> r = [] \<or> \<not> is_digit (hd r) \<Longrightarrow>
   content_digits (of_nat a) f (ds @ r) = Some (of_nat (foldl (\<lambda>v c. v * 10 + nat (schar c - 48)) a ds), f \<or> ds \<noteq> [])"
proof (induction ds arbitrary: a f)
  case Nil
  then show ?case by (cases r) auto
next
  case (Cons c ds)
  define n where "n = a * 10 + nat (schar c - 48)"
  have ge: "v \<le> foldl (\<lambda>v c. v * 10 + nat (schar c - 48)) v cs" for v :: nat and cs
  proof (induction cs arbitrary: v)
    case (Cons d cs)
    have "v \<le> v * 10 + nat (schar d - 48)" by simp
    also have "\<dots> \<le> foldl (\<lambda>v c. v * 10 + nat (schar c - 48)) (v * 10 + nat (schar d - 48)) cs" by (rule Cons)
    finally show ?case by simp
  qed simp
  have n64: "n < 2 ^ 64" using ge [of n ds] Cons.prems(2) by (simp add: n_def)
  have w: "of_nat a * 10 + of_int (schar c - 48) = (of_nat n :: u64)"
    using Cons.prems(1) by (simp add: n_def of_nat_nat)
  have a: "a \<le> n" by (simp add: n_def)
  with n64 have "unat (of_nat n :: u64) = n" "unat (of_nat a :: u64) = a" by (simp_all add: unat_of_nat)
  then have "\<not> (of_nat n :: u64) < of_nat a" using a by (simp add: word_less_nat_alt)
  then show ?case using Cons.IH [of n True] Cons.prems w by (simp add: Let_def n_def)
qed

lemma blank_no_digit: "\<not> is_digit (CHR '' '')" "\<not> is_digit TAB"
  by (code_simp, code_simp)

text \<open>A \<open>Content-Length\<close> below \<open>2 ^ 64\<close> is read exactly, whatever blanks stand in front and whatever follows
  the digits. The test for overflow compares with the previous value only, so a larger length may be
  accepted as another number.\<close>

theorem content_length_exact:
  assumes "\<forall>c\<in>set b. c = CHR '' '' \<or> c = TAB" "\<forall>c\<in>set ds. is_digit c" "ds \<noteq> []" "r = [] \<or> \<not> is_digit (hd r)"
    and "foldl (\<lambda>v c. v * 10 + nat (schar c - 48)) 0 ds < 2 ^ 64"
  shows "ush_browser_parse_content_length (b @ ds @ r) = Some (of_nat (foldl (\<lambda>v c. v * 10 + nat (schar c - 48)) 0 ds))
    \<and> ush_browser_parse_content_length ''30000000000000000000'' = Some 11553255926290448384"
proof (rule conjI)
  obtain c cs where c: "ds = c # cs" using assms(3) by (cases ds) auto
  have "skip_blanks (b @ ds @ r) = ds @ r"
  proof -
    have "skip_blanks (b @ ds @ r) = skip_blanks (ds @ r)" using assms(1) by (induction b) auto
    moreover have "c \<noteq> CHR '' '' \<and> c \<noteq> TAB" using assms(2) c blank_no_digit by auto
    ultimately show ?thesis using c by simp
  qed
  then show "ush_browser_parse_content_length (b @ ds @ r) = Some (of_nat (foldl (\<lambda>v c. v * 10 + nat (schar c - 48)) 0 ds))"
    using content_digits_exact [OF assms(2,5,4), of False] assms(3) by (simp add: ush_browser_parse_content_length_def)
  show "ush_browser_parse_content_length ''30000000000000000000'' = Some 11553255926290448384" by code_simp
qed

theorem content_length_exact_witness:
  "ush_browser_parse_content_length ('' '' @ ''42'' @ '';'') = Some 42"
proof -
  have "\<forall>c\<in>set ''42''. is_digit c" "\<not> is_digit (CHR '';'')" by code_simp+
  moreover have "foldl (\<lambda>v c. v * 10 + nat (schar c - 48)) 0 ''42'' = 42" by code_simp
  ultimately show ?thesis using content_length_exact [of "'' ''" "''42''" "'';''"] by simp
qed

section \<open>The chunked coding: claims\<close>


definition demo_chunks :: "chunk list" where
  "demo_chunks = [(''3'', '';a=b'', ''abc''), (''2'', [], ''de'')]"



theorem http_headers_parsed_witness:
  "\<exists>info. ush_browser_parse_http_headers (lines_text [''HTTP/1.1 200 OK'', ''transfer-encoding: Chunked''] @ CRLF @ ''abc'') = Some info
     \<and> drop (hi_body_off info) (lines_text [''HTTP/1.1 200 OK'', ''transfer-encoding: Chunked''] @ CRLF @ ''abc'') = ''abc'' \<and> hi_chunked info"
proof -
  have "\<forall>l\<in>set [''HTTP/1.1 200 OK'', ''transfer-encoding: Chunked'']. header_line_ok l" by code_simp
  moreover have "\<exists>l\<in>set [''HTTP/1.1 200 OK'', ''transfer-encoding: Chunked'']. ush_browser_header_name_match_icase l ''Transfer-Encoding''
     \<and> ush_browser_line_has_token_icase (skip_blanks (drop 18 l)) ''chunked''" by code_simp
  ultimately show ?thesis
    using http_headers_parsed [of "[''HTTP/1.1 200 OK'', ''transfer-encoding: Chunked'']" "''abc''"] by blast
qed

end
