(* ===== verification/BrowserDns.thy ===== *)
theory BrowserDns
  imports UshText
begin

text \<open>
  The name resolver of the browser (\<open>apps/browser/browser_dns.c\<close>): encoding of the query name, the skipping
  of possibly compressed names, the search for the first address record and the exchange with the server.
  Messages are lists of bytes. Reading outside the received bytes is the outer \<open>None\<close>, so that memory
  safety is a theorem. The five calls of the kernel are the record \<open>dns_kernel\<close> over a state of the kernel.
\<close>

section \<open>Definitions\<close>

definition rd :: "u8 list \<Rightarrow> nat \<Rightarrow> u8 option" where
  "rd msg p = (if p < length msg then Some (msg ! p) else None)"

definition be16 :: "u8 \<Rightarrow> u8 \<Rightarrow> u16" where
  "be16 a b = or (push_bit 8 (ucast a)) (ucast b)"

definition ush_browser_read_be16 :: "u8 list \<Rightarrow> nat \<Rightarrow> u16 option" where
  "ush_browser_read_be16 msg p =
     (case rd msg p of None \<Rightarrow> None | Some a \<Rightarrow> (case rd msg (p + 1) of None \<Rightarrow> None | Some b \<Rightarrow> Some (be16 a b)))"

definition ush_browser_write_be16 :: "u8 list \<Rightarrow> nat \<Rightarrow> u16 \<Rightarrow> u8 list" where
  "ush_browser_write_be16 buf p v = buf[p := ucast (drop_bit 8 v), p + 1 := ucast (and v 0xFF)]"

text \<open>The bytes of the query name written so far are \<open>out\<close>; \<open>p\<close> is the rest of the host name.\<close>

function encode_loop :: "string \<Rightarrow> nat \<Rightarrow> u8 list \<Rightarrow> u8 list option" where
  "encode_loop p out_cap out =
     (if p \<noteq> []
      then (let label = takeWhile (\<lambda>c. c \<noteq> CHR ''.'') p; dot = dropWhile (\<lambda>c. c \<noteq> CHR ''.'') p; label_len = length label in
        if label_len = 0 \<or> 63 < label_len then None
        else if out_cap < length out + 1 + label_len + 1 then None
        else encode_loop (if dot \<noteq> [] then tl dot else dot) out_cap
               (out @ of_nat label_len # map (\<lambda>c. of_int (uchar c)) label))
      else Some (out @ [0]))"
  by pat_completeness auto
termination
proof (relation "measure (\<lambda>(p, cap, out). length p)", simp)
  fix p :: string and cap :: nat and out :: "u8 list" and label dot :: string and n :: nat
  assume "p \<noteq> []" "label = takeWhile (\<lambda>c. c \<noteq> CHR ''.'') p" "dot = dropWhile (\<lambda>c. c \<noteq> CHR ''.'') p" "n = length label" "\<not> (n = 0 \<or> 63 < n)"
  then have "length label + length dot = length p" "0 < length label" by (metis length_append takeWhile_dropWhile_id, auto)
  then show "((if dot \<noteq> [] then tl dot else dot, cap, out @ of_nat n # map (\<lambda>c. of_int (uchar c)) label), p, cap, out) \<in> measure (\<lambda>(p, cap, out). length p)"
    by (cases dot) auto
qed

declare encode_loop.simps [simp del]

definition ush_browser_dns_encode_qname :: "string \<Rightarrow> nat \<Rightarrow> u8 list option" where
  "ush_browser_dns_encode_qname host out_cap =
     (if out_cap < 2 \<or> host = [] then None else encode_loop host out_cap [])"

text \<open>The inner \<open>None\<close> is the result 0.\<close>

function skip_loop :: "u8 list \<Rightarrow> nat \<Rightarrow> nat \<Rightarrow> nat \<Rightarrow> bool \<Rightarrow> nat option option" where
  "skip_loop msg pos io_off depth jumped =
     (if depth < 32
      then (if length msg \<le> pos then Some None
        else (case rd msg pos of
            None \<Rightarrow> None
          | Some len \<Rightarrow>
              if len = 0 then Some (Some (if \<not> jumped then pos + 1 else io_off))
              else if and len 0xC0 = 0xC0
              then (if length msg \<le> pos + 1 then Some None
                else (case rd msg (pos + 1) of
                    None \<Rightarrow> None
                  | Some low \<Rightarrow>
                      let ptr = unat (be16 (and len 0x3F) low) in
                      if length msg \<le> ptr then Some None
                      else skip_loop msg ptr (if \<not> jumped then pos + 2 else io_off) (depth + 1) True))
              else if and len 0xC0 \<noteq> 0 then Some None
              else if length msg < pos + 1 + unat len then Some None
              else skip_loop msg (pos + 1 + unat len) (if \<not> jumped then pos + 1 + unat len else io_off) (depth + 1) jumped))
      else Some None)"
  by pat_completeness auto
termination by (relation "measure (\<lambda>(msg, pos, io, depth, jumped). 32 - depth)") auto

declare skip_loop.simps [simp del]

definition ush_browser_dns_skip_name :: "u8 list \<Rightarrow> nat \<Rightarrow> nat option option" where
  "ush_browser_dns_skip_name msg off = (if length msg \<le> off then Some None else skip_loop msg off off 0 False)"

primrec skip_questions :: "nat \<Rightarrow> u8 list \<Rightarrow> nat \<Rightarrow> nat option option" where
  "skip_questions 0 resp off = Some (Some off)"
| "skip_questions (Suc n) resp off =
     (case ush_browser_dns_skip_name resp off of
        None \<Rightarrow> None
      | Some None \<Rightarrow> Some None
      | Some (Some off) \<Rightarrow> if length resp < off + 4 then Some None else skip_questions n resp (off + 4))"

definition ipv4_at :: "u8 list \<Rightarrow> nat \<Rightarrow> u64 option" where
  "ipv4_at resp off =
     (case (rd resp off, rd resp (off + 1), rd resp (off + 2), rd resp (off + 3)) of
        (Some a, Some b, Some c, Some d) \<Rightarrow>
          Some (or (or (or (push_bit 24 (ucast a)) (push_bit 16 (ucast b))) (push_bit 8 (ucast c))) (ucast d))
      | _ \<Rightarrow> None)"

primrec answer_loop :: "nat \<Rightarrow> u8 list \<Rightarrow> nat \<Rightarrow> u64 option option" where
  "answer_loop 0 resp off = Some None"
| "answer_loop (Suc n) resp off =
     (case ush_browser_dns_skip_name resp off of
        None \<Rightarrow> None
      | Some None \<Rightarrow> Some None
      | Some (Some off) \<Rightarrow>
          if length resp < off + 10 then Some None
          else (case (ush_browser_read_be16 resp off, ush_browser_read_be16 resp (off + 2), ush_browser_read_be16 resp (off + 8)) of
              (Some type, Some klass, Some rdlen) \<Rightarrow>
                let off = off + 10 in
                if length resp < off + unat rdlen then Some None
                else if type = 1 \<and> klass = 1 \<and> rdlen = 4 then map_option Some (ipv4_at resp off)
                else answer_loop n resp (off + unat rdlen)
            | _ \<Rightarrow> None))"

definition ush_browser_dns_parse_first_a :: "u8 list \<Rightarrow> u16 \<Rightarrow> u64 option option" where
  "ush_browser_dns_parse_first_a resp expected_id =
     (if length resp < 12 then Some None
      else (case (ush_browser_read_be16 resp 0, ush_browser_read_be16 resp 2, ush_browser_read_be16 resp 4, ush_browser_read_be16 resp 6) of
          (Some ident, Some flags, Some qdcount, Some ancount) \<Rightarrow>
            if ident \<noteq> expected_id then Some None
            else if and flags 0x8000 = 0 then Some None
            else if and flags 0x000F \<noteq> 0 then Some None
            else (case skip_questions (unat qdcount) resp 12 of
                None \<Rightarrow> None
              | Some None \<Rightarrow> Some None
              | Some (Some off) \<Rightarrow> answer_loop (unat ancount) resp off)
        | _ \<Rightarrow> None))"

definition USH_BROWSER_DNS_PACKET_MAX :: nat where "USH_BROWSER_DNS_PACKET_MAX = 512"

record 'k dns_kernel =
  dk_dns_server :: "'k \<Rightarrow> u64"
  dk_timer_ticks :: "'k \<Rightarrow> u64"
  dk_udp_send :: "u64 \<Rightarrow> u64 \<Rightarrow> u64 \<Rightarrow> u8 list \<Rightarrow> 'k \<Rightarrow> u64 \<times> 'k"
  dk_udp_recv :: "nat \<Rightarrow> 'k \<Rightarrow> u8 list \<times> u64 \<times> u64 \<times> 'k"
  dk_sleep_ticks :: "u64 \<Rightarrow> 'k \<Rightarrow> 'k"

primrec recv_loop :: "'k dns_kernel \<Rightarrow> u64 \<Rightarrow> u16 \<Rightarrow> nat \<Rightarrow> 'k \<Rightarrow> (u64 option \<times> 'k) option" where
  "recv_loop K dns_server txid 0 k = Some (None, k)"
| "recv_loop K dns_server txid (Suc n) k =
     (case dk_udp_recv K USH_BROWSER_DNS_PACKET_MAX k of (answer, src_ip, src_p, k) \<Rightarrow>
        if answer = [] then recv_loop K dns_server txid n (dk_sleep_ticks K 2 k)
        else if src_p \<noteq> 53 \<or> src_ip \<noteq> dns_server then recv_loop K dns_server txid n k
        else (case ush_browser_dns_parse_first_a answer txid of
            None \<Rightarrow> None
          | Some (Some ip) \<Rightarrow> Some (Some ip, k)
          | Some None \<Rightarrow> recv_loop K dns_server txid n k))"

definition dns_txid :: "u64 \<Rightarrow> u16" where
  "dns_txid ticks = ucast (and (xor ticks 0x4A31) 0xFFFF)"

definition dns_src_port :: "u16 \<Rightarrow> u16" where
  "dns_src_port txid = 43000 + txid mod 20000"

definition dns_query :: "u16 \<Rightarrow> u8 list \<Rightarrow> u8 list option" where
  "dns_query txid qname =
     (let query = replicate USH_BROWSER_DNS_PACKET_MAX 0;
          query = take 12 query @ qname @ drop (12 + length qname) query;
          query = ush_browser_write_be16 query 0 txid;
          query = ush_browser_write_be16 query 2 0x0100;
          query = ush_browser_write_be16 query 4 1;
          query = ush_browser_write_be16 query 6 0;
          query = ush_browser_write_be16 query 8 0;
          query = ush_browser_write_be16 query 10 0;
          query_len = 12 + length qname
      in if USH_BROWSER_DNS_PACKET_MAX < query_len + 4 then None
         else Some (take (query_len + 4) (ush_browser_write_be16 (ush_browser_write_be16 query query_len 1) (query_len + 2) 1)))"

definition ush_browser_dns_resolve_ipv4 :: "'k dns_kernel \<Rightarrow> string \<Rightarrow> 'k \<Rightarrow> (u64 option \<times> 'k) option" where
  "ush_browser_dns_resolve_ipv4 K host k =
     (if host = [] then Some (None, k)
      else if dk_dns_server K k = 0 then Some (None, k)
      else (let dns_server = dk_dns_server K k; txid = dns_txid (dk_timer_ticks K k); src_port = dns_src_port txid in
        case ush_browser_dns_encode_qname host (USH_BROWSER_DNS_PACKET_MAX - 12) of
          None \<Rightarrow> Some (None, k)
        | Some qname \<Rightarrow>
            (case dns_query txid qname of
               None \<Rightarrow> Some (None, k)
             | Some query \<Rightarrow>
                 (case dk_udp_send K dns_server 53 (ucast src_port) query k of (sent, k) \<Rightarrow>
                    if sent \<noteq> of_nat (length query) then Some (None, k)
                    else recv_loop K dns_server txid 700 k))))"

section \<open>Memory safety\<close>

lemma rd_simps [simp]: "p < length msg \<Longrightarrow> rd msg p = Some (msg ! p)"
  by (simp add: rd_def)

lemma read_be16_safe [simp]: "p + 1 < length msg \<Longrightarrow> ush_browser_read_be16 msg p = Some (be16 (msg ! p) (msg ! (p + 1)))"
  by (simp add: ush_browser_read_be16_def)

lemma skip_loop_safe: "skip_loop msg pos io depth jumped \<noteq> None"
proof (induction msg pos io depth jumped rule: skip_loop.induct)
  case (1 msg pos io depth jumped)
  show ?case using 1 by (subst skip_loop.simps) (auto simp: Let_def not_le split: if_splits)
qed

lemma skip_name_safe: "ush_browser_dns_skip_name msg off \<noteq> None"
  by (simp add: ush_browser_dns_skip_name_def del: not_None_eq) (simp add: skip_loop_safe del: not_None_eq)

lemma skip_questions_safe: "skip_questions n resp off \<noteq> None"
  by (induction n arbitrary: off) (auto simp: skip_name_safe split: option.split)

lemma answer_loop_safe: "answer_loop n resp off \<noteq> None"
proof (induction n arbitrary: off)
  case (Suc n)
  show ?case
  proof (cases "ush_browser_dns_skip_name resp off")
    case None
    then show ?thesis using skip_name_safe by blast
  next
    case (Some r)
    then show ?thesis
      using Suc by (cases r) (auto simp: Let_def ipv4_at_def)
  qed
qed simp

lemma parse_first_a_safe [c_spec]: "ush_browser_dns_parse_first_a resp ident \<noteq> None"
  using skip_questions_safe [of "unat (be16 (resp ! 4) (resp ! 5))" resp 12] answer_loop_safe [of "unat (be16 (resp ! 6) (resp ! 7))" resp]
  by (auto simp: ush_browser_dns_parse_first_a_def split: option.split)

section \<open>Messages of the protocol\<close>

definition b16 :: "u16 \<Rightarrow> u8 list" where
  "b16 v = [ucast (drop_bit 8 v), ucast v]"

definition labs :: "u8 list list \<Rightarrow> u8 list" where
  "labs ls = concat (map (\<lambda>l. of_nat (length l) # l) ls)"

definition lab_ok :: "u8 list \<Rightarrow> bool" where
  "lab_ok l \<longleftrightarrow> 0 < length l \<and> length l < 64"

text \<open>The name of a record: labels, or labels followed by a reference to the name of the question.\<close>

datatype rr_name = Labels "u8 list list" | Reference "u8 list list"

fun name_bytes :: "rr_name \<Rightarrow> u8 list" where
  "name_bytes (Labels ls) = labs ls @ [0]"
| "name_bytes (Reference ls) = labs ls @ [0xC0, 12]"

fun name_ok :: "u8 list list \<Rightarrow> rr_name \<Rightarrow> bool" where
  "name_ok q (Labels ls) \<longleftrightarrow> (\<forall>l\<in>set ls. lab_ok l) \<and> length ls < 32"
| "name_ok q (Reference ls) \<longleftrightarrow> (\<forall>l\<in>set ls. lab_ok l) \<and> length ls + 1 + length q < 32"

record rr =
  rr_name :: rr_name
  rr_type :: u16
  rr_class :: u16
  rr_ttl :: "u8 list"
  rr_data :: "u8 list"

definition rr_bytes :: "rr \<Rightarrow> u8 list" where
  "rr_bytes r = name_bytes (rr_name r) @ b16 (rr_type r) @ b16 (rr_class r) @ rr_ttl r @ b16 (of_nat (length (rr_data r))) @ rr_data r"

definition rr_ok :: "u8 list list \<Rightarrow> rr \<Rightarrow> bool" where
  "rr_ok q r \<longleftrightarrow> name_ok q (rr_name r) \<and> length (rr_ttl r) = 4 \<and> length (rr_data r) < 2 ^ 16"

definition is_address :: "rr \<Rightarrow> bool" where
  "is_address r \<longleftrightarrow> rr_type r = 1 \<and> rr_class r = 1 \<and> length (rr_data r) = 4"

definition address :: "rr \<Rightarrow> u64" where
  "address r = foldl (\<lambda>a b. a * 256 + ucast b) 0 (rr_data r)"

definition dns_response :: "u16 \<Rightarrow> u16 \<Rightarrow> u8 list \<Rightarrow> u8 list list \<Rightarrow> u8 list \<Rightarrow> rr list \<Rightarrow> u8 list" where
  "dns_response ident flags counts q qtype rrs =
     (b16 ident @ b16 flags @ b16 1 @ b16 (of_nat (length rrs)) @ counts) @ labs q @ 0 # qtype @ concat (map rr_bytes rrs)"

lemma be16_b16 [simp]: "be16 (ucast (drop_bit 8 v)) (ucast v) = v"
  by (rule bit_word_eqI) (auto simp: be16_def bit_simps)

lemma small_label [simp]: "n < 64 \<Longrightarrow> unat (of_nat n :: u8) = n"
  by (simp add: unat_of_nat)

lemma small_label_bits: "n < 64 \<Longrightarrow> and (of_nat n :: u8) 0xC0 = 0"
proof -
  have "list_all (\<lambda>n. and (of_nat n :: u8) 0xC0 = 0) [0..<64]" by code_simp
  then show "n < 64 \<Longrightarrow> ?thesis" by (simp add: list_all_iff)
qed

lemma small_label_zero: "n < 64 \<Longrightarrow> (of_nat n :: u8) = 0 \<longleftrightarrow> n = 0"
proof -
  have "list_all (\<lambda>n. (of_nat n :: u8) = 0 \<longleftrightarrow> n = 0) [0..<64]" by code_simp
  then show "n < 64 \<Longrightarrow> ?thesis" by (simp add: list_all_iff)
qed

lemma rd_at: "rd (pre @ b # post) (length pre) = Some b"
  by (simp add: rd_def)

lemma skip_label:
  assumes "lab_ok l" "depth < 32"
  shows "skip_loop (pre @ of_nat (length l) # l @ post) (length pre) io depth jumped =
    skip_loop (pre @ of_nat (length l) # l @ post) (length pre + 1 + length l)
      (if \<not> jumped then length pre + 1 + length l else io) (depth + 1) jumped"
  using assms small_label_bits [of "length l"] small_label_zero [of "length l"]
  by (subst skip_loop.simps) (simp add: rd_at lab_ok_def)

lemma skip_labels:
  assumes "\<forall>l\<in>set ls. lab_ok l" "depth + length ls \<le> 32" "jumped \<or> io = length pre"
  shows "skip_loop (pre @ labs ls @ post) (length pre) io depth jumped =
    skip_loop (pre @ labs ls @ post) (length pre + length (labs ls))
      (if jumped then io else length pre + length (labs ls)) (depth + length ls) jumped"
  using assms
proof (induction ls arbitrary: pre io depth)
  case (Cons l ls)
  let ?pre = "pre @ of_nat (length l) # l"
  have m: "pre @ labs (l # ls) @ post = ?pre @ labs ls @ post" by (simp add: labs_def)
  have "skip_loop (?pre @ labs ls @ post) (length pre) io depth jumped =
      skip_loop (?pre @ labs ls @ post) (length ?pre) (if jumped then io else length ?pre) (depth + 1) jumped"
    using skip_label [of l depth pre "labs ls @ post" io jumped] Cons.prems by simp
  also have "\<dots> = skip_loop (?pre @ labs ls @ post) (length ?pre + length (labs ls))
      (if jumped then io else length ?pre + length (labs ls)) (depth + 1 + length ls) jumped"
    using Cons.IH [of "depth + 1" "if jumped then io else length ?pre" ?pre] Cons.prems by simp
  finally show ?case unfolding m by (simp add: labs_def add_ac)
qed (auto simp: labs_def)

lemma skip_zero:
  "depth < 32 \<Longrightarrow> skip_loop (pre @ 0 # post) (length pre) io depth jumped = Some (Some (if jumped then io else length pre + 1))"
  by (subst skip_loop.simps) (simp add: rd_at)

lemma skip_labels_end:
  assumes "\<forall>l\<in>set ls. lab_ok l" "depth + length ls < 32" "jumped \<or> io = length pre"
  shows "skip_loop (pre @ labs ls @ 0 # post) (length pre) io depth jumped =
    Some (Some (if jumped then io else length pre + length (labs ls) + 1))"
proof -
  have "skip_loop (pre @ labs ls @ 0 # post) (length pre) io depth jumped =
    skip_loop ((pre @ labs ls) @ 0 # post) (length (pre @ labs ls)) (if jumped then io else length pre + length (labs ls)) (depth + length ls) jumped"
    using skip_labels [of ls depth jumped io pre "0 # post"] assms by simp
  also have "\<dots> = Some (Some (if jumped then io else length pre + length (labs ls) + 1))"
    using assms(2) by (subst skip_zero) auto
  finally show ?thesis .
qed

lemma skip_reference:
  assumes "depth < 32" "12 < length (pre @ 0xC0 # 12 # post)"
  shows "skip_loop (pre @ 0xC0 # 12 # post) (length pre) io depth False =
    skip_loop (pre @ 0xC0 # 12 # post) 12 (length pre + 2) (depth + 1) True"
proof -
  have b: "and (0xC0 :: u8) 0xC0 = 0xC0" "(0xC0 :: u8) \<noteq> 0" "unat (be16 (and 0xC0 0x3F) 12) = 12" by (simp_all add: be16_def)
  have "rd (pre @ 0xC0 # 12 # post) (length pre + 1) = Some 12" by (simp add: rd_def nth_append)
  then show ?thesis using assms b by (subst skip_loop.simps) (simp add: rd_at)
qed

lemma skip_name_at:
  assumes q: "hdr @ labs q @ 0 # rest = pre @ name_bytes nm @ post" "length hdr = 12" "\<forall>l\<in>set q. lab_ok l"
    and n: "name_ok q nm"
  shows "ush_browser_dns_skip_name (pre @ name_bytes nm @ post) (length pre) = Some (Some (length pre + length (name_bytes nm)))"
proof (cases nm)
  case (Labels ls)
  then show ?thesis using n skip_labels_end [of ls 0 False "length pre" pre post]
    by (simp add: ush_browser_dns_skip_name_def)
next
  case (Reference ls)
  define msg where "msg = pre @ labs ls @ 0xC0 # 12 # post"
  have m: "pre @ name_bytes nm @ post = msg" "hdr @ labs q @ 0 # rest = msg" using q(1) by (simp_all add: msg_def Reference)
  have l: "12 < length msg" using arg_cong [OF m(2), of length] q(2) by simp
  have "skip_loop msg (length pre) (length pre) 0 False =
    skip_loop ((pre @ labs ls) @ 0xC0 # 12 # post) (length (pre @ labs ls)) (length pre + length (labs ls)) (length ls) False"
    using skip_labels [of ls 0 False "length pre" pre "0xC0 # 12 # post"] n by (simp add: msg_def Reference)
  also have "\<dots> = skip_loop msg 12 (length pre + length (labs ls) + 2) (length ls + 1) True"
    using skip_reference [of "length ls" "pre @ labs ls" post] n l by (simp add: msg_def Reference)
  also have "\<dots> = Some (Some (length pre + length (labs ls) + 2))"
    using skip_labels_end [of q "length ls + 1" True "length pre + length (labs ls) + 2" hdr rest] n q(2,3)
    by (simp add: m(2) Reference)
  finally have r: "skip_loop msg (length pre) (length pre) 0 False = Some (Some (length pre + length (labs ls) + 2))" .
  have "length pre < length msg" by (simp add: msg_def)
  then show ?thesis using r unfolding m(1) by (simp add: ush_browser_dns_skip_name_def Reference)
qed

section \<open>Answers\<close>

lemma read_b16: "p = length pre \<Longrightarrow> ush_browser_read_be16 (pre @ b16 v @ post) p = Some v"
  by (simp add: ush_browser_read_be16_def rd_def b16_def nth_append)

lemma length_b16 [simp]: "length (b16 v) = 2"
  by (simp add: b16_def)

lemma push_or_add: "push_bit 8 v + ucast (b :: u8) = or (push_bit 8 v) (ucast b :: u64)"
  by (rule disjunctive_add_eq_or) (auto simp: bit_eq_iff bit_simps dest: bit_imp_le_length)

lemma ipv4_at_data:
  assumes "length d = 4"
  shows "ipv4_at (pre @ d @ post) (length pre) = Some (foldl (\<lambda>a b. a * 256 + ucast b) 0 d)"
proof -
  obtain b0 b1 b2 b3 where d: "d = [b0, b1, b2, b3]"
    using assms by (auto simp: eval_nat_numeral length_Suc_conv)
  have m: "a * 256 = push_bit 8 a" for a :: u64 by (simp add: push_bit_eq_mult)
  have "push_bit 8 (0 :: u64) + ucast b0 = ucast b0" by simp
  then have "foldl (\<lambda>a b. a * 256 + ucast b) (0 :: u64) d =
      or (push_bit 8 (or (push_bit 8 (or (push_bit 8 (ucast b0)) (ucast b1))) (ucast b2))) (ucast b3)"
    by (simp only: d foldl.simps m push_or_add)
  then show ?thesis by (simp add: d ipv4_at_def rd_def nth_append push_bit_or)
qed

lemma unat_eq_4: "unat (4 :: u16) = 4"
  by simp

lemma answer_loop_records:
  assumes "hdr @ labs q @ 0 # rest = pre @ concat (map rr_bytes rrs)" "length hdr = 12" "\<forall>l\<in>set q. lab_ok l"
    and "\<forall>r\<in>set rrs. rr_ok q r"
  shows "answer_loop (length rrs) (pre @ concat (map rr_bytes rrs)) (length pre) = Some (map_option address (List.find is_address rrs))"
  using assms(1,4)
proof (induction rrs arbitrary: pre)
  case (Cons r rrs)
  define msg where "msg = pre @ concat (map rr_bytes (r # rrs))"
  define post where "post = concat (map rr_bytes rrs)"
  define off where "off = length pre + length (name_bytes (rr_name r))"
  have r: "name_ok q (rr_name r)" "length (rr_ttl r) = 4" "length (rr_data r) < 2 ^ 16" using Cons.prems(2) by (simp_all add: rr_ok_def)
  let ?n = "name_bytes (rr_name r)" and ?t = "b16 (rr_type r)" and ?c = "b16 (rr_class r)" and ?l = "b16 (of_nat (length (rr_data r)))"
  have m: "msg = pre @ ?n @ ?t @ ?c @ rr_ttl r @ ?l @ rr_data r @ post" by (simp add: msg_def rr_bytes_def post_def)
  have s: "ush_browser_dns_skip_name msg (length pre) = Some (Some off)"
    unfolding m off_def by (rule skip_name_at [of hdr q rest]) (use Cons.prems assms(2,3) r(1) m msg_def in simp_all)
  have f: "ush_browser_read_be16 msg off = Some (rr_type r)" "ush_browser_read_be16 msg (off + 2) = Some (rr_class r)"
    "ush_browser_read_be16 msg (off + 8) = Some (of_nat (length (rr_data r)))"
    using read_b16 [of off "pre @ ?n" "rr_type r" "?c @ rr_ttl r @ ?l @ rr_data r @ post"]
      read_b16 [of "off + 2" "pre @ ?n @ ?t" "rr_class r" "rr_ttl r @ ?l @ rr_data r @ post"]
      read_b16 [of "off + 8" "pre @ ?n @ ?t @ ?c @ rr_ttl r" "of_nat (length (rr_data r))" "rr_data r @ post"] r(2)
    by (simp_all add: m off_def)
  have u: "unat (of_nat (length (rr_data r)) :: u16) = length (rr_data r)" using r(3) by (simp add: unat_of_nat)
  have len: "length msg = off + 10 + length (rr_data r) + length post" using r(2) by (simp add: m off_def)
  have four: "(of_nat (length (rr_data r)) :: u16) = 4 \<longleftrightarrow> length (rr_data r) = 4"
    using u by (metis of_nat_numeral unat_eq_4)
  have next_off: "off + 10 + length (rr_data r) = length (pre @ rr_bytes r)" using r(2) by (simp add: off_def rr_bytes_def)
  show ?case
  proof (cases "is_address r")
    case True
    then have "ipv4_at msg (off + 10) = Some (address r)"
      using ipv4_at_data [of "rr_data r" "pre @ ?n @ ?t @ ?c @ rr_ttl r @ ?l" post] r(2)
      by (simp add: m off_def is_address_def address_def add.assoc)
    then show ?thesis using True s f u len four unfolding msg_def [symmetric] by (simp add: Let_def is_address_def [of r])
  next
    case False
    have "answer_loop (length rrs) ((pre @ rr_bytes r) @ post) (length (pre @ rr_bytes r)) = Some (map_option address (List.find is_address rrs))"
      unfolding post_def by (rule Cons.IH) (use Cons.prems in simp_all)
    then have "answer_loop (length rrs) msg (off + 10 + length (rr_data r)) = Some (map_option address (List.find is_address rrs))"
      unfolding next_off by (simp add: msg_def post_def)
    then show ?thesis using False s f u len four unfolding msg_def [symmetric] by (auto simp: Let_def is_address_def [of r])
  qed
qed simp

lemma parse_first_a_response:
  assumes "length counts = 4" "length qtype = 4" "length q < 32" "\<forall>l\<in>set q. lab_ok l"
    and "\<forall>r\<in>set rrs. rr_ok q r" "length rrs < 2 ^ 16" "and flags 0x8000 \<noteq> 0" "and flags 0x000F = 0"
  shows "ush_browser_dns_parse_first_a (dns_response ident flags counts q qtype rrs) ident =
    Some (map_option address (List.find is_address rrs))"
proof -
  define hdr where "hdr = b16 ident @ b16 flags @ b16 1 @ b16 (of_nat (length rrs)) @ counts"
  define rest where "rest = qtype @ concat (map rr_bytes rrs)"
  define pre where "pre = hdr @ labs q @ 0 # qtype"
  define msg where "msg = dns_response ident flags counts q qtype rrs"
  have hdr: "length hdr = 12" using assms(1) by (simp add: hdr_def)
  have m: "msg = hdr @ labs q @ 0 # rest" "msg = pre @ concat (map rr_bytes rrs)"
    by (simp_all add: msg_def dns_response_def hdr_def rest_def pre_def)
  have f: "ush_browser_read_be16 msg 0 = Some ident" "ush_browser_read_be16 msg 2 = Some flags" "ush_browser_read_be16 msg 4 = Some 1"
    "ush_browser_read_be16 msg 6 = Some (of_nat (length rrs))"
    using read_b16 [of 0 "[]" ident] read_b16 [of 2 "b16 ident" flags] read_b16 [of 4 "b16 ident @ b16 flags" 1]
      read_b16 [of 6 "b16 ident @ b16 flags @ b16 1" "of_nat (length rrs)"]
    by (simp_all add: m(1) hdr_def)
  have "skip_loop msg 12 12 0 False = Some (Some (12 + length (labs q) + 1))"
    using skip_labels_end [of q 0 False 12 hdr rest] hdr assms(3,4) by (simp add: m(1))
  moreover have "length msg = 12 + length (labs q) + 1 + 4 + length (concat (map rr_bytes rrs))"
    using hdr assms(2) by (simp add: m(1) rest_def)
  ultimately have k: "skip_questions (unat (1 :: u16)) msg 12 = Some (Some (length pre))"
    using hdr assms(2) by (simp add: ush_browser_dns_skip_name_def pre_def)
  have u: "unat (of_nat (length rrs) :: u16) = length rrs" using assms(6) by (simp add: unat_of_nat)
  have "answer_loop (length rrs) (pre @ concat (map rr_bytes rrs)) (length pre) = Some (map_option address (List.find is_address rrs))"
    by (rule answer_loop_records [of hdr q rest]) (use m hdr assms(4,5) in simp_all)
  moreover have "\<not> length msg < 12" by (simp add: m(1) hdr)
  ultimately show ?thesis unfolding msg_def [symmetric] ush_browser_dns_parse_first_a_def
    using f k u assms(7,8) m(2) by simp
qed

text \<open>C20: the answer of the server is read in bounds, whatever bytes arrive; in a well-formed response, with
  compressed or plain names of at most 31 labels and hops, the address found is that of the first record
  of type A and class IN, and there is none exactly when the response has no such record.\<close>

theorem dns_answer_read:
  "ush_browser_dns_parse_first_a any ident \<noteq> None
   \<and> (length counts = 4 \<and> length qtype = 4 \<and> length q < 32 \<and> list_all lab_ok q \<and> list_all (rr_ok q) rrs \<and> length rrs < 2 ^ 16
      \<and> and flags 0x8000 \<noteq> 0 \<and> and flags 0x000F = 0 \<longrightarrow>
      ush_browser_dns_parse_first_a (dns_response ident flags counts q qtype rrs) ident =
        Some (map_option address (List.find is_address rrs)))"
  using parse_first_a_safe parse_first_a_response unfolding list_all_iff by blast

definition demo_rrs :: "rr list" where
  "demo_rrs = [\<lparr>rr_name = Reference [], rr_type = 5, rr_class = 1, rr_ttl = [0, 0, 0, 9], rr_data = [1, 97, 0]\<rparr>,
     \<lparr>rr_name = Labels [[97]], rr_type = 1, rr_class = 1, rr_ttl = [0, 0, 0, 9], rr_data = [10, 0, 2, 15]\<rparr>]"

theorem dns_answer_read_witness:
  "ush_browser_dns_parse_first_a (dns_response 7 0x8180 [0, 0, 0, 0] [[97], [98, 99]] [0, 1, 0, 1] demo_rrs) 7 = Some (Some 0x0A00020F)"
proof -
  have "list_all lab_ok [[97], [98, 99]]" "list_all (rr_ok [[97], [98, 99]]) demo_rrs"
    by (simp_all add: lab_ok_def demo_rrs_def rr_ok_def)
  moreover have "map_option address (List.find is_address demo_rrs) = Some 0x0A00020F"
    by (simp add: demo_rrs_def is_address_def address_def)
  moreover have "and (0x8180 :: u16) 0x8000 \<noteq> 0" "and (0x8180 :: u16) 0x000F = 0" by simp_all
  ultimately show ?thesis
    using dns_answer_read [of "[]" 7 "[0, 0, 0, 0]" "[0, 1, 0, 1]" "[[97], [98, 99]]" demo_rrs "0x8180"] by (simp add: demo_rrs_def)
qed

section \<open>Queries\<close>

definition host_label :: "string \<Rightarrow> bool" where
  "host_label l \<longleftrightarrow> 0 < length l \<and> length l < 64 \<and> CHR ''.'' \<notin> set l"

definition lab_bytes :: "string \<Rightarrow> u8 list" where
  "lab_bytes l = map (\<lambda>c. of_int (uchar c)) l"

definition host_text :: "string list \<Rightarrow> string" where
  "host_text ls = concat (map (\<lambda>l. l @ ''.'') ls)"

lemma encode_step:
  assumes "host_label l" "rest = [] \<or> hd rest = CHR ''.''" "length out + length l + 2 \<le> cap"
  shows "encode_loop (l @ rest) cap out = encode_loop (tl rest) cap (out @ of_nat (length l) # lab_bytes l)"
proof -
  have t: "takeWhile (\<lambda>c. c \<noteq> CHR ''.'') (l @ rest) = l" "dropWhile (\<lambda>c. c \<noteq> CHR ''.'') (l @ rest) = rest"
    using assms(1,2) by (cases rest; force simp: host_label_def takeWhile_append dropWhile_append)+
  have n: "l @ rest \<noteq> []" "\<not> (length l = 0 \<or> 63 < length l)" using assms(1) by (auto simp: host_label_def)
  have "(if rest \<noteq> [] then tl rest else rest) = tl rest" by simp
  then show ?thesis using t n assms(3) by (subst encode_loop.simps) (simp add: Let_def lab_bytes_def)
qed

text \<open>A host name with a dot behind every label, and the same without the last dot.\<close>

lemma encode_hosts:
  assumes "list_all host_label ls" "length out + length (labs (map lab_bytes ls)) + 1 \<le> cap"
  shows "encode_loop (host_text ls) cap out = Some (out @ labs (map lab_bytes ls) @ [0])"
    and "ls \<noteq> [] \<Longrightarrow> encode_loop (butlast (host_text ls)) cap out = Some (out @ labs (map lab_bytes ls) @ [0])"
proof -
  have d: "encode_loop (host_text ls) cap out = Some (out @ labs (map lab_bytes ls) @ [0])"
    if "list_all host_label ls" "length out + length (labs (map lab_bytes ls)) + 1 \<le> cap" for ls out
    using that
  proof (induction ls arbitrary: out)
    case Nil
    then show ?case by (subst encode_loop.simps) (simp add: host_text_def labs_def)
  next
    case (Cons l ls)
    then have "encode_loop (l @ ''.'' @ host_text ls) cap out = encode_loop (host_text ls) cap (out @ of_nat (length l) # lab_bytes l)"
      using encode_step [of l "''.'' @ host_text ls" out cap] by (simp add: labs_def lab_bytes_def)
    then show ?case using Cons by (simp add: host_text_def labs_def lab_bytes_def)
  qed
  show "encode_loop (host_text ls) cap out = Some (out @ labs (map lab_bytes ls) @ [0])" by (rule d [OF assms])
  show "encode_loop (butlast (host_text ls)) cap out = Some (out @ labs (map lab_bytes ls) @ [0])" if "ls \<noteq> []"
    using that assms
  proof (induction ls arbitrary: out)
    case (Cons l ls)
    show ?case
    proof (cases "ls = []")
      case True
      have "encode_loop l cap out = encode_loop [] cap (out @ of_nat (length l) # lab_bytes l)"
        using encode_step [of l "[]" out cap] Cons.prems True by (simp add: labs_def lab_bytes_def)
      then show ?thesis using True by (simp add: host_text_def labs_def lab_bytes_def encode_loop.simps [of "[]"])
    next
      case False
      have b: "butlast (host_text (l # ls)) = l @ ''.'' @ butlast (host_text ls)"
        using False by (cases ls) (simp_all add: host_text_def butlast_append)
      have "encode_loop (l @ ''.'' @ butlast (host_text ls)) cap out = encode_loop (butlast (host_text ls)) cap (out @ of_nat (length l) # lab_bytes l)"
        using encode_step [of l "''.'' @ butlast (host_text ls)" out cap] Cons.prems by (simp add: labs_def lab_bytes_def)
      then show ?thesis unfolding b using Cons.IH False Cons.prems by (simp add: labs_def lab_bytes_def)
    qed
  qed simp
qed

definition query_bytes :: "u16 \<Rightarrow> u8 list \<Rightarrow> u8 list" where
  "query_bytes txid qname = b16 txid @ b16 0x0100 @ b16 1 @ b16 0 @ b16 0 @ b16 0 @ qname @ b16 1 @ b16 1"

lemma ucast_low: "(ucast (and v 0xFF :: u16) :: u8) = ucast v"
proof -
  have m: "(0xFF :: u16) = mask 8" by (simp add: mask_eq_exp_minus_1)
  show ?thesis unfolding m by (rule bit_word_eqI) (auto simp: bit_simps)
qed

lemma write_be16_at: "p = length pre \<Longrightarrow> ush_browser_write_be16 (pre @ x # y # post) p v = pre @ b16 v @ post"
  by (simp add: ush_browser_write_be16_def b16_def list_update_append ucast_low)

lemma dns_query_spec:
  assumes "length qname + 16 \<le> USH_BROWSER_DNS_PACKET_MAX"
  shows "dns_query txid qname = Some (query_bytes txid qname)"
proof -
  define n where "n = USH_BROWSER_DNS_PACKET_MAX - 16 - length qname"
  have "USH_BROWSER_DNS_PACKET_MAX - (12 + length qname) = 4 + n" "USH_BROWSER_DNS_PACKET_MAX = 12 + (length qname + 4 + n)"
    using assms by (simp_all add: n_def USH_BROWSER_DNS_PACKET_MAX_def)
  then have "take 12 (replicate USH_BROWSER_DNS_PACKET_MAX 0) @ qname @ drop (12 + length qname) (replicate USH_BROWSER_DNS_PACKET_MAX 0)
      = [] @ 0 # 0 # replicate 10 0 @ qname @ 0 # 0 # 0 # 0 # replicate n (0 :: u8)"
    by (simp add: replicate_add eval_nat_numeral)
  moreover have "ush_browser_write_be16 ([] @ 0 # 0 # replicate 10 0 @ qname @ 0 # 0 # 0 # 0 # replicate n 0) 0 txid
      = b16 txid @ 0 # 0 # replicate 8 0 @ qname @ 0 # 0 # 0 # 0 # replicate n 0"
    by (subst write_be16_at) (simp_all add: eval_nat_numeral)
  moreover have "ush_browser_write_be16 (b16 txid @ 0 # 0 # replicate 8 0 @ qname @ 0 # 0 # 0 # 0 # replicate n 0) 2 0x0100
      = (b16 txid @ b16 0x0100) @ 0 # 0 # replicate 6 0 @ qname @ 0 # 0 # 0 # 0 # replicate n 0"
    by (subst write_be16_at) (simp_all add: eval_nat_numeral)
  moreover have "ush_browser_write_be16 ((b16 txid @ b16 0x0100) @ 0 # 0 # replicate 6 0 @ qname @ 0 # 0 # 0 # 0 # replicate n 0) 4 1
      = (b16 txid @ b16 0x0100 @ b16 1) @ 0 # 0 # replicate 4 0 @ qname @ 0 # 0 # 0 # 0 # replicate n 0"
    by (subst write_be16_at) (simp_all add: eval_nat_numeral)
  moreover have "ush_browser_write_be16 ((b16 txid @ b16 0x0100 @ b16 1) @ 0 # 0 # replicate 4 0 @ qname @ 0 # 0 # 0 # 0 # replicate n 0) 6 0
      = (b16 txid @ b16 0x0100 @ b16 1 @ b16 0) @ 0 # 0 # replicate 2 0 @ qname @ 0 # 0 # 0 # 0 # replicate n 0"
    by (subst write_be16_at) (simp_all add: eval_nat_numeral)
  moreover have "ush_browser_write_be16 ((b16 txid @ b16 0x0100 @ b16 1 @ b16 0) @ 0 # 0 # replicate 2 0 @ qname @ 0 # 0 # 0 # 0 # replicate n 0) 8 0
      = (b16 txid @ b16 0x0100 @ b16 1 @ b16 0 @ b16 0) @ 0 # 0 # qname @ 0 # 0 # 0 # 0 # replicate n 0"
    by (subst write_be16_at) (simp_all add: eval_nat_numeral)
  moreover have "ush_browser_write_be16 ((b16 txid @ b16 0x0100 @ b16 1 @ b16 0 @ b16 0) @ 0 # 0 # qname @ 0 # 0 # 0 # 0 # replicate n 0) 10 0
      = (b16 txid @ b16 0x0100 @ b16 1 @ b16 0 @ b16 0 @ b16 0 @ qname) @ 0 # 0 # 0 # 0 # replicate n 0"
    by (subst write_be16_at) simp_all
  moreover have "ush_browser_write_be16 ((b16 txid @ b16 0x0100 @ b16 1 @ b16 0 @ b16 0 @ b16 0 @ qname) @ 0 # 0 # 0 # 0 # replicate n 0) (12 + length qname) 1
      = (b16 txid @ b16 0x0100 @ b16 1 @ b16 0 @ b16 0 @ b16 0 @ qname @ b16 1) @ 0 # 0 # replicate n 0"
    by (subst write_be16_at) simp_all
  moreover have "ush_browser_write_be16 ((b16 txid @ b16 0x0100 @ b16 1 @ b16 0 @ b16 0 @ b16 0 @ qname @ b16 1) @ 0 # 0 # replicate n 0) (12 + length qname + 2) 1
      = query_bytes txid qname @ replicate n 0"
    by (subst write_be16_at) (simp_all add: query_bytes_def)
  moreover have "\<not> USH_BROWSER_DNS_PACKET_MAX < 12 + length qname + 4" "length (query_bytes txid qname) = 12 + length qname + 4"
    using assms by (simp_all add: query_bytes_def)
  ultimately show ?thesis unfolding dns_query_def Let_def by simp
qed

section \<open>The exchange\<close>

text \<open>The packets of the first \<open>n\<close> calls, had all of them been received, and what a packet gives.\<close>

primrec received :: "'k dns_kernel \<Rightarrow> nat \<Rightarrow> 'k \<Rightarrow> (u8 list \<times> u64 \<times> u64) list" where
  "received K 0 k = []"
| "received K (Suc n) k =
     (case dk_udp_recv K USH_BROWSER_DNS_PACKET_MAX k of (p, ip, port, k) \<Rightarrow>
        (p, ip, port) # received K n (if p = [] then dk_sleep_ticks K 2 k else k))"

definition packet_address :: "u64 \<Rightarrow> u16 \<Rightarrow> u8 list \<times> u64 \<times> u64 \<Rightarrow> u64 option" where
  "packet_address server txid = (\<lambda>(p, ip, port).
     if p = [] \<or> port \<noteq> 53 \<or> ip \<noteq> server then None else the (ush_browser_dns_parse_first_a p txid))"

definition first_address :: "u64 \<Rightarrow> u16 \<Rightarrow> (u8 list \<times> u64 \<times> u64) list \<Rightarrow> u64 option" where
  "first_address server txid ps =
     (case List.find (\<lambda>p. packet_address server txid p \<noteq> None) ps of None \<Rightarrow> None | Some p \<Rightarrow> packet_address server txid p)"

lemma recv_loop_first:
  "map_option fst (recv_loop K server txid n k) = Some (first_address server txid (received K n k))"
proof (induction n arbitrary: k)
  case (Suc n)
  obtain p ip port k1 where r: "dk_udp_recv K USH_BROWSER_DNS_PACKET_MAX k = (p, ip, port, k1)" using prod_cases4 by blast
  obtain a where a: "ush_browser_dns_parse_first_a p txid = Some a" using parse_first_a_safe by blast
  show ?case
  proof (cases "packet_address server txid (p, ip, port)")
    case None
    then have "first_address server txid (received K (Suc n) k) = first_address server txid (received K n (if p = [] then dk_sleep_ticks K 2 k1 else k1))"
      by (simp add: first_address_def r)
    then show ?thesis using Suc r a None by (auto simp: packet_address_def split: if_splits)
  next
    case (Some b)
    then show ?thesis using r a by (auto simp: packet_address_def first_address_def split: if_splits)
  qed
qed (simp add: first_address_def)

text \<open>C19: resolving a host sends one well-formed query for it to the configured server, and gives the address
  of the first of the next 700 packets that comes from port 53 of that server, carries the identifier of
  the query and has an address record; every other packet is ignored.\<close>

theorem dns_resolve_first_answer:
  assumes "ls \<noteq> []" "list_all host_label ls" "length (labs (map lab_bytes ls)) + 17 \<le> USH_BROWSER_DNS_PACKET_MAX"
    and "dk_dns_server K k \<noteq> 0" "txid = dns_txid (dk_timer_ticks K k)"
    and "query = query_bytes txid (labs (map lab_bytes ls) @ [0])"
    and "dk_udp_send K (dk_dns_server K k) 53 (ucast (dns_src_port txid)) query k = (of_nat (length query), k1)"
  shows "map_option fst (ush_browser_dns_resolve_ipv4 K (butlast (host_text ls)) k) =
    Some (first_address (dk_dns_server K k) txid (received K 700 k1))"
proof -
  let ?q = "labs (map lab_bytes ls) @ [0]"
  obtain l ls' where l: "ls = l # ls'" using assms(1) by (cases ls) auto
  then have host: "butlast (host_text ls) \<noteq> []" using assms(2) by (auto simp: host_text_def host_label_def butlast_append)
  have "ush_browser_dns_encode_qname (butlast (host_text ls)) (USH_BROWSER_DNS_PACKET_MAX - 12) = Some ?q"
    using encode_hosts(2) [of ls "[]" "USH_BROWSER_DNS_PACKET_MAX - 12"] assms(1-3) host
    by (simp add: ush_browser_dns_encode_qname_def USH_BROWSER_DNS_PACKET_MAX_def)
  moreover have "dns_query txid ?q = Some query"
    unfolding assms(6) by (rule dns_query_spec) (use assms(3) in simp)
  ultimately show ?thesis
    using host assms(4,5,7) recv_loop_first [of K "dk_dns_server K k" txid 700 k1]
    by (simp add: ush_browser_dns_resolve_ipv4_def Let_def)
qed

text \<open>A server that answers the first query with the demonstration records.\<close>

definition demo_dns :: "bool dns_kernel" where
  "demo_dns = \<lparr>dk_dns_server = \<lambda>_. 1, dk_timer_ticks = \<lambda>_. 0, dk_udp_send = \<lambda>ip port src q k. (of_nat (length q), True),
     dk_udp_recv = \<lambda>n k. (dns_response 0x4A31 0x8180 [0, 0, 0, 0] [[97], [98, 99]] [0, 1, 0, 1] demo_rrs, 1, 53, k), dk_sleep_ticks = \<lambda>n k. k\<rparr>"

theorem dns_resolve_first_answer_witness:
  "map_option fst (ush_browser_dns_resolve_ipv4 demo_dns ''a.bc'' False) = Some (Some 0x0A00020F)"
proof -
  have h: "butlast (host_text [''a'', ''bc'']) = ''a.bc''" "list_all host_label [''a'', ''bc'']"
    "length (labs (map lab_bytes [''a'', ''bc''])) + 17 \<le> USH_BROWSER_DNS_PACKET_MAX"
    by (simp_all add: host_text_def host_label_def labs_def lab_bytes_def USH_BROWSER_DNS_PACKET_MAX_def)
  have t: "dns_txid 0 = 0x4A31" by (simp add: dns_txid_def)
  define msg where "msg = dns_response 0x4A31 0x8180 [0, 0, 0, 0] [[97], [98, 99]] [0, 1, 0, 1] demo_rrs"
  have "list_all lab_ok [[97], [98, 99]]" "list_all (rr_ok [[97], [98, 99]]) demo_rrs"
    by (simp_all add: lab_ok_def demo_rrs_def rr_ok_def)
  moreover have "map_option address (List.find is_address demo_rrs) = Some 0x0A00020F"
    by (simp add: demo_rrs_def is_address_def address_def)
  ultimately have "ush_browser_dns_parse_first_a msg 0x4A31 = Some (Some 0x0A00020F)"
    unfolding msg_def using parse_first_a_response [of "[0, 0, 0, 0]" "[0, 1, 0, 1]" "[[97], [98, 99]]" demo_rrs "0x8180" "0x4A31"]
    by (simp add: list_all_iff demo_rrs_def)
  moreover have "msg \<noteq> []" by (simp add: msg_def dns_response_def b16_def)
  ultimately have "first_address 1 0x4A31 (received demo_dns (Suc n) True) = Some 0x0A00020F" for n
    by (simp add: first_address_def packet_address_def demo_dns_def flip: msg_def)
  from this [of 699] have "first_address 1 0x4A31 (received demo_dns 700 True) = Some 0x0A00020F" by simp
  moreover have k: "dk_dns_server demo_dns False = 1" "dk_timer_ticks demo_dns False = 0"
    "dk_udp_send demo_dns 1 53 src q False = (of_nat (length q), True)" for src q by (simp_all add: demo_dns_def)
  have "map_option fst (ush_browser_dns_resolve_ipv4 demo_dns (butlast (host_text [''a'', ''bc''])) False)
    = Some (first_address (dk_dns_server demo_dns False) 0x4A31 (received demo_dns 700 True))"
    by (rule dns_resolve_first_answer [OF _ h(2,3) _ _ refl]) (simp_all only: k t, simp_all)
  ultimately show ?thesis unfolding h(1) k(1) by (simp only:)
qed

end
