(* ===== verification/BrowserUrl.thy ===== *)
theory BrowserUrl
  imports UshPath
begin

text \<open>
  Addresses in the browser: \<open>apps/browser/browser_url_parse.c\<close> (recognising and splitting URLs, dotted
  addresses) and \<open>apps/browser/browser_url.c\<close> (the address that a link on a page leads to). The segments of
  a path are kept in an array of 32 segments of at most 63 bytes; it is a second implementation of the
  interface \<open>path_stack\<close> of \<open>UshPath\<close>. \<open>snprintf\<close> with \<open>%s\<close> and \<open>%u\<close> cuts its text to the size of the
  buffer (\<open>vsnprintf_correct\<close> in \<open>LibcStdio\<close>), which is \<open>cut_text\<close> here.
\<close>

section \<open>Definitions\<close>

definition USH_BROWSER_HOST_MAX :: nat where "USH_BROWSER_HOST_MAX = 128"
definition USH_BROWSER_PATH_MAX :: nat where "USH_BROWSER_PATH_MAX = 256"
definition USH_BROWSER_LINK_HREF_MAX :: nat where "USH_BROWSER_LINK_HREF_MAX = 192"
definition USH_BROWSER_SEG_MAX :: nat where "USH_BROWSER_SEG_MAX = 32"
definition USH_BROWSER_SEG_LEN_MAX :: nat where "USH_BROWSER_SEG_LEN_MAX = 63"

record ush_browser_url =
  bu_host :: string
  bu_path :: string
  bu_port :: nat
  bu_tls :: bool

definition ush_browser_is_http_url :: "string \<Rightarrow> bool" where
  "ush_browser_is_http_url text = (take 7 text = ''http://'')"

definition ush_browser_is_https_url :: "string \<Rightarrow> bool" where
  "ush_browser_is_https_url text = (take 8 text = ''https://'')"

fun ipv4_loop :: "nat \<Rightarrow> nat \<Rightarrow> nat \<Rightarrow> bool \<Rightarrow> string \<Rightarrow> nat option" where
  "ipv4_loop acc v parts has_digit [] =
     (if \<not> has_digit \<or> parts \<noteq> 3 then None else Some ((acc * 2 ^ 8 + v) mod 2 ^ 32))"
| "ipv4_loop acc v parts has_digit (ch # cs) =
     (if 48 \<le> schar ch \<and> schar ch \<le> 57
      then (let v = v * 10 + nat (schar ch - 48) in if 255 < v then None else ipv4_loop acc v parts True cs)
      else if ch = CHR ''.''
      then (if \<not> has_digit \<or> 3 \<le> parts then None else ipv4_loop (acc * 2 ^ 8 + v) 0 (parts + 1) False cs)
      else None)"

definition ush_browser_parse_ipv4_be :: "string \<Rightarrow> nat option" where
  "ush_browser_parse_ipv4_be text = ipv4_loop 0 0 0 False text"

text \<open>The port behind the first colon of the host part.\<close>

definition url_port :: "string \<Rightarrow> nat \<Rightarrow> nat option" where
  "url_port h default_port =
     (let i = length (takeWhile (\<lambda>c. c \<noteq> CHR '':'') h) in
      if i = length h then Some default_port
      else if i = 0 \<or> length h \<le> i + 1 then None
      else (case ush_parse_u64_dec (Some (drop (i + 1) h)) of
          None \<Rightarrow> None
        | Some parsed_port \<Rightarrow> if parsed_port = 0 \<or> 65535 < parsed_port then None else Some parsed_port))"

definition ush_browser_parse_url :: "string \<Rightarrow> ush_browser_url option" where
  "ush_browser_parse_url url =
     (if url = [] then None
      else if \<not> ush_browser_is_http_url url \<and> \<not> ush_browser_is_https_url url then None
      else (let tls = \<not> ush_browser_is_http_url url;
                default_port = (if tls then 443 else 80);
                p = drop (if tls then 8 else 7) url;
                h = takeWhile (\<lambda>c. c \<noteq> CHR ''/'') p;
                rest = dropWhile (\<lambda>c. c \<noteq> CHR ''/'') p
            in if h = [] \<or> USH_BROWSER_HOST_MAX \<le> length h then None
               else (case url_port h default_port of
                   None \<Rightarrow> None
                 | Some port \<Rightarrow>
                     let host = takeWhile (\<lambda>c. c \<noteq> CHR '':'') h;
                         path = (if rest \<noteq> [] then rest else ''/'')
                     in if host = [] then None
                        else if USH_BROWSER_PATH_MAX \<le> length path then None
                        else Some \<lparr>bu_host = host, bu_path = path, bu_port = port, bu_tls = tls\<rparr>)))"

fun copy_until :: "(char \<Rightarrow> bool) \<Rightarrow> string \<Rightarrow> nat \<Rightarrow> nat \<Rightarrow> string option" where
  "copy_until stop [] i out_size = Some []"
| "copy_until stop (c # cs) i out_size =
     (if stop c then Some []
      else if out_size \<le> i + 1 then None
      else map_option ((#) c) (copy_until stop cs (i + 1) out_size))"

definition ush_browser_strip_fragment :: "string \<Rightarrow> nat \<Rightarrow> string option" where
  "ush_browser_strip_fragment in_text out_size =
     (if out_size = 0 then None else copy_until (\<lambda>c. c = CHR ''#'') in_text 0 out_size)"

definition ush_browser_copy_until_query_or_fragment :: "string \<Rightarrow> nat \<Rightarrow> string option" where
  "ush_browser_copy_until_query_or_fragment in_text out_size =
     (if out_size = 0 then None else copy_until (\<lambda>c. c = CHR ''?'' \<or> c = CHR ''#'') in_text 0 out_size)"

definition seg_push :: "string list \<Rightarrow> string \<Rightarrow> string list option" where
  "seg_push segments s =
     (if length s = 0 \<or> USH_BROWSER_SEG_LEN_MAX < length s \<or> USH_BROWSER_SEG_MAX \<le> length segments then None
      else Some (segments @ [s]))"

function seg_loop :: "string list \<Rightarrow> string \<Rightarrow> string list option" where
  "seg_loop segments path =
     (let path = dropWhile (\<lambda>c. c = CHR ''/'') path in
      if path = [] then Some segments
      else (let s = takeWhile (\<lambda>c. c \<noteq> CHR ''/'') path; rest = dropWhile (\<lambda>c. c \<noteq> CHR ''/'') path in
        if s = ''.'' then seg_loop segments rest
        else if s = ''..'' then seg_loop (butlast segments) rest
        else (case seg_push segments s of None \<Rightarrow> None | Some segments \<Rightarrow> seg_loop segments rest)))"
  by pat_completeness auto
termination by (relation "measure (\<lambda>(segments, path). length path)") (auto simp: component_shorter)

declare seg_loop.simps [simp del]

text \<open>Writing the segments behind \<open>out\<close>; a slash follows every one but the last.\<close>

fun join_loop :: "string \<Rightarrow> string list \<Rightarrow> nat \<Rightarrow> string option" where
  "join_loop out [] out_size = Some out"
| "join_loop out (s # segments) out_size =
     (if out_size \<le> length out + length s + 1 then None
      else join_loop (out @ s @ (if segments \<noteq> [] then ''/'' else [])) segments out_size)"

definition ush_browser_normalize_slash_path :: "string \<Rightarrow> nat \<Rightarrow> string option" where
  "ush_browser_normalize_slash_path path out_size =
     (if out_size < 2 then None
      else (case seg_loop [] path of
          None \<Rightarrow> None
        | Some segments \<Rightarrow> if segments = [] then Some ''/'' else join_loop ''/'' segments out_size))"

definition cut_text :: "nat \<Rightarrow> string \<Rightarrow> string" where
  "cut_text out_size s = take (out_size - 1) s"

definition to_last_slash :: "string \<Rightarrow> string" where
  "to_last_slash s = rev (dropWhile (\<lambda>c. c \<noteq> CHR ''/'') (rev s))"

definition ush_browser_join_relative_path :: "string \<Rightarrow> string \<Rightarrow> nat \<Rightarrow> string option" where
  "ush_browser_join_relative_path base_path href_path out_size =
     (if out_size = 0 then None
      else if ch_at href_path 0 = CHR ''/'' then ush_browser_normalize_slash_path href_path out_size
      else (case ush_browser_copy_until_query_or_fragment base_path USH_BROWSER_PATH_MAX of
          None \<Rightarrow> None
        | Some base_clean \<Rightarrow>
            if CHR ''/'' \<notin> set base_clean
            then ush_browser_normalize_slash_path (cut_text (USH_BROWSER_PATH_MAX * 2) (''/'' @ href_path)) out_size
            else (let dir = to_last_slash base_clean in
              if USH_BROWSER_PATH_MAX * 2 < length dir + length href_path + 1 then None
              else ush_browser_normalize_slash_path (dir @ cut_text (USH_BROWSER_PATH_MAX * 2 - length dir) href_path) out_size)))"

definition copied :: "nat \<Rightarrow> string \<Rightarrow> string option" where
  "copied out_size s = (let out = ush_copy [] out_size (Some s) in if out = [] then None else Some out)"

definition url_scheme :: "ush_browser_url \<Rightarrow> string" where
  "url_scheme u = (if bu_tls u then ''https'' else ''http'')"

text \<open>\<open>%s://%s\<close> or \<open>%s://%s:%u\<close>, as the port is the default one or not.\<close>

definition url_origin_text :: "ush_browser_url \<Rightarrow> string" where
  "url_origin_text u = url_scheme u @ ''://'' @ bu_host u @
     (if bu_port u = (if bu_tls u then 443 else 80) then [] else '':'' @ u64_dec (bu_port u))"

definition ush_browser_resolve_http_href :: "string \<Rightarrow> string \<Rightarrow> nat \<Rightarrow> string option" where
  "ush_browser_resolve_http_href base_source href out_size =
     (if out_size = 0 then None
      else (case ush_browser_strip_fragment href USH_BROWSER_LINK_HREF_MAX of
          None \<Rightarrow> None
        | Some href \<Rightarrow>
            if href = [] then copied out_size base_source
            else if ush_browser_is_http_url href \<or> ush_browser_is_https_url href then copied out_size href
            else (case ush_browser_parse_url base_source of
                None \<Rightarrow> None
              | Some base \<Rightarrow>
                  if ch_at href 0 = CHR ''/'' \<and> ch_at href 1 = CHR ''/''
                  then Some (cut_text out_size (url_scheme base @ '':'' @ href))
                  else if ch_at href 0 = CHR ''?''
                  then (case ush_browser_copy_until_query_or_fragment (bu_path base) USH_BROWSER_PATH_MAX of
                      None \<Rightarrow> None
                    | Some base_path_only \<Rightarrow> Some (cut_text out_size (url_origin_text base @ base_path_only @ href)))
                  else (case ush_browser_join_relative_path (bu_path base) href USH_BROWSER_PATH_MAX of
                      None \<Rightarrow> None
                    | Some resolved_path \<Rightarrow> Some (cut_text out_size (url_origin_text base @ resolved_path))))))"

definition ush_browser_resolve_local_href :: "string \<Rightarrow> string \<Rightarrow> nat \<Rightarrow> string option" where
  "ush_browser_resolve_local_href base_source href out_size =
     (if out_size = 0 then None
      else (case ush_browser_strip_fragment href USH_BROWSER_LINK_HREF_MAX of
          None \<Rightarrow> None
        | Some href \<Rightarrow>
            if href = [] then copied out_size base_source
            else if ch_at href 0 = CHR ''/''
            then (case ush_browser_normalize_slash_path href USH_PATH_MAX of
                None \<Rightarrow> None | Some resolved \<Rightarrow> copied out_size resolved)
            else (let base_abs = (case ush_browser_normalize_slash_path base_source USH_PATH_MAX of
                      None \<Rightarrow> ush_copy [] USH_PATH_MAX (Some base_source) | Some p \<Rightarrow> p) in
              if ch_at href 0 = CHR ''?'' then copied out_size base_abs
              else (case ush_browser_join_relative_path base_abs href USH_PATH_MAX of
                  None \<Rightarrow> None | Some resolved \<Rightarrow> copied out_size resolved))))"

definition ush_browser_resolve_href :: "string \<Rightarrow> string \<Rightarrow> nat \<Rightarrow> string option" where
  "ush_browser_resolve_href base_source href out_size =
     (if out_size = 0 then None
      else if ush_browser_is_http_url href \<or> ush_browser_is_https_url href then copied out_size href
      else if ush_browser_is_http_url base_source \<or> ush_browser_is_https_url base_source
      then ush_browser_resolve_http_href base_source href out_size
      else ush_browser_resolve_local_href base_source href out_size)"

section \<open>Dotted addresses\<close>

fun split_dots :: "string \<Rightarrow> string list" where
  "split_dots [] = [[]]"
| "split_dots (c # cs) = (if c = CHR ''.'' then [] # split_dots cs else (c # hd (split_dots cs)) # tl (split_dots cs))"

abbreviation dec_digit :: "char \<Rightarrow> bool" where
  "dec_digit c \<equiv> 48 \<le> schar c \<and> schar c \<le> 57"

abbreviation dec_from :: "nat \<Rightarrow> string \<Rightarrow> nat" where
  "dec_from \<equiv> foldl (\<lambda>v c. v * 10 + nat (schar c - 48))"

definition quad_part :: "string \<Rightarrow> bool" where
  "quad_part p \<longleftrightarrow> p \<noteq> [] \<and> list_all dec_digit p \<and> dec_from 0 p < 256"

lemma split_dots_ne [simp]: "split_dots s \<noteq> []"
  by (cases s) auto

lemma dec_from_ge: "v \<le> dec_from v ds"
proof (induction ds arbitrary: v)
  case (Cons c ds)
  have "v \<le> v * 10 + nat (schar c - 48)" by simp
  also have "\<dots> \<le> dec_from (v * 10 + nat (schar c - 48)) ds" by (rule Cons)
  finally show ?case by simp
qed simp

lemma ipv4_loop_split:
  "ipv4_loop acc v parts has cs =
     (if (has \<or> hd (split_dots cs) \<noteq> []) \<and> list_all dec_digit (hd (split_dots cs)) \<and> (hd (split_dots cs) \<noteq> [] \<longrightarrow> dec_from v (hd (split_dots cs)) < 256)
         \<and> list_all quad_part (tl (split_dots cs)) \<and> parts + length (tl (split_dots cs)) = 3
      then Some (foldl (\<lambda>a p. a * 256 + dec_from 0 p) (acc * 256 + dec_from v (hd (split_dots cs))) (tl (split_dots cs)) mod 2 ^ 32)
      else None)"
proof (induction acc v parts has cs rule: ipv4_loop.induct)
  case (2 acc v parts has ch cs)
  have dot: "\<not> dec_digit (CHR ''.'')" by code_simp
  obtain d ds where s: "split_dots cs = d # ds" by (cases "split_dots cs") auto
  consider "dec_digit ch" "255 < v * 10 + nat (schar ch - 48)" | "dec_digit ch" "\<not> 255 < v * 10 + nat (schar ch - 48)"
    | "\<not> dec_digit ch" "ch = CHR ''.''" | "\<not> dec_digit ch" "ch \<noteq> CHR ''.''" by blast
  then show ?case
  proof cases
    case 1
    then have "256 \<le> dec_from (v * 10 + nat (schar ch - 48)) d" using dec_from_ge [of "v * 10 + nat (schar ch - 48)" d] by linarith
    then show ?thesis using 1 dot s by auto
  next
    case 2
    then have n: "ch \<noteq> CHR ''.''" using dot by auto
    then show ?thesis using "2.IH"(1) [OF 2(1) refl 2(2)] 2 s
      by (cases d) (auto simp: Let_def)
  next
    case 3
    then show ?thesis using "2.IH"(2) [OF 3] dot s by (auto simp: quad_part_def)
  next
    case 4
    then have "ipv4_loop acc v parts has (ch # cs) = None" by (simp only: ipv4_loop.simps if_False)
    then show ?thesis using 4 by (simp only: split_dots.simps if_False list.sel list.pred_inject if_cancel simp_thms)
  qed
qed simp

text \<open>The parser of dotted addresses accepts exactly four parts separated by dots, each one or more digits
  with a value below 256, and gives their big-endian number.\<close>

theorem parse_ipv4_exact:
  "ush_browser_parse_ipv4_be text =
     (if length (split_dots text) = 4 \<and> list_all quad_part (split_dots text)
      then Some (foldl (\<lambda>a p. a * 256 + dec_from 0 p) 0 (split_dots text)) else None)"
proof -
  obtain d ds where s: "split_dots text = d # ds" by (cases "split_dots text") auto
  have b: "foldl (\<lambda>a p. a * 256 + dec_from 0 p) a ps < (a + 1) * 256 ^ length ps" if "list_all quad_part ps" for a ps
    using that
  proof (induction ps arbitrary: a)
    case (Cons p ps)
    then have "a * 256 + dec_from 0 p + 1 \<le> (a + 1) * 256" by (auto simp: quad_part_def)
    then have "(a * 256 + dec_from 0 p + 1) * 256 ^ length ps \<le> (a + 1) * 256 * 256 ^ length ps" by (rule mult_le_mono1)
    moreover have "foldl (\<lambda>a p. a * 256 + dec_from 0 p) (a * 256 + dec_from 0 p) ps < (a * 256 + dec_from 0 p + 1) * 256 ^ length ps"
      by (rule Cons.IH) (use Cons.prems in simp)
    ultimately show ?case by (simp only: foldl_Cons list.size power_add mult.assoc power_one_right add_0 One_nat_def [symmetric] mult.commute [of "256 ^ length ps" 256])
  qed simp
  show ?thesis
  proof (cases "length (split_dots text) = 4 \<and> list_all quad_part (split_dots text)")
    case True
    then have "foldl (\<lambda>a p. a * 256 + dec_from 0 p) 0 (split_dots text) < 2 ^ 32" using b [of "split_dots text" 0] by simp
    then show ?thesis using True s by (simp add: ush_browser_parse_ipv4_be_def ipv4_loop_split quad_part_def)
  next
    case False
    then show ?thesis using s by (auto simp: ush_browser_parse_ipv4_be_def ipv4_loop_split quad_part_def)
  qed
qed

section \<open>Paths\<close>

definition seg_fits :: "string list \<Rightarrow> bool" where
  "seg_fits st \<longleftrightarrow> length st \<le> USH_BROWSER_SEG_MAX \<and> (\<forall>c\<in>set st. length c \<le> USH_BROWSER_SEG_LEN_MAX)"

definition seg_rep :: "string list \<Rightarrow> string list \<Rightarrow> bool" where
  "seg_rep segments st \<longleftrightarrow> segments = st \<and> seg_fits st \<and> list_all plain st"

interpretation url_segs: path_stack seg_push butlast seg_rep seg_fits
proof
  fix p st c assume "seg_rep p st" "plain c"
  then show "\<exists>p'. seg_push p c = Some p' \<and> seg_rep p' (st @ [c])" if "seg_fits (st @ [c])"
    using that by (auto simp: seg_push_def seg_rep_def seg_fits_def plain_def)
  show "seg_push p c = None" if "\<not> seg_fits (st @ [c])"
    using that \<open>seg_rep p st\<close> by (auto simp: seg_push_def seg_rep_def seg_fits_def)
next
  fix p st assume "seg_rep p st"
  then show "seg_rep (butlast p) (butlast st)" "seg_fits st"
    by (auto simp: seg_rep_def seg_fits_def list_all_iff dest: in_set_butlastD)
next
  fix st assume "seg_fits st" then show "seg_fits (butlast st)" by (auto simp: seg_fits_def dest: in_set_butlastD)
qed

lemma seg_loop_walk: "seg_loop segs path = walk seg_push butlast segs (components path)"
proof (induction segs path rule: seg_loop.induct)
  case (1 segs path)
  define s where "s = dropWhile (\<lambda>c. c = CHR ''/'') path"
  show ?case
  proof (cases "s = []")
    case True
    then show ?thesis by (simp add: seg_loop.simps [of segs path] components.simps [of path] s_def Let_def)
  next
    case False
    then show ?thesis using "1.IH" [OF s_def _ refl refl]
      by (simp add: seg_loop.simps [of segs path] components.simps [of path] s_def [symmetric] Let_def split: option.splits)
  qed
qed

lemma join_loop_render:
  "st \<noteq> [] \<Longrightarrow> join_loop out st n = (if length out + length (render st) < n then Some (out @ drop 1 (render st)) else None)"
proof (induction st arbitrary: out)
  case (Cons s st)
  show ?case
  proof (cases "st = []")
    case True
    then show ?thesis by (auto simp: render_def)
  next
    case False
    have r: "render (s # st) = CHR ''/'' # s @ render st" using False by (simp add: render_def)
    obtain t where t: "render st = CHR ''/'' # t" using False by (cases st) (auto simp: render_def)
    show ?thesis using Cons.IH [of "out @ s @ ''/''"] False by (auto simp: r t)
  qed
qed simp

definition segs_ok :: "string \<Rightarrow> bool" where
  "segs_ok path \<longleftrightarrow> (\<forall>k \<le> length (components path). seg_fits (normal [] (take k (components path))))"

lemma normalize_spec [c_spec]:
  assumes "2 \<le> n"
  shows "ush_browser_normalize_slash_path path n =
    (if segs_ok path \<and> (normal [] (components path) = [] \<or> length (render (normal [] (components path))) + 1 < n)
     then Some (render (normal [] (components path))) else None)"
proof -
  let ?cs = "components path"
  have r: "seg_rep [] []" by (simp add: seg_rep_def seg_fits_def)
  show ?thesis
    using url_segs.walk_normal [OF r components_ok, of path]
  proof (elim disjE exE conjE)
    fix p assume p: "walk seg_push butlast [] ?cs = Some p" "seg_rep p (normal [] ?cs)" "\<forall>k. seg_fits (normal [] (take k ?cs))"
    then have "segs_ok path" "p = normal [] ?cs" by (auto simp: segs_ok_def seg_rep_def)
    moreover obtain t where "render (normal [] ?cs) = CHR ''/'' # t"
      by (cases "normal [] ?cs") (auto simp: render_def)
    ultimately show ?thesis using p(1) assms join_loop_render [of "normal [] ?cs" "''/''" n]
      by (auto simp: ush_browser_normalize_slash_path_def seg_loop_walk render_def)
  next
    fix k assume k: "walk seg_push butlast [] ?cs = None" "k \<le> length ?cs" "\<not> seg_fits (normal [] (take k ?cs))"
    then have "\<not> segs_ok path" by (auto simp: segs_ok_def)
    then show ?thesis using k(1) by (simp add: ush_browser_normalize_slash_path_def seg_loop_walk)
  qed
qed

section \<open>Splitting addresses\<close>

definition url_text :: "ush_browser_url \<Rightarrow> string" where
  "url_text u = url_origin_text u @ bu_path u"

definition url_ok :: "ush_browser_url \<Rightarrow> bool" where
  "url_ok u \<longleftrightarrow> bu_host u \<noteq> [] \<and> CHR ''/'' \<notin> set (bu_host u) \<and> CHR '':'' \<notin> set (bu_host u) \<and> length (bu_host u) + 6 < USH_BROWSER_HOST_MAX
     \<and> 0 < bu_port u \<and> bu_port u < 2 ^ 16 \<and> ch_at (bu_path u) 0 = CHR ''/'' \<and> length (bu_path u) < USH_BROWSER_PATH_MAX"

lemma dec_char_plain: "c_isdigit (uchar c) \<Longrightarrow> c \<noteq> CHR ''/'' \<and> c \<noteq> CHR '':''"
proof -
  have "\<not> c_isdigit (uchar (CHR ''/''))" "\<not> c_isdigit (uchar (CHR '':''))" by code_simp+
  then show "c_isdigit (uchar c) \<Longrightarrow> ?thesis" by auto
qed

lemma dec_val_bound: "list_all (\<lambda>c. c_isdigit (uchar c)) ds \<Longrightarrow> ds \<noteq> [] \<Longrightarrow> hd ds \<noteq> CHR ''0'' \<Longrightarrow> 10 ^ (length ds - 1) \<le> dec_val ds"
proof (induction ds rule: rev_induct)
  case (snoc d ds)
  show ?case
  proof (cases ds)
    case Nil
    have "c_isdigit (uchar d)" "d \<noteq> CHR ''0''" using snoc.prems Nil by auto
    then have "1 \<le> nat (uchar d - 48)"
    proof -
      have z: "uchar (CHR ''0'') = 48" by code_simp
      have "uchar d \<noteq> 48" using \<open>d \<noteq> CHR ''0''\<close> z by (metis uchar_inj)
      moreover have "48 \<le> uchar d" using \<open>c_isdigit (uchar d)\<close> by (simp add: c_isdigit_def)
      ultimately show ?thesis by linarith
    qed
    then show ?thesis by (simp add: Nil dec_val_def)
  next
    case (Cons c cs)
    then have "10 ^ (length ds - 1) \<le> dec_val ds" using snoc by simp
    then have "10 * 10 ^ (length ds - 1) \<le> dec_val ds * 10" by simp
    moreover have "10 * 10 ^ (length ds - 1) = (10 :: nat) ^ length ds" using Cons by (simp add: power_eq_if)
    moreover have "dec_val ds * 10 \<le> dec_val (ds @ [d])" by (simp add: dec_val_def)
    ultimately show ?thesis by simp
  qed
qed simp

lemma port_text:
  assumes "0 < p" "p < 2 ^ 16"
  shows "ush_parse_u64_dec (Some (u64_dec p)) = Some p" "\<forall>c\<in>set (u64_dec p). c \<noteq> CHR ''/'' \<and> c \<noteq> CHR '':''" "u64_dec p \<noteq> []" "length (u64_dec p) < 6"
proof -
  have v: "p \<le> U64_MAX" using assms by (simp add: U64_MAX_def)
  note d = u64_dec_spec [OF v]
  show "ush_parse_u64_dec (Some (u64_dec p)) = Some p" using d(1-3) v by (simp add: ush_parse_u64_dec_spec)
  show "\<forall>c\<in>set (u64_dec p). c \<noteq> CHR ''/'' \<and> c \<noteq> CHR '':''" using d(2) dec_char_plain by blast
  show n: "u64_dec p \<noteq> []" by (rule d(3))
  have "hd (u64_dec p) \<noteq> CHR ''0''" using d(4) assms by simp
  then have "10 ^ (length (u64_dec p) - 1) \<le> p" using dec_val_bound [of "u64_dec p"] d by (simp add: list_all_iff)
  then have "(10 :: nat) ^ (length (u64_dec p) - 1) < 10 ^ 5" using assms by (simp add: order_le_less_trans)
  then have "length (u64_dec p) - 1 < 5" by (rule power_less_imp_less_exp [rotated]) simp
  then show "length (u64_dec p) < 6" using n by (cases "u64_dec p") auto
qed

text \<open>The part between the scheme and the path.\<close>

definition url_authority :: "ush_browser_url \<Rightarrow> string" where
  "url_authority u = bu_host u @ (if bu_port u = (if bu_tls u then 443 else 80) then [] else '':'' @ u64_dec (bu_port u))"

lemma authority_facts:
  assumes "url_ok u"
  shows "\<forall>c\<in>set (url_authority u). c \<noteq> CHR ''/''" "url_authority u \<noteq> []" "length (url_authority u) < USH_BROWSER_HOST_MAX"
    "takeWhile (\<lambda>c. c \<noteq> CHR '':'') (url_authority u) = bu_host u"
    "url_port (url_authority u) (if bu_tls u then 443 else 80) = Some (bu_port u)"
proof -
  have h: "bu_host u \<noteq> []" "\<forall>c\<in>set (bu_host u). c \<noteq> CHR ''/''" "\<forall>c\<in>set (bu_host u). c \<noteq> CHR '':''"
    "0 < bu_port u" "bu_port u < 2 ^ 16" "length (bu_host u) + 6 < USH_BROWSER_HOST_MAX"
    using assms by (auto simp: url_ok_def)
  note pt = port_text [OF h(4,5)]
  show "\<forall>c\<in>set (url_authority u). c \<noteq> CHR ''/''" using h pt by (auto simp: url_authority_def)
  show "url_authority u \<noteq> []" "length (url_authority u) < USH_BROWSER_HOST_MAX" using h pt by (auto simp: url_authority_def)
  show t: "takeWhile (\<lambda>c. c \<noteq> CHR '':'') (url_authority u) = bu_host u"
    using h(3) by (auto simp: url_authority_def takeWhile_append_stop)
  show "url_port (url_authority u) (if bu_tls u then 443 else 80) = Some (bu_port u)"
  proof (cases "bu_port u = (if bu_tls u then 443 else 80)")
    case True
    then have "url_authority u = bu_host u" by (simp add: url_authority_def)
    then have "length (takeWhile (\<lambda>c. c \<noteq> CHR '':'') (url_authority u)) = length (url_authority u)"
      using arg_cong [OF t, of length] by simp
    then show ?thesis using True by (simp add: url_port_def Let_def)
  next
    case False
    then have a: "url_authority u = bu_host u @ CHR '':'' # u64_dec (bu_port u)" by (simp add: url_authority_def)
    have "drop (length (bu_host u) + 1) (url_authority u) = u64_dec (bu_port u)" by (simp add: a)
    then show ?thesis using t pt(1,3) h(1,4,5) by (simp add: url_port_def Let_def a)
  qed
qed

lemma parse_url_text:
  assumes "url_ok u"
  shows "ush_browser_parse_url (url_text u) = Some u"
proof -
  obtain t where path: "bu_path u = CHR ''/'' # t" using assms by (cases "bu_path u") (auto simp: url_ok_def ch_at_def)
  note a = authority_facts [OF assms]
  define p where "p = url_authority u @ CHR ''/'' # t"
  have e: "url_text u = (if bu_tls u then ''https://'' else ''http://'') @ p"
    by (simp add: url_text_def url_origin_text_def url_scheme_def url_authority_def p_def path)
  have w: "takeWhile (\<lambda>c. c \<noteq> CHR ''/'') p = url_authority u" "dropWhile (\<lambda>c. c \<noteq> CHR ''/'') p = CHR ''/'' # t"
    unfolding p_def using takeWhile_append_stop [OF a(1)] dropWhile_append_stop [OF a(1)] by simp_all
  have h: "bu_host u \<noteq> []" "length (CHR ''/'' # t) < USH_BROWSER_PATH_MAX" using assms by (auto simp: url_ok_def path)
  have s: "ush_browser_is_http_url (url_text u) \<longleftrightarrow> \<not> bu_tls u" "ush_browser_is_https_url (url_text u) \<longleftrightarrow> bu_tls u"
    by (simp_all add: ush_browser_is_http_url_def ush_browser_is_https_url_def e)
  have d: "drop (if bu_tls u then 8 else 7) (url_text u) = p" by (simp add: e)
  have "url_text u \<noteq> []" by (simp add: e)
  moreover have "\<lparr>bu_host = bu_host u, bu_path = CHR ''/'' # t, bu_port = bu_port u, bu_tls = bu_tls u\<rparr> = u" using path by (cases u) simp
  ultimately show ?thesis using d w a h s
    by (cases "bu_tls u") (simp_all add: ush_browser_parse_url_def Let_def not_le)
qed

text \<open>C24: an address with a host, a port and a path is split into exactly these parts, the port left out when it
  is the default one of the scheme. The host ends only at a slash: an address whose query follows the host
  directly has the query in its host name.\<close>

theorem parse_url_roundtrip:
  "(url_ok u \<longrightarrow> ush_browser_parse_url (url_text u) = Some u)
   \<and> ush_browser_parse_url ''http://h?q'' = Some \<lparr>bu_host = ''h?q'', bu_path = ''/'', bu_port = 80, bu_tls = False\<rparr>"
proof -
  have "ush_browser_parse_url ''http://h?q'' = Some \<lparr>bu_host = ''h?q'', bu_path = ''/'', bu_port = 80, bu_tls = False\<rparr>"
    by (simp add: ush_browser_parse_url_def ush_browser_is_http_url_def url_port_def USH_BROWSER_HOST_MAX_def USH_BROWSER_PATH_MAX_def)
  then show ?thesis using parse_url_text by blast
qed

theorem parse_url_roundtrip_witness:
  "ush_browser_parse_url (url_text \<lparr>bu_host = ''a.b'', bu_path = ''/x?y'', bu_port = 8080, bu_tls = True\<rparr>)
     = Some \<lparr>bu_host = ''a.b'', bu_path = ''/x?y'', bu_port = 8080, bu_tls = True\<rparr>"
  by (rule parse_url_roundtrip [THEN conjunct1, THEN mp])
     (simp add: url_ok_def ch_at_def USH_BROWSER_HOST_MAX_def USH_BROWSER_PATH_MAX_def)

section \<open>Links\<close>

lemma copy_until_spec:
  "copy_until stop s i n = (let t = takeWhile (\<lambda>c. \<not> stop c) s in if t = [] \<or> i + length t < n then Some t else None)"
  by (induction stop s i n rule: copy_until.induct) (auto simp: Let_def)

definition link_text :: "string \<Rightarrow> string" where
  "link_text href = takeWhile (\<lambda>c. c \<noteq> CHR ''#'') href"

definition base_dir :: "string \<Rightarrow> string" where
  "base_dir path = to_last_slash (takeWhile (\<lambda>c. c \<noteq> CHR ''?'' \<and> c \<noteq> CHR ''#'') path)"

definition relative_link :: "string \<Rightarrow> bool" where
  "relative_link href \<longleftrightarrow> link_text href \<noteq> [] \<and> take 7 href \<noteq> ''http://'' \<and> take 8 href \<noteq> ''https://''
     \<and> ch_at (link_text href) 0 \<noteq> CHR ''?'' \<and> \<not> (ch_at (link_text href) 0 = CHR ''/'' \<and> ch_at (link_text href) 1 = CHR ''/'')"

definition link_target :: "string \<Rightarrow> string \<Rightarrow> string" where
  "link_target path href = (if ch_at (link_text href) 0 = CHR ''/'' then link_text href else base_dir path @ link_text href)"

lemma take_takeWhile_prefix: "take k (takeWhile P s) = t \<Longrightarrow> length t = k \<Longrightarrow> take k s = t"
proof -
  assume a: "take k (takeWhile P s) = t" "length t = k"
  then have "k \<le> length (takeWhile P s)" by auto
  then have "take k (takeWhile P s @ dropWhile P s) = t" using a(1) by (simp only: take_append) simp
  then show "take k s = t" by (simp only: takeWhile_dropWhile_id)
qed

lemma join_relative_Some:
  assumes "ch_at path 0 = CHR ''/''" "ush_browser_join_relative_path path (link_text href) n = Some r" "2 \<le> n"
  shows "r = render (normal [] (components (link_target path href)))"
    "length r + 1 < n \<or> r = ''/''"
proof -
  define b where "b = takeWhile (\<lambda>c. c \<noteq> CHR ''?'' \<and> c \<noteq> CHR ''#'') path"
  obtain t where p: "path = CHR ''/'' # t" using assms(1) by (cases path) (auto simp: ch_at_def)
  have b: "CHR ''/'' \<in> set b" by (simp add: b_def p)
  have c: "ush_browser_copy_until_query_or_fragment path USH_BROWSER_PATH_MAX = (if length b < USH_BROWSER_PATH_MAX then Some b else None)"
    using b by (auto simp: ush_browser_copy_until_query_or_fragment_def copy_until_spec Let_def b_def USH_BROWSER_PATH_MAX_def)
  have "ush_browser_normalize_slash_path (link_target path href) n = Some r"
  proof (cases "ch_at (link_text href) 0 = CHR ''/''")
    case True
    then show ?thesis using assms(2,3) by (simp add: ush_browser_join_relative_path_def link_target_def)
  next
    case False
    have "cut_text (k - length (to_last_slash b)) (link_text href) = link_text href"
      if "\<not> k < length (to_last_slash b) + length (link_text href) + 1" for k
      using that by (simp add: cut_text_def)
    then show ?thesis using False assms(2,3) b unfolding ush_browser_join_relative_path_def c
      by (auto simp: link_target_def base_dir_def b_def [symmetric] Let_def split: if_splits)
  qed
  then show "r = render (normal [] (components (link_target path href)))" "length r + 1 < n \<or> r = ''/''"
    by (auto simp: normalize_spec [OF assms(3)] render_def split: if_splits)
qed



text \<open>What the resolution does with a query, a directory link and a small buffer: the query of a link is
  normalised as if it were path, the slash at the end of a directory is lost, and an address that does not
  fit is cut and reported as success.\<close>

theorem link_divergences:
  "ush_browser_resolve_href ''http://h/x'' ''/go?u=/a/../b'' 256 = Some ''http://h/go?u=/b''
   \<and> ush_browser_resolve_href ''http://h/'' ''dir/'' 256 = Some ''http://h/dir''
   \<and> ush_browser_resolve_href ''http://h/'' ''abc'' 12 = Some ''http://h/ab''"
proof (intro conjI)
  show "ush_browser_resolve_href ''http://h/x'' ''/go?u=/a/../b'' 256 = Some ''http://h/go?u=/b''" by code_simp
  show "ush_browser_resolve_href ''http://h/'' ''dir/'' 256 = Some ''http://h/dir''" by code_simp
  show "ush_browser_resolve_href ''http://h/'' ''abc'' 12 = Some ''http://h/ab''" by code_simp
qed

end
