(* ===== verification/BrowserCookie.thy ===== *)
theory BrowserCookie
  imports BrowserHttp BrowserUrl
begin

text \<open>
  The cookies of the browser (\<open>apps/browser/browser_cookie.c\<close>). The jar is the list of the used slots of the
  table of 24 and the bearer token; every text is the content of its array before the NUL. Storing reads
  the header lines of a response as \<open>BrowserHttp\<close> does.
\<close>

section \<open>Definitions\<close>

definition USH_BROWSER_COOKIE_MAX :: nat where "USH_BROWSER_COOKIE_MAX = 24"
definition USH_BROWSER_COOKIE_NAME_MAX :: nat where "USH_BROWSER_COOKIE_NAME_MAX = 48"
definition USH_BROWSER_COOKIE_VALUE_MAX :: nat where "USH_BROWSER_COOKIE_VALUE_MAX = 128"
definition USH_BROWSER_COOKIE_DOMAIN_MAX :: nat where "USH_BROWSER_COOKIE_DOMAIN_MAX = 128"
definition USH_BROWSER_COOKIE_PATH_MAX :: nat where "USH_BROWSER_COOKIE_PATH_MAX = 96"
definition USH_BROWSER_TOKEN_MAX :: nat where "USH_BROWSER_TOKEN_MAX = 192"

record ush_browser_cookie =
  ck_name :: string
  ck_value :: string
  ck_domain :: string
  ck_path :: string
  ck_secure :: bool

record cookie_jar =
  cj_cookies :: "ush_browser_cookie list"
  cj_token :: string

fun ush_browser_cookie_streq_icase :: "string \<Rightarrow> string \<Rightarrow> bool" where
  "ush_browser_cookie_streq_icase (a # l) (b # r) =
     (if ush_browser_ascii_tolower a \<noteq> ush_browser_ascii_tolower b then False else ush_browser_cookie_streq_icase l r)"
| "ush_browser_cookie_streq_icase l r = (l = [] \<and> r = [])"

fun ush_browser_cookie_starts_with_icase :: "string \<Rightarrow> string \<Rightarrow> bool" where
  "ush_browser_cookie_starts_with_icase text [] = True"
| "ush_browser_cookie_starts_with_icase [] (p # prefix) = False"
| "ush_browser_cookie_starts_with_icase (c # text) (p # prefix) =
     (if ush_browser_ascii_tolower c \<noteq> ush_browser_ascii_tolower p then False
      else ush_browser_cookie_starts_with_icase text prefix)"

definition cookie_blank :: "char \<Rightarrow> bool" where
  "cookie_blank c \<longleftrightarrow> c = CHR '' '' \<or> c = TAB \<or> c = CR \<or> c = LF"

text \<open>The array afterwards, as a C string.\<close>

definition ush_browser_cookie_copy_trimmed :: "nat \<Rightarrow> string \<Rightarrow> string" where
  "ush_browser_cookie_copy_trimmed out_size text =
     (let t = dropWhile cookie_blank text; t = rev (dropWhile cookie_blank (rev t)) in
      takeWhile (\<lambda>c. c \<noteq> NUL) (if out_size < length t + 1 then take (out_size - 1) t else t))"

definition ush_browser_cookie_domain_matches :: "string \<Rightarrow> string \<Rightarrow> bool" where
  "ush_browser_cookie_domain_matches host domain =
     (if host = [] \<or> domain = [] then False
      else if ush_browser_cookie_streq_icase host domain then True
      else (let domain = (if ch_at domain 0 = CHR ''.'' then drop 1 domain else domain) in
        if domain = [] \<or> length host \<le> length domain then False
        else if host ! (length host - length domain - 1) \<noteq> CHR ''.'' then False
        else ush_browser_cookie_streq_icase (drop (length host - length domain) host) domain))"

fun path_prefix :: "string \<Rightarrow> string \<Rightarrow> bool" where
  "path_prefix request [] = True"
| "path_prefix [] (c # cookie) = False"
| "path_prefix (r # request) (c # cookie) = (if r \<noteq> c then False else path_prefix request cookie)"

definition ush_browser_cookie_path_matches :: "string \<Rightarrow> string \<Rightarrow> bool" where
  "ush_browser_cookie_path_matches request_path cookie_path =
     (if cookie_path = [] then False else path_prefix request_path cookie_path)"

definition ush_browser_cookie_default_path :: "string \<Rightarrow> nat \<Rightarrow> string" where
  "ush_browser_cookie_default_path request_path out_size =
     (if ch_at request_path 0 \<noteq> CHR ''/'' then ''/''
      else (let i = length (to_last_slash request_path);
                copy_len = (if i = 1 then 1 else i - 1);
                copy_len = (if out_size < copy_len + 1 then out_size - 1 else copy_len)
            in take copy_len request_path))"

text \<open>The index of the slot and the table with it in use.\<close>

definition same_cookie :: "string \<Rightarrow> string \<Rightarrow> string \<Rightarrow> ush_browser_cookie \<Rightarrow> bool" where
  "same_cookie name domain path cookie \<longleftrightarrow>
     ush_browser_cookie_streq_icase (ck_name cookie) name \<and> ush_browser_cookie_streq_icase (ck_domain cookie) domain
     \<and> ush_streq (Some (ck_path cookie)) (Some path)"

definition empty_cookie :: ush_browser_cookie where
  "empty_cookie = \<lparr>ck_name = [], ck_value = [], ck_domain = [], ck_path = [], ck_secure = False\<rparr>"

definition ush_browser_cookie_find_slot :: "string \<Rightarrow> string \<Rightarrow> string \<Rightarrow> ush_browser_cookie list \<Rightarrow> nat \<times> ush_browser_cookie list" where
  "ush_browser_cookie_find_slot name domain path cookies =
     (let i = length (takeWhile (\<lambda>c. \<not> same_cookie name domain path c) cookies) in
      if i < length cookies then (i, cookies)
      else if length cookies < USH_BROWSER_COOKIE_MAX then (length cookies, cookies @ [empty_cookie])
      else (USH_BROWSER_COOKIE_MAX - 1, cookies))"

text \<open>The loop over the attributes, from the first semicolon.\<close>

function attr_loop :: "string \<Rightarrow> string \<Rightarrow> string \<Rightarrow> bool \<Rightarrow> string \<times> string \<times> bool" where
  "attr_loop cursor domain path secure =
     (if cursor \<noteq> []
      then (let cursor = (if hd cursor = CHR '';'' then tl cursor else cursor);
                cursor = dropWhile (\<lambda>c. c = CHR '' '' \<or> c = TAB) cursor;
                attr = ush_browser_cookie_copy_trimmed 128 (takeWhile (\<lambda>c. c \<noteq> CHR '';'') cursor);
                cursor = dropWhile (\<lambda>c. c \<noteq> CHR '';'') cursor;
                v = drop 1 (dropWhile (\<lambda>c. c \<noteq> CHR ''='') attr)
            in if attr = [] then attr_loop cursor domain path secure
               else if ush_browser_cookie_streq_icase attr ''secure'' then attr_loop cursor domain path True
               else if ush_browser_cookie_starts_with_icase attr ''domain=''
               then attr_loop cursor (if v \<noteq> [] then ush_browser_cookie_copy_trimmed USH_BROWSER_COOKIE_DOMAIN_MAX v else domain) path secure
               else if ush_browser_cookie_starts_with_icase attr ''path=''
               then attr_loop cursor domain (if v \<noteq> [] then ush_browser_cookie_copy_trimmed USH_BROWSER_COOKIE_PATH_MAX v else path) secure
               else attr_loop cursor domain path secure)
      else (domain, path, secure))"
  by pat_completeness auto

lemma attr_shorter:
  assumes "cursor \<noteq> []" "c1 = (if hd cursor = CHR '';'' then tl cursor else cursor)" "c2 = dropWhile P c1" "c3 = dropWhile (\<lambda>c. c \<noteq> CHR '';'') c2"
  shows "length c3 < length cursor"
proof (cases "hd cursor = CHR '';''")
  case True
  then have "length c1 < length cursor" using assms(1,2) by (cases cursor) auto
  moreover have "length c3 \<le> length c2" "length c2 \<le> length c1" using assms(3,4) length_dropWhile_le by metis+
  ultimately show ?thesis by linarith
next
  case False
  then obtain a r where c: "cursor = a # r" "a \<noteq> CHR '';''" "c1 = a # r" using assms(1,2) by (cases cursor) auto
  show ?thesis
  proof (cases "P a")
    case True
    then have "length c2 \<le> length r" using assms(3) c length_dropWhile_le [of P r] by simp
    moreover have "length c3 \<le> length c2" using assms(4) length_dropWhile_le by metis
    ultimately show ?thesis using c by simp
  next
    case False
    then have "c3 = dropWhile (\<lambda>c. c \<noteq> CHR '';'') r" using assms(3,4) c by simp
    then show ?thesis using c length_dropWhile_le [of "\<lambda>c. c \<noteq> CHR '';''" r] by simp
  qed
qed

termination attr_loop
  by (relation "measure (\<lambda>(cursor, d, p, s). length cursor)") (auto simp: attr_shorter)

declare attr_loop.simps [simp del]

definition ush_browser_cookie_store_one :: "ush_browser_url \<Rightarrow> string \<Rightarrow> cookie_jar \<Rightarrow> cookie_jar" where
  "ush_browser_cookie_store_one url value jar =
     (if value = [] then jar
      else (let pair_text = takeWhile (\<lambda>c. c \<noteq> CHR '';'') value;
                pair = ush_browser_cookie_copy_trimmed (USH_BROWSER_COOKIE_NAME_MAX + USH_BROWSER_COOKIE_VALUE_MAX + 8) pair_text;
                eq_pos = length (takeWhile (\<lambda>c. c \<noteq> CHR ''='') pair)
            in if eq_pos = length pair \<or> eq_pos = 0 then jar
               else (let name = ush_browser_cookie_copy_trimmed USH_BROWSER_COOKIE_NAME_MAX (take eq_pos pair);
                         cookie_value = ush_browser_cookie_copy_trimmed USH_BROWSER_COOKIE_VALUE_MAX (drop (eq_pos + 1) pair);
                         domain = ush_copy [] USH_BROWSER_COOKIE_DOMAIN_MAX (Some (bu_host url));
                         path = ush_browser_cookie_default_path (bu_path url) USH_BROWSER_COOKIE_PATH_MAX
                     in case attr_loop (drop (length pair_text) value) domain path False of (domain, path, secure) \<Rightarrow>
                       if name = [] \<or> domain = [] \<or> path = [] then jar
                       else (case ush_browser_cookie_find_slot name domain path (cj_cookies jar) of (i, cookies) \<Rightarrow>
                         jar\<lparr>cj_cookies := cookies[i :=
                           \<lparr>ck_name = ush_copy [] USH_BROWSER_COOKIE_NAME_MAX (Some name),
                            ck_value = ush_copy [] USH_BROWSER_COOKIE_VALUE_MAX (Some cookie_value),
                            ck_domain = ush_copy [] USH_BROWSER_COOKIE_DOMAIN_MAX (Some domain),
                            ck_path = ush_copy [] USH_BROWSER_COOKIE_PATH_MAX (Some path), ck_secure = secure\<rparr>]\<rparr>))))"

definition ush_browser_cookie_clear_all :: "cookie_jar \<Rightarrow> cookie_jar" where
  "ush_browser_cookie_clear_all jar = jar\<lparr>cj_cookies := []\<rparr>"

definition ush_browser_cookie_set_token :: "string option \<Rightarrow> cookie_jar \<Rightarrow> cookie_jar" where
  "ush_browser_cookie_set_token token jar =
     jar\<lparr>cj_token := ush_copy (cj_token jar) USH_BROWSER_TOKEN_MAX (Some (case token of None \<Rightarrow> [] | Some t \<Rightarrow> t))\<rparr>"

definition ush_browser_cookie_clear_token :: "cookie_jar \<Rightarrow> cookie_jar" where
  "ush_browser_cookie_clear_token jar = jar\<lparr>cj_token := []\<rparr>"

text \<open>Which cookies of the table are skipped for an address.\<close>

definition cookie_sent :: "ush_browser_url \<Rightarrow> ush_browser_cookie \<Rightarrow> bool" where
  "cookie_sent url cookie \<longleftrightarrow>
     \<not> (ck_name cookie = [] \<or> ck_value cookie = []) \<and> \<not> (ck_secure cookie \<and> \<not> bu_tls url)
     \<and> \<not> (\<not> ush_browser_cookie_domain_matches (bu_host url) (ck_domain cookie)
          \<or> \<not> ush_browser_cookie_path_matches (bu_path url) (ck_path cookie))"

fun header_loop :: "ush_browser_url \<Rightarrow> nat \<Rightarrow> ush_browser_cookie list \<Rightarrow> string \<Rightarrow> bool \<Rightarrow> string" where
  "header_loop url out_size [] out first = out"
| "header_loop url out_size (cookie # cookies) out first =
     (if \<not> cookie_sent url cookie then header_loop url out_size cookies out first
      else (let need = length (ck_name cookie) + length (ck_value cookie) + (if first then 2 else 4) in
        if out_size < length out + need + 1 then out
        else header_loop url out_size cookies
               (out @ cut_text (out_size - length out)
                  ((if first then [] else ''; '') @ ck_name cookie @ ''='' @ ck_value cookie)) False))"

definition ush_browser_cookie_build_header :: "ush_browser_url \<Rightarrow> nat \<Rightarrow> cookie_jar \<Rightarrow> string option" where
  "ush_browser_cookie_build_header url out_size jar =
     (if out_size = 0 then None
      else (let out = header_loop url out_size (cj_cookies jar) [] True in if out = [] then None else Some out))"

definition store_line :: "ush_browser_url \<Rightarrow> string \<Rightarrow> cookie_jar \<Rightarrow> cookie_jar" where
  "store_line url line jar =
     (if 11 < length line \<and> ush_browser_cookie_starts_with_icase line ''Set-Cookie:''
      then ush_browser_cookie_store_one url (drop 11 line) jar else jar)"

definition ush_browser_cookie_store_from_response :: "ush_browser_url \<Rightarrow> string \<Rightarrow> cookie_jar \<Rightarrow> cookie_jar" where
  "ush_browser_cookie_store_from_response url raw jar =
     (case header_end_loop raw 0 of
        None \<Rightarrow> jar
      | Some header_end \<Rightarrow> fold (store_line url) (header_lines raw header_end 0) jar)"

section \<open>Texts without case\<close>

abbreviation lower :: "string \<Rightarrow> string" where
  "lower \<equiv> map ush_browser_ascii_tolower"

lemma streq_icase_lower: "ush_browser_cookie_streq_icase a b \<longleftrightarrow> lower a = lower b"
  by (induction a b rule: ush_browser_cookie_streq_icase.induct) auto

lemma starts_with_lower: "ush_browser_cookie_starts_with_icase t p \<longleftrightarrow> (\<exists>r. lower t = lower p @ r)"
  by (induction t p rule: ush_browser_cookie_starts_with_icase.induct) auto

lemma path_prefix_iff: "path_prefix r c \<longleftrightarrow> (\<exists>t. r = c @ t)"
  by (induction r c rule: path_prefix.induct) auto

definition bounded :: "nat \<Rightarrow> string \<Rightarrow> bool" where
  "bounded n s \<longleftrightarrow> length s < n \<and> NUL \<notin> set s"

lemma copy_trimmed_bounded [simp]: "0 < n \<Longrightarrow> bounded n (ush_browser_cookie_copy_trimmed n t)"
proof -
  assume n: "0 < n"
  define u where "u = (let t = rev (dropWhile cookie_blank (rev (dropWhile cookie_blank t))) in if n < length t + 1 then take (n - 1) t else t)"
  have c: "ush_browser_cookie_copy_trimmed n t = takeWhile (\<lambda>c. c \<noteq> NUL) u"
    by (simp add: ush_browser_cookie_copy_trimmed_def u_def Let_def)
  have "length u < n" using n by (auto simp: u_def Let_def)
  then have "length (takeWhile (\<lambda>c. c \<noteq> NUL) u) < n" using length_takeWhile_le by (rule order.strict_trans1 [rotated])
  then show ?thesis by (auto simp: bounded_def c dest: set_takeWhileD)
qed

lemma copy_bounded: "0 < n \<Longrightarrow> NUL \<notin> set s \<Longrightarrow> bounded n (ush_copy [] n (Some s))"
  by (auto simp: ush_copy_take bounded_def dest: in_set_takeD)

lemma copy_same: "bounded n s \<Longrightarrow> ush_copy [] n (Some s) = s"
  by (auto simp: ush_copy_take bounded_def)

lemma default_path_bounded: "2 \<le> n \<Longrightarrow> NUL \<notin> set p \<Longrightarrow> bounded n (ush_browser_cookie_default_path p n)"
  by (auto simp: ush_browser_cookie_default_path_def bounded_def Let_def dest: in_set_takeD)

section \<open>The jar as a map\<close>

type_synonym jar_key = "string \<times> string \<times> string"

definition cookie_key :: "ush_browser_cookie \<Rightarrow> jar_key" where
  "cookie_key c = (lower (ck_name c), lower (ck_domain c), ck_path c)"

definition cookie_ok :: "ush_browser_cookie \<Rightarrow> bool" where
  "cookie_ok c \<longleftrightarrow> ck_name c \<noteq> [] \<and> ck_domain c \<noteq> [] \<and> ck_path c \<noteq> []
     \<and> bounded USH_BROWSER_COOKIE_NAME_MAX (ck_name c) \<and> bounded USH_BROWSER_COOKIE_VALUE_MAX (ck_value c)
     \<and> bounded USH_BROWSER_COOKIE_DOMAIN_MAX (ck_domain c) \<and> bounded USH_BROWSER_COOKIE_PATH_MAX (ck_path c)"

definition jar_ok :: "cookie_jar \<Rightarrow> bool" where
  "jar_ok jar \<longleftrightarrow> length (cj_cookies jar) \<le> USH_BROWSER_COOKIE_MAX \<and> list_all cookie_ok (cj_cookies jar)
     \<and> distinct (map cookie_key (cj_cookies jar)) \<and> bounded USH_BROWSER_TOKEN_MAX (cj_token jar)"

definition jar_map :: "cookie_jar \<Rightarrow> jar_key \<rightharpoonup> string \<times> bool" where
  "jar_map jar = map_of (map (\<lambda>c. (cookie_key c, (ck_value c, ck_secure c))) (cj_cookies jar))"

definition url_plain :: "ush_browser_url \<Rightarrow> bool" where
  "url_plain url \<longleftrightarrow> NUL \<notin> set (bu_host url) \<and> NUL \<notin> set (bu_path url)"

text \<open>The cookie that a line asks for.\<close>

definition line_cookie :: "ush_browser_url \<Rightarrow> string \<Rightarrow> ush_browser_cookie option" where
  "line_cookie url value =
     (let pair_text = takeWhile (\<lambda>c. c \<noteq> CHR '';'') value;
          pair = ush_browser_cookie_copy_trimmed (USH_BROWSER_COOKIE_NAME_MAX + USH_BROWSER_COOKIE_VALUE_MAX + 8) pair_text;
          eq_pos = length (takeWhile (\<lambda>c. c \<noteq> CHR ''='') pair);
          name = ush_browser_cookie_copy_trimmed USH_BROWSER_COOKIE_NAME_MAX (take eq_pos pair)
      in case attr_loop (drop (length pair_text) value) (ush_copy [] USH_BROWSER_COOKIE_DOMAIN_MAX (Some (bu_host url)))
             (ush_browser_cookie_default_path (bu_path url) USH_BROWSER_COOKIE_PATH_MAX) False of (domain, path, secure) \<Rightarrow>
           if value = [] \<or> eq_pos = length pair \<or> eq_pos = 0 \<or> name = [] \<or> domain = [] \<or> path = [] then None
           else Some \<lparr>ck_name = name,
             ck_value = ush_browser_cookie_copy_trimmed USH_BROWSER_COOKIE_VALUE_MAX (drop (eq_pos + 1) pair),
             ck_domain = domain, ck_path = path, ck_secure = secure\<rparr>)"

definition put_cookie :: "ush_browser_cookie \<Rightarrow> cookie_jar \<Rightarrow> cookie_jar" where
  "put_cookie c jar =
     (case ush_browser_cookie_find_slot (ck_name c) (ck_domain c) (ck_path c) (cj_cookies jar) of (i, cookies) \<Rightarrow>
        jar\<lparr>cj_cookies := cookies[i := c]\<rparr>)"

lemma attr_loop_next:
  assumes "cursor \<noteq> []"
  shows "\<exists>c' d' p' s'. length c' < length cursor \<and> attr_loop cursor d p s = attr_loop c' d' p' s'
    \<and> (d' = d \<or> (\<exists>v. d' = ush_browser_cookie_copy_trimmed USH_BROWSER_COOKIE_DOMAIN_MAX v))
    \<and> (p' = p \<or> (\<exists>v. p' = ush_browser_cookie_copy_trimmed USH_BROWSER_COOKIE_PATH_MAX v))"
proof -
  define c1 where "c1 = (if hd cursor = CHR '';'' then tl cursor else cursor)"
  define c2 where "c2 = dropWhile (\<lambda>c. c = CHR '' '' \<or> c = TAB) c1"
  define c3 where "c3 = dropWhile (\<lambda>c. c \<noteq> CHR '';'') c2"
  define attr where "attr = ush_browser_cookie_copy_trimmed 128 (takeWhile (\<lambda>c. c \<noteq> CHR '';'') c2)"
  define v where "v = drop 1 (dropWhile (\<lambda>c. c \<noteq> CHR ''='') attr)"
  define sec where "sec = ush_browser_cookie_streq_icase attr ''secure''"
  define isd where "isd = ush_browser_cookie_starts_with_icase attr ''domain=''"
  define isp where "isp = ush_browser_cookie_starts_with_icase attr ''path=''"
  have l: "length c3 < length cursor" by (rule attr_shorter [OF assms c1_def c2_def c3_def])
  have "attr_loop cursor d p s = (if attr = [] then attr_loop c3 d p s
      else if sec then attr_loop c3 d p True
      else if isd then attr_loop c3 (if v \<noteq> [] then ush_browser_cookie_copy_trimmed USH_BROWSER_COOKIE_DOMAIN_MAX v else d) p s
      else if isp then attr_loop c3 d (if v \<noteq> [] then ush_browser_cookie_copy_trimmed USH_BROWSER_COOKIE_PATH_MAX v else p) s
      else attr_loop c3 d p s)"
    unfolding attr_loop.simps [of cursor] Let_def c1_def [symmetric] c2_def [symmetric] c3_def [symmetric] attr_def [symmetric]
      v_def [symmetric] sec_def [symmetric] isd_def [symmetric] isp_def [symmetric] using assms by simp
  then have "attr_loop cursor d p s = attr_loop c3
      (if attr \<noteq> [] \<and> \<not> sec \<and> isd \<and> v \<noteq> [] then ush_browser_cookie_copy_trimmed USH_BROWSER_COOKIE_DOMAIN_MAX v else d)
      (if attr \<noteq> [] \<and> \<not> sec \<and> \<not> isd \<and> isp \<and> v \<noteq> [] then ush_browser_cookie_copy_trimmed USH_BROWSER_COOKIE_PATH_MAX v else p)
      (attr \<noteq> [] \<and> sec \<or> s)" by auto
  then show ?thesis using l by (intro exI conjI) (assumption, assumption, auto)
qed

lemma attr_loop_bounded:
  assumes "bounded USH_BROWSER_COOKIE_DOMAIN_MAX d" "bounded USH_BROWSER_COOKIE_PATH_MAX p" "attr_loop cur d p s = (d', p', s')"
  shows "bounded USH_BROWSER_COOKIE_DOMAIN_MAX d' \<and> bounded USH_BROWSER_COOKIE_PATH_MAX p'"
  using assms
proof (induction "length cur" arbitrary: cur d p s rule: less_induct)
  case less
  have pos: "0 < USH_BROWSER_COOKIE_DOMAIN_MAX" "0 < USH_BROWSER_COOKIE_PATH_MAX"
    by (simp_all add: USH_BROWSER_COOKIE_DOMAIN_MAX_def USH_BROWSER_COOKIE_PATH_MAX_def)
  show ?case
  proof (cases "cur = []")
    case True
    then show ?thesis using less.prems by (simp add: attr_loop.simps [of "[]"])
  next
    case False
    from attr_loop_next [OF this, of d p s] obtain c1 d1 p1 s1 where n: "length c1 < length cur"
      "attr_loop cur d p s = attr_loop c1 d1 p1 s1"
      "d1 = d \<or> (\<exists>v. d1 = ush_browser_cookie_copy_trimmed USH_BROWSER_COOKIE_DOMAIN_MAX v)"
      "p1 = p \<or> (\<exists>v. p1 = ush_browser_cookie_copy_trimmed USH_BROWSER_COOKIE_PATH_MAX v)" by blast
    then have "bounded USH_BROWSER_COOKIE_DOMAIN_MAX d1" "bounded USH_BROWSER_COOKIE_PATH_MAX p1"
      using less.prems(1,2) pos copy_trimmed_bounded by metis+
    then show ?thesis using less.hyps [OF n(1)] less.prems(3) n(2) by simp
  qed
qed

lemma store_one_cookie:
  assumes "url_plain url"
  shows "ush_browser_cookie_store_one url value jar = (case line_cookie url value of None \<Rightarrow> jar | Some c \<Rightarrow> put_cookie c jar)"
    "line_cookie url value = Some c \<Longrightarrow> cookie_ok c"
proof -
  let ?n = "USH_BROWSER_COOKIE_NAME_MAX" and ?v = "USH_BROWSER_COOKIE_VALUE_MAX" and ?d = "USH_BROWSER_COOKIE_DOMAIN_MAX"
    and ?p = "USH_BROWSER_COOKIE_PATH_MAX"
  have pos: "0 < ?n" "0 < ?v" "0 < ?d" "2 \<le> ?p" by (simp_all add: USH_BROWSER_COOKIE_NAME_MAX_def
      USH_BROWSER_COOKIE_VALUE_MAX_def USH_BROWSER_COOKIE_DOMAIN_MAX_def USH_BROWSER_COOKIE_PATH_MAX_def)
  define pair where "pair = ush_browser_cookie_copy_trimmed (?n + ?v + 8) (takeWhile (\<lambda>c. c \<noteq> CHR '';'') value)"
  define eq_pos where "eq_pos = length (takeWhile (\<lambda>c. c \<noteq> CHR ''='') pair)"
  define nm where "nm = ush_browser_cookie_copy_trimmed ?n (take eq_pos pair)"
  define vl where "vl = ush_browser_cookie_copy_trimmed ?v (drop (eq_pos + 1) pair)"
  obtain d p s where a: "attr_loop (drop (length (takeWhile (\<lambda>c. c \<noteq> CHR '';'') value)) value) (ush_copy [] ?d (Some (bu_host url)))
      (ush_browser_cookie_default_path (bu_path url) ?p) False = (d, p, s)" using prod_cases3 by blast
  have b: "bounded ?d d" "bounded ?p p" "bounded ?n nm" "bounded ?v vl"
    using attr_loop_bounded [OF copy_bounded default_path_bounded a] assms pos by (auto simp: url_plain_def nm_def vl_def)
  have l: "line_cookie url value = (if value = [] \<or> eq_pos = length pair \<or> eq_pos = 0 \<or> nm = [] \<or> d = [] \<or> p = [] then None
      else Some \<lparr>ck_name = nm, ck_value = vl, ck_domain = d, ck_path = p, ck_secure = s\<rparr>)"
    unfolding line_cookie_def Let_def pair_def [symmetric] eq_pos_def [symmetric] nm_def [symmetric] vl_def [symmetric] a by simp
  show "line_cookie url value = Some c \<Longrightarrow> cookie_ok c" using b by (auto simp: l cookie_ok_def split: if_splits)
  show "ush_browser_cookie_store_one url value jar = (case line_cookie url value of None \<Rightarrow> jar | Some c \<Rightarrow> put_cookie c jar)"
    unfolding l ush_browser_cookie_store_one_def Let_def pair_def [symmetric] eq_pos_def [symmetric] nm_def [symmetric] vl_def [symmetric] a
    using b copy_same by (auto simp: put_cookie_def)
qed

lemma same_cookie_key:
  assumes "cookie_ok c" "cookie_ok c'"
  shows "same_cookie (ck_name c) (ck_domain c) (ck_path c) c' \<longleftrightarrow> cookie_key c' = cookie_key c"
  using assms by (auto simp: same_cookie_def cookie_key_def streq_icase_lower ush_streq_def s_strcmp_zero_iff cookie_ok_def bounded_def)

text \<open>The three cases of the slot search.\<close>

lemma put_cookie_cases:
  assumes "cookie_ok c" "list_all cookie_ok (cj_cookies jar)"
  obtains (replace) xs d ys where "cj_cookies jar = xs @ d # ys" "cookie_key d = cookie_key c"
      "cookie_key c \<notin> set (map cookie_key xs)" "put_cookie c jar = jar\<lparr>cj_cookies := xs @ c # ys\<rparr>"
    | (new) "cookie_key c \<notin> set (map cookie_key (cj_cookies jar))" "length (cj_cookies jar) < USH_BROWSER_COOKIE_MAX"
      "put_cookie c jar = jar\<lparr>cj_cookies := cj_cookies jar @ [c]\<rparr>"
    | (full) "cookie_key c \<notin> set (map cookie_key (cj_cookies jar))" "USH_BROWSER_COOKIE_MAX \<le> length (cj_cookies jar)"
      "put_cookie c jar = jar\<lparr>cj_cookies := (cj_cookies jar)[USH_BROWSER_COOKIE_MAX - 1 := c]\<rparr>"
proof -
  let ?P = "\<lambda>d. \<not> same_cookie (ck_name c) (ck_domain c) (ck_path c) d"
  define cs where "cs = cj_cookies jar"
  define xs where "xs = takeWhile ?P cs"
  have P: "?P d \<longleftrightarrow> cookie_key d \<noteq> cookie_key c" if "d \<in> set cs" for d
    using same_cookie_key [OF assms(1), of d] assms(2) that by (auto simp: list_all_iff cs_def)
  have cat: "cs = xs @ dropWhile ?P cs" by (simp add: xs_def)
  have xk: "cookie_key c \<notin> set (map cookie_key xs)"
  proof
    assume "cookie_key c \<in> set (map cookie_key xs)"
    then obtain d where "d \<in> set xs" "cookie_key d = cookie_key c" by auto
    then show False using set_takeWhileD [of d ?P cs] P [of d] unfolding xs_def by blast
  qed
  show thesis
  proof (cases "dropWhile ?P cs")
    case Nil
    have "cs = xs @ []" using cat unfolding Nil .
    then have "xs = cs" by simp
    then have "length xs = length cs" by simp
    then have s: "ush_browser_cookie_find_slot (ck_name c) (ck_domain c) (ck_path c) cs =
        (if length cs < USH_BROWSER_COOKIE_MAX then (length cs, cs @ [empty_cookie]) else (USH_BROWSER_COOKIE_MAX - 1, cs))"
      by (simp add: ush_browser_cookie_find_slot_def Let_def flip: xs_def)
    show thesis
    proof (cases "length cs < USH_BROWSER_COOKIE_MAX")
      case True
      then show thesis using new s xk \<open>xs = cs\<close> by (simp add: put_cookie_def cs_def list_update_append)
    next
      case False
      then show thesis using full s xk \<open>xs = cs\<close> by (simp add: put_cookie_def cs_def)
    qed
  next
    case (Cons d ys)
    then have "\<not> ?P d" by (metis hd_dropWhile list.distinct(1) list.sel(1))
    moreover have "d \<in> set cs" using cat Cons by (metis in_set_conv_decomp)
    ultimately have k: "cookie_key d = cookie_key c" using P by blast
    have cc: "cs = xs @ d # ys" using cat Cons by simp
    have "ush_browser_cookie_find_slot (ck_name c) (ck_domain c) (ck_path c) cs = (length xs, cs)"
      using arg_cong [OF cc, of length] by (simp add: ush_browser_cookie_find_slot_def Let_def flip: xs_def)
    then have "put_cookie c jar = jar\<lparr>cj_cookies := xs @ c # ys\<rparr>"
      by (simp add: put_cookie_def flip: cs_def) (simp add: cc)
    then show thesis using replace [of xs d ys] cc k xk by (simp add: cs_def)
  qed
qed

lemma put_cookie_ok [c_inv]:
  assumes "jar_ok jar" "cookie_ok c"
  shows "jar_ok (put_cookie c jar)"
proof -
  have ok: "list_all cookie_ok (cj_cookies jar)" using assms(1) by (simp add: jar_ok_def)
  show ?thesis
  proof (cases rule: put_cookie_cases [OF assms(2) ok, case_names replace new full])
    case (replace xs d ys)
    then show ?thesis using assms by (auto simp: jar_ok_def)
  next
    case new
    then show ?thesis using assms by (auto simp: jar_ok_def)
  next
    case full
    have "map cookie_key ((cj_cookies jar)[USH_BROWSER_COOKIE_MAX - 1 := c]) = (map cookie_key (cj_cookies jar))[USH_BROWSER_COOKIE_MAX - 1 := cookie_key c]"
      by (simp add: map_update)
    moreover have "distinct \<dots>" using full(1) assms(1) by (intro distinct_list_update) (auto simp: jar_ok_def)
    moreover have "list_all cookie_ok ((cj_cookies jar)[USH_BROWSER_COOKIE_MAX - 1 := c])"
      using ok assms(2) by (auto simp: list_all_iff dest: set_update_subset_insert [THEN subsetD])
    ultimately show ?thesis using full(3) assms(1) by (simp add: jar_ok_def)
  qed
qed

lemma map_of_distinct_replace:
  assumes "distinct (map f (xs @ d # ys))" "f c = f d"
  shows "map_of (map (\<lambda>c. (f c, g c)) (xs @ c # ys)) = (map_of (map (\<lambda>c. (f c, g c)) (xs @ d # ys)))(f c \<mapsto> g c)"
proof -
  have "f d \<notin> dom (map_of (map (\<lambda>c. (f c, g c)) xs))" using assms(1) by (auto simp: dom_map_of_conv_image_fst image_image)
  then show ?thesis using assms(2) by (auto simp: fun_eq_iff map_add_def split: option.split)
qed

lemma map_of_snoc:
  "f c \<notin> f ` set xs \<Longrightarrow> map_of (map (\<lambda>c. (f c, g c)) (xs @ [c])) = (map_of (map (\<lambda>c. (f c, g c)) xs))(f c \<mapsto> g c)"
proof (induction xs)
  case (Cons a xs)
  then have "f a \<noteq> f c" by auto
  then show ?case using Cons by (auto simp: fun_eq_iff)
qed simp

lemma restrict_map_UNIV: "m |` UNIV = m"
  by (simp add: restrict_map_def)

lemma restrict_snoc:
  assumes "f d \<notin> f ` set xs"
  shows "(map_of (map (\<lambda>c. (f c, g c)) (xs @ [d]))) |` (- {f d}) = map_of (map (\<lambda>c. (f c, g c)) xs)"
proof -
  have "f d \<notin> dom (map_of (map (\<lambda>c. (f c, g c)) xs))" using assms by (auto simp: dom_map_of_conv_image_fst image_image)
  then have "map_of (map (\<lambda>c. (f c, g c)) xs) (f d) = None" by blast
  then show ?thesis unfolding map_of_snoc [OF assms] by (auto simp: fun_eq_iff restrict_map_def)
qed

text \<open>What putting a cookie does to the map; \<open>lost\<close> is the entry that a full table gives up.\<close>

definition lost_entry :: "ush_browser_cookie \<Rightarrow> cookie_jar \<Rightarrow> jar_key set" where
  "lost_entry c jar =
     (if cookie_key c \<in> dom (jar_map jar) \<or> length (cj_cookies jar) < USH_BROWSER_COOKIE_MAX then {}
      else {cookie_key (last (cj_cookies jar))})"

lemma jar_map_put:
  assumes "jar_ok jar" "cookie_ok c"
  shows "jar_map (put_cookie c jar) = (jar_map jar |` (- lost_entry c jar))(cookie_key c \<mapsto> (ck_value c, ck_secure c))"
proof -
  have ok: "list_all cookie_ok (cj_cookies jar)" "distinct (map cookie_key (cj_cookies jar))"
    "length (cj_cookies jar) \<le> USH_BROWSER_COOKIE_MAX" using assms(1) by (simp_all add: jar_ok_def)
  have dm: "dom (jar_map jar) = set (map cookie_key (cj_cookies jar))"
    by (simp add: jar_map_def dom_map_of_conv_image_fst image_image)
  show ?thesis
  proof (cases rule: put_cookie_cases [OF assms(2) ok(1), case_names replace new full])
    case (replace xs d ys)
    have "lost_entry c jar = {}" using dm replace(1,2) by (auto simp: lost_entry_def)
    moreover have "map_of (map (\<lambda>c. (cookie_key c, (ck_value c, ck_secure c))) (xs @ c # ys)) =
        (map_of (map (\<lambda>c. (cookie_key c, (ck_value c, ck_secure c))) (xs @ d # ys)))(cookie_key c \<mapsto> (ck_value c, ck_secure c))"
      by (rule map_of_distinct_replace) (use ok(2) replace(1,2) in auto)
    moreover have "cj_cookies (put_cookie c jar) = xs @ c # ys" by (simp add: replace(4))
    ultimately show ?thesis by (simp only: jar_map_def replace(1) Compl_empty_eq restrict_map_UNIV)
  next
    case new
    have "lost_entry c jar = {}" using new(2) by (simp add: lost_entry_def)
    then show ?thesis using new(1,3) map_of_snoc [of cookie_key c "cj_cookies jar" "\<lambda>c. (ck_value c, ck_secure c)"]
      by (auto simp: jar_map_def fun_eq_iff restrict_map_def)
  next
    case full
    then have l: "length (cj_cookies jar) = USH_BROWSER_COOKIE_MAX" using ok(3) by simp
    then have ne: "cj_cookies jar \<noteq> []" by (auto simp: USH_BROWSER_COOKIE_MAX_def)
    define xs where "xs = butlast (cj_cookies jar)"
    define d where "d = last (cj_cookies jar)"
    have cs: "cj_cookies jar = xs @ [d]" using ne by (simp add: xs_def d_def)
    have "(cj_cookies jar)[USH_BROWSER_COOKIE_MAX - 1 := c] = xs @ [c]"
    proof -
      have "USH_BROWSER_COOKIE_MAX - 1 = length xs" using l by (simp add: cs)
      then show ?thesis by (simp only: cs) simp
    qed
    then have p: "cj_cookies (put_cookie c jar) = xs @ [c]" using full(3) by simp
    have le: "lost_entry c jar = {cookie_key d}" using full(1,2) dm by (auto simp: lost_entry_def d_def)
    have nd: "cookie_key d \<notin> set (map cookie_key xs)" "cookie_key c \<notin> set (map cookie_key xs)" using ok(2) full(1) by (simp_all add: cs)
    then show ?thesis unfolding le
      using map_of_snoc [of cookie_key c xs "\<lambda>c. (ck_value c, ck_secure c)"] restrict_snoc [of cookie_key d xs "\<lambda>c. (ck_value c, ck_secure c)"]
      by (simp add: jar_map_def p cs)
  qed
qed

section \<open>Sessions\<close>

text \<open>The operations of the browser on the jar, with responses and tokens as they come.\<close>

inductive jar_step :: "cookie_jar \<Rightarrow> cookie_jar \<Rightarrow> bool" where
  response: "url_plain url \<Longrightarrow> jar_step jar (ush_browser_cookie_store_from_response url raw jar)"
| clear: "jar_step jar (ush_browser_cookie_clear_all jar)"
| set_token: "NUL \<notin> set t \<Longrightarrow> jar_step jar (ush_browser_cookie_set_token (Some t) jar)"
| clear_token: "jar_step jar (ush_browser_cookie_clear_token jar)"

inductive jar_session :: "cookie_jar \<Rightarrow> bool" where
  start: "jar_session \<lparr>cj_cookies = [], cj_token = []\<rparr>"
| step: "jar_session jar \<Longrightarrow> jar_step jar jar' \<Longrightarrow> jar_session jar'"

lemma store_line_ok [c_inv]: "url_plain url \<Longrightarrow> jar_ok jar \<Longrightarrow> jar_ok (store_line url line jar)"
  by (auto simp: store_line_def store_one_cookie put_cookie_ok split: option.split)

lemma store_lines_ok: "url_plain url \<Longrightarrow> jar_ok jar \<Longrightarrow> jar_ok (fold (store_line url) ls jar)"
  by (induction ls arbitrary: jar) (simp_all add: store_line_ok)

lemma jar_step_ok [c_inv]:
  assumes "jar_step jar jar'" "jar_ok jar"
  shows "jar_ok jar'"
  using assms(1)
proof (cases rule: jar_step.cases)
  case (response url raw)
  then show ?thesis using assms(2) store_lines_ok by (auto simp: ush_browser_cookie_store_from_response_def split: option.split)
next
  case clear
  then show ?thesis using assms(2) by (simp add: jar_ok_def ush_browser_cookie_clear_all_def)
next
  case (set_token t)
  then show ?thesis using assms(2)
    by (auto simp: jar_ok_def ush_browser_cookie_set_token_def ush_copy_take bounded_def USH_BROWSER_TOKEN_MAX_def dest: in_set_takeD)
next
  case clear_token
  then show ?thesis using assms(2) by (simp add: jar_ok_def ush_browser_cookie_clear_token_def bounded_def USH_BROWSER_TOKEN_MAX_def)
qed

lemma jar_session_ok: "jar_session jar \<Longrightarrow> jar_ok jar"
proof (induction rule: jar_session.induct)
  case start
  show ?case by (simp add: jar_ok_def bounded_def USH_BROWSER_TOKEN_MAX_def)
next
  case (step jar jar')
  then show ?case using jar_step_ok by blast
qed

text \<open>C21: whatever responses arrive, the jar holds at most 24 cookies, all with a name, a domain and a path, all texts
  terminated in their arrays, and never two with the same name, domain and path (letter case apart in
  the first two); and a cookie line acts on the jar as an update of a map with that key, where a full table gives up the
  entry of its last slot.\<close>

theorem cookie_jar_refines_map:
  assumes "jar_session jar" "url_plain url"
  shows "jar_ok jar
    \<and> jar_map (ush_browser_cookie_store_one url value jar) =
       (case line_cookie url value of
          None \<Rightarrow> jar_map jar
        | Some c \<Rightarrow> (jar_map jar |` (- lost_entry c jar))(cookie_key c \<mapsto> (ck_value c, ck_secure c)))"
  using jar_session_ok [OF assms(1)] store_one_cookie [OF assms(2)] jar_map_put by (auto split: option.split)

theorem cookie_jar_refines_map_witness:
  "jar_map (ush_browser_cookie_store_one \<lparr>bu_host = ''h.org'', bu_path = ''/a/b'', bu_port = 443, bu_tls = True\<rparr>
     '' Sid=1; Secure; path=/x'' \<lparr>cj_cookies = [], cj_token = []\<rparr>) (''sid'', ''h.org'', ''/x'') = Some (''1'', True)"
proof -
  let ?url = "\<lparr>bu_host = ''h.org'', bu_path = ''/a/b'', bu_port = 443, bu_tls = True\<rparr>"
  define c where "c = \<lparr>ck_name = ''Sid'', ck_value = ''1'', ck_domain = ''h.org'', ck_path = ''/x'', ck_secure = True\<rparr>"
  have "url_plain ?url" by (simp add: url_plain_def)
  moreover have "line_cookie ?url '' Sid=1; Secure; path=/x'' = Some c" unfolding c_def by code_simp
  moreover have "cookie_key c = (''sid'', ''h.org'', ''/x'')" unfolding c_def by code_simp
  moreover have "ck_value c = ''1''" "ck_secure c" by (simp_all add: c_def)
  ultimately show ?thesis using cookie_jar_refines_map [OF jar_session.start, of ?url "'' Sid=1; Secure; path=/x''"] by simp
qed

section \<open>Sending\<close>

text \<open>The hosts of a domain: the domain itself and, behind a dot, everything in front of it.\<close>

definition domain_covers :: "string \<Rightarrow> string \<Rightarrow> bool" where
  "domain_covers domain host \<longleftrightarrow>
     (let d = (if ch_at domain 0 = CHR ''.'' then drop 1 domain else domain) in
      lower host = lower domain \<or> d \<noteq> [] \<and> (\<exists>p. lower host = p @ ''.'' @ lower d))"

definition cookies_text :: "ush_browser_cookie list \<Rightarrow> string" where
  "cookies_text cs = drop 2 (concat (map (\<lambda>c. ''; '' @ ck_name c @ ''='' @ ck_value c) cs))"

lemma lower_dot: "ush_browser_ascii_tolower c = CHR ''.'' \<longleftrightarrow> c = CHR ''.''"
proof
  assume a: "ush_browser_ascii_tolower c = CHR ''.''"
  show "c = CHR ''.''"
  proof (cases "65 \<le> schar c \<and> schar c \<le> 90")
    case True
    then have "to_char (schar c - 65 + 97) = CHR ''.''" using a by (simp only: ush_browser_ascii_tolower_def simp_thms if_True)
    then have "uchar (to_char (schar c - 65 + 97)) = uchar (CHR ''.'')" by (rule arg_cong)
    moreover have "uchar (CHR ''.'') = 46" by code_simp
    ultimately have "schar c + 32 = 46" using True by (simp only: uchar_to_char) simp
    then show ?thesis using True by simp
  next
    case False
    then show ?thesis using a by (simp only: ush_browser_ascii_tolower_def if_False simp_thms)
  qed
next
  assume "c = CHR ''.''"
  moreover have "ush_browser_ascii_tolower (CHR ''.'') = CHR ''.''" by code_simp
  ultimately show "ush_browser_ascii_tolower c = CHR ''.''" by simp
qed

lemma domain_matches_iff:
  assumes "host \<noteq> []" "domain \<noteq> []"
  shows "ush_browser_cookie_domain_matches host domain \<longleftrightarrow> domain_covers domain host"
proof -
  define d where "d = (if ch_at domain 0 = CHR ''.'' then drop 1 domain else domain)"
  have tail: "(\<exists>p. lower host = p @ ''.'' @ lower d) \<longleftrightarrow>
      length d < length host \<and> host ! (length host - length d - 1) = CHR ''.'' \<and> lower (drop (length host - length d) host) = lower d"
  proof
    assume "\<exists>p. lower host = p @ ''.'' @ lower d"
    then obtain p where p: "lower host = p @ ''.'' @ lower d" by blast
    have "length host = length (lower host)" by simp
    also have "\<dots> = length p + 1 + length d" by (simp only: p) simp
    finally have l: "length host = length p + 1 + length d" .
    have "lower (drop (length host - length d) host) = drop (length p + 1) (lower host)" by (simp add: l drop_map)
    then have "lower (drop (length host - length d) host) = lower d" by (simp add: p)
    moreover have "ush_browser_ascii_tolower (host ! length p) = lower host ! length p" using l by simp
    then have "ush_browser_ascii_tolower (host ! length p) = CHR ''.''" by (simp add: p)
    ultimately show "length d < length host \<and> host ! (length host - length d - 1) = CHR ''.'' \<and> lower (drop (length host - length d) host) = lower d"
      using l by (simp add: lower_dot)
  next
    assume a: "length d < length host \<and> host ! (length host - length d - 1) = CHR ''.'' \<and> lower (drop (length host - length d) host) = lower d"
    define k where "k = length host - length d - 1"
    have k: "k < length host" "length host - length d = Suc k" using conjunct1 [OF a] unfolding k_def by linarith+
    have "host = take k host @ host ! k # drop (Suc k) host" using k(1) by (rule id_take_nth_drop)
    then have "lower host = lower (take k host) @ ush_browser_ascii_tolower (host ! k) # lower (drop (Suc k) host)" by (metis list.map(2) map_append)
    moreover have "ush_browser_ascii_tolower (host ! k) = CHR ''.''" using a by (simp add: lower_dot k_def)
    ultimately show "\<exists>p. lower host = p @ ''.'' @ lower d" using a k(2) by auto
  qed
  show ?thesis using assms unfolding ush_browser_cookie_domain_matches_def domain_covers_def Let_def d_def [symmetric] streq_icase_lower tail
    by auto
qed

lemma header_loop_text:
  assumes "(if first then out = [] else True)" "length out + length (concat (map (\<lambda>c. ''; '' @ ck_name c @ ''='' @ ck_value c) (filter (cookie_sent url) cs))) + 1 < n"
  shows "header_loop url n cs out first = out @ drop (if first then 2 else 0) (concat (map (\<lambda>c. ''; '' @ ck_name c @ ''='' @ ck_value c) (filter (cookie_sent url) cs)))"
  using assms
proof (induction url n cs out first rule: header_loop.induct)
  case (2 url n c cs out first)
  let ?t = "(if first then [] else ''; '') @ ck_name c @ ''='' @ ck_value c"
  show ?case
  proof (cases "cookie_sent url c")
    case True
    have "cut_text (n - length out) ?t = ?t" using 2(4) True by (auto simp: cut_text_def)
    then show ?thesis using 2 True by (auto simp: Let_def)
  next
    case False
    then show ?thesis using 2 by simp
  qed
qed auto



section \<open>Setting and sending\<close>

lemma copy_trimmed_plain:
  assumes "\<forall>c\<in>set b. cookie_blank c" "\<forall>c\<in>set t. \<not> cookie_blank c" "bounded n t"
  shows "ush_browser_cookie_copy_trimmed n (b @ t) = t"
proof -
  have d: "dropWhile cookie_blank (b @ t) = t" using assms(1,2) by (cases t) (auto simp: dropWhile_append)
  have "dropWhile cookie_blank (rev t) = rev t" using assms(2) by (cases t rule: rev_cases) auto
  moreover have "takeWhile (\<lambda>c. c \<noteq> NUL) t = t" using assms(3) by (auto simp: bounded_def)
  ultimately show ?thesis using assms(3) d by (simp add: ush_browser_cookie_copy_trimmed_def Let_def bounded_def)
qed

definition cookie_word :: "string \<Rightarrow> bool" where
  "cookie_word t \<longleftrightarrow> t \<noteq> [] \<and> (\<forall>c\<in>set t. \<not> cookie_blank c \<and> c \<noteq> CHR '';'' \<and> c \<noteq> CHR ''='' \<and> c \<noteq> NUL)"

lemma line_cookie_plain:
  assumes "\<forall>c\<in>set b. cookie_blank c" "cookie_word nm" "cookie_word v" "length nm < USH_BROWSER_COOKIE_NAME_MAX" "length v < USH_BROWSER_COOKIE_VALUE_MAX"
    and "bu_host url \<noteq> []" "bounded USH_BROWSER_COOKIE_DOMAIN_MAX (bu_host url)"
  shows "line_cookie url (b @ nm @ ''='' @ v) = Some \<lparr>ck_name = nm, ck_value = v, ck_domain = bu_host url,
    ck_path = ush_browser_cookie_default_path (bu_path url) USH_BROWSER_COOKIE_PATH_MAX, ck_secure = False\<rparr>"
proof -
  let ?t = "nm @ ''='' @ v" and ?k = "USH_BROWSER_COOKIE_NAME_MAX + USH_BROWSER_COOKIE_VALUE_MAX + 8"
  have w: "nm \<noteq> []" "v \<noteq> []" "\<forall>c\<in>set nm \<union> set v. \<not> cookie_blank c \<and> c \<noteq> CHR '';'' \<and> c \<noteq> CHR ''='' \<and> c \<noteq> NUL"
    using assms(2,3) by (auto simp: cookie_word_def)
  have eqs: "\<not> cookie_blank (CHR ''='')" by code_simp
  have semi: "\<forall>c\<in>set b. c \<noteq> CHR '';''"
  proof -
    have "\<not> cookie_blank (CHR '';'')" by code_simp
    then show ?thesis using assms(1) by auto
  qed
  have pt: "takeWhile (\<lambda>c. c \<noteq> CHR '';'') (b @ ?t) = b @ ?t" using semi w(3) by auto
  have bt: "bounded ?k ?t" using assms(4,5) w(3) by (auto simp: bounded_def)
  have pair: "ush_browser_cookie_copy_trimmed ?k (b @ ?t) = ?t"
    by (rule copy_trimmed_plain [OF assms(1) _ bt]) (use w(3) eqs in auto)
  have tw: "takeWhile (\<lambda>c. c \<noteq> CHR ''='') ?t = nm" using w(3) by (simp add: takeWhile_append_stop)
  have c: "ush_browser_cookie_copy_trimmed USH_BROWSER_COOKIE_NAME_MAX nm = nm" "ush_browser_cookie_copy_trimmed USH_BROWSER_COOKIE_VALUE_MAX v = v"
    using copy_trimmed_plain [of "[]" nm USH_BROWSER_COOKIE_NAME_MAX] copy_trimmed_plain [of "[]" v USH_BROWSER_COOKIE_VALUE_MAX] w(3) assms(4,5)
    by (auto simp: bounded_def)
  have p: "ush_browser_cookie_default_path (bu_path url) USH_BROWSER_COOKIE_PATH_MAX \<noteq> []"
  proof (cases "ch_at (bu_path url) 0 = CHR ''/''")
    case True
    then obtain t where b: "bu_path url = CHR ''/'' # t" by (cases "bu_path url") (auto simp: ch_at_def)
    define i where "i = length (to_last_slash (bu_path url))"
    have "CHR ''/'' \<in> set (rev (bu_path url))" by (simp add: b)
    then have "dropWhile (\<lambda>c. c \<noteq> CHR ''/'') (rev (bu_path url)) \<noteq> []" by (auto simp: dropWhile_eq_Nil_conv)
    then have "0 < i" by (simp add: i_def to_last_slash_def)
    then have "0 < length (to_last_slash (CHR ''/'' # t))" by (simp add: i_def b)
    then obtain m where "length (to_last_slash (CHR ''/'' # t)) = Suc m" using gr0_implies_Suc by blast
    then show ?thesis using True b by (auto simp: ush_browser_cookie_default_path_def Let_def USH_BROWSER_COOKIE_PATH_MAX_def)
  qed (simp add: ush_browser_cookie_default_path_def)
  show ?thesis
    using w(1) assms(6) p copy_same [OF assms(7)] tw c unfolding line_cookie_def pt Let_def pair
    by (simp add: attr_loop.simps [of "[]"])
qed

lemma default_path_prefix:
  assumes "ch_at p 0 = CHR ''/''"
  shows "take (length (ush_browser_cookie_default_path p n)) p = ush_browser_cookie_default_path p n"
  using assms by (auto simp: ush_browser_cookie_default_path_def Let_def min_def)

lemma put_cookie_in: "cookie_ok c \<Longrightarrow> jar_ok jar \<Longrightarrow> c \<in> set (cj_cookies (put_cookie c jar))"
proof -
  assume a: "cookie_ok c" "jar_ok jar"
  then have ok: "list_all cookie_ok (cj_cookies jar)" by (simp add: jar_ok_def)
  show ?thesis
  proof (cases rule: put_cookie_cases [OF a(1) ok, case_names replace new full])
    case full
    have "USH_BROWSER_COOKIE_MAX - 1 < length (cj_cookies jar)" using full(2) by (simp add: USH_BROWSER_COOKIE_MAX_def)
    then show ?thesis using full(3) by (simp add: set_update_memI)
  qed simp_all
qed

text \<open>C23: a cookie set without attributes is sent with the next request to the same address.\<close>

theorem cookie_set_then_sent:
  assumes "jar_session jar" "url_plain url" "bounded USH_BROWSER_COOKIE_DOMAIN_MAX (bu_host url)" "bu_host url \<noteq> []" "ch_at (bu_path url) 0 = CHR ''/''"
    and "cookie_word nm" "cookie_word v" "length nm < USH_BROWSER_COOKIE_NAME_MAX" "length v < USH_BROWSER_COOKIE_VALUE_MAX"
    and "jar' = ush_browser_cookie_store_one url ('' '' @ nm @ ''='' @ v) jar"
    and "length (cookies_text (filter (cookie_sent url) (cj_cookies jar'))) + 4 \<le> n"
  shows "\<exists>cs ds. ush_browser_cookie_build_header url n jar' = Some (cookies_text (cs @ \<lparr>ck_name = nm, ck_value = v, ck_domain = bu_host url,
    ck_path = ush_browser_cookie_default_path (bu_path url) USH_BROWSER_COOKIE_PATH_MAX, ck_secure = False\<rparr> # ds))"
proof -
  define c where "c = \<lparr>ck_name = nm, ck_value = v, ck_domain = bu_host url,
    ck_path = ush_browser_cookie_default_path (bu_path url) USH_BROWSER_COOKIE_PATH_MAX, ck_secure = False\<rparr>"
  have jar: "jar_ok jar" by (rule jar_session_ok [OF assms(1)])
  have "\<forall>c\<in>set '' ''. cookie_blank c" by code_simp
  then have l: "line_cookie url ('' '' @ nm @ ''='' @ v) = Some c"
    unfolding c_def by (rule line_cookie_plain [OF _ assms(6-9,4,3)])
  then have j: "jar' = put_cookie c jar" and ok: "cookie_ok c" using assms(10) store_one_cookie [OF assms(2)] by auto
  have "c \<in> set (cj_cookies jar')" unfolding j by (rule put_cookie_in [OF ok jar])
  moreover have "cookie_sent url c"
  proof -
    have "domain_covers (bu_host url) (bu_host url)" by (simp add: domain_covers_def Let_def)
    then have "ush_browser_cookie_domain_matches (bu_host url) (bu_host url)" using domain_matches_iff [OF assms(4,4)] by simp
    moreover have "path_prefix (bu_path url) (ck_path c)"
      using default_path_prefix [OF assms(5)] unfolding path_prefix_iff by (metis append_take_drop_id c_def ush_browser_cookie.select_convs(4))
    ultimately show ?thesis using ok assms(6,7) by (simp add: cookie_sent_def c_def cookie_word_def ush_browser_cookie_path_matches_def cookie_ok_def)
  qed
  ultimately have "c \<in> set (filter (cookie_sent url) (cj_cookies jar'))" by simp
  then obtain cs ds where f: "filter (cookie_sent url) (cj_cookies jar') = cs @ c # ds" by (meson split_list)
  have "length (concat (map (\<lambda>c. ''; '' @ ck_name c @ ''='' @ ck_value c) (cs @ c # ds))) + 1 < n"
    using assms(11) unfolding f by (auto simp: cookies_text_def)
  then have "header_loop url n (cj_cookies jar') [] True = cookies_text (cs @ c # ds)"
    using header_loop_text [of True "[]" url "cj_cookies jar'" n] unfolding f by (simp add: cookies_text_def)
  moreover have "cookies_text (cs @ c # ds) \<noteq> []" using f by (cases cs) (auto simp: cookies_text_def)
  ultimately have "ush_browser_cookie_build_header url n jar' = Some (cookies_text (cs @ c # ds))"
    using assms(11) by (simp add: ush_browser_cookie_build_header_def Let_def)
  then show ?thesis unfolding c_def by blast
qed

theorem cookie_set_then_sent_witness:
  "\<exists>h. ush_browser_cookie_build_header \<lparr>bu_host = ''h.org'', bu_path = ''/a/b'', bu_port = 80, bu_tls = False\<rparr> 512
     (ush_browser_cookie_store_one \<lparr>bu_host = ''h.org'', bu_path = ''/a/b'', bu_port = 80, bu_tls = False\<rparr>
        ('' '' @ ''k'' @ ''='' @ ''v'') \<lparr>cj_cookies = [], cj_token = []\<rparr>) = Some h"
proof -
  define url where "url = \<lparr>bu_host = ''h.org'', bu_path = ''/a/b'', bu_port = 80, bu_tls = False\<rparr>"
  define jar' where "jar' = ush_browser_cookie_store_one url ('' '' @ ''k'' @ ''='' @ ''v'') \<lparr>cj_cookies = [], cj_token = []\<rparr>"
  have "length (cookies_text (filter (cookie_sent url) (cj_cookies jar'))) = 3" unfolding jar'_def url_def by code_simp
  moreover have "cookie_word ''k''" "cookie_word ''v''" by (code_simp, code_simp)
  moreover have "url_plain url" "bounded USH_BROWSER_COOKIE_DOMAIN_MAX (bu_host url)" "bu_host url \<noteq> []" "ch_at (bu_path url) 0 = CHR ''/''"
    by (simp_all add: url_def url_plain_def bounded_def USH_BROWSER_COOKIE_DOMAIN_MAX_def ch_at_def)
  ultimately have "\<exists>h. ush_browser_cookie_build_header url 512 jar' = Some h"
    using cookie_set_then_sent [OF jar_session.start, of url "''k''" "''v''" jar' 512] jar'_def
    by (simp add: USH_BROWSER_COOKIE_NAME_MAX_def USH_BROWSER_COOKIE_VALUE_MAX_def) blast
  then show ?thesis unfolding jar'_def url_def .
qed

text \<open>The domain of a cookie is not checked against the host that sets it: \<open>evil.org\<close> sets a cookie that is sent to
  \<open>bank.com\<close>; and the path \<open>/foo\<close> of a cookie also covers \<open>/foobar\<close>.\<close>

theorem cookie_cross_site:
  "ush_browser_cookie_build_header \<lparr>bu_host = ''www.bank.com'', bu_path = ''/foobar'', bu_port = 443, bu_tls = True\<rparr> 512
     (ush_browser_cookie_store_from_response \<lparr>bu_host = ''evil.org'', bu_path = ''/'', bu_port = 80, bu_tls = False\<rparr>
        (lines_text [''HTTP/1.1 200 OK'', ''Set-Cookie: sid=1; Domain=bank.com; Path=/foo''] @ CRLF)
        \<lparr>cj_cookies = [], cj_token = []\<rparr>) = Some ''sid=1''"
  by code_simp

end
