(* ===== verification/VimEdit.thy ===== *)
theory VimEdit
  imports UshPath
begin

text \<open>
  The text buffer of the editor \<open>vim\<close> (\<open>apps/vim_main.c\<close>): UTF-8 boundaries, cursor movement and the
  editing operations. A line is its first \<open>len\<close> bytes; the lines behind \<open>line_count\<close> are zero in the code and
  absent here. The specification is the text in front of the cursor and behind it (\<open>gap\<close>): every operation moves
  or changes it as on a plain text.
\<close>

section \<open>Definitions\<close>

definition USH_VIM_MAX_LINES :: nat where "USH_VIM_MAX_LINES = 2048"
definition USH_VIM_MAX_LINE_LEN :: nat where "USH_VIM_MAX_LINE_LEN = 512"
definition USH_VIM_STATUS_MAX :: nat where "USH_VIM_STATUS_MAX = 160"
definition USH_VIM_CMD_MAX :: nat where "USH_VIM_CMD_MAX = 128"
definition USH_VIM_VIEW_ROWS :: nat where "USH_VIM_VIEW_ROWS = 20"
definition USH_VIM_MODE_NORMAL :: nat where "USH_VIM_MODE_NORMAL = 0"
definition USH_VIM_MODE_INSERT :: nat where "USH_VIM_MODE_INSERT = 1"
definition USH_VIM_MODE_COMMAND :: nat where "USH_VIM_MODE_COMMAND = 2"

record ush_vim_editor =
  ve_lines :: "string list"
  ve_cursor_line :: nat
  ve_cursor_col :: nat
  ve_scroll_top :: nat
  ve_mode :: nat
  ve_modified :: bool
  ve_quit_requested :: bool
  ve_pending_dd :: bool
  ve_pending_gg :: bool
  ve_pending_jj :: bool
  ve_file_path :: string
  ve_status :: string
  ve_command :: string

abbreviation ve_line_count :: "ush_vim_editor \<Rightarrow> nat" where
  "ve_line_count ed \<equiv> length (ve_lines ed)"

definition cur_line :: "ush_vim_editor \<Rightarrow> string" where
  "cur_line ed = ve_lines ed ! ve_cursor_line ed"

definition set_line :: "string \<Rightarrow> ush_vim_editor \<Rightarrow> ush_vim_editor" where
  "set_line l ed = ed\<lparr>ve_lines := (ve_lines ed)[ve_cursor_line ed := l]\<rparr>"

definition ush_vim_set_status :: "string \<Rightarrow> ush_vim_editor \<Rightarrow> ush_vim_editor" where
  "ush_vim_set_status text ed = ed\<lparr>ve_status := ush_copy (ve_status ed) USH_VIM_STATUS_MAX (Some text)\<rparr>"

definition ush_vim_utf8_is_cont :: "char \<Rightarrow> bool" where
  "ush_vim_utf8_is_cont ch \<longleftrightarrow> 0x80 \<le> uchar ch \<and> uchar ch \<le> 0xBF"

definition ush_vim_utf8_len_from_lead :: "char \<Rightarrow> nat" where
  "ush_vim_utf8_len_from_lead lead =
     (if uchar lead < 0x80 then 1
      else if 0xC2 \<le> uchar lead \<and> uchar lead \<le> 0xDF then 2
      else if 0xE0 \<le> uchar lead \<and> uchar lead \<le> 0xEF then 3
      else if 0xF0 \<le> uchar lead \<and> uchar lead \<le> 0xF4 then 4
      else 1)"

definition ush_vim_utf8_char_len_at :: "string \<Rightarrow> nat \<Rightarrow> nat" where
  "ush_vim_utf8_char_len_at text pos =
     (if length text \<le> pos then 0
      else (let need = ush_vim_utf8_len_from_lead (text ! pos) in
        if need = 1 \<or> length text < pos + need then 1
        else if \<not> list_all (\<lambda>i. ush_vim_utf8_is_cont (text ! (pos + i))) [1..<need] then 1
        else need))"

text \<open>\<open>while (pos > 0 && is_cont(text[pos])) pos--;\<close>\<close>

fun back_over_cont :: "string \<Rightarrow> nat \<Rightarrow> nat" where
  "back_over_cont text 0 = 0"
| "back_over_cont text (Suc pos) = (if ush_vim_utf8_is_cont (text ! Suc pos) then back_over_cont text pos else Suc pos)"

definition ush_vim_utf8_prev_boundary :: "string \<Rightarrow> nat \<Rightarrow> nat" where
  "ush_vim_utf8_prev_boundary text pos =
     (if pos = 0 then 0
      else (let pos = (if length text < pos then length text else pos) in back_over_cont text (pos - 1)))"

definition ush_vim_utf8_next_boundary :: "string \<Rightarrow> nat \<Rightarrow> nat" where
  "ush_vim_utf8_next_boundary text pos =
     (if length text \<le> pos then length text
      else (let adv = ush_vim_utf8_char_len_at text pos;
                adv = (if adv = 0 then 1 else adv)
            in if length text < pos + adv then length text else pos + adv))"

definition ush_vim_reset_buffer :: "ush_vim_editor \<Rightarrow> ush_vim_editor" where
  "ush_vim_reset_buffer ed = ed\<lparr>ve_lines := [[]], ve_cursor_line := 0, ve_cursor_col := 0, ve_scroll_top := 0\<rparr>"

definition ush_vim_init :: ush_vim_editor where
  "ush_vim_init =
     ush_vim_set_status ''Ready. Press i to insert (jj => NORMAL), :w to save, :q to quit.''
       (ush_vim_reset_buffer
         \<lparr>ve_lines = [], ve_cursor_line = 0, ve_cursor_col = 0, ve_scroll_top = 0, ve_mode = USH_VIM_MODE_NORMAL,
          ve_modified = False, ve_quit_requested = False, ve_pending_dd = False, ve_pending_gg = False,
          ve_pending_jj = False, ve_file_path = [], ve_status = [], ve_command = []\<rparr>)"

definition ush_vim_keep_cursor_valid :: "ush_vim_editor \<Rightarrow> ush_vim_editor" where
  "ush_vim_keep_cursor_valid ed =
     (if ve_line_count ed = 0 then ed
      else (let cl = (if ve_line_count ed \<le> ve_cursor_line ed then ve_line_count ed - 1 else ve_cursor_line ed);
                line = ve_lines ed ! cl;
                cc = (if length line < ve_cursor_col ed then length line else ve_cursor_col ed)
            in ed\<lparr>ve_cursor_line := cl, ve_cursor_col := (if cc < length line then back_over_cont line cc else cc)\<rparr>))"

definition ush_vim_ensure_cursor_visible :: "ush_vim_editor \<Rightarrow> ush_vim_editor" where
  "ush_vim_ensure_cursor_visible ed =
     (if ve_cursor_line ed < ve_scroll_top ed then ed\<lparr>ve_scroll_top := ve_cursor_line ed\<rparr>
      else if ve_scroll_top ed + USH_VIM_VIEW_ROWS \<le> ve_cursor_line ed
      then ed\<lparr>ve_scroll_top := ve_cursor_line ed - USH_VIM_VIEW_ROWS + 1\<rparr>
      else ed)"

definition ush_vim_move_left :: "ush_vim_editor \<Rightarrow> ush_vim_editor" where
  "ush_vim_move_left ed =
     (if 0 < ve_cursor_col ed
      then ed\<lparr>ve_cursor_col := ush_vim_utf8_prev_boundary (cur_line ed) (ve_cursor_col ed)\<rparr>
      else if 0 < ve_cursor_line ed
      then ed\<lparr>ve_cursor_line := ve_cursor_line ed - 1, ve_cursor_col := length (ve_lines ed ! (ve_cursor_line ed - 1))\<rparr>
      else ed)"

definition ush_vim_move_right :: "ush_vim_editor \<Rightarrow> ush_vim_editor" where
  "ush_vim_move_right ed =
     (if ve_cursor_col ed < length (cur_line ed)
      then ed\<lparr>ve_cursor_col := ush_vim_utf8_next_boundary (cur_line ed) (ve_cursor_col ed)\<rparr>
      else if ve_cursor_line ed + 1 < ve_line_count ed
      then ed\<lparr>ve_cursor_line := ve_cursor_line ed + 1, ve_cursor_col := 0\<rparr>
      else ed)"

definition ush_vim_move_up :: "ush_vim_editor \<Rightarrow> ush_vim_editor" where
  "ush_vim_move_up ed =
     ush_vim_keep_cursor_valid (if 0 < ve_cursor_line ed then ed\<lparr>ve_cursor_line := ve_cursor_line ed - 1\<rparr> else ed)"

definition ush_vim_move_down :: "ush_vim_editor \<Rightarrow> ush_vim_editor" where
  "ush_vim_move_down ed =
     ush_vim_keep_cursor_valid
       (if ve_cursor_line ed + 1 < ve_line_count ed then ed\<lparr>ve_cursor_line := ve_cursor_line ed + 1\<rparr> else ed)"

text \<open>Operations return the editor and the status.\<close>

definition ush_vim_insert_line_after :: "ush_vim_editor \<Rightarrow> nat \<Rightarrow> ush_vim_editor \<times> bool" where
  "ush_vim_insert_line_after ed line_index =
     (if ve_line_count ed \<le> line_index then (ed, False)
      else if USH_VIM_MAX_LINES \<le> ve_line_count ed then (ush_vim_set_status ''line limit reached'' ed, False)
      else (ed\<lparr>ve_lines := take (line_index + 1) (ve_lines ed) @ [] # drop (line_index + 1) (ve_lines ed)\<rparr>, True))"

definition ush_vim_insert_bytes :: "ush_vim_editor \<Rightarrow> string \<Rightarrow> ush_vim_editor \<times> bool" where
  "ush_vim_insert_bytes ed bytes =
     (if bytes = [] then (ed, False)
      else if uchar (bytes ! 0) < 0x20 \<or> bytes ! 0 = CHR 0x0A \<or> bytes ! 0 = CHR 0x0D then (ed, False)
      else (let line = cur_line ed in
        if USH_VIM_MAX_LINE_LEN \<le> length line + length bytes then (ush_vim_set_status ''line too long'' ed, False)
        else ((set_line (take (ve_cursor_col ed) line @ bytes @ drop (ve_cursor_col ed) line) ed)
                \<lparr>ve_cursor_col := ve_cursor_col ed + length bytes, ve_modified := True\<rparr>, True)))"

definition ush_vim_insert_char :: "ush_vim_editor \<Rightarrow> char \<Rightarrow> ush_vim_editor \<times> bool" where
  "ush_vim_insert_char ed ch = ush_vim_insert_bytes ed [ch]"

definition ush_vim_split_line :: "ush_vim_editor \<Rightarrow> ush_vim_editor \<times> bool" where
  "ush_vim_split_line ed =
     (case ush_vim_insert_line_after ed (ve_cursor_line ed) of (ed, ok) \<Rightarrow>
        if \<not> ok then (ed, False)
        else (let line = cur_line ed;
                  tail_len = length line - ve_cursor_col ed;
                  lines = (if 0 < tail_len
                           then (ve_lines ed)[ve_cursor_line ed + 1 := drop (ve_cursor_col ed) line,
                                              ve_cursor_line ed := take (ve_cursor_col ed) line]
                           else ve_lines ed)
              in (ed\<lparr>ve_lines := lines, ve_cursor_line := ve_cursor_line ed + 1, ve_cursor_col := 0, ve_modified := True\<rparr>, True)))"

definition remove_line :: "nat \<Rightarrow> string list \<Rightarrow> string list" where
  "remove_line i ls = take i ls @ drop (i + 1) ls"

definition ush_vim_backspace :: "ush_vim_editor \<Rightarrow> ush_vim_editor \<times> bool" where
  "ush_vim_backspace ed =
     (if 0 < ve_cursor_col ed
      then (let line = cur_line ed;
                delete_start = ush_vim_utf8_prev_boundary line (ve_cursor_col ed);
                delete_len = ve_cursor_col ed - delete_start;
                delete_len = (if delete_len = 0 then 1 else delete_len)
            in ((set_line (take (length line - delete_len) (take delete_start line @ drop (ve_cursor_col ed) line)) ed)
                  \<lparr>ve_cursor_col := delete_start, ve_modified := True\<rparr>, True))
      else if ve_cursor_line ed = 0 then (ed, False)
      else (let prev = ve_lines ed ! (ve_cursor_line ed - 1); line = cur_line ed in
        if USH_VIM_MAX_LINE_LEN \<le> length prev + length line
        then (ush_vim_set_status ''merge would exceed line length'' ed, False)
        else (ed\<lparr>ve_lines := remove_line (ve_cursor_line ed) ((ve_lines ed)[ve_cursor_line ed - 1 := prev @ line]),
                 ve_cursor_line := ve_cursor_line ed - 1, ve_cursor_col := length prev + length line - length line,
                 ve_modified := True\<rparr>, True)))"

definition ush_vim_delete_char :: "ush_vim_editor \<Rightarrow> ush_vim_editor \<times> bool" where
  "ush_vim_delete_char ed =
     (let line = cur_line ed in
      if length line \<le> ve_cursor_col ed then (ed, False)
      else (let next_pos = ush_vim_utf8_next_boundary line (ve_cursor_col ed);
                delete_len = next_pos - ve_cursor_col ed;
                delete_len = (if delete_len = 0 then 1 else delete_len)
            in ((set_line (take (length line - delete_len) (take (ve_cursor_col ed) line @ drop (ve_cursor_col ed + delete_len) line)) ed)
                  \<lparr>ve_modified := True\<rparr>, True)))"

definition ush_vim_delete_line :: "ush_vim_editor \<Rightarrow> ush_vim_editor \<times> bool" where
  "ush_vim_delete_line ed =
     (if ve_line_count ed = 0 then (ed, False)
      else if ve_line_count ed = 1
      then (ed\<lparr>ve_lines := [[]], ve_cursor_line := 0, ve_cursor_col := 0, ve_modified := True\<rparr>, True)
      else (let ed = ed\<lparr>ve_lines := remove_line (ve_cursor_line ed) (ve_lines ed)\<rparr>;
                ed = (if ve_line_count ed \<le> ve_cursor_line ed then ed\<lparr>ve_cursor_line := ve_line_count ed - 1\<rparr> else ed)
            in ((ush_vim_keep_cursor_valid ed)\<lparr>ve_modified := True\<rparr>, True)))"

definition ush_vim_open_below_insert :: "ush_vim_editor \<Rightarrow> ush_vim_editor \<times> bool" where
  "ush_vim_open_below_insert ed =
     (case ush_vim_insert_line_after ed (ve_cursor_line ed) of (ed, ok) \<Rightarrow>
        if \<not> ok then (ed, False)
        else (ed\<lparr>ve_cursor_line := ve_cursor_line ed + 1, ve_cursor_col := 0, ve_mode := USH_VIM_MODE_INSERT,
                 ve_modified := True\<rparr>, True))"

section \<open>The state of the editor\<close>

definition buffer_ok :: "string list \<Rightarrow> bool" where
  "buffer_ok ls \<longleftrightarrow> ls \<noteq> [] \<and> length ls \<le> USH_VIM_MAX_LINES \<and> (\<forall>l\<in>set ls. length l < USH_VIM_MAX_LINE_LEN)"

definition ed_ok :: "ush_vim_editor \<Rightarrow> bool" where
  "ed_ok ed \<longleftrightarrow> buffer_ok (ve_lines ed) \<and> ve_cursor_line ed < ve_line_count ed \<and> ve_cursor_col ed \<le> length (cur_line ed)"

text \<open>The text in front of the cursor and the text behind it.\<close>

definition gap :: "ush_vim_editor \<Rightarrow> string \<times> string" where
  "gap ed =
     (concat (map (\<lambda>l. l @ [CHR 0x0A]) (take (ve_cursor_line ed) (ve_lines ed))) @ take (ve_cursor_col ed) (cur_line ed),
      drop (ve_cursor_col ed) (cur_line ed) @ concat (map (\<lambda>l. CHR 0x0A # l) (drop (ve_cursor_line ed + 1) (ve_lines ed))))"

definition doc :: "ush_vim_editor \<Rightarrow> string" where
  "doc ed = fst (gap ed) @ snd (gap ed)"

text \<open>The lines as those above the cursor, the two parts of its own and those below it.\<close>

lemma ed_split:
  assumes "ed_ok ed"
  obtains us l r ds where "ve_lines ed = us @ (l @ r) # ds" "ve_cursor_line ed = length us" "ve_cursor_col ed = length l"
    "cur_line ed = l @ r" "gap ed = (concat (map (\<lambda>l. l @ [CHR 0x0A]) us) @ l, r @ concat (map (\<lambda>l. CHR 0x0A # l) ds))"
proof -
  define us where "us = take (ve_cursor_line ed) (ve_lines ed)"
  define ds where "ds = drop (ve_cursor_line ed + 1) (ve_lines ed)"
  define l where "l = take (ve_cursor_col ed) (cur_line ed)"
  define r where "r = drop (ve_cursor_col ed) (cur_line ed)"
  have lt: "ve_cursor_line ed < length (ve_lines ed)" "ve_cursor_col ed \<le> length (cur_line ed)" using assms by (auto simp: ed_ok_def)
  have c: "cur_line ed = l @ r" by (simp add: l_def r_def)
  have e: "ve_lines ed = us @ (l @ r) # ds"
    using id_take_nth_drop [OF lt(1)] unfolding c [symmetric] by (simp add: us_def ds_def cur_line_def)
  have u: "ve_cursor_line ed = length us" "ve_cursor_col ed = length l" using lt by (simp_all add: us_def l_def)
  have g: "gap ed = (concat (map (\<lambda>l. l @ [CHR 0x0A]) us) @ l, r @ concat (map (\<lambda>l. CHR 0x0A # l) ds))"
    unfolding gap_def us_def [symmetric] ds_def [symmetric] l_def [symmetric] r_def [symmetric] by (rule refl)
  show thesis by (rule that [OF e u c g])
qed

lemma ed_form:
  assumes "ve_lines ed = us @ (l @ r) # ds" "ve_cursor_line ed = length us" "ve_cursor_col ed = length l"
  shows "cur_line ed = l @ r" "gap ed = (concat (map (\<lambda>l. l @ [CHR 0x0A]) us) @ l, r @ concat (map (\<lambda>l. CHR 0x0A # l) ds))"
    "ed_ok ed \<longleftrightarrow> buffer_ok (us @ (l @ r) # ds)"
proof -
  show c: "cur_line ed = l @ r" by (simp add: cur_line_def assms)
  show "gap ed = (concat (map (\<lambda>l. l @ [CHR 0x0A]) us) @ l, r @ concat (map (\<lambda>l. CHR 0x0A # l) ds))"
    by (simp add: gap_def c assms)
  show "ed_ok ed \<longleftrightarrow> buffer_ok (us @ (l @ r) # ds)" by (simp add: ed_ok_def c assms)
qed

lemma status_frame [c_frame]:
  "ve_lines (ush_vim_set_status t ed) = ve_lines ed" "ve_cursor_line (ush_vim_set_status t ed) = ve_cursor_line ed"
  "ve_cursor_col (ush_vim_set_status t ed) = ve_cursor_col ed"
  by (simp_all add: ush_vim_set_status_def)

text \<open>Text, cursor and the other state the invariant depends on are the same.\<close>

definition same_text :: "ush_vim_editor \<Rightarrow> ush_vim_editor \<Rightarrow> bool" where
  "same_text ed ed' \<longleftrightarrow> ve_lines ed' = ve_lines ed \<and> ve_cursor_line ed' = ve_cursor_line ed \<and> ve_cursor_col ed' = ve_cursor_col ed"

lemma same_text_facts: "same_text ed ed' \<Longrightarrow> gap ed' = gap ed \<and> ed_ok ed' = ed_ok ed"
  by (simp add: same_text_def gap_def ed_ok_def cur_line_def)

lemma same_text_status [simp]: "same_text ed (ush_vim_set_status t ed)" "same_text ed ed"
  by (simp_all add: same_text_def c_frame)

section \<open>Characters\<close>

fun pop_char :: "string \<Rightarrow> string" where
  "pop_char [] = []"
| "pop_char (c # cs) = c # (if ush_vim_utf8_is_cont c then pop_char cs else [])"

text \<open>The last character of a text, and the first one.\<close>

definition last_char :: "string \<Rightarrow> string" where
  "last_char l = rev (pop_char (rev l))"

definition first_char :: "string \<Rightarrow> string" where
  "first_char r = take (ush_vim_utf8_char_len_at r 0) r"

lemma last_char_snoc: "last_char (l @ [c]) = (if ush_vim_utf8_is_cont c then last_char l else []) @ [c]"
  by (simp add: last_char_def)

lemma last_char_suffix: "\<exists>p. l = p @ last_char l"
proof (induction l rule: rev_induct)
  case (snoc c l)
  then show ?case by (auto simp: last_char_snoc)
qed (simp add: last_char_def)

lemma last_char_ne: "l \<noteq> [] \<Longrightarrow> last_char l \<noteq> []"
  by (cases l rule: rev_cases) (simp_all add: last_char_snoc)

lemma back_over_cont_eq: "l \<noteq> [] \<Longrightarrow> back_over_cont (l @ r) (length l - 1) = length l - length (last_char l)"
proof (induction l arbitrary: r rule: rev_induct)
  case (snoc c l)
  show ?case
  proof (cases l)
    case Nil
    then show ?thesis by (simp add: last_char_def)
  next
    case (Cons d ds)
    then have n: "length l = Suc (length ds)" by simp
    have "(l @ c # r) ! length l = c" by (simp add: nth_append)
    then have "back_over_cont (l @ c # r) (length l) = (if ush_vim_utf8_is_cont c then back_over_cont (l @ c # r) (length l - 1) else length l)"
      unfolding n by simp
    then show ?thesis using snoc.IH [of "c # r"] Cons last_char_snoc [of "d # ds" c] by auto
  qed
qed simp

lemma prev_boundary_eq:
  "l \<noteq> [] \<Longrightarrow> ush_vim_utf8_prev_boundary (l @ r) (length l) = length l - length (last_char l)"
  using back_over_cont_eq [of l r] by (simp add: ush_vim_utf8_prev_boundary_def)

lemma last_char_split:
  assumes "l \<noteq> []"
  obtains p c where "l = p @ c" "c \<noteq> []" "last_char l = c" "\<And>r. ush_vim_utf8_prev_boundary (l @ r) (length l) = length p"
proof -
  obtain p where p: "l = p @ last_char l" using last_char_suffix by blast
  then have "length l = length p + length (last_char l)" by (metis length_append)
  then have "ush_vim_utf8_prev_boundary (l @ r) (length l) = length p" for r using prev_boundary_eq [OF assms, of r] by simp
  then show thesis using that p last_char_ne [OF assms] by blast
qed

lemma char_len_at_shift: "ush_vim_utf8_char_len_at (l @ r) (length l) = ush_vim_utf8_char_len_at r 0"
  by (simp add: ush_vim_utf8_char_len_at_def Let_def nth_append)

lemma char_len_bounds: "r \<noteq> [] \<Longrightarrow> 0 < ush_vim_utf8_char_len_at r 0 \<and> ush_vim_utf8_char_len_at r 0 \<le> length r"
  by (auto simp: ush_vim_utf8_char_len_at_def Let_def ush_vim_utf8_len_from_lead_def Suc_le_eq)

lemma next_boundary_eq:
  "r \<noteq> [] \<Longrightarrow> ush_vim_utf8_next_boundary (l @ r) (length l) = length l + length (first_char r)"
  using char_len_bounds [of r] by (auto simp: ush_vim_utf8_next_boundary_def char_len_at_shift first_char_def Let_def)

lemma first_char_prefix: "r = first_char r @ drop (length (first_char r)) r"
  by (auto simp: first_char_def min_def)

lemma first_char_split:
  assumes "r \<noteq> []"
  obtains c q where "r = c @ q" "c \<noteq> []" "first_char r = c" "\<And>l. ush_vim_utf8_next_boundary (l @ r) (length l) = length l + length c"
proof
  have n: "0 < ush_vim_utf8_char_len_at r 0" "ush_vim_utf8_char_len_at r 0 \<le> length r" using char_len_bounds [OF assms] by simp_all
  show "r = first_char r @ drop (length (first_char r)) r" by (rule first_char_prefix)
  show "first_char r \<noteq> []" using n by (auto simp: first_char_def)
  show "first_char r = first_char r" by (rule refl)
  show "ush_vim_utf8_next_boundary (l @ r) (length l) = length l + length (first_char r)" for l by (rule next_boundary_eq [OF assms])
qed

lemma first_char_ne: "r \<noteq> [] \<Longrightarrow> first_char r \<noteq> []"
  using char_len_bounds [of r] by (auto simp: first_char_def)

section \<open>Editing\<close>

lemma insert_bytes_spec [c_spec]:
  assumes "ed_ok ed" "ush_vim_insert_bytes ed bs = (ed', ok)"
  shows "if ok then gap ed' = (fst (gap ed) @ bs, snd (gap ed)) \<and> ed_ok ed' else same_text ed ed'"
proof (cases ok)
  case True
  obtain us l r ds where e: "ve_lines ed = us @ (l @ r) # ds" "ve_cursor_line ed = length us" "ve_cursor_col ed = length l"
    "cur_line ed = l @ r" "gap ed = (concat (map (\<lambda>l. l @ [CHR 0x0A]) us) @ l, r @ concat (map (\<lambda>l. CHR 0x0A # l) ds))"
    by (rule ed_split [OF assms(1)])
  have lt: "\<not> USH_VIM_MAX_LINE_LEN \<le> length (l @ r) + length bs"
    and ed': "ve_lines ed' = us @ ((l @ bs) @ r) # ds" "ve_cursor_line ed' = length us" "ve_cursor_col ed' = length (l @ bs)"
    using assms(2) True e by (auto simp: ush_vim_insert_bytes_def Let_def set_line_def split: if_splits)
  then show ?thesis using ed_form [OF ed'] ed_form(3) [OF e(1-3)] True e(5) assms(1) by (auto simp: buffer_ok_def)
next
  case False
  then show ?thesis using assms(2) by (auto simp: ush_vim_insert_bytes_def Let_def split: if_splits)
qed

lemma insert_line_after_spec:
  assumes "ed_ok ed" "ush_vim_insert_line_after ed (ve_cursor_line ed) = (ed', ok)"
  shows "if ok then ve_line_count ed < USH_VIM_MAX_LINES \<and> ed' = ed\<lparr>ve_lines := take (ve_cursor_line ed + 1) (ve_lines ed) @ [] # drop (ve_cursor_line ed + 1) (ve_lines ed)\<rparr>
    else same_text ed ed'"
  using assms by (auto simp: ush_vim_insert_line_after_def ed_ok_def split: if_splits)

lemma split_line_spec [c_spec]:
  assumes "ed_ok ed" "ush_vim_split_line ed = (ed', ok)"
  shows "if ok then gap ed' = (fst (gap ed) @ [CHR 0x0A], snd (gap ed)) \<and> ed_ok ed' else same_text ed ed'"
proof -
  obtain ed1 ok1 where i: "ush_vim_insert_line_after ed (ve_cursor_line ed) = (ed1, ok1)" by fastforce
  note s = insert_line_after_spec [OF assms(1) i]
  show ?thesis
  proof (cases ok1)
    case True
    obtain us l r ds where e: "ve_lines ed = us @ (l @ r) # ds" "ve_cursor_line ed = length us" "ve_cursor_col ed = length l"
      "cur_line ed = l @ r" "gap ed = (concat (map (\<lambda>l. l @ [CHR 0x0A]) us) @ l, r @ concat (map (\<lambda>l. CHR 0x0A # l) ds))"
      by (rule ed_split [OF assms(1)])
    have l1: "ve_lines ed1 = us @ (l @ r) # [] # ds" "cur_line ed1 = l @ r" "ve_cursor_line ed1 = length us" "ve_cursor_col ed1 = length l"
      and n: "length (ve_lines ed) < USH_VIM_MAX_LINES" using s True e by (simp_all add: cur_line_def)
    have u: "(us @ (l @ r) # [] # ds)[length us + 1 := r, length us := l] = (us @ [l]) @ ([] @ r) # ds"
      by (simp add: list_update_append)
    have ed': "ve_lines ed' = (us @ [l]) @ ([] @ r) # ds" "ve_cursor_line ed' = length (us @ [l])" "ve_cursor_col ed' = length ([] :: string)"
      and ok: ok
      using assms(2) True i l1 u by (auto simp: ush_vim_split_line_def Let_def)
    then show ?thesis using ed_form [OF ed'] ed_form(3) [OF e(1-3)] e(5) n e(1) assms(1) by (auto simp: buffer_ok_def)
  next
    case False
    then show ?thesis using s i assms(2) by (simp add: ush_vim_split_line_def)
  qed
qed

lemma open_below_spec [c_spec]:
  assumes "ed_ok ed" "ush_vim_open_below_insert ed = (ed', ok)"
  shows "if ok then ed_ok ed' \<and> (\<exists>r t. snd (gap ed) = r @ t \<and> CHR 0x0A \<notin> set r - set (cur_line ed) \<and> gap ed' = (fst (gap ed) @ r @ [CHR 0x0A], t)) else same_text ed ed'"
proof -
  obtain ed1 ok1 where i: "ush_vim_insert_line_after ed (ve_cursor_line ed) = (ed1, ok1)" by fastforce
  note s = insert_line_after_spec [OF assms(1) i]
  show ?thesis
  proof (cases ok1)
    case True
    obtain us l r ds where e: "ve_lines ed = us @ (l @ r) # ds" "ve_cursor_line ed = length us" "ve_cursor_col ed = length l"
      "cur_line ed = l @ r" "gap ed = (concat (map (\<lambda>l. l @ [CHR 0x0A]) us) @ l, r @ concat (map (\<lambda>l. CHR 0x0A # l) ds))"
      by (rule ed_split [OF assms(1)])
    have l1: "ve_lines ed1 = us @ (l @ r) # [] # ds" and n: "length (ve_lines ed) < USH_VIM_MAX_LINES" using s True e by simp_all
    have ed': "ve_lines ed' = (us @ [l @ r]) @ ([] @ []) # ds" "ve_cursor_line ed' = length (us @ [l @ r])" "ve_cursor_col ed' = length ([] :: string)"
      and ok: ok
      using assms(2) True i s l1 e by (auto simp: ush_vim_open_below_insert_def)
    have g: "gap ed' = (fst (gap ed) @ r @ [CHR 0x0A], concat (map (\<lambda>l. CHR 0x0A # l) ds))" using ed_form(2) [OF ed'] e(5) by simp
    have b: "ed_ok ed'" using ed_form(3) [OF ed'] ed_form(3) [OF e(1-3)] assms(1) n e(1) by (auto simp: buffer_ok_def USH_VIM_MAX_LINE_LEN_def)
    show ?thesis using g b ok e(4,5) by auto
  next
    case False
    then show ?thesis using s i assms(2) by (simp add: ush_vim_open_below_insert_def)
  qed
qed

lemma backspace_spec [c_spec]:
  assumes "ed_ok ed" "ush_vim_backspace ed = (ed', ok)"
  shows "if ok then ed_ok ed' \<and> gap ed = (fst (gap ed') @ (if 0 < ve_cursor_col ed then last_char (take (ve_cursor_col ed) (cur_line ed)) else [CHR 0x0A]), snd (gap ed'))
    else same_text ed ed'"
proof -
  obtain us l r ds where e: "ve_lines ed = us @ (l @ r) # ds" "ve_cursor_line ed = length us" "ve_cursor_col ed = length l"
    "cur_line ed = l @ r" "gap ed = (concat (map (\<lambda>l. l @ [CHR 0x0A]) us) @ l, r @ concat (map (\<lambda>l. CHR 0x0A # l) ds))"
    by (rule ed_split [OF assms(1)])
  have b: "buffer_ok (us @ (l @ r) # ds)" using ed_form(3) [OF e(1-3)] assms(1) by simp
  show ?thesis
  proof (cases "l = []")
    case False
    obtain p c where c: "l = p @ c" "c \<noteq> []" "last_char l = c" and prev: "\<And>r. ush_vim_utf8_prev_boundary (l @ r) (length l) = length p"
      by (rule last_char_split [OF False]) blast
    note pb = prev [of r]
    have d: "(if length l - length p = 0 then 1 else length l - length p) = length c" using c by simp
    have t: "take (length (l @ r) - length c) (take (length p) (l @ r) @ drop (length l) (l @ r)) = p @ r" by (simp add: c(1))
    have ed': "ve_lines ed' = us @ (p @ r) # ds" "ve_cursor_line ed' = length us" "ve_cursor_col ed' = length p" and ok: ok
    proof -
      have "ush_vim_backspace ed = ((set_line (p @ r) ed)\<lparr>ve_cursor_col := length p, ve_modified := True\<rparr>, True)"
        unfolding ush_vim_backspace_def Let_def e(3,4) pb d t using False by simp
      then show "ve_lines ed' = us @ (p @ r) # ds" "ve_cursor_line ed' = length us" "ve_cursor_col ed' = length p" ok
        using assms(2) e(1,2) by (auto simp: set_line_def)
    qed
    have "ed_ok ed'" using ed_form(3) [OF ed'] b by (auto simp: buffer_ok_def c(1))
    then show ?thesis using ed_form(2) [OF ed'] ok e(3-5) False c by simp
  next
    case True
    show ?thesis
    proof (cases us rule: rev_cases)
      case Nil
      then show ?thesis using assms(2) e True by (auto simp: ush_vim_backspace_def)
    next
      case (snoc us' q)
      have n: "(us' @ q # r # ds) ! length us' = q" by simp
      show ?thesis
      proof (cases "USH_VIM_MAX_LINE_LEN \<le> length q + length r")
        case True
        then show ?thesis using assms(2) e \<open>l = []\<close> snoc by (auto simp: ush_vim_backspace_def nth_append)
      next
        case False
        have ed': "ve_lines ed' = us' @ (q @ r) # ds" "ve_cursor_line ed' = length us'" "ve_cursor_col ed' = length q" and ok: ok
          using assms(2) e \<open>l = []\<close> snoc False by (auto simp: ush_vim_backspace_def nth_append remove_line_def list_update_append)
        have "ed_ok ed'" using ed_form(3) [OF ed'] b False by (auto simp: buffer_ok_def snoc \<open>l = []\<close>)
        then show ?thesis using ed_form(2) [OF ed'] ok e(3-5) \<open>l = []\<close> by (simp add: snoc)
      qed
    qed
  qed
qed

lemma delete_char_spec [c_spec]:
  assumes "ed_ok ed" "ush_vim_delete_char ed = (ed', ok)"
  shows "if ok then ed_ok ed' \<and> gap ed = (fst (gap ed'), first_char (drop (ve_cursor_col ed) (cur_line ed)) @ snd (gap ed'))
    else same_text ed ed'"
proof -
  obtain us l r ds where e: "ve_lines ed = us @ (l @ r) # ds" "ve_cursor_line ed = length us" "ve_cursor_col ed = length l"
    "cur_line ed = l @ r" "gap ed = (concat (map (\<lambda>l. l @ [CHR 0x0A]) us) @ l, r @ concat (map (\<lambda>l. CHR 0x0A # l) ds))"
    by (rule ed_split [OF assms(1)])
  have b: "buffer_ok (us @ (l @ r) # ds)" using ed_form(3) [OF e(1-3)] assms(1) by simp
  show ?thesis
  proof (cases "r = []")
    case True
    then show ?thesis using assms(2) e by (auto simp: ush_vim_delete_char_def)
  next
    case False
    obtain c q where c: "r = c @ q" "c \<noteq> []" "first_char r = c" and nxt: "\<And>l. ush_vim_utf8_next_boundary (l @ r) (length l) = length l + length c"
      by (rule first_char_split [OF False]) blast
    note nb = nxt [of l]
    have d: "(if length l + length c - length l = 0 then 1 else length l + length c - length l) = length c" using c by simp
    have t: "take (length (l @ r) - length c) (take (length l) (l @ r) @ drop (length l + length c) (l @ r)) = l @ q" by (simp add: c(1))
    have ed': "ve_lines ed' = us @ (l @ q) # ds" "ve_cursor_line ed' = length us" "ve_cursor_col ed' = length l" and ok: ok
    proof -
      have "ush_vim_delete_char ed = ((set_line (l @ q) ed)\<lparr>ve_modified := True\<rparr>, True)"
        unfolding ush_vim_delete_char_def Let_def e(3,4) nb d t using False by simp
      then show "ve_lines ed' = us @ (l @ q) # ds" "ve_cursor_line ed' = length us" "ve_cursor_col ed' = length l" ok
        using assms(2) e(1-3) by (auto simp: set_line_def)
    qed
    have "ed_ok ed'" using ed_form(3) [OF ed'] b by (auto simp: buffer_ok_def c(1))
    then show ?thesis using ed_form(2) [OF ed'] ok e(3-5) c by simp
  qed
qed

lemma back_over_cont_le: "back_over_cont t p \<le> p"
  by (induction t p rule: back_over_cont.induct) auto

lemma back_over_cont_less: "p < n \<Longrightarrow> back_over_cont t p \<le> n"
  using back_over_cont_le [of t p] by linarith

lemma keep_cursor_ok [c_inv]: "buffer_ok (ve_lines ed) \<Longrightarrow> ed_ok (ush_vim_keep_cursor_valid ed)"
  by (auto simp: ush_vim_keep_cursor_valid_def Let_def ed_ok_def cur_line_def buffer_ok_def intro: back_over_cont_less)

lemma keep_cursor_lines [c_frame]: "ve_lines (ush_vim_keep_cursor_valid ed) = ve_lines ed"
  by (simp add: ush_vim_keep_cursor_valid_def Let_def)

lemma remove_line_ok: "buffer_ok ls \<Longrightarrow> 1 < length ls \<Longrightarrow> i < length ls \<Longrightarrow> buffer_ok (remove_line i ls)"
  by (auto simp: buffer_ok_def remove_line_def dest: in_set_takeD in_set_dropD)

lemma delete_line_spec [c_spec]:
  assumes "ed_ok ed" "ush_vim_delete_line ed = (ed', ok)"
  shows "ok \<and> ed_ok ed' \<and> ve_lines ed' = (if ve_line_count ed = 1 then [[]] else remove_line (ve_cursor_line ed) (ve_lines ed))"
proof (cases "ve_line_count ed = 1")
  case True
  then show ?thesis using assms(2)
    by (auto simp: ush_vim_delete_line_def ed_ok_def cur_line_def buffer_ok_def USH_VIM_MAX_LINES_def USH_VIM_MAX_LINE_LEN_def)
next
  case False
  have b: "buffer_ok (ve_lines ed)" "ve_cursor_line ed < ve_line_count ed" using assms(1) by (simp_all add: ed_ok_def)
  then have n: "1 < ve_line_count ed" using False by (cases "ve_lines ed") (auto simp: buffer_ok_def)
  define ed1 where "ed1 = ed\<lparr>ve_lines := remove_line (ve_cursor_line ed) (ve_lines ed)\<rparr>"
  define ed2 where "ed2 = (if ve_line_count ed1 \<le> ve_cursor_line ed1 then ed1\<lparr>ve_cursor_line := ve_line_count ed1 - 1\<rparr> else ed1)"
  have l: "ve_lines ed2 = remove_line (ve_cursor_line ed) (ve_lines ed)" by (simp add: ed1_def ed2_def)
  have "buffer_ok (ve_lines ed2)" unfolding l by (rule remove_line_ok [OF b(1) n b(2)])
  then have "ed_ok (ush_vim_keep_cursor_valid ed2)" by (rule keep_cursor_ok)
  then have "ed_ok ((ush_vim_keep_cursor_valid ed2)\<lparr>ve_modified := True\<rparr>)" by (simp add: ed_ok_def cur_line_def)
  moreover have "(ed', ok) = ((ush_vim_keep_cursor_valid ed2)\<lparr>ve_modified := True\<rparr>, True)"
  proof -
    have "ve_line_count ed \<noteq> 0" "ve_line_count ed \<noteq> 1" using n by linarith+
    then have "ush_vim_delete_line ed = ((ush_vim_keep_cursor_valid ed2)\<lparr>ve_modified := True\<rparr>, True)"
      unfolding ush_vim_delete_line_def Let_def ed1_def [symmetric] ed2_def [symmetric] by (simp only: if_False)
    then show ?thesis using assms(2) by simp
  qed
  ultimately show ?thesis using l n by (simp add: c_frame)
qed

section \<open>Movement\<close>

lemma move_left_spec [c_spec]:
  assumes "ed_ok ed"
  shows "ed_ok (ush_vim_move_left ed) \<and> ve_lines (ush_vim_move_left ed) = ve_lines ed
    \<and> (\<exists>c. gap ed = (fst (gap (ush_vim_move_left ed)) @ c, drop (length c) (snd (gap (ush_vim_move_left ed))))
         \<and> take (length c) (snd (gap (ush_vim_move_left ed))) = c \<and> (c = [] \<longleftrightarrow> fst (gap ed) = []))"
proof -
  obtain us l r ds where e: "ve_lines ed = us @ (l @ r) # ds" "ve_cursor_line ed = length us" "ve_cursor_col ed = length l"
    "cur_line ed = l @ r" "gap ed = (concat (map (\<lambda>l. l @ [CHR 0x0A]) us) @ l, r @ concat (map (\<lambda>l. CHR 0x0A # l) ds))"
    by (rule ed_split [OF assms])
  have b: "buffer_ok (us @ (l @ r) # ds)" using ed_form(3) [OF e(1-3)] assms by simp
  let ?e = "ush_vim_move_left ed"
  show ?thesis
  proof (cases "l = []")
    case False
    obtain p c where c: "l = p @ c" "c \<noteq> []" "last_char l = c" and prev: "\<And>r. ush_vim_utf8_prev_boundary (l @ r) (length l) = length p"
      by (rule last_char_split [OF False]) blast
    have f: "ve_lines ?e = us @ (p @ (c @ r)) # ds" "ve_cursor_line ?e = length us" "ve_cursor_col ?e = length p"
      using e(1-4) c(1,2) prev [of r] by (simp_all add: ush_vim_move_left_def)
    show ?thesis using ed_form [OF f] b e f c by (intro conjI exI [of _ c]) simp_all
  next
    case True
    show ?thesis
    proof (cases us rule: rev_cases)
      case Nil
      then have "?e = ed" using e True by (simp add: ush_vim_move_left_def)
      then show ?thesis using assms e True Nil by (intro conjI exI [of _ "[]"]) simp_all
    next
      case (snoc us' q)
      have f: "ve_lines ?e = us' @ (q @ []) # r # ds" "ve_cursor_line ?e = length us'" "ve_cursor_col ?e = length q"
        using e True by (simp_all add: ush_vim_move_left_def snoc nth_append)
      show ?thesis using ed_form [OF f] b e f True by (intro conjI exI [of _ "[CHR 0x0A]"]) (simp_all add: snoc)
    qed
  qed
qed

lemma move_right_spec [c_spec]:
  assumes "ed_ok ed"
  shows "ed_ok (ush_vim_move_right ed) \<and> ve_lines (ush_vim_move_right ed) = ve_lines ed
    \<and> (\<exists>c. gap (ush_vim_move_right ed) = (fst (gap ed) @ c, drop (length c) (snd (gap ed)))
         \<and> take (length c) (snd (gap ed)) = c \<and> (c = [] \<longleftrightarrow> snd (gap ed) = []))"
proof -
  obtain us l r ds where e: "ve_lines ed = us @ (l @ r) # ds" "ve_cursor_line ed = length us" "ve_cursor_col ed = length l"
    "cur_line ed = l @ r" "gap ed = (concat (map (\<lambda>l. l @ [CHR 0x0A]) us) @ l, r @ concat (map (\<lambda>l. CHR 0x0A # l) ds))"
    by (rule ed_split [OF assms])
  have b: "buffer_ok (us @ (l @ r) # ds)" using ed_form(3) [OF e(1-3)] assms by simp
  let ?e = "ush_vim_move_right ed"
  show ?thesis
  proof (cases "r = []")
    case False
    obtain c q where c: "r = c @ q" "c \<noteq> []" "first_char r = c" and nxt: "\<And>l. ush_vim_utf8_next_boundary (l @ r) (length l) = length l + length c"
      by (rule first_char_split [OF False]) blast
    have f: "ve_lines ?e = us @ ((l @ c) @ q) # ds" "ve_cursor_line ?e = length us" "ve_cursor_col ?e = length (l @ c)"
      using e(1-4) c(1,2) nxt [of l] by (simp_all add: ush_vim_move_right_def)
    show ?thesis using ed_form [OF f] b e f c by (intro conjI exI [of _ c]) simp_all
  next
    case True
    show ?thesis
    proof (cases ds)
      case Nil
      then have "?e = ed" using e True by (simp add: ush_vim_move_right_def)
      then show ?thesis using assms e True Nil by (intro conjI exI [of _ "[]"]) simp_all
    next
      case (Cons q ds')
      have f: "ve_lines ?e = (us @ [l]) @ ([] @ q) # ds'" "ve_cursor_line ?e = length (us @ [l])" "ve_cursor_col ?e = length ([] :: string)"
        using e True by (simp_all add: ush_vim_move_right_def Cons)
      show ?thesis using ed_form [OF f] b e f True by (intro conjI exI [of _ "[CHR 0x0A]"]) (simp_all add: Cons)
    qed
  qed
qed

section \<open>Claims\<close>


definition demo_ed :: ush_vim_editor where
  "demo_ed = (ush_vim_init)\<lparr>ve_lines := [''ab'', [CHR 0xC3, CHR 0xA4] @ ''c''], ve_cursor_line := 1, ve_cursor_col := 2\<rparr>"

lemma demo_ed_ok: "ed_ok demo_ed"
  by (simp add: demo_ed_def ed_ok_def buffer_ok_def cur_line_def USH_VIM_MAX_LINES_def USH_VIM_MAX_LINE_LEN_def)


definition utf8_char :: "string \<Rightarrow> bool" where
  "utf8_char u \<longleftrightarrow> u \<noteq> [] \<and> \<not> ush_vim_utf8_is_cont (hd u) \<and> list_all ush_vim_utf8_is_cont (tl u)"

lemma last_char_utf8: "utf8_char u \<Longrightarrow> last_char (l @ u) = u"
proof (induction u rule: rev_induct)
  case (snoc c u)
  have a: "last_char (l @ u @ [c]) = (if ush_vim_utf8_is_cont c then last_char (l @ u) else []) @ [c]"
    using last_char_snoc [of "l @ u" c] by simp
  show ?case
  proof (cases u)
    case Nil
    then show ?thesis using snoc.prems a by (simp add: utf8_char_def)
  next
    case (Cons d ds)
    then have "utf8_char u" "ush_vim_utf8_is_cont c" using snoc.prems by (auto simp: utf8_char_def)
    then show ?thesis using snoc.IH a by simp
  qed
qed (simp add: utf8_char_def)

text \<open>Whatever the text, a character that was inserted is removed again by one backspace, multi-byte characters
  included; text and cursor are then as before.\<close>

theorem vim_insert_backspace:
  assumes "ed_ok ed" "utf8_char u" "ush_vim_insert_bytes ed u = (ed1, True)"
  shows "\<exists>ed2. ush_vim_backspace ed1 = (ed2, True) \<and> gap ed2 = gap ed \<and> ed_ok ed2"
proof -
  obtain us l r ds where e: "ve_lines ed = us @ (l @ r) # ds" "ve_cursor_line ed = length us" "ve_cursor_col ed = length l"
    "cur_line ed = l @ r" "gap ed = (concat (map (\<lambda>l. l @ [CHR 0x0A]) us) @ l, r @ concat (map (\<lambda>l. CHR 0x0A # l) ds))"
    by (rule ed_split [OF assms(1)])
  have i: "gap ed1 = (fst (gap ed) @ u, snd (gap ed))" "ed_ok ed1" using insert_bytes_spec [OF assms(1,3)] by simp_all
  have f: "ve_lines ed1 = us @ ((l @ u) @ r) # ds" "ve_cursor_line ed1 = length us" "ve_cursor_col ed1 = length (l @ u)"
    using assms(3) e by (auto simp: ush_vim_insert_bytes_def Let_def set_line_def split: if_splits)
  have c: "cur_line ed1 = (l @ u) @ r" by (rule ed_form(1) [OF f])
  have pos: "0 < ve_cursor_col ed1" using assms(2) f(3) by (simp add: utf8_char_def)
  obtain ed2 ok where b: "ush_vim_backspace ed1 = (ed2, ok)" by fastforce
  have ok using b pos by (auto simp: ush_vim_backspace_def Let_def)
  have "take (ve_cursor_col ed1) (cur_line ed1) = l @ u" by (simp add: c f(3))
  then have "ed_ok ed2" "gap ed1 = (fst (gap ed2) @ u, snd (gap ed2))"
    using backspace_spec [OF i(2) b] \<open>ok\<close> pos last_char_utf8 [OF assms(2), of l] by simp_all
  then have "gap ed2 = gap ed" using i(1) by (simp add: prod_eq_iff)
  moreover have "ush_vim_backspace ed1 = (ed2, True)" using b \<open>ok\<close> by simp
  ultimately show ?thesis using \<open>ed_ok ed2\<close> by blast
qed

theorem vim_insert_backspace_witness:
  "\<exists>ed1 ed2. ush_vim_insert_bytes demo_ed [CHR 0xE4, CHR 0xBD, CHR 0xA0] = (ed1, True) \<and> ush_vim_backspace ed1 = (ed2, True) \<and> gap ed2 = gap demo_ed"
proof -
  have u: "utf8_char [CHR 0xE4, CHR 0xBD, CHR 0xA0]" by code_simp
  have "snd (ush_vim_insert_bytes demo_ed [CHR 0xE4, CHR 0xBD, CHR 0xA0])" by code_simp
  then obtain ed1 where "ush_vim_insert_bytes demo_ed [CHR 0xE4, CHR 0xBD, CHR 0xA0] = (ed1, True)" by (metis prod.collapse)
  then show ?thesis using vim_insert_backspace [OF demo_ed_ok u] by blast
qed

end
