(* ===== verification/VimFile.thy ===== *)
theory VimFile
  imports VimEdit
begin

text \<open>
  The editor \<open>vim\<close> around its buffer (\<open>apps/vim_main.c\<close>): reading keys, loading and saving, the commands behind
  \<open>:\<close>, the three modes and the main loop. The system calls are the record \<open>vim_kernel\<close>. The screen is not
  modelled.
\<close>

section \<open>Definitions\<close>

record 'k vim_kernel =
  vk_fd_open :: "'k \<Rightarrow> string \<Rightarrow> nat \<Rightarrow> 'k \<times> nat option"
  vk_fd_read :: "'k \<Rightarrow> nat \<Rightarrow> nat \<Rightarrow> 'k \<times> string option"
  vk_fd_write :: "'k \<Rightarrow> nat \<Rightarrow> string \<Rightarrow> 'k \<times> nat option"
  vk_fd_close :: "'k \<Rightarrow> nat \<Rightarrow> 'k"
  vk_sleep_ticks :: "'k \<Rightarrow> nat \<Rightarrow> 'k"

definition CLEONOS_O_RDONLY :: nat where "CLEONOS_O_RDONLY = 0x0000"
definition CLEONOS_O_WRONLY :: nat where "CLEONOS_O_WRONLY = 0x0001"
definition CLEONOS_O_CREAT :: nat where "CLEONOS_O_CREAT = 0x0040"
definition CLEONOS_O_TRUNC :: nat where "CLEONOS_O_TRUNC = 0x0200"

definition open_for_write :: nat where
  "open_for_write = (CLEONOS_O_WRONLY OR CLEONOS_O_CREAT OR CLEONOS_O_TRUNC)"

definition USH_VIM_KEY_ESC :: nat where "USH_VIM_KEY_ESC = 27"
definition USH_VIM_KEY_ENTER :: nat where "USH_VIM_KEY_ENTER = 13"
definition USH_VIM_KEY_BACKSPACE :: nat where "USH_VIM_KEY_BACKSPACE = 8"
definition USH_VIM_KEY_DEL :: nat where "USH_VIM_KEY_DEL = 127"
definition USH_VIM_KEY_UP :: nat where "USH_VIM_KEY_UP = 1001"
definition USH_VIM_KEY_DOWN :: nat where "USH_VIM_KEY_DOWN = 1002"
definition USH_VIM_KEY_LEFT :: nat where "USH_VIM_KEY_LEFT = 1003"
definition USH_VIM_KEY_RIGHT :: nat where "USH_VIM_KEY_RIGHT = 1004"
definition USH_VIM_KEY_HOME :: nat where "USH_VIM_KEY_HOME = 1005"
definition USH_VIM_KEY_END :: nat where "USH_VIM_KEY_END = 1006"

lemmas vim_key_defs = USH_VIM_KEY_ESC_def USH_VIM_KEY_ENTER_def USH_VIM_KEY_BACKSPACE_def USH_VIM_KEY_DEL_def
  USH_VIM_KEY_UP_def USH_VIM_KEY_DOWN_def USH_VIM_KEY_LEFT_def USH_VIM_KEY_RIGHT_def USH_VIM_KEY_HOME_def USH_VIM_KEY_END_def

definition key_of :: "char \<Rightarrow> nat" where
  "key_of c = of_char c"

subsection \<open>Keys\<close>

partial_function (option) ush_vim_read_byte_blocking :: "'k vim_kernel \<Rightarrow> 'k \<Rightarrow> ('k \<times> char) option" where
  "ush_vim_read_byte_blocking K k =
     (case vk_fd_read K k 0 1 of (k, got) \<Rightarrow>
        (if (case got of None \<Rightarrow> False | Some bytes \<Rightarrow> length bytes = 1) then Some (k, hd (the got))
         else ush_vim_read_byte_blocking K (vk_sleep_ticks K k 1)))"

text \<open>The bytes of a character behind its first byte: the loop ends after a byte that does not continue it.\<close>

fun collect_loop :: "'k vim_kernel \<Rightarrow> 'k \<Rightarrow> string \<Rightarrow> nat \<Rightarrow> ('k \<times> string) option" where
  "collect_loop K k out 0 = Some (k, out)"
| "collect_loop K k out (Suc missing) =
     (case ush_vim_read_byte_blocking K k of
        None \<Rightarrow> None
      | Some (k, ch) \<Rightarrow>
          if \<not> ush_vim_utf8_is_cont ch then Some (k, out @ [ch]) else collect_loop K k (out @ [ch]) missing)"

definition ush_vim_collect_utf8 :: "'k vim_kernel \<Rightarrow> 'k \<Rightarrow> nat \<Rightarrow> nat \<Rightarrow> ('k \<times> string) option" where
  "ush_vim_collect_utf8 K k first_byte out_size =
     (if out_size = 0 then Some (k, [])
      else (let need = ush_vim_utf8_len_from_lead (char_of first_byte);
                need = (if out_size < need then out_size else need)
            in collect_loop K k [char_of first_byte] (need - 1)))"

definition ush_vim_read_key :: "'k vim_kernel \<Rightarrow> 'k \<Rightarrow> ('k \<times> nat) option" where
  "ush_vim_read_key K k =
     (case ush_vim_read_byte_blocking K k of
        None \<Rightarrow> None
      | Some (k, ch) \<Rightarrow>
          Some (k,
            if ch = CHR 0x0D then USH_VIM_KEY_ENTER
            else if key_of ch = USH_VIM_KEY_BACKSPACE \<or> key_of ch = USH_VIM_KEY_DEL then USH_VIM_KEY_BACKSPACE
            else if key_of ch = 1 then USH_VIM_KEY_LEFT
            else if key_of ch = 2 then USH_VIM_KEY_RIGHT
            else if key_of ch = 3 then USH_VIM_KEY_UP
            else if key_of ch = 4 then USH_VIM_KEY_DOWN
            else if key_of ch = 5 then USH_VIM_KEY_HOME
            else if key_of ch = 6 then USH_VIM_KEY_END
            else if key_of ch = 7 then USH_VIM_KEY_DEL
            else key_of ch))"

subsection \<open>Files\<close>

function ush_vim_fd_write_all :: "'k vim_kernel \<Rightarrow> 'k \<Rightarrow> nat \<Rightarrow> string \<Rightarrow> 'k \<times> bool" where
  "ush_vim_fd_write_all K k fd text =
     (if text = [] then (k, True)
      else (case vk_fd_write K k fd text of (k, wrote) \<Rightarrow>
        (case wrote of
           None \<Rightarrow> (k, False)
         | Some n \<Rightarrow> if n = 0 then (k, False) else ush_vim_fd_write_all K k fd (drop n text))))"
  by pat_completeness auto
termination by (relation "measure (\<lambda>(K, k, fd, text). length text)") auto

declare ush_vim_fd_write_all.simps [simp del]

text \<open>The lines are written with a line feed between them. The result is the number of bytes, \<open>None\<close> after an
  error.\<close>

fun save_lines :: "'k vim_kernel \<Rightarrow> 'k \<Rightarrow> nat \<Rightarrow> string list \<Rightarrow> nat \<Rightarrow> 'k \<times> nat option" where
  "save_lines K k fd [] bytes = (k, Some bytes)"
| "save_lines K k fd (line # lines) bytes =
     (case (if 0 < length line then ush_vim_fd_write_all K k fd line else (k, True)) of (k, ok) \<Rightarrow>
        if \<not> ok then (k, None)
        else if lines \<noteq> []
        then (case ush_vim_fd_write_all K k fd [CHR 0x0A] of (k, ok) \<Rightarrow>
                if \<not> ok then (k, None) else save_lines K k fd lines (bytes + length line + 1))
        else (k, Some (bytes + length line)))"

definition ush_vim_save_file ::
    "'k vim_kernel \<Rightarrow> 'k \<Rightarrow> ush_vim_editor \<Rightarrow> string \<Rightarrow> 'k \<times> ush_vim_editor \<times> bool" where
  "ush_vim_save_file K k ed path =
     (if path = [] then (k, ed, False)
      else (case vk_fd_open K k path open_for_write of (k, opened) \<Rightarrow>
        (case opened of
           None \<Rightarrow> (k, ush_vim_set_status ''write failed: cannot open target'' ed, False)
         | Some fd \<Rightarrow>
             (case save_lines K k fd (ve_lines ed) 0 of (k, saved) \<Rightarrow>
                (let k = vk_fd_close K k fd in
                 case saved of
                   None \<Rightarrow> (k, ush_vim_set_status ''write failed: io error'' ed, False)
                 | Some bytes \<Rightarrow>
                     (k, ush_vim_set_status (''written bytes='' @ u64_dec bytes)
                           (ed\<lparr>ve_file_path := ush_copy (ve_file_path ed) USH_PATH_MAX (Some path), ve_modified := False\<rparr>),
                      True))))))"

text \<open>Loading: the finished lines, the line being filled and the truncation flag. A carriage return is dropped.\<close>

definition load_char :: "char \<Rightarrow> string list \<times> string \<times> bool \<Rightarrow> string list \<times> string \<times> bool" where
  "load_char ch = (\<lambda>(before, line, truncated).
     if ch = CHR 0x0D then (before, line, truncated)
     else if ch = CHR 0x0A
     then (if length before + 1 < USH_VIM_MAX_LINES then (before @ [line], [], truncated) else (before, line, True))
     else if length line + 1 < USH_VIM_MAX_LINE_LEN then (before, line @ [ch], truncated)
     else (before, line, True))"

partial_function (option) load_loop ::
    "'k vim_kernel \<Rightarrow> 'k \<Rightarrow> nat \<Rightarrow> string list \<times> string \<times> bool \<Rightarrow> ('k \<times> bool \<times> string list \<times> string \<times> bool) option" where
  "load_loop K k fd st =
     (case vk_fd_read K k fd 256 of (k, got) \<Rightarrow>
        (case got of
           None \<Rightarrow> Some (k, False, st)
         | Some buf \<Rightarrow> if buf = [] then Some (k, True, st) else load_loop K k fd (fold load_char buf st)))"

definition ush_vim_load_file ::
    "'k vim_kernel \<Rightarrow> 'k \<Rightarrow> ush_vim_editor \<Rightarrow> string \<Rightarrow> ('k \<times> ush_vim_editor \<times> bool) option" where
  "ush_vim_load_file K k ed path =
     (if path = [] then Some (k, ed, False)
      else (case vk_fd_open K k path CLEONOS_O_RDONLY of (k, opened) \<Rightarrow>
        (case opened of
           None \<Rightarrow>
             Some (k, ush_vim_set_status ''new file''
               (ed\<lparr>ve_file_path := ush_copy (ve_file_path ed) USH_PATH_MAX (Some path)\<rparr>), True)
         | Some fd \<Rightarrow>
             (let ed = ush_vim_reset_buffer ed in
              case load_loop K k fd ([], [], False) of
                None \<Rightarrow> None
              | Some (k, ok, before, line, truncated) \<Rightarrow>
                  (let k = vk_fd_close K k fd in
                   if \<not> ok then Some (k, ush_vim_set_status ''read failed'' (ed\<lparr>ve_lines := take 1 (before @ [line])\<rparr>), False)
                   else Some (k, ush_vim_set_status (if truncated then ''file loaded with truncation'' else ''file loaded'')
                          (ed\<lparr>ve_lines := before @ [line], ve_cursor_line := 0, ve_cursor_col := 0, ve_scroll_top := 0,
                              ve_modified := False,
                              ve_file_path := ush_copy (ve_file_path ed) USH_PATH_MAX (Some path)\<rparr>), True))))))"

subsection \<open>Commands\<close>

definition ush_vim_resolve_write_path :: "ush_state \<Rightarrow> string \<Rightarrow> nat \<Rightarrow> string option" where
  "ush_vim_resolve_write_path sh raw out_size =
     (if out_size = 0 then None else if raw = [] then None else ush_resolve_path sh (Some raw) out_size)"

text \<open>The target of \<open>:w\<close>, with the status for the user when there is none.\<close>

definition write_target :: "ush_state \<Rightarrow> ush_vim_editor \<Rightarrow> string \<Rightarrow> string + string" where
  "write_target sh ed rest =
     (if rest = []
      then (if ve_file_path ed = [] then Inl ''No file name''
            else Inr (ush_copy [] USH_PATH_MAX (Some (ve_file_path ed))))
      else (case ush_vim_resolve_write_path sh rest USH_PATH_MAX of
          None \<Rightarrow> Inl ''invalid path''
        | Some path \<Rightarrow> Inr (ush_copy [] USH_PATH_MAX (Some path))))"

text \<open>The command as the C string it is, without spaces around it.\<close>

definition command_text :: "ush_vim_editor \<Rightarrow> string" where
  "command_text ed = ush_trim_line (takeWhile (\<lambda>c. c \<noteq> NUL) (ve_command ed))"

definition other_command :: "string \<Rightarrow> ush_vim_editor \<Rightarrow> ush_vim_editor \<times> bool" where
  "other_command cmd ed =
     (if cmd = ''help'' then (ush_vim_set_status ''normal: h j k l i a o x dd gg G : | cmd: w q q! wq'' ed, True)
      else (ush_vim_set_status ''unknown command'' ed, False))"

definition ush_vim_run_command ::
    "'k vim_kernel \<Rightarrow> ush_state \<Rightarrow> 'k \<Rightarrow> ush_vim_editor \<Rightarrow> 'k \<times> ush_vim_editor \<times> bool" where
  "ush_vim_run_command K sh k ed =
     (let cmd = command_text ed in
      if cmd = [] then (k, ed, True)
      else if cmd = ''q''
      then (if ve_modified ed then (k, ush_vim_set_status ''No write since last change (add ! to override)'' ed, False)
            else (k, ed\<lparr>ve_quit_requested := True\<rparr>, True))
      else if cmd = ''q!'' then (k, ed\<lparr>ve_quit_requested := True\<rparr>, True)
      else if cmd = ''wq'' \<or> cmd = ''x''
      then (if ve_file_path ed = [] then (k, ush_vim_set_status ''No file name'' ed, False)
            else (case ush_vim_save_file K k ed (ve_file_path ed) of (k, ed, ok) \<Rightarrow>
                    if \<not> ok then (k, ed, False) else (k, ed\<lparr>ve_quit_requested := True\<rparr>, True)))
      else (case ush_split_first_and_rest (Some cmd) USH_PATH_MAX of
          None \<Rightarrow> (k, other_command cmd ed)
        | Some (token0, rest) \<Rightarrow>
            if token0 = ''w''
            then (case write_target sh ed rest of
                Inl msg \<Rightarrow> (k, ush_vim_set_status msg ed, False)
              | Inr target \<Rightarrow> ush_vim_save_file K k ed target)
            else (k, other_command cmd ed)))"

subsection \<open>Modes\<close>

text \<open>\<open>-- INSERT --\<close> is entered with \<open>i\<close>, \<open>a\<close> and \<open>o\<close>; a pending \<open>j\<close> is not yet in the text.\<close>

definition insert_key :: "'k vim_kernel \<Rightarrow> 'k \<Rightarrow> ush_vim_editor \<Rightarrow> nat \<Rightarrow> ('k \<times> ush_vim_editor) option" where
  "insert_key K k ed key =
     (if key = USH_VIM_KEY_LEFT then Some (k, ush_vim_move_left ed)
      else if key = USH_VIM_KEY_RIGHT then Some (k, ush_vim_move_right ed)
      else if key = USH_VIM_KEY_UP then Some (k, ush_vim_move_up ed)
      else if key = USH_VIM_KEY_DOWN then Some (k, ush_vim_move_down ed)
      else if key = USH_VIM_KEY_HOME then Some (k, ed\<lparr>ve_cursor_col := 0\<rparr>)
      else if key = USH_VIM_KEY_END then Some (k, ed\<lparr>ve_cursor_col := length (cur_line ed)\<rparr>)
      else if key = USH_VIM_KEY_ENTER \<or> key = key_of (CHR 0x0A) then Some (k, fst (ush_vim_split_line ed))
      else if key = USH_VIM_KEY_BACKSPACE \<or> key = USH_VIM_KEY_DEL then Some (k, fst (ush_vim_backspace ed))
      else if key = key_of (CHR 0x09)
      then Some (k, ((\<lambda>ed. fst (ush_vim_insert_char ed (CHR '' ''))) ^^ 4) ed)
      else if 32 \<le> key \<and> key \<le> 255
      then (case (if 0x80 \<le> key then ush_vim_collect_utf8 K k key 4 else Some (k, [char_of key])) of
          None \<Rightarrow> None
        | Some (k, bytes) \<Rightarrow> Some (k, fst (ush_vim_insert_bytes ed bytes)))
      else Some (k, ed))"

definition ush_vim_handle_insert_mode ::
    "'k vim_kernel \<Rightarrow> 'k \<Rightarrow> ush_vim_editor \<Rightarrow> nat \<Rightarrow> ('k \<times> ush_vim_editor) option" where
  "ush_vim_handle_insert_mode K k ed key =
     (if key = USH_VIM_KEY_ESC
      then Some (k, ush_vim_set_status ''-- NORMAL --''
             (ed\<lparr>ve_mode := USH_VIM_MODE_NORMAL, ve_pending_dd := False, ve_pending_gg := False, ve_pending_jj := False\<rparr>))
      else if ve_pending_jj ed \<and> key = key_of (CHR ''j'')
      then Some (k, ush_vim_set_status ''-- NORMAL -- (jj)''
             (ed\<lparr>ve_pending_jj := False, ve_mode := USH_VIM_MODE_NORMAL, ve_pending_dd := False, ve_pending_gg := False\<rparr>))
      else (let ed = (if ve_pending_jj ed then (fst (ush_vim_insert_char ed (CHR ''j'')))\<lparr>ve_pending_jj := False\<rparr> else ed)
            in if key = key_of (CHR ''j'') then Some (k, ed\<lparr>ve_pending_jj := True\<rparr>) else insert_key K k ed key))"

definition ush_vim_handle_normal_mode :: "ush_vim_editor \<Rightarrow> nat \<Rightarrow> ush_vim_editor" where
  "ush_vim_handle_normal_mode ed key =
     (if ve_pending_dd ed
      then (if key = key_of (CHR ''d'') then ush_vim_set_status ''line deleted'' (fst (ush_vim_delete_line ed)) else ed)
             \<lparr>ve_pending_dd := False\<rparr>
      else if ve_pending_gg ed
      then (if key = key_of (CHR ''g'') then ed\<lparr>ve_cursor_line := 0, ve_cursor_col := 0\<rparr> else ed)\<lparr>ve_pending_gg := False\<rparr>
      else if key = USH_VIM_KEY_LEFT \<or> key = key_of (CHR ''h'') then ush_vim_move_left ed
      else if key = USH_VIM_KEY_RIGHT \<or> key = key_of (CHR ''l'') then ush_vim_move_right ed
      else if key = USH_VIM_KEY_UP \<or> key = key_of (CHR ''k'') then ush_vim_move_up ed
      else if key = USH_VIM_KEY_DOWN \<or> key = key_of (CHR ''j'') then ush_vim_move_down ed
      else if key = USH_VIM_KEY_HOME \<or> key = key_of (CHR ''0'') then ed\<lparr>ve_cursor_col := 0\<rparr>
      else if key = USH_VIM_KEY_END \<or> key = key_of (CHR ''$'') then ed\<lparr>ve_cursor_col := length (cur_line ed)\<rparr>
      else if key = key_of (CHR ''G'') then ush_vim_keep_cursor_valid (ed\<lparr>ve_cursor_line := ve_line_count ed - 1\<rparr>)
      else if key = key_of (CHR ''g'') then ed\<lparr>ve_pending_gg := True\<rparr>
      else if key = key_of (CHR ''i'')
      then ush_vim_set_status ''-- INSERT --'' (ed\<lparr>ve_mode := USH_VIM_MODE_INSERT, ve_pending_jj := False\<rparr>)
      else if key = key_of (CHR ''a'')
      then ush_vim_set_status ''-- INSERT --''
             ((if ve_cursor_col ed < length (cur_line ed)
               then ed\<lparr>ve_cursor_col := ush_vim_utf8_next_boundary (cur_line ed) (ve_cursor_col ed)\<rparr> else ed)
                \<lparr>ve_mode := USH_VIM_MODE_INSERT, ve_pending_jj := False\<rparr>)
      else if key = key_of (CHR ''o'')
      then ush_vim_set_status ''-- INSERT --'' ((fst (ush_vim_open_below_insert ed))\<lparr>ve_pending_jj := False\<rparr>)
      else if key = key_of (CHR ''x'') then fst (ush_vim_delete_char ed)
      else if key = key_of (CHR ''d'') then ed\<lparr>ve_pending_dd := True\<rparr>
      else if key = key_of (CHR '':'') then ed\<lparr>ve_mode := USH_VIM_MODE_COMMAND, ve_command := []\<rparr>
      else ed)"

definition ush_vim_handle_command_mode ::
    "'k vim_kernel \<Rightarrow> ush_state \<Rightarrow> 'k \<Rightarrow> ush_vim_editor \<Rightarrow> nat \<Rightarrow> ('k \<times> ush_vim_editor) option" where
  "ush_vim_handle_command_mode K sh k ed key =
     (if key = USH_VIM_KEY_ESC then Some (k, ed\<lparr>ve_mode := USH_VIM_MODE_NORMAL, ve_command := []\<rparr>)
      else if key = USH_VIM_KEY_BACKSPACE \<or> key = USH_VIM_KEY_DEL
      then Some (k, ed\<lparr>ve_command := butlast (ve_command ed)\<rparr>)
      else if key = USH_VIM_KEY_ENTER \<or> key = key_of (CHR 0x0A)
      then (case ush_vim_run_command K sh k ed of (k, ed, _) \<Rightarrow> Some (k, ed\<lparr>ve_mode := USH_VIM_MODE_NORMAL, ve_command := []\<rparr>))
      else if 32 \<le> key \<and> key \<le> 255
      then (case (if 0x80 \<le> key then ush_vim_collect_utf8 K k key 4 else Some (k, [char_of key])) of
          None \<Rightarrow> None
        | Some (k, bytes) \<Rightarrow>
            Some (k, if length (ve_command ed) + length bytes < USH_VIM_CMD_MAX
                     then ed\<lparr>ve_command := ve_command ed @ bytes\<rparr> else ed))
      else Some (k, ed))"

subsection \<open>The program\<close>

definition ush_vim_parse_start_path :: "ush_state \<Rightarrow> string option \<Rightarrow> nat \<Rightarrow> string option" where
  "ush_vim_parse_start_path sh arg out_size =
     (if out_size = 0 then None
      else (case arg of
          None \<Rightarrow> Some []
        | Some a \<Rightarrow>
            if a = [] then Some []
            else (case ush_split_first_and_rest (Some a) USH_PATH_MAX of
                None \<Rightarrow> None
              | Some (path_token, _) \<Rightarrow> ush_resolve_path sh (Some path_token) out_size)))"

text \<open>Up to the loop; \<open>Inl\<close> is the message of an error.\<close>

definition vim_start ::
    "'k vim_kernel \<Rightarrow> ush_state \<Rightarrow> string option \<Rightarrow> 'k \<Rightarrow> ('k \<times> (string + ush_vim_editor)) option" where
  "vim_start K sh arg k =
     (case ush_vim_parse_start_path sh arg USH_PATH_MAX of
        None \<Rightarrow> Some (k, Inl ''vim: invalid path'')
      | Some target_path \<Rightarrow>
          (case (if target_path \<noteq> [] then ush_vim_load_file K k ush_vim_init target_path else Some (k, ush_vim_init, True)) of
             None \<Rightarrow> None
           | Some (k, ed, ok) \<Rightarrow>
               Some (k, if \<not> ok then Inl ''vim: failed to open file''
                        else Inr (ush_vim_ensure_cursor_visible (ush_vim_keep_cursor_valid ed)))))"

text \<open>One round of the loop without the drawing.\<close>

definition vim_step :: "'k vim_kernel \<Rightarrow> ush_state \<Rightarrow> 'k \<Rightarrow> ush_vim_editor \<Rightarrow> ('k \<times> ush_vim_editor) option" where
  "vim_step K sh k ed =
     (case ush_vim_read_key K k of
        None \<Rightarrow> None
      | Some (k, key) \<Rightarrow>
          (case (if ve_mode ed = USH_VIM_MODE_INSERT then ush_vim_handle_insert_mode K k ed key
                 else if ve_mode ed = USH_VIM_MODE_COMMAND then ush_vim_handle_command_mode K sh k ed key
                 else Some (k, ush_vim_handle_normal_mode ed key)) of
             None \<Rightarrow> None
           | Some (k, ed) \<Rightarrow>
               Some (k, if ve_quit_requested ed then ed
                        else ush_vim_ensure_cursor_visible (ush_vim_keep_cursor_valid ed))))"

partial_function (option) vim_loop ::
    "'k vim_kernel \<Rightarrow> ush_state \<Rightarrow> 'k \<Rightarrow> ush_vim_editor \<Rightarrow> ('k \<times> ush_vim_editor) option" where
  "vim_loop K sh k ed =
     (case vim_step K sh k ed of
        None \<Rightarrow> None
      | Some (k, ed) \<Rightarrow> if ve_quit_requested ed then Some (k, ed) else vim_loop K sh k ed)"

definition ush_cmd_vim :: "'k vim_kernel \<Rightarrow> ush_state \<Rightarrow> string option \<Rightarrow> 'k \<Rightarrow> ('k \<times> bool) option" where
  "ush_cmd_vim K sh arg k =
     (case vim_start K sh arg k of
        None \<Rightarrow> None
      | Some (k, Inl msg) \<Rightarrow> Some (k, False)
      | Some (k, Inr ed) \<Rightarrow> (case vim_loop K sh k ed of None \<Rightarrow> None | Some (k, ed) \<Rightarrow> Some (k, True)))"

text \<open>The states of a session that started with the buffer \<open>ls\<close>.\<close>

inductive vim_session :: "'k vim_kernel \<Rightarrow> ush_state \<Rightarrow> string list \<Rightarrow> 'k \<Rightarrow> ush_vim_editor \<Rightarrow> bool"
  for K :: "'k vim_kernel" and sh :: ush_state where
  session_start: "vim_start K sh arg k0 = Some (k, Inr ed) \<Longrightarrow> vim_session K sh (ve_lines ed) k ed"
| session_step: "\<lbrakk>vim_session K sh ls k ed; \<not> ve_quit_requested ed; vim_step K sh k ed = Some (k', ed')\<rbrakk>
    \<Longrightarrow> vim_session K sh ls k' ed'"

section \<open>What every operation keeps\<close>

definition path_fit :: "string \<Rightarrow> bool" where
  "path_fit p \<longleftrightarrow> NUL \<notin> set p \<and> length p < USH_PATH_MAX"

text \<open>\<open>quiet\<close>: nothing but the text, the cursor, the mode and the status changes, and a change of the text is
  recorded in \<open>modified\<close>.\<close>

definition quiet :: "ush_vim_editor \<Rightarrow> ush_vim_editor \<Rightarrow> bool" where
  "quiet ed ed' \<longleftrightarrow> (ed_ok ed \<longrightarrow> ed_ok ed') \<and> (ve_modified ed \<longrightarrow> ve_modified ed') \<and>
     (ve_lines ed' = ve_lines ed \<or> ve_modified ed') \<and> ve_file_path ed' = ve_file_path ed \<and>
     ve_quit_requested ed' = ve_quit_requested ed \<and>
     (length (ve_command ed) < USH_VIM_CMD_MAX \<longrightarrow> length (ve_command ed') < USH_VIM_CMD_MAX) \<and> (ve_mode ed \<le> 2 \<longrightarrow> ve_mode ed' \<le> 2) \<and>
     (length (ve_status ed) < USH_VIM_STATUS_MAX \<longrightarrow> length (ve_status ed') < USH_VIM_STATUS_MAX)"

lemma quiet_refl [simp]: "quiet ed ed"
  by (simp add: quiet_def)

lemma quiet_trans: "quiet a b \<Longrightarrow> quiet b c \<Longrightarrow> quiet a c"
  unfolding quiet_def by metis

lemma quiet_if: "(P \<Longrightarrow> quiet ed a) \<Longrightarrow> (\<not> P \<Longrightarrow> quiet ed b) \<Longrightarrow> quiet ed (if P then a else b)"
  by simp

lemma ush_copy_fits:
  assumes "0 < n"
  shows "length (ush_copy d n (Some s)) < n" "NUL \<notin> set (ush_copy d n (Some s))"
proof -
  have e: "ush_copy d n (Some s) = takeWhile (\<lambda>c. c \<noteq> NUL) (s_strncpy s (n - 1))"
    using assms by (simp add: ush_copy_def takeWhile_tail)
  have "length (s_strncpy s (n - 1)) = n - 1" by (auto simp: s_strncpy_def)
  then show "length (ush_copy d n (Some s)) < n" "NUL \<notin> set (ush_copy d n (Some s))"
    using assms length_takeWhile_le [of "\<lambda>c. c \<noteq> NUL" "s_strncpy s (n - 1)"] unfolding e by (auto dest: set_takeWhileD)
qed

lemma status_fits: "length (ve_status (ush_vim_set_status t ed)) < USH_VIM_STATUS_MAX"
  by (simp add: ush_vim_set_status_def ush_copy_fits USH_VIM_STATUS_MAX_def)

lemma quiet_status [c_inv]: "quiet ed (ush_vim_set_status t ed)"
  using same_text_facts [OF same_text_status(1) [of ed t]] status_fits [of t ed]
  by (auto simp: quiet_def ush_vim_set_status_def)

text \<open>Fields that only the mode handlers look at.\<close>

lemma quiet_update [c_inv]:
  "quiet ed (ed\<lparr>ve_pending_dd := a\<rparr>)" "quiet ed (ed\<lparr>ve_pending_gg := a\<rparr>)" "quiet ed (ed\<lparr>ve_pending_jj := a\<rparr>)"
  "m \<le> 2 \<Longrightarrow> quiet ed (ed\<lparr>ve_mode := m\<rparr>)" "quiet ed (ed\<lparr>ve_scroll_top := n\<rparr>)"
  by (auto simp: quiet_def ed_ok_def cur_line_def)

lemma quiet_col: "n \<le> length (cur_line ed) \<Longrightarrow> quiet ed (ed\<lparr>ve_cursor_col := n\<rparr>)"
  by (auto simp: quiet_def ed_ok_def cur_line_def)

lemma op_ok [c_inv]:
  "ed_ok ed \<Longrightarrow> ed_ok (fst (ush_vim_insert_bytes ed bs))" "ed_ok ed \<Longrightarrow> ed_ok (fst (ush_vim_split_line ed))"
  "ed_ok ed \<Longrightarrow> ed_ok (fst (ush_vim_backspace ed))" "ed_ok ed \<Longrightarrow> ed_ok (fst (ush_vim_delete_char ed))"
  "ed_ok ed \<Longrightarrow> ed_ok (fst (ush_vim_delete_line ed))" "ed_ok ed \<Longrightarrow> ed_ok (fst (ush_vim_open_below_insert ed))"
  using insert_bytes_spec [of ed bs] split_line_spec [of ed] backspace_spec [of ed] delete_char_spec [of ed]
    delete_line_spec [of ed] open_below_spec [of ed]
  by (metis prod.collapse same_text_facts)+

lemma quiet_op [c_inv]:
  "quiet ed (fst (ush_vim_insert_bytes ed bs))" "quiet ed (fst (ush_vim_insert_char ed c))"
  "quiet ed (fst (ush_vim_split_line ed))" "quiet ed (fst (ush_vim_backspace ed))" "quiet ed (fst (ush_vim_delete_char ed))"
  "quiet ed (fst (ush_vim_open_below_insert ed))"
proof -
  show "quiet ed (fst (ush_vim_insert_bytes ed bs))" for bs
    using op_ok(1) [of ed bs] quiet_status [of ed]
    by (auto simp: quiet_def ush_vim_insert_bytes_def Let_def set_line_def)
  then show "quiet ed (fst (ush_vim_insert_char ed c))" by (simp add: ush_vim_insert_char_def)
  show "quiet ed (fst (ush_vim_split_line ed))"
    using op_ok(2) [of ed] quiet_status [of ed]
    by (auto simp: quiet_def ush_vim_split_line_def ush_vim_insert_line_after_def Let_def)
  show "quiet ed (fst (ush_vim_backspace ed))"
    using op_ok(3) [of ed] quiet_status [of ed]
    by (auto simp: quiet_def ush_vim_backspace_def Let_def set_line_def)
  show "quiet ed (fst (ush_vim_delete_char ed))"
    using op_ok(4) [of ed] quiet_status [of ed]
    by (auto simp: quiet_def ush_vim_delete_char_def Let_def set_line_def)
  show "quiet ed (fst (ush_vim_open_below_insert ed))"
    using op_ok(6) [of ed] quiet_status [of ed]
    by (auto simp: quiet_def ush_vim_open_below_insert_def ush_vim_insert_line_after_def USH_VIM_MODE_INSERT_def)
qed

lemma quiet_keep_cursor [c_inv]: "quiet ed (ush_vim_keep_cursor_valid ed)"
proof -
  have "ed_ok ed \<Longrightarrow> ed_ok (ush_vim_keep_cursor_valid ed)" by (rule keep_cursor_ok) (simp add: ed_ok_def)
  then show ?thesis by (auto simp: quiet_def ush_vim_keep_cursor_valid_def Let_def)
qed

lemma quiet_move [c_inv]:
  "quiet ed (ush_vim_move_left ed)" "quiet ed (ush_vim_move_right ed)" "quiet ed (ush_vim_move_up ed)" "quiet ed (ush_vim_move_down ed)"
proof -
  show "quiet ed (ush_vim_move_left ed)" using move_left_spec [of ed] by (auto simp: quiet_def ush_vim_move_left_def)
  show "quiet ed (ush_vim_move_right ed)" using move_right_spec [of ed] by (auto simp: quiet_def ush_vim_move_right_def)
  have k: "quiet ed (ush_vim_keep_cursor_valid (ed\<lparr>ve_cursor_line := n\<rparr>))" for n
  proof -
    have "ed_ok ed \<Longrightarrow> ed_ok (ush_vim_keep_cursor_valid (ed\<lparr>ve_cursor_line := n\<rparr>))" by (rule keep_cursor_ok) (simp add: ed_ok_def)
    then show ?thesis by (auto simp: quiet_def ush_vim_keep_cursor_valid_def Let_def)
  qed
  show "quiet ed (ush_vim_move_up ed)" "quiet ed (ush_vim_move_down ed)"
    using k quiet_keep_cursor [of ed] by (simp_all add: ush_vim_move_up_def ush_vim_move_down_def)
qed

lemma keep_cursor_frame [c_frame]:
  "ve_modified (ush_vim_keep_cursor_valid ed) = ve_modified ed" "ve_file_path (ush_vim_keep_cursor_valid ed) = ve_file_path ed"
  "ve_command (ush_vim_keep_cursor_valid ed) = ve_command ed" "ve_quit_requested (ush_vim_keep_cursor_valid ed) = ve_quit_requested ed"
  "ve_mode (ush_vim_keep_cursor_valid ed) = ve_mode ed" "ve_status (ush_vim_keep_cursor_valid ed) = ve_status ed"
  by (simp_all add: ush_vim_keep_cursor_valid_def Let_def)

lemma quiet_delete_line [c_inv]: "quiet ed (fst (ush_vim_delete_line ed))"
  using op_ok(5) [of ed] by (auto simp: quiet_def ush_vim_delete_line_def Let_def c_frame)

lemma quiet_ensure_visible [c_inv]: "quiet ed (ush_vim_ensure_cursor_visible ed)"
  by (auto simp: quiet_def ush_vim_ensure_cursor_visible_def ed_ok_def cur_line_def)

lemma quiet_next_boundary: "ve_cursor_col ed < length (cur_line ed) \<Longrightarrow>
    quiet ed (ed\<lparr>ve_cursor_col := ush_vim_utf8_next_boundary (cur_line ed) (ve_cursor_col ed)\<rparr>)"
  by (rule quiet_col) (auto simp: ush_vim_utf8_next_boundary_def Let_def)

lemma quiet_tab: "quiet ed (((\<lambda>ed. fst (ush_vim_insert_char ed c)) ^^ n) ed)"
  by (induction n) (auto intro: quiet_trans quiet_op(2))

lemma quiet_insert_key:
  assumes "insert_key K k ed key = Some (k', ed')"
  shows "quiet ed ed'"
proof -
  have "ed' \<in> {ush_vim_move_left ed, ush_vim_move_right ed, ush_vim_move_up ed, ush_vim_move_down ed, ed\<lparr>ve_cursor_col := 0\<rparr>,
      ed\<lparr>ve_cursor_col := length (cur_line ed)\<rparr>, fst (ush_vim_split_line ed), fst (ush_vim_backspace ed),
      ((\<lambda>ed. fst (ush_vim_insert_char ed (CHR '' ''))) ^^ 4) ed, ed} \<or> (\<exists>bs. ed' = fst (ush_vim_insert_bytes ed bs))"
    using assms unfolding insert_key_def by (auto split: if_splits option.splits prod.splits)
  then show ?thesis using quiet_move [of ed] quiet_op [of ed] quiet_tab quiet_col [of _ ed] by auto
qed

lemma quiet_insert_mode [c_inv]:
  assumes "ush_vim_handle_insert_mode K k ed key = Some (k', ed')"
  shows "quiet ed ed'"
proof -
  define ed1 where "ed1 = (if ve_pending_jj ed then (fst (ush_vim_insert_char ed (CHR ''j'')))\<lparr>ve_pending_jj := False\<rparr> else ed)"
  have q: "quiet ed ed1" by (auto simp: ed1_def intro: quiet_trans [OF quiet_op(2) quiet_update(3)])
  have m: "quiet ed (ush_vim_set_status t (ed\<lparr>ve_mode := USH_VIM_MODE_NORMAL, ve_pending_dd := a, ve_pending_gg := b, ve_pending_jj := c\<rparr>))" for t a b c
    by (intro quiet_trans [OF _ quiet_status] quiet_trans [OF quiet_trans [OF quiet_trans [OF quiet_update(4) quiet_update(1)] quiet_update(2)] quiet_update(3)])
      (simp add: USH_VIM_MODE_NORMAL_def)
  have m2: "ed\<lparr>ve_pending_jj := c, ve_mode := n, ve_pending_dd := a, ve_pending_gg := b\<rparr> = ed\<lparr>ve_mode := n, ve_pending_dd := a, ve_pending_gg := b, ve_pending_jj := c\<rparr>" for n a b c
    by simp
  show ?thesis
    using assms m quiet_trans [OF q quiet_update(3)] quiet_trans [OF q quiet_insert_key]
    unfolding ush_vim_handle_insert_mode_def Let_def ed1_def [symmetric] m2 by (auto split: if_splits)
qed

lemma quiet_normal_mode [c_inv]: "quiet ed (ush_vim_handle_normal_mode ed key)"
proof -
  have z: "quiet ed (ed\<lparr>ve_cursor_col := 0\<rparr>)" "quiet ed (ed\<lparr>ve_cursor_col := length (cur_line ed)\<rparr>)" by (rule quiet_col, simp)+
  have home: "quiet ed (ed\<lparr>ve_cursor_line := 0, ve_cursor_col := 0\<rparr>)" by (auto simp: quiet_def ed_ok_def cur_line_def)
  have last: "quiet ed (ush_vim_keep_cursor_valid (ed\<lparr>ve_cursor_line := n\<rparr>))" for n
    using keep_cursor_ok [of "ed\<lparr>ve_cursor_line := n\<rparr>"] by (auto simp: quiet_def c_frame ed_ok_def)
  have ins: "quiet e (ush_vim_set_status t (e\<lparr>ve_mode := USH_VIM_MODE_INSERT, ve_pending_jj := a\<rparr>))" for e t a
    by (intro quiet_trans [OF _ quiet_status] quiet_trans [OF quiet_update(4) quiet_update(3)]) (simp add: USH_VIM_MODE_INSERT_def)
  have a: "quiet ed (if ve_cursor_col ed < length (cur_line ed)
      then ed\<lparr>ve_cursor_col := ush_vim_utf8_next_boundary (cur_line ed) (ve_cursor_col ed)\<rparr> else ed)" using quiet_next_boundary by simp
  have cmd: "quiet ed (ed\<lparr>ve_mode := USH_VIM_MODE_COMMAND, ve_command := []\<rparr>)"
    by (auto simp: quiet_def USH_VIM_MODE_COMMAND_def USH_VIM_CMD_MAX_def ed_ok_def cur_line_def)
  have d: "quiet ed ((if P then ush_vim_set_status t (fst (ush_vim_delete_line ed)) else ed)\<lparr>ve_pending_dd := False\<rparr>)" for P t
    using quiet_trans [OF quiet_trans [OF quiet_delete_line quiet_status] quiet_update(1)] quiet_update(1) by simp
  have g: "quiet ed ((if P then ed\<lparr>ve_cursor_line := 0, ve_cursor_col := 0\<rparr> else ed)\<lparr>ve_pending_gg := False\<rparr>)" for P
    using quiet_trans [OF home quiet_update(2)] quiet_update(2) by simp
  have o: "quiet ed (ush_vim_set_status t ((fst (ush_vim_open_below_insert ed))\<lparr>ve_pending_jj := False\<rparr>))" for t
    by (rule quiet_trans [OF quiet_trans [OF quiet_op(6) quiet_update(3)] quiet_status])
  note parts = z last ins [of ed] quiet_trans [OF a ins] cmd d g o quiet_move [of ed] quiet_op(5) [of ed] quiet_update(1-3)
  show ?thesis unfolding ush_vim_handle_normal_mode_def by (intro quiet_if) (rule parts quiet_refl)+
qed

section \<open>Files\<close>

text \<open>What the kernel promises: \<open>file k\<close> are the files, \<open>wr k fd\<close> is the file that a descriptor writes to and
  \<open>rd k fd\<close> what it has left to read.\<close>

definition vim_files ::
    "'k vim_kernel \<Rightarrow> ('k \<Rightarrow> string \<Rightarrow> string option) \<Rightarrow> ('k \<Rightarrow> nat \<Rightarrow> string option) \<Rightarrow> ('k \<Rightarrow> nat \<Rightarrow> string option) \<Rightarrow> bool" where
  "vim_files K file wr rd \<longleftrightarrow>
     (\<forall>k p k' r. vk_fd_open K k p open_for_write = (k', r) \<longrightarrow>
        (case r of None \<Rightarrow> file k' = file k | Some fd \<Rightarrow> file k' = (file k)(p \<mapsto> []) \<and> wr k' fd = Some p)) \<and>
     (\<forall>k fd p t text k' n. wr k fd = Some p \<longrightarrow> file k p = Some t \<longrightarrow> text \<noteq> [] \<longrightarrow> vk_fd_write K k fd text = (k', Some n) \<longrightarrow> 0 < n \<longrightarrow>
        n \<le> length text \<and> file k' = (file k)(p \<mapsto> t @ take n text) \<and> wr k' fd = Some p) \<and>
     (\<forall>k fd. file (vk_fd_close K k fd) = file k) \<and>
     (\<forall>k p k' r. vk_fd_open K k p CLEONOS_O_RDONLY = (k', r) \<longrightarrow>
        file k' = file k \<and> (case r of None \<Rightarrow> file k p = None | Some fd \<Rightarrow> file k p \<noteq> None \<and> rd k' fd = file k p)) \<and>
     (\<forall>k fd t. rd k fd = Some t \<longrightarrow> (\<exists>k' b t'. vk_fd_read K k fd 256 = (k', Some b) \<and> t = b @ t' \<and> rd k' fd = Some t' \<and> (b = [] \<longrightarrow> t = [])))"

text \<open>Writing goes on as long as the descriptor is open: no disk is ever full.\<close>

definition never_full :: "'k vim_kernel \<Rightarrow> ('k \<Rightarrow> nat \<Rightarrow> string option) \<Rightarrow> bool" where
  "never_full K wr \<longleftrightarrow> (\<forall>k fd p text. wr k fd = Some p \<longrightarrow> text \<noteq> [] \<longrightarrow> (\<exists>k' n. vk_fd_write K k fd text = (k', Some n) \<and> 0 < n))"

text \<open>Reading the keyboard does not touch the files.\<close>

definition keys_leave_files :: "'k vim_kernel \<Rightarrow> ('k \<Rightarrow> string \<Rightarrow> string option) \<Rightarrow> bool" where
  "keys_leave_files K file \<longleftrightarrow> (\<forall>k n. file (fst (vk_fd_read K k 0 n)) = file k \<and> file (vk_sleep_ticks K k n) = file k)"

fun text_of :: "string list \<Rightarrow> string" where
  "text_of [] = []"
| "text_of [l] = l"
| "text_of (l # ls) = l @ CHR 0x0A # text_of ls"

lemma text_of_Cons: "ls \<noteq> [] \<Longrightarrow> text_of (l # ls) = l @ CHR 0x0A # text_of ls"
  by (cases ls) simp_all

lemma doc_text:
  assumes "ed_ok ed"
  shows "doc ed = text_of (ve_lines ed)"
proof -
  obtain us l r ds where e: "ve_lines ed = us @ (l @ r) # ds" "ve_cursor_line ed = length us" "ve_cursor_col ed = length l"
    "cur_line ed = l @ r" "gap ed = (concat (map (\<lambda>l. l @ [CHR 0x0A]) us) @ l, r @ concat (map (\<lambda>l. CHR 0x0A # l) ds))"
    by (rule ed_split [OF assms])
  have t: "text_of (m # ds) = m @ concat (map (\<lambda>l. CHR 0x0A # l) ds)" for m ds
    by (induction ds arbitrary: m) (simp_all add: text_of_Cons)
  have "text_of (us @ m # ds) = concat (map (\<lambda>l. l @ [CHR 0x0A]) us) @ text_of (m # ds)" for m
    by (induction us) (simp_all add: text_of_Cons)
  then show ?thesis by (simp add: doc_def e t)
qed

lemma write_all_spec [c_spec]:
  assumes "vim_files K file wr rd" "wr k fd = Some p" "file k p = Some t" "ush_vim_fd_write_all K k fd s = (k', ok)"
  shows "(ok \<longrightarrow> file k' = (file k)(p \<mapsto> t @ s) \<and> wr k' fd = Some p) \<and> (never_full K wr \<longrightarrow> ok)"
  using assms(2-4)
proof (induction "length s" arbitrary: k s t rule: less_induct)
  case less
  show ?case
  proof (cases "s = []")
    case True
    then show ?thesis using less.prems by (auto simp: ush_vim_fd_write_all.simps fun_upd_idem)
  next
    case False
    obtain k1 w where w: "vk_fd_write K k fd s = (k1, w)" by fastforce
    have nf: "never_full K wr \<Longrightarrow> \<exists>n. w = Some n \<and> 0 < n" using less.prems(1) False w unfolding never_full_def by fastforce
    show ?thesis
    proof (cases "\<exists>n. w = Some n \<and> 0 < n")
      case True
      then obtain n where n: "w = Some n" "0 < n" by blast
      have k1: "n \<le> length s" "file k1 = (file k)(p \<mapsto> t @ take n s)" "wr k1 fd = Some p"
        using assms(1) less.prems(1,2) False w n unfolding vim_files_def by blast+
      have r: "ush_vim_fd_write_all K k1 fd (drop n s) = (k', ok)"
        using less.prems(3) False w n by (simp add: ush_vim_fd_write_all.simps [of K k fd s])
      have "length (drop n s) < length s" using False n(2) by simp
      from less.hyps [OF this k1(3) _ r, of "t @ take n s"] k1(2) show ?thesis by simp
    next
      case f: False
      have "ush_vim_fd_write_all K k fd s = (k1, False)"
        using False w f by (auto simp: ush_vim_fd_write_all.simps [of K k fd s] split: option.splits)
      then show ?thesis using nf f less.prems(3) by auto
    qed
  qed
qed

lemma save_lines_spec [c_spec]:
  assumes "vim_files K file wr rd" "wr k fd = Some p" "file k p = Some t" "save_lines K k fd ls bytes = (k', r)"
  shows "(\<forall>n. r = Some n \<longrightarrow> file k' = (file k)(p \<mapsto> t @ text_of ls) \<and> n = bytes + length (text_of ls)) \<and> (never_full K wr \<longrightarrow> r \<noteq> None)"
  using assms(2-4)
proof (induction ls arbitrary: k t bytes)
  case Nil
  then show ?case by (auto simp: fun_upd_idem)
next
  case (Cons l ls)
  obtain k1 ok where w: "(if 0 < length l then ush_vim_fd_write_all K k fd l else (k, True)) = (k1, ok)" by fastforce
  have s: "(ok \<longrightarrow> file k1 = (file k)(p \<mapsto> t @ l) \<and> wr k1 fd = Some p) \<and> (never_full K wr \<longrightarrow> ok)"
  proof (cases "l = []")
    case True
    then show ?thesis using w Cons.prems by (auto simp: fun_upd_idem)
  next
    case False
    then have "ush_vim_fd_write_all K k fd l = (k1, ok)" using w by simp
    from write_all_spec [OF assms(1) Cons.prems(1,2) this] show ?thesis .
  qed
  obtain k2 ok2 where w2: "ush_vim_fd_write_all K k1 fd [CHR 0x0A] = (k2, ok2)" by fastforce
  show ?case
  proof (cases "ok \<and> ls \<noteq> []")
    case True
    have f1: "wr k1 fd = Some p" "file k1 p = Some (t @ l)" "file k1 = (file k)(p \<mapsto> t @ l)" using s True by simp_all
    note s2 = write_all_spec [OF assms(1) f1(1,2) w2]
    have r: "save_lines K k fd (l # ls) bytes = (if \<not> ok2 then (k2, None) else save_lines K k2 fd ls (bytes + length l + 1))"
      using True by (simp only: save_lines.simps w w2 prod.case) simp
    show ?thesis
    proof (cases ok2)
      case ok2: True
      have k2: "wr k2 fd = Some p" "file k2 = (file k1)(p \<mapsto> (t @ l) @ [CHR 0x0A])" using s2 ok2 by blast+
      have f2: "wr k2 fd = Some p" "file k2 p = Some (t @ l @ [CHR 0x0A])" "file k2 = (file k)(p \<mapsto> t @ l @ [CHR 0x0A])"
        by (rule k2(1), simp add: k2(2), simp only: k2(2) f1(3) fun_upd_upd append_assoc)
      have "save_lines K k2 fd ls (bytes + length l + 1) = (k', r)" using Cons.prems(3) r ok2 by simp
      note ih = Cons.IH [OF f2(1,2) this, unfolded f2(3) fun_upd_upd]
      have "ls \<noteq> []" using True by simp
      then show ?thesis using ih by (simp add: text_of_Cons add.assoc)
    next
      case False
      then show ?thesis using s2 r Cons.prems(3) by auto
    qed
  next
    case False
    have "save_lines K k fd (l # ls) bytes = (k1, if \<not> ok then None else Some (bytes + length l))"
      using False by (simp only: save_lines.simps w prod.case) auto
    then have "k' = k1" "r = (if \<not> ok then None else Some (bytes + length l))" using Cons.prems(3) by (metis Pair_inject)+
    then show ?thesis using s False by auto
  qed
qed

lemma copy_fit: "path_fit p \<Longrightarrow> ush_copy d USH_PATH_MAX (Some p) = p"
  by (simp add: path_fit_def ush_copy_take USH_PATH_MAX_def)

lemma path_fit_copy: "path_fit (ush_copy d USH_PATH_MAX (Some p))"
  by (simp add: path_fit_def ush_copy_fits USH_PATH_MAX_def)

text \<open>Saving leaves the text alone; it reports success only after all of it is in the file.\<close>

lemma save_file_spec [c_spec]:
  assumes "vim_files K file wr rd" "path_fit path" "ush_vim_save_file K k ed path = (k', ed', ok)"
  shows "(if ok then file k' = (file k)(path \<mapsto> text_of (ve_lines ed)) \<and> ve_file_path ed' = path \<and> \<not> ve_modified ed'
      else ve_file_path ed' = ve_file_path ed \<and> ve_modified ed' = ve_modified ed \<and> (never_full K wr \<longrightarrow> file k' = file k))"
proof (cases "path = []")
  case True
  then show ?thesis using assms(3) by (auto simp: ush_vim_save_file_def)
next
  case False
  obtain k1 r where o: "vk_fd_open K k path open_for_write = (k1, r)" by fastforce
  have law: "case r of None \<Rightarrow> file k1 = file k | Some fd \<Rightarrow> file k1 = (file k)(path \<mapsto> []) \<and> wr k1 fd = Some path"
    using assms(1) o unfolding vim_files_def by blast
  show ?thesis
  proof (cases r)
    case None
    then show ?thesis using assms(3) False o law by (auto simp: ush_vim_save_file_def ush_vim_set_status_def)
  next
    case (Some fd)
    have f1: "file k1 = (file k)(path \<mapsto> [])" "wr k1 fd = Some path" "file k1 path = Some []" using law Some by simp_all
    obtain k2 saved where s: "save_lines K k1 fd (ve_lines ed) 0 = (k2, saved)" by fastforce
    note spec = save_lines_spec [OF assms(1) f1(2,3) s]
    have close: "file (vk_fd_close K k2 fd) = file k2" using assms(1) unfolding vim_files_def by blast
    show ?thesis
    proof (cases saved)
      case None
      then show ?thesis using assms(3) False o Some s spec by (auto simp: ush_vim_save_file_def ush_vim_set_status_def)
    next
      case (Some n)
      have "file k2 = (file k1)(path \<mapsto> [] @ text_of (ve_lines ed))" using spec Some by blast
      then have "file k2 = (file k)(path \<mapsto> text_of (ve_lines ed))" by (simp only: f1(1) fun_upd_upd append_Nil)
      then show ?thesis using assms(3) False o \<open>r = Some fd\<close> s Some close copy_fit [OF assms(2)]
        by (auto simp: ush_vim_save_file_def ush_vim_set_status_def)
    qed
  qed
qed

lemma save_file_frame [c_frame]:
  assumes "ush_vim_save_file K k ed path = (k', ed', ok)"
  shows "ve_lines ed' = ve_lines ed" "ve_cursor_line ed' = ve_cursor_line ed" "ve_cursor_col ed' = ve_cursor_col ed"
    "ve_mode ed' = ve_mode ed" "ve_command ed' = ve_command ed" "ve_quit_requested ed' = ve_quit_requested ed"
    "path_fit (ve_file_path ed) \<Longrightarrow> path_fit (ve_file_path ed')"
    "length (ve_status ed) < USH_VIM_STATUS_MAX \<Longrightarrow> length (ve_status ed') < USH_VIM_STATUS_MAX"
  using assms status_fits path_fit_copy
  by (auto simp: ush_vim_save_file_def ush_vim_set_status_def Let_def split: if_splits prod.splits option.splits)

section \<open>Loading\<close>

definition load_inv :: "string list \<times> string \<times> bool \<Rightarrow> bool" where
  "load_inv = (\<lambda>(before, line, truncated). length before < USH_VIM_MAX_LINES \<and>
     (\<forall>l\<in>set (before @ [line]). length l < USH_VIM_MAX_LINE_LEN))"

lemma load_char_inv: "load_inv st \<Longrightarrow> load_inv (load_char c st)"
  by (auto simp: load_inv_def load_char_def USH_VIM_MAX_LINE_LEN_def split: prod.splits)

lemma load_chars_inv: "load_inv st \<Longrightarrow> load_inv (fold load_char s st)"
  by (induction s arbitrary: st) (simp_all add: load_char_inv del: split_paired_All)

lemma load_inv_start: "load_inv ([], [], False)"
  by (simp add: load_inv_def USH_VIM_MAX_LINES_def USH_VIM_MAX_LINE_LEN_def)

lemma load_loop_inv:
  assumes "load_loop K k fd st = Some (k', ok, st')"
  shows "load_inv st \<longrightarrow> load_inv st'"
  using assms
proof (induction k fd st "(k', ok, st')" rule: load_loop.raw_induct [rotated, consumes 1])
  case (1 loop K k fd st)
  obtain k1 got where g: "vk_fd_read K k fd 256 = (k1, got)" by fastforce
  show ?case
  proof (cases got)
    case None
    then show ?thesis using 1(2) g by simp
  next
    case (Some buf)
    then show ?thesis using 1 g load_chars_inv by (cases "buf = []") auto
  qed
qed

lemma load_loop_spec [c_spec]:
  assumes "vim_files K file wr rd" "rd k fd = Some t"
  shows "\<exists>k'. load_loop K k fd st = Some (k', True, fold load_char t st)"
  using assms(2)
proof (induction "length t" arbitrary: k t st rule: less_induct)
  case less
  obtain k1 b t1 where r: "vk_fd_read K k fd 256 = (k1, Some b)" "t = b @ t1" "rd k1 fd = Some t1" "b = [] \<longrightarrow> t = []"
    using assms(1) less.prems unfolding vim_files_def by blast
  show ?case
  proof (cases "b = []")
    case True
    then show ?thesis using r by (subst load_loop.simps) simp
  next
    case False
    then have "length t1 < length t" using r(2) by (cases b) auto
    from less.hyps [OF this r(3), of "fold load_char b st"] show ?thesis using False r by (subst load_loop.simps) simp
  qed
qed

text \<open>A text of short lines without carriage returns is loaded as it is.\<close>

definition plain_line :: "string \<Rightarrow> bool" where
  "plain_line l \<longleftrightarrow> CHR 0x0A \<notin> set l \<and> CHR 0x0D \<notin> set l \<and> length l < USH_VIM_MAX_LINE_LEN"

lemma load_line: "plain_line (l @ m) \<Longrightarrow> fold load_char m (b, l, tr) = (b, l @ m, tr)"
proof (induction m arbitrary: l)
  case (Cons c m)
  then have "load_char c (b, l, tr) = (b, l @ [c], tr)" by (auto simp: load_char_def plain_line_def)
  then show ?case using Cons.IH [of "l @ [c]"] Cons.prems by simp
qed simp

lemma load_text:
  assumes "ls \<noteq> []" "length b + length ls \<le> USH_VIM_MAX_LINES" "\<forall>l\<in>set ls. plain_line l"
  shows "fold load_char (text_of ls) (b, [], tr) = (b @ butlast ls, last ls, tr)"
  using assms
proof (induction ls arbitrary: b)
  case (Cons l ls)
  have l: "fold load_char l (b, [], tr) = (b, l, tr)" using load_line [of "[]" l b tr] Cons.prems(3) by simp
  show ?case
  proof (cases "ls = []")
    case False
    then have "load_char (CHR 0x0A) (b, l, tr) = (b @ [l], [], tr)" using Cons.prems(2) by (cases ls) (auto simp: load_char_def)
    then show ?thesis using Cons.IH [of "b @ [l]"] Cons.prems False by (simp add: text_of_Cons l)
  qed (simp add: l)
qed simp

text \<open>What loading changes.\<close>

lemma load_file_ok [c_inv]:
  assumes "ush_vim_load_file K k ed path = Some (k', ed', True)" "buffer_ok (ve_lines ed)" "\<not> ve_modified ed"
  shows "buffer_ok (ve_lines ed')" "\<not> ve_modified ed'" "ve_mode ed' = ve_mode ed" "ve_command ed' = ve_command ed"
    "ve_quit_requested ed' = ve_quit_requested ed" "path_fit (ve_file_path ed')" "length (ve_status ed') < USH_VIM_STATUS_MAX"
proof -
  obtain k1 r where o: "vk_fd_open K k path CLEONOS_O_RDONLY = (k1, r)" by fastforce
  have "(\<exists>t. ed' = ush_vim_set_status t (ed\<lparr>ve_file_path := ush_copy (ve_file_path ed) USH_PATH_MAX (Some path)\<rparr>)) \<or>
    (\<exists>t ls. buffer_ok ls \<and> ed' = ush_vim_set_status t ((ush_vim_reset_buffer ed)\<lparr>ve_lines := ls, ve_cursor_line := 0, ve_cursor_col := 0,
       ve_scroll_top := 0, ve_modified := False, ve_file_path := ush_copy (ve_file_path ed) USH_PATH_MAX (Some path)\<rparr>))"
  proof (cases r)
    case None
    then show ?thesis using assms(1) o by (auto simp: ush_vim_load_file_def split: if_splits)
  next
    case (Some fd)
    obtain k2 before line tr where l: "load_loop K k1 fd ([], [], False) = Some (k2, True, before, line, tr)"
      using assms(1) o Some by (auto simp: ush_vim_load_file_def Let_def split: if_splits option.splits)
    have "load_inv (before, line, tr)" using load_loop_inv [OF l] load_inv_start by simp
    then have "buffer_ok (before @ [line])" by (auto simp: load_inv_def buffer_ok_def)
    moreover have "ed' = ush_vim_set_status (if tr then ''file loaded with truncation'' else ''file loaded'')
       ((ush_vim_reset_buffer ed)\<lparr>ve_lines := before @ [line], ve_cursor_line := 0, ve_cursor_col := 0,
       ve_scroll_top := 0, ve_modified := False, ve_file_path := ush_copy (ve_file_path (ush_vim_reset_buffer ed)) USH_PATH_MAX (Some path)\<rparr>)"
      using assms(1) o Some l by (auto simp: ush_vim_load_file_def Let_def split: if_splits)
    ultimately show ?thesis by (auto simp: ush_vim_reset_buffer_def)
  qed
  then show "buffer_ok (ve_lines ed')" "\<not> ve_modified ed'" "ve_mode ed' = ve_mode ed" "ve_command ed' = ve_command ed"
    "ve_quit_requested ed' = ve_quit_requested ed" "path_fit (ve_file_path ed')" "length (ve_status ed') < USH_VIM_STATUS_MAX"
    using assms(2,3) path_fit_copy status_fits by (auto simp: ush_vim_set_status_def ush_vim_reset_buffer_def)
qed

section \<open>Sessions\<close>

definition vim_ok :: "ush_vim_editor \<Rightarrow> bool" where
  "vim_ok ed \<longleftrightarrow> ed_ok ed \<and> ve_mode ed \<le> 2 \<and> length (ve_command ed) < USH_VIM_CMD_MAX \<and>
     path_fit (ve_file_path ed) \<and> length (ve_status ed) < USH_VIM_STATUS_MAX"

definition cursor_visible :: "ush_vim_editor \<Rightarrow> bool" where
  "cursor_visible ed \<longleftrightarrow> ve_scroll_top ed \<le> ve_cursor_line ed \<and> ve_cursor_line ed < ve_scroll_top ed + USH_VIM_VIEW_ROWS"

lemma quiet_ok [c_inv]: "quiet ed ed' \<Longrightarrow> vim_ok ed \<Longrightarrow> vim_ok ed'"
  by (simp add: quiet_def vim_ok_def)

lemma ensure_visible [c_inv]: "cursor_visible (ush_vim_ensure_cursor_visible ed)"
  by (auto simp: cursor_visible_def ush_vim_ensure_cursor_visible_def USH_VIM_VIEW_ROWS_def)

text \<open>What a command comes to.\<close>

inductive command_result :: "'k vim_kernel \<Rightarrow> 'k \<Rightarrow> ush_vim_editor \<Rightarrow> 'k \<Rightarrow> ush_vim_editor \<Rightarrow> bool"
  for K :: "'k vim_kernel" and k :: 'k and ed :: ush_vim_editor where
  cr_same: "command_result K k ed k ed"
| cr_status: "command_result K k ed k (ush_vim_set_status t ed)"
| cr_quit: "\<not> ve_modified ed \<or> command_text ed = ''q!'' \<Longrightarrow> command_result K k ed k (ed\<lparr>ve_quit_requested := True\<rparr>)"
| cr_save: "path_fit path \<Longrightarrow> ush_vim_save_file K k ed path = (k', ed', ok) \<Longrightarrow> command_result K k ed k' ed'"
| cr_save_quit: "path_fit path \<Longrightarrow> ush_vim_save_file K k ed path = (k', ed', True) \<Longrightarrow>
    command_result K k ed k' (ed'\<lparr>ve_quit_requested := True\<rparr>)"

lemma other_command_result: "other_command cmd ed = (ed', ok) \<Longrightarrow> command_result K k ed k ed'"
  by (auto simp: other_command_def intro: command_result.intros split: if_splits)

lemma write_target_fit: "write_target sh ed rest = Inr target \<Longrightarrow> path_fit target"
  by (auto simp: write_target_def path_fit_copy split: if_splits option.splits)

lemma run_command_result:
  assumes "ush_vim_run_command K sh k ed = (k', ed', ok)" "path_fit (ve_file_path ed)"
  shows "command_result K k ed k' ed'"
proof -
  consider "command_text ed = []" | "command_text ed = ''q''" | "command_text ed = ''q!''"
    | "command_text ed = ''wq'' \<or> command_text ed = ''x''"
    | "command_text ed \<noteq> []" "command_text ed \<noteq> ''q''" "command_text ed \<noteq> ''q!''" "\<not> (command_text ed = ''wq'' \<or> command_text ed = ''x'')" by blast
  then show ?thesis
  proof cases
    case 4
    then show ?thesis using assms(1) cr_save [OF assms(2), of K k ed] cr_save_quit [OF assms(2), of K k ed]
      by (auto simp: ush_vim_run_command_def Let_def intro: cr_status split: if_splits prod.splits)
  next
    case 5
    then have e: "(case ush_split_first_and_rest (Some (command_text ed)) USH_PATH_MAX of
          None \<Rightarrow> (k, other_command (command_text ed) ed)
        | Some (token0, rest) \<Rightarrow>
            if token0 = ''w''
            then (case write_target sh ed rest of
                Inl msg \<Rightarrow> (k, ush_vim_set_status msg ed, False)
              | Inr target \<Rightarrow> ush_vim_save_file K k ed target)
            else (k, other_command (command_text ed) ed)) = (k', ed', ok)"
      using assms(1) unfolding ush_vim_run_command_def Let_def by (simp only: if_False)
    show ?thesis
    proof (cases "ush_split_first_and_rest (Some (command_text ed)) USH_PATH_MAX")
      case None
      then show ?thesis using e other_command_result by auto
    next
      case (Some tr)
      obtain token0 rest where "tr = (token0, rest)" by fastforce
      then show ?thesis using e Some cr_save [OF write_target_fit, of sh ed rest _ K k ed]
        by (cases "token0 = ''w''"; cases "write_target sh ed rest") (auto intro: cr_status other_command_result)
    qed
  qed (use assms(1) in \<open>auto simp: ush_vim_run_command_def Let_def intro: cr_same cr_status cr_quit split: if_splits\<close>)
qed

lemma command_result_ok:
  assumes "command_result K k ed k' ed'" "vim_ok ed"
  shows "vim_ok ed'" "ve_lines ed' = ve_lines ed" "ve_mode ed' = ve_mode ed"
proof -
  show "ve_lines ed' = ve_lines ed" "ve_mode ed' = ve_mode ed"
    using assms(1) by (cases, auto simp: save_file_frame ush_vim_set_status_def)+
  show "vim_ok ed'" using assms(1)
  proof cases
    case cr_same
    then show ?thesis using assms(2) by simp
  next
    case (cr_status t)
    then show ?thesis using assms(2) quiet_ok [OF quiet_status] by simp
  next
    case cr_quit
    then show ?thesis using assms(2) by (simp add: vim_ok_def ed_ok_def cur_line_def)
  next
    case (cr_save path ok)
    then show ?thesis using assms(2) save_file_frame [OF cr_save(2)] by (simp add: vim_ok_def ed_ok_def cur_line_def)
  next
    case (cr_save_quit path ed1)
    then show ?thesis using assms(2) save_file_frame [OF cr_save_quit(3)] by (simp add: vim_ok_def ed_ok_def cur_line_def)
  qed
qed

text \<open>A command does not lose changes, but for \<open>q!\<close>.\<close>

lemma command_result_saved:
  assumes "command_result K k ed k' ed'" "vim_files K file wr rd" "never_full K wr"
  shows "(ve_file_path ed' = ve_file_path ed \<and> ve_modified ed' = ve_modified ed \<and> file k' = file k \<and>
      (ve_quit_requested ed' \<longrightarrow> ve_quit_requested ed \<or> command_text ed = ''q!'' \<or> \<not> ve_modified ed')) \<or>
    (\<not> ve_modified ed' \<and> file k' (ve_file_path ed') = Some (text_of (ve_lines ed)))"
  using assms(1)
proof cases
  case (cr_save path ok)
  then show ?thesis using save_file_spec [OF assms(2) cr_save] save_file_frame [OF cr_save(2)] assms(3) by (cases ok) auto
next
  case (cr_save_quit path ed1)
  then show ?thesis using save_file_spec [OF assms(2) cr_save_quit(2,3)] save_file_frame [OF cr_save_quit(3)] by auto
qed (auto simp: ush_vim_set_status_def)

lemma read_byte_files:
  assumes "ush_vim_read_byte_blocking K k = Some (k', c)" "keys_leave_files K file"
  shows "file k' = file k"
proof -
  have "keys_leave_files K file \<longrightarrow> file k' = file k" using assms(1)
  proof (induction K k "(k', c)" rule: ush_vim_read_byte_blocking.raw_induct [rotated, consumes 1])
    case (1 read K k)
    obtain k1 got where g: "vk_fd_read K k 0 1 = (k1, got)" by fastforce
    have f: "keys_leave_files K file \<Longrightarrow> file k1 = file k" "keys_leave_files K file \<Longrightarrow> file (vk_sleep_ticks K k1 1) = file k1"
      using g by (metis keys_leave_files_def fst_conv)+
    have "k' = k1 \<or> read K (vk_sleep_ticks K k1 1) = Some (k', c)" using 1(2) g by (auto split: option.splits if_splits)
    then show ?case using 1(1) f by metis
  qed
  then show ?thesis using assms(2) by simp
qed

lemma collect_files:
  assumes "collect_loop K k out n = Some (k', bs)" "keys_leave_files K file"
  shows "file k' = file k"
  using assms(1)
proof (induction n arbitrary: k out)
  case (Suc n)
  obtain k1 ch where r: "ush_vim_read_byte_blocking K k = Some (k1, ch)" using Suc.prems by (auto split: option.splits)
  have "k' = k1 \<or> collect_loop K k1 (out @ [ch]) n = Some (k', bs)" using Suc.prems r by (auto split: if_splits)
  then show ?case using Suc.IH read_byte_files [OF r assms(2)] by metis
qed simp

lemma utf8_files:
  "ush_vim_collect_utf8 K k key n = Some (k', bs) \<Longrightarrow> keys_leave_files K file \<Longrightarrow> file k' = file k"
  by (auto simp: ush_vim_collect_utf8_def Let_def split: if_splits dest: collect_files)

lemma read_key_files: "ush_vim_read_key K k = Some (k', key) \<Longrightarrow> keys_leave_files K file \<Longrightarrow> file k' = file k"
  by (auto simp: ush_vim_read_key_def split: option.splits dest: read_byte_files)

lemma insert_mode_files:
  assumes "ush_vim_handle_insert_mode K k ed key = Some (k', ed')" "keys_leave_files K file"
  shows "file k' = file k"
proof -
  have "insert_key K k e key = Some (k', ed') \<Longrightarrow> k' = k \<or> (\<exists>bs. ush_vim_collect_utf8 K k key 4 = Some (k', bs))" for e
    unfolding insert_key_def by (auto split: if_splits option.splits)
  then have "insert_key K k e key = Some (k', ed') \<Longrightarrow> file k' = file k" for e using utf8_files [OF _ assms(2)] by blast
  then show ?thesis using assms(1) unfolding ush_vim_handle_insert_mode_def Let_def by (auto split: if_splits)
qed

lemma command_mode_spec:
  assumes "ush_vim_handle_command_mode K sh k ed key = Some (k', ed')" "vim_ok ed"
  shows "(quiet ed ed' \<and> (keys_leave_files K file \<longrightarrow> file k' = file k)) \<or>
    (\<exists>ed1. command_result K k ed k' ed1 \<and> ed' = ed1\<lparr>ve_mode := USH_VIM_MODE_NORMAL, ve_command := []\<rparr>)"
proof -
  have q: "quiet ed (ed\<lparr>ve_command := c\<rparr>)" "quiet ed (ed\<lparr>ve_mode := USH_VIM_MODE_NORMAL, ve_command := c\<rparr>)"
    if "length c < USH_VIM_CMD_MAX" for c
    using that by (auto simp: quiet_def ed_ok_def cur_line_def USH_VIM_MODE_NORMAL_def)
  consider "key = USH_VIM_KEY_ESC" | "key = USH_VIM_KEY_BACKSPACE \<or> key = USH_VIM_KEY_DEL" "key \<noteq> USH_VIM_KEY_ESC"
    | "key = USH_VIM_KEY_ENTER \<or> key = key_of (CHR 0x0A)" "key \<noteq> USH_VIM_KEY_ESC" "\<not> (key = USH_VIM_KEY_BACKSPACE \<or> key = USH_VIM_KEY_DEL)"
    | "key \<noteq> USH_VIM_KEY_ESC" "\<not> (key = USH_VIM_KEY_BACKSPACE \<or> key = USH_VIM_KEY_DEL)" "\<not> (key = USH_VIM_KEY_ENTER \<or> key = key_of (CHR 0x0A))"
    by blast
  then show ?thesis
  proof cases
    case 1
    then show ?thesis using assms(1) q(2) [of "[]"] by (auto simp: ush_vim_handle_command_mode_def USH_VIM_CMD_MAX_def)
  next
    case 2
    then show ?thesis using assms q(1) [of "butlast (ve_command ed)"] by (auto simp: ush_vim_handle_command_mode_def vim_ok_def)
  next
    case 3
    obtain k1 ed1 ok where r: "ush_vim_run_command K sh k ed = (k1, ed1, ok)" by (metis prod.collapse)
    have "command_result K k ed k1 ed1" using run_command_result [OF r] assms(2) by (simp add: vim_ok_def)
    then show ?thesis using 3 assms(1) r by (auto simp: ush_vim_handle_command_mode_def)
  next
    case 4
    then have e: "ush_vim_handle_command_mode K sh k ed key =
      (if 32 \<le> key \<and> key \<le> 255
      then (case (if 0x80 \<le> key then ush_vim_collect_utf8 K k key 4 else Some (k, [char_of key])) of
          None \<Rightarrow> None
        | Some (k, bytes) \<Rightarrow>
            Some (k, if length (ve_command ed) + length bytes < USH_VIM_CMD_MAX
                     then ed\<lparr>ve_command := ve_command ed @ bytes\<rparr> else ed))
      else Some (k, ed))" unfolding ush_vim_handle_command_mode_def by (simp only: if_False)
    show ?thesis using assms(1) q(1) unfolding e by (auto split: if_splits option.splits dest: utf8_files)
  qed
qed

text \<open>A round of the loop, for a session: a change of text and cursor, or a command.\<close>

lemma step_cases:
  assumes "vim_step K sh k ed = Some (k', ed')" "vim_ok ed" "keys_leave_files K file"
  obtains (change) ed1 where "quiet ed ed1" "file k' = file k"
      "ed' = (if ve_quit_requested ed1 then ed1 else ush_vim_ensure_cursor_visible (ush_vim_keep_cursor_valid ed1))"
  | (command) k1 ed2 ed1 where "command_result K k1 ed k' ed2" "file k1 = file k" "ed1 = ed2\<lparr>ve_mode := USH_VIM_MODE_NORMAL, ve_command := []\<rparr>"
      "ed' = (if ve_quit_requested ed1 then ed1 else ush_vim_ensure_cursor_visible (ush_vim_keep_cursor_valid ed1))"
proof -
  obtain k1 key where r: "ush_vim_read_key K k = Some (k1, key)" using assms(1) by (auto simp: vim_step_def split: option.splits)
  note f = read_key_files [OF r assms(3)]
  obtain ed1 where h: "(if ve_mode ed = USH_VIM_MODE_INSERT then ush_vim_handle_insert_mode K k1 ed key
                 else if ve_mode ed = USH_VIM_MODE_COMMAND then ush_vim_handle_command_mode K sh k1 ed key
                 else Some (k1, ush_vim_handle_normal_mode ed key)) = Some (k', ed1)"
    and ed': "ed' = (if ve_quit_requested ed1 then ed1 else ush_vim_ensure_cursor_visible (ush_vim_keep_cursor_valid ed1))"
    using assms(1) r unfolding vim_step_def by (auto split: option.splits)
  show thesis
  proof (cases "ve_mode ed = USH_VIM_MODE_COMMAND \<and> ve_mode ed \<noteq> USH_VIM_MODE_INSERT")
    case True
    then have c: "ush_vim_handle_command_mode K sh k1 ed key = Some (k', ed1)" using h by simp
    have "(quiet ed ed1 \<and> (keys_leave_files K file \<longrightarrow> file k' = file k1)) \<or>
      (\<exists>ed2. command_result K k1 ed k' ed2 \<and> ed1 = ed2\<lparr>ve_mode := USH_VIM_MODE_NORMAL, ve_command := []\<rparr>)"
      by (rule command_mode_spec [OF c assms(2)])
    then show thesis using change [OF _ _ ed'] command [OF _ _ _ ed'] f assms(3) by auto
  next
    case False
    then have "quiet ed ed1 \<and> file k' = file k1"
      using h quiet_insert_mode insert_mode_files [OF _ assms(3)] quiet_normal_mode [of ed key] by (auto split: if_splits)
    then show thesis using change [OF _ _ ed'] f by auto
  qed
qed

lemma settle_frame [c_frame]:
  fixes ed1 :: ush_vim_editor
  defines "ed' \<equiv> (if ve_quit_requested ed1 then ed1 else ush_vim_ensure_cursor_visible (ush_vim_keep_cursor_valid ed1))"
  shows "ve_lines ed' = ve_lines ed1" "ve_modified ed' = ve_modified ed1" "ve_file_path ed' = ve_file_path ed1"
    "ve_quit_requested ed' = ve_quit_requested ed1" "vim_ok ed1 \<Longrightarrow> vim_ok ed'" "\<not> ve_quit_requested ed' \<Longrightarrow> cursor_visible ed'"
proof -
  have e: "ve_lines (ush_vim_ensure_cursor_visible x) = ve_lines x" "ve_modified (ush_vim_ensure_cursor_visible x) = ve_modified x"
    "ve_file_path (ush_vim_ensure_cursor_visible x) = ve_file_path x" "ve_quit_requested (ush_vim_ensure_cursor_visible x) = ve_quit_requested x" for x
    by (simp_all add: ush_vim_ensure_cursor_visible_def)
  show "ve_lines ed' = ve_lines ed1" "ve_modified ed' = ve_modified ed1" "ve_file_path ed' = ve_file_path ed1"
    "ve_quit_requested ed' = ve_quit_requested ed1" by (simp_all add: ed'_def e c_frame)
  show "vim_ok ed1 \<Longrightarrow> vim_ok ed'" "\<not> ve_quit_requested ed' \<Longrightarrow> cursor_visible ed'"
    using quiet_ok [OF quiet_trans [OF quiet_keep_cursor quiet_ensure_visible]] ensure_visible by (auto simp: ed'_def e c_frame)
qed

lemma start_ok:
  assumes "vim_start K sh arg k = Some (k', Inr ed)"
  shows "vim_ok ed" "cursor_visible ed" "\<not> ve_modified ed"
proof -
  obtain ed0 where e: "ed = ush_vim_ensure_cursor_visible (ush_vim_keep_cursor_valid ed0)"
    and l: "ed0 = ush_vim_init \<or> (\<exists>k1 p. ush_vim_load_file K k1 ush_vim_init p = Some (k', ed0, True))"
  proof (cases "ush_vim_parse_start_path sh arg USH_PATH_MAX")
    case None
    then show thesis using assms by (simp add: vim_start_def)
  next
    case (Some p)
    obtain k1 ed0 ok where l: "(if p \<noteq> [] then ush_vim_load_file K k ush_vim_init p else Some (k, ush_vim_init, True)) = Some (k1, ed0, ok)"
      using assms Some by (auto simp: vim_start_def split: option.splits)
    then have "ok" "k1 = k'" "ed = ush_vim_ensure_cursor_visible (ush_vim_keep_cursor_valid ed0)"
      using assms Some by (auto simp: vim_start_def split: if_splits)
    then show thesis using that [of ed0] l by (auto split: if_splits)
  qed
  have i: "buffer_ok (ve_lines ush_vim_init)" "\<not> ve_modified ush_vim_init" "ve_mode ush_vim_init = 0" "ve_command ush_vim_init = []"
    "path_fit (ve_file_path ush_vim_init)" "\<not> ve_quit_requested ush_vim_init" "length (ve_status ush_vim_init) < USH_VIM_STATUS_MAX"
    by (simp_all add: ush_vim_init_def status_fits) (simp_all add: ush_vim_reset_buffer_def ush_vim_set_status_def buffer_ok_def
        USH_VIM_MAX_LINES_def USH_VIM_MAX_LINE_LEN_def USH_VIM_MODE_NORMAL_def path_fit_def USH_PATH_MAX_def)
  have b: "buffer_ok (ve_lines ed0)" "\<not> ve_modified ed0" "ve_mode ed0 = 0" "ve_command ed0 = []"
    "path_fit (ve_file_path ed0)" "\<not> ve_quit_requested ed0" "length (ve_status ed0) < USH_VIM_STATUS_MAX"
    using l i load_file_ok [OF _ i(1,2), of K _ _ k' ed0] by metis+
  have "vim_ok (ush_vim_keep_cursor_valid ed0)"
    using keep_cursor_ok [OF b(1)] b by (simp add: vim_ok_def c_frame USH_VIM_CMD_MAX_def)
  then show "vim_ok ed" unfolding e by (rule quiet_ok [OF quiet_ensure_visible])
  show "cursor_visible ed" "\<not> ve_modified ed" using ensure_visible b(2)
    by (simp_all add: e) (simp add: ush_vim_ensure_cursor_visible_def c_frame)
qed

lemma any_step_cases:
  assumes "vim_step K sh k ed = Some (k', ed')" "vim_ok ed"
  shows "vim_ok ed'" "\<not> ve_quit_requested ed' \<Longrightarrow> cursor_visible ed'"
proof -
  have k: "keys_leave_files K (\<lambda>_ _. None)" by (simp add: keys_leave_files_def)
  have "vim_ok ed' \<and> (\<not> ve_quit_requested ed' \<longrightarrow> cursor_visible ed')"
  proof (cases rule: step_cases [OF assms k, case_names change command])
    case (change ed1)
    then show ?thesis using settle_frame(5,6) [of ed1] quiet_ok [OF change(1) assms(2)] by simp
  next
    case (command k1 ed2 ed1)
    have "vim_ok ed1" using command_result_ok(1) [OF command(1) assms(2)]
      by (simp add: command(3) vim_ok_def ed_ok_def cur_line_def USH_VIM_MODE_NORMAL_def USH_VIM_CMD_MAX_def)
    then show ?thesis using settle_frame(5,6) [of ed1] command(4) by simp
  qed
  then show "vim_ok ed'" "\<not> ve_quit_requested ed' \<Longrightarrow> cursor_visible ed'" by simp_all
qed

lemma session_ok [c_inv]: "vim_session K sh ls k ed \<Longrightarrow> vim_ok ed \<and> (ve_quit_requested ed \<or> cursor_visible ed)"
  by (induction rule: vim_session.induct) (auto dest: start_ok any_step_cases)

text \<open>Changes are either marked, undone by nobody, or in the file.\<close>

lemma step_text:
  assumes "vim_step K sh k ed = Some (k', ed')" "vim_ok ed" "vim_files K file wr rd" "never_full K wr" "keys_leave_files K file"
    and "ve_modified ed \<or> ve_lines ed = ls \<or> file k (ve_file_path ed) = Some (text_of (ve_lines ed))"
  shows "ve_modified ed' \<or> ve_lines ed' = ls \<or> file k' (ve_file_path ed') = Some (text_of (ve_lines ed'))"
    "ve_quit_requested ed' \<Longrightarrow> ve_quit_requested ed \<or> command_text ed = ''q!'' \<or> \<not> ve_modified ed'"
proof -
  have "(ve_modified ed' \<or> ve_lines ed' = ls \<or> file k' (ve_file_path ed') = Some (text_of (ve_lines ed'))) \<and>
    (ve_quit_requested ed' \<longrightarrow> ve_quit_requested ed \<or> command_text ed = ''q!'' \<or> \<not> ve_modified ed')"
  proof (cases rule: step_cases [OF assms(1,2,5), case_names change command])
    case (change ed1)
    then show ?thesis using settle_frame(1-4) [of ed1] assms(6) by (auto simp: quiet_def)
  next
    case (command k1 ed2 ed1)
    have s: "ve_lines ed' = ve_lines ed2" "ve_modified ed' = ve_modified ed2" "ve_file_path ed' = ve_file_path ed2"
      "ve_quit_requested ed' = ve_quit_requested ed2" using settle_frame(1-4) [of ed1] command(3,4) by simp_all
    show ?thesis using command_result_saved [OF command(1) assms(3,4)] command_result_ok(2) [OF command(1) assms(2)] command(2) s assms(6)
      by auto
  qed
  then show "ve_modified ed' \<or> ve_lines ed' = ls \<or> file k' (ve_file_path ed') = Some (text_of (ve_lines ed'))"
    "ve_quit_requested ed' \<Longrightarrow> ve_quit_requested ed \<or> command_text ed = ''q!'' \<or> \<not> ve_modified ed'" by simp_all
qed

lemma session_text [c_inv]:
  assumes "vim_session K sh ls k ed" "vim_files K file wr rd" "never_full K wr" "keys_leave_files K file"
  shows "ve_modified ed \<or> ve_lines ed = ls \<or> file k (ve_file_path ed) = Some (text_of (ve_lines ed))"
  using assms(1)
proof (induction rule: vim_session.induct)
  case (session_step ls k ed k' ed')
  then show ?case using step_text(1) [OF session_step(3) _ assms(2-4) session_step.IH] session_ok [OF session_step(1)] by simp
qed simp

section \<open>A kernel\<close>

text \<open>A machine with files, a keyboard and one descriptor for each of writing (3) and reading (4).\<close>

type_synonym desk = "(string \<Rightarrow> string option) \<times> string \<times> string \<times> string"

definition desk_os :: "desk vim_kernel" where
  "desk_os = \<lparr>
     vk_fd_open = (\<lambda>(fs, kb, w, r) p flags.
       if flags = open_for_write then ((fs(p \<mapsto> []), kb, p, r), Some 3)
       else (case fs p of None \<Rightarrow> ((fs, kb, w, r), None) | Some t \<Rightarrow> ((fs, kb, w, t), Some 4))),
     vk_fd_read = (\<lambda>(fs, kb, w, r) fd n.
       if fd = 0 then ((fs, drop n kb, w, r), Some (take n kb)) else ((fs, kb, w, drop n r), Some (take n r))),
     vk_fd_write = (\<lambda>(fs, kb, w, r) fd t.
       if fd = 3 then ((fs(w \<mapsto> (case fs w of None \<Rightarrow> t | Some u \<Rightarrow> u @ t)), kb, w, r), Some (length t)) else ((fs, kb, w, r), None)),
     vk_fd_close = (\<lambda>k fd. k),
     vk_sleep_ticks = (\<lambda>k n. k)\<rparr>"

definition desk_wr :: "desk \<Rightarrow> nat \<Rightarrow> string option" where
  "desk_wr = (\<lambda>(fs, kb, w, r) fd. if fd = 3 then Some w else None)"

definition desk_rd :: "desk \<Rightarrow> nat \<Rightarrow> string option" where
  "desk_rd = (\<lambda>(fs, kb, w, r) fd. if fd = 4 then Some r else None)"

lemma open_for_write_ne: "open_for_write \<noteq> CLEONOS_O_RDONLY"
  by (simp add: open_for_write_def CLEONOS_O_RDONLY_def CLEONOS_O_WRONLY_def CLEONOS_O_CREAT_def CLEONOS_O_TRUNC_def)

lemma desk_files: "vim_files desk_os fst desk_wr desk_rd"
  using open_for_write_ne
  by (auto simp: vim_files_def desk_os_def desk_wr_def desk_rd_def split: option.splits if_splits)

lemma desk_never_full: "never_full desk_os desk_wr"
  by (auto simp: never_full_def desk_os_def desk_wr_def split: if_splits)

lemma desk_keys: "keys_leave_files desk_os fst"
  by (auto simp: keys_leave_files_def desk_os_def)

definition desk_at :: "string \<Rightarrow> desk" where
  "desk_at kb = ([''/a'' \<mapsto> ''x''], kb, [], [])"

declare ush_vim_read_byte_blocking.simps [code] load_loop.simps [code]

text \<open>At most \<open>n\<close> rounds of the loop.\<close>

fun vim_rounds :: "'k vim_kernel \<Rightarrow> ush_state \<Rightarrow> nat \<Rightarrow> 'k \<Rightarrow> ush_vim_editor \<Rightarrow> ('k \<times> ush_vim_editor) option" where
  "vim_rounds K sh 0 k ed = Some (k, ed)"
| "vim_rounds K sh (Suc n) k ed =
     (case vim_step K sh k ed of
        None \<Rightarrow> None
      | Some (k, ed) \<Rightarrow> if ve_quit_requested ed then Some (k, ed) else vim_rounds K sh n k ed)"

lemma rounds_session:
  "vim_session K sh ls k ed \<Longrightarrow> \<not> ve_quit_requested ed \<Longrightarrow> vim_rounds K sh n k ed = Some (k', ed') \<Longrightarrow> vim_session K sh ls k' ed'"
proof (induction n arbitrary: k ed)
  case (Suc n)
  obtain k1 ed1 where s: "vim_step K sh k ed = Some (k1, ed1)" using Suc.prems(3) by (auto split: option.splits)
  have "vim_session K sh ls k1 ed1" by (rule session_step [OF Suc.prems(1,2) s])
  then show ?case using Suc s by (cases "ve_quit_requested ed1") auto
qed simp

lemma rounds_loop:
  "vim_rounds K sh n k ed = Some (k', ed') \<Longrightarrow> ve_quit_requested ed' \<Longrightarrow> \<not> ve_quit_requested ed \<Longrightarrow> vim_loop K sh k ed = Some (k', ed')"
proof (induction n arbitrary: k ed)
  case (Suc n)
  obtain k1 ed1 where s: "vim_step K sh k ed = Some (k1, ed1)" using Suc.prems(1) by (auto split: option.splits)
  have "vim_loop K sh k ed = (if ve_quit_requested ed1 then Some (k1, ed1) else vim_loop K sh k1 ed1)"
    by (subst vim_loop.simps) (simp add: s)
  then show ?case using Suc s by (cases "ve_quit_requested ed1") auto
qed simp

text \<open>The desk after typing \<open>keys\<close> in a session on the file \<open>/a\<close>.\<close>

definition desk_after :: "string \<Rightarrow> nat \<Rightarrow> (desk \<times> ush_vim_editor) option" where
  "desk_after keys n = (case vim_start desk_os ush_init_state (Some ''/a'') (desk_at keys) of
     Some (k, Inr ed) \<Rightarrow> (if ve_quit_requested ed then None else vim_rounds desk_os ush_init_state n k ed) | _ \<Rightarrow> None)"

lemma desk_after_session:
  assumes "desk_after keys n = Some (k, ed)"
  shows "\<exists>ls. vim_session desk_os ush_init_state ls k ed"
proof -
  obtain k0 ed0 where s: "vim_start desk_os ush_init_state (Some ''/a'') (desk_at keys) = Some (k0, Inr ed0)"
    "\<not> ve_quit_requested ed0" "vim_rounds desk_os ush_init_state n k0 ed0 = Some (k, ed)"
    using assms by (auto simp: desk_after_def split: option.splits sum.splits if_splits)
  show ?thesis using rounds_session [OF session_start [OF s(1)] s(2,3)] by blast
qed

text \<open>C27: in every state of a session the buffer has between 1 and 2048 lines of less than 512 bytes, the cursor
  is in the buffer and on the screen, the mode is one of the three, and command, path and status are
  shorter than their arrays.\<close>

theorem vim_session_invariant:
  assumes "vim_session K sh ls k ed"
  shows "vim_ok ed \<and> (ve_quit_requested ed \<or> cursor_visible ed)"
  using session_ok [OF assms] .

theorem vim_session_invariant_witness:
  "\<exists>ls k ed. vim_session desk_os ush_init_state ls k ed \<and> ve_lines ed = [''hi'', ''x''] \<and> vim_ok ed"
proof -
  have "map_option (\<lambda>(k, ed). ve_lines ed) (desk_after [CHR ''i'', CHR ''h'', CHR ''i'', CHR 0x0D] 4) = Some [''hi'', ''x'']" by code_simp
  then obtain k ed where d: "desk_after [CHR ''i'', CHR ''h'', CHR ''i'', CHR 0x0D] 4 = Some (k, ed)" "ve_lines ed = [''hi'', ''x'']" by auto
  obtain ls where s: "vim_session desk_os ush_init_state ls k ed" using desk_after_session [OF d(1)] by blast
  have "vim_ok ed" using vim_session_invariant [OF s] by simp
  with s d(2) show ?thesis by (intro exI [of _ ls] exI [of _ k] exI [of _ ed]) simp
qed



text \<open>C28: a text whose lines hold no line end is read back by the editor line for line after it was saved.\<close>

theorem vim_save_load:
  assumes "vim_files K file wr rd" "ed_ok ed" "\<forall>l\<in>set (ve_lines ed). CHR 0x0A \<notin> set l \<and> CHR 0x0D \<notin> set l"
    and "path_fit path" "ush_vim_save_file K k ed path = (k', ed', True)"
  shows "\<exists>k'' ed2. ush_vim_load_file K k' ed1 path = Some (k'', ed2, True) \<and> ve_lines ed2 = ve_lines ed \<and>
    \<not> ve_modified ed2 \<and> ve_file_path ed2 = path"
proof -
  have f: "file k' path = Some (text_of (ve_lines ed))" using save_file_spec [OF assms(1,4,5)] by simp
  have ne: "path \<noteq> []" using assms(5) by (auto simp: ush_vim_save_file_def)
  obtain k1 r where o: "vk_fd_open K k' path CLEONOS_O_RDONLY = (k1, r)" by fastforce
  have "case r of None \<Rightarrow> file k' path = None | Some fd \<Rightarrow> file k' path \<noteq> None \<and> rd k1 fd = file k' path"
    using assms(1) o unfolding vim_files_def by blast
  then obtain fd where r: "r = Some fd" "rd k1 fd = file k' path" using f by (cases r) auto
  obtain k2 where l: "load_loop K k1 fd ([], [], False) = Some (k2, True, fold load_char (text_of (ve_lines ed)) ([], [], False))"
    using load_loop_spec [OF assms(1), of k1 fd "text_of (ve_lines ed)" "([], [], False)"] r f by auto
  have "fold load_char (text_of (ve_lines ed)) ([], [], False) = ([] @ butlast (ve_lines ed), last (ve_lines ed), False)"
    by (rule load_text) (use assms(2,3) in \<open>auto simp: ed_ok_def buffer_ok_def plain_line_def\<close>)
  moreover have "ve_lines ed \<noteq> []" using assms(2) by (simp add: ed_ok_def buffer_ok_def)
  ultimately show ?thesis using o r l ne copy_fit [OF assms(4)]
    by (simp add: ush_vim_load_file_def Let_def ush_vim_set_status_def)
qed

theorem vim_save_load_witness:
  "\<exists>k' ed' k'' ed2. ush_vim_save_file desk_os (desk_at []) demo_ed ''/b'' = (k', ed', True) \<and>
     ush_vim_load_file desk_os k' ush_vim_init ''/b'' = Some (k'', ed2, True) \<and> ve_lines ed2 = ve_lines demo_ed"
proof -
  have s: "snd (snd (ush_vim_save_file desk_os (desk_at []) demo_ed ''/b''))" by code_simp
  then obtain k' ed' where s: "ush_vim_save_file desk_os (desk_at []) demo_ed ''/b'' = (k', ed', True)"
    by (metis prod.collapse)
  have p: "\<forall>l\<in>set (ve_lines demo_ed). CHR 0x0A \<notin> set l \<and> CHR 0x0D \<notin> set l" by code_simp
  have f: "path_fit ''/b''" by (simp add: path_fit_def USH_PATH_MAX_def)
  show ?thesis using s vim_save_load [OF desk_files demo_ed_ok p f s] by blast
qed

text \<open>The failing side: a save that runs out of space has emptied the file and leaves \<open>modified\<close> as it was.\<close>

definition full_os :: "desk vim_kernel" where
  "full_os = desk_os\<lparr>vk_fd_write := (\<lambda>k fd t. (k, None))\<rparr>"

text \<open>On a full disk \<open>:w\<close> on an unchanged text empties the file, after which \<open>:q\<close> leaves without a warning.\<close>

theorem vim_full_disk_loses_file:
  "\<exists>k ed. (case vim_start full_os ush_init_state (Some ''/a'') (desk_at ([CHR '':'', CHR ''w'', CHR 0x0D] @ [CHR '':'', CHR ''q'', CHR 0x0D])) of
        Some (k, Inr ed) \<Rightarrow> vim_loop full_os ush_init_state k ed | _ \<Rightarrow> None) = Some (k, ed)
    \<and> fst (desk_at []) ''/a'' = Some ''x'' \<and> ve_lines ed = [''x''] \<and> fst k ''/a'' = Some []"
proof -
  define keys where "keys = [CHR '':'', CHR ''w'', CHR 0x0D] @ [CHR '':'', CHR ''q'', CHR 0x0D]"
  have "(case vim_start full_os ush_init_state (Some ''/a'') (desk_at keys) of
        Some (k, Inr ed) \<Rightarrow> map_option (\<lambda>(k, ed2). (ve_quit_requested ed, ve_quit_requested ed2, ve_lines ed2, fst k ''/a''))
           (vim_rounds full_os ush_init_state 6 k ed) | _ \<Rightarrow> None) = Some (False, True, [''x''], Some [])"
    unfolding keys_def by code_simp
  then obtain k0 ed0 k ed where s: "vim_start full_os ush_init_state (Some ''/a'') (desk_at keys) = Some (k0, Inr ed0)"
    "vim_rounds full_os ush_init_state 6 k0 ed0 = Some (k, ed)" "\<not> ve_quit_requested ed0" "ve_quit_requested ed"
    "ve_lines ed = [''x'']" "fst k ''/a'' = Some []"
    by (auto split: option.splits sum.splits)
  have "vim_loop full_os ush_init_state k0 ed0 = Some (k, ed)" by (rule rounds_loop [OF s(2,4,3)])
  then show ?thesis unfolding keys_def [symmetric] using s by (intro exI [of _ k] exI [of _ ed]) (simp add: desk_at_def)
qed

section \<open>Typing\<close>

text \<open>What the kernel promises of the keyboard: \<open>inp k\<close> is what was typed and not read. A read of one byte may
  come back without one, but after some sleep it is there.\<close>

definition keyboard :: "'k vim_kernel \<Rightarrow> ('k \<Rightarrow> string) \<Rightarrow> ('k \<Rightarrow> nat) \<Rightarrow> bool" where
  "keyboard K inp wait \<longleftrightarrow> (\<forall>k c cs k' r. inp k = c # cs \<longrightarrow> vk_fd_read K k 0 1 = (k', r) \<longrightarrow>
     (r = Some [c] \<and> inp k' = cs) \<or>
     ((\<forall>d. r \<noteq> Some [d]) \<and> inp (vk_sleep_ticks K k' 1) = inp k \<and> wait (vk_sleep_ticks K k' 1) < wait k))"

lemma read_byte_typed [c_spec]:
  assumes "keyboard K inp wait" "inp k = c # cs"
  shows "\<exists>k'. ush_vim_read_byte_blocking K k = Some (k', c) \<and> inp k' = cs"
  using assms(2)
proof (induction "wait k" arbitrary: k rule: less_induct)
  case less
  obtain k1 r where g: "vk_fd_read K k 0 1 = (k1, r)" by fastforce
  consider "r = Some [c]" "inp k1 = cs" | "\<forall>d. r \<noteq> Some [d]" "inp (vk_sleep_ticks K k1 1) = c # cs" "wait (vk_sleep_ticks K k1 1) < wait k"
    using assms(1) less.prems g unfolding keyboard_def by metis
  then show ?case
  proof cases
    case 1
    then show ?thesis by (subst ush_vim_read_byte_blocking.simps) (simp add: g del: One_nat_def)
  next
    case 2
    then have "\<not> (case r of None \<Rightarrow> False | Some bytes \<Rightarrow> length bytes = 1)" by (auto simp: length_Suc_conv split: option.splits)
    then have "ush_vim_read_byte_blocking K k = ush_vim_read_byte_blocking K (vk_sleep_ticks K k1 1)"
      by (subst ush_vim_read_byte_blocking.simps) (simp add: g del: One_nat_def)
    then show ?thesis using less.hyps [OF 2(3,2)] by simp
  qed
qed

lemma read_key_typed [c_spec]:
  assumes "keyboard K inp wait" "inp k = c # cs"
  shows "\<exists>k'. ush_vim_read_key K k = Some (k',
      (if c = CHR 0x0D then USH_VIM_KEY_ENTER else if key_of c = 8 \<or> key_of c = 127 then USH_VIM_KEY_BACKSPACE
       else if 1 \<le> key_of c \<and> key_of c \<le> 7 then [USH_VIM_KEY_LEFT, USH_VIM_KEY_RIGHT, USH_VIM_KEY_UP, USH_VIM_KEY_DOWN,
         USH_VIM_KEY_HOME, USH_VIM_KEY_END, USH_VIM_KEY_DEL] ! (key_of c - 1) else key_of c)) \<and> inp k' = cs"
proof -
  obtain k' where "ush_vim_read_byte_blocking K k = Some (k', c)" "inp k' = cs" using read_byte_typed [OF assms] by blast
  moreover have "key_of c \<in> {1, 2, 3, 4, 5, 6, 7}" if "1 \<le> key_of c" "key_of c \<le> 7" using that by auto
  ultimately show ?thesis by (auto simp: ush_vim_read_key_def vim_key_defs)
qed

lemma key_codes [simp]:
  "key_of (CHR 0x1B) = 27" "key_of (CHR '':'') = 58" "key_of (CHR ''q'') = 113" "key_of (CHR ''!'') = 33" "key_of (CHR ''j'') = 106"
  "key_of (CHR ''d'') = 100" "key_of (CHR ''g'') = 103" "key_of (CHR 0x0A) = 10" "key_of (CHR 0x09) = 9" "char_of (33 :: nat) = CHR ''!''"
  "char_of (113 :: nat) = CHR ''q''" "key_of (CHR 0x0D) = 13"
  by (simp_all add: key_of_def, code_simp+)

lemma settle_modes [c_frame]:
  "ve_mode (ush_vim_ensure_cursor_visible (ush_vim_keep_cursor_valid ed)) = ve_mode ed"
  "ve_command (ush_vim_ensure_cursor_visible (ush_vim_keep_cursor_valid ed)) = ve_command ed"
  "ve_pending_dd (ush_vim_ensure_cursor_visible (ush_vim_keep_cursor_valid ed)) = ve_pending_dd ed"
  "ve_pending_gg (ush_vim_ensure_cursor_visible (ush_vim_keep_cursor_valid ed)) = ve_pending_gg ed"
  "ve_pending_jj (ush_vim_ensure_cursor_visible (ush_vim_keep_cursor_valid ed)) = ve_pending_jj ed"
  "ve_quit_requested (ush_vim_ensure_cursor_visible (ush_vim_keep_cursor_valid ed)) = ve_quit_requested ed"
  by (simp_all add: ush_vim_ensure_cursor_visible_def ush_vim_keep_cursor_valid_def Let_def)

definition settle :: "ush_vim_editor \<Rightarrow> ush_vim_editor" where
  "settle ed = (if ve_quit_requested ed then ed else ush_vim_ensure_cursor_visible (ush_vim_keep_cursor_valid ed))"

text \<open>The key for a byte that has no other meaning.\<close>

lemma step_key:
  assumes "keyboard K inp wait" "inp k = c # cs" "7 < key_of c" "key_of c \<notin> {8, 13, 127}"
  obtains k1 where "inp k1 = cs"
    "vim_step K sh k ed = map_option (\<lambda>(k, ed). (k, settle ed))
       (if ve_mode ed = USH_VIM_MODE_INSERT then ush_vim_handle_insert_mode K k1 ed (key_of c)
        else if ve_mode ed = USH_VIM_MODE_COMMAND then ush_vim_handle_command_mode K sh k1 ed (key_of c)
        else Some (k1, ush_vim_handle_normal_mode ed (key_of c)))"
proof -
  have "c \<noteq> CHR 0x0D" using assms(4) by auto
  then obtain k1 where r: "ush_vim_read_key K k = Some (k1, key_of c)" "inp k1 = cs"
    using read_key_typed [OF assms(1,2)] assms(3,4) by auto
  show thesis
    by (rule that [OF r(2)], simp only: vim_step_def r(1) option.case prod.case)
      (auto simp: settle_def split: option.split)
qed

lemma esc_step:
  assumes "keyboard K inp wait" "inp k = CHR 0x1B # cs" "\<not> ve_quit_requested ed"
  obtains k' ed' where "vim_step K sh k ed = Some (k', ed')" "inp k' = cs" "\<not> ve_quit_requested ed'"
    "ve_mode ed' \<noteq> USH_VIM_MODE_INSERT" "ve_mode ed' \<noteq> USH_VIM_MODE_COMMAND"
    "(ve_pending_dd ed', ve_pending_gg ed') = (if ve_mode ed = USH_VIM_MODE_INSERT then (False, False)
       else if ve_mode ed = USH_VIM_MODE_COMMAND then (ve_pending_dd ed, ve_pending_gg ed)
       else (False, ve_pending_dd ed \<and> ve_pending_gg ed))"
proof -
  obtain k1 where s: "inp k1 = cs" "vim_step K sh k ed = map_option (\<lambda>(k, ed). (k, settle ed))
       (if ve_mode ed = USH_VIM_MODE_INSERT then ush_vim_handle_insert_mode K k1 ed 27
        else if ve_mode ed = USH_VIM_MODE_COMMAND then ush_vim_handle_command_mode K sh k1 ed 27
        else Some (k1, ush_vim_handle_normal_mode ed 27))" by (rule step_key [OF assms(1,2), where ed = ed and sh = sh]) auto
  define ed1 where "ed1 = (if ve_mode ed = USH_VIM_MODE_INSERT then ush_vim_set_status ''-- NORMAL --''
             (ed\<lparr>ve_mode := USH_VIM_MODE_NORMAL, ve_pending_dd := False, ve_pending_gg := False, ve_pending_jj := False\<rparr>)
        else if ve_mode ed = USH_VIM_MODE_COMMAND then ed\<lparr>ve_mode := USH_VIM_MODE_NORMAL, ve_command := []\<rparr>
        else if ve_pending_dd ed then ed\<lparr>ve_pending_dd := False\<rparr> else if ve_pending_gg ed then ed\<lparr>ve_pending_gg := False\<rparr> else ed)"
  have e: "vim_step K sh k ed = Some (k1, settle ed1)"
    unfolding s(2) ed1_def
    by (simp add: ush_vim_handle_insert_mode_def ush_vim_handle_command_mode_def ush_vim_handle_normal_mode_def vim_key_defs key_of_def)
  show thesis
    by (rule that [OF e s(1)]) (use assms(3) in \<open>auto simp: ed1_def settle_def c_frame ush_vim_set_status_def USH_VIM_MODE_NORMAL_def
      USH_VIM_MODE_INSERT_def USH_VIM_MODE_COMMAND_def\<close>)
qed

lemma command_char:
  assumes "keyboard K inp wait" "inp k = c # cs" "32 \<le> key_of c" "key_of c < 127" "ve_mode ed = USH_VIM_MODE_COMMAND"
    "length (ve_command ed) + 1 < USH_VIM_CMD_MAX" "\<not> ve_quit_requested ed"
  obtains k' ed' where "vim_step K sh k ed = Some (k', ed')" "inp k' = cs" "\<not> ve_quit_requested ed'"
    "ve_mode ed' = USH_VIM_MODE_COMMAND" "ve_command ed' = ve_command ed @ [c]"
proof -
  obtain k1 where s: "inp k1 = cs" "vim_step K sh k ed = map_option (\<lambda>(k, ed). (k, settle ed))
       (if ve_mode ed = USH_VIM_MODE_INSERT then ush_vim_handle_insert_mode K k1 ed (key_of c)
        else if ve_mode ed = USH_VIM_MODE_COMMAND then ush_vim_handle_command_mode K sh k1 ed (key_of c)
        else Some (k1, ush_vim_handle_normal_mode ed (key_of c)))"
    by (rule step_key [OF assms(1,2), where ed = ed and sh = sh]) (use assms(3,4) in auto)
  have "char_of (key_of c) = c" by (simp add: key_of_def)
  then have "vim_step K sh k ed = Some (k1, settle (ed\<lparr>ve_command := ve_command ed @ [c]\<rparr>))"
    unfolding s(2) using assms(3-6)
    by (simp add: ush_vim_handle_command_mode_def vim_key_defs USH_VIM_MODE_COMMAND_def USH_VIM_MODE_INSERT_def)
  then show thesis using that s(1) assms(5,7) by (simp add: settle_def c_frame)
qed

text \<open>C30: from every state of the editor the keys ESC ESC ESC \<open>:q!\<close> ENTER end the program, however slow the keyboard
  is.\<close>

theorem vim_quits:
  assumes "keyboard K inp wait" "inp k = replicate 3 (CHR 0x1B) @ '':q!'' @ CHR 0x0D # rest" "\<not> ve_quit_requested ed"
  shows "\<exists>k' ed'. vim_loop K sh k ed = Some (k', ed') \<and> inp k' = rest"
proof -
  have i: "inp k = CHR 0x1B # CHR 0x1B # CHR 0x1B # CHR '':'' # CHR ''q'' # CHR ''!'' # CHR 0x0D # rest"
    using assms(2) by (simp add: numeral_3_eq_3)
  note e = esc_step [OF assms(1), where sh = sh]
  obtain k1 ed1 where 1: "vim_step K sh k ed = Some (k1, ed1)" "inp k1 = CHR 0x1B # CHR 0x1B # CHR '':'' # CHR ''q'' # CHR ''!'' # CHR 0x0D # rest"
    "\<not> ve_quit_requested ed1" "ve_mode ed1 \<noteq> USH_VIM_MODE_INSERT" "ve_mode ed1 \<noteq> USH_VIM_MODE_COMMAND" by (rule e [OF i assms(3)])
  obtain k2 ed2 where 2: "vim_step K sh k1 ed1 = Some (k2, ed2)" "inp k2 = CHR 0x1B # CHR '':'' # CHR ''q'' # CHR ''!'' # CHR 0x0D # rest"
    "\<not> ve_quit_requested ed2" "ve_mode ed2 \<noteq> USH_VIM_MODE_INSERT" "ve_mode ed2 \<noteq> USH_VIM_MODE_COMMAND" "\<not> ve_pending_dd ed2"
    by (rule e [OF 1(2,3)]) (use 1(4,5) in auto)
  obtain k3 ed3 where 3: "vim_step K sh k2 ed2 = Some (k3, ed3)" "inp k3 = CHR '':'' # CHR ''q'' # CHR ''!'' # CHR 0x0D # rest"
    "\<not> ve_quit_requested ed3" "ve_mode ed3 \<noteq> USH_VIM_MODE_INSERT" "ve_mode ed3 \<noteq> USH_VIM_MODE_COMMAND" "\<not> ve_pending_dd ed3" "\<not> ve_pending_gg ed3"
    by (rule e [OF 2(2,3)]) (use 2(4-6) in auto)
  obtain k4 where s4: "inp k4 = CHR ''q'' # CHR ''!'' # CHR 0x0D # rest" "vim_step K sh k3 ed3 = map_option (\<lambda>(k, ed). (k, settle ed))
       (if ve_mode ed3 = USH_VIM_MODE_INSERT then ush_vim_handle_insert_mode K k4 ed3 (key_of (CHR '':''))
        else if ve_mode ed3 = USH_VIM_MODE_COMMAND then ush_vim_handle_command_mode K sh k4 ed3 (key_of (CHR '':''))
        else Some (k4, ush_vim_handle_normal_mode ed3 (key_of (CHR '':''))))"
    by (rule step_key [OF assms(1) 3(2), where ed = ed3 and sh = sh]) auto
  define ed4 where "ed4 = settle (ed3\<lparr>ve_mode := USH_VIM_MODE_COMMAND, ve_command := []\<rparr>)"
  have 4: "vim_step K sh k3 ed3 = Some (k4, ed4)" "\<not> ve_quit_requested ed4" "ve_mode ed4 = USH_VIM_MODE_COMMAND" "ve_command ed4 = []"
  proof -
    have "ush_vim_handle_normal_mode ed3 58 = ed3\<lparr>ve_mode := USH_VIM_MODE_COMMAND, ve_command := []\<rparr>"
      using 3(6,7) by (simp add: ush_vim_handle_normal_mode_def vim_key_defs key_of_def)
    then show "vim_step K sh k3 ed3 = Some (k4, ed4)" unfolding s4(2) using 3(4,5) by (simp add: ed4_def)
  qed (use 3(3) in \<open>simp_all add: ed4_def settle_def c_frame\<close>)
  obtain k5 ed5 where 5: "vim_step K sh k4 ed4 = Some (k5, ed5)" "inp k5 = CHR ''!'' # CHR 0x0D # rest" "\<not> ve_quit_requested ed5"
    "ve_mode ed5 = USH_VIM_MODE_COMMAND" "ve_command ed5 = ve_command ed4 @ ''q''"
    by (rule command_char [OF assms(1) s4(1) _ _ 4(3) _ 4(2), where sh = sh]) (auto simp: 4(4) USH_VIM_CMD_MAX_def)
  obtain k6 ed6 where 6: "vim_step K sh k5 ed5 = Some (k6, ed6)" "inp k6 = CHR 0x0D # rest" "\<not> ve_quit_requested ed6"
    "ve_mode ed6 = USH_VIM_MODE_COMMAND" "ve_command ed6 = ve_command ed5 @ ''!''"
    by (rule command_char [OF assms(1) 5(2) _ _ 5(4) _ 5(3), where sh = sh]) (auto simp: 4(4) 5(5) USH_VIM_CMD_MAX_def)
  have "command_text ed6 = ''q!''" unfolding command_text_def 6(5) 5(5) 4(4) by code_simp
  then have r: "ush_vim_run_command K sh k' ed6 = (k', ed6\<lparr>ve_quit_requested := True\<rparr>, True)" for k'
    by (simp add: ush_vim_run_command_def)
  obtain k7 where 7: "ush_vim_read_key K k6 = Some (k7, USH_VIM_KEY_ENTER)" "inp k7 = rest" using read_key_typed [OF assms(1) 6(2)] by auto
  have "vim_step K sh k6 ed6 = Some (k7, ed6\<lparr>ve_quit_requested := True, ve_mode := USH_VIM_MODE_NORMAL, ve_command := []\<rparr>)"
    using 6(4) by (simp add: vim_step_def 7 r ush_vim_handle_command_mode_def vim_key_defs USH_VIM_MODE_INSERT_def USH_VIM_MODE_COMMAND_def)
  then have "vim_rounds K sh 7 k ed = Some (k7, ed6\<lparr>ve_quit_requested := True, ve_mode := USH_VIM_MODE_NORMAL, ve_command := []\<rparr>)"
    using 1(1,3) 2(1,3) 3(1,3) 4(1,2) 5(1,3) 6(1,3) by (simp add: eval_nat_numeral)
  from rounds_loop [OF this _ assms(3)] show ?thesis using 7(2) by auto
qed

lemma desk_keyboard: "keyboard desk_os (fst \<circ> snd) (\<lambda>_. 0)"
  by (auto simp: keyboard_def desk_os_def)

theorem vim_quits_witness:
  "\<exists>k' ed'. vim_loop desk_os ush_init_state (desk_at (replicate 3 (CHR 0x1B) @ '':q!'' @ [CHR 0x0D])) demo_ed = Some (k', ed')"
proof -
  have "(fst \<circ> snd) (desk_at (replicate 3 (CHR 0x1B) @ '':q!'' @ [CHR 0x0D])) = replicate 3 (CHR 0x1B) @ '':q!'' @ CHR 0x0D # []"
    by (simp add: desk_at_def)
  moreover have "\<not> ve_quit_requested demo_ed" by code_simp
  ultimately show ?thesis using vim_quits [OF desk_keyboard] by blast
qed

section \<open>Insert mode\<close>

text \<open>The text before the cursor with the \<open>j\<close> that waits for a second one.\<close>

definition typed :: "ush_vim_editor \<Rightarrow> string" where
  "typed ed = fst (gap ed) @ (if ve_pending_jj ed then ''j'' else [])"

definition at_char :: "ush_vim_editor \<Rightarrow> bool" where
  "at_char ed \<longleftrightarrow> (case snd (gap ed) of [] \<Rightarrow> True | c # _ \<Rightarrow> \<not> ush_vim_utf8_is_cont c)"

definition typing :: "ush_vim_editor \<Rightarrow> nat \<Rightarrow> bool" where
  "typing ed room \<longleftrightarrow> ed_ok ed \<and> at_char ed \<and> ve_mode ed = USH_VIM_MODE_INSERT \<and> \<not> ve_quit_requested ed \<and>
     length (cur_line ed) + (if ve_pending_jj ed then 1 else 0) + room < USH_VIM_MAX_LINE_LEN"

lemma ensure_form: "\<exists>n. ush_vim_ensure_cursor_visible ed = ed\<lparr>ve_scroll_top := n\<rparr>"
  by (auto simp: ush_vim_ensure_cursor_visible_def intro: exI [of _ "ve_scroll_top ed"])

lemma settle_typing:
  assumes "typing ed room"
  shows "typing (settle ed) room" "gap (settle ed) = gap ed" "ve_pending_jj (settle ed) = ve_pending_jj ed"
proof -
  obtain us l r ds where e: "ve_lines ed = us @ (l @ r) # ds" "ve_cursor_line ed = length us" "ve_cursor_col ed = length l"
    "cur_line ed = l @ r" "gap ed = (concat (map (\<lambda>l. l @ [CHR 0x0A]) us) @ l, r @ concat (map (\<lambda>l. CHR 0x0A # l) ds))"
    using ed_split assms by (metis typing_def)
  have "back_over_cont (l @ r) (length l) = length l" if "r \<noteq> []"
  proof (cases "length l")
    case (Suc n)
    have "\<not> ush_vim_utf8_is_cont (hd r)" using assms e(5) that by (cases r) (auto simp: typing_def at_char_def)
    then have "\<not> ush_vim_utf8_is_cont ((l @ r) ! length l)" using that by (simp add: nth_append hd_conv_nth)
    then show ?thesis unfolding Suc by simp
  qed simp
  then have "ush_vim_keep_cursor_valid ed = ed" using e by (simp add: ush_vim_keep_cursor_valid_def Let_def)
  moreover obtain n where "ush_vim_ensure_cursor_visible ed = ed\<lparr>ve_scroll_top := n\<rparr>" using ensure_form by blast
  ultimately have s: "settle ed = ed\<lparr>ve_scroll_top := n\<rparr>" using assms by (simp add: settle_def typing_def)
  show "typing (settle ed) room" "gap (settle ed) = gap ed" "ve_pending_jj (settle ed) = ve_pending_jj ed"
    unfolding s using assms by (simp_all add: typing_def at_char_def gap_def cur_line_def ed_ok_def)
qed

lemma insert_typed:
  assumes "typing ed room" "length (cur_line ed) + 1 < USH_VIM_MAX_LINE_LEN" "32 \<le> key_of c"
  obtains ed' where "ush_vim_insert_bytes ed [c] = (ed', True)" "gap ed' = (fst (gap ed) @ [c], snd (gap ed))" "ed_ok ed'" "at_char ed'"
    "ve_mode ed' = ve_mode ed" "ve_quit_requested ed' = ve_quit_requested ed" "ve_pending_jj ed' = ve_pending_jj ed"
    "length (cur_line ed') = Suc (length (cur_line ed))"
proof -
  have "uchar c = int (key_of c)" by (simp add: uchar_def key_of_def of_nat_of_char)
  then have c: "\<not> (uchar c < 0x20 \<or> c = CHR 0x0A \<or> c = CHR 0x0D)" using assms(3) by auto
  define ed' where "ed' = (set_line (take (ve_cursor_col ed) (cur_line ed) @ [c] @ drop (ve_cursor_col ed) (cur_line ed)) ed)
    \<lparr>ve_cursor_col := ve_cursor_col ed + length [c], ve_modified := True\<rparr>"
  have i: "ush_vim_insert_bytes ed [c] = (ed', True)"
    using assms(2) c by (simp add: ush_vim_insert_bytes_def ed'_def Let_def)
  have ok: "ed_ok ed" using assms(1) by (simp add: typing_def)
  have s: "gap ed' = (fst (gap ed) @ [c], snd (gap ed))" "ed_ok ed'" using insert_bytes_spec [OF ok i] by simp_all
  have "at_char ed'" using assms(1) s(1) by (simp add: typing_def at_char_def)
  moreover have "length (cur_line ed') = Suc (length (cur_line ed))"
    using ok by (simp add: ed'_def set_line_def cur_line_def ed_ok_def)
  ultimately show thesis by (intro that [OF i s]) (simp_all add: ed'_def set_line_def)
qed

lemma pending_update:
  "gap (ed\<lparr>ve_pending_jj := b\<rparr>) = gap ed" "ed_ok (ed\<lparr>ve_pending_jj := b\<rparr>) = ed_ok ed" "cur_line (ed\<lparr>ve_pending_jj := b\<rparr>) = cur_line ed"
  "at_char (ed\<lparr>ve_pending_jj := b\<rparr>) = at_char ed"
  by (simp_all add: gap_def cur_line_def ed_ok_def at_char_def)

lemma flush_typed:
  assumes "typing ed (Suc room)"
  defines "ed1 \<equiv> (if ve_pending_jj ed then (fst (ush_vim_insert_char ed (CHR ''j'')))\<lparr>ve_pending_jj := False\<rparr> else ed)"
  shows "typing ed1 (Suc room)" "gap ed1 = (typed ed, snd (gap ed))" "\<not> ve_pending_jj ed1"
proof -
  have "typing ed1 (Suc room) \<and> gap ed1 = (typed ed, snd (gap ed)) \<and> \<not> ve_pending_jj ed1"
  proof (cases "ve_pending_jj ed")
    case True
    have "length (cur_line ed) + 1 < USH_VIM_MAX_LINE_LEN" using assms(1) True by (simp add: typing_def)
    then obtain ed' where "ush_vim_insert_bytes ed [CHR ''j''] = (ed', True)" "gap ed' = (fst (gap ed) @ [CHR ''j''], snd (gap ed))" "ed_ok ed'" "at_char ed'"
      "ve_mode ed' = ve_mode ed" "ve_quit_requested ed' = ve_quit_requested ed" "length (cur_line ed') = Suc (length (cur_line ed))"
      by (rule insert_typed [OF assms(1), of "CHR ''j''"]) auto
    then show ?thesis using assms(1) True by (simp add: ed1_def typing_def typed_def ush_vim_insert_char_def pending_update)
  next
    case False
    then show ?thesis using assms(1) by (simp add: ed1_def typed_def)
  qed
  then show "typing ed1 (Suc room)" "gap ed1 = (typed ed, snd (gap ed))" "\<not> ve_pending_jj ed1" by simp_all
qed

lemma type_step:
  assumes "keyboard K inp wait" "inp k = c # cs" "typing ed (Suc room)" "32 \<le> key_of c" "key_of c < 127" "\<not> (ve_pending_jj ed \<and> c = CHR ''j'')"
  obtains k' ed' where "vim_step K sh k ed = Some (k', ed')" "inp k' = cs" "typing ed' room" "typed ed' = typed ed @ [c]"
    "snd (gap ed') = snd (gap ed)" "ve_pending_jj ed' = (c = CHR ''j'')"
proof -
  have j: "key_of c = 106 \<longleftrightarrow> c = CHR ''j''"
    using key_codes(5) by (metis key_of_def of_char_eq_iff)
  obtain k1 where s: "inp k1 = cs" "vim_step K sh k ed = map_option (\<lambda>(k, ed). (k, settle ed))
       (if ve_mode ed = USH_VIM_MODE_INSERT then ush_vim_handle_insert_mode K k1 ed (key_of c)
        else if ve_mode ed = USH_VIM_MODE_COMMAND then ush_vim_handle_command_mode K sh k1 ed (key_of c)
        else Some (k1, ush_vim_handle_normal_mode ed (key_of c)))"
    by (rule step_key [OF assms(1,2), where ed = ed and sh = sh]) (use assms(4,5) in auto)
  have m: "ve_mode ed = USH_VIM_MODE_INSERT" using assms(3) by (simp add: typing_def)
  define ed1 where "ed1 = (if ve_pending_jj ed then (fst (ush_vim_insert_char ed (CHR ''j'')))\<lparr>ve_pending_jj := False\<rparr> else ed)"
  have t: "typing ed1 (Suc room)" "gap ed1 = (typed ed, snd (gap ed))" "\<not> ve_pending_jj ed1"
    using flush_typed [OF assms(3)] by (simp_all add: ed1_def)
  obtain ed2 where h: "ush_vim_handle_insert_mode K k1 ed (key_of c) = Some (k1, ed2)" "typing ed2 room" "typed ed2 = typed ed @ [c]"
    "snd (gap ed2) = snd (gap ed)" "ve_pending_jj ed2 = (c = CHR ''j'')"
  proof (cases "c = CHR ''j''")
    case True
    have p: "\<not> ve_pending_jj ed" using assms(6) True by simp
    then have "ush_vim_handle_insert_mode K k1 ed (key_of c) = Some (k1, ed1\<lparr>ve_pending_jj := True\<rparr>)"
      by (simp add: ush_vim_handle_insert_mode_def ed1_def True vim_key_defs)
    moreover have "typing (ed1\<lparr>ve_pending_jj := True\<rparr>) room" using t(1,3) by (simp add: typing_def pending_update)
    ultimately show thesis using that t(2) True by (simp add: typed_def pending_update)
  next
    case False
    have "length (cur_line ed1) + 1 < USH_VIM_MAX_LINE_LEN" using t(1) by (auto simp: typing_def)
    then obtain ed2 where i: "ush_vim_insert_bytes ed1 [c] = (ed2, True)" "gap ed2 = (fst (gap ed1) @ [c], snd (gap ed1))" "ed_ok ed2" "at_char ed2"
      "ve_mode ed2 = ve_mode ed1" "ve_quit_requested ed2 = ve_quit_requested ed1" "ve_pending_jj ed2 = ve_pending_jj ed1"
      "length (cur_line ed2) = Suc (length (cur_line ed1))"
      by (rule insert_typed [OF t(1) _ assms(4)])
    have b: "char_of (key_of c) = c" by (simp add: key_of_def)
    have "insert_key K k1 ed1 (key_of c) = Some (k1, ed2)"
      using assms(4,5) by (simp add: insert_key_def vim_key_defs b i(1))
    then have "ush_vim_handle_insert_mode K k1 ed (key_of c) = Some (k1, ed2)"
      using assms(4) False j by (simp add: ush_vim_handle_insert_mode_def Let_def ed1_def [symmetric] vim_key_defs)
    moreover have "typing ed2 room" using i t(1,3) by (simp add: typing_def)
    ultimately show thesis using that i t(2,3) False by (simp add: typed_def)
  qed
  have e: "vim_step K sh k ed = Some (k1, settle ed2)" unfolding s(2) by (simp add: m h(1))
  show thesis by (rule that [OF e s(1)]) (use settle_typing [OF h(2)] h(3-5) in \<open>simp_all add: typed_def\<close>)
qed

definition no_jj :: "string \<Rightarrow> bool" where
  "no_jj = (\<lambda>s. \<forall>i. Suc i < length s \<longrightarrow> \<not> (s ! i = CHR ''j'' \<and> s ! Suc i = CHR ''j''))"

text \<open>C29: printable text typed in insert mode goes in front of the cursor, as long as it has no two \<open>j\<close> in a row
  and the line has room for it; the text behind the cursor stays.\<close>

theorem vim_types_text:
  assumes "keyboard K inp wait" "inp k = s @ rest" "\<forall>c\<in>set s. 32 \<le> key_of c \<and> key_of c < 127"
    and "no_jj ((if ve_pending_jj ed then ''j'' else []) @ s)" "typing ed (length s)"
  shows "\<exists>k' ed'. vim_rounds K sh (length s) k ed = Some (k', ed') \<and> inp k' = rest \<and> typed ed' = typed ed @ s \<and>
    snd (gap ed') = snd (gap ed) \<and> ve_mode ed' = USH_VIM_MODE_INSERT"
  using assms(2-5)
proof (induction s arbitrary: k ed)
  case Nil
  then show ?case by (simp add: typing_def)
next
  case (Cons c s)
  have nj: "\<not> (ve_pending_jj ed \<and> c = CHR ''j'')" using Cons.prems(3) by (auto simp: no_jj_def)
  have nj2: "no_jj (c # s)"
    using Cons.prems(3) unfolding no_jj_def by (cases "ve_pending_jj ed") (auto dest: spec [of _ "Suc _"])
  obtain k1 ed1 where s: "vim_step K sh k ed = Some (k1, ed1)" "inp k1 = s @ rest" "typing ed1 (length s)" "typed ed1 = typed ed @ [c]"
    "snd (gap ed1) = snd (gap ed)" "ve_pending_jj ed1 = (c = CHR ''j'')"
    by (rule type_step [OF assms(1), of k c "s @ rest" ed "length s" sh]) (use Cons.prems nj in auto)
  have "no_jj ((if ve_pending_jj ed1 then ''j'' else []) @ s)"
  proof (cases "c = CHR ''j''")
    case True
    then show ?thesis using nj2 s(6) by simp
  next
    case False
    then show ?thesis using nj2 s(6) unfolding no_jj_def by (auto dest: spec [of _ "Suc _"])
  qed
  from Cons.IH [OF s(2) _ this s(3)] Cons.prems(2)
  obtain k' ed' where "vim_rounds K sh (length s) k1 ed1 = Some (k', ed')" "inp k' = rest" "typed ed' = typed ed1 @ s"
    "snd (gap ed') = snd (gap ed1)" "ve_mode ed' = USH_VIM_MODE_INSERT" by auto
  moreover have "\<not> ve_quit_requested ed1" using s(3) by (simp add: typing_def)
  ultimately show ?case using s by auto
qed

theorem vim_types_text_witness:
  "\<exists>k' ed'. vim_rounds desk_os ush_init_state 4 (desk_at ''jazz'') (demo_ed\<lparr>ve_mode := 1\<rparr>) = Some (k', ed') \<and>
     typed ed' = typed demo_ed @ ''jazz'' \<and> snd (gap ed') = snd (gap demo_ed)"
proof -
  define ed where "ed = demo_ed\<lparr>ve_mode := 1\<rparr>"
  have g: "gap ed = gap demo_ed" "ve_pending_jj ed = ve_pending_jj demo_ed" by (simp_all add: ed_def gap_def cur_line_def)
  have i: "(fst \<circ> snd) (desk_at ''jazz'') = ''jazz'' @ []" by (simp add: desk_at_def)
  have c: "\<forall>c\<in>set ''jazz''. 32 \<le> key_of c \<and> key_of c < 127" by code_simp
  have j: "no_jj ((if ve_pending_jj ed then ''j'' else []) @ ''jazz'')"
  proof -
    have "\<not> ve_pending_jj ed" unfolding ed_def by code_simp
    then show ?thesis by (auto simp: no_jj_def less_Suc_eq nth_Cons split: nat.splits)
  qed
  have "at_char ed" "length (cur_line ed) = 3" "\<not> ve_pending_jj ed" "ve_mode ed = 1" "\<not> ve_quit_requested ed"
    unfolding ed_def by (code_simp, code_simp, code_simp, code_simp, code_simp)
  then have t: "typing ed (length ''jazz'')"
    using demo_ed_ok by (simp add: typing_def USH_VIM_MODE_INSERT_def USH_VIM_MAX_LINE_LEN_def) (simp add: ed_def ed_ok_def cur_line_def)
  have e: "length ''jazz'' = 4" "typed ed = typed demo_ed" by (simp_all add: typed_def g)
  from vim_types_text [OF desk_keyboard i c j t, of ush_init_state] show ?thesis
    unfolding ed_def [symmetric] e g(1) by blast
qed

lemma uchar_char_of_nat: "n < 256 \<Longrightarrow> uchar (char_of (n :: nat)) = int n"
proof -
  assume "n < 256"
  moreover have "uchar (char_of n) = int (of_char (char_of n :: char))" by (simp only: uchar_def of_nat_of_char)
  ultimately show ?thesis by simp
qed

lemma collect_two:
  fixes key :: nat
  assumes "keyboard K inp wait" "inp k = c # cs" "0xC2 \<le> key" "key \<le> 0xDF"
  shows "\<exists>k'. ush_vim_collect_utf8 K k key 4 = Some (k', [char_of key, c]) \<and> inp k' = cs"
proof -
  have u: "uchar (char_of key) = int key" using assms(4) by (simp add: uchar_char_of_nat)
  obtain k' where r: "ush_vim_read_byte_blocking K k = Some (k', c)" "inp k' = cs" using read_byte_typed [OF assms(1,2)] by blast
  have "ush_vim_utf8_len_from_lead (char_of key) = 2" using assms(3,4) u by (simp add: ush_vim_utf8_len_from_lead_def)
  then show ?thesis using r by (simp add: ush_vim_collect_utf8_def numeral_2_eq_2)
qed

lemma insert_two:
  fixes key :: nat
  assumes "typing ed (Suc (Suc room))" "0xC2 \<le> key" "key \<le> 0xDF"
  obtains ed' where "ush_vim_insert_bytes ed [char_of key, c] = (ed', True)" "gap ed' = (fst (gap ed) @ [char_of key, c], snd (gap ed))"
    "ve_mode ed' = ve_mode ed"
proof -
  have u: "uchar (char_of key) = int key" using assms(3) by (simp add: uchar_char_of_nat)
  moreover have "uchar (CHR 0x0A) = 10" "uchar (CHR 0x0D) = 13" by (simp_all add: uchar_def)
  ultimately have n: "char_of key \<noteq> CHR 0x0A" "char_of key \<noteq> CHR 0x0D" using assms(2) by auto
  have len: "length (cur_line ed) + 2 < USH_VIM_MAX_LINE_LEN" using assms(1) by (auto simp: typing_def)
  define ed' where "ed' = (set_line (take (ve_cursor_col ed) (cur_line ed) @ [char_of key, c] @ drop (ve_cursor_col ed) (cur_line ed)) ed)
    \<lparr>ve_cursor_col := ve_cursor_col ed + length [char_of key, c], ve_modified := True\<rparr>"
  have i: "ush_vim_insert_bytes ed [char_of key, c] = (ed', True)"
    using len u n assms(2) by (simp add: ush_vim_insert_bytes_def ed'_def Let_def)
  have ok: "ed_ok ed" using assms(1) by (simp add: typing_def)
  show thesis by (rule that [OF i]) (use insert_bytes_spec [OF ok i] in \<open>simp_all add: ed'_def set_line_def\<close>)
qed

text \<open>C31: a \<open>j\<close> typed last before ESC is not in the text: the editor drops the pending \<open>j\<close>. And a byte that
  starts a UTF-8 character of two bytes takes the next byte with it, whatever that is, so that an ENTER or ESC
  becomes part of the line.\<close>

theorem vim_insert_losses:
  assumes "keyboard K inp wait" "inp k = c # cs" "typing ed (Suc (Suc room))" "0xC2 \<le> key" "key \<le> 0xDF"
  shows "(\<exists>ed'. ush_vim_handle_insert_mode K k (ed\<lparr>ve_pending_jj := True\<rparr>) USH_VIM_KEY_ESC = Some (k, ed') \<and> gap ed' = gap ed) \<and>
    (\<exists>k' ed'. ush_vim_handle_insert_mode K k ed key = Some (k', ed') \<and> inp k' = cs \<and>
      fst (gap ed') = typed ed @ [char_of key, c] \<and> ve_mode ed' = USH_VIM_MODE_INSERT)"
proof
  show "\<exists>ed'. ush_vim_handle_insert_mode K k (ed\<lparr>ve_pending_jj := True\<rparr>) USH_VIM_KEY_ESC = Some (k, ed') \<and> gap ed' = gap ed"
    by (simp add: ush_vim_handle_insert_mode_def ush_vim_set_status_def gap_def cur_line_def)
  define ed1 where "ed1 = (if ve_pending_jj ed then (fst (ush_vim_insert_char ed (CHR ''j'')))\<lparr>ve_pending_jj := False\<rparr> else ed)"
  have t: "typing ed1 (Suc (Suc room))" "gap ed1 = (typed ed, snd (gap ed))"
    using flush_typed [OF assms(3)] by (simp_all add: ed1_def)
  obtain k' where k': "ush_vim_collect_utf8 K k key 4 = Some (k', [char_of key, c])" "inp k' = cs" using collect_two [OF assms(1,2,4,5)] by blast
  obtain ed' where i: "ush_vim_insert_bytes ed1 [char_of key, c] = (ed', True)" "gap ed' = (fst (gap ed1) @ [char_of key, c], snd (gap ed1))"
    "ve_mode ed' = ve_mode ed1" by (rule insert_two [OF t(1) assms(4,5)])
  have "ush_vim_handle_insert_mode K k ed key = Some (k', ed')"
    using assms(4,5) i(1) k'(1) by (simp add: ush_vim_handle_insert_mode_def Let_def ed1_def [symmetric] vim_key_defs insert_key_def)
  then show "\<exists>k' ed'. ush_vim_handle_insert_mode K k ed key = Some (k', ed') \<and> inp k' = cs \<and>
      fst (gap ed') = typed ed @ [char_of key, c] \<and> ve_mode ed' = USH_VIM_MODE_INSERT"
    using i t k'(2) by (simp add: typing_def)
qed

theorem vim_insert_losses_witness:
  "\<exists>k' ed'. ush_vim_handle_insert_mode desk_os (desk_at [CHR 0x0A]) (demo_ed\<lparr>ve_mode := 1\<rparr>) 0xC3 = Some (k', ed') \<and>
     fst (gap ed') = typed (demo_ed\<lparr>ve_mode := 1\<rparr>) @ [CHR 0xC3, CHR 0x0A]"
proof -
  define ed where "ed = demo_ed\<lparr>ve_mode := 1\<rparr>"
  have "at_char ed" "length (cur_line ed) = 3" "\<not> ve_pending_jj ed" "ve_mode ed = 1" "\<not> ve_quit_requested ed"
    unfolding ed_def by (code_simp, code_simp, code_simp, code_simp, code_simp)
  then have t: "typing ed (Suc (Suc 0))"
    using demo_ed_ok by (simp add: typing_def USH_VIM_MODE_INSERT_def USH_VIM_MAX_LINE_LEN_def) (simp add: ed_def ed_ok_def cur_line_def)
  have i: "(fst \<circ> snd) (desk_at [CHR 0x0A]) = CHR 0x0A # []" by (simp add: desk_at_def)
  have c: "char_of (0xC3 :: nat) = CHR 0xC3" by code_simp
  show ?thesis unfolding ed_def [symmetric] using vim_insert_losses [OF desk_keyboard i t, where key = "0xC3"] unfolding c by auto
qed

end
