(* ===== verification/TermScreen.thy ===== *)
theory TermScreen
  imports UshText
begin

text \<open>
  The screen of the terminal program (\<open>apps/terminal/terminal.c\<close>): a grid of 128 rows of 160 cells, a cursor, the
  drawing style and the parser of ANSI escape sequences. An array is a function of its index, so that a write
  outside of the array would show (\<open>same_outside\<close>). Reading or writing in rows and columns
  below the bounds is what the invariant \<open>term_ok\<close> guarantees.
\<close>

section \<open>Definitions\<close>

definition TERM_LINES :: nat where "TERM_LINES = 128"
definition TERM_LINE_MAX :: nat where "TERM_LINE_MAX = 160"
definition TERM_ANSI_MAX :: nat where "TERM_ANSI_MAX = 95"
definition TERM_STYLE_NONE :: nat where "TERM_STYLE_NONE = 0"
definition TERM_STYLE_BOLD :: nat where "TERM_STYLE_BOLD = 1"
definition TERM_STYLE_UNDERLINE :: nat where "TERM_STYLE_UNDERLINE = 2"
definition TERM_COLOR_BG :: u32 where "TERM_COLOR_BG = 0x000C0C0C"
definition TERM_COLOR_DEFAULT :: u32 where "TERM_COLOR_DEFAULT = 0x00DCDCDC"

lemmas term_sizes = TERM_LINES_def TERM_LINE_MAX_def TERM_ANSI_MAX_def

record term_screen =
  ta_lines :: "nat \<Rightarrow> nat \<Rightarrow> char"
  ta_cell_fg :: "nat \<Rightarrow> nat \<Rightarrow> u32"
  ta_cell_bg :: "nat \<Rightarrow> nat \<Rightarrow> u32"
  ta_cell_style :: "nat \<Rightarrow> nat \<Rightarrow> nat"
  ta_line_count :: nat
  ta_cursor_row :: nat
  ta_cursor_col :: nat
  ta_saved_row :: nat
  ta_saved_col :: nat
  ta_current_fg :: u32
  ta_current_bg :: u32
  ta_current_style :: nat
  ta_ansi_bold :: bool
  ta_ansi_underline :: bool
  ta_ansi_inverse :: bool
  ta_ansi_state :: nat
  ta_ansi_buf :: string

subsection \<open>Colours and style\<close>

definition ansi_colours :: "u32 list" where
  "ansi_colours = [0x00000000, 0x00CD3131, 0x000DBC79, 0x00E5E510, 0x002472C8, 0x00BC3FBC,
     0x0011A8CD, 0x00E5E5E5, 0x00666666, 0x00F14C4C, 0x0023D18B, 0x00F5F543,
     0x003B8EEA, 0x00D670D6, 0x0029B8DB, 0x00FFFFFF]"

definition term_ansi_palette :: "nat \<Rightarrow> u32" where
  "term_ansi_palette index = (if index < 16 then ansi_colours ! index else TERM_COLOR_DEFAULT)"

definition term_ansi_clamp_255 :: "nat \<Rightarrow> u32" where
  "term_ansi_clamp_255 value = (if 255 < value then 255 else of_nat value)"

definition rgb :: "u32 \<Rightarrow> u32 \<Rightarrow> u32 \<Rightarrow> u32" where
  "rgb r g b = (push_bit 16 r OR push_bit 8 g OR b)"

definition colour_steps :: "u32 list" where
  "colour_steps = [0, 95, 135, 175, 215, 255]"

definition term_ansi_color_from_256 :: "nat \<Rightarrow> u32" where
  "term_ansi_color_from_256 index =
     (if index < 16 then term_ansi_palette index
      else if index \<le> 231
      then (let n = index - 16; r = n div 36; g = n div 6 mod 6; b = n mod 6
            in rgb (colour_steps ! r) (colour_steps ! g) (colour_steps ! b))
      else if index \<le> 255
      then (let gray = of_nat (8 + (index - 232) * 10) in rgb gray gray gray)
      else TERM_COLOR_DEFAULT)"

definition term_reset_style :: "'a term_screen_scheme \<Rightarrow> 'a term_screen_scheme" where
  "term_reset_style app = app\<lparr>ta_current_fg := TERM_COLOR_DEFAULT, ta_current_bg := TERM_COLOR_BG,
     ta_current_style := TERM_STYLE_NONE, ta_ansi_bold := False, ta_ansi_underline := False, ta_ansi_inverse := False\<rparr>"

definition term_effective_fg :: "'a term_screen_scheme \<Rightarrow> u32" where
  "term_effective_fg app = (if ta_ansi_inverse app then ta_current_bg app else ta_current_fg app)"

definition term_effective_bg :: "'a term_screen_scheme \<Rightarrow> u32" where
  "term_effective_bg app = (if ta_ansi_inverse app then ta_current_fg app else ta_current_bg app)"

definition term_effective_style :: "'a term_screen_scheme \<Rightarrow> nat" where
  "term_effective_style app =
     (let style = TERM_STYLE_NONE;
          style = (if ta_ansi_bold app then style OR TERM_STYLE_BOLD else style);
          style = (if ta_ansi_underline app then style OR TERM_STYLE_UNDERLINE else style)
      in style OR ta_current_style app)"

subsection \<open>The grid\<close>

text \<open>A cell takes a character and the style in force.\<close>

definition set_cell :: "(nat \<Rightarrow> nat \<Rightarrow> 'b) \<Rightarrow> nat \<Rightarrow> nat \<Rightarrow> 'b \<Rightarrow> nat \<Rightarrow> nat \<Rightarrow> 'b" where
  "set_cell f row col v = f(row := (f row)(col := v))"

definition put_cell :: "'a term_screen_scheme \<Rightarrow> nat \<Rightarrow> nat \<Rightarrow> char \<Rightarrow> 'a term_screen_scheme" where
  "put_cell app row col ch = app\<lparr>
     ta_lines := set_cell (ta_lines app) row col ch,
     ta_cell_fg := set_cell (ta_cell_fg app) row col (term_effective_fg app),
     ta_cell_bg := set_cell (ta_cell_bg app) row col (term_effective_bg app),
     ta_cell_style := set_cell (ta_cell_style app) row col (term_effective_style app)\<rparr>"

definition term_clear_cell :: "'a term_screen_scheme \<Rightarrow> nat \<Rightarrow> nat \<Rightarrow> 'a term_screen_scheme" where
  "term_clear_cell app row col =
     (if TERM_LINES \<le> row \<or> TERM_LINE_MAX \<le> col then app else put_cell app row col (CHR '' ''))"

text \<open>The loop over the columns below \<open>n\<close>, from the right.\<close>

fun trim_loop :: "(nat \<Rightarrow> char) \<Rightarrow> nat \<Rightarrow> nat \<Rightarrow> char" where
  "trim_loop line 0 = line"
| "trim_loop line (Suc col) =
     (if line col \<noteq> CHR '' '' \<and> line col \<noteq> NUL then line(Suc col := NUL) else trim_loop (line(col := NUL)) col)"

definition term_trim_line :: "'a term_screen_scheme \<Rightarrow> nat \<Rightarrow> 'a term_screen_scheme" where
  "term_trim_line app row =
     (if TERM_LINES \<le> row then app
      else app\<lparr>ta_lines := (ta_lines app)(row :=
             trim_loop ((ta_lines app row)(TERM_LINE_MAX - 1 := NUL)) (TERM_LINE_MAX - 1))\<rparr>)"

definition term_clear_line_range :: "'a term_screen_scheme \<Rightarrow> nat \<Rightarrow> nat \<Rightarrow> nat \<Rightarrow> 'a term_screen_scheme" where
  "term_clear_line_range app row start_col end_col =
     (if TERM_LINES \<le> row then app
      else (let end_col = (if TERM_LINE_MAX - 1 < end_col then TERM_LINE_MAX - 1 else end_col)
            in term_trim_line (fold (\<lambda>col app. term_clear_cell app row col) [start_col..<end_col] app) row))"

text \<open>The loops over the whole grid are one assignment to it.\<close>

definition fill_grid :: "(nat \<Rightarrow> nat \<Rightarrow> 'b) \<Rightarrow> 'b \<Rightarrow> nat \<Rightarrow> nat \<Rightarrow> 'b" where
  "fill_grid f v = (\<lambda>row col. if row < TERM_LINES \<and> col < TERM_LINE_MAX then v else f row col)"

definition term_clear :: "'a term_screen_scheme \<Rightarrow> 'a term_screen_scheme" where
  "term_clear app = app\<lparr>
     ta_lines := fill_grid (ta_lines app) NUL,
     ta_cell_fg := fill_grid (ta_cell_fg app) (term_effective_fg app),
     ta_cell_bg := fill_grid (ta_cell_bg app) (term_effective_bg app),
     ta_cell_style := fill_grid (ta_cell_style app) (term_effective_style app),
     ta_line_count := 0, ta_cursor_row := 0, ta_cursor_col := 0\<rparr>"

definition term_ensure_row :: "'a term_screen_scheme \<Rightarrow> nat \<Rightarrow> 'a term_screen_scheme" where
  "term_ensure_row app row =
     (let row = (if TERM_LINES \<le> row then TERM_LINES - 1 else row)
      in fold (\<lambda>i app. (put_cell app i 0 NUL)\<lparr>ta_line_count := i + 1\<rparr>) [ta_line_count app..<row + 1] app)"

text \<open>\<open>ush_strlen\<close> of a row and \<open>ush_copy\<close> of a row over another one.\<close>

definition row_len :: "(nat \<Rightarrow> char) \<Rightarrow> nat" where
  "row_len line = length (takeWhile (\<lambda>c. line c \<noteq> NUL) [0..<TERM_LINE_MAX])"

definition row_copy :: "(nat \<Rightarrow> char) \<Rightarrow> (nat \<Rightarrow> char) \<Rightarrow> nat \<Rightarrow> char" where
  "row_copy dst src = (\<lambda>col. if TERM_LINE_MAX \<le> col then dst col
     else if col < row_len src \<and> col < TERM_LINE_MAX - 1 then src col else NUL)"

text \<open>All rows move up by one; the last one gets a NUL at its first column.\<close>

definition shift_cells :: "(nat \<Rightarrow> nat \<Rightarrow> 'b) \<Rightarrow> 'b \<Rightarrow> nat \<Rightarrow> nat \<Rightarrow> 'b" where
  "shift_cells f v = (\<lambda>row col. if TERM_LINES \<le> row \<or> TERM_LINE_MAX \<le> col then f row col
     else if row + 1 < TERM_LINES then f (row + 1) col else v)"

definition term_shift_lines :: "'a term_screen_scheme \<Rightarrow> 'a term_screen_scheme" where
  "term_shift_lines app = app\<lparr>
     ta_lines := (\<lambda>row. if row + 1 < TERM_LINES then row_copy (ta_lines app row) (ta_lines app (row + 1))
        else if row + 1 = TERM_LINES then (ta_lines app row)(0 := NUL) else ta_lines app row),
     ta_cell_fg := shift_cells (ta_cell_fg app) (term_effective_fg app),
     ta_cell_bg := shift_cells (ta_cell_bg app) (term_effective_bg app),
     ta_cell_style := shift_cells (ta_cell_style app) (term_effective_style app)\<rparr>"

definition term_newline :: "'a term_screen_scheme \<Rightarrow> 'a term_screen_scheme" where
  "term_newline app =
     (let app = (term_ensure_row app (ta_cursor_row app))\<lparr>ta_cursor_col := 0\<rparr>
      in if TERM_LINES \<le> ta_cursor_row app + 1
         then (term_shift_lines app)\<lparr>ta_line_count := TERM_LINES\<rparr>
         else (let app = app\<lparr>ta_cursor_row := ta_cursor_row app + 1\<rparr> in term_ensure_row app (ta_cursor_row app)))"

text \<open>A character that is not a control character. The column behind it is not touched: the code writes a NUL
  there only when there is one.\<close>

definition append_graphic :: "char \<Rightarrow> 'a term_screen_scheme \<Rightarrow> 'a term_screen_scheme" where
  "append_graphic ch app =
     (let ch = (if schar ch < 32 \<or> 126 < schar ch then CHR ''?'' else ch);
          app = (if TERM_LINE_MAX \<le> ta_cursor_col app + 1 then term_newline app else app);
          app = term_ensure_row app (ta_cursor_row app);
          row = ta_cursor_row app;
          col = ta_cursor_col app;
          fill_end = (if TERM_LINE_MAX \<le> col + 1 then TERM_LINE_MAX - 1 else col);
          app = fold (\<lambda>len app. put_cell app row len (CHR '' '')) [row_len (ta_lines app row)..<fill_end] app
      in (put_cell app row col ch)\<lparr>ta_cursor_col := col + 1\<rparr>)"

definition term_append_char :: "char \<Rightarrow> 'a term_screen_scheme \<Rightarrow> 'a term_screen_scheme" where
  "term_append_char ch app =
     (if ch = CHR 0x0D then app\<lparr>ta_cursor_col := 0\<rparr>
      else if ch = CHR 0x0A then term_newline app
      else if ch = CHR 0x09 then (append_graphic (CHR '' '') ^^ 4) app
      else append_graphic ch app)"

subsection \<open>Escape sequences\<close>

text \<open>The numbers of a sequence; \<open>i\<close> is the position and \<open>values\<close> the numbers so far.\<close>

fun params_loop :: "nat \<Rightarrow> string \<Rightarrow> nat \<Rightarrow> nat \<Rightarrow> bool \<Rightarrow> nat list \<Rightarrow> nat list" where
  "params_loop max_values [] i value has_digit values =
     (if length values < max_values then values @ [if has_digit then value else 0] else values)"
| "params_loop max_values (ch # params) i value has_digit values =
     (if 48 \<le> uchar ch \<and> uchar ch \<le> 57
      then params_loop max_values params (i + 1) (add64 (mul64 value 10) (nat (uchar ch - 48))) True values
      else if ch = CHR ''?'' \<and> i = 0 then params_loop max_values params (i + 1) value has_digit values
      else if ch = CHR '';''
      then params_loop max_values params (i + 1) 0 False
             (if length values < max_values then values @ [if has_digit then value else 0] else values)
      else params_loop max_values params (i + 1) value has_digit values)"

definition term_ansi_parse_params :: "string \<Rightarrow> nat \<Rightarrow> nat list" where
  "term_ansi_parse_params params max_values =
     (if max_values = 0 then [] else if params = [] then [0] else params_loop max_values params 0 0 False [])"

definition term_ansi_param_or_default :: "nat list \<Rightarrow> nat \<Rightarrow> nat \<Rightarrow> nat" where
  "term_ansi_param_or_default params index default_value =
     (if length params \<le> index \<or> params ! index = 0 then default_value else params ! index)"

definition set_ground :: "nat \<Rightarrow> u32 \<Rightarrow> 'a term_screen_scheme \<Rightarrow> 'a term_screen_scheme" where
  "set_ground code colour app = (if code = 38 then app\<lparr>ta_current_fg := colour\<rparr> else app\<lparr>ta_current_bg := colour\<rparr>)"

text \<open>A code of its own; 38 and 48 take the numbers behind them.\<close>

definition sgr_code :: "nat \<Rightarrow> 'a term_screen_scheme \<Rightarrow> 'a term_screen_scheme" where
  "sgr_code code app =
     (if code = 0 then term_reset_style app
      else if code = 1 then app\<lparr>ta_ansi_bold := True\<rparr>
      else if code = 4 then app\<lparr>ta_ansi_underline := True\<rparr>
      else if code = 7 then app\<lparr>ta_ansi_inverse := True\<rparr>
      else if code = 21 \<or> code = 22 then app\<lparr>ta_ansi_bold := False\<rparr>
      else if code = 24 then app\<lparr>ta_ansi_underline := False\<rparr>
      else if code = 27 then app\<lparr>ta_ansi_inverse := False\<rparr>
      else if code = 39 then app\<lparr>ta_current_fg := TERM_COLOR_DEFAULT\<rparr>
      else if code = 49 then app\<lparr>ta_current_bg := TERM_COLOR_BG\<rparr>
      else if 30 \<le> code \<and> code \<le> 37
      then app\<lparr>ta_current_fg := term_ansi_palette (code - 30 + (if ta_ansi_bold app then 8 else 0))\<rparr>
      else if 90 \<le> code \<and> code \<le> 97 then app\<lparr>ta_current_fg := term_ansi_palette (code - 90 + 8)\<rparr>
      else if 40 \<le> code \<and> code \<le> 47 then app\<lparr>ta_current_bg := term_ansi_palette (code - 40)\<rparr>
      else if 100 \<le> code \<and> code \<le> 107 then app\<lparr>ta_current_bg := term_ansi_palette (code - 100 + 8)\<rparr>
      else app)"

function sgr_loop :: "nat list \<Rightarrow> 'a term_screen_scheme \<Rightarrow> 'a term_screen_scheme" where
  "sgr_loop [] app = app"
| "sgr_loop (code # rest) app =
     (if (code = 38 \<or> code = 48) \<and> rest \<noteq> []
      then (if rest ! 0 = 5 \<and> 1 < length rest
            then sgr_loop (drop 2 rest) (set_ground code (term_ansi_color_from_256 (rest ! 1)) app)
            else if rest ! 0 = 2 \<and> 3 < length rest
            then sgr_loop (drop 4 rest)
                   (set_ground code (rgb (term_ansi_clamp_255 (rest ! 1)) (term_ansi_clamp_255 (rest ! 2)) (term_ansi_clamp_255 (rest ! 3))) app)
            else sgr_loop rest app)
      else sgr_loop rest (sgr_code code app))"
  by pat_completeness auto
termination by (relation "measure (\<lambda>(vs, app). length vs)") auto

definition term_apply_sgr :: "'a term_screen_scheme \<Rightarrow> string \<Rightarrow> 'a term_screen_scheme" where
  "term_apply_sgr app params = sgr_loop (term_ansi_parse_params params 16) app"

definition clamp_row :: "nat \<Rightarrow> nat" where
  "clamp_row row = (if TERM_LINES \<le> row then TERM_LINES - 1 else row)"

definition clamp_col :: "nat \<Rightarrow> nat" where
  "clamp_col col = (if TERM_LINE_MAX - 1 \<le> col then TERM_LINE_MAX - 2 else col)"

definition term_erase_display :: "nat \<Rightarrow> 'a term_screen_scheme \<Rightarrow> 'a term_screen_scheme" where
  "term_erase_display mode app =
     (if mode = 0
      then fold (\<lambda>row app. term_clear_line_range app row 0 (TERM_LINE_MAX - 1)) [ta_cursor_row app + 1..<TERM_LINES]
             (term_clear_line_range app (ta_cursor_row app) (ta_cursor_col app) (TERM_LINE_MAX - 1))
      else if mode = 1
      then term_clear_line_range
             (fold (\<lambda>row app. term_clear_line_range app row 0 (TERM_LINE_MAX - 1)) [0..<min (ta_cursor_row app) TERM_LINES] app)
             (ta_cursor_row app) 0 (ta_cursor_col app + 1)
      else if mode = 2 \<or> mode = 3 then term_clear app
      else app)"

definition term_erase_line :: "nat \<Rightarrow> 'a term_screen_scheme \<Rightarrow> 'a term_screen_scheme" where
  "term_erase_line mode app =
     (if mode = 0 then term_clear_line_range app (ta_cursor_row app) (ta_cursor_col app) (TERM_LINE_MAX - 1)
      else if mode = 1 then term_clear_line_range app (ta_cursor_row app) 0 (ta_cursor_col app + 1)
      else term_clear_line_range app (ta_cursor_row app) 0 (TERM_LINE_MAX - 1))"

definition save_cursor :: "'a term_screen_scheme \<Rightarrow> 'a term_screen_scheme" where
  "save_cursor app = app\<lparr>ta_saved_row := ta_cursor_row app, ta_saved_col := ta_cursor_col app\<rparr>"

definition restore_cursor :: "'a term_screen_scheme \<Rightarrow> 'a term_screen_scheme" where
  "restore_cursor app =
     (let app = app\<lparr>ta_cursor_row := (if ta_saved_row app < TERM_LINES then ta_saved_row app else TERM_LINES - 1),
                    ta_cursor_col := (if ta_saved_col app < TERM_LINE_MAX - 1 then ta_saved_col app else TERM_LINE_MAX - 2)\<rparr>
      in term_ensure_row app (ta_cursor_row app))"

definition to_row :: "nat \<Rightarrow> 'a term_screen_scheme \<Rightarrow> 'a term_screen_scheme" where
  "to_row row app = term_ensure_row (app\<lparr>ta_cursor_row := row\<rparr>) row"

definition term_csi :: "char \<Rightarrow> 'a term_screen_scheme \<Rightarrow> 'a term_screen_scheme" where
  "term_csi final_ch app =
     (let values = term_ansi_parse_params (ta_ansi_buf app) 16;
          n = term_ansi_param_or_default values 0 1;
          up = (if ta_cursor_row app < n then 0 else ta_cursor_row app - n);
          down = clamp_row (add64 (ta_cursor_row app) n)
      in if final_ch = CHR ''m'' then term_apply_sgr app (ta_ansi_buf app)
         else if final_ch = CHR ''J'' then term_erase_display (values ! 0) app
         else if final_ch = CHR ''K'' then term_erase_line (values ! 0) app
         else if final_ch = CHR ''H'' \<or> final_ch = CHR ''f''
         then to_row (clamp_row (n - 1)) (app\<lparr>ta_cursor_col := clamp_col (term_ansi_param_or_default values 1 1 - 1)\<rparr>)
         else if final_ch = CHR ''A'' then app\<lparr>ta_cursor_row := up\<rparr>
         else if final_ch = CHR ''B'' then to_row down app
         else if final_ch = CHR ''C'' then app\<lparr>ta_cursor_col := clamp_col (add64 (ta_cursor_col app) n)\<rparr>
         else if final_ch = CHR ''D'' then app\<lparr>ta_cursor_col := (if ta_cursor_col app < n then 0 else ta_cursor_col app - n)\<rparr>
         else if final_ch = CHR ''E'' then to_row down (app\<lparr>ta_cursor_col := 0\<rparr>)
         else if final_ch = CHR ''F'' then to_row up (app\<lparr>ta_cursor_col := 0\<rparr>)
         else if final_ch = CHR ''G'' then app\<lparr>ta_cursor_col := clamp_col (n - 1)\<rparr>
         else if final_ch = CHR ''d'' then to_row (clamp_row (n - 1)) app
         else if final_ch = CHR ''s'' then save_cursor app
         else if final_ch = CHR ''u'' then restore_cursor app
         else app)"

definition term_apply_ansi :: "char \<Rightarrow> 'a term_screen_scheme \<Rightarrow> 'a term_screen_scheme" where
  "term_apply_ansi final_ch app = (term_csi final_ch app)\<lparr>ta_ansi_state := 0, ta_ansi_buf := []\<rparr>"

definition ansi_ground :: "'a term_screen_scheme \<Rightarrow> 'a term_screen_scheme" where
  "ansi_ground app = app\<lparr>ta_ansi_state := 0, ta_ansi_buf := []\<rparr>"

definition param_char :: "char \<Rightarrow> bool" where
  "param_char ch \<longleftrightarrow> (48 \<le> uchar ch \<and> uchar ch \<le> 57) \<or> ch = CHR '';'' \<or> ch = CHR ''?'' \<or> ch = CHR ''=''"

definition term_append_ansi_char :: "char \<Rightarrow> 'a term_screen_scheme \<Rightarrow> 'a term_screen_scheme" where
  "term_append_ansi_char ch app =
     (if ta_ansi_state app = 1
      then (if ch = CHR ''['' then app\<lparr>ta_ansi_state := 2, ta_ansi_buf := []\<rparr>
            else if ch = CHR ''7'' then ansi_ground (save_cursor app)
            else if ch = CHR ''8'' then ansi_ground (restore_cursor app)
            else ansi_ground app)
      else if ta_ansi_state app = 2
      then (if param_char ch
            then (if length (ta_ansi_buf app) + 1 < TERM_ANSI_MAX then app\<lparr>ta_ansi_buf := ta_ansi_buf app @ [ch]\<rparr> else app)
            else term_apply_ansi ch app)
      else if ch = CHR 0x1B then app\<lparr>ta_ansi_state := 1, ta_ansi_buf := []\<rparr>
      else term_append_char ch app)"

text \<open>A C string, character by character.\<close>

definition term_append_text :: "string \<Rightarrow> 'a term_screen_scheme \<Rightarrow> 'a term_screen_scheme" where
  "term_append_text s app = fold term_append_ansi_char s app"

definition term_append_line :: "string \<Rightarrow> 'a term_screen_scheme \<Rightarrow> 'a term_screen_scheme" where
  "term_append_line s app = term_append_char (CHR 0x0A) (term_append_text s app)"

definition term_append_hex :: "u64 \<Rightarrow> 'a term_screen_scheme \<Rightarrow> 'a term_screen_scheme" where
  "term_append_hex v app = term_append_text (u64_hex v) app"

text \<open>The screen at the start: all memory zero, then \<open>term_reset_style\<close> and \<open>term_clear\<close>.\<close>

definition zero_screen :: term_screen where
  "zero_screen = \<lparr>ta_lines = (\<lambda>_ _. NUL), ta_cell_fg = (\<lambda>_ _. 0), ta_cell_bg = (\<lambda>_ _. 0), ta_cell_style = (\<lambda>_ _. 0),
     ta_line_count = 0, ta_cursor_row = 0, ta_cursor_col = 0, ta_saved_row = 0, ta_saved_col = 0,
     ta_current_fg = 0, ta_current_bg = 0, ta_current_style = 0, ta_ansi_bold = False, ta_ansi_underline = False,
     ta_ansi_inverse = False, ta_ansi_state = 0, ta_ansi_buf = []\<rparr>"

definition start_screen :: term_screen where
  "start_screen = term_clear (term_reset_style zero_screen)"

text \<open>What a row shows.\<close>

definition row_text :: "'a term_screen_scheme \<Rightarrow> nat \<Rightarrow> string" where
  "row_text app row = map (ta_lines app row) [0..<row_len (ta_lines app row)]"

section \<open>Nothing outside the grid\<close>

definition term_ok :: "'a term_screen_scheme \<Rightarrow> bool" where
  "term_ok app \<longleftrightarrow> ta_line_count app \<le> TERM_LINES \<and> ta_cursor_row app < TERM_LINES \<and> ta_cursor_col app < TERM_LINE_MAX \<and>
     ta_ansi_state app \<le> 2 \<and> length (ta_ansi_buf app) < TERM_ANSI_MAX \<and> (\<forall>row<TERM_LINES. ta_lines app row (TERM_LINE_MAX - 1) = NUL)"

definition same_outside :: "'a term_screen_scheme \<Rightarrow> 'a term_screen_scheme \<Rightarrow> bool" where
  "same_outside app app' \<longleftrightarrow> (\<forall>row col. TERM_LINES \<le> row \<or> TERM_LINE_MAX \<le> col \<longrightarrow>
     ta_lines app' row col = ta_lines app row col \<and> ta_cell_fg app' row col = ta_cell_fg app row col \<and>
     ta_cell_bg app' row col = ta_cell_bg app row col \<and> ta_cell_style app' row col = ta_cell_style app row col)"

text \<open>\<open>inner\<close>: a step that keeps to the grid.\<close>

definition inner :: "'a term_screen_scheme \<Rightarrow> 'a term_screen_scheme \<Rightarrow> bool" where
  "inner app app' \<longleftrightarrow> term_ok app' \<and> same_outside app app'"

lemma inner_refl: "term_ok app \<Longrightarrow> inner app app"
  by (simp add: inner_def same_outside_def)

lemma inner_trans: "inner a b \<Longrightarrow> (term_ok b \<Longrightarrow> inner b c) \<Longrightarrow> inner a c"
  by (auto simp: inner_def same_outside_def)

lemma fold_keeps:
  assumes "P s" "\<And>x s. x \<in> set xs \<Longrightarrow> P s \<Longrightarrow> P (f x s)"
  shows "P (fold f xs s)"
  using assms by (induction xs arbitrary: s) auto

lemma inner_fold:
  assumes "term_ok app" "\<And>x s. x \<in> set xs \<Longrightarrow> term_ok s \<Longrightarrow> inner s (f x s)"
  shows "inner app (fold f xs app)"
proof (rule fold_keeps)
  show "inner app app" by (rule inner_refl [OF assms(1)])
  show "inner app (f x s)" if "x \<in> set xs" "inner app s" for x s
    by (rule inner_trans [OF that(2)]) (rule assms(2) [OF that(1)])
qed

lemma inner_cursor [c_inv]:
  "term_ok app \<Longrightarrow> row < TERM_LINES \<Longrightarrow> inner app (app\<lparr>ta_cursor_row := row\<rparr>)"
  "term_ok app \<Longrightarrow> col < TERM_LINE_MAX \<Longrightarrow> inner app (app\<lparr>ta_cursor_col := col\<rparr>)"
  "term_ok app \<Longrightarrow> inner app (app\<lparr>ta_saved_row := r, ta_saved_col := c\<rparr>)"
  "term_ok app \<Longrightarrow> n \<le> TERM_LINES \<Longrightarrow> inner app (app\<lparr>ta_line_count := n\<rparr>)"
  "term_ok app \<Longrightarrow> st \<le> 2 \<Longrightarrow> length buf < TERM_ANSI_MAX \<Longrightarrow> inner app (app\<lparr>ta_ansi_state := st, ta_ansi_buf := buf\<rparr>)"
  "term_ok app \<Longrightarrow> length buf < TERM_ANSI_MAX \<Longrightarrow> inner app (app\<lparr>ta_ansi_buf := buf\<rparr>)"
  by (simp_all add: inner_def term_ok_def same_outside_def)

lemma inner_put [c_inv]:
  assumes "term_ok app" "row < TERM_LINES" "col < TERM_LINE_MAX - 1 \<or> (col < TERM_LINE_MAX \<and> ch = NUL)"
  shows "inner app (put_cell app row col ch)"
  using assms by (auto simp: inner_def term_ok_def same_outside_def put_cell_def set_cell_def)

lemma inner_ensure [c_inv]: "term_ok app \<Longrightarrow> inner app (term_ensure_row app row)"
  unfolding term_ensure_row_def Let_def
proof (rule inner_fold)
  fix i :: nat and s :: "'a term_screen_scheme"
  assume "i \<in> set [ta_line_count app..<(if TERM_LINES \<le> row then TERM_LINES - 1 else row) + 1]" "term_ok s"
  then have i: "i < TERM_LINES" by (auto simp: TERM_LINES_def split: if_splits)
  have "inner s (put_cell s i 0 NUL)" using inner_put [OF \<open>term_ok s\<close> i, of 0 NUL] by (simp add: TERM_LINE_MAX_def)
  then show "inner s ((put_cell s i 0 NUL)\<lparr>ta_line_count := i + 1\<rparr>)" by (rule inner_trans) (rule inner_cursor(4), use i in auto)
qed

lemma trim_loop_right: "n < c \<Longrightarrow> trim_loop line n c = line c"
  by (induction line n rule: trim_loop.induct) auto

lemma trim_loop_end: "trim_loop line n n \<in> {line n, NUL}"
  by (cases n) (auto simp: trim_loop_right)

lemma inner_trim [c_inv]:
  assumes "term_ok app"
  shows "inner app (term_trim_line app row)"
proof -
  have "trim_loop (line(TERM_LINE_MAX - 1 := NUL)) (TERM_LINE_MAX - 1) (TERM_LINE_MAX - 1) = NUL" for line
    using trim_loop_end [of "line(TERM_LINE_MAX - 1 := NUL)" "TERM_LINE_MAX - 1"] by auto
  moreover have "trim_loop (line(TERM_LINE_MAX - 1 := NUL)) (TERM_LINE_MAX - 1) col = line col" if "TERM_LINE_MAX \<le> col" for line col
    using that trim_loop_right [of "TERM_LINE_MAX - 1" col] by (simp add: TERM_LINE_MAX_def)
  ultimately show ?thesis using assms by (auto simp: inner_def term_ok_def same_outside_def term_trim_line_def)
qed

lemma inner_clear_range [c_inv]:
  assumes "term_ok app"
  shows "inner app (term_clear_line_range app row a b)"
proof (cases "TERM_LINES \<le> row")
  case False
  define e where "e = (if TERM_LINE_MAX - 1 < b then TERM_LINE_MAX - 1 else b)"
  have "inner app (fold (\<lambda>col app. term_clear_cell app row col) [a..<e] app)"
  proof (rule inner_fold [OF assms])
    fix col and s :: "'a term_screen_scheme"
    assume "col \<in> set [a..<e]" "term_ok s"
    then show "inner s (term_clear_cell s row col)"
      using inner_put [of s row col "CHR '' ''"] inner_refl [of s] False by (auto simp: term_clear_cell_def e_def split: if_splits)
  qed
  then show ?thesis unfolding term_clear_line_range_def Let_def e_def [symmetric] using False
    by simp (rule inner_trans, auto intro: inner_trim)
qed (simp add: term_clear_line_range_def inner_refl assms)

lemma inner_clear [c_inv]: "term_ok app \<Longrightarrow> inner app (term_clear app)"
  by (auto simp: inner_def term_ok_def same_outside_def term_clear_def fill_grid_def term_sizes)

lemma inner_shift [c_inv]: "term_ok app \<Longrightarrow> inner app (term_shift_lines app)"
  by (auto simp: inner_def term_ok_def same_outside_def term_shift_lines_def row_copy_def shift_cells_def term_sizes)

lemma ensure_row_frame [c_frame]:
  "ta_cursor_row (term_ensure_row app row) = ta_cursor_row app" "ta_cursor_col (term_ensure_row app row) = ta_cursor_col app"
  "ta_ansi_state (term_ensure_row app row) = ta_ansi_state app" "ta_ansi_buf (term_ensure_row app row) = ta_ansi_buf app"
proof -
  have "let s = fold (\<lambda>i app. (put_cell app i 0 NUL)\<lparr>ta_line_count := i + 1\<rparr>) xs app in
    ta_cursor_row s = ta_cursor_row app \<and> ta_cursor_col s = ta_cursor_col app \<and> ta_ansi_state s = ta_ansi_state app \<and> ta_ansi_buf s = ta_ansi_buf app" for xs
    unfolding Let_def by (rule fold_keeps) (simp_all add: put_cell_def)
  then show "ta_cursor_row (term_ensure_row app row) = ta_cursor_row app" "ta_cursor_col (term_ensure_row app row) = ta_cursor_col app"
    "ta_ansi_state (term_ensure_row app row) = ta_ansi_state app" "ta_ansi_buf (term_ensure_row app row) = ta_ansi_buf app"
    by (simp_all add: term_ensure_row_def Let_def)
qed

lemma inner_newline [c_inv]:
  assumes "term_ok app"
  shows "inner app (term_newline app)"
proof -
  define a where "a = (term_ensure_row app (ta_cursor_row app))\<lparr>ta_cursor_col := 0\<rparr>"
  have a: "inner app a" unfolding a_def
    by (rule inner_trans [OF inner_ensure [OF assms]]) (rule inner_cursor(2), simp_all add: TERM_LINE_MAX_def)
  show ?thesis
  proof (cases "TERM_LINES \<le> ta_cursor_row a + 1")
    case True
    have "inner a ((term_shift_lines a)\<lparr>ta_line_count := TERM_LINES\<rparr>)" if "term_ok a"
      by (rule inner_trans [OF inner_shift [OF that]]) (rule inner_cursor(4), simp_all)
    then show ?thesis using True by (auto simp: term_newline_def Let_def a_def [symmetric] intro: inner_trans [OF a])
  next
    case False
    have "inner a (term_ensure_row (a\<lparr>ta_cursor_row := ta_cursor_row a + 1\<rparr>) (ta_cursor_row a + 1))" if "term_ok a"
      by (rule inner_trans [OF inner_cursor(1) [OF that, of "ta_cursor_row a + 1"]]) (use False in \<open>simp_all add: inner_ensure\<close>)
    then show ?thesis using False by (auto simp: term_newline_def Let_def a_def [symmetric] intro: inner_trans [OF a])
  qed
qed

lemma newline_col [c_frame]: "ta_cursor_col (term_newline app) = 0"
  by (simp add: term_newline_def Let_def c_frame term_shift_lines_def)

lemma put_cell_frame [c_frame]:
  "ta_cursor_row (put_cell app r c ch) = ta_cursor_row app" "ta_cursor_col (put_cell app r c ch) = ta_cursor_col app"
  "ta_ansi_state (put_cell app r c ch) = ta_ansi_state app" "ta_ansi_buf (put_cell app r c ch) = ta_ansi_buf app"
  "ta_line_count (put_cell app r c ch) = ta_line_count app"
  by (simp_all add: put_cell_def)

lemma fold_put_frame [c_frame]:
  "ta_cursor_row (fold (\<lambda>len app. put_cell app row len ch) xs app) = ta_cursor_row app"
  "ta_cursor_col (fold (\<lambda>len app. put_cell app row len ch) xs app) = ta_cursor_col app"
  "ta_ansi_state (fold (\<lambda>len app. put_cell app row len ch) xs app) = ta_ansi_state app"
  "ta_ansi_buf (fold (\<lambda>len app. put_cell app row len ch) xs app) = ta_ansi_buf app"
  "ta_line_count (fold (\<lambda>len app. put_cell app row len ch) xs app) = ta_line_count app"
  by (induction xs arbitrary: app) (simp_all add: c_frame)

lemma inner_graphic [c_inv]:
  assumes "term_ok app"
  shows "inner app (append_graphic ch app)"
proof -
  define a where "a = (if TERM_LINE_MAX \<le> ta_cursor_col app + 1 then term_newline app else app)"
  define b where "b = term_ensure_row a (ta_cursor_row a)"
  define e where "e = (if TERM_LINE_MAX \<le> ta_cursor_col b + 1 then TERM_LINE_MAX - 1 else ta_cursor_col b)"
  define d where "d = fold (\<lambda>len app. put_cell app (ta_cursor_row b) len (CHR '' '')) [row_len (ta_lines b (ta_cursor_row b))..<e] b"
  define ch' where "ch' = (if schar ch < 32 \<or> 126 < schar ch then CHR ''?'' else ch)"
  have g: "append_graphic ch app = (put_cell d (ta_cursor_row b) (ta_cursor_col b) ch')\<lparr>ta_cursor_col := ta_cursor_col b + 1\<rparr>"
    by (simp add: append_graphic_def Let_def a_def b_def d_def e_def ch'_def)
  have col: "ta_cursor_col b < TERM_LINE_MAX - 1" by (auto simp: a_def b_def c_frame TERM_LINE_MAX_def)
  have a: "inner app a" using assms by (simp add: a_def inner_newline inner_refl)
  have b: "inner app b" unfolding b_def by (rule inner_trans [OF a inner_ensure])
  have row: "ta_cursor_row b < TERM_LINES" using b by (simp add: inner_def term_ok_def)
  have ne: "CHR '' '' \<noteq> NUL" by simp
  have "inner b d" unfolding d_def
  proof (rule inner_fold)
    show "term_ok b" using b by (simp add: inner_def)
    fix len and s :: "'a term_screen_scheme"
    assume "len \<in> set [row_len (ta_lines b (ta_cursor_row b))..<e]" "term_ok s"
    then show "inner s (put_cell s (ta_cursor_row b) len (CHR '' ''))"
      using row col by (intro inner_put) (auto simp: e_def split: if_splits)
  qed
  then have d: "inner app d" using b inner_trans by blast
  have "inner d (put_cell d (ta_cursor_row b) (ta_cursor_col b) ch')"
    using d row col by (intro inner_put) (auto simp: inner_def)
  then have p: "inner app (put_cell d (ta_cursor_row b) (ta_cursor_col b) ch')" using d inner_trans by blast
  show ?thesis unfolding g
    by (rule inner_trans [OF p]) (rule inner_cursor(2), use col in \<open>auto simp: TERM_LINE_MAX_def\<close>)
qed

lemma inner_append [c_inv]:
  assumes "term_ok app"
  shows "inner app (term_append_char ch app)"
proof -
  have "inner app ((append_graphic c ^^ n) app)" for c n
    by (induction n) (auto intro: inner_refl assms inner_trans inner_graphic)
  then show ?thesis using assms
    by (auto simp: term_append_char_def TERM_LINE_MAX_def intro: inner_newline inner_graphic inner_cursor(2))
qed

text \<open>\<open>unstyled\<close>: everything but the colours and the style.\<close>

definition unstyled :: "'a term_screen_scheme \<Rightarrow> 'a term_screen_scheme" where
  "unstyled app = app\<lparr>ta_current_fg := 0, ta_current_bg := 0, ta_current_style := 0, ta_ansi_bold := False,
     ta_ansi_underline := False, ta_ansi_inverse := False\<rparr>"

lemma unstyled_sgr_code: "unstyled (sgr_code code app) = unstyled app"
  by (simp add: unstyled_def sgr_code_def term_reset_style_def)

lemma unstyled_sgr [c_frame]: "unstyled (sgr_loop vs app) = unstyled app"
proof (induction vs app rule: sgr_loop.induct)
  case (2 code rest app)
  have "unstyled (set_ground code c app) = unstyled app" for c by (simp add: set_ground_def unstyled_def)
  then show ?case using 2 by (simp add: unstyled_sgr_code)
qed simp

lemma unstyled_fields: "ta_lines (unstyled app) = ta_lines app" "ta_cell_fg (unstyled app) = ta_cell_fg app"
  "ta_cell_bg (unstyled app) = ta_cell_bg app" "ta_cell_style (unstyled app) = ta_cell_style app"
  "ta_line_count (unstyled app) = ta_line_count app" "ta_cursor_row (unstyled app) = ta_cursor_row app"
  "ta_cursor_col (unstyled app) = ta_cursor_col app" "ta_ansi_state (unstyled app) = ta_ansi_state app"
  "ta_ansi_buf (unstyled app) = ta_ansi_buf app"
  by (simp_all add: unstyled_def)

lemma inner_unstyled: 
  assumes "unstyled app' = unstyled app" "term_ok app"
  shows "inner app app'"
proof -
  have "ta_lines app' = ta_lines app" "ta_cell_fg app' = ta_cell_fg app"
  "ta_cell_bg app' = ta_cell_bg app" "ta_cell_style app' = ta_cell_style app"
  "ta_line_count app' = ta_line_count app" "ta_cursor_row app' = ta_cursor_row app"
  "ta_cursor_col app' = ta_cursor_col app" "ta_ansi_state app' = ta_ansi_state app"
  "ta_ansi_buf app' = ta_ansi_buf app"
    using assms(1) by (metis unstyled_fields)+
  then show ?thesis using assms(2) by (simp add: inner_def term_ok_def same_outside_def)
qed

lemma clamp_bounds: "clamp_row r < TERM_LINES" "clamp_col c < TERM_LINE_MAX - 1"
  by (auto simp: clamp_row_def clamp_col_def term_sizes)

lemma inner_to_row [c_inv]: "term_ok app \<Longrightarrow> row < TERM_LINES \<Longrightarrow> inner app (to_row row app)"
  unfolding to_row_def by (rule inner_trans [OF inner_cursor(1)]) (auto intro: inner_ensure)

lemma inner_restore [c_inv]:
  assumes "term_ok app"
  shows "inner app (restore_cursor app)"
proof -
  define r where "r = (if ta_saved_row app < TERM_LINES then ta_saved_row app else TERM_LINES - 1)"
  define c where "c = (if ta_saved_col app < TERM_LINE_MAX - 1 then ta_saved_col app else TERM_LINE_MAX - 2)"
  have b: "r < TERM_LINES" "c < TERM_LINE_MAX" by (auto simp: r_def c_def term_sizes)
  have e: "restore_cursor app = term_ensure_row (app\<lparr>ta_cursor_row := r, ta_cursor_col := c\<rparr>) r"
    by (simp add: restore_cursor_def Let_def r_def c_def)
  have "inner app (app\<lparr>ta_cursor_row := r, ta_cursor_col := c\<rparr>)"
    by (rule inner_trans [OF inner_cursor(1) [OF assms b(1)]]) (rule inner_cursor(2) [OF _ b(2)])
  then show ?thesis unfolding e by (rule inner_trans) (rule inner_ensure)
qed

lemma inner_erase [c_inv]:
  assumes "term_ok app"
  shows "inner app (term_erase_display mode app)" "inner app (term_erase_line mode app)"
proof -
  have f: "inner app (fold (\<lambda>row app. term_clear_line_range app row a b) xs app)" if "term_ok app" for a b xs and app :: "'a term_screen_scheme"
    by (rule inner_fold [OF that]) (rule inner_clear_range)
  show "inner app (term_erase_display mode app)"
    using assms f inner_trans [OF inner_clear_range f] inner_trans [OF f inner_clear_range]
    by (auto simp: term_erase_display_def intro: inner_clear inner_refl)
  show "inner app (term_erase_line mode app)" using assms by (simp add: term_erase_line_def inner_clear_range)
qed

lemma inner_csi [c_inv]:
  assumes "term_ok app"
  shows "inner app (term_csi final_ch app)"
proof -
  note cur = inner_cursor(1,2) [OF assms]
  have col: "inner app (app\<lparr>ta_cursor_col := clamp_col c\<rparr>)" for c
    using cur(2) clamp_bounds(2) [of c] by (simp add: TERM_LINE_MAX_def)
  have bk: "inner app (app\<lparr>ta_cursor_col := if ta_cursor_col app < n then 0 else ta_cursor_col app - n\<rparr>)"
    "inner app (app\<lparr>ta_cursor_row := if ta_cursor_row app < n then 0 else ta_cursor_row app - n\<rparr>)" for n
    using assms by (auto intro!: cur simp: term_ok_def term_sizes)
  have hv: "inner app (to_row (clamp_row r) (app\<lparr>ta_cursor_col := clamp_col c\<rparr>))" for r c
    by (rule inner_trans [OF col]) (rule inner_to_row, use clamp_bounds in auto)
  have zero: "inner app (app\<lparr>ta_cursor_col := 0\<rparr>)" using cur(2) by (simp add: TERM_LINE_MAX_def)
  have ef: "inner app (to_row r (app\<lparr>ta_cursor_col := 0\<rparr>))" if "r < TERM_LINES" for r
    by (rule inner_trans [OF zero]) (rule inner_to_row, use that in auto)
  have up: "(if ta_cursor_row app < n then 0 else ta_cursor_row app - n) < TERM_LINES" for n
    using assms by (auto simp: term_ok_def term_sizes)
  have m: "inner app (term_apply_sgr app buf)" for buf
    by (rule inner_unstyled [OF _ assms]) (simp add: term_apply_sgr_def c_frame)
  have s: "inner app (save_cursor app)" using inner_cursor(3) [OF assms] by (simp add: save_cursor_def)
  have r: "inner app (to_row (clamp_row r) app)" for r by (rule inner_to_row [OF assms clamp_bounds(1)])
  show ?thesis unfolding term_csi_def Let_def
    by (simp only: col bk hv ef [OF up] ef [OF clamp_bounds(1)] m s r inner_restore [OF assms] inner_erase [OF assms] inner_refl [OF assms] if_distrib [of "inner app"] if_cancel)
qed

lemma inner_ansi_char [c_inv]:
  assumes "term_ok app"
  shows "inner app (term_append_ansi_char ch app)"
proof -
  note st = inner_cursor(5)
  have ground: "inner app (ansi_ground a)" if "inner app a" for a
    unfolding ansi_ground_def by (rule inner_trans [OF that]) (rule st, auto simp: TERM_ANSI_MAX_def)
  have "inner app (save_cursor app)" using inner_cursor(3) [OF assms] by (simp add: save_cursor_def)
  then show ?thesis
    using assms ground [of "restore_cursor app"] ground [of "save_cursor app"] ground [of app] ground [of "term_csi ch app"]
      inner_csi [OF assms] inner_restore [OF assms] inner_refl [OF assms] inner_append [OF assms] inner_cursor(6) [OF assms]
      st [OF assms, of 2 "[]"] st [OF assms, of 1 "[]"]
    by (simp add: term_append_ansi_char_def term_apply_ansi_def ansi_ground_def TERM_ANSI_MAX_def)
qed

lemma inner_text [c_inv]: "term_ok app \<Longrightarrow> inner app (term_append_text s app)"
  unfolding term_append_text_def by (rule inner_fold) (auto intro: inner_ansi_char)

lemma start_screen_ok: "term_ok start_screen"
  by (simp add: start_screen_def term_clear_def term_reset_style_def zero_screen_def term_ok_def fill_grid_def term_sizes)

text \<open>C32: whatever bytes a program writes, escape sequences included, the terminal changes no memory outside its
  grid of 128 rows and 160 columns; the cursor stays in the grid, the parameter buffer within its 95 bytes, and
  every row ends with a NUL in its last column.\<close>

theorem term_memory_safe:
  assumes "term_ok app"
  shows "term_ok (term_append_text s app) \<and> same_outside app (term_append_text s app)"
  using inner_text [OF assms] by (simp add: inner_def)

theorem term_memory_safe_witness:
  "term_ok (term_append_text (CHR 0x1B # ''[999;999H!'') start_screen) \<and>
     (\<forall>col. ta_lines (term_append_text (CHR 0x1B # ''[999;999H!'') start_screen) 128 col = NUL)"
proof -
  have "ta_lines start_screen 128 col = NUL" for col by (simp add: start_screen_def term_clear_def term_reset_style_def zero_screen_def fill_grid_def)
  then show ?thesis using term_memory_safe [OF start_screen_ok, of "CHR 0x1B # ''[999;999H!''"] by (simp add: same_outside_def TERM_LINES_def)
qed

section \<open>Printing\<close>

definition graphic :: "char \<Rightarrow> bool" where
  "graphic c \<longleftrightarrow> 32 \<le> uchar c \<and> uchar c \<le> 126"

definition row_is :: "(nat \<Rightarrow> char) \<Rightarrow> string \<Rightarrow> bool" where
  "row_is line s \<longleftrightarrow> (\<forall>i<TERM_LINE_MAX. line i = (if i < length s then s ! i else NUL))"

lemma graphic_NUL: "graphic c \<Longrightarrow> c \<noteq> NUL" "graphic c \<Longrightarrow> c \<noteq> CHR 0x0D \<and> c \<noteq> CHR 0x0A \<and> c \<noteq> CHR 0x09 \<and> c \<noteq> CHR 0x1B"
  "graphic c \<Longrightarrow> \<not> (schar c < 32 \<or> 126 < schar c)"
  by (auto simp: graphic_def schar_def uchar_def)

lemma row_take: "\<forall>i<n. line i \<noteq> NUL \<Longrightarrow>
    takeWhile (\<lambda>c. line c \<noteq> NUL) ([0..<n] @ ys) = [0..<n] @ takeWhile (\<lambda>c. line c \<noteq> (NUL :: char)) ys"
  by (rule takeWhile_append2) auto

lemma row_len_eq:
  assumes "n < TERM_LINE_MAX" "\<forall>i<n. line i \<noteq> NUL" "line n = NUL"
  shows "row_len line = n"
proof -
  have "[0..<TERM_LINE_MAX] = [0..<n] @ n # [Suc n..<TERM_LINE_MAX]"
    using assms(1) by (metis upt_add_eq_append upt_conv_Cons le_add_diff_inverse less_imp_le_nat zero_le)
  then show ?thesis using assms(3) by (simp add: row_len_def row_take [OF assms(2)])
qed

lemma row_len_ge:
  assumes "n \<le> TERM_LINE_MAX" "\<forall>i<n. line i \<noteq> NUL"
  shows "n \<le> row_len line"
proof -
  have "[0..<TERM_LINE_MAX] = [0..<n] @ [n..<TERM_LINE_MAX]"
    using assms(1) by (metis upt_add_eq_append le_add_diff_inverse zero_le)
  then show ?thesis by (simp add: row_len_def row_take [OF assms(2)])
qed

lemma row_is_text:
  assumes "row_is (ta_lines app r) s" "length s < TERM_LINE_MAX" "\<forall>c\<in>set s. graphic c"
  shows "row_text app r = s"
proof -
  have l: "row_len (ta_lines app r) = length s"
    using assms graphic_NUL(1) by (intro row_len_eq) (auto simp: row_is_def)
  show ?thesis unfolding row_text_def l using assms(1,2) by (intro nth_equalityI) (auto simp: row_is_def)
qed

lemma ensure_row_id: "row < ta_line_count app \<Longrightarrow> row < TERM_LINES \<Longrightarrow> term_ensure_row app row = app"
  by (simp add: term_ensure_row_def Let_def)

lemma graphic_step:
  assumes "ta_cursor_row app < ta_line_count app" "ta_cursor_row app < TERM_LINES" "ta_cursor_col app + 1 < TERM_LINE_MAX"
    "\<forall>i<ta_cursor_col app. ta_lines app (ta_cursor_row app) i \<noteq> NUL" "graphic ch"
  shows "append_graphic ch app = (put_cell app (ta_cursor_row app) (ta_cursor_col app) ch)\<lparr>ta_cursor_col := ta_cursor_col app + 1\<rparr>"
proof -
  have e: "term_ensure_row app (ta_cursor_row app) = app" by (rule ensure_row_id [OF assms(1,2)])
  have "ta_cursor_col app \<le> row_len (ta_lines app (ta_cursor_row app))" using assms(3,4) by (intro row_len_ge) auto
  then show ?thesis using assms(3) graphic_NUL(3) [OF assms(5)] by (simp add: append_graphic_def Let_def e not_le)
qed

text \<open>The cursor behind the text \<open>s\<close> of row \<open>r\<close>, with blank rows below.\<close>

definition printing :: "'a term_screen_scheme \<Rightarrow> nat \<Rightarrow> string \<Rightarrow> bool" where
  "printing app r s \<longleftrightarrow> term_ok app \<and> ta_ansi_state app = 0 \<and> ta_cursor_row app = r \<and> ta_cursor_col app = length s \<and>
     row_is (ta_lines app r) s \<and> (\<forall>c\<in>set s. graphic c) \<and> (s = [] \<or> r < ta_line_count app) \<and>
     r \<le> ta_line_count app \<and> ta_line_count app \<le> Suc r \<and> (\<forall>r'. r < r' \<longrightarrow> r' < TERM_LINES \<longrightarrow> row_is (ta_lines app r') [])"

lemma printing_ensure:
  assumes "printing app r s"
  shows "printing (term_ensure_row app r) r s" "ta_lines (term_ensure_row app r) = ta_lines app"
    "ta_line_count (term_ensure_row app r) = Suc r"
proof -
  have r: "r < TERM_LINES" and ok: "term_ok app" using assms by (auto simp: printing_def term_ok_def)
  have "ta_lines (term_ensure_row app r) = ta_lines app \<and> ta_line_count (term_ensure_row app r) = Suc r"
  proof (cases "r < ta_line_count app")
    case True
    then show ?thesis using ensure_row_id [OF True r] assms by (simp add: printing_def)
  next
    case False
    then have n: "ta_line_count app = r" "s = []" using assms by (auto simp: printing_def)
    then have "ta_lines app r 0 = NUL" using assms by (simp add: printing_def row_is_def TERM_LINE_MAX_def)
    then have "set_cell (ta_lines app) r 0 NUL = ta_lines app" by (simp add: set_cell_def fun_upd_idem)
    then show ?thesis using n r by (simp add: term_ensure_row_def Let_def put_cell_def)
  qed
  moreover have "term_ok (term_ensure_row app r)" using inner_ensure [OF ok] by (simp add: inner_def)
  ultimately show "printing (term_ensure_row app r) r s" "ta_lines (term_ensure_row app r) = ta_lines app"
    "ta_line_count (term_ensure_row app r) = Suc r"
    using assms by (simp_all add: printing_def c_frame)
qed

lemma printing_char:
  assumes "printing app r s" "length s + 1 < TERM_LINE_MAX" "graphic ch"
  shows "printing (term_append_ansi_char ch app) r (s @ [ch])"
    "\<forall>r'. r' \<noteq> r \<longrightarrow> ta_lines (term_append_ansi_char ch app) r' = ta_lines app r'"
proof -
  define a where "a = term_ensure_row app r"
  have a: "printing a r s" "ta_lines a = ta_lines app" "ta_line_count a = Suc r" using printing_ensure [OF assms(1)] by (simp_all add: a_def)
  have pos: "ta_cursor_row app = r" "ta_cursor_col app = length s" "r < TERM_LINES" "ta_ansi_state app = 0"
    using assms(1) by (auto simp: printing_def term_ok_def)
  have aa: "term_ensure_row a r = a" by (rule ensure_row_id) (simp_all add: a(3) pos)
  have g: "append_graphic ch app = append_graphic ch a"
    unfolding append_graphic_def Let_def using assms(2) pos a(1) aa by (simp add: printing_def a_def [symmetric])
  have row: "ta_cursor_row a = r" "ta_cursor_col a = length s" "row_is (ta_lines a r) s" "\<forall>c\<in>set s. graphic c"
    using a(1) by (simp_all add: printing_def)
  have step: "append_graphic ch a = (put_cell a r (length s) ch)\<lparr>ta_cursor_col := length s + 1\<rparr>"
    using graphic_step [of a ch] row a(3) pos assms(2,3) graphic_NUL(1) by (auto simp: row_is_def)
  have t: "term_append_ansi_char ch app = append_graphic ch a"
    using graphic_NUL(2) [OF assms(3)] pos(4) by (simp add: term_append_ansi_char_def term_append_char_def g)
  have ok: "term_ok (append_graphic ch a)" using inner_graphic [of a ch] a(1) by (simp add: printing_def inner_def)
  have l: "ta_lines (append_graphic ch a) = set_cell (ta_lines a) r (length s) ch" by (simp add: step put_cell_def)
  have "row_is (ta_lines (append_graphic ch a) r) (s @ [ch])"
    using row(3) assms(2) unfolding l by (auto simp: row_is_def set_cell_def nth_append less_Suc_eq)
  then show "printing (term_append_ansi_char ch app) r (s @ [ch])"
    using ok a(1,3) row(4) assms(3) by (simp add: t printing_def l) (simp add: step c_frame set_cell_def)
  show "\<forall>r'. r' \<noteq> r \<longrightarrow> ta_lines (term_append_ansi_char ch app) r' = ta_lines app r'"
    by (simp add: t l a(2) set_cell_def)
qed

lemma printing_line_end:
  assumes "printing app r s" "Suc r < TERM_LINES"
  shows "printing (term_append_ansi_char (CHR 0x0A) app) (Suc r) []" "ta_lines (term_append_ansi_char (CHR 0x0A) app) = ta_lines app"
proof -
  define a where "a = term_ensure_row app r"
  have a: "printing a r s" "ta_lines a = ta_lines app" "ta_line_count a = Suc r" using printing_ensure [OF assms(1)] by (simp_all add: a_def)
  have pos: "ta_cursor_row app = r" "ta_ansi_state app = 0" using assms(1) by (auto simp: printing_def)
  define b where "b = a\<lparr>ta_cursor_col := 0, ta_cursor_row := Suc r\<rparr>"
  have row: "ta_cursor_row a = r" using a(1) by (simp add: printing_def)
  have b: "printing b (Suc r) []"
    using a assms(2) by (auto simp: printing_def b_def term_ok_def TERM_LINE_MAX_def)
  have t: "term_append_ansi_char (CHR 0x0A) app = term_ensure_row b (Suc r)"
    using pos row assms(2) by (simp add: term_append_ansi_char_def term_append_char_def term_newline_def Let_def a_def [symmetric] b_def)
  show "printing (term_append_ansi_char (CHR 0x0A) app) (Suc r) []" "ta_lines (term_append_ansi_char (CHR 0x0A) app) = ta_lines app"
    unfolding t using printing_ensure [OF b] a(2) by (simp_all add: b_def)
qed

lemma printing_text:
  assumes "printing app r s" "length s + length t < TERM_LINE_MAX" "\<forall>c\<in>set t. graphic c"
  shows "printing (term_append_text t app) r (s @ t)" "\<forall>r'. r' \<noteq> r \<longrightarrow> ta_lines (term_append_text t app) r' = ta_lines app r'"
proof -
  have "printing (term_append_text t app) r (s @ t) \<and> (\<forall>r'. r' \<noteq> r \<longrightarrow> ta_lines (term_append_text t app) r' = ta_lines app r')"
    using assms
  proof (induction t arbitrary: app s)
    case (Cons c t)
    have p: "printing (term_append_ansi_char c app) r (s @ [c])"
      "\<forall>r'. r' \<noteq> r \<longrightarrow> ta_lines (term_append_ansi_char c app) r' = ta_lines app r'"
      using printing_char [OF Cons.prems(1), of c] Cons.prems(2,3) by simp_all
    have "length (s @ [c]) + length t < TERM_LINE_MAX" "\<forall>c\<in>set t. graphic c" using Cons.prems(2,3) by simp_all
    from Cons.IH [OF p(1) this] p(2) show ?case by (simp add: term_append_text_def)
  qed (simp add: term_append_text_def)
  then show "printing (term_append_text t app) r (s @ t)" "\<forall>r'. r' \<noteq> r \<longrightarrow> ta_lines (term_append_text t app) r' = ta_lines app r'" by simp_all
qed

lemma append_text_append: "term_append_text (s @ t) app = term_append_text t (term_append_text s app)"
  by (simp add: term_append_text_def)


lemma printing_start: "printing start_screen 0 []"
  using start_screen_ok by (auto simp: printing_def start_screen_def term_clear_def term_reset_style_def zero_screen_def fill_grid_def row_is_def)


text \<open>Over a row that is not blank.\<close>

lemma overwrite_text:
  assumes "term_ok app" "ta_ansi_state app = 0" "ta_cursor_row app < ta_line_count app" "ta_cursor_col app = k" "k \<le> length s"
    "k + length t < TERM_LINE_MAX" "length s < TERM_LINE_MAX"
    "\<forall>c\<in>set t. graphic c" "\<forall>c\<in>set s. graphic c" "row_is (ta_lines app (ta_cursor_row app)) s"
  shows "ta_cursor_row (term_append_text t app) = ta_cursor_row app \<and> 
    row_is (ta_lines (term_append_text t app) (ta_cursor_row app)) (take k s @ t @ drop (k + length t) s)"
  using assms
proof (induction t arbitrary: app k s)
  case (Cons c t)
  let ?r = "ta_cursor_row app"
  define a where "a = (put_cell app ?r k c)\<lparr>ta_cursor_col := k + 1\<rparr>"
  have r: "?r < TERM_LINES" using Cons.prems(1) by (simp add: term_ok_def)
  have "append_graphic c app = a" unfolding a_def Cons.prems(4) [symmetric]
    by (rule graphic_step) (use Cons.prems r graphic_NUL(1) in \<open>auto simp: row_is_def\<close>)
  then have t: "term_append_ansi_char c app = a" using graphic_NUL(2) [of c] Cons.prems(2,8)
    by (auto simp: term_append_ansi_char_def term_append_char_def)
  define s' where "s' = take k s @ c # drop (Suc k) s"
  have n: "length s' = max (length s) (Suc k)" using Cons.prems(5) by (auto simp: s'_def)
  have "row_is (ta_lines a ?r) s'"
    using Cons.prems(5,6,10) by (auto simp: row_is_def a_def put_cell_def set_cell_def s'_def nth_append nth_Cons' min_def)
  moreover have "term_ok a" using inner_ansi_char [OF Cons.prems(1), of c] t by (simp add: inner_def)
  moreover have "\<forall>c\<in>set s'. graphic c" using Cons.prems(8,9) by (auto simp: s'_def dest: in_set_takeD in_set_dropD)
  ultimately have ih: "ta_cursor_row (term_append_text t a) = ta_cursor_row a \<and>
    row_is (ta_lines (term_append_text t a) (ta_cursor_row a)) (take (Suc k) s' @ t @ drop (Suc k + length t) s')"
    using Cons.prems n by (intro Cons.IH) (auto simp: a_def c_frame)
  have "take (Suc k) s' @ t @ drop (Suc k + length t) s' = take k s @ (c # t) @ drop (k + length (c # t)) s"
    using Cons.prems(5) by (simp add: s'_def min_def add.commute)
  then show ?case using ih by (simp add: term_append_text_def t a_def c_frame)
qed (simp add: term_append_text_def)

text \<open>C35: on a full screen the new bottom row is not cleared: after a line end it shows the new text and behind it the
  rest of the old line, whose copy has moved up by one row.\<close>

theorem term_scroll_leaves_tail:
  assumes "term_ok app" "ta_ansi_state app = 0" "ta_line_count app = TERM_LINES" "ta_cursor_row app = TERM_LINES - 1"
    and "row_is (ta_lines app (TERM_LINES - 1)) old" "length old < TERM_LINE_MAX" "\<forall>c\<in>set old. graphic c"
    and "t \<noteq> []" "length t < TERM_LINE_MAX" "\<forall>c\<in>set t. graphic c"
  shows "row_text (term_append_text (CHR 0x0A # t) app) (TERM_LINES - 1) = t @ drop (length t) old \<and>
    row_text (term_append_ansi_char (CHR 0x0A) app) (TERM_LINES - 2) = old"
proof -
  define r where "r = TERM_LINES - 1"
  have r: "r < TERM_LINES" "Suc r = TERM_LINES" "0 < r" by (simp_all add: r_def TERM_LINES_def)
  define a where "a = term_append_ansi_char (CHR 0x0A) app"
  have e: "term_ensure_row app r = app" by (rule ensure_row_id) (simp_all add: assms(3) r)
  have cr: "ta_cursor_row app = r" by (simp add: assms(4) r_def)
  have a: "a = (term_shift_lines (app\<lparr>ta_cursor_col := 0\<rparr>))\<lparr>ta_line_count := TERM_LINES\<rparr>"
    using assms(2) r(2) by (simp add: a_def term_append_ansi_char_def term_append_char_def term_newline_def Let_def cr e)
  have pos: "ta_cursor_row a = r" "ta_cursor_col a = 0" "ta_line_count a = TERM_LINES" "ta_ansi_state a = 0"
    using assms(2,4) by (simp_all add: a term_shift_lines_def r_def)
  have ok: "term_ok a" using inner_ansi_char [OF assms(1), of "CHR 0x0A"] by (simp add: a_def inner_def)
  have old: "row_is (ta_lines app r) old" using assms(5) by (simp add: r_def)
  have last: "ta_lines a r = (ta_lines app r)(0 := NUL)" using r by (simp add: a term_shift_lines_def)
  have up: "row_text a (r - 1) = old"
  proof (rule row_is_text [OF _ assms(6,7)])
    have "row_len (ta_lines app r) = length old" using old assms(6,7) graphic_NUL(1) by (intro row_len_eq) (auto simp: row_is_def)
    then have "row_is (row_copy (ta_lines app (r - 1)) (ta_lines app r)) old"
      using old assms(6) by (auto simp: row_is_def row_copy_def TERM_LINE_MAX_def)
    then show "row_is (ta_lines a (r - 1)) old" using r by (simp add: a term_shift_lines_def)
  qed
  obtain c t' where t: "t = c # t'" using assms(8) by (cases t) auto
  define b where "b = (put_cell a r 0 c)\<lparr>ta_cursor_col := 1\<rparr>"
  have "append_graphic c a = b"
    using graphic_step [of a c] pos r assms(10) t by (simp add: b_def TERM_LINE_MAX_def)
  then have ab: "term_append_ansi_char c a = b" using graphic_NUL(2) [of c] pos(4) assms(10) t
    by (auto simp: term_append_ansi_char_def term_append_char_def)
  have "term_ok b" using inner_ansi_char [OF ok, of c] by (simp add: ab inner_def)
  moreover have "row_is (ta_lines b (ta_cursor_row b)) (c # drop 1 old)"
    using old by (auto simp: row_is_def b_def put_cell_def set_cell_def last pos nth_Cons split: nat.split)
  moreover have "\<forall>c\<in>set (c # drop 1 old). graphic c" using assms(7,10) t by (auto dest: in_set_dropD)
  ultimately have w: "ta_cursor_row (term_append_text t' b) = ta_cursor_row b \<and>
    row_is (ta_lines (term_append_text t' b) (ta_cursor_row b)) (take 1 (c # drop 1 old) @ t' @ drop (1 + length t') (c # drop 1 old))"
    using pos r assms(6,9,10) t by (intro overwrite_text) (auto simp: b_def c_frame)
  have "row_is (ta_lines (term_append_text t' b) r) (t @ drop (length t) old)"
    using w by (simp add: b_def c_frame pos t)
  moreover have "term_append_text (CHR 0x0A # t) app = term_append_text t' b" by (simp add: term_append_text_def t ab a_def [symmetric])
  moreover have "length (t @ drop (length t) old) < TERM_LINE_MAX" using assms(6,9) by simp
  moreover have "\<forall>c\<in>set (t @ drop (length t) old). graphic c" using assms(7,10) by (auto dest: in_set_dropD)
  ultimately have "row_text (term_append_text (CHR 0x0A # t) app) r = t @ drop (length t) old" by (metis row_is_text)
  then show ?thesis using up by (simp add: r_def a_def numeral_2_eq_2)
qed

text \<open>A full screen: 127 short lines and one at the bottom.\<close>

definition full_screen :: term_screen where
  "full_screen = start_screen\<lparr>ta_lines := (\<lambda>row col. if row < TERM_LINES \<and> col < 5 then ''hello'' ! col else NUL),
     ta_line_count := TERM_LINES, ta_cursor_row := TERM_LINES - 1, ta_cursor_col := 5\<rparr>"

theorem term_scroll_leaves_tail_witness:
  "row_text (term_append_text (CHR 0x0A # ''ab'') full_screen) (TERM_LINES - 1) = ''abllo''"
proof -
  have ok: "term_ok full_screen" "ta_ansi_state full_screen = 0" "ta_line_count full_screen = TERM_LINES"
    "ta_cursor_row full_screen = TERM_LINES - 1" "row_is (ta_lines full_screen (TERM_LINES - 1)) ''hello''"
    using start_screen_ok by (auto simp: full_screen_def term_ok_def term_sizes row_is_def start_screen_def term_clear_def term_reset_style_def zero_screen_def)
  have g: "length ''hello'' < TERM_LINE_MAX" "\<forall>c\<in>set ''hello''. graphic c" "''ab'' \<noteq> []" "length ''ab'' < TERM_LINE_MAX" "\<forall>c\<in>set ''ab''. graphic c"
    by (code_simp, code_simp, simp, code_simp, code_simp)
  from term_scroll_leaves_tail [OF ok g] show ?thesis by simp
qed

section \<open>Escape sequences\<close>

fun params_text :: "nat list \<Rightarrow> string" where
  "params_text [] = []"
| "params_text [n] = u64_dec n"
| "params_text (n # ns) = u64_dec n @ CHR '';'' # params_text ns"

lemma params_text_Cons: "ns \<noteq> [] \<Longrightarrow> params_text (n # ns) = u64_dec n @ CHR '';'' # params_text ns"
  by (cases ns) simp_all

lemma params_digits:
  assumes "\<forall>c\<in>set ds. c_isdigit (uchar c)" "foldl (\<lambda>v c. v * 10 + nat (uchar c - 48)) v ds \<le> U64_MAX"
  shows "params_loop m (ds @ rest) i v h vs =
    params_loop m rest (i + length ds) (foldl (\<lambda>v c. v * 10 + nat (uchar c - 48)) v ds) (h \<or> ds \<noteq> []) vs"
  using assms
proof (induction ds arbitrary: i v h)
  case (Cons c ds)
  define d where "d = nat (uchar c - 48)"
  have c: "48 \<le> uchar c \<and> uchar c \<le> 57" using Cons.prems(1) by (simp add: c_isdigit_def)
  have "v * 10 + d \<le> U64_MAX" using Cons.prems(2) dec_foldl_le [of "v * 10 + d" ds] by (simp add: d_def)
  then have "add64 (mul64 v 10) d = v * 10 + d" by (simp add: add64_def mul64_def U64_MAX_def mod_add_left_eq)
  then show ?case using Cons.IH [of "v * 10 + d" "i + 1" True] Cons.prems c by (simp add: d_def)
qed simp

lemma params_loop_text:
  assumes "ns \<noteq> []" "\<forall>n\<in>set ns. n \<le> U64_MAX" "length vs + length ns \<le> m"
  shows "params_loop m (params_text ns) i 0 False vs = vs @ ns"
  using assms
proof (induction ns arbitrary: i vs)
  case (Cons n ns)
  have n: "n \<le> U64_MAX" using Cons.prems(2) by simp
  have d: "params_loop m (u64_dec n @ rest) i 0 False vs = params_loop m rest (i + length (u64_dec n)) n True vs" for rest
    using params_digits [of "u64_dec n" 0 m rest i False vs] u64_dec_spec(1-3) [OF n] n by (simp add: dec_val_def)
  show ?case
  proof (cases "ns = []")
    case True
    then show ?thesis using d [of "[]"] Cons.prems(3) by simp
  next
    case False
    then show ?thesis using d [of "CHR '';'' # params_text ns"] Cons.prems Cons.IH [of "vs @ [n]"]
      by (simp add: params_text_Cons uchar_def)
  qed
qed simp

lemma parse_params_text [c_spec]:
  assumes "ns \<noteq> []" "\<forall>n\<in>set ns. n \<le> U64_MAX" "length ns \<le> 16"
  shows "term_ansi_parse_params (params_text ns) 16 = ns"
proof -
  have "params_text ns \<noteq> []" using u64_dec_spec(3) assms(1,2) by (cases ns rule: params_text.cases) auto
  then show ?thesis using params_loop_text [OF assms(1,2), of "[]" 16 0] assms(3) by (simp add: term_ansi_parse_params_def)
qed

lemma params_chars: "\<forall>n\<in>set ns. n \<le> U64_MAX \<Longrightarrow> \<forall>c\<in>set (params_text ns). param_char c"
proof (induction ns rule: params_text.induct)
  case (2 n)
  then show ?case using u64_dec_spec(2) [of n] by (auto simp: param_char_def c_isdigit_def)
next
  case (3 n m ns)
  then show ?case using u64_dec_spec(2) [of n] by (auto simp: param_char_def c_isdigit_def)
qed simp

lemma u64_dec_length: "length (u64_dec n) \<le> 32"
proof -
  have "length buf \<le> 32 \<Longrightarrow> length (dec_loop v buf) \<le> 32" for v buf
    by (induction v buf rule: dec_loop.induct) (simp add: dec_loop.simps)
  then show ?thesis by (simp add: u64_dec_def)
qed

text \<open>A whole sequence.\<close>

lemma csi_text:
  assumes "ta_ansi_state app = 0" "\<forall>c\<in>set ps. param_char c" "length ps < TERM_ANSI_MAX" "\<not> param_char f"
  shows "term_append_text (CHR 0x1B # CHR ''['' # ps @ [f]) app =
    (term_csi f (app\<lparr>ta_ansi_state := 2, ta_ansi_buf := ps\<rparr>))\<lparr>ta_ansi_state := 0, ta_ansi_buf := []\<rparr>"
proof -
  have "term_append_text ps (app\<lparr>ta_ansi_state := 2, ta_ansi_buf := qs\<rparr>) = app\<lparr>ta_ansi_state := 2, ta_ansi_buf := qs @ ps\<rparr>"
    if "length qs + length ps < TERM_ANSI_MAX" "\<forall>c\<in>set ps. param_char c" for qs ps
    using that
  proof (induction ps arbitrary: qs)
    case (Cons c ps)
    then have "term_append_ansi_char c (app\<lparr>ta_ansi_state := 2, ta_ansi_buf := qs\<rparr>) = app\<lparr>ta_ansi_state := 2, ta_ansi_buf := qs @ [c]\<rparr>"
      by (simp add: term_append_ansi_char_def)
    then show ?case using Cons.IH [of "qs @ [c]"] Cons.prems by (simp add: term_append_text_def)
  qed (simp add: term_append_text_def)
  from this [of "[]" ps] assms show ?thesis
    by (simp add: term_append_text_def term_append_ansi_char_def term_apply_ansi_def)
qed

lemma not_param: "\<not> param_char (CHR ''H'')" "\<not> param_char (CHR ''m'')" "\<not> param_char (CHR ''K'')"
  by (simp_all add: param_char_def uchar_def)



text \<open>\<open>ESC [ 38 ; 2 ; r ; g ; b m\<close> sets the drawing colour to exactly this colour, \<open>ESC [ 48 ; 5 ; n m\<close> the
  background to entry \<open>n\<close> of the palette, and every \<open>m\<close> sequence leaves text and cursor alone.\<close>

theorem term_colours:
  assumes "ta_ansi_state app = 0" "r \<le> 255" "g \<le> 255" "b \<le> 255" "n \<le> 255" "ns \<noteq> []" "length ns \<le> 2" "\<forall>k\<in>set ns. k \<le> U64_MAX"
  shows "term_append_text (CHR 0x1B # CHR ''['' # params_text [38, 2, r, g, b] @ ''m'') app =
      app\<lparr>ta_current_fg := push_bit 16 (of_nat r) OR push_bit 8 (of_nat g) OR of_nat b, ta_ansi_buf := []\<rparr> \<and>
    term_append_text (CHR 0x1B # CHR ''['' # params_text [48, 5, n] @ ''m'') app =
      app\<lparr>ta_current_bg := term_ansi_color_from_256 n, ta_ansi_buf := []\<rparr> \<and>
    unstyled (term_append_text (CHR 0x1B # CHR ''['' # params_text ns @ ''m'') app) = unstyled (app\<lparr>ta_ansi_buf := []\<rparr>)"
proof -
  have len: "length (params_text [x]) < TERM_ANSI_MAX" "length (params_text [x, y]) < TERM_ANSI_MAX" for x y
    using u64_dec_length [of x] u64_dec_length [of y] by (simp_all add: TERM_ANSI_MAX_def)
  have short: "length (u64_dec k) \<le> 3" if "k < 1000" for k
  proof -
    have "k div 10 div 10 div 10 = 0" using that by simp
    moreover have "dec_loop 0 buf = buf" for buf by (simp add: dec_loop.simps)
    ultimately show ?thesis by (auto simp: u64_dec_def dec_loop.simps [of k] dec_loop.simps [of "k div 10"] dec_loop.simps [of "k div 10 div 10"]
        dec_loop.simps [of "k div 10 div 10 div 10"])
  qed
  have csi: "term_append_text (CHR 0x1B # CHR ''['' # params_text ks @ ''m'') app = (sgr_loop ks (app\<lparr>ta_ansi_state := 2, ta_ansi_buf := params_text ks\<rparr>))
      \<lparr>ta_ansi_state := 0, ta_ansi_buf := []\<rparr>"
    if "ks \<noteq> []" "\<forall>k\<in>set ks. k \<le> U64_MAX" "length ks \<le> 16" "length (params_text ks) < TERM_ANSI_MAX" for ks
    using csi_text [OF assms(1) params_chars [OF that(2)] that(4) not_param(2)] parse_params_text [OF that(1-3)]
    by (simp add: term_csi_def Let_def term_apply_sgr_def)
  have l5: "length (params_text [38, 2, r, g, b]) < TERM_ANSI_MAX" "length (params_text [48, 5, n]) < TERM_ANSI_MAX"
    using short [of 38] short [of 2] short [of r] short [of g] short [of b] short [of 48] short [of 5] short [of n] assms(2-5)
    by (simp_all add: TERM_ANSI_MAX_def)
  have u: "\<forall>k\<in>set [38, 2, r, g, b]. k \<le> U64_MAX" "\<forall>k\<in>set [48, 5, n]. k \<le> U64_MAX" using assms(2-5) by (simp_all add: U64_MAX_def)
  have c: "term_ansi_clamp_255 k = of_nat k" if "k \<le> 255" for k using that by (simp add: term_ansi_clamp_255_def)
  have ln: "length (params_text ns) < TERM_ANSI_MAX"
    using assms(6,7) len by (cases ns; cases "tl ns") auto
  have "term_append_text (CHR 0x1B # CHR ''['' # params_text [38, 2, r, g, b] @ ''m'') app =
      app\<lparr>ta_current_fg := push_bit 16 (of_nat r) OR push_bit 8 (of_nat g) OR of_nat b, ta_ansi_buf := []\<rparr>"
    using csi [OF _ u(1) _ l5(1)] assms(1-4) by (simp add: set_ground_def rgb_def c del: params_text.simps)
  moreover have "term_append_text (CHR 0x1B # CHR ''['' # params_text [48, 5, n] @ ''m'') app =
      app\<lparr>ta_current_bg := term_ansi_color_from_256 n, ta_ansi_buf := []\<rparr>"
    using csi [OF _ u(2) _ l5(2)] assms(1) by (simp add: set_ground_def del: params_text.simps)
  moreover have "unstyled (term_append_text (CHR 0x1B # CHR ''['' # params_text ns @ ''m'') app) = unstyled (app\<lparr>ta_ansi_buf := []\<rparr>)"
  proof -
    have f: "unstyled (x\<lparr>ta_ansi_state := 0, ta_ansi_buf := []\<rparr>) = (unstyled x)\<lparr>ta_ansi_state := 0, ta_ansi_buf := []\<rparr>" for x :: "'a term_screen_scheme"
      by (simp add: unstyled_def)
    show ?thesis using csi [OF assms(6,8) _ ln] assms(1,7) by (simp add: f c_frame) (simp add: unstyled_def)
  qed
  ultimately show ?thesis by simp
qed

theorem term_colours_witness:
  "ta_current_fg (term_append_text (CHR 0x1B # CHR ''['' # params_text [38, 2, 255, 0, 7] @ ''m'') start_screen) = 0xFF0007"
proof -
  have s: "ta_ansi_state start_screen = 0" by (simp add: start_screen_def term_clear_def term_reset_style_def zero_screen_def)
  from term_colours [OF s, of 255 0 7 0 "[0]"] show ?thesis by (simp del: params_text.simps)
qed

section \<open>Erasing\<close>

definition blank :: "char \<Rightarrow> bool" where
  "blank c \<longleftrightarrow> c = CHR '' '' \<or> c = NUL"

lemma trim_loop_spec:
  assumes "m \<le> n" "\<forall>i. m \<le> i \<and> i < n \<longrightarrow> blank (line i)" "m = 0 \<or> \<not> blank (line (m - 1))"
  shows "trim_loop line n = (\<lambda>i. if (m \<le> i \<and> i < n) \<or> (i = m \<and> 0 < m) then NUL else line i)"
  using assms
proof (induction line n rule: trim_loop.induct)
  case (2 line col)
  show ?case
  proof (cases "m = Suc col")
    case True
    then show ?thesis using 2(4) by (auto simp: blank_def fun_eq_iff)
  next
    case False
    then have b: "blank (line col)" "m \<le> col" using 2(2,3) by auto
    have "trim_loop (line(col := NUL)) col = (\<lambda>i. if (m \<le> i \<and> i < col) \<or> (i = m \<and> 0 < m) then NUL else (line(col := NUL)) i)"
      using b 2(3,4) by (intro 2(1)) (auto simp: blank_def)
    then show ?thesis using b by (auto simp: blank_def fun_eq_iff)
  qed
qed auto

text \<open>A text without the spaces at its end.\<close>

definition rstrip :: "string \<Rightarrow> string" where
  "rstrip s = rev (dropWhile (\<lambda>c. c = CHR '' '') (rev s))"

lemma rstrip_split: "\<exists>k. s = rstrip s @ replicate k (CHR '' '')"
proof -
  have "rev s = takeWhile (\<lambda>c. c = CHR '' '') (rev s) @ dropWhile (\<lambda>c. c = CHR '' '') (rev s)" by simp
  then have "s = rstrip s @ rev (takeWhile (\<lambda>c. c = CHR '' '') (rev s))" unfolding rstrip_def by (metis rev_append rev_rev_ident)
  moreover have "takeWhile (\<lambda>c. c = CHR '' '') xs = replicate (length (takeWhile (\<lambda>c. c = CHR '' '') xs)) (CHR '' '')" for xs :: string
    by (induction xs) auto
  ultimately show ?thesis by (metis rev_replicate)
qed

lemma rstrip_last: "rstrip s \<noteq> [] \<Longrightarrow> last (rstrip s) \<noteq> CHR '' ''"
  using hd_dropWhile [of "\<lambda>c. c = CHR '' ''" "rev s"] by (auto simp: rstrip_def last_rev)

text \<open>The columns of the row after clearing from \<open>a\<close> on, and the other rows.\<close>

lemma fold_clear_lines:
  assumes "row < TERM_LINES" "b \<le> TERM_LINE_MAX"
  shows "ta_lines (fold (\<lambda>col app. term_clear_cell app row col) [a..<b] app) =
    (ta_lines app)(row := (\<lambda>i. if a \<le> i \<and> i < b then CHR '' '' else ta_lines app row i))"
  using assms(2)
proof (induction b)
  case (Suc b)
  define x where "x = fold (\<lambda>col app. term_clear_cell app row col) [a..<b] app"
  have ih: "ta_lines x = (ta_lines app)(row := (\<lambda>i. if a \<le> i \<and> i < b then CHR '' '' else ta_lines app row i))"
    unfolding x_def by (rule Suc.IH) (use Suc.prems in simp)
  show ?case
  proof (cases "a \<le> b")
    case True
    have "ta_lines (term_clear_cell x row b) = set_cell (ta_lines x) row b (CHR '' '')"
      using assms(1) Suc.prems by (simp add: term_clear_cell_def put_cell_def)
    then have "ta_lines (fold (\<lambda>col app. term_clear_cell app row col) [a..<Suc b] app) = set_cell (ta_lines x) row b (CHR '' '')"
      using True by (simp add: x_def)
    also have "\<dots> = (ta_lines app)(row := (\<lambda>i. if a \<le> i \<and> i < Suc b then CHR '' '' else ta_lines app row i))"
      unfolding ih using True by (auto simp: set_cell_def fun_eq_iff less_Suc_eq)
    finally show ?thesis .
  next
    case False
    then have "(\<lambda>i. if a \<le> i \<and> i < Suc b then CHR '' '' else ta_lines app row i) = ta_lines app row" by (auto simp: fun_eq_iff)
    then show ?thesis using False by simp
  qed
qed simp

text \<open>\<open>ESC [ K\<close> leaves the text in front of the cursor, without the spaces at its end, and erases the rest of the row;
  the other rows, the cursor and the style stay.\<close>

theorem term_erase_to_end:
  assumes "term_ok app" "ta_ansi_state app = 0" "row_is (ta_lines app (ta_cursor_row app)) s" "length s < TERM_LINE_MAX" "\<forall>c\<in>set s. graphic c"
    and "ta_cursor_col app \<le> length s"
  defines "app' \<equiv> term_append_text (CHR 0x1B # CHR ''['' # ''K'') app"
  shows "row_text app' (ta_cursor_row app) = rstrip (take (ta_cursor_col app) s) \<and>
    (\<forall>row. row \<noteq> ta_cursor_row app \<longrightarrow> ta_lines app' row = ta_lines app row) \<and> ta_cursor_col app' = ta_cursor_col app"
proof -
  define r where "r = ta_cursor_row app"
  define k where "k = ta_cursor_col app"
  define u where "u = rstrip (take k s)"
  obtain j where u: "take k s = u @ replicate j (CHR '' '')" using rstrip_split [of "take k s"] by (auto simp: u_def)
  have r: "r < TERM_LINES" using assms(1) by (simp add: term_ok_def r_def)
  have ku: "k = length u + j" using arg_cong [OF u, of length] assms(6) by (simp add: k_def)
  have klt: "k < TERM_LINE_MAX" using assms(1) by (simp add: term_ok_def k_def)
  define b where "b = app\<lparr>ta_ansi_state := 2, ta_ansi_buf := []\<rparr>"
  have "app' = (term_csi (CHR ''K'') b)\<lparr>ta_ansi_state := 0, ta_ansi_buf := []\<rparr>"
    using csi_text [OF assms(2) _ _ not_param(3), of "[]"] by (simp add: app'_def b_def TERM_ANSI_MAX_def)
  moreover have "term_csi (CHR ''K'') b = term_clear_line_range b r k (TERM_LINE_MAX - 1)"
    by (simp add: term_csi_def Let_def term_ansi_parse_params_def b_def term_erase_line_def r_def k_def)
  ultimately have app': "app' = (term_clear_line_range b r k (TERM_LINE_MAX - 1))\<lparr>ta_ansi_state := 0, ta_ansi_buf := []\<rparr>" by simp
  define f where "f = fold (\<lambda>col app. term_clear_cell app r col) [k..<TERM_LINE_MAX - 1] b"
  define line where "line = (\<lambda>i. if k \<le> i \<and> i < TERM_LINE_MAX - 1 then CHR '' '' else if i = TERM_LINE_MAX - 1 then NUL else ta_lines app r i)"
  have fl: "ta_lines f = (ta_lines app)(r := (\<lambda>i. if k \<le> i \<and> i < TERM_LINE_MAX - 1 then CHR '' '' else ta_lines app r i))"
  proof -
    have bl: "ta_lines b = ta_lines app" by (simp add: b_def)
    show ?thesis using fold_clear_lines [OF r, of "TERM_LINE_MAX - 1" k b] unfolding f_def [symmetric] bl by simp
  qed
  have t: "term_clear_line_range b r k (TERM_LINE_MAX - 1) = term_trim_line f r"
    using r by (simp add: term_clear_line_range_def Let_def f_def)
  have l: "ta_lines app' = (ta_lines app)(r := trim_loop line (TERM_LINE_MAX - 1))"
  proof -
    have "(ta_lines f r)(TERM_LINE_MAX - 1 := NUL) = line" by (auto simp: fl line_def fun_eq_iff)
    then have "ta_lines (term_trim_line f r) = (ta_lines f)(r := trim_loop line (TERM_LINE_MAX - 1))"
      using r by (simp add: term_trim_line_def)
    then show ?thesis by (simp add: app' t [simplified] fl)
  qed
  have at: "ta_lines app r i = s ! i" if "i < length s" for i using assms(3,4) that by (auto simp: row_is_def r_def)
  have us: "line i = (u @ replicate j (CHR '' '')) ! i" if "i < k" for i
  proof -
    have "line i = take k s ! i" using at [of i] that klt assms(6) by (auto simp: line_def k_def)
    then show ?thesis by (simp add: u)
  qed
  have ul: "length u \<le> TERM_LINE_MAX - 1" using ku klt by linarith
  have g: "\<forall>c\<in>set u. graphic c" using assms(5) arg_cong [OF u, of set] by (auto dest: in_set_takeD)
  have trim: "trim_loop line (TERM_LINE_MAX - 1) = (\<lambda>i. if (length u \<le> i \<and> i < TERM_LINE_MAX - 1) \<or> (i = length u \<and> 0 < length u) then NUL else line i)"
  proof (rule trim_loop_spec [OF ul])
    show "\<forall>i. length u \<le> i \<and> i < TERM_LINE_MAX - 1 \<longrightarrow> blank (line i)"
    proof (intro allI impI)
      fix i assume i: "length u \<le> i \<and> i < TERM_LINE_MAX - 1"
      show "blank (line i)"
      proof (cases "i < k")
        case True
        then have "i - length u < j" using i ku by arith
        then show ?thesis using us [OF True] i by (simp add: nth_append blank_def)
      next
        case False
        then show ?thesis using i by (simp add: line_def blank_def)
      qed
    qed
    show "length u = 0 \<or> \<not> blank (line (length u - 1))"
    proof (cases "u = []")
      case False
      then have "line (length u - 1) = last u" using us [of "length u - 1"] ku by (cases u) (simp_all add: nth_append last_conv_nth)
      moreover have "last u \<noteq> CHR '' ''" using False rstrip_last by (simp add: u_def)
      moreover have "last u \<noteq> NUL" using False g graphic_NUL(1) by auto
      ultimately show ?thesis by (simp add: blank_def)
    qed simp
  qed
  have "line i = u ! i" if "i < length u" for i using us [of i] that ku by (simp add: nth_append)
  moreover have "line (TERM_LINE_MAX - 1) = NUL" by (simp add: line_def)
  ultimately have "row_is (ta_lines app' r) u"
    unfolding l trim using ul not_less_less_Suc_eq [of _ 159] by (auto simp: row_is_def TERM_LINE_MAX_def)
  then have "row_text app' r = u" by (rule row_is_text) (use ul g in \<open>auto simp: TERM_LINE_MAX_def\<close>)
  moreover have "ta_cursor_col f = ta_cursor_col b" unfolding f_def
    by (rule fold_keeps [of "\<lambda>x. ta_cursor_col x = ta_cursor_col b"]) (simp_all add: term_clear_cell_def c_frame)
  then have "ta_cursor_col app' = ta_cursor_col app" unfolding app' t by (simp add: term_trim_line_def) (simp add: b_def)
  ultimately show ?thesis using l by (simp add: r_def k_def u_def)
qed

theorem term_erase_to_end_witness:
  "row_text (term_append_text (CHR 0x1B # CHR ''['' # ''K'') (full_screen\<lparr>ta_cursor_col := 2\<rparr>)) 127 = ''he''"
proof -
  define a where "a = full_screen\<lparr>ta_cursor_col := 2\<rparr>"
  have a: "term_ok a" "ta_ansi_state a = 0" "row_is (ta_lines a (ta_cursor_row a)) ''hello''"
    using start_screen_ok by (auto simp: a_def full_screen_def term_ok_def term_sizes row_is_def start_screen_def term_clear_def term_reset_style_def zero_screen_def)
  have g: "length ''hello'' < TERM_LINE_MAX" "\<forall>c\<in>set ''hello''. graphic c" "rstrip ''he'' = ''he''" by (code_simp, code_simp, code_simp)
  have c: "ta_cursor_col a = 2" "ta_cursor_row a = 127" by (simp_all add: a_def full_screen_def TERM_LINES_def)
  from term_erase_to_end [OF a g(1,2)] show ?thesis by (simp add: a_def [symmetric] c g(3))
qed

end
