(* ===== verification/UwmWindow.thy ===== *)
theory UwmWindow
  imports UshText
begin

text \<open>
  The windows of the window manager (\<open>apps/uwm/uwm_util.c\<close>, \<open>apps/uwm/uwm_window.c\<close>): six windows with their
  pixel buffers, the operations that create, move, resize, minimize, close and restore them, and the buttons of
  the taskbar. The system calls and the allocator are the record \<open>wm_kernel\<close> over a state of the kernel. A buffer
  is its address (0 is null) and its number of pixels; what is painted into it is not modelled, except for the list of the
  taskbar's buttons. A C \<open>int\<close> is an \<open>int\<close>.
\<close>

section \<open>Definitions\<close>

definition USH_UWM_APP_COUNT :: int where "USH_UWM_APP_COUNT = 4"
definition USH_UWM_TERMINAL_INDEX :: int where "USH_UWM_TERMINAL_INDEX = 1"
definition USH_UWM_TASKBAR_INDEX :: int where "USH_UWM_TASKBAR_INDEX = 4"
definition USH_UWM_START_INDEX :: int where "USH_UWM_START_INDEX = 5"
definition USH_UWM_WINDOW_COUNT :: int where "USH_UWM_WINDOW_COUNT = 6"
definition USH_UWM_TOP_CLAMP_Y :: int where "USH_UWM_TOP_CLAMP_Y = 24"
definition USH_UWM_TASKBAR_H :: int where "USH_UWM_TASKBAR_H = 48"
definition USH_UWM_MIN_WINDOW_W :: int where "USH_UWM_MIN_WINDOW_W = 220"
definition USH_UWM_MIN_WINDOW_H :: int where "USH_UWM_MIN_WINDOW_H = 150"
definition USH_UWM_TASKBAR_START_W :: int where "USH_UWM_TASKBAR_START_W = 48"
definition USH_UWM_TASKBAR_SEARCH_W :: int where "USH_UWM_TASKBAR_SEARCH_W = 220"
definition USH_UWM_TASKBAR_BUTTON_W :: int where "USH_UWM_TASKBAR_BUTTON_W = 132"
definition USH_UWM_TASKBAR_BUTTON_GAP :: int where "USH_UWM_TASKBAR_BUTTON_GAP = 6"
definition USH_UWM_TASKBAR_DYNAMIC_MAX :: nat where "USH_UWM_TASKBAR_DYNAMIC_MAX = 32"
definition USH_UWM_WM_FLAG_TOPMOST :: nat where "USH_UWM_WM_FLAG_TOPMOST = 1"
definition CLEONOS_PROC_STATE_UNUSED :: nat where "CLEONOS_PROC_STATE_UNUSED = 0"
definition CLEONOS_PROC_STATE_PENDING :: nat where "CLEONOS_PROC_STATE_PENDING = 1"
definition CLEONOS_PROC_STATE_EXITED :: nat where "CLEONOS_PROC_STATE_EXITED = 3"

lemmas uwm_consts = USH_UWM_APP_COUNT_def USH_UWM_TERMINAL_INDEX_def USH_UWM_TASKBAR_INDEX_def USH_UWM_START_INDEX_def
  USH_UWM_WINDOW_COUNT_def USH_UWM_TOP_CLAMP_Y_def USH_UWM_TASKBAR_H_def USH_UWM_MIN_WINDOW_W_def USH_UWM_MIN_WINDOW_H_def

text \<open>An \<open>int\<close> handed over as \<open>u64\<close>.\<close>

definition u64_of_int :: "int \<Rightarrow> nat" where
  "u64_of_int x = nat (x mod 2 ^ 64)"

datatype ush_uwm_window_kind = KIND_APP | KIND_TASKBAR | KIND_START

record ush_uwm_window =
  uw_id :: nat
  uw_x :: int
  uw_y :: int
  uw_w :: int
  uw_h :: int
  uw_pixels :: nat
  uw_pixel_count :: nat
  uw_alive :: bool
  uw_minimized :: bool
  uw_closed :: bool
  uw_topmost :: bool
  uw_maximized :: bool
  uw_restore_x :: int
  uw_restore_y :: int
  uw_restore_w :: int
  uw_restore_h :: int
  uw_dirty :: bool
  uw_kind :: ush_uwm_window_kind
  uw_accent :: nat
  uw_title :: string
  uw_subtitle :: string

record ush_uwm_session =
  us_screen_w :: int
  us_screen_h :: int
  us_active_window :: int
  us_dragging :: bool
  us_drag_window :: int
  us_drag_offset_x :: int
  us_drag_offset_y :: int
  us_resizing :: bool
  us_resize_window :: int
  us_resize_start_x :: int
  us_resize_start_y :: int
  us_resize_start_w :: int
  us_resize_start_h :: int
  us_resize_pending_w :: int
  us_resize_pending_h :: int
  us_start_open :: bool
  us_mouse_packet_seen :: nat
  us_app_registry_last_tick :: nat
  us_tty_before :: nat
  us_tty_switched :: bool
  us_last_error :: string
  us_app_pids :: "int \<Rightarrow> nat"
  us_app_states :: "int \<Rightarrow> nat"
  us_windows :: "int \<Rightarrow> ush_uwm_window"

text \<open>What the system calls write through pointers: the members that the program reads.\<close>

record wm_snapshot =
  sn_window_id :: nat
  sn_owner_pid :: nat
  sn_focused :: nat
  sn_presented :: nat

record wm_event =
  ev_type :: nat
  ev_arg0 :: nat
  ev_arg1 :: nat
  ev_arg2 :: nat
  ev_arg3 :: nat

record mouse_state =
  mo_x :: nat
  mo_y :: nat
  mo_buttons :: nat
  mo_packet_count :: nat
  mo_ready :: nat

text \<open>The calls, in the order id, x, y, width, height, flags where they have such arguments. \<open>None\<close> stands for the
  result 0 of a call that fills a structure, and the process information is the state and the path.\<close>

record 'k wm_kernel =
  wk_malloc :: "'k \<Rightarrow> nat \<Rightarrow> 'k \<times> nat"
  wk_free :: "'k \<Rightarrow> nat \<Rightarrow> 'k"
  wk_create :: "'k \<Rightarrow> nat \<Rightarrow> nat \<Rightarrow> nat \<Rightarrow> nat \<Rightarrow> nat \<Rightarrow> 'k \<times> nat"
  wk_destroy :: "'k \<Rightarrow> nat \<Rightarrow> 'k"
  wk_present :: "'k \<Rightarrow> nat \<Rightarrow> nat \<Rightarrow> nat \<Rightarrow> nat \<Rightarrow> nat \<Rightarrow> 'k \<times> nat"
  wk_move :: "'k \<Rightarrow> nat \<Rightarrow> nat \<Rightarrow> nat \<Rightarrow> 'k \<times> nat"
  wk_resize :: "'k \<Rightarrow> nat \<Rightarrow> nat \<Rightarrow> nat \<Rightarrow> 'k \<times> nat"
  wk_set_focus :: "'k \<Rightarrow> nat \<Rightarrow> 'k \<times> nat"
  wk_set_flags :: "'k \<Rightarrow> nat \<Rightarrow> nat \<Rightarrow> 'k"
  wk_count :: "'k \<Rightarrow> 'k \<times> nat"
  wk_id_at :: "'k \<Rightarrow> nat \<Rightarrow> 'k \<times> nat option"
  wk_snapshot :: "'k \<Rightarrow> nat \<Rightarrow> 'k \<times> wm_snapshot option"
  wk_proc_snapshot :: "'k \<Rightarrow> nat \<Rightarrow> 'k \<times> (nat \<times> string) option"
  wk_poll_event :: "'k \<Rightarrow> nat \<Rightarrow> 'k \<times> wm_event option"
  wk_mouse_state :: "'k \<Rightarrow> 'k \<times> mouse_state option"
  wk_spawn_pathv :: "'k \<Rightarrow> string \<Rightarrow> string \<Rightarrow> string \<Rightarrow> 'k \<times> nat"
  wk_timer_ticks :: "'k \<Rightarrow> 'k \<times> nat"
  wk_yield :: "'k \<Rightarrow> 'k"
  wk_sleep_ticks :: "'k \<Rightarrow> nat \<Rightarrow> 'k"
  wk_display_info :: "'k \<Rightarrow> 'k \<times> (nat \<times> nat) option"
  wk_tty_active :: "'k \<Rightarrow> 'k \<times> nat"
  wk_tty_switch :: "'k \<Rightarrow> nat \<Rightarrow> 'k"
  wk_kbd_get_char :: "'k \<Rightarrow> 'k \<times> nat option"
  wk_writeln :: "'k \<Rightarrow> string \<Rightarrow> 'k"

type_synonym 'k uwm = "'k \<times> ush_uwm_session"

definition upd_win :: "int \<Rightarrow> (ush_uwm_window \<Rightarrow> ush_uwm_window) \<Rightarrow> ush_uwm_session \<Rightarrow> ush_uwm_session" where
  "upd_win i f s = s\<lparr>us_windows := (us_windows s)(i := f (us_windows s i))\<rparr>"

subsection \<open>Helpers (\<open>uwm_util.c\<close>)\<close>

definition ush_uwm_window_index_valid :: "int \<Rightarrow> bool" where
  "ush_uwm_window_index_valid index \<longleftrightarrow> 0 \<le> index \<and> index < USH_UWM_WINDOW_COUNT"

definition ush_uwm_app_index_valid :: "int \<Rightarrow> bool" where
  "ush_uwm_app_index_valid index \<longleftrightarrow> 0 \<le> index \<and> index < USH_UWM_APP_COUNT"

definition ush_uwm_clampi :: "int \<Rightarrow> int \<Rightarrow> int \<Rightarrow> int" where
  "ush_uwm_clampi v min_value max_value =
     (if max_value < min_value then min_value else if v < min_value then min_value
      else if max_value < v then max_value else v)"

text \<open>The cast of a \<open>u64\<close> to \<open>i64\<close> and the cut to the range of \<open>int\<close>.\<close>

definition ush_uwm_u64_as_i32 :: "nat \<Rightarrow> int" where
  "ush_uwm_u64_as_i32 raw =
     (let v = (if raw < 2 ^ 63 then int raw else int raw - 2 ^ 64)
      in if v < INT_MIN then INT_MIN else if INT_MAX < v then INT_MAX else v)"

definition ush_uwm_local_window_index_by_id :: "ush_uwm_session \<Rightarrow> nat \<Rightarrow> int" where
  "ush_uwm_local_window_index_by_id s window_id =
     (if window_id = 0 then -1
      else (case filter (\<lambda>i. uw_id (us_windows s i) = window_id) [0..USH_UWM_WINDOW_COUNT - 1] of [] \<Rightarrow> -1 | i # _ \<Rightarrow> i))"

definition ush_uwm_taskbar_window_hidden :: "ush_uwm_session \<Rightarrow> nat \<Rightarrow> bool" where
  "ush_uwm_taskbar_window_hidden s window_id \<longleftrightarrow> window_id = 0 \<or>
     window_id = uw_id (us_windows s USH_UWM_TASKBAR_INDEX) \<or> window_id = uw_id (us_windows s USH_UWM_START_INDEX)"

text \<open>The part behind the last separator; the whole path when nothing follows it.\<close>

definition ush_uwm_basename :: "string \<Rightarrow> string" where
  "ush_uwm_basename path =
     (if path = [] then ''WINDOW''
      else (let base = rev (takeWhile (\<lambda>c. c \<noteq> CHR ''/'' \<and> c \<noteq> CHR 0x5C) (rev path))
            in if base \<noteq> [] then base else path))"

definition ush_uwm_append_u64_dec :: "string \<Rightarrow> nat \<Rightarrow> nat \<Rightarrow> string" where
  "ush_uwm_append_u64_dec dst dst_size v = dst @ take (dst_size - 1 - length dst) (u64_dec v)"

definition ush_uwm_taskbar_window_label ::
    "'k wm_kernel \<Rightarrow> 'k \<Rightarrow> ush_uwm_session \<Rightarrow> wm_snapshot \<Rightarrow> nat \<Rightarrow> 'k \<times> string" where
  "ush_uwm_taskbar_window_label K k s snap out_size =
     (if sn_window_id snap = 0 then (k, take (out_size - 1) ''WINDOW'')
      else (let local_index = ush_uwm_local_window_index_by_id s (sn_window_id snap)
            in if ush_uwm_app_index_valid local_index \<and> uw_title (us_windows s local_index) \<noteq> []
               then (k, take (out_size - 1) (uw_title (us_windows s local_index)))
               else (case (if sn_owner_pid snap \<noteq> 0 then wk_proc_snapshot K k (sn_owner_pid snap) else (k, None)) of (k, proc) \<Rightarrow>
                 if (case proc of None \<Rightarrow> False | Some (_, path) \<Rightarrow> path \<noteq> [])
                 then (k, take (out_size - 1) (ush_uwm_basename (snd (the proc))))
                 else (k, ush_uwm_append_u64_dec (take (out_size - 1) ''WIN '') out_size (sn_window_id snap)))))"

definition ush_uwm_app_registry_running :: "'k wm_kernel \<Rightarrow> int \<Rightarrow> 'k uwm \<Rightarrow> 'k uwm \<times> bool" where
  "ush_uwm_app_registry_running K index u =
     (case u of (k, s) \<Rightarrow>
       (let forget = s\<lparr>us_app_pids := (us_app_pids s)(index := 0), us_app_states := (us_app_states s)(index := CLEONOS_PROC_STATE_UNUSED)\<rparr>;
            pid = us_app_pids s index
        in if \<not> ush_uwm_app_index_valid index then (u, False)
           else if pid = 0 \<or> pid = U64_MAX then ((k, forget), False)
           else (case wk_proc_snapshot K k pid of (k, snap) \<Rightarrow>
             (case snap of
                None \<Rightarrow> ((k, forget), False)
              | Some (state, _) \<Rightarrow>
                  (let s = s\<lparr>us_app_states := (us_app_states s)(index := state)\<rparr>
                   in if state = CLEONOS_PROC_STATE_EXITED \<or> state = CLEONOS_PROC_STATE_UNUSED
                      then ((k, s\<lparr>us_app_pids := (us_app_pids s)(index := 0)\<rparr>), False)
                      else ((k, s), True))))))"

definition ush_uwm_refresh_app_registry :: "'k wm_kernel \<Rightarrow> 'k uwm \<Rightarrow> 'k uwm \<times> bool" where
  "ush_uwm_refresh_app_registry K u =
     fold (\<lambda>i (u, changed).
         (let u' = fst (ush_uwm_app_registry_running K i u)
          in (u', changed \<or> us_app_pids (snd u) i \<noteq> us_app_pids (snd u') i \<or> us_app_states (snd u) i \<noteq> us_app_states (snd u') i)))
       [0..USH_UWM_APP_COUNT - 1] (u, False)"

subsection \<open>Drawing\<close>

definition ush_uwm_work_bottom :: "ush_uwm_session \<Rightarrow> int" where
  "ush_uwm_work_bottom s =
     (let bottom = us_screen_h s - USH_UWM_TASKBAR_H in if bottom < USH_UWM_TOP_CLAMP_Y then USH_UWM_TOP_CLAMP_Y else bottom)"

definition ush_uwm_taskbar_app_x :: "ush_uwm_window \<Rightarrow> int" where
  "ush_uwm_taskbar_app_x taskbar =
     (let search_w = (if uw_w taskbar < 520 then 0 else if uw_w taskbar < 720 then 128 else USH_UWM_TASKBAR_SEARCH_W)
      in USH_UWM_TASKBAR_START_W + 8 + (if 0 < search_w then search_w + 10 else 0))"

text \<open>A window that has a button in the taskbar: the kernel lists it, it is neither taskbar nor start menu, and it has been
  presented.\<close>

definition taskbar_window :: "'k wm_kernel \<Rightarrow> 'k \<Rightarrow> ush_uwm_session \<Rightarrow> nat \<Rightarrow> 'k \<times> wm_snapshot option" where
  "taskbar_window K k s wm_index =
     (case wk_id_at K k wm_index of (k, found) \<Rightarrow>
       if (case found of None \<Rightarrow> True | Some window_id \<Rightarrow> window_id = 0 \<or> ush_uwm_taskbar_window_hidden s window_id) then (k, None)
       else (case wk_snapshot K k (the found) of (k, snap) \<Rightarrow>
         if (case snap of None \<Rightarrow> True | Some sn \<Rightarrow> sn_presented sn = 0 \<or> ush_uwm_taskbar_window_hidden s (sn_window_id sn))
         then (k, None) else (k, snap)))"

text \<open>A button: its left end, its label and whether it is drawn as active. The loop over the windows of the kernel,
  then the loop over the minimized windows.\<close>

type_synonym button = "int \<times> string \<times> bool"

fun window_buttons :: "'k wm_kernel \<Rightarrow> ush_uwm_session \<Rightarrow> nat list \<Rightarrow> 'k \<Rightarrow> int \<Rightarrow> nat \<Rightarrow> 'k \<times> button list \<times> int" where
  "window_buttons K s [] k app_x shown = (k, [], app_x)"
| "window_buttons K s (wm_index # rest) k app_x shown =
     (if USH_UWM_TASKBAR_DYNAMIC_MAX \<le> shown \<or> uw_w (us_windows s USH_UWM_TASKBAR_INDEX) - 98 < app_x + USH_UWM_TASKBAR_BUTTON_W
      then (k, [], app_x)
      else (case taskbar_window K k s wm_index of (k, win) \<Rightarrow>
        if win = None then window_buttons K s rest k app_x shown
        else (let snap = the win;
                  local_index = ush_uwm_local_window_index_by_id s (sn_window_id snap);
                  active = (sn_focused snap \<noteq> 0 \<or> (ush_uwm_app_index_valid local_index \<and> us_active_window s = local_index))
              in case ush_uwm_taskbar_window_label K k s snap 40 of (k, label) \<Rightarrow>
                (case window_buttons K s rest k (app_x + USH_UWM_TASKBAR_BUTTON_W + USH_UWM_TASKBAR_BUTTON_GAP) (shown + 1) of
                   (k, bs, app_x') \<Rightarrow> (k, (app_x, label, active) # bs, app_x')))))"

fun minimized_buttons :: "ush_uwm_session \<Rightarrow> int list \<Rightarrow> int \<Rightarrow> button list" where
  "minimized_buttons s [] app_x = []"
| "minimized_buttons s (i # rest) app_x =
     (if uw_closed (us_windows s i) \<or> \<not> uw_minimized (us_windows s i) then minimized_buttons s rest app_x
      else if uw_w (us_windows s USH_UWM_TASKBAR_INDEX) - 98 < app_x + USH_UWM_TASKBAR_BUTTON_W then []
      else (app_x, uw_title (us_windows s i), False) #
             minimized_buttons s rest (app_x + USH_UWM_TASKBAR_BUTTON_W + USH_UWM_TASKBAR_BUTTON_GAP))"

definition ush_uwm_render_taskbar :: "'k wm_kernel \<Rightarrow> 'k uwm \<Rightarrow> 'k \<times> button list" where
  "ush_uwm_render_taskbar K u =
     (case u of (k, s) \<Rightarrow>
       (case wk_count K k of (k, wm_count) \<Rightarrow>
         (case window_buttons K s [0..<wm_count] k (ush_uwm_taskbar_app_x (us_windows s USH_UWM_TASKBAR_INDEX)) 0 of
            (k, bs, app_x) \<Rightarrow> (k, bs @ minimized_buttons s [0..USH_UWM_APP_COUNT - 1] app_x))))"

definition ush_uwm_render_window :: "'k wm_kernel \<Rightarrow> int \<Rightarrow> 'k uwm \<Rightarrow> 'k uwm" where
  "ush_uwm_render_window K index u =
     (case u of (k, s) \<Rightarrow>
       if \<not> ush_uwm_window_index_valid index \<or> uw_pixels (us_windows s index) = 0 then u
       else ((if uw_kind (us_windows s index) = KIND_TASKBAR then fst (ush_uwm_render_taskbar K u) else k),
             upd_win index (\<lambda>win. win\<lparr>uw_dirty := False\<rparr>) s))"

definition ush_uwm_present_window :: "'k wm_kernel \<Rightarrow> 'k \<Rightarrow> ush_uwm_window \<Rightarrow> 'k \<times> bool" where
  "ush_uwm_present_window K k win =
     (if \<not> uw_alive win \<or> uw_id win = 0 \<or> uw_pixels win = 0 then (k, False)
      else (case wk_present K k (uw_id win) (uw_pixels win) (u64_of_int (uw_w win)) (u64_of_int (uw_h win))
                   (u64_of_int (uw_w win) * 4) of (k, r) \<Rightarrow> (k, r \<noteq> 0)))"

definition ush_uwm_refresh_window :: "'k wm_kernel \<Rightarrow> int \<Rightarrow> 'k uwm \<Rightarrow> 'k uwm" where
  "ush_uwm_refresh_window K index u =
     (if \<not> ush_uwm_window_index_valid index \<or> \<not> uw_alive (us_windows (snd u) index) then u
      else (case ush_uwm_render_window K index u of (k, s) \<Rightarrow>
        (fst (ush_uwm_present_window K k (us_windows s index)), s)))"

definition ush_uwm_refresh_taskbar :: "'k wm_kernel \<Rightarrow> 'k uwm \<Rightarrow> 'k uwm" where
  "ush_uwm_refresh_taskbar K u = ush_uwm_refresh_window K USH_UWM_TASKBAR_INDEX u"

subsection \<open>Buffers and windows of the kernel\<close>

definition set_pixels :: "nat \<Rightarrow> int \<Rightarrow> int \<Rightarrow> ush_uwm_window \<Rightarrow> ush_uwm_window" where
  "set_pixels p width height win =
     win\<lparr>uw_pixels := p, uw_pixel_count := mul64 (nat width) (nat height), uw_w := width, uw_h := height, uw_dirty := True\<rparr>"

definition free_pixels :: "'k wm_kernel \<Rightarrow> 'k \<Rightarrow> ush_uwm_window \<Rightarrow> 'k" where
  "free_pixels K k win = (if uw_pixels win \<noteq> 0 then wk_free K k (uw_pixels win) else k)"

definition ush_uwm_replace_pixels :: "'k wm_kernel \<Rightarrow> int \<Rightarrow> int \<Rightarrow> int \<Rightarrow> 'k uwm \<Rightarrow> 'k uwm \<times> bool" where
  "ush_uwm_replace_pixels K index width height u =
     (case u of (k, s) \<Rightarrow>
       if width \<le> 0 \<or> height \<le> 0 then (u, False)
       else (let count = mul64 (nat width) (nat height)
             in if count = 0 \<or> U64_MAX div 4 < count then (u, False)
                else (case wk_malloc K k (count * 4) of (k, p) \<Rightarrow>
                  if p = 0 then ((k, s), False)
                  else ((free_pixels K k (us_windows s index), upd_win index (set_pixels p width height) s), True))))"

definition ush_uwm_alloc_pixels :: "'k wm_kernel \<Rightarrow> int \<Rightarrow> 'k uwm \<Rightarrow> 'k uwm \<times> bool" where
  "ush_uwm_alloc_pixels K index u =
     ush_uwm_replace_pixels K index (uw_w (us_windows (snd u) index)) (uw_h (us_windows (snd u) index)) u"

definition ush_uwm_create_window :: "'k wm_kernel \<Rightarrow> int \<Rightarrow> 'k uwm \<Rightarrow> 'k uwm \<times> bool" where
  "ush_uwm_create_window K index u =
     (case u of (k, s) \<Rightarrow>
       (let win = us_windows s index
        in case wk_create K k (u64_of_int (uw_x win)) (u64_of_int (uw_y win)) (u64_of_int (uw_w win)) (u64_of_int (uw_h win))
                  (if uw_topmost win then USH_UWM_WM_FLAG_TOPMOST else 0) of (k, new_id) \<Rightarrow>
             if new_id = 0 then ((k, upd_win index (\<lambda>win. win\<lparr>uw_id := 0\<rparr>) s), False)
             else ((k, upd_win index (\<lambda>win. win\<lparr>uw_id := new_id, uw_alive := True\<rparr>) s), True)))"

definition ush_uwm_destroy_kernel_window :: "'k wm_kernel \<Rightarrow> int \<Rightarrow> 'k uwm \<Rightarrow> 'k uwm" where
  "ush_uwm_destroy_kernel_window K index u =
     (case u of (k, s) \<Rightarrow>
       ((if uw_id (us_windows s index) \<noteq> 0 then wk_destroy K k (uw_id (us_windows s index)) else k),
        upd_win index (\<lambda>win. win\<lparr>uw_id := 0, uw_alive := False\<rparr>) s))"

definition ush_uwm_destroy_window :: "'k wm_kernel \<Rightarrow> int \<Rightarrow> 'k uwm \<Rightarrow> 'k uwm" where
  "ush_uwm_destroy_window K index u =
     (case ush_uwm_destroy_kernel_window K index u of (k, s) \<Rightarrow>
       (free_pixels K k (us_windows s index),
        upd_win index (\<lambda>win. win\<lparr>uw_pixels := 0, uw_pixel_count := 0, uw_minimized := False, uw_closed := True,
                                  uw_maximized := False, uw_dirty := True\<rparr>) s))"

subsection \<open>Moving, resizing, maximizing\<close>

text \<open>A window that takes part: the guard that these operations share.\<close>

definition shown_window :: "ush_uwm_session \<Rightarrow> int \<Rightarrow> bool" where
  "shown_window s index \<longleftrightarrow> ush_uwm_app_index_valid index \<and> uw_alive (us_windows s index) \<and> uw_id (us_windows s index) \<noteq> 0 \<and>
     \<not> uw_closed (us_windows s index) \<and> \<not> uw_minimized (us_windows s index)"

text \<open>The position next to the wanted one at which a window of the given size is inside the work area.\<close>

definition clamp_x :: "ush_uwm_session \<Rightarrow> int \<Rightarrow> int \<Rightarrow> int" where
  "clamp_x s w x = (let max_x = us_screen_w s - w in ush_uwm_clampi x 0 (if max_x < 0 then 0 else max_x))"

definition clamp_y :: "ush_uwm_session \<Rightarrow> int \<Rightarrow> int \<Rightarrow> int" where
  "clamp_y s h y = (let max_y = ush_uwm_work_bottom s - h
     in ush_uwm_clampi y USH_UWM_TOP_CLAMP_Y (if max_y < USH_UWM_TOP_CLAMP_Y then USH_UWM_TOP_CLAMP_Y else max_y))"

definition ush_uwm_window_move_clamped :: "'k wm_kernel \<Rightarrow> int \<Rightarrow> int \<Rightarrow> int \<Rightarrow> 'k uwm \<Rightarrow> 'k uwm \<times> bool" where
  "ush_uwm_window_move_clamped K index target_x target_y u =
     (case u of (k, s) \<Rightarrow>
       if \<not> shown_window s index then (u, False)
       else (let win = us_windows s index;
                 new_x = clamp_x s (uw_w win) target_x;
                 new_y = clamp_y s (uw_h win) target_y
             in if new_x = uw_x win \<and> new_y = uw_y win then (u, True)
                else (case wk_move K k (uw_id win) (u64_of_int new_x) (u64_of_int new_y) of (k, r) \<Rightarrow>
                  if r = 0 then ((k, s), False)
                  else ((k, upd_win index (\<lambda>win. win\<lparr>uw_x := new_x, uw_y := new_y\<rparr>) s), True))))"

text \<open>The steps behind the choice of the new size.\<close>

definition resize_to :: "'k wm_kernel \<Rightarrow> int \<Rightarrow> int \<Rightarrow> int \<Rightarrow> 'k uwm \<Rightarrow> 'k uwm \<times> bool" where
  "resize_to K index new_w new_h u =
     (case u of (k, s) \<Rightarrow>
       (let win = us_windows s index; count = mul64 (nat new_w) (nat new_h)
        in if new_w = uw_w win \<and> new_h = uw_h win then (u, True)
           else if count = 0 \<or> U64_MAX div 4 < count then (u, False)
           else (case wk_malloc K k (count * 4) of (k, p) \<Rightarrow>
             if p = 0 then ((k, s), False)
             else (case wk_resize K k (uw_id win) (u64_of_int new_w) (u64_of_int new_h) of (k, r) \<Rightarrow>
               if r = 0 then ((wk_free K k p, s), False)
               else (case ush_uwm_render_window K index (free_pixels K k win, upd_win index (set_pixels p new_w new_h) s) of (k, s) \<Rightarrow>
                 ((fst (ush_uwm_present_window K k (us_windows s index)), s), True))))))"

definition ush_uwm_window_resize :: "'k wm_kernel \<Rightarrow> int \<Rightarrow> int \<Rightarrow> int \<Rightarrow> 'k uwm \<Rightarrow> 'k uwm \<times> bool" where
  "ush_uwm_window_resize K index target_w target_h u =
     (let s = snd u
      in if \<not> shown_window s index then (u, False)
         else (let max_w = us_screen_w s - uw_x (us_windows s index);
                   max_h = ush_uwm_work_bottom s - uw_y (us_windows s index);
                   max_w = (if max_w < USH_UWM_MIN_WINDOW_W then USH_UWM_MIN_WINDOW_W else max_w);
                   max_h = (if max_h < USH_UWM_MIN_WINDOW_H then USH_UWM_MIN_WINDOW_H else max_h)
               in resize_to K index (ush_uwm_clampi target_w USH_UWM_MIN_WINDOW_W max_w)
                    (ush_uwm_clampi target_h USH_UWM_MIN_WINDOW_H max_h) u))"

text \<open>The last steps of the next function: the kernel's window is opened again at the new place.\<close>

definition reopened :: "'k wm_kernel \<Rightarrow> int \<Rightarrow> 'k uwm \<Rightarrow> 'k uwm \<times> bool" where
  "reopened K index u =
     (case ush_uwm_create_window K index (ush_uwm_render_window K index u) of ((k, s), created) \<Rightarrow>
        if \<not> created then ((k, upd_win index (\<lambda>win. win\<lparr>uw_closed := True\<rparr>) s), False)
        else (case ush_uwm_present_window K k (us_windows s index) of (k, presented) \<Rightarrow>
          if \<not> presented
          then (case ush_uwm_destroy_kernel_window K index (k, s) of (k, s) \<Rightarrow>
                  ((k, upd_win index (\<lambda>win. win\<lparr>uw_closed := True\<rparr>) s), False))
          else (let s = s\<lparr>us_active_window := index\<rparr>;
                    k = fst (wk_set_focus K k (uw_id (us_windows s index)))
                in (ush_uwm_refresh_taskbar K (k, s), True))))"

definition ush_uwm_window_recreate_geometry ::
    "'k wm_kernel \<Rightarrow> int \<Rightarrow> int \<Rightarrow> int \<Rightarrow> int \<Rightarrow> int \<Rightarrow> 'k uwm \<Rightarrow> 'k uwm \<times> bool" where
  "ush_uwm_window_recreate_geometry K index target_x target_y target_w target_h u =
     (let s = snd u; win = us_windows s index
      in if \<not> ush_uwm_app_index_valid index \<or> uw_closed win \<or> uw_minimized win then (u, False)
         else (let new_w = ush_uwm_clampi target_w USH_UWM_MIN_WINDOW_W (us_screen_w s);
                   new_h = ush_uwm_clampi target_h USH_UWM_MIN_WINDOW_H (ush_uwm_work_bottom s - USH_UWM_TOP_CLAMP_Y);
                   new_x = clamp_x s new_w target_x;
                   new_y = clamp_y s new_h target_y
               in case ush_uwm_replace_pixels K index new_w new_h u of (u, replaced) \<Rightarrow>
                 if \<not> replaced then (u, False)
                 else (let u = (if uw_id (us_windows (snd u) index) \<noteq> 0 \<or> uw_alive (us_windows (snd u) index)
                                then ush_uwm_destroy_kernel_window K index u else u)
                       in reopened K index
                            (fst u, upd_win index (\<lambda>win. win\<lparr>uw_x := new_x, uw_y := new_y, uw_closed := False, uw_minimized := False\<rparr>) (snd u)))))"

definition ush_uwm_toggle_maximize :: "'k wm_kernel \<Rightarrow> int \<Rightarrow> 'k uwm \<Rightarrow> 'k uwm" where
  "ush_uwm_toggle_maximize K index u =
     (case u of (k, s) \<Rightarrow>
       if index \<noteq> USH_UWM_TERMINAL_INDEX \<or> \<not> shown_window s index then u
       else (let win = us_windows s index;
                 target_w = (if us_screen_w s < USH_UWM_MIN_WINDOW_W then USH_UWM_MIN_WINDOW_W else us_screen_w s);
                 target_h = ush_uwm_work_bottom s - USH_UWM_TOP_CLAMP_Y;
                 target_h = (if target_h < USH_UWM_MIN_WINDOW_H then USH_UWM_MIN_WINDOW_H else target_h)
             in if \<not> uw_maximized win
                then (let s = upd_win index (\<lambda>win. win\<lparr>uw_restore_x := uw_x win, uw_restore_y := uw_y win,
                                uw_restore_w := uw_w win, uw_restore_h := uw_h win, uw_maximized := True\<rparr>) s
                      in case ush_uwm_window_recreate_geometry K index 0 USH_UWM_TOP_CLAMP_Y target_w target_h (k, s) of ((k, s), ok) \<Rightarrow>
                        if ok then (k, s)
                        else ush_uwm_refresh_window K index (k, upd_win index (\<lambda>win. win\<lparr>uw_maximized := False\<rparr>) s))
                else (let restore_w = max (uw_restore_w win) USH_UWM_MIN_WINDOW_W;
                          restore_h = max (uw_restore_h win) USH_UWM_MIN_WINDOW_H;
                          restore_w = min restore_w (us_screen_w s);
                          restore_h = min restore_h target_h;
                          s = upd_win index (\<lambda>win. win\<lparr>uw_maximized := False\<rparr>) s
                      in case ush_uwm_window_recreate_geometry K index (uw_restore_x win) (uw_restore_y win) restore_w restore_h (k, s) of ((k, s), ok) \<Rightarrow>
                        if ok then (k, s)
                        else ush_uwm_refresh_window K index (k, upd_win index (\<lambda>win. win\<lparr>uw_maximized := True\<rparr>) s))))"

subsection \<open>Focus, minimizing, closing, restoring\<close>

definition ush_uwm_set_active :: "'k wm_kernel \<Rightarrow> int \<Rightarrow> 'k uwm \<Rightarrow> 'k uwm" where
  "ush_uwm_set_active K index u =
     (case u of (k, s) \<Rightarrow>
       if \<not> shown_window s index then u
       else (let old_active = us_active_window s
             in case wk_set_focus K k (uw_id (us_windows s index)) of (k, r) \<Rightarrow>
               if r = 0 then (k, s)
               else (let u = (k, s\<lparr>us_active_window := index\<rparr>);
                         u = (if ush_uwm_app_index_valid old_active \<and> old_active \<noteq> index then ush_uwm_refresh_window K old_active u else u)
                     in ush_uwm_refresh_taskbar K (ush_uwm_refresh_window K index u))))"

text \<open>The windows that can take the focus, in the order in which they are tried.\<close>

definition focus_candidates :: "ush_uwm_session \<Rightarrow> int list" where
  "focus_candidates s =
     (let start = (if ush_uwm_app_index_valid (us_active_window s) then us_active_window s else 0)
      in filter (\<lambda>idx. uw_alive (us_windows s idx) \<and> \<not> uw_minimized (us_windows s idx) \<and> \<not> uw_closed (us_windows s idx))
           (map (\<lambda>i. (start + i) mod USH_UWM_APP_COUNT) [1..USH_UWM_APP_COUNT]))"

definition ush_uwm_focus_next :: "'k wm_kernel \<Rightarrow> 'k uwm \<Rightarrow> 'k uwm" where
  "ush_uwm_focus_next K u =
     (if focus_candidates (snd u) \<noteq> [] then ush_uwm_set_active K (hd (focus_candidates (snd u))) u
      else ush_uwm_refresh_taskbar K (fst u, (snd u)\<lparr>us_active_window := -1\<rparr>))"

definition ush_uwm_minimize_window :: "'k wm_kernel \<Rightarrow> int \<Rightarrow> 'k uwm \<Rightarrow> 'k uwm" where
  "ush_uwm_minimize_window K index u =
     (if \<not> ush_uwm_app_index_valid index \<or> \<not> uw_alive (us_windows (snd u) index) \<or> uw_closed (us_windows (snd u) index) then u
      else (case ush_uwm_destroy_kernel_window K index u of (k, s) \<Rightarrow>
        (let u = (k, upd_win index (\<lambda>win. win\<lparr>uw_minimized := True\<rparr>) s);
             u = (if us_active_window s = index then ush_uwm_focus_next K u else u)
         in ush_uwm_refresh_taskbar K u)))"

definition ush_uwm_close_window :: "'k wm_kernel \<Rightarrow> int \<Rightarrow> 'k uwm \<Rightarrow> 'k uwm" where
  "ush_uwm_close_window K index u =
     (if \<not> ush_uwm_app_index_valid index then u
      else (let u = ush_uwm_destroy_kernel_window K index u;
                win = us_windows (snd u) index;
                u = (if uw_maximized win
                     then (let u = (fst u, upd_win index (\<lambda>win. win\<lparr>uw_x := uw_restore_x win, uw_y := uw_restore_y win, uw_maximized := False\<rparr>) (snd u))
                           in if USH_UWM_MIN_WINDOW_W \<le> uw_restore_w win \<and> USH_UWM_MIN_WINDOW_H \<le> uw_restore_h win
                              then fst (ush_uwm_replace_pixels K index (uw_restore_w win) (uw_restore_h win) u) else u)
                     else u);
                u = (fst u, upd_win index (\<lambda>win. win\<lparr>uw_closed := True, uw_minimized := False\<rparr>) (snd u));
                u = (if us_active_window (snd u) = index then ush_uwm_focus_next K u else u)
            in ush_uwm_refresh_taskbar K u))"

definition reopen :: "ush_uwm_window \<Rightarrow> ush_uwm_window" where
  "reopen win = win\<lparr>uw_closed := False, uw_minimized := False\<rparr>"

definition ush_uwm_restore_window :: "'k wm_kernel \<Rightarrow> int \<Rightarrow> 'k uwm \<Rightarrow> 'k uwm" where
  "ush_uwm_restore_window K index u =
     (if \<not> ush_uwm_app_index_valid index then u
      else if uw_alive (us_windows (snd u) index)
      then ush_uwm_set_active K index (fst u, upd_win index reopen (snd u))
      else (case (if uw_pixels (us_windows (snd u) index) = 0 then ush_uwm_alloc_pixels K index u else (u, True)) of (u, ok) \<Rightarrow>
        if \<not> ok then u
        else (case ush_uwm_create_window K index (ush_uwm_render_window K index (fst u, upd_win index reopen (snd u))) of ((k, s), created) \<Rightarrow>
          if \<not> created then (k, upd_win index (\<lambda>win. win\<lparr>uw_closed := True\<rparr>) s)
          else ush_uwm_refresh_taskbar K (ush_uwm_set_active K index (fst (ush_uwm_present_window K k (us_windows s index)), s)))))"

definition ush_uwm_toggle_topmost :: "'k wm_kernel \<Rightarrow> int \<Rightarrow> 'k uwm \<Rightarrow> 'k uwm" where
  "ush_uwm_toggle_topmost K index u =
     (case u of (k, s) \<Rightarrow>
       if \<not> ush_uwm_app_index_valid index \<or> uw_id (us_windows s index) = 0 \<or> \<not> uw_alive (us_windows s index) then u
       else (let s = upd_win index (\<lambda>win. win\<lparr>uw_topmost := \<not> uw_topmost win\<rparr>) s;
                 win = us_windows s index;
                 k = wk_set_flags K k (uw_id win) (if uw_topmost win then USH_UWM_WM_FLAG_TOPMOST else 0)
             in ush_uwm_refresh_taskbar K (ush_uwm_refresh_window K index (k, s))))"

definition ush_uwm_close_start :: "'k wm_kernel \<Rightarrow> 'k uwm \<Rightarrow> 'k uwm" where
  "ush_uwm_close_start K u =
     (case (if uw_alive (us_windows (snd u) USH_UWM_START_INDEX) then ush_uwm_destroy_kernel_window K USH_UWM_START_INDEX u else u) of (k, s) \<Rightarrow>
       (let s = upd_win USH_UWM_START_INDEX (\<lambda>win. win\<lparr>uw_closed := True\<rparr>) (s\<lparr>us_start_open := False\<rparr>);
            active = us_windows s (us_active_window s);
            k = (if ush_uwm_app_index_valid (us_active_window s) \<and> uw_alive active then fst (wk_set_focus K k (uw_id active)) else k)
        in ush_uwm_refresh_taskbar K (k, s)))"

definition ush_uwm_toggle_start :: "'k wm_kernel \<Rightarrow> 'k uwm \<Rightarrow> 'k uwm" where
  "ush_uwm_toggle_start K u =
     (let i = USH_UWM_START_INDEX
      in if uw_alive (us_windows (snd u) i) then ush_uwm_close_start K u
         else (case (if uw_pixels (us_windows (snd u) i) = 0 then ush_uwm_alloc_pixels K i u else (u, True)) of (u, ok) \<Rightarrow>
           if \<not> ok then u
           else (let s = upd_win i (\<lambda>win. win\<lparr>uw_closed := False\<rparr>) ((snd u)\<lparr>us_start_open := True\<rparr>)
                 in case ush_uwm_create_window K i (ush_uwm_render_window K i (fst u, s)) of ((k, s), created) \<Rightarrow>
                   if \<not> created then (k, upd_win i (\<lambda>win. win\<lparr>uw_closed := True\<rparr>) (s\<lparr>us_start_open := False\<rparr>))
                   else (let k = fst (ush_uwm_present_window K k (us_windows s i));
                             k = fst (wk_set_focus K k (uw_id (us_windows s i)))
                         in ush_uwm_refresh_taskbar K (k, s)))))"


section \<open>Accounting of windows and buffers\<close>

text \<open>The laws of the kernel for this process: \<open>wins k\<close> are its windows, \<open>bufs k\<close> the buffers in use. Only the
  named calls change them, and only with an argument that exists is anything said about \<open>destroy\<close> and \<open>free\<close>.\<close>

definition same :: "('k \<Rightarrow> nat set) \<Rightarrow> ('k \<Rightarrow> nat set) \<Rightarrow> 'k \<Rightarrow> 'k \<Rightarrow> bool" where
  "same wins bufs k k' \<longleftrightarrow> wins k' = wins k \<and> bufs k' = bufs k"

definition window_system :: "'k wm_kernel \<Rightarrow> ('k \<Rightarrow> nat set) \<Rightarrow> ('k \<Rightarrow> nat set) \<Rightarrow> bool" where
  "window_system K wins bufs \<longleftrightarrow>
     (\<forall>k n. case wk_malloc K k n of (k', p) \<Rightarrow> wins k' = wins k \<and>
        (if p = 0 then bufs k' = bufs k else p \<notin> bufs k \<and> bufs k' = insert p (bufs k))) \<and>
     (\<forall>k p. p \<in> bufs k \<longrightarrow> wins (wk_free K k p) = wins k \<and> bufs (wk_free K k p) = bufs k - {p}) \<and>
     (\<forall>k x y w h f. case wk_create K k x y w h f of (k', i) \<Rightarrow> bufs k' = bufs k \<and>
        (if i = 0 then wins k' = wins k else i \<notin> wins k \<and> wins k' = insert i (wins k))) \<and>
     (\<forall>k i. i \<in> wins k \<longrightarrow> wins (wk_destroy K k i) = wins k - {i} \<and> bufs (wk_destroy K k i) = bufs k) \<and>
     (\<forall>k i p w h q. same wins bufs k (fst (wk_present K k i p w h q))) \<and>
     (\<forall>k i x y. same wins bufs k (fst (wk_move K k i x y)) \<and> same wins bufs k (fst (wk_resize K k i x y))) \<and>
     (\<forall>k i. same wins bufs k (fst (wk_set_focus K k i)) \<and> same wins bufs k (fst (wk_id_at K k i)) \<and>
        same wins bufs k (fst (wk_snapshot K k i)) \<and> same wins bufs k (fst (wk_proc_snapshot K k i)) \<and>
        same wins bufs k (fst (wk_poll_event K k i)) \<and> same wins bufs k (wk_sleep_ticks K k i) \<and>
        same wins bufs k (wk_tty_switch K k i)) \<and>
     (\<forall>k i f. same wins bufs k (wk_set_flags K k i f)) \<and>
     (\<forall>k. same wins bufs k (fst (wk_count K k)) \<and> same wins bufs k (fst (wk_mouse_state K k)) \<and>
        same wins bufs k (fst (wk_timer_ticks K k)) \<and> same wins bufs k (wk_yield K k) \<and>
        same wins bufs k (fst (wk_display_info K k)) \<and> same wins bufs k (fst (wk_tty_active K k)) \<and>
        same wins bufs k (fst (wk_kbd_get_char K k))) \<and>
     (\<forall>k path argv env. same wins bufs k (fst (wk_spawn_pathv K k path argv env))) \<and>
     (\<forall>k t. same wins bufs k (wk_writeln K k t))"

lemma same_refl [simp]: "same wins bufs k k" by (simp add: same_def)

lemma same_trans: "same wins bufs k k' \<Longrightarrow> same wins bufs k' k'' \<Longrightarrow> same wins bufs k k''" by (simp add: same_def)

lemma ws_same:
  assumes "window_system K wins bufs"
  shows "same wins bufs k (fst (wk_present K k i p w h q))" "same wins bufs k (fst (wk_move K k i x y))"
    "same wins bufs k (fst (wk_resize K k i x y))" "same wins bufs k (fst (wk_set_focus K k i))"
    "same wins bufs k (fst (wk_id_at K k i))" "same wins bufs k (fst (wk_snapshot K k i))"
    "same wins bufs k (fst (wk_proc_snapshot K k i))" "same wins bufs k (fst (wk_poll_event K k i))"
    "same wins bufs k (wk_sleep_ticks K k i)" "same wins bufs k (wk_tty_switch K k i)" "same wins bufs k (wk_set_flags K k i f)"
    "same wins bufs k (fst (wk_count K k))" "same wins bufs k (fst (wk_mouse_state K k))" "same wins bufs k (fst (wk_timer_ticks K k))"
    "same wins bufs k (wk_yield K k)" "same wins bufs k (fst (wk_display_info K k))" "same wins bufs k (fst (wk_tty_active K k))"
    "same wins bufs k (fst (wk_kbd_get_char K k))" "same wins bufs k (fst (wk_spawn_pathv K k path argv env))"
    "same wins bufs k (wk_writeln K k t)"
  using assms by (simp_all add: window_system_def)

text \<open>The same for calls whose result is taken apart.\<close>

lemma ws_pairs:
  assumes "window_system K wins bufs"
  shows "wk_present K k i p w h q = (k', r) \<Longrightarrow> same wins bufs k k'" "wk_move K k i x y = (k', r) \<Longrightarrow> same wins bufs k k'"
    "wk_resize K k i x y = (k', r) \<Longrightarrow> same wins bufs k k'" "wk_set_focus K k i = (k', r) \<Longrightarrow> same wins bufs k k'"
    "wk_id_at K k i = (k', o1) \<Longrightarrow> same wins bufs k k'" "wk_snapshot K k i = (k', o2) \<Longrightarrow> same wins bufs k k'"
    "wk_proc_snapshot K k i = (k', o3) \<Longrightarrow> same wins bufs k k'" "wk_poll_event K k i = (k', o4) \<Longrightarrow> same wins bufs k k'"
    "wk_count K k = (k', r) \<Longrightarrow> same wins bufs k k'" "wk_mouse_state K k = (k', o5) \<Longrightarrow> same wins bufs k k'"
    "wk_timer_ticks K k = (k', r) \<Longrightarrow> same wins bufs k k'" "wk_spawn_pathv K k path argv env = (k', r) \<Longrightarrow> same wins bufs k k'"
    "wk_display_info K k = (k', o6) \<Longrightarrow> same wins bufs k k'" "wk_tty_active K k = (k', r) \<Longrightarrow> same wins bufs k k'"
    "wk_kbd_get_char K k = (k', o7) \<Longrightarrow> same wins bufs k k'"
  using ws_same [OF assms, of k] by (metis fst_conv)+

lemma same_taskbar_window:
  assumes "window_system K wins bufs" "taskbar_window K k s i = (k', r)"
  shows "same wins bufs k k'"
  using assms(2) by (auto simp: taskbar_window_def split: prod.splits if_splits intro: same_trans ws_pairs [OF assms(1)])

lemma same_label:
  assumes "window_system K wins bufs" "ush_uwm_taskbar_window_label K k s snap n = (k', r)"
  shows "same wins bufs k k'"
  using assms(2) by (auto simp: ush_uwm_taskbar_window_label_def Let_def split: prod.splits if_splits intro: ws_pairs [OF assms(1)])

lemma same_window_buttons:
  assumes "window_system K wins bufs"
  shows "window_buttons K s ws k app_x shown = (k', r) \<Longrightarrow> same wins bufs k k'"
proof (induction ws arbitrary: k app_x shown k' r)
  case (Cons w ws)
  show ?case
  proof (cases "USH_UWM_TASKBAR_DYNAMIC_MAX \<le> shown \<or> uw_w (us_windows s USH_UWM_TASKBAR_INDEX) - 98 < app_x + USH_UWM_TASKBAR_BUTTON_W")
    case False
    obtain k1 win where t: "taskbar_window K k s w = (k1, win)" by fastforce
    note s1 = same_taskbar_window [OF assms t]
    show ?thesis
    proof (cases win)
      case None
      then have "window_buttons K s ws k1 app_x shown = (k', r)" using Cons.prems False t by simp
      then show ?thesis using same_trans [OF s1] Cons.IH by (metis prod.exhaust)
    next
      case (Some sn)
      obtain k2 l where l: "ush_uwm_taskbar_window_label K k1 s sn 40 = (k2, l)" by fastforce
      obtain k3 bs ax where b: "window_buttons K s ws k2 (app_x + USH_UWM_TASKBAR_BUTTON_W + USH_UWM_TASKBAR_BUTTON_GAP) (shown + 1) = (k3, bs, ax)"
        by (metis prod.exhaust)
      then have "k' = k3" using Cons.prems False Some by (simp add: t l Let_def)
      then show ?thesis using s1 same_label [OF assms l] Cons.IH [OF b] by (blast intro: same_trans)
    qed
  qed (use Cons.prems in auto)
qed simp

lemma same_render_taskbar:
  assumes "window_system K wins bufs"
  shows "same wins bufs (fst u) (fst (ush_uwm_render_taskbar K u))"
  by (auto simp: ush_uwm_render_taskbar_def split: prod.splits intro: same_trans ws_pairs [OF assms] same_window_buttons [OF assms])

lemma same_present [simp]:
  assumes "window_system K wins bufs"
  shows "same wins bufs k (fst (ush_uwm_present_window K k win))"
  by (auto simp: ush_uwm_present_window_def split: prod.splits intro: ws_pairs [OF assms])

lemma present_pair: "window_system K wins bufs \<Longrightarrow> ush_uwm_present_window K k win = (k', r) \<Longrightarrow> same wins bufs k k'"
  using same_present [of K wins bufs k win] by simp

subsection \<open>Who owns what\<close>

definition indices :: "int set" where "indices = {0..<USH_UWM_WINDOW_COUNT}"

text \<open>The values that are not 0 are pairwise different and make up the set.\<close>

definition owns :: "(int \<Rightarrow> nat) \<Rightarrow> nat set \<Rightarrow> bool" where
  "owns g A \<longleftrightarrow> A = g ` {i \<in> indices. g i \<noteq> 0} \<and> inj_on g {i \<in> indices. g i \<noteq> 0}"

lemma owns_member: "owns g A \<Longrightarrow> i \<in> indices \<Longrightarrow> g i \<noteq> 0 \<Longrightarrow> g i \<in> A"
  by (auto simp: owns_def)

lemma owns_clear:
  assumes "owns g A" "i \<in> indices"
  shows "owns (g(i := 0)) (A - {g i})"
proof -
  let ?I = "{j \<in> indices. g j \<noteq> 0}"
  have I: "{j \<in> indices. (g(i := 0)) j \<noteq> 0} = ?I - {i}" by auto
  have A: "A = g ` ?I" and inj: "inj_on g ?I" using assms(1) by (auto simp: owns_def)
  have "g ` (?I - {i}) = A - {g i}"
  proof (cases "g i = 0")
    case False
    then have "i \<in> ?I" using assms(2) by simp
    then show ?thesis unfolding A using inj by (simp add: inj_on_image_set_diff [where C = ?I])
  qed (auto simp: A)
  moreover have "inj_on g (?I - {i})" using inj by (rule inj_on_subset) auto
  ultimately show ?thesis unfolding owns_def I by (auto simp: inj_on_def)
qed

lemma owns_add:
  assumes "owns g A" "i \<in> indices" "g i = 0" "p \<noteq> 0" "p \<notin> A"
  shows "owns (g(i := p)) (insert p A)"
proof -
  let ?I = "{j \<in> indices. g j \<noteq> 0}"
  have I: "{j \<in> indices. (g(i := p)) j \<noteq> 0} = insert i ?I" using assms by auto
  have i: "i \<notin> ?I" using assms(3) by simp
  have A: "A = g ` ?I" and inj: "inj_on g ?I" using assms(1) by (auto simp: owns_def)
  have g: "(g(i := p)) j = g j" if "j \<in> ?I" for j using that i by auto
  have im: "(g(i := p)) ` ?I = A" unfolding A by (rule image_cong [OF refl g])
  have "inj_on (g(i := p)) ?I" using inj by (subst inj_on_cong [OF g])
  moreover have "(g(i := p)) i \<notin> (g(i := p)) ` (?I - {i})" using im assms(5) i by auto
  ultimately have "inj_on (g(i := p)) (insert i ?I)" unfolding inj_on_insert by blast
  moreover have "insert p A = (g(i := p)) ` insert i ?I" unfolding image_insert im by simp
  ultimately show ?thesis unfolding owns_def I by (rule conjI [rotated])
qed

lemma owns_replace:
  assumes "owns g A" "i \<in> indices" "p \<noteq> 0" "p \<notin> A"
  shows "owns (g(i := p)) (insert p (A - {g i}))"
  using owns_add [OF owns_clear [OF assms(1,2)] assms(2) _ assms(3), of] assms(4) by simp

definition ids :: "ush_uwm_session \<Rightarrow> int \<Rightarrow> nat" where "ids s = (\<lambda>i. uw_id (us_windows s i))"
definition buffers :: "ush_uwm_session \<Rightarrow> int \<Rightarrow> nat" where "buffers s = (\<lambda>i. uw_pixels (us_windows s i))"

lemma windows_upd [simp]: "us_windows (upd_win i f s) = (us_windows s)(i := f (us_windows s i))"
  by (simp add: upd_win_def)

lemma ids_upd: "ids (upd_win i f s) = (ids s)(i := uw_id (f (us_windows s i)))"
  by (simp add: ids_def fun_eq_iff)

lemma buffers_upd: "buffers (upd_win i f s) = (buffers s)(i := uw_pixels (f (us_windows s i)))"
  by (simp add: buffers_def fun_eq_iff)

text \<open>The state of a window. The guards of the code test \<open>alive\<close> and \<open>id\<close> separately; they are the same.\<close>

definition win_ok :: "ush_uwm_window \<Rightarrow> bool" where
  "win_ok w \<longleftrightarrow> (uw_alive w \<longleftrightarrow> uw_id w \<noteq> 0) \<and> (uw_alive w \<longrightarrow> \<not> uw_closed w \<and> \<not> uw_minimized w) \<and>
     (uw_pixels w \<noteq> 0 \<longrightarrow> int (uw_pixel_count w) = uw_w w * uw_h w) \<and>
     1 \<le> uw_w w \<and> uw_w w \<le> 4096 \<and> 1 \<le> uw_h w \<and> uw_h w \<le> 4096 \<and>
     1 \<le> uw_restore_w w \<and> uw_restore_w w \<le> 4096 \<and> 1 \<le> uw_restore_h w \<and> uw_restore_h w \<le> 4096 \<and>
     0 \<le> uw_x w \<and> USH_UWM_TOP_CLAMP_Y \<le> uw_y w \<and> 0 \<le> uw_restore_x w \<and> USH_UWM_TOP_CLAMP_Y \<le> uw_restore_y w"

definition accounts :: "('k \<Rightarrow> nat set) \<Rightarrow> ('k \<Rightarrow> nat set) \<Rightarrow> 'k uwm \<Rightarrow> bool" where
  "accounts wins bufs u \<longleftrightarrow> (case u of (k, s) \<Rightarrow>
     1 \<le> us_screen_w s \<and> us_screen_w s \<le> 4096 \<and> 1 \<le> us_screen_h s \<and> us_screen_h s \<le> 4096 \<and>
     -1 \<le> us_active_window s \<and> us_active_window s < USH_UWM_APP_COUNT \<and>
     (\<forall>i\<in>indices. win_ok (us_windows s i)) \<and> owns (ids s) (wins k) \<and> owns (buffers s) (bufs k))"

text \<open>\<open>calm\<close>: a step that changes nothing but the drawing marks, the active window and the state of the kernel.\<close>

definition calm :: "('k \<Rightarrow> nat set) \<Rightarrow> ('k \<Rightarrow> nat set) \<Rightarrow> 'k uwm \<Rightarrow> 'k uwm \<Rightarrow> bool" where
  "calm wins bufs u u' \<longleftrightarrow> same wins bufs (fst u) (fst u') \<and>
     (\<forall>i. (us_windows (snd u') i)\<lparr>uw_dirty := False\<rparr> = (us_windows (snd u) i)\<lparr>uw_dirty := False\<rparr>) \<and>
     (\<forall>a W. (snd u')\<lparr>us_active_window := a, us_windows := W\<rparr> = (snd u)\<lparr>us_active_window := a, us_windows := W\<rparr>)"

lemma calm_refl [simp]: "calm wins bufs u u"
  by (simp add: calm_def)

lemma calm_trans: "calm wins bufs u u' \<Longrightarrow> calm wins bufs u' u'' \<Longrightarrow> calm wins bufs u u''"
  unfolding calm_def by (auto intro: same_trans)

lemma calm_step: "same wins bufs k k' \<Longrightarrow> calm wins bufs (k, s) (k', s)"
  by (simp add: calm_def)

lemma calm_active: "same wins bufs k k' \<Longrightarrow> calm wins bufs (k, s) (k', s\<lparr>us_active_window := a\<rparr>)"
  by (simp add: calm_def)

lemma calm_dirty: "same wins bufs k k' \<Longrightarrow> calm wins bufs (k, s) (k', upd_win i (\<lambda>w. w\<lparr>uw_dirty := d\<rparr>) s)"
  by (simp add: calm_def upd_win_def)

lemma calm_window:
  assumes "calm wins bufs u u'"
  shows "us_windows (snd u') i = (us_windows (snd u) i)\<lparr>uw_dirty := uw_dirty (us_windows (snd u') i)\<rparr>"
proof -
  have "(us_windows (snd u') i)\<lparr>uw_dirty := False\<rparr> = (us_windows (snd u) i)\<lparr>uw_dirty := False\<rparr>" using assms by (simp add: calm_def)
  then have "(us_windows (snd u') i)\<lparr>uw_dirty := False, uw_dirty := uw_dirty (us_windows (snd u') i)\<rparr> =
    (us_windows (snd u) i)\<lparr>uw_dirty := False, uw_dirty := uw_dirty (us_windows (snd u') i)\<rparr>" by simp
  then show ?thesis by (simp del: ush_uwm_window.update_convs)
qed


lemma calm_session:
  assumes "calm wins bufs u u'" "\<And>a W s. f (s\<lparr>us_active_window := a, us_windows := W\<rparr>) = f s"
  shows "f (snd u') = f (snd u)"
proof -
  have "f ((snd u')\<lparr>us_active_window := 0, us_windows := us_windows (snd u)\<rparr>) = f ((snd u)\<lparr>us_active_window := 0, us_windows := us_windows (snd u)\<rparr>)"
    using assms(1) unfolding calm_def by metis
  then show ?thesis by (simp only: assms(2))
qed

lemma calm_screen:
  assumes "calm wins bufs u u'"
  shows "us_screen_w (snd u') = us_screen_w (snd u)" "us_screen_h (snd u') = us_screen_h (snd u)" "us_start_open (snd u') = us_start_open (snd u)"
    "us_dragging (snd u') = us_dragging (snd u)" "us_drag_window (snd u') = us_drag_window (snd u)"
    "us_resizing (snd u') = us_resizing (snd u)" "us_resize_window (snd u') = us_resize_window (snd u)"
    "us_tty_before (snd u') = us_tty_before (snd u)" "us_tty_switched (snd u') = us_tty_switched (snd u)"
    "ush_uwm_work_bottom (snd u') = ush_uwm_work_bottom (snd u)"
  by (rule calm_session [OF assms]; simp add: ush_uwm_work_bottom_def)+

lemma calm_fields:
  assumes "calm wins bufs u u'"
  shows "uw_id (us_windows (snd u') i) = uw_id (us_windows (snd u) i)" "uw_alive (us_windows (snd u') i) = uw_alive (us_windows (snd u) i)"
    "uw_pixels (us_windows (snd u') i) = uw_pixels (us_windows (snd u) i)" "uw_x (us_windows (snd u') i) = uw_x (us_windows (snd u) i)"
    "uw_y (us_windows (snd u') i) = uw_y (us_windows (snd u) i)" "uw_w (us_windows (snd u') i) = uw_w (us_windows (snd u) i)"
    "uw_h (us_windows (snd u') i) = uw_h (us_windows (snd u) i)" "uw_closed (us_windows (snd u') i) = uw_closed (us_windows (snd u) i)"
    "uw_minimized (us_windows (snd u') i) = uw_minimized (us_windows (snd u) i)" "uw_maximized (us_windows (snd u') i) = uw_maximized (us_windows (snd u) i)"
    "uw_restore_x (us_windows (snd u') i) = uw_restore_x (us_windows (snd u) i)" "uw_restore_y (us_windows (snd u') i) = uw_restore_y (us_windows (snd u) i)"
    "uw_restore_w (us_windows (snd u') i) = uw_restore_w (us_windows (snd u) i)" "uw_restore_h (us_windows (snd u') i) = uw_restore_h (us_windows (snd u) i)"
    "win_ok (us_windows (snd u') i) = win_ok (us_windows (snd u) i)"
  by (subst calm_window [OF assms], simp add: win_ok_def)+

lemma calm_accounts:
  assumes "calm wins bufs u u'" "accounts wins bufs u" "-1 \<le> us_active_window (snd u')" "us_active_window (snd u') < USH_UWM_APP_COUNT"
  shows "accounts wins bufs u'"
proof -
  have "wins (fst u') = wins (fst u)" "bufs (fst u') = bufs (fst u)" using assms(1) by (simp_all add: calm_def same_def)
  moreover have "ids (snd u') = ids (snd u)" "buffers (snd u') = buffers (snd u)"
    by (simp_all add: ids_def buffers_def calm_fields [OF assms(1)])
  ultimately show ?thesis
    using assms(2-4) unfolding accounts_def case_prod_beta by (simp only: calm_screen [OF assms(1)] calm_fields [OF assms(1)]) blast
qed

lemma render_calm:
  assumes "window_system K wins bufs"
  shows "calm wins bufs u (ush_uwm_render_window K i u)"
  using same_render_taskbar [OF assms, of u]
  by (auto simp: ush_uwm_render_window_def split: prod.splits intro!: calm_dirty)

lemma refresh_calm:
  assumes "window_system K wins bufs"
  shows "calm wins bufs u (ush_uwm_refresh_window K i u)"
proof (cases "\<not> ush_uwm_window_index_valid i \<or> \<not> uw_alive (us_windows (snd u) i)")
  case False
  obtain k s where r: "ush_uwm_render_window K i u = (k, s)" by fastforce
  have "calm wins bufs (k, s) (fst (ush_uwm_present_window K k (us_windows s i)), s)" by (rule calm_step) (simp add: assms)
  with render_calm [OF assms, of u i] have "calm wins bufs u (fst (ush_uwm_present_window K k (us_windows s i)), s)" unfolding r by (rule calm_trans)
  then show ?thesis using False by (simp add: ush_uwm_refresh_window_def r)
qed (simp add: ush_uwm_refresh_window_def)

lemma taskbar_calm: "window_system K wins bufs \<Longrightarrow> calm wins bufs u (ush_uwm_refresh_taskbar K u)"
  by (simp add: ush_uwm_refresh_taskbar_def refresh_calm)

lemma refresh_active [simp]: "us_active_window (snd (ush_uwm_refresh_window K i u)) = us_active_window (snd u)"
  by (auto simp: ush_uwm_refresh_window_def ush_uwm_render_window_def upd_win_def split: prod.splits)

lemma taskbar_active [simp]: "us_active_window (snd (ush_uwm_refresh_taskbar K u)) = us_active_window (snd u)"
  by (simp add: ush_uwm_refresh_taskbar_def)

lemma set_active_calm:
  assumes "window_system K wins bufs"
  shows "calm wins bufs u (ush_uwm_set_active K i u)"
proof -
  obtain k s where u: "u = (k, s)" by fastforce
  show ?thesis
  proof (cases "shown_window s i")
    case True
    obtain k1 r where f: "wk_set_focus K k (uw_id (us_windows s i)) = (k1, r)" by fastforce
    note same = ws_pairs(4) [OF assms f]
    define u1 where "u1 = (k1, s\<lparr>us_active_window := i\<rparr>)"
    define u2 where "u2 = (if ush_uwm_app_index_valid (us_active_window s) \<and> us_active_window s \<noteq> i then ush_uwm_refresh_window K (us_active_window s) u1 else u1)"
    have "calm wins bufs u u1" unfolding u u1_def by (rule calm_active [OF same])
    moreover have "calm wins bufs u1 u2" by (simp add: u2_def refresh_calm [OF assms])
    moreover have "ush_uwm_set_active K i u = (if r = 0 then (k1, s) else ush_uwm_refresh_taskbar K (ush_uwm_refresh_window K i u2))"
      using True by (simp add: ush_uwm_set_active_def u f u1_def u2_def Let_def)
    moreover have "calm wins bufs u (k1, s)" unfolding u by (rule calm_step [OF same])
    ultimately show ?thesis using refresh_calm [OF assms, of u2 i] taskbar_calm [OF assms, of "ush_uwm_refresh_window K i u2"] calm_trans
      by (metis (full_types))
  qed (simp add: ush_uwm_set_active_def u)
qed

lemma set_active_active:
  "us_active_window (snd (ush_uwm_set_active K i u)) = us_active_window (snd u) \<or>
   us_active_window (snd (ush_uwm_set_active K i u)) = i \<and> shown_window (snd u) i"
  by (auto simp: ush_uwm_set_active_def Let_def split: prod.splits)

lemma active_range: "ush_uwm_app_index_valid i \<Longrightarrow> -1 \<le> i \<and> i < USH_UWM_APP_COUNT"
  by (simp add: ush_uwm_app_index_valid_def)

lemma set_active_accounts:
  assumes "window_system K wins bufs" "accounts wins bufs u"
  shows "accounts wins bufs (ush_uwm_set_active K i u)"
  by (rule calm_accounts [OF set_active_calm [OF assms(1)] assms(2)])
    (use set_active_active [of K i u] assms(2) in \<open>auto simp: accounts_def shown_window_def dest: active_range split: prod.splits\<close>)

lemma refresh_accounts:
  assumes "window_system K wins bufs" "accounts wins bufs u"
  shows "accounts wins bufs (ush_uwm_refresh_window K i u)" "accounts wins bufs (ush_uwm_refresh_taskbar K u)"
  by (rule calm_accounts [OF refresh_calm [OF assms(1)] assms(2)] calm_accounts [OF taskbar_calm [OF assms(1)] assms(2)];
      use assms(2) in \<open>auto simp: accounts_def split: prod.splits\<close>)+

lemma focus_next_calm:
  assumes "window_system K wins bufs"
  shows "calm wins bufs u (ush_uwm_focus_next K u)"
proof -
  have "calm wins bufs u (fst u, (snd u)\<lparr>us_active_window := -1\<rparr>)" by (cases u) (simp add: calm_active)
  from calm_trans [OF this taskbar_calm [OF assms]] show ?thesis
    using set_active_calm [OF assms] by (simp add: ush_uwm_focus_next_def)
qed

lemma focus_next_active:
  "us_active_window (snd (ush_uwm_focus_next K u)) \<in> {us_active_window (snd u), -1} \<or> ush_uwm_app_index_valid (us_active_window (snd (ush_uwm_focus_next K u)))"
  using set_active_active [of K "hd (focus_candidates (snd u))" u]
  by (auto simp: ush_uwm_focus_next_def shown_window_def)

lemma focus_next_accounts:
  assumes "window_system K wins bufs" "accounts wins bufs u"
  shows "accounts wins bufs (ush_uwm_focus_next K u)"
  by (rule calm_accounts [OF focus_next_calm [OF assms(1)] assms(2)])
    (use focus_next_active [of K u] assms(2) in \<open>auto simp: accounts_def USH_UWM_APP_COUNT_def dest: active_range split: prod.splits\<close>)


subsection \<open>Every operation keeps the accounts\<close>

lemma accounts_win: "accounts wins bufs u \<Longrightarrow> i \<in> indices \<Longrightarrow> win_ok (us_windows (snd u) i)"
  by (simp add: accounts_def case_prod_beta)

lemma accounts_upd:
  assumes "accounts wins bufs (k, s)" "i \<in> indices \<Longrightarrow> win_ok (f (us_windows s i))"
    and "uw_id (f (us_windows s i)) = uw_id (us_windows s i)" "uw_pixels (f (us_windows s i)) = uw_pixels (us_windows s i)"
  shows "accounts wins bufs (k, upd_win i f s)"
proof -
  have "ids (upd_win i f s) = ids s" "buffers (upd_win i f s) = buffers s"
    by (auto simp: ids_upd buffers_upd assms(3,4) ids_def buffers_def)
  moreover have "win_ok (us_windows (upd_win i f s) j)" if "j \<in> indices" for j
    using assms(1,2) that by (cases "j = i") (simp_all add: accounts_def)
  ultimately show ?thesis using assms(1) by (simp add: accounts_def) (simp add: upd_win_def)
qed

lemma accounts_same: "accounts wins bufs (k, s) \<Longrightarrow> same wins bufs k k' \<Longrightarrow> accounts wins bufs (k', s)"
  by (simp add: accounts_def same_def)

lemma accounts_session:
  assumes "accounts wins bufs (k, s)" "us_screen_w s' = us_screen_w s" "us_screen_h s' = us_screen_h s"
    "us_active_window s' = us_active_window s" "us_windows s' = us_windows s"
  shows "accounts wins bufs (k, s')"
  using assms by (simp add: accounts_def ids_def buffers_def)

lemma render_accounts:
  assumes "window_system K wins bufs" "accounts wins bufs u"
  shows "accounts wins bufs (ush_uwm_render_window K i u)"
  by (rule calm_accounts [OF render_calm [OF assms(1)] assms(2)])
    (use assms(2) in \<open>auto simp: ush_uwm_render_window_def accounts_def upd_win_def split: prod.splits\<close>)

lemma mul64_area: "1 \<le> w \<Longrightarrow> w \<le> 4096 \<Longrightarrow> 1 \<le> h \<Longrightarrow> h \<le> 4096 \<Longrightarrow> mul64 (nat w) (nat h) = nat (w * h) \<and> 0 < nat (w * h) \<and> nat (w * h) \<le> U64_MAX div 4"
proof -
  assume "1 \<le> w" "w \<le> 4096" "1 \<le> h" "h \<le> 4096"
  then have "w * h \<le> 4096 * 4096" "0 < w * h" using mult_mono [of w 4096 h 4096] by simp_all
  moreover have "nat w * nat h = nat (w * h)" using \<open>1 \<le> w\<close> by (simp add: nat_mult_distrib)
  ultimately show ?thesis by (simp add: mul64_def U64_MAX_def)
qed

text \<open>A new buffer takes the place of the old one.\<close>

lemma new_buffer:
  assumes "window_system K wins bufs" "accounts wins bufs (k, s)" "i \<in> indices"
    and "wins k1 = wins k" "bufs k1 = insert p (bufs k)" "p \<notin> bufs k" "p \<noteq> 0"
    and "1 \<le> w" "w \<le> 4096" "1 \<le> h" "h \<le> 4096"
  shows "accounts wins bufs (free_pixels K k1 (us_windows s i), upd_win i (set_pixels p w h) s)"
proof -
  let ?old = "uw_pixels (us_windows s i)"
  have o: "owns (buffers s) (bufs k)" "owns (ids s) (wins k)" and win: "win_ok (us_windows s i)"
    using assms(2,3) by (simp_all add: accounts_def)
  have b: "bufs (free_pixels K k1 (us_windows s i)) = insert p (bufs k - {?old}) \<and> wins (free_pixels K k1 (us_windows s i)) = wins k"
  proof (cases "?old = 0")
    case True
    moreover have "0 \<notin> bufs k" using o(1) by (auto simp: owns_def)
    ultimately show ?thesis using assms(4,5) by (simp add: free_pixels_def)
  next
    case False
    then have m: "?old \<in> bufs k" using owns_member [OF o(1) assms(3)] by (simp add: buffers_def)
    then have "?old \<in> bufs k1" using assms(5) by simp
    then have "wins (wk_free K k1 ?old) = wins k1 \<and> bufs (wk_free K k1 ?old) = bufs k1 - {?old}"
      using assms(1) by (simp add: window_system_def)
    then show ?thesis using m False assms(4-6) by (auto simp: free_pixels_def)
  qed
  have "owns ((buffers s)(i := p)) (insert p (bufs k - {?old}))"
    using owns_replace [OF o(1) assms(3,7,6)] by (simp add: buffers_def)
  moreover have "buffers (upd_win i (set_pixels p w h) s) = (buffers s)(i := p)" "ids (upd_win i (set_pixels p w h) s) = ids s"
    by (simp_all add: buffers_upd ids_upd set_pixels_def) (simp add: ids_def fun_eq_iff)
  moreover have "win_ok (set_pixels p w h (us_windows s i))"
    using win assms(8-11) mul64_area [of w h] by (simp add: win_ok_def set_pixels_def)
  ultimately show ?thesis using assms(2) b o(2)
    by (simp add: accounts_def) (simp add: upd_win_def)
qed

lemma malloc_law:
  assumes "window_system K wins bufs" "wk_malloc K k n = (k', p)"
  shows "wins k' = wins k" "p = 0 \<Longrightarrow> same wins bufs k k'" "p \<noteq> 0 \<Longrightarrow> p \<notin> bufs k \<and> bufs k' = insert p (bufs k)"
proof -
  have "case wk_malloc K k n of (k', p) \<Rightarrow> wins k' = wins k \<and> (if p = 0 then bufs k' = bufs k else p \<notin> bufs k \<and> bufs k' = insert p (bufs k))"
    using assms(1) by (simp add: window_system_def)
  then show "wins k' = wins k" "p = 0 \<Longrightarrow> same wins bufs k k'" "p \<noteq> 0 \<Longrightarrow> p \<notin> bufs k \<and> bufs k' = insert p (bufs k)"
    using assms(2) by (auto simp: same_def)
qed

lemma create_law:
  assumes "window_system K wins bufs" "wk_create K k x y w h f = (k1, n)"
  shows "bufs k1 = bufs k \<and> (if n = 0 then wins k1 = wins k else n \<notin> wins k \<and> wins k1 = insert n (wins k))"
proof -
  have "case wk_create K k x y w h f of (k', i) \<Rightarrow> bufs k' = bufs k \<and> (if i = 0 then wins k' = wins k else i \<notin> wins k \<and> wins k' = insert i (wins k))"
    using assms(1) by (simp add: window_system_def)
  then show ?thesis by (simp add: assms(2))
qed

lemma replace_accounts:
  assumes "window_system K wins bufs" "accounts wins bufs u" "i \<in> indices" "w \<le> 4096" "h \<le> 4096"
  shows "accounts wins bufs (fst (ush_uwm_replace_pixels K i w h u))"
proof -
  obtain k s where u: "u = (k, s)" by fastforce
  show ?thesis
  proof (cases "w \<le> 0 \<or> h \<le> 0")
    case False
    then have a: "1 \<le> w" "1 \<le> h" by auto
    obtain k1 p where m: "wk_malloc K k (mul64 (nat w) (nat h) * 4) = (k1, p)" by fastforce
    note law = malloc_law [OF assms(1) m]
    have "accounts wins bufs (k1, s)" if "p = 0" using assms(2) law(2) [OF that] unfolding u by (rule accounts_same)
    moreover have "accounts wins bufs (free_pixels K k1 (us_windows s i), upd_win i (set_pixels p w h) s)" if "p \<noteq> 0"
      using law(3) [OF that] by (intro new_buffer [OF assms(1) assms(2) [unfolded u] assms(3) law(1)]) (use that assms(4,5) a in auto)
    ultimately show ?thesis using assms(2) by (simp add: ush_uwm_replace_pixels_def u m Let_def)
  qed (use assms(2) in \<open>auto simp: ush_uwm_replace_pixels_def u\<close>)
qed

lemma destroy_kernel_accounts:
  assumes "window_system K wins bufs" "accounts wins bufs u" "i \<in> indices"
  shows "accounts wins bufs (ush_uwm_destroy_kernel_window K i u)"
proof -
  obtain k s where u: "u = (k, s)" by fastforce
  let ?id = "uw_id (us_windows s i)"
  define k1 where "k1 = (if ?id \<noteq> 0 then wk_destroy K k ?id else k)"
  have o: "owns (ids s) (wins k)" and win: "win_ok (us_windows s i)" using assms(2,3) by (simp_all add: accounts_def u)
  have "wins k1 = wins k - {?id} \<and> bufs k1 = bufs k"
  proof (cases "?id = 0")
    case True
    moreover have "0 \<notin> wins k" using o by (auto simp: owns_def)
    ultimately show ?thesis by (simp add: k1_def)
  next
    case False
    then have "?id \<in> wins k" using owns_member [OF o assms(3)] by (simp add: ids_def)
    then show ?thesis using assms(1) False by (simp add: k1_def window_system_def)
  qed
  moreover have "owns ((ids s)(i := 0)) (wins k - {?id})" using owns_clear [OF o assms(3)] by (simp add: ids_def)
  moreover have "ids (upd_win i (\<lambda>win. win\<lparr>uw_id := 0, uw_alive := False\<rparr>) s) = (ids s)(i := 0)"
    "buffers (upd_win i (\<lambda>win. win\<lparr>uw_id := 0, uw_alive := False\<rparr>) s) = buffers s"
    by (simp_all add: buffers_upd ids_upd) (simp add: buffers_def fun_eq_iff)
  moreover have "win_ok ((us_windows s i)\<lparr>uw_id := 0, uw_alive := False\<rparr>)" using win by (simp add: win_ok_def)
  moreover have "ush_uwm_destroy_kernel_window K i u = (k1, upd_win i (\<lambda>win. win\<lparr>uw_id := 0, uw_alive := False\<rparr>) s)"
    by (simp add: ush_uwm_destroy_kernel_window_def u k1_def)
  ultimately show ?thesis using assms(2) by (simp add: accounts_def u) (simp add: upd_win_def)
qed

lemma create_accounts:
  assumes "window_system K wins bufs" "accounts wins bufs u" "i \<in> indices"
    "uw_id (us_windows (snd u) i) = 0" "\<not> uw_closed (us_windows (snd u) i)" "\<not> uw_minimized (us_windows (snd u) i)"
  shows "accounts wins bufs (fst (ush_uwm_create_window K i u))"
proof -
  obtain k s where u: "u = (k, s)" by fastforce
  let ?w = "us_windows s i"
  obtain k1 n where c: "wk_create K k (u64_of_int (uw_x ?w)) (u64_of_int (uw_y ?w)) (u64_of_int (uw_w ?w)) (u64_of_int (uw_h ?w))
    (if uw_topmost ?w then USH_UWM_WM_FLAG_TOPMOST else 0) = (k1, n)" by fastforce
  have law: "bufs k1 = bufs k \<and> (if n = 0 then wins k1 = wins k else n \<notin> wins k \<and> wins k1 = insert n (wins k))"
    by (rule create_law [OF assms(1) c])
  have o: "owns (ids s) (wins k)" and win: "win_ok ?w" using assms(2,3) by (simp_all add: accounts_def u)
  show ?thesis
  proof (cases "n = 0")
    case True
    have "accounts wins bufs (k1, s)" by (rule accounts_same [OF assms(2) [unfolded u]]) (use law True in \<open>simp add: same_def\<close>)
    from accounts_upd [OF this, of i "\<lambda>win. win\<lparr>uw_id := 0\<rparr>"] show ?thesis
      using win assms(4) True by (simp add: ush_uwm_create_window_def u c Let_def win_ok_def)
  next
    case False
    have "owns ((ids s)(i := n)) (insert n (wins k))"
      using owns_add [OF o assms(3)] law False assms(4) by (simp add: ids_def u)
    moreover have "ids (upd_win i (\<lambda>win. win\<lparr>uw_id := n, uw_alive := True\<rparr>) s) = (ids s)(i := n)"
      "buffers (upd_win i (\<lambda>win. win\<lparr>uw_id := n, uw_alive := True\<rparr>) s) = buffers s"
      by (simp_all add: buffers_upd ids_upd) (simp add: buffers_def fun_eq_iff)
    moreover have "win_ok (?w\<lparr>uw_id := n, uw_alive := True\<rparr>)" using win assms(5,6) False by (simp add: win_ok_def u)
    ultimately show ?thesis using assms(2) law False
      by (simp add: accounts_def u ush_uwm_create_window_def c Let_def) (simp add: upd_win_def)
  qed
qed

lemma destroy_accounts:
  assumes "window_system K wins bufs" "accounts wins bufs u" "i \<in> indices"
  shows "accounts wins bufs (ush_uwm_destroy_window K i u)"
proof -
  obtain k s where d: "ush_uwm_destroy_kernel_window K i u = (k, s)" by fastforce
  have acc: "accounts wins bufs (k, s)" using destroy_kernel_accounts [OF assms] by (simp add: d)
  let ?old = "uw_pixels (us_windows s i)"
  let ?f = "\<lambda>win. win\<lparr>uw_pixels := 0, uw_pixel_count := 0, uw_minimized := False, uw_closed := True, uw_maximized := False, uw_dirty := True\<rparr>"
  have dead: "\<not> uw_alive (us_windows s i)" "uw_id (us_windows s i) = 0"
    using d by (auto simp: ush_uwm_destroy_kernel_window_def split: prod.splits)
  have o: "owns (buffers s) (bufs k)" and win: "win_ok (us_windows s i)" using acc assms(3) by (simp_all add: accounts_def)
  have "wins (free_pixels K k (us_windows s i)) = wins k \<and> bufs (free_pixels K k (us_windows s i)) = bufs k - {?old}"
  proof (cases "?old = 0")
    case True
    moreover have "0 \<notin> bufs k" using o by (auto simp: owns_def)
    ultimately show ?thesis by (simp add: free_pixels_def)
  next
    case False
    then have "?old \<in> bufs k" using owns_member [OF o assms(3)] by (simp add: buffers_def)
    then show ?thesis using assms(1) False by (simp add: free_pixels_def window_system_def)
  qed
  moreover have "owns ((buffers s)(i := 0)) (bufs k - {?old})" using owns_clear [OF o assms(3)] by (simp add: buffers_def)
  moreover have "buffers (upd_win i ?f s) = (buffers s)(i := 0)" "ids (upd_win i ?f s) = ids s"
    by (simp_all add: buffers_upd ids_upd) (simp add: ids_def fun_eq_iff)
  moreover have "win_ok (?f (us_windows s i))" using win dead by (simp add: win_ok_def)
  ultimately show ?thesis using acc
    by (simp add: accounts_def ush_uwm_destroy_window_def d) (simp add: upd_win_def)
qed


subsection \<open>What the steps leave as it is\<close>

text \<open>\<open>local i\<close>: a step that changes no other window than \<open>i\<close>, apart from drawing marks and the active window.\<close>

definition local :: "int \<Rightarrow> 'k uwm \<Rightarrow> 'k uwm \<Rightarrow> bool" where
  "local i u u' \<longleftrightarrow>
     (\<forall>j. j \<noteq> i \<longrightarrow> (us_windows (snd u') j)\<lparr>uw_dirty := False\<rparr> = (us_windows (snd u) j)\<lparr>uw_dirty := False\<rparr>) \<and>
     (\<forall>a W. (snd u')\<lparr>us_active_window := a, us_windows := W\<rparr> = (snd u)\<lparr>us_active_window := a, us_windows := W\<rparr>)"

lemma local_refl [simp]: "local i u u" by (simp add: local_def)

lemma local_trans [trans]: "local i u u' \<Longrightarrow> local i u' u'' \<Longrightarrow> local i u u''" by (simp add: local_def)

lemma calm_local: "calm wins bufs u u' \<Longrightarrow> local i u u'" by (simp add: local_def calm_def)

lemma local_upd: "local i (k, s) (k', upd_win i f s)" by (simp add: local_def upd_win_def)

lemma local_step: "local i (k, s) (k', s)" by (simp add: local_def)

lemma local_session:
  assumes "local i u u'" "\<And>a W s. f (s\<lparr>us_active_window := a, us_windows := W\<rparr>) = f s"
  shows "f (snd u') = f (snd u)"
proof -
  have "f ((snd u')\<lparr>us_active_window := 0, us_windows := us_windows (snd u)\<rparr>) = f ((snd u)\<lparr>us_active_window := 0, us_windows := us_windows (snd u)\<rparr>)"
    using assms(1) unfolding local_def by metis
  then show ?thesis by (simp only: assms(2))
qed

lemma local_screen:
  assumes "local i u u'"
  shows "us_screen_w (snd u') = us_screen_w (snd u)" "us_screen_h (snd u') = us_screen_h (snd u)" "us_start_open (snd u') = us_start_open (snd u)"
    "us_dragging (snd u') = us_dragging (snd u)" "us_drag_window (snd u') = us_drag_window (snd u)"
    "us_resizing (snd u') = us_resizing (snd u)" "us_resize_window (snd u') = us_resize_window (snd u)"
    "ush_uwm_work_bottom (snd u') = ush_uwm_work_bottom (snd u)"
  by (rule local_session [OF assms]; simp add: ush_uwm_work_bottom_def)+

lemma local_window:
  assumes "local i u u'" "j \<noteq> i"
  shows "us_windows (snd u') j = (us_windows (snd u) j)\<lparr>uw_dirty := uw_dirty (us_windows (snd u') j)\<rparr>"
proof -
  have "(us_windows (snd u') j)\<lparr>uw_dirty := False\<rparr> = (us_windows (snd u) j)\<lparr>uw_dirty := False\<rparr>" using assms by (simp add: local_def)
  then have "(us_windows (snd u') j)\<lparr>uw_dirty := False, uw_dirty := uw_dirty (us_windows (snd u') j)\<rparr> =
    (us_windows (snd u) j)\<lparr>uw_dirty := False, uw_dirty := uw_dirty (us_windows (snd u') j)\<rparr>" by simp
  then show ?thesis by (simp del: ush_uwm_window.update_convs)
qed

text \<open>The place of a window, and what of it is inside the work area.\<close>

definition place :: "ush_uwm_window \<Rightarrow> int \<times> int \<times> int \<times> int" where
  "place w = (uw_x w, uw_y w, uw_w w, uw_h w)"

definition restore_place :: "ush_uwm_window \<Rightarrow> bool \<times> int \<times> int \<times> int \<times> int" where
  "restore_place w = (uw_maximized w, uw_restore_x w, uw_restore_y w, uw_restore_w w, uw_restore_h w)"

definition inside :: "ush_uwm_session \<Rightarrow> int \<times> int \<times> int \<times> int \<Rightarrow> bool" where
  "inside s g \<longleftrightarrow> (case g of (x, y, w, h) \<Rightarrow>
     USH_UWM_MIN_WINDOW_W \<le> w \<and> USH_UWM_MIN_WINDOW_H \<le> h \<and> 0 \<le> x \<and> x + w \<le> us_screen_w s \<and>
     USH_UWM_TOP_CLAMP_Y \<le> y \<and> y + h \<le> ush_uwm_work_bottom s)"

definition placed :: "ush_uwm_session \<Rightarrow> ush_uwm_window \<Rightarrow> bool" where
  "placed s w \<longleftrightarrow> inside s (place w) \<and>
     (case restore_place w of (m, g) \<Rightarrow> m \<longrightarrow> inside s g)"

text \<open>Memory never runs out, and the screen has room for a window.\<close>

definition roomy :: "'k wm_kernel \<Rightarrow> ush_uwm_session \<Rightarrow> bool" where
  "roomy K s \<longleftrightarrow> (\<forall>k n. snd (wk_malloc K k n) \<noteq> 0) \<and> 300 \<le> us_screen_w s \<and> 300 \<le> us_screen_h s"

definition tidy :: "'k wm_kernel \<Rightarrow> ush_uwm_session \<Rightarrow> bool" where
  "tidy K s \<longleftrightarrow> (us_start_open s \<longleftrightarrow> uw_alive (us_windows s USH_UWM_START_INDEX)) \<and> \<not> uw_minimized (us_windows s USH_UWM_START_INDEX) \<and>
     (roomy K s \<longrightarrow> (\<forall>i. ush_uwm_app_index_valid i \<longrightarrow> placed s (us_windows s i)))"

definition uwm_ok :: "'k wm_kernel \<Rightarrow> ('k \<Rightarrow> nat set) \<Rightarrow> ('k \<Rightarrow> nat set) \<Rightarrow> 'k uwm \<Rightarrow> bool" where
  "uwm_ok K wins bufs u \<longleftrightarrow> accounts wins bufs u \<and> tidy K (snd u)"

lemma app_not_start: "ush_uwm_app_index_valid i \<Longrightarrow> i \<in> indices \<and> i \<noteq> USH_UWM_START_INDEX \<and> i \<noteq> USH_UWM_TASKBAR_INDEX"
  by (auto simp: ush_uwm_app_index_valid_def indices_def uwm_consts)

lemma inside_frame: "local i u u' \<Longrightarrow> inside (snd u') = inside (snd u) \<and> roomy K (snd u') = roomy K (snd u)"
  by (simp add: fun_eq_iff inside_def roomy_def local_screen split: prod.splits)

lemma placed_dirty [simp]: "placed s (w\<lparr>uw_dirty := d\<rparr>) = placed s w"
  by (simp add: placed_def place_def restore_place_def)

lemma tidy_local:
  assumes "local i u u'" "ush_uwm_app_index_valid i" "tidy K (snd u)" "roomy K (snd u) \<Longrightarrow> placed (snd u) (us_windows (snd u) i) \<Longrightarrow> placed (snd u) (us_windows (snd u') i)"
  shows "tidy K (snd u')"
proof -
  note f = inside_frame [OF assms(1), of K]
  have p: "placed (snd u') w = placed (snd u) w" for w using f by (simp add: placed_def)
  have "us_windows (snd u') USH_UWM_START_INDEX = (us_windows (snd u) USH_UWM_START_INDEX)\<lparr>uw_dirty := uw_dirty (us_windows (snd u') USH_UWM_START_INDEX)\<rparr>"
    by (rule local_window [OF assms(1)]) (use app_not_start [OF assms(2)] in auto)
  then have "uw_alive (us_windows (snd u') USH_UWM_START_INDEX) = uw_alive (us_windows (snd u) USH_UWM_START_INDEX) \<and>
      uw_minimized (us_windows (snd u') USH_UWM_START_INDEX) = uw_minimized (us_windows (snd u) USH_UWM_START_INDEX)"
    by (metis ush_uwm_window.select_convs(8,9) ush_uwm_window.surjective ush_uwm_window.update_convs(17))
  moreover have "placed (snd u) (us_windows (snd u') j)" if "roomy K (snd u)" "ush_uwm_app_index_valid j" for j
  proof (cases "j = i")
    case True
    then show ?thesis using assms(2-4) that by (simp add: tidy_def)
  next
    case False
    then show ?thesis by (subst local_window [OF assms(1)]) (use assms(3) that in \<open>auto simp: tidy_def\<close>)
  qed
  ultimately show ?thesis using assms(3) f local_screen [OF assms(1)] by (simp add: tidy_def p)
qed

lemma tidy_calm: "calm wins bufs u u' \<Longrightarrow> tidy K (snd u) \<Longrightarrow> tidy K (snd u')"
  by (rule tidy_local [of 0 u u']) (auto intro: calm_local simp: ush_uwm_app_index_valid_def uwm_consts placed_def place_def restore_place_def calm_fields)

lemma render_win [simp]:
  "us_windows (snd (ush_uwm_render_window K i u)) =
     (if ush_uwm_window_index_valid i \<and> uw_pixels (us_windows (snd u) i) \<noteq> 0
      then (us_windows (snd u))(i := (us_windows (snd u) i)\<lparr>uw_dirty := False\<rparr>) else us_windows (snd u))"
  by (auto simp: ush_uwm_render_window_def split: prod.splits)

lemma destroy_kernel_snd: "snd (ush_uwm_destroy_kernel_window K i u) = upd_win i (\<lambda>win. win\<lparr>uw_id := 0, uw_alive := False\<rparr>) (snd u)"
  by (auto simp: ush_uwm_destroy_kernel_window_def split: prod.splits)

lemma local_destroy_kernel: "local i u (ush_uwm_destroy_kernel_window K i u)"
  by (cases u) (simp add: ush_uwm_destroy_kernel_window_def local_upd)

lemma local_create: "local i u (fst (ush_uwm_create_window K i u))"
  by (cases u) (auto simp: ush_uwm_create_window_def Let_def local_upd split: prod.splits)

lemma local_replace: "local i u (fst (ush_uwm_replace_pixels K i w h u))"
  by (cases u) (auto simp: ush_uwm_replace_pixels_def Let_def local_upd local_step split: prod.splits)

lemma local_render: "local i u (ush_uwm_render_window K i u)"
  by (cases u) (auto simp: ush_uwm_render_window_def local_upd)

lemma create_places [simp]:
  "place (us_windows (snd (fst (ush_uwm_create_window K i u))) i) = place (us_windows (snd u) i)"
  "restore_place (us_windows (snd (fst (ush_uwm_create_window K i u))) i) = restore_place (us_windows (snd u) i)"
  by (auto simp: ush_uwm_create_window_def Let_def place_def restore_place_def split: prod.splits)

lemma create_result:
  assumes "ush_uwm_create_window K i u = (u', ok)"
  shows "ok \<longleftrightarrow> uw_id (us_windows (snd u') i) \<noteq> 0" "\<not> ok \<Longrightarrow> uw_alive (us_windows (snd u') i) = uw_alive (us_windows (snd u) i)"
    "ok \<Longrightarrow> uw_alive (us_windows (snd u') i)"
    "uw_closed (us_windows (snd u') i) = uw_closed (us_windows (snd u) i)" "uw_minimized (us_windows (snd u') i) = uw_minimized (us_windows (snd u) i)"
  using assms by (auto simp: ush_uwm_create_window_def Let_def split: prod.splits if_splits)


subsection \<open>Every operation keeps the session in order\<close>

lemma ok_calm_ops:
  assumes "window_system K wins bufs" "uwm_ok K wins bufs u"
  shows "uwm_ok K wins bufs (ush_uwm_set_active K i u)" "uwm_ok K wins bufs (ush_uwm_focus_next K u)"
    "uwm_ok K wins bufs (ush_uwm_refresh_window K i u)" "uwm_ok K wins bufs (ush_uwm_refresh_taskbar K u)"
    "uwm_ok K wins bufs (ush_uwm_render_window K i u)"
proof -
  have a: "accounts wins bufs u" and t: "tidy K (snd u)" using assms(2) by (simp_all add: uwm_ok_def)
  show "uwm_ok K wins bufs (ush_uwm_set_active K i u)"
    unfolding uwm_ok_def by (rule conjI [OF set_active_accounts [OF assms(1) a] tidy_calm [OF set_active_calm [OF assms(1)] t]])
  show "uwm_ok K wins bufs (ush_uwm_focus_next K u)"
    unfolding uwm_ok_def by (rule conjI [OF focus_next_accounts [OF assms(1) a] tidy_calm [OF focus_next_calm [OF assms(1)] t]])
  show "uwm_ok K wins bufs (ush_uwm_refresh_window K i u)"
    unfolding uwm_ok_def by (rule conjI [OF refresh_accounts(1) [OF assms(1) a] tidy_calm [OF refresh_calm [OF assms(1)] t]])
  show "uwm_ok K wins bufs (ush_uwm_refresh_taskbar K u)"
    unfolding uwm_ok_def by (rule conjI [OF refresh_accounts(2) [OF assms(1) a] tidy_calm [OF taskbar_calm [OF assms(1)] t]])
  show "uwm_ok K wins bufs (ush_uwm_render_window K i u)"
    unfolding uwm_ok_def by (rule conjI [OF render_accounts [OF assms(1) a] tidy_calm [OF render_calm [OF assms(1)] t]])
qed

lemma ok_same: "uwm_ok K wins bufs (k, s) \<Longrightarrow> same wins bufs k k' \<Longrightarrow> uwm_ok K wins bufs (k', s)"
  by (auto simp: uwm_ok_def intro: accounts_same)

lemma ok_session:
  assumes "uwm_ok K wins bufs (k, s)" "us_screen_w s' = us_screen_w s" "us_screen_h s' = us_screen_h s" "us_start_open s' = us_start_open s"
    "us_active_window s' = us_active_window s" "us_windows s' = us_windows s"
  shows "uwm_ok K wins bufs (k, s')"
  using accounts_session [of wins bufs k s s'] assms
  by (simp add: uwm_ok_def tidy_def roomy_def placed_def inside_def ush_uwm_work_bottom_def)

text \<open>A change of fields of one application window.\<close>

lemma ok_upd:
  assumes "uwm_ok K wins bufs (k, s)" "ush_uwm_app_index_valid i" "win_ok (us_windows s i) \<Longrightarrow> win_ok (f (us_windows s i))"
    and "uw_id (f (us_windows s i)) = uw_id (us_windows s i)" "uw_pixels (f (us_windows s i)) = uw_pixels (us_windows s i)"
    and "roomy K s \<Longrightarrow> placed s (us_windows s i) \<Longrightarrow> placed s (f (us_windows s i))"
  shows "uwm_ok K wins bufs (k, upd_win i f s)"
proof -
  have "accounts wins bufs (k, upd_win i f s)"
    by (rule accounts_upd) (use assms app_not_start [OF assms(2)] in \<open>auto simp: uwm_ok_def accounts_def\<close>)
  moreover have "tidy K (snd (k, upd_win i f s))"
    by (rule tidy_local [OF local_upd [where k = k] assms(2)]) (use assms in \<open>simp_all add: uwm_ok_def\<close>)
  ultimately show ?thesis by (simp add: uwm_ok_def)
qed

lemma ok_present: "window_system K wins bufs \<Longrightarrow> uwm_ok K wins bufs (k, s) \<Longrightarrow> uwm_ok K wins bufs (fst (ush_uwm_present_window K k w), s)"
  by (erule ok_same) (rule same_present)

lemma roomy_work: "300 \<le> us_screen_h s \<Longrightarrow> ush_uwm_work_bottom s = us_screen_h s - 48"
  by (simp add: ush_uwm_work_bottom_def uwm_consts)

lemma clampi_range: "lo \<le> hi \<Longrightarrow> lo \<le> ush_uwm_clampi v lo hi \<and> ush_uwm_clampi v lo hi \<le> hi"
  by (simp add: ush_uwm_clampi_def)

lemma clamp_inside:
  assumes "USH_UWM_MIN_WINDOW_W \<le> w" "w \<le> us_screen_w s" "USH_UWM_MIN_WINDOW_H \<le> h" "USH_UWM_TOP_CLAMP_Y + h \<le> ush_uwm_work_bottom s"
  shows "inside s (clamp_x s w x, clamp_y s h y, w, h)"
  using assms clampi_range [of 0 "us_screen_w s - w" x] clampi_range [of USH_UWM_TOP_CLAMP_Y "ush_uwm_work_bottom s - h" y]
  by (simp add: inside_def clamp_x_def clamp_y_def Let_def)

lemma clamp_low: "0 \<le> clamp_x s w x" "USH_UWM_TOP_CLAMP_Y \<le> clamp_y s h y"
  by (auto simp: clamp_x_def clamp_y_def Let_def ush_uwm_clampi_def)

lemma move_ok:
  assumes "window_system K wins bufs" "uwm_ok K wins bufs u"
  shows "uwm_ok K wins bufs (fst (ush_uwm_window_move_clamped K i x y u))"
proof -
  obtain k s where u: "u = (k, s)" by fastforce
  show ?thesis
  proof (cases "shown_window s i")
    case True
    let ?x = "clamp_x s (uw_w (us_windows s i)) x" and ?y = "clamp_y s (uw_h (us_windows s i)) y"
    obtain k1 r where m: "wk_move K k (uw_id (us_windows s i)) (u64_of_int ?x) (u64_of_int ?y) = (k1, r)" by fastforce
    have k1: "uwm_ok K wins bufs (k1, s)" by (rule ok_same [OF assms(2) [unfolded u] ws_pairs(2) [OF assms(1) m]])
    have "uwm_ok K wins bufs (k1, upd_win i (\<lambda>win. win\<lparr>uw_x := ?x, uw_y := ?y\<rparr>) s)"
    proof (rule ok_upd [OF k1])
      assume "placed s (us_windows s i)"
      then show "placed s ((us_windows s i)\<lparr>uw_x := ?x, uw_y := ?y\<rparr>)"
        using clamp_inside [of "uw_w (us_windows s i)" s "uw_h (us_windows s i)" x y]
        by (simp add: placed_def place_def restore_place_def inside_def)
    qed (use True clamp_low in \<open>auto simp: shown_window_def win_ok_def\<close>)
    then show ?thesis using assms(2) k1 True by (simp add: ush_uwm_window_move_clamped_def u Let_def m)
  qed (use assms(2) in \<open>simp add: ush_uwm_window_move_clamped_def u\<close>)
qed

lemma ok_new_buffer:
  assumes "window_system K wins bufs" "uwm_ok K wins bufs (k, s)" "ush_uwm_app_index_valid i"
    and "wk_malloc K k n = (k1, p)" "p \<noteq> 0" "same wins bufs k1 k2" "1 \<le> w" "w \<le> 4096" "1 \<le> h" "h \<le> 4096"
    and "roomy K s \<Longrightarrow> placed s (us_windows s i) \<Longrightarrow> placed s (set_pixels p w h (us_windows s i))"
  shows "uwm_ok K wins bufs (free_pixels K k2 (us_windows s i), upd_win i (set_pixels p w h) s)"
proof -
  have law: "wins k2 = wins k" "bufs k2 = insert p (bufs k)" "p \<notin> bufs k"
    using malloc_law [OF assms(1,4)] assms(5,6) by (auto simp: same_def)
  have "accounts wins bufs (free_pixels K k2 (us_windows s i), upd_win i (set_pixels p w h) s)"
    by (rule new_buffer [OF assms(1) _ _ law(1,2,3) assms(5)]) (use assms(2,7-10) app_not_start [OF assms(3)] in \<open>auto simp: uwm_ok_def\<close>)
  moreover have "tidy K (snd (free_pixels K k2 (us_windows s i), upd_win i (set_pixels p w h) s))"
    by (rule tidy_local [OF local_upd [where k = k] assms(3)]) (use assms(2,11) in \<open>simp_all add: uwm_ok_def\<close>)
  ultimately show ?thesis by (simp add: uwm_ok_def)
qed

text \<open>A buffer that is given back at once.\<close>

lemma malloc_free:
  assumes "window_system K wins bufs" "wk_malloc K k n = (k1, p)" "p \<noteq> 0" "same wins bufs k1 k2"
  shows "same wins bufs k (wk_free K k2 p)"
proof -
  have b: "bufs k2 = insert p (bufs k)" "p \<notin> bufs k" "wins k2 = wins k"
    using malloc_law [OF assms(1,2)] assms(3,4) by (auto simp: same_def)
  then have "wins (wk_free K k2 p) = wins k2 \<and> bufs (wk_free K k2 p) = bufs k2 - {p}" using assms(1) by (simp add: window_system_def)
  then show ?thesis using b by (simp add: same_def)
qed

lemma resize_ok:
  assumes "window_system K wins bufs" "uwm_ok K wins bufs u"
  shows "uwm_ok K wins bufs (fst (ush_uwm_window_resize K i w h u))"
proof -
  obtain k s where u: "u = (k, s)" by fastforce
  note ok = assms(2) [unfolded u]
  show ?thesis
  proof (cases "shown_window s i")
    case True
    have i: "ush_uwm_app_index_valid i" using True by (simp add: shown_window_def)
    have low: "0 \<le> uw_x (us_windows s i)" "USH_UWM_TOP_CLAMP_Y \<le> uw_y (us_windows s i)"
      using accounts_win [of wins bufs "(k, s)" i] ok app_not_start [OF i] by (simp_all add: uwm_ok_def win_ok_def)
    define win where "win = us_windows s i"
    define max_w where "max_w = (if us_screen_w s - uw_x win < USH_UWM_MIN_WINDOW_W then USH_UWM_MIN_WINDOW_W else us_screen_w s - uw_x win)"
    define max_h where "max_h = (if ush_uwm_work_bottom s - uw_y win < USH_UWM_MIN_WINDOW_H then USH_UWM_MIN_WINDOW_H else ush_uwm_work_bottom s - uw_y win)"
    define nw where "nw = ush_uwm_clampi w USH_UWM_MIN_WINDOW_W max_w"
    define nh where "nh = ush_uwm_clampi h USH_UWM_MIN_WINDOW_H max_h"
    obtain k1 p where m: "wk_malloc K k (mul64 (nat nw) (nat nh) * 4) = (k1, p)" by fastforce
    obtain k2 r where z: "wk_resize K k1 (uw_id win) (u64_of_int nw) (u64_of_int nh) = (k2, r)" by fastforce
    note same2 = ws_pairs(3) [OF assms(1) z]
    have rw: "USH_UWM_MIN_WINDOW_W \<le> nw" "nw \<le> max_w" "USH_UWM_MIN_WINDOW_H \<le> nh" "nh \<le> max_h"
      using clampi_range [of USH_UWM_MIN_WINDOW_W max_w w] clampi_range [of USH_UWM_MIN_WINDOW_H max_h h]
      by (auto simp: nw_def nh_def max_w_def max_h_def)
    have sc: "us_screen_w s \<le> 4096" "us_screen_h s \<le> 4096" using ok by (simp_all add: uwm_ok_def accounts_def)
    have le: "nw \<le> 4096" "nh \<le> 4096" "1 \<le> nw" "1 \<le> nh"
      using rw sc low by (auto simp: max_w_def max_h_def uwm_consts ush_uwm_work_bottom_def win_def Let_def split: if_splits)
    have null: "uwm_ok K wins bufs (k1, s)" if "p = 0" by (rule ok_same [OF ok malloc_law(2) [OF assms(1) m that]])
    have given: "uwm_ok K wins bufs (wk_free K k2 p, s)" if "p \<noteq> 0" by (rule ok_same [OF ok malloc_free [OF assms(1) m that same2]])
    have new: "uwm_ok K wins bufs (free_pixels K k2 (us_windows s i), upd_win i (set_pixels p nw nh) s)" if p: "p \<noteq> 0"
    proof (rule ok_new_buffer [OF assms(1) ok i m p same2 le(3,1,4,2)])
      assume "placed s (us_windows s i)"
      then show "placed s (set_pixels p nw nh (us_windows s i))"
        using rw by (auto simp: placed_def place_def restore_place_def inside_def set_pixels_def max_w_def max_h_def win_def split: if_splits)
    qed
    obtain k3 s3 where d: "ush_uwm_render_window K i (free_pixels K k2 (us_windows s i), upd_win i (set_pixels p nw nh) s) = (k3, s3)" by fastforce
    have drawn: "uwm_ok K wins bufs (fst (ush_uwm_present_window K k3 (us_windows s3 i)), s3)" if "p \<noteq> 0"
      by (rule ok_present [OF assms(1)]) (use ok_calm_ops(5) [OF assms(1) new [OF that], of i] d in simp)
    show ?thesis
      unfolding u ush_uwm_window_resize_def resize_to_def Let_def prod.case snd_conv
      unfolding win_def [symmetric] max_w_def [symmetric] max_h_def [symmetric] nw_def [symmetric] nh_def [symmetric]
      using True ok null given drawn by (simp add: m z d [folded win_def])
  qed (use assms(2) in \<open>simp add: ush_uwm_window_resize_def u\<close>)
qed


lemma replace_places:
  assumes "ush_uwm_replace_pixels K i w h u = (u', ok)"
  shows "restore_place (us_windows (snd u') i) = restore_place (us_windows (snd u) i)"
    "ok \<Longrightarrow> place (us_windows (snd u') i) = (uw_x (us_windows (snd u) i), uw_y (us_windows (snd u) i), w, h)"
    "\<not> ok \<Longrightarrow> snd u' = snd u"
    "uw_closed (us_windows (snd u') i) = uw_closed (us_windows (snd u) i)" "uw_minimized (us_windows (snd u') i) = uw_minimized (us_windows (snd u) i)"
    "uw_id (us_windows (snd u') i) = uw_id (us_windows (snd u) i)" "uw_alive (us_windows (snd u') i) = uw_alive (us_windows (snd u) i)"
  using assms by (auto simp: ush_uwm_replace_pixels_def Let_def set_pixels_def restore_place_def place_def split: prod.splits if_splits)

lemma accounts_active: "accounts wins bufs (k, s) \<Longrightarrow> ush_uwm_app_index_valid i \<Longrightarrow> accounts wins bufs (k, s\<lparr>us_active_window := i\<rparr>)"
  by (auto simp: accounts_def ids_def buffers_def dest: active_range)

lemma accounts_present: "window_system K wins bufs \<Longrightarrow> accounts wins bufs (k, s) \<Longrightarrow> ush_uwm_present_window K k w = (k', r) \<Longrightarrow> accounts wins bufs (k', s)"
  by (erule accounts_same) (erule present_pair)

lemma placed_places: "place w' = place w \<Longrightarrow> restore_place w' = restore_place w \<Longrightarrow> placed s w' = placed s w"
  by (simp add: placed_def)

lemma accounts_close: "accounts wins bufs (k, s) \<Longrightarrow> i \<in> indices \<Longrightarrow> \<not> uw_alive (us_windows s i) \<Longrightarrow> accounts wins bufs (k, upd_win i (\<lambda>win. win\<lparr>uw_closed := True\<rparr>) s)"
  by (rule accounts_upd) (auto simp: accounts_def win_ok_def)

text \<open>Whatever the kernel answers, the accounts are in order, the place stays and so does everything else.\<close>

lemma reopened_ok:
  assumes W: "window_system K wins bufs" and acc: "accounts wins bufs u" and i: "ush_uwm_app_index_valid i"
    and dead: "\<not> uw_alive (us_windows (snd u) i)" "uw_id (us_windows (snd u) i) = 0"
    and shut: "\<not> uw_closed (us_windows (snd u) i)" "\<not> uw_minimized (us_windows (snd u) i)"
    and r: "reopened K i u = (u', ok)"
  shows "accounts wins bufs u' \<and> local i u u' \<and> place (us_windows (snd u') i) = place (us_windows (snd u) i) \<and>
    restore_place (us_windows (snd u') i) = restore_place (us_windows (snd u) i)"
proof -
  define u4 where "u4 = ush_uwm_render_window K i u"
  have idx: "i \<in> indices" using app_not_start [OF i] by simp
  have w4: "us_windows (snd u4) i = (us_windows (snd u) i)\<lparr>uw_dirty := uw_dirty (us_windows (snd u4) i)\<rparr>"
    unfolding u4_def by (rule calm_window [OF render_calm [OF W]])
  have f4: "uw_alive (us_windows (snd u4) i) = False" "uw_id (us_windows (snd u4) i) = 0" "uw_closed (us_windows (snd u4) i) = False"
    "uw_minimized (us_windows (snd u4) i) = False" "place (us_windows (snd u4) i) = place (us_windows (snd u) i)"
    "restore_place (us_windows (snd u4) i) = restore_place (us_windows (snd u) i)"
    using dead shut by (simp_all add: u4_def place_def restore_place_def)
  have acc4: "accounts wins bufs u4" unfolding u4_def by (rule render_accounts [OF W acc])
  obtain k s created where c: "ush_uwm_create_window K i u4 = ((k, s), created)" by (metis prod.exhaust)
  have acc5: "accounts wins bufs (k, s)" using create_accounts [OF W acc4 idx] f4 by (simp add: c)
  have loc5: "local i u (k, s)" using local_trans [OF local_render local_create, of i u K K] by (simp add: u4_def [symmetric] c)
  have p5: "place (us_windows s i) = place (us_windows (snd u) i)" "restore_place (us_windows s i) = restore_place (us_windows (snd u) i)"
    using create_places [of K i u4] f4 by (simp_all add: c)
  show ?thesis
  proof (cases created)
    case False
    then have "u' = (k, upd_win i (\<lambda>win. win\<lparr>uw_closed := True\<rparr>) s)" using r by (simp add: reopened_def u4_def [symmetric] c)
    moreover have "\<not> uw_alive (us_windows s i)" using create_result(2) [OF c] False f4 by simp
    ultimately show ?thesis
      using accounts_close [OF acc5 idx] local_trans [OF loc5 local_upd] p5 by (simp add: place_def restore_place_def)
  next
    case True
    obtain k6 presented where pr: "ush_uwm_present_window K k (us_windows s i) = (k6, presented)" by fastforce
    have acc6: "accounts wins bufs (k6, s)" by (rule accounts_present [OF W acc5 pr])
    have loc6: "local i u (k6, s)" by (rule local_trans [OF loc5 local_step])
    show ?thesis
    proof (cases presented)
      case False
      obtain k7 s7 where d: "ush_uwm_destroy_kernel_window K i (k6, s) = (k7, s7)" by fastforce
      have s7: "s7 = upd_win i (\<lambda>win. win\<lparr>uw_id := 0, uw_alive := False\<rparr>) s"
        using destroy_kernel_snd [of K i "(k6, s)"] by (simp add: d)
      have acc7: "accounts wins bufs (k7, s7)" using destroy_kernel_accounts [OF W acc6 idx] by (simp add: d)
      have "u' = (k7, upd_win i (\<lambda>win. win\<lparr>uw_closed := True\<rparr>) s7)" using r True False by (simp add: reopened_def u4_def [symmetric] c pr d)
      then show ?thesis
        using accounts_close [OF acc7 idx] local_trans [OF local_trans [OF loc6 local_upd] local_upd] p5 by (simp add: s7 place_def restore_place_def)
    next
      case p: True
      define u7 where "u7 = (fst (wk_set_focus K k6 (uw_id (us_windows s i))), s\<lparr>us_active_window := i\<rparr>)"
      have u': "u' = ush_uwm_refresh_taskbar K u7" using r True p by (simp add: reopened_def u4_def [symmetric] c pr u7_def)
      have acc7: "accounts wins bufs u7"
        unfolding u7_def by (rule accounts_active [OF accounts_same [OF acc6 ws_same(4) [OF W]] i])
      have calm7: "calm wins bufs (k6, s) u7" unfolding u7_def by (rule calm_active [OF ws_same(4) [OF W]])
      note calm' = calm_trans [OF calm7 taskbar_calm [OF W]]
      show ?thesis
        using refresh_accounts(2) [OF W acc7] local_trans [OF loc6 calm_local [OF calm']] p5 calm_fields [OF calm', of i]
        by (simp add: u' place_def restore_place_def)
    qed
  qed
qed

lemma recreate_ok:
  assumes W: "window_system K wins bufs" and ok: "uwm_ok K wins bufs u" and r: "ush_uwm_window_recreate_geometry K i x y w h u = (u', done)"
  shows "uwm_ok K wins bufs u'" "restore_place (us_windows (snd u') i) = restore_place (us_windows (snd u) i)"
    "inside (snd u') = inside (snd u)" "\<exists>j. local j u u'"
proof -
  let ?s = "snd u"
  define win where "win = us_windows (snd u) i"
  define nw where "nw = ush_uwm_clampi w USH_UWM_MIN_WINDOW_W (us_screen_w ?s)"
  define nh where "nh = ush_uwm_clampi h USH_UWM_MIN_WINDOW_H (ush_uwm_work_bottom ?s - USH_UWM_TOP_CLAMP_Y)"
  define nx where "nx = clamp_x ?s nw x"
  define ny where "ny = clamp_y ?s nh y"
  have acc: "accounts wins bufs u" and tidy: "tidy K ?s" using ok by (simp_all add: uwm_ok_def)
  have "uwm_ok K wins bufs u' \<and> restore_place (us_windows (snd u') i) = restore_place (us_windows (snd u) i) \<and> local i u u'"
  proof (cases "\<not> ush_uwm_app_index_valid i \<or> uw_closed win \<or> uw_minimized win")
    case True
    then show ?thesis using r ok by (simp add: ush_uwm_window_recreate_geometry_def Let_def win_def)
  next
    case False
    then have i: "ush_uwm_app_index_valid i" and idx: "i \<in> indices" using app_not_start by blast+
    have sc: "1 \<le> us_screen_w ?s" "us_screen_w ?s \<le> 4096" "1 \<le> us_screen_h ?s" "us_screen_h ?s \<le> 4096"
      using acc by (simp_all add: accounts_def case_prod_beta)
    have le: "1 \<le> nw" "nw \<le> 4096" "1 \<le> nh" "nh \<le> 4096"
      using sc by (auto simp: nw_def nh_def ush_uwm_clampi_def uwm_consts ush_uwm_work_bottom_def Let_def)
    obtain u1 replaced where p: "ush_uwm_replace_pixels K i nw nh u = (u1, replaced)" by fastforce
    have acc1: "accounts wins bufs u1" using replace_accounts [OF W acc idx le(2,4)] by (simp add: p)
    have loc1: "local i u u1" using local_replace [of i u K nw nh] by (simp add: p)
    show ?thesis
    proof (cases replaced)
      case no: False
      then have "u' = u1" using r False by (simp add: ush_uwm_window_recreate_geometry_def Let_def win_def nw_def [symmetric] nh_def [symmetric] p)
      then show ?thesis using replace_places(3) [OF p no] acc1 loc1 tidy by (simp add: uwm_ok_def)
    next
      case yes: True
      define u2 where "u2 = (if uw_id (us_windows (snd u1) i) \<noteq> 0 \<or> uw_alive (us_windows (snd u1) i) then ush_uwm_destroy_kernel_window K i u1 else u1)"
      define u3 where "u3 = (fst u2, upd_win i (\<lambda>win. win\<lparr>uw_x := nx, uw_y := ny, uw_closed := False, uw_minimized := False\<rparr>) (snd u2))"
      have acc2: "accounts wins bufs u2" using acc1 destroy_kernel_accounts [OF W acc1 idx] by (simp add: u2_def)
      have loc2: "local i u u2" using loc1 local_trans [OF loc1 local_destroy_kernel] by (simp add: u2_def)
      have dead: "\<not> uw_alive (us_windows (snd u2) i)" "uw_id (us_windows (snd u2) i) = 0" by (auto simp: u2_def destroy_kernel_snd)
      have w2: "restore_place (us_windows (snd u2) i) = restore_place win" "uw_w (us_windows (snd u2) i) = nw" "uw_h (us_windows (snd u2) i) = nh"
        using replace_places(1,2) [OF p] yes by (auto simp: u2_def destroy_kernel_snd restore_place_def place_def win_def)
      have acc3: "accounts wins bufs u3"
        unfolding u3_def
      proof (rule accounts_upd)
        assume "i \<in> indices"
        then have "win_ok (us_windows (snd u2) i)" by (rule accounts_win [OF acc2])
        then show "win_ok ((us_windows (snd u2) i)\<lparr>uw_x := nx, uw_y := ny, uw_closed := False, uw_minimized := False\<rparr>)"
          using clamp_low dead by (simp add: win_ok_def nx_def ny_def)
      qed (use acc2 in simp_all)
      have loc3: "local i u u3" using local_trans [OF loc2, of u3] local_upd [of i "fst u2" "snd u2"] by (simp add: u3_def)
      have "reopened K i u3 = (u', done)"
        using r False yes
        by (simp add: ush_uwm_window_recreate_geometry_def Let_def win_def nw_def [symmetric] nh_def [symmetric] nx_def [symmetric] ny_def [symmetric]
            p u2_def u3_def)
      from reopened_ok [OF W acc3 i _ _ _ _ this] have fin: "accounts wins bufs u'" "local i u3 u'"
        "place (us_windows (snd u') i) = (nx, ny, nw, nh)" "restore_place (us_windows (snd u') i) = restore_place win"
        using dead w2 by (simp_all add: u3_def place_def restore_place_def)
      note loc = local_trans [OF loc3 fin(2)]
      have "tidy K (snd u')"
      proof (rule tidy_local [OF loc i tidy])
        assume big: "roomy K ?s" and old: "placed ?s (us_windows ?s i)"
        then have "inside ?s (nx, ny, nw, nh)"
          unfolding nx_def ny_def using roomy_work [of ?s]
          by (intro clamp_inside) (auto simp: nw_def nh_def ush_uwm_clampi_def uwm_consts roomy_def)
        then show "placed ?s (us_windows (snd u') i)" using old fin(3,4) by (simp add: placed_def win_def)
      qed
      then show ?thesis using fin loc by (simp add: uwm_ok_def win_def)
    qed
  qed
  then show "uwm_ok K wins bufs u'" "restore_place (us_windows (snd u') i) = restore_place (us_windows (snd u) i)"
    "inside (snd u') = inside (snd u)" "\<exists>j. local j u u'"
    using inside_frame by blast+
qed


lemma place_inside: "inside s (uw_x w, uw_y w, uw_w w, uw_h w) = inside s (place w)" by (simp add: place_def)

lemma maximize_ok:
  assumes "window_system K wins bufs" "uwm_ok K wins bufs u"
  shows "uwm_ok K wins bufs (ush_uwm_toggle_maximize K i u)"
proof -
  obtain k s where u: "u = (k, s)" by fastforce
  note ok = assms(2) [unfolded u]
  show ?thesis
  proof (cases "i \<noteq> USH_UWM_TERMINAL_INDEX \<or> \<not> shown_window s i")
    case False
    define th where "th = (if ush_uwm_work_bottom s - USH_UWM_TOP_CLAMP_Y < USH_UWM_MIN_WINDOW_H then USH_UWM_MIN_WINDOW_H else ush_uwm_work_bottom s - USH_UWM_TOP_CLAMP_Y)"
    define tw where "tw = (if us_screen_w s < USH_UWM_MIN_WINDOW_W then USH_UWM_MIN_WINDOW_W else us_screen_w s)"
    have i: "ush_uwm_app_index_valid i" and e: "i = USH_UWM_TERMINAL_INDEX" using False unfolding shown_window_def by blast+
    show ?thesis
    proof (cases "uw_maximized (us_windows s i)")
      case max: False
      let ?f = "\<lambda>win. win\<lparr>uw_restore_x := uw_x win, uw_restore_y := uw_y win, uw_restore_w := uw_w win, uw_restore_h := uw_h win, uw_maximized := True\<rparr>"
      obtain u1 r where z1: "ush_uwm_window_recreate_geometry K i 0 USH_UWM_TOP_CLAMP_Y tw th (k, upd_win i ?f s) = (u1, r)" by (rule prod.exhaust)
      obtain k1 s1 where u1: "u1 = (k1, s1)" by (rule prod.exhaust)
      note z = z1 [unfolded u1]
      have "uwm_ok K wins bufs (k, upd_win i ?f s)"
        by (rule ok_upd [OF ok i]) (auto simp: win_ok_def placed_def place_def restore_place_def)
      then have ok1: "uwm_ok K wins bufs (k1, s1)" by (rule recreate_ok(1) [OF assms(1) _ z])
      have "uwm_ok K wins bufs (k1, upd_win i (\<lambda>win. win\<lparr>uw_maximized := False\<rparr>) s1)"
        by (rule ok_upd [OF ok1 i]) (auto simp: win_ok_def placed_def place_def restore_place_def)
      note given = ok_calm_ops(3) [OF assms(1) this, of i]
      have "ush_uwm_toggle_maximize K i u =
        (if r then (k1, s1) else ush_uwm_refresh_window K i (k1, upd_win i (\<lambda>win. win\<lparr>uw_maximized := False\<rparr>) s1))"
        using False max by (simp add: ush_uwm_toggle_maximize_def u Let_def tw_def [symmetric] th_def [symmetric] z [unfolded e])
      then show ?thesis using ok1 given by simp
    next
      case max: True
      define rw where "rw = min (max (uw_restore_w (us_windows s i)) USH_UWM_MIN_WINDOW_W) (us_screen_w s)"
      define rh where "rh = min (max (uw_restore_h (us_windows s i)) USH_UWM_MIN_WINDOW_H) th"
      obtain u1 r where z1: "ush_uwm_window_recreate_geometry K i (uw_restore_x (us_windows s i)) (uw_restore_y (us_windows s i)) rw rh
          (k, upd_win i (\<lambda>win. win\<lparr>uw_maximized := False\<rparr>) s) = (u1, r)" by (rule prod.exhaust)
      obtain k1 s1 where u1: "u1 = (k1, s1)" by (rule prod.exhaust)
      note z = z1 [unfolded u1]
      have "uwm_ok K wins bufs (k, upd_win i (\<lambda>win. win\<lparr>uw_maximized := False\<rparr>) s)"
        by (rule ok_upd [OF ok i]) (auto simp: win_ok_def placed_def place_def restore_place_def)
      then have ok1: "uwm_ok K wins bufs (k1, s1)" and rp: "restore_place (us_windows s1 i) = restore_place ((us_windows s i)\<lparr>uw_maximized := False\<rparr>)"
        and ins: "inside s1 = inside (upd_win i (\<lambda>win. win\<lparr>uw_maximized := False\<rparr>) s)" and loc: "\<exists>j. local j (k, upd_win i (\<lambda>win. win\<lparr>uw_maximized := False\<rparr>) s) (k1, s1)"
        using recreate_ok [OF assms(1) _ z] by simp_all
      define s0 where "s0 = upd_win i (\<lambda>win. win\<lparr>uw_maximized := False\<rparr>) s"
      have f0: "inside s0 = inside s \<and> roomy K s0 = roomy K s" using inside_frame [OF local_upd [of i k s k "\<lambda>win. win\<lparr>uw_maximized := False\<rparr>"], of K] by (simp add: s0_def)
      obtain j where "local j (k, s0) (k1, s1)" using loc by (auto simp: s0_def)
      note f1 = inside_frame [OF this, of K]
      have ins': "inside s1 = inside s" and big': "roomy K s1 = roomy K s" using f0 f1 by simp_all
      have "uwm_ok K wins bufs (k1, upd_win i (\<lambda>win. win\<lparr>uw_maximized := True\<rparr>) s1)"
      proof (rule ok_upd [OF ok1 i])
        assume big: "roomy K s1" and pl: "placed s1 (us_windows s1 i)"
        have "roomy K s" using big big' by simp
        then have "inside s (uw_restore_x (us_windows s i), uw_restore_y (us_windows s i), uw_restore_w (us_windows s i), uw_restore_h (us_windows s i))"
          using ok i max by (auto simp: uwm_ok_def tidy_def placed_def restore_place_def)
        then show "placed s1 ((us_windows s1 i)\<lparr>uw_maximized := True\<rparr>)"
          using pl rp by (simp add: placed_def ins' place_def restore_place_def)
      qed (auto simp: win_ok_def)
      note given = ok_calm_ops(3) [OF assms(1) this, of i]
      have "ush_uwm_toggle_maximize K i u =
        (if r then (k1, s1) else ush_uwm_refresh_window K i (k1, upd_win i (\<lambda>win. win\<lparr>uw_maximized := True\<rparr>) s1))"
        using False max by (simp add: ush_uwm_toggle_maximize_def u Let_def th_def [symmetric] z [unfolded rw_def rh_def e])
      then show ?thesis using ok1 given by simp
    qed
  qed (use assms(2) in \<open>simp add: ush_uwm_toggle_maximize_def u\<close>)
qed

lemma destroy_kernel_ok:
  assumes "window_system K wins bufs" "uwm_ok K wins bufs u" "ush_uwm_app_index_valid i"
  shows "uwm_ok K wins bufs (ush_uwm_destroy_kernel_window K i u)"
proof -
  have "tidy K (snd (ush_uwm_destroy_kernel_window K i u))"
    by (rule tidy_local [OF local_destroy_kernel assms(3)]) (use assms(2) in \<open>auto simp: uwm_ok_def destroy_kernel_snd placed_def place_def restore_place_def\<close>)
  then show ?thesis using assms destroy_kernel_accounts [OF assms(1)] app_not_start [OF assms(3)] by (simp add: uwm_ok_def)
qed

lemma replace_succeeds:
  assumes "\<forall>k n. snd (wk_malloc K k n) \<noteq> 0" "1 \<le> w" "w \<le> 4096" "1 \<le> h" "h \<le> 4096"
  shows "snd (ush_uwm_replace_pixels K i w h u)"
proof -
  obtain k s where u: "u = (k, s)" by fastforce
  have a: "mul64 (nat w) (nat h) = nat (w * h)" "nat (w * h) \<noteq> 0" "\<not> U64_MAX div 4 < nat (w * h)" using mul64_area [OF assms(2-5)] by auto
  obtain k1 q where m: "wk_malloc K k (nat (w * h) * 4) = (k1, q)" by fastforce
  then have "q \<noteq> 0" using assms(1) by (metis snd_conv)
  then show ?thesis using a assms(2,4) m by (simp add: ush_uwm_replace_pixels_def u Let_def del: nat_0_iff)
qed

lemma minimize_ok:
  assumes "window_system K wins bufs" "uwm_ok K wins bufs u"
  shows "uwm_ok K wins bufs (ush_uwm_minimize_window K i u)"
proof (cases "ush_uwm_app_index_valid i \<and> uw_alive (us_windows (snd u) i) \<and> \<not> uw_closed (us_windows (snd u) i)")
  case True
  obtain k s where d: "ush_uwm_destroy_kernel_window K i u = (k, s)" by fastforce
  have "uwm_ok K wins bufs (k, s)" using destroy_kernel_ok [OF assms, of i] True by (simp add: d)
  moreover have "\<not> uw_alive (us_windows s i)" using destroy_kernel_snd [of K i u] by (simp add: d)
  ultimately have "uwm_ok K wins bufs (k, upd_win i (\<lambda>win. win\<lparr>uw_minimized := True\<rparr>) s)"
    using True by (intro ok_upd) (auto simp: win_ok_def placed_def place_def restore_place_def)
  then show ?thesis using True ok_calm_ops [OF assms(1)] by (simp add: ush_uwm_minimize_window_def d Let_def)
qed (use assms(2) in \<open>auto simp: ush_uwm_minimize_window_def\<close>)

lemma close_ok:
  assumes W: "window_system K wins bufs" and ok: "uwm_ok K wins bufs u"
  shows "uwm_ok K wins bufs (ush_uwm_close_window K i u)"
proof (cases "ush_uwm_app_index_valid i")
  case i: True
  then have idx: "i \<in> indices" using app_not_start by blast
  define u1 where "u1 = ush_uwm_destroy_kernel_window K i u"
  define win where "win = us_windows (snd u1) i"
  define u2 where "u2 = (fst u1, upd_win i (\<lambda>win. win\<lparr>uw_x := uw_restore_x win, uw_y := uw_restore_y win, uw_maximized := False\<rparr>) (snd u1))"
  define u3 where "u3 = (if uw_maximized win
      then if USH_UWM_MIN_WINDOW_W \<le> uw_restore_w win \<and> USH_UWM_MIN_WINDOW_H \<le> uw_restore_h win
           then fst (ush_uwm_replace_pixels K i (uw_restore_w win) (uw_restore_h win) u2) else u2
      else u1)"
  define u4 where "u4 = (fst u3, upd_win i (\<lambda>win. win\<lparr>uw_closed := True, uw_minimized := False\<rparr>) (snd u3))"
  have ok1: "uwm_ok K wins bufs u1" unfolding u1_def by (rule destroy_kernel_ok [OF W ok i])
  then have acc1: "accounts wins bufs u1" and tidy1: "tidy K (snd u1)" by (simp_all add: uwm_ok_def)
  have win: "win_ok win" unfolding win_def by (rule accounts_win [OF acc1 idx])
  have dead: "\<not> uw_alive win" "uw_id win = 0" by (simp_all add: win_def u1_def destroy_kernel_snd)
  have acc2: "accounts wins bufs u2"
    unfolding u2_def by (rule accounts_upd) (use acc1 win in \<open>auto simp: win_def [symmetric] win_ok_def\<close>)
  have loc2: "local i u1 u2" using local_upd [of i "fst u1" "snd u1"] by (simp add: u2_def)
  have "uwm_ok K wins bufs u3 \<and> \<not> uw_alive (us_windows (snd u3) i)"
  proof (cases "uw_maximized win")
    case max: True
    define big where "big \<longleftrightarrow> USH_UWM_MIN_WINDOW_W \<le> uw_restore_w win \<and> USH_UWM_MIN_WINDOW_H \<le> uw_restore_h win"
    obtain v replaced where p: "ush_uwm_replace_pixels K i (uw_restore_w win) (uw_restore_h win) u2 = (v, replaced)" by fastforce
    have u3: "u3 = (if big then v else u2)" using max by (simp add: u3_def p big_def)
    have accv: "accounts wins bufs v" using replace_accounts [OF W acc2 idx, of "uw_restore_w win" "uw_restore_h win"] win by (simp add: p win_ok_def)
    have locv: "local i u1 v" using local_trans [OF loc2 local_replace, of K "uw_restore_w win" "uw_restore_h win"] by (simp add: p)
    have w2: "us_windows (snd u2) i = win\<lparr>uw_x := uw_restore_x win, uw_y := uw_restore_y win, uw_maximized := False\<rparr>"
      by (simp add: u2_def win_def)
    have acc3: "accounts wins bufs u3" and loc3: "local i u1 u3" using acc2 accv loc2 locv by (simp_all add: u3)
    have a3: "\<not> uw_alive (us_windows (snd u3) i)" using dead replace_places(7) [OF p] by (simp add: u3 w2)
    have "tidy K (snd u3)"
    proof (rule tidy_local [OF loc3 i tidy1])
      assume r: "roomy K (snd u1)" and pl: "placed (snd u1) (us_windows (snd u1) i)"
      then have ins: "inside (snd u1) (uw_restore_x win, uw_restore_y win, uw_restore_w win, uw_restore_h win)"
        using max by (simp add: placed_def restore_place_def win_def)
      then have big by (simp add: inside_def big_def)
      have replaced using replace_succeeds [of K "uw_restore_w win" "uw_restore_h win" i u2] r win p by (simp add: roomy_def win_ok_def)
      then show "placed (snd u1) (us_windows (snd u3) i)"
        using replace_places(1,2) [OF p] \<open>big\<close> ins by (simp add: u3 placed_def w2 restore_place_def)
    qed
    then show ?thesis using acc3 a3 by (simp add: uwm_ok_def)
  next
    case False
    then show ?thesis using ok1 dead by (simp add: u3_def win_def)
  qed
  then have "uwm_ok K wins bufs u4"
    unfolding u4_def using i by (intro ok_upd) (auto simp: win_ok_def placed_def place_def restore_place_def)
  moreover have "ush_uwm_close_window K i u =
      ush_uwm_refresh_taskbar K (if us_active_window (snd u4) = i then ush_uwm_focus_next K u4 else u4)"
    using i by (simp add: ush_uwm_close_window_def Let_def u1_def [symmetric] win_def [symmetric] u2_def [symmetric] u3_def u4_def)
  ultimately show ?thesis using ok_calm_ops [OF W] by simp
qed (use ok in \<open>simp add: ush_uwm_close_window_def\<close>)


lemma topmost_ok:
  assumes "window_system K wins bufs" "uwm_ok K wins bufs u"
  shows "uwm_ok K wins bufs (ush_uwm_toggle_topmost K i u)"
proof -
  obtain k s where u: "u = (k, s)" by fastforce
  show ?thesis
  proof (cases "ush_uwm_app_index_valid i \<and> uw_id (us_windows s i) \<noteq> 0 \<and> uw_alive (us_windows s i)")
    case True
    define s1 where "s1 = upd_win i (\<lambda>win. win\<lparr>uw_topmost := \<not> uw_topmost win\<rparr>) s"
    have ok1: "uwm_ok K wins bufs (k, s1)"
      unfolding s1_def by (rule ok_upd [OF assms(2) [unfolded u]]) (use True in \<open>auto simp: win_ok_def placed_def place_def restore_place_def\<close>)
    have "uwm_ok K wins bufs (wk_set_flags K k (uw_id (us_windows s1 i)) (if uw_topmost (us_windows s1 i) then USH_UWM_WM_FLAG_TOPMOST else 0), s1)"
      by (rule ok_same [OF ok1 ws_same(11) [OF assms(1)]])
    from ok_calm_ops(4) [OF assms(1) ok_calm_ops(3) [OF assms(1) this, of i]] show ?thesis
      using True by (simp add: ush_uwm_toggle_topmost_def u Let_def s1_def [symmetric])
  qed (use assms(2) in \<open>auto simp: ush_uwm_toggle_topmost_def u\<close>)
qed

lemma app_window_index: "ush_uwm_app_index_valid i \<Longrightarrow> ush_uwm_window_index_valid i"
  by (simp add: ush_uwm_app_index_valid_def ush_uwm_window_index_valid_def uwm_consts)

lemma replace_ok:
  assumes W: "window_system K wins bufs" and ok: "uwm_ok K wins bufs u" and i: "ush_uwm_app_index_valid i"
  shows "uwm_ok K wins bufs (fst (ush_uwm_alloc_pixels K i u))"
proof -
  have idx: "i \<in> indices" using app_not_start [OF i] by simp
  have acc: "accounts wins bufs u" and tidy: "tidy K (snd u)" using ok by (simp_all add: uwm_ok_def)
  have win: "win_ok (us_windows (snd u) i)" by (rule accounts_win [OF acc idx])
  obtain v r where p: "ush_uwm_replace_pixels K i (uw_w (us_windows (snd u) i)) (uw_h (us_windows (snd u) i)) u = (v, r)" by fastforce
  have "accounts wins bufs v"
    using replace_accounts [OF W acc idx, of "uw_w (us_windows (snd u) i)" "uw_h (us_windows (snd u) i)"] win by (simp add: p win_ok_def)
  moreover have loc: "local i u v" using local_replace [of i u K "uw_w (us_windows (snd u) i)" "uw_h (us_windows (snd u) i)"] by (simp add: p)
  have "tidy K (snd v)"
  proof (rule tidy_local [OF loc i tidy])
    assume "placed (snd u) (us_windows (snd u) i)"
    moreover have "place (us_windows (snd v) i) = place (us_windows (snd u) i)" using replace_places(2,3) [OF p] by (cases r) (simp_all add: place_def)
    ultimately show "placed (snd u) (us_windows (snd v) i)" using placed_places replace_places(1) [OF p] by blast
  qed
  ultimately show ?thesis by (simp add: uwm_ok_def ush_uwm_alloc_pixels_def p)
qed

lemma restore_ok:
  assumes W: "window_system K wins bufs" and ok: "uwm_ok K wins bufs u"
  shows "uwm_ok K wins bufs (ush_uwm_restore_window K i u)"
proof (cases "ush_uwm_app_index_valid i")
  case i: True
  then have idx: "i \<in> indices" using app_not_start by blast
  have re: "uwm_ok K wins bufs (fst v, upd_win i reopen (snd v))" if "uwm_ok K wins bufs v" for v
    by (rule ok_upd) (use that i in \<open>auto simp: reopen_def win_ok_def placed_def place_def restore_place_def\<close>)
  show ?thesis
  proof (cases "uw_alive (us_windows (snd u) i)")
    case True
    then show ?thesis using i ok_calm_ops(1) [OF W re [OF ok]] by (simp add: ush_uwm_restore_window_def)
  next
    case False
    obtain v got where a: "(if uw_pixels (us_windows (snd u) i) = 0 then ush_uwm_alloc_pixels K i u else (u, True)) = (v, got)" by fastforce
    have v: "uwm_ok K wins bufs v" using ok replace_ok [OF W ok i] a by (auto split: if_splits)
    have dead: "\<not> uw_alive (us_windows (snd v) i)"
      using False a by (auto simp: ush_uwm_alloc_pixels_def dest: replace_places(7) split: if_splits)
    define u3 where "u3 = ush_uwm_render_window K i (fst v, upd_win i reopen (snd v))"
    have ok3: "uwm_ok K wins bufs u3" unfolding u3_def by (rule ok_calm_ops(5) [OF W re [OF v]])
    then have acc3: "accounts wins bufs u3" by (simp add: uwm_ok_def)
    have w3: "uw_closed (us_windows (snd u3) i) = False" "uw_minimized (us_windows (snd u3) i) = False" "uw_alive (us_windows (snd u3) i) = False"
      using dead by (simp_all add: u3_def reopen_def)
    have id3: "uw_id (us_windows (snd u3) i) = 0" using accounts_win [OF acc3 idx] w3 by (simp add: win_ok_def)
    obtain k s created where c: "ush_uwm_create_window K i u3 = ((k, s), created)" by (metis prod.exhaust)
    have acc4: "accounts wins bufs (k, s)" using create_accounts [OF W acc3 idx id3] w3 by (simp add: c)
    have loc: "local i u3 (k, s)" using local_create [of i u3 K] by (simp add: c)
    have "tidy K (snd (k, s))"
      by (rule tidy_local [OF loc i]) (use ok3 create_places [of K i u3] in \<open>auto simp: uwm_ok_def c placed_def\<close>)
    then have ok4: "uwm_ok K wins bufs (k, s)" using acc4 by (simp add: uwm_ok_def)
    have "uwm_ok K wins bufs (k, upd_win i (\<lambda>win. win\<lparr>uw_closed := True\<rparr>) s)" if "\<not> created"
      by (rule ok_upd [OF ok4 i]) (use that create_result(2) [OF c] w3 in \<open>auto simp: win_ok_def placed_def place_def restore_place_def\<close>)
    moreover have "ush_uwm_restore_window K i u = (if \<not> got then v else if \<not> created then (k, upd_win i (\<lambda>win. win\<lparr>uw_closed := True\<rparr>) s)
        else ush_uwm_refresh_taskbar K (ush_uwm_set_active K i (fst (ush_uwm_present_window K k (us_windows s i)), s)))"
      using i False by (simp add: ush_uwm_restore_window_def a u3_def [symmetric] c)
    ultimately show ?thesis using v ok_calm_ops(1,4) [OF W] ok_present [OF W ok4] by simp
  qed
qed (use ok in \<open>simp add: ush_uwm_restore_window_def\<close>)

subsection \<open>The start menu\<close>

lemma tidy_start:
  assumes "local USH_UWM_START_INDEX (k, s\<lparr>us_start_open := b\<rparr>) (k', s')" "tidy K s" "b \<longleftrightarrow> uw_alive (us_windows s' USH_UWM_START_INDEX)"
    "\<not> uw_minimized (us_windows s' USH_UWM_START_INDEX)"
  shows "tidy K s'"
proof -
  let ?t = "s\<lparr>us_start_open := b\<rparr>"
  have f: "inside s' = inside ?t" "roomy K s' = roomy K ?t" using inside_frame [OF assms(1), of K] by simp_all
  have e: "inside ?t = inside s" "roomy K ?t = roomy K s" by (simp_all add: fun_eq_iff inside_def ush_uwm_work_bottom_def roomy_def)
  have "placed s' (us_windows s' i)" if "roomy K s'" "ush_uwm_app_index_valid i" for i
  proof -
    have p: "placed s (us_windows s i)" using assms(2) that f e by (simp add: tidy_def)
    have w: "us_windows s' i = (us_windows s i)\<lparr>uw_dirty := uw_dirty (us_windows s' i)\<rparr>"
      using local_window [OF assms(1)] app_not_start [OF that(2)] by simp
    have "placed s (us_windows s' i)" by (subst w) (simp add: p)
    then show ?thesis by (simp add: placed_def f e)
  qed
  then show ?thesis using local_screen(3) [OF assms(1)] assms(3,4) by (simp add: tidy_def)
qed

lemma start_index: "USH_UWM_START_INDEX \<in> indices" by (simp add: indices_def uwm_consts)

lemma close_start_ok:
  assumes W: "window_system K wins bufs" and acc: "accounts wins bufs u" and tidy: "tidy K (snd u)"
  shows "uwm_ok K wins bufs (ush_uwm_close_start K u)"
proof -
  let ?i = USH_UWM_START_INDEX
  obtain k s where u: "(if uw_alive (us_windows (snd u) ?i) then ush_uwm_destroy_kernel_window K ?i u else u) = (k, s)" by fastforce
  have acc1: "accounts wins bufs (k, s)" using acc destroy_kernel_accounts [OF W acc start_index] u by (auto split: if_splits)
  have dead: "\<not> uw_alive (us_windows s ?i)" and s: "s = (if uw_alive (us_windows (snd u) ?i) then upd_win ?i (\<lambda>win. win\<lparr>uw_id := 0, uw_alive := False\<rparr>) (snd u) else snd u)"
    using u destroy_kernel_snd [of K ?i u] by (auto split: if_splits)
  define s1 where "s1 = upd_win ?i (\<lambda>win. win\<lparr>uw_closed := True\<rparr>) (s\<lparr>us_start_open := False\<rparr>)"
  have "accounts wins bufs (k, s\<lparr>us_start_open := False\<rparr>)" by (rule accounts_session [OF acc1]) simp_all
  then have acc2: "accounts wins bufs (k, s1)" unfolding s1_def by (rule accounts_close [OF _ start_index]) (simp add: dead)
  have "local ?i (k, (snd u)\<lparr>us_start_open := False\<rparr>) (k, s1)"
    by (auto simp: local_def s1_def s upd_win_def)
  from tidy_start [OF this tidy] have "tidy K s1" using tidy by (simp add: s1_def dead) (simp add: s tidy_def split: if_splits)
  then have "uwm_ok K wins bufs (k, s1)" using acc2 by (simp add: uwm_ok_def)
  from ok_calm_ops(4) [OF W this] ok_calm_ops(4) [OF W ok_same [OF this ws_same(4) [OF W]]] show ?thesis
    unfolding ush_uwm_close_start_def u prod.case Let_def s1_def [symmetric] by (auto simp: Let_def)
qed

lemma start_closed:
  assumes "local i (k, t\<lparr>us_start_open := True\<rparr>) (k', s)"
  shows "local i (k, t\<lparr>us_start_open := False\<rparr>) (k', upd_win i f (s\<lparr>us_start_open := False\<rparr>))"
proof -
  have "s\<lparr>us_active_window := a, us_windows := W\<rparr> = t\<lparr>us_start_open := True, us_active_window := a, us_windows := W\<rparr>" for a W
    using assms by (simp add: local_def)
  then have e: "s\<lparr>us_active_window := a, us_windows := W, us_start_open := False\<rparr> = t\<lparr>us_start_open := True, us_active_window := a, us_windows := W, us_start_open := False\<rparr>" for a W
    by (rule arg_cong [of _ _ "us_start_open_update (\<lambda>_. False)"])
  have "s\<lparr>us_start_open := False, us_active_window := a, us_windows := W\<rparr> = t\<lparr>us_start_open := False, us_active_window := a, us_windows := W\<rparr>" for a W
  proof -
    have "s\<lparr>us_start_open := False, us_active_window := a, us_windows := W\<rparr> = s\<lparr>us_active_window := a, us_windows := W, us_start_open := False\<rparr>" by simp
    also have "\<dots> = t\<lparr>us_start_open := True, us_active_window := a, us_windows := W, us_start_open := False\<rparr>" by (rule e)
    also have "\<dots> = t\<lparr>us_start_open := False, us_active_window := a, us_windows := W\<rparr>" by simp
    finally show ?thesis .
  qed
  then show ?thesis using assms by (simp add: local_def upd_win_def)
qed

lemma toggle_start_ok:
  assumes W: "window_system K wins bufs" and ok: "uwm_ok K wins bufs u"
  shows "uwm_ok K wins bufs (ush_uwm_toggle_start K u)"
proof -
  let ?i = USH_UWM_START_INDEX
  have acc: "accounts wins bufs u" and tidy: "tidy K (snd u)" using ok by (simp_all add: uwm_ok_def)
  show ?thesis
  proof (cases "uw_alive (us_windows (snd u) ?i)")
    case True
    then show ?thesis using close_start_ok [OF W acc tidy] by (simp add: ush_uwm_toggle_start_def Let_def)
  next
    case False
    have win: "win_ok (us_windows (snd u) ?i)" by (rule accounts_win [OF acc start_index])
    obtain v got where a: "(if uw_pixels (us_windows (snd u) ?i) = 0 then ush_uwm_alloc_pixels K ?i u else (u, True)) = (v, got)" by fastforce
    have accv: "accounts wins bufs v"
      using acc a replace_accounts [OF W acc start_index, of "uw_w (us_windows (snd u) ?i)" "uw_h (us_windows (snd u) ?i)"] win
      by (auto simp: ush_uwm_alloc_pixels_def win_ok_def split: if_splits)
    have locv: "local ?i u v" using a local_replace [of ?i u K "uw_w (us_windows (snd u) ?i)" "uw_h (us_windows (snd u) ?i)"]
      by (auto simp: ush_uwm_alloc_pixels_def split: if_splits)
    have deadv: "\<not> uw_alive (us_windows (snd v) ?i)" using False a by (auto simp: ush_uwm_alloc_pixels_def dest: replace_places(7) split: if_splits)
    have upv: "\<not> uw_minimized (us_windows (snd v) ?i)"
      using tidy a by (auto simp: ush_uwm_alloc_pixels_def tidy_def dest: replace_places(5) split: if_splits)
    have noid: "uw_id (us_windows (snd v) ?i) = 0" using accounts_win [OF accv start_index] deadv by (simp add: win_ok_def)
    have "local ?i (fst u, (snd u)\<lparr>us_start_open := us_start_open (snd u)\<rparr>) (fst v, snd v)" using locv by simp
    from tidy_start [OF this tidy] have okv: "uwm_ok K wins bufs v" using accv deadv upv tidy False by (simp add: uwm_ok_def tidy_def)
    define s1 where "s1 = upd_win ?i (\<lambda>win. win\<lparr>uw_closed := False\<rparr>) ((snd v)\<lparr>us_start_open := True\<rparr>)"
    define u3 where "u3 = ush_uwm_render_window K ?i (fst v, s1)"
    have "accounts wins bufs (fst v, (snd v)\<lparr>us_start_open := True\<rparr>)" by (rule accounts_session) (use accv in simp_all)
    then have acc1: "accounts wins bufs (fst v, s1)"
      unfolding s1_def by (rule accounts_upd) (use accounts_win [OF accv start_index] deadv in \<open>auto simp: win_ok_def\<close>)
    have acc3: "accounts wins bufs u3" unfolding u3_def by (rule render_accounts [OF W acc1])
    have loc3: "local ?i (fst v, (snd v)\<lparr>us_start_open := True\<rparr>) u3"
      unfolding u3_def by (rule local_trans [OF _ local_render]) (simp add: s1_def local_upd)
    have w3: "uw_closed (us_windows (snd u3) ?i) = False" "uw_minimized (us_windows (snd u3) ?i) = False"
      "uw_alive (us_windows (snd u3) ?i) = False" "uw_id (us_windows (snd u3) ?i) = 0"
      using deadv upv noid by (simp_all add: u3_def s1_def)
    obtain u4 created where c0: "ush_uwm_create_window K ?i u3 = (u4, created)" by (rule prod.exhaust)
    obtain k s where u4: "u4 = (k, s)" by (rule prod.exhaust)
    note c = c0 [unfolded u4]
    have acc4: "accounts wins bufs (k, s)" using create_accounts [OF W acc3 start_index] w3 by (simp add: c)
    have loc4: "local ?i (fst v, (snd v)\<lparr>us_start_open := True\<rparr>) (k, s)" using local_trans [OF loc3 local_create, of K] by (simp add: c)
    note w4 = create_result [OF c]
    have up4: "\<not> uw_minimized (us_windows s ?i)" using w4(5) w3 by simp
    have tidyv: "tidy K (snd v)" using okv by (simp add: uwm_ok_def)
    have made: "uwm_ok K wins bufs (k, s)" if created
      using tidy_start [OF loc4 tidyv] acc4 up4 w4(3) that by (simp add: uwm_ok_def)
    have failed: "uwm_ok K wins bufs (k, upd_win ?i (\<lambda>win. win\<lparr>uw_closed := True\<rparr>) (s\<lparr>us_start_open := False\<rparr>))" if "\<not> created"
    proof -
      have dead4: "\<not> uw_alive (us_windows s ?i)" using w4(2) that w3 by simp
      have "accounts wins bufs (k, s\<lparr>us_start_open := False\<rparr>)" by (rule accounts_session [OF acc4]) simp_all
      then have "accounts wins bufs (k, upd_win ?i (\<lambda>win. win\<lparr>uw_closed := True\<rparr>) (s\<lparr>us_start_open := False\<rparr>))"
        by (rule accounts_close [OF _ start_index]) (simp add: dead4)
      moreover have "local ?i (fst v, (snd v)\<lparr>us_start_open := False\<rparr>) (k, upd_win ?i (\<lambda>win. win\<lparr>uw_closed := True\<rparr>) (s\<lparr>us_start_open := False\<rparr>))"
        using start_closed [OF loc4] .
      from tidy_start [OF this tidyv] have "tidy K (upd_win ?i (\<lambda>win. win\<lparr>uw_closed := True\<rparr>) (s\<lparr>us_start_open := False\<rparr>))"
        using dead4 up4 by simp
      ultimately show ?thesis by (simp add: uwm_ok_def)
    qed
    have "ush_uwm_toggle_start K u = (if \<not> got then v
        else if \<not> created then (k, upd_win ?i (\<lambda>win. win\<lparr>uw_closed := True\<rparr>) (s\<lparr>us_start_open := False\<rparr>))
        else (let k = fst (ush_uwm_present_window K k (us_windows s ?i)); k = fst (wk_set_focus K k (uw_id (us_windows s ?i)))
              in ush_uwm_refresh_taskbar K (k, s)))"
      using False by (simp add: ush_uwm_toggle_start_def Let_def a s1_def [symmetric] u3_def [symmetric] c)
    moreover have "uwm_ok K wins bufs (ush_uwm_refresh_taskbar K
        (fst (wk_set_focus K (fst (ush_uwm_present_window K k (us_windows s ?i))) (uw_id (us_windows s ?i))), s))" if created
      by (rule ok_calm_ops(4) [OF W ok_same [OF ok_present [OF W made [OF that]] ws_same(4) [OF W]]])
    ultimately show ?thesis using okv failed by (simp add: Let_def)
  qed
qed

end
