(* ===== verification/UwmEvents.thy ===== *)
theory UwmEvents
  imports UwmWindow UshPath
begin

text \<open>
  The events of the window manager (\<open>apps/uwm/uwm_events.c\<close>): keys, clicks, dragging and resizing with the
  pointer, the main loop; and its start and end (\<open>apps/uwm/uwm_app.c\<close>).
\<close>

section \<open>Definitions\<close>

definition USH_UWM_TITLE_H :: int where "USH_UWM_TITLE_H = 32"
definition USH_UWM_CONTROL_W :: int where "USH_UWM_CONTROL_W = 46"
definition USH_UWM_RESIZE_GRIP :: int where "USH_UWM_RESIZE_GRIP = 18"
definition USH_UWM_MOVE_STEP :: int where "USH_UWM_MOVE_STEP = 16"
definition USH_UWM_EVENT_BUDGET :: nat where "USH_UWM_EVENT_BUDGET = 128"
definition USH_UWM_STARTUP_KEY_DRAIN_MAX :: nat where "USH_UWM_STARTUP_KEY_DRAIN_MAX = 256"
definition USH_UWM_IDLE_SPINS :: nat where "USH_UWM_IDLE_SPINS = 32"
definition USH_UWM_TTY_DISPLAY :: nat where "USH_UWM_TTY_DISPLAY = 1"
definition USH_UWM_APP_START_W :: int where "USH_UWM_APP_START_W = 360"
definition USH_UWM_APP_START_H :: int where "USH_UWM_APP_START_H = 240"
definition USH_UWM_START_W :: int where "USH_UWM_START_W = 320"
definition USH_UWM_START_H :: int where "USH_UWM_START_H = 360"
definition USH_UWM_KEY_LEFT :: nat where "USH_UWM_KEY_LEFT = 1"
definition USH_UWM_KEY_RIGHT :: nat where "USH_UWM_KEY_RIGHT = 2"
definition USH_UWM_KEY_UP :: nat where "USH_UWM_KEY_UP = 3"
definition USH_UWM_KEY_DOWN :: nat where "USH_UWM_KEY_DOWN = 4"
definition CLEONOS_WM_EVENT_FOCUS_GAINED :: nat where "CLEONOS_WM_EVENT_FOCUS_GAINED = 1"
definition CLEONOS_WM_EVENT_FOCUS_LOST :: nat where "CLEONOS_WM_EVENT_FOCUS_LOST = 2"
definition CLEONOS_WM_EVENT_KEY :: nat where "CLEONOS_WM_EVENT_KEY = 3"
definition CLEONOS_WM_EVENT_MOUSE_MOVE :: nat where "CLEONOS_WM_EVENT_MOUSE_MOVE = 4"
definition CLEONOS_WM_EVENT_MOUSE_BUTTON :: nat where "CLEONOS_WM_EVENT_MOUSE_BUTTON = 5"

lemmas uwm_event_consts = CLEONOS_WM_EVENT_FOCUS_GAINED_def CLEONOS_WM_EVENT_FOCUS_LOST_def CLEONOS_WM_EVENT_KEY_def
  CLEONOS_WM_EVENT_MOUSE_MOVE_def CLEONOS_WM_EVENT_MOUSE_BUTTON_def

subsection \<open>Starting applications\<close>

definition ush_uwm_app_path :: "int \<Rightarrow> string option" where
  "ush_uwm_app_path index =
     (if index = 0 then Some ''/shell/apps/uwm/file_explorer.elf''
      else if index = 1 then Some ''/shell/apps/uwm/terminal.elf''
      else if index = 2 then Some ''/shell/apps/uwm/taskmgr.elf''
      else if index = 3 then Some ''/shell/apps/uwm/pkg_gui.elf''
      else None)"

text \<open>The windows of the kernel are searched from the last one on.\<close>

fun focus_loop :: "'k wm_kernel \<Rightarrow> nat \<Rightarrow> nat list \<Rightarrow> 'k \<Rightarrow> 'k \<times> bool" where
  "focus_loop K pid [] k = (k, False)"
| "focus_loop K pid (i # rest) k =
     (case wk_id_at K k i of (k, window_id) \<Rightarrow>
        if window_id = None \<or> window_id = Some 0 then focus_loop K pid rest k
        else (case wk_snapshot K k (the window_id) of (k, snap) \<Rightarrow>
          if snap = None \<or> sn_owner_pid (the snap) \<noteq> pid then focus_loop K pid rest k
          else (case wk_set_focus K k (the window_id) of (k, r) \<Rightarrow> (k, r \<noteq> 0))))"

definition ush_uwm_focus_first_window_for_pid :: "'k wm_kernel \<Rightarrow> nat \<Rightarrow> 'k \<Rightarrow> 'k \<times> bool" where
  "ush_uwm_focus_first_window_for_pid K pid k =
     (if pid = 0 \<or> pid = U64_MAX then (k, False)
      else (case wk_count K k of (k, count) \<Rightarrow> focus_loop K pid (rev [0..<count]) k))"

definition ush_uwm_launch_or_restore_app :: "'k wm_kernel \<Rightarrow> int \<Rightarrow> 'k uwm \<Rightarrow> 'k uwm" where
  "ush_uwm_launch_or_restore_app K index u =
     (if \<not> ush_uwm_app_index_valid index then u
      else (case ush_uwm_app_registry_running K index u of ((k, s), running) \<Rightarrow>
        if running
        then ush_uwm_refresh_taskbar K (fst (ush_uwm_focus_first_window_for_pid K (us_app_pids s index) k), s)
        else (case ush_uwm_app_path index of
                None \<Rightarrow> ush_uwm_restore_window K index (k, s)
              | Some path \<Rightarrow>
                  (case wk_spawn_pathv K k path '''' ''LAUNCHED_BY=uwm'' of (k, pid) \<Rightarrow>
                    (let s = (if pid \<noteq> 0 \<and> pid \<noteq> U64_MAX
                              then s\<lparr>us_app_pids := (us_app_pids s)(index := pid), us_app_states := (us_app_states s)(index := CLEONOS_PROC_STATE_PENDING)\<rparr>
                              else s)
                     in ush_uwm_refresh_taskbar K (k, s))))))"

subsection \<open>What is under the pointer\<close>

definition ush_uwm_hit_close :: "ush_uwm_window \<Rightarrow> int \<Rightarrow> int \<Rightarrow> bool" where
  "ush_uwm_hit_close win x y \<longleftrightarrow> uw_w win - USH_UWM_CONTROL_W \<le> x \<and> 0 \<le> y \<and> y < USH_UWM_TITLE_H"

definition ush_uwm_hit_minimize :: "ush_uwm_window \<Rightarrow> int \<Rightarrow> int \<Rightarrow> bool" where
  "ush_uwm_hit_minimize win x y \<longleftrightarrow> uw_w win - USH_UWM_CONTROL_W * 2 \<le> x \<and> x < uw_w win - USH_UWM_CONTROL_W \<and> 0 \<le> y \<and> y < USH_UWM_TITLE_H"

definition ush_uwm_hit_topmost :: "ush_uwm_window \<Rightarrow> int \<Rightarrow> int \<Rightarrow> bool" where
  "ush_uwm_hit_topmost win x y \<longleftrightarrow> uw_w win - USH_UWM_CONTROL_W * 3 \<le> x \<and> x < uw_w win - USH_UWM_CONTROL_W * 2 \<and> 0 \<le> y \<and> y < USH_UWM_TITLE_H"

definition ush_uwm_hit_resize :: "ush_uwm_window \<Rightarrow> int \<Rightarrow> int \<Rightarrow> bool" where
  "ush_uwm_hit_resize win x y \<longleftrightarrow> uw_w win - USH_UWM_RESIZE_GRIP \<le> x \<and> uw_h win - USH_UWM_RESIZE_GRIP \<le> y"

definition ush_uwm_point_in_window :: "ush_uwm_window \<Rightarrow> int \<Rightarrow> int \<Rightarrow> bool" where
  "ush_uwm_point_in_window win x y \<longleftrightarrow> uw_alive win \<and> \<not> uw_closed win \<and> uw_id win \<noteq> 0 \<and>
     uw_x win \<le> x \<and> uw_y win \<le> y \<and> x < uw_x win + uw_w win \<and> y < uw_y win + uw_h win"

text \<open>The first index of a list whose window passes a test, or \<open>-1\<close>.\<close>

definition first_index :: "(int \<Rightarrow> bool) \<Rightarrow> int list \<Rightarrow> int" where
  "first_index P is = (case filter P is of [] \<Rightarrow> -1 | i # _ \<Rightarrow> i)"

definition ush_uwm_hit_session_window_at :: "ush_uwm_session \<Rightarrow> int \<Rightarrow> int \<Rightarrow> int" where
  "ush_uwm_hit_session_window_at s x y =
     (let under = (\<lambda>i. ush_uwm_point_in_window (us_windows s i) x y);
          apps = rev [0..USH_UWM_APP_COUNT - 1];
          top = first_index (\<lambda>i. uw_topmost (us_windows s i) \<and> under i) apps;
          app = first_index under apps
      in if under USH_UWM_START_INDEX then USH_UWM_START_INDEX
         else if top \<noteq> -1 then top
         else if ush_uwm_app_index_valid (us_active_window s) \<and> under (us_active_window s) then us_active_window s
         else if app \<noteq> -1 then app
         else if under USH_UWM_TASKBAR_INDEX then USH_UWM_TASKBAR_INDEX
         else -1)"

definition ush_uwm_repair_mouse_target :: "'k wm_kernel \<Rightarrow> 'k uwm \<Rightarrow> int \<times> int \<times> int \<Rightarrow> 'k \<times> int \<times> int \<times> int" where
  "ush_uwm_repair_mouse_target K u target =
     (case u of (k, s) \<Rightarrow>
       (case wk_mouse_state K k of (k, mouse) \<Rightarrow>
         if mouse = None \<or> mo_ready (the mouse) = 0 then (k, target)
         else (let x = ush_uwm_u64_as_i32 (mo_x (the mouse)); y = ush_uwm_u64_as_i32 (mo_y (the mouse));
                   hit = ush_uwm_hit_session_window_at s x y
               in if \<not> ush_uwm_window_index_valid hit then (k, target)
                  else (k, hit, x - uw_x (us_windows s hit), y - uw_y (us_windows s hit)))))"

subsection \<open>Events\<close>

definition ush_uwm_finish_resize :: "'k wm_kernel \<Rightarrow> 'k uwm \<Rightarrow> 'k uwm" where
  "ush_uwm_finish_resize K u =
     (case u of (k, s) \<Rightarrow>
       if \<not> us_resizing s then u
       else (let index = us_resize_window s; s = s\<lparr>us_resizing := False, us_resize_window := -1\<rparr>
             in if ush_uwm_app_index_valid index
                then fst (ush_uwm_window_resize K index (us_resize_pending_w s) (us_resize_pending_h s) (k, s))
                else (k, s)))"

definition key_in :: "nat \<Rightarrow> string \<Rightarrow> bool" where
  "key_in key cs \<longleftrightarrow> key \<in> set (map (of_char :: char \<Rightarrow> nat) cs)"

text \<open>The result says whether the manager goes on.\<close>

definition ush_uwm_handle_key_event :: "'k wm_kernel \<Rightarrow> nat \<Rightarrow> 'k uwm \<Rightarrow> 'k uwm \<times> bool" where
  "ush_uwm_handle_key_event K key u =
     (let s = snd u; idx = us_active_window s; win = us_windows s idx
      in if key = 9 then (ush_uwm_focus_next K u, True)
         else if key_in key ''qQ'' then (u, False)
         else if key_in key ''1234'' then (ush_uwm_launch_or_restore_app K (int key - 49) u, True)
         else if \<not> ush_uwm_app_index_valid idx \<or> \<not> uw_alive win then (u, True)
         else if key_in key ''mM'' then (ush_uwm_minimize_window K idx u, True)
         else if key_in key ''xX'' then (ush_uwm_close_window K idx u, True)
         else if key_in key ''tT'' then (ush_uwm_toggle_topmost K idx u, True)
         else if uw_maximized win then (u, True)
         else if key_in key ''+='' then (fst (ush_uwm_window_resize K idx (uw_w win + 32) (uw_h win + 24) u), True)
         else if key_in key ''-'' then (fst (ush_uwm_window_resize K idx (uw_w win - 32) (uw_h win - 24) u), True)
         else (let (dx, dy) = (if key_in key ''aA'' \<or> key = USH_UWM_KEY_LEFT then (- USH_UWM_MOVE_STEP, 0)
                               else if key_in key ''dD'' \<or> key = USH_UWM_KEY_RIGHT then (USH_UWM_MOVE_STEP, 0)
                               else if key_in key ''wW'' \<or> key = USH_UWM_KEY_UP then (0, - USH_UWM_MOVE_STEP)
                               else if key_in key ''sS'' \<or> key = USH_UWM_KEY_DOWN then (0, USH_UWM_MOVE_STEP)
                               else (0, 0))
               in if dx \<noteq> 0 \<or> dy \<noteq> 0
                  then (fst (ush_uwm_window_move_clamped K idx (uw_x win + dx) (uw_y win + dy) u), True)
                  else (u, True)))"

text \<open>The search for the button of the taskbar under the pointer: a window of the kernel, or the place where the
  buttons of the minimized windows begin.\<close>

definition on_button :: "ush_uwm_session \<Rightarrow> int \<Rightarrow> int \<Rightarrow> int \<Rightarrow> bool" where
  "on_button s app_x x y \<longleftrightarrow> app_x \<le> x \<and> x < app_x + USH_UWM_TASKBAR_BUTTON_W \<and> 5 \<le> y \<and>
     y < uw_h (us_windows s USH_UWM_TASKBAR_INDEX) - 5"

fun clicked_window :: "'k wm_kernel \<Rightarrow> ush_uwm_session \<Rightarrow> int \<Rightarrow> int \<Rightarrow> nat list \<Rightarrow> 'k \<Rightarrow> int \<Rightarrow> nat \<Rightarrow> 'k \<times> (wm_snapshot + int)" where
  "clicked_window K s x y [] k app_x shown = (k, Inr app_x)"
| "clicked_window K s x y (wm_index # rest) k app_x shown =
     (if USH_UWM_TASKBAR_DYNAMIC_MAX \<le> shown \<or> uw_w (us_windows s USH_UWM_TASKBAR_INDEX) - 98 < app_x + USH_UWM_TASKBAR_BUTTON_W
      then (k, Inr app_x)
      else (case taskbar_window K k s wm_index of (k, win) \<Rightarrow>
        if win = None then clicked_window K s x y rest k app_x shown
        else if on_button s app_x x y then (k, Inl (the win))
        else clicked_window K s x y rest k (app_x + USH_UWM_TASKBAR_BUTTON_W + USH_UWM_TASKBAR_BUTTON_GAP) (shown + 1)))"

fun clicked_minimized :: "ush_uwm_session \<Rightarrow> int \<Rightarrow> int \<Rightarrow> int list \<Rightarrow> int \<Rightarrow> int option" where
  "clicked_minimized s x y [] app_x = None"
| "clicked_minimized s x y (i # rest) app_x =
     (if uw_closed (us_windows s i) \<or> \<not> uw_minimized (us_windows s i) then clicked_minimized s x y rest app_x
      else if uw_w (us_windows s USH_UWM_TASKBAR_INDEX) - 98 < app_x + USH_UWM_TASKBAR_BUTTON_W then None
      else if on_button s app_x x y then Some i
      else clicked_minimized s x y rest (app_x + USH_UWM_TASKBAR_BUTTON_W + USH_UWM_TASKBAR_BUTTON_GAP))"

definition ush_uwm_handle_taskbar_click :: "'k wm_kernel \<Rightarrow> int \<Rightarrow> int \<Rightarrow> 'k uwm \<Rightarrow> 'k uwm" where
  "ush_uwm_handle_taskbar_click K local_x local_y u =
     (case u of (k, s) \<Rightarrow>
       (let taskbar = us_windows s USH_UWM_TASKBAR_INDEX
        in if local_y < 0 \<or> uw_h taskbar \<le> local_y then u
           else if 0 \<le> local_x \<and> local_x < USH_UWM_TASKBAR_START_W then ush_uwm_toggle_start K u
           else (case wk_count K k of (k, wm_count) \<Rightarrow>
             (case clicked_window K s local_x local_y [0..<wm_count] k (ush_uwm_taskbar_app_x taskbar) 0 of
                (k, Inl snap) \<Rightarrow>
                  (let local_index = ush_uwm_local_window_index_by_id s (sn_window_id snap)
                   in if ush_uwm_app_index_valid local_index
                      then (if us_active_window s = local_index \<and> \<not> uw_minimized (us_windows s local_index)
                            then ush_uwm_minimize_window K local_index (k, s) else ush_uwm_set_active K local_index (k, s))
                      else (let (k, s) = (if us_start_open s then ush_uwm_close_start K (k, s) else (k, s));
                                s = s\<lparr>us_active_window := -1\<rparr>
                            in ush_uwm_refresh_taskbar K (fst (wk_set_focus K k (sn_window_id snap)), s)))
              | (k, Inr app_x) \<Rightarrow>
                  (case clicked_minimized s local_x local_y [0..USH_UWM_APP_COUNT - 1] app_x of
                     Some i \<Rightarrow> ush_uwm_restore_window K i (k, s)
                   | None \<Rightarrow> (k, s))))))"

definition ush_uwm_handle_start_click :: "'k wm_kernel \<Rightarrow> int \<Rightarrow> int \<Rightarrow> 'k uwm \<Rightarrow> 'k uwm" where
  "ush_uwm_handle_start_click K local_x local_y u =
     (let start = us_windows (snd u) USH_UWM_START_INDEX;
          i = first_index (\<lambda>i. 66 \<le> local_x \<and> local_x < uw_w start - 16 \<and> 78 + i * 44 \<le> local_y \<and> local_y < 78 + i * 44 + 34)
                [0..USH_UWM_APP_COUNT - 1]
      in if local_x < 52 \<and> uw_h start - 52 \<le> local_y then ush_uwm_close_start K u
         else if i \<noteq> -1 then ush_uwm_launch_or_restore_app K i (ush_uwm_close_start K u)
         else u)"

definition start_resize :: "int \<Rightarrow> int \<Rightarrow> int \<Rightarrow> ush_uwm_session \<Rightarrow> ush_uwm_session" where
  "start_resize i local_x local_y s =
     (let win = us_windows s i
      in s\<lparr>us_resizing := True, us_resize_window := i, us_mouse_packet_seen := 0,
           us_resize_start_x := uw_x win + local_x, us_resize_start_y := uw_y win + local_y,
           us_resize_start_w := uw_w win, us_resize_start_h := uw_h win,
           us_resize_pending_w := uw_w win, us_resize_pending_h := uw_h win\<rparr>)"

definition start_drag :: "int \<Rightarrow> int \<Rightarrow> int \<Rightarrow> ush_uwm_session \<Rightarrow> ush_uwm_session" where
  "start_drag i local_x local_y s = s\<lparr>us_dragging := True, us_drag_window := i, us_mouse_packet_seen := 0,
     us_drag_offset_x := local_x, us_drag_offset_y := local_y\<rparr>"

text \<open>A press of the left button in an application window.\<close>

definition press_app :: "'k wm_kernel \<Rightarrow> int \<Rightarrow> int \<Rightarrow> int \<Rightarrow> 'k uwm \<Rightarrow> 'k uwm" where
  "press_app K i local_x local_y u =
     (let u = (if us_start_open (snd u) then ush_uwm_close_start K u else u);
          u = ush_uwm_set_active K i u;
          win = us_windows (snd u) i
      in if ush_uwm_hit_close win local_x local_y then ush_uwm_close_window K i u
         else if ush_uwm_hit_minimize win local_x local_y then ush_uwm_minimize_window K i u
         else if ush_uwm_hit_topmost win local_x local_y
         then (if i = USH_UWM_TERMINAL_INDEX then ush_uwm_toggle_maximize K i u else ush_uwm_toggle_topmost K i u)
         else if \<not> uw_maximized win \<and> ush_uwm_hit_resize win local_x local_y then (fst u, start_resize i local_x local_y (snd u))
         else if \<not> uw_maximized win \<and> 0 \<le> local_y \<and> local_y < USH_UWM_TITLE_H then (fst u, start_drag i local_x local_y (snd u))
         else u)"

definition ush_uwm_handle_mouse_button :: "'k wm_kernel \<Rightarrow> int \<Rightarrow> wm_event \<Rightarrow> 'k uwm \<Rightarrow> 'k uwm" where
  "ush_uwm_handle_mouse_button K window_index event u =
     (let local_x = ush_uwm_u64_as_i32 (ev_arg2 event);
          local_y = ush_uwm_u64_as_i32 (ev_arg3 event);
          left_changed = odd (ev_arg1 event);
          left_down = odd (ev_arg0 event)
      in if \<not> ush_uwm_window_index_valid window_index \<or> \<not> left_changed then u
         else if \<not> left_down
         then (let u = (if us_dragging (snd u) \<and> us_drag_window (snd u) = window_index
                        then (fst u, (snd u)\<lparr>us_dragging := False, us_drag_window := -1\<rparr>) else u)
               in if us_resizing (snd u) \<and> us_resize_window (snd u) = window_index then ush_uwm_finish_resize K u else u)
         else (case ush_uwm_repair_mouse_target K u (window_index, local_x, local_y) of (k, i, x, y) \<Rightarrow>
           (let u = (k, snd u)
            in if uw_kind (us_windows (snd u) i) = KIND_TASKBAR then ush_uwm_handle_taskbar_click K x y u
               else if uw_kind (us_windows (snd u) i) = KIND_START then ush_uwm_handle_start_click K x y u
               else if \<not> ush_uwm_app_index_valid i then u
               else press_app K i x y u)))"

text \<open>The pointer at a position while a button is held; the result says whether it had an effect.\<close>

definition pointer_at :: "'k wm_kernel \<Rightarrow> int \<Rightarrow> int \<Rightarrow> int \<Rightarrow> int \<Rightarrow> 'k uwm \<Rightarrow> 'k uwm \<times> bool" where
  "pointer_at K resize_index drag_index x y u =
     (case u of (k, s) \<Rightarrow>
       if us_resizing s \<and> us_resize_window s = resize_index \<and> ush_uwm_app_index_valid resize_index \<and> \<not> uw_maximized (us_windows s resize_index)
       then ((k, s\<lparr>us_resize_pending_w := us_resize_start_w s + (x - us_resize_start_x s),
                   us_resize_pending_h := us_resize_start_h s + (y - us_resize_start_y s)\<rparr>), True)
       else if us_dragging s \<and> us_drag_window s = drag_index \<and> ush_uwm_app_index_valid drag_index \<and> \<not> uw_maximized (us_windows s drag_index)
       then (fst (ush_uwm_window_move_clamped K drag_index (x - us_drag_offset_x s) (y - us_drag_offset_y s) u), True)
       else (u, False))"

definition ush_uwm_handle_mouse_move :: "'k wm_kernel \<Rightarrow> int \<Rightarrow> wm_event \<Rightarrow> 'k uwm \<Rightarrow> 'k uwm" where
  "ush_uwm_handle_mouse_move K window_index event u =
     (if \<not> ush_uwm_window_index_valid window_index then u
      else fst (pointer_at K window_index window_index (ush_uwm_u64_as_i32 (ev_arg0 event)) (ush_uwm_u64_as_i32 (ev_arg1 event)) u))"

definition ush_uwm_drive_direct_pointer :: "'k wm_kernel \<Rightarrow> 'k uwm \<Rightarrow> 'k uwm \<times> nat" where
  "ush_uwm_drive_direct_pointer K u =
     (case u of (k, s) \<Rightarrow>
       if \<not> us_dragging s \<and> \<not> us_resizing s then (u, 0)
       else (case wk_mouse_state K k of (k, mouse) \<Rightarrow>
         if mouse = None \<or> mo_ready (the mouse) = 0 \<or> mo_packet_count (the mouse) = us_mouse_packet_seen s then ((k, s), 0)
         else (let m = the mouse; s = s\<lparr>us_mouse_packet_seen := mo_packet_count m\<rparr>
               in if even (mo_buttons m)
                  then (let s = (if us_dragging s then s\<lparr>us_dragging := False, us_drag_window := -1\<rparr> else s)
                        in ((if us_resizing s then ush_uwm_finish_resize K (k, s) else (k, s)), 1))
                  else (case pointer_at K (us_resize_window s) (us_drag_window s) (ush_uwm_u64_as_i32 (mo_x m)) (ush_uwm_u64_as_i32 (mo_y m)) (k, s) of
                          (u, hit) \<Rightarrow> (u, if hit then 1 else 0)))))"

definition ush_uwm_handle_event :: "'k wm_kernel \<Rightarrow> int \<Rightarrow> wm_event \<Rightarrow> 'k uwm \<Rightarrow> 'k uwm \<times> bool" where
  "ush_uwm_handle_event K window_index event u =
     (if \<not> ush_uwm_window_index_valid window_index then (u, True)
      else if ev_type event = CLEONOS_WM_EVENT_FOCUS_GAINED
      then (if ush_uwm_app_index_valid window_index
            then (let old_active = us_active_window (snd u);
                      u = (fst u, (snd u)\<lparr>us_active_window := window_index\<rparr>);
                      u = (if ush_uwm_app_index_valid old_active \<and> old_active \<noteq> window_index then ush_uwm_refresh_window K old_active u else u)
                  in (ush_uwm_refresh_taskbar K (ush_uwm_refresh_window K window_index u), True))
            else (u, True))
      else if ev_type event = CLEONOS_WM_EVENT_FOCUS_LOST
      then (let u = (if us_drag_window (snd u) = window_index then (fst u, (snd u)\<lparr>us_dragging := False, us_drag_window := -1\<rparr>) else u)
            in ((if us_resize_window (snd u) = window_index then ush_uwm_finish_resize K u else u), True))
      else if ev_type event = CLEONOS_WM_EVENT_KEY then ush_uwm_handle_key_event K (ev_arg0 event) u
      else if ev_type event = CLEONOS_WM_EVENT_MOUSE_MOVE then (ush_uwm_handle_mouse_move K window_index event u, True)
      else if ev_type event = CLEONOS_WM_EVENT_MOUSE_BUTTON then (ush_uwm_handle_mouse_button K window_index event u, True)
      else (u, True))"

subsection \<open>The main loop\<close>

text \<open>At most \<open>budget\<close> events of a window; the results are the number of events and whether the manager goes on.\<close>

fun poll_loop :: "'k wm_kernel \<Rightarrow> int \<Rightarrow> nat \<Rightarrow> 'k uwm \<Rightarrow> nat \<Rightarrow> 'k uwm \<times> nat \<times> bool" where
  "poll_loop K i 0 u handled = (u, handled, True)"
| "poll_loop K i (Suc budget) u handled =
     (case u of (k, s) \<Rightarrow>
       (case wk_poll_event K k (uw_id (us_windows s i)) of (k, event) \<Rightarrow>
         if event = None then ((k, s), handled, True)
         else (case ush_uwm_handle_event K i (the event) (k, s) of (u, running) \<Rightarrow>
           if \<not> running then (u, handled + 1, False) else poll_loop K i budget u (handled + 1))))"

definition ush_uwm_poll_window_events :: "'k wm_kernel \<Rightarrow> int \<Rightarrow> 'k uwm \<Rightarrow> 'k uwm \<times> nat \<times> bool" where
  "ush_uwm_poll_window_events K i u =
     (if \<not> ush_uwm_window_index_valid i \<or> \<not> uw_alive (us_windows (snd u) i) \<or> uw_id (us_windows (snd u) i) = 0 then (u, 0, True)
      else poll_loop K i USH_UWM_EVENT_BUDGET u 0)"

fun poll_all :: "'k wm_kernel \<Rightarrow> int list \<Rightarrow> 'k uwm \<Rightarrow> nat \<Rightarrow> 'k uwm \<times> nat \<times> bool" where
  "poll_all K [] u handled = (u, handled, True)"
| "poll_all K (i # rest) u handled =
     (case ush_uwm_poll_window_events K i u of (u, n, running) \<Rightarrow>
        if \<not> running then (u, handled + n, False) else poll_all K rest u (handled + n))"

definition registry_due :: "'k wm_kernel \<Rightarrow> nat \<Rightarrow> 'k uwm \<Rightarrow> 'k uwm" where
  "registry_due K now_tick u =
     (if 20 \<le> sub64 now_tick (us_app_registry_last_tick (snd u))
      then (case ush_uwm_refresh_app_registry K (fst u, (snd u)\<lparr>us_app_registry_last_tick := now_tick\<rparr>) of (u, changed) \<Rightarrow>
        (let u = ush_uwm_refresh_taskbar K u
         in if changed \<and> us_start_open (snd u) then ush_uwm_refresh_window K USH_UWM_START_INDEX u else u))
      else u)"

definition preferred_window :: "ush_uwm_session \<Rightarrow> int" where
  "preferred_window s =
     (if us_dragging s \<and> ush_uwm_window_index_valid (us_drag_window s) then us_drag_window s
      else if us_resizing s \<and> ush_uwm_window_index_valid (us_resize_window s) then us_resize_window s
      else if us_start_open s \<and> uw_alive (us_windows s USH_UWM_START_INDEX) then USH_UWM_START_INDEX
      else if ush_uwm_window_index_valid (us_active_window s) then us_active_window s
      else -1)"

text \<open>One turn of the loop: first the preferred window, then the others. The last result is the number of idle turns.\<close>

definition loop_turn :: "'k wm_kernel \<Rightarrow> 'k uwm \<Rightarrow> nat \<Rightarrow> 'k uwm \<times> bool \<times> nat" where
  "loop_turn K u idle_spins =
     (case wk_timer_ticks K (fst u) of (k, now_tick) \<Rightarrow>
       (let u = registry_due K now_tick (k, snd u);
            preferred = preferred_window (snd u);
            order = (if 0 \<le> preferred then [preferred] else []) @ filter (\<lambda>i. i \<noteq> preferred) [0..USH_UWM_WINDOW_COUNT - 1]
        in case ush_uwm_drive_direct_pointer K u of (u, handled) \<Rightarrow>
          (case poll_all K order u handled of ((k, s), handled, running) \<Rightarrow>
            if \<not> running then ((k, s), False, idle_spins)
            else if handled \<noteq> 0 \<or> us_dragging s \<or> us_resizing s then ((wk_yield K k, s), True, 0)
            else if idle_spins < USH_UWM_IDLE_SPINS then ((wk_yield K k, s), True, idle_spins + 1)
            else ((wk_sleep_ticks K k 1, s), True, 0))))"

partial_function (option) uwm_loop :: "'k wm_kernel \<Rightarrow> 'k uwm \<Rightarrow> nat \<Rightarrow> 'k uwm option" where
  "uwm_loop K u idle_spins =
     (case loop_turn K u idle_spins of (u, running, idle_spins) \<Rightarrow>
        (if \<not> running then Some u else uwm_loop K u idle_spins))"

definition ush_uwm_loop :: "'k wm_kernel \<Rightarrow> 'k uwm \<Rightarrow> 'k uwm option" where
  "ush_uwm_loop K u = uwm_loop K u 0"

subsection \<open>Start and end\<close>

text \<open>\<open>None\<close> stands for wrong arguments, \<open>Some True\<close> for a request for help.\<close>

definition ush_uwm_parse_args :: "string \<Rightarrow> bool option" where
  "ush_uwm_parse_args arg =
     (if arg = [] then Some False
      else (case ush_split_first_and_rest (Some arg) USH_PATH_MAX of
              None \<Rightarrow> None
            | Some (first, rest) \<Rightarrow>
                if rest \<noteq> [] then None
                else if first = ''--help'' \<or> first = ''-h'' then Some True else None))"

definition ush_uwm_fit_dimension :: "int \<Rightarrow> int \<Rightarrow> int \<Rightarrow> int" where
  "ush_uwm_fit_dimension wanted min_value max_value =
     (if max_value < 64 then 64 else if max_value < min_value then max_value else ush_uwm_clampi wanted min_value max_value)"

definition ush_uwm_init_window ::
    "ush_uwm_window_kind \<Rightarrow> string \<Rightarrow> string \<Rightarrow> int \<Rightarrow> int \<Rightarrow> int \<Rightarrow> int \<Rightarrow> nat \<Rightarrow> bool \<Rightarrow> bool \<Rightarrow> ush_uwm_window" where
  "ush_uwm_init_window kind title subtitle x y w h accent topmost closed =
     \<lparr>uw_id = 0, uw_x = x, uw_y = y, uw_w = w, uw_h = h, uw_pixels = 0, uw_pixel_count = 0, uw_alive = False,
      uw_minimized = False, uw_closed = closed, uw_topmost = topmost, uw_maximized = False,
      uw_restore_x = x, uw_restore_y = y, uw_restore_w = w, uw_restore_h = h, uw_dirty = True, uw_kind = kind,
      uw_accent = accent, uw_title = take 31 title, uw_subtitle = take 63 subtitle\<rparr>"

definition ush_uwm_boot_window :: "'k wm_kernel \<Rightarrow> int \<Rightarrow> 'k uwm \<Rightarrow> 'k uwm \<times> bool" where
  "ush_uwm_boot_window K index u =
     (if \<not> ush_uwm_window_index_valid index \<or> uw_closed (us_windows (snd u) index) then (u, False)
      else (case (if uw_pixels (us_windows (snd u) index) = 0 then ush_uwm_alloc_pixels K index u else (u, True)) of (u, ok) \<Rightarrow>
        if \<not> ok then (u, False)
        else (case ush_uwm_create_window K index (ush_uwm_render_window K index u) of ((k, s), created) \<Rightarrow>
          if \<not> created then ((k, s), False)
          else (case ush_uwm_present_window K k (us_windows s index) of (k, presented) \<Rightarrow>
            if \<not> presented then (ush_uwm_destroy_kernel_window K index (k, s), False) else ((k, s), True)))))"

text \<open>The session before it is set up: all zero.\<close>

definition zero_session :: ush_uwm_session where
  "zero_session = \<lparr>us_screen_w = 0, us_screen_h = 0, us_active_window = 0, us_dragging = False, us_drag_window = 0,
     us_drag_offset_x = 0, us_drag_offset_y = 0, us_resizing = False, us_resize_window = 0, us_resize_start_x = 0,
     us_resize_start_y = 0, us_resize_start_w = 0, us_resize_start_h = 0, us_resize_pending_w = 0, us_resize_pending_h = 0,
     us_start_open = False, us_mouse_packet_seen = 0, us_app_registry_last_tick = 0, us_tty_before = 0, us_tty_switched = False,
     us_last_error = ''uwm: init failed'', us_app_pids = (\<lambda>_. 0), us_app_states = (\<lambda>_. 0),
     us_windows = (\<lambda>_. ush_uwm_init_window KIND_APP [] [] 0 0 0 0 0 False False)\<rparr>"

text \<open>The four application windows, then the taskbar and the start menu.\<close>

definition app_window :: "int \<Rightarrow> int \<Rightarrow> int \<Rightarrow> int \<Rightarrow> int \<Rightarrow> ush_uwm_window" where
  "app_window screen_w work_bottom base_w base_h i =
     (let max_x = screen_w - base_w;
          max_y = work_bottom - base_h;
          max_x = (if max_x < 0 then 0 else max_x);
          max_y = (if max_y < USH_UWM_TOP_CLAMP_Y then USH_UWM_TOP_CLAMP_Y else max_y);
          app_gap = (if 900 < screen_w then 120 else 58)
      in ush_uwm_init_window KIND_APP
           ([''FILE EXPLORER'', ''TERMINAL'', ''TASK MANAGER'', ''PACKAGE MANAGER''] ! nat i)
           ([''LOCAL DISK AND SYSTEM FILES'', ''DESKTOP TERMINAL APP'', ''PROCESS MONITOR AND END TASK'', ''INSTALL AND UPDATE APPS''] ! nat i)
           (ush_uwm_clampi (56 + i * app_gap) 0 max_x) (ush_uwm_clampi (64 + i * 46) USH_UWM_TOP_CLAMP_Y max_y)
           base_w base_h ([0x000078D7, 0x0000A300, 0x000078D7, 0x00006B3A] ! nat i) False True)"

definition start_windows :: "int \<Rightarrow> int \<Rightarrow> int \<Rightarrow> ush_uwm_window" where
  "start_windows screen_w screen_h =
     (let work_bottom = max (screen_h - USH_UWM_TASKBAR_H) USH_UWM_TOP_CLAMP_Y;
          work_h = max (work_bottom - USH_UWM_TOP_CLAMP_Y) 80;
          base_w = ush_uwm_fit_dimension USH_UWM_APP_START_W USH_UWM_MIN_WINDOW_W (screen_w - 48);
          base_h = ush_uwm_fit_dimension USH_UWM_APP_START_H USH_UWM_MIN_WINDOW_H (work_h - 32);
          start_w = ush_uwm_fit_dimension USH_UWM_START_W 180 (screen_w - 16);
          start_h = ush_uwm_fit_dimension USH_UWM_START_H 160 (work_h - 8)
      in (\<lambda>i. if i = USH_UWM_TASKBAR_INDEX
             then ush_uwm_init_window KIND_TASKBAR ''TASKBAR'' [] 0 (max (screen_h - USH_UWM_TASKBAR_H) USH_UWM_TOP_CLAMP_Y)
                    screen_w USH_UWM_TASKBAR_H 0x000078D7 True False
             else if i = USH_UWM_START_INDEX
             then ush_uwm_init_window KIND_START ''START'' [] 0 (max (screen_h - USH_UWM_TASKBAR_H - start_h) USH_UWM_TOP_CLAMP_Y)
                    start_w start_h 0x000078D7 True True
             else if ush_uwm_app_index_valid i then app_window screen_w work_bottom base_w base_h i
             else us_windows zero_session i))"

definition ush_uwm_prepare_session :: "'k wm_kernel \<Rightarrow> 'k \<Rightarrow> 'k uwm \<times> bool" where
  "ush_uwm_prepare_session K k =
     (case wk_display_info K k of (k, display) \<Rightarrow>
        if display = None \<or> fst (the display) = 0 \<or> snd (the display) = 0
        then ((k, zero_session\<lparr>us_last_error := ''uwm: framebuffer unavailable''\<rparr>), False)
        else if 4096 < fst (the display) \<or> 4096 < snd (the display)
        then ((k, zero_session\<lparr>us_last_error := ''uwm: framebuffer is larger than 4096x4096''\<rparr>), False)
        else (let w = int (fst (the display)); h = int (snd (the display))
              in case wk_tty_active K k of (k, tty) \<Rightarrow>
                ((k, zero_session\<lparr>us_screen_w := w, us_screen_h := h, us_active_window := -1, us_drag_window := -1,
                       us_resize_window := -1, us_tty_before := tty, us_windows := start_windows w h\<rparr>), True)))"

definition ush_uwm_start :: "'k wm_kernel \<Rightarrow> 'k uwm \<Rightarrow> 'k uwm \<times> bool" where
  "ush_uwm_start K u =
     (case ush_uwm_boot_window K USH_UWM_TASKBAR_INDEX u of (u, ok) \<Rightarrow>
        if \<not> ok then ((fst u, (snd u)\<lparr>us_last_error := ''uwm: taskbar create failed''\<rparr>), False)
        else (ush_uwm_refresh_taskbar K (ush_uwm_toggle_start K u), True))"

definition ush_uwm_stop :: "'k wm_kernel \<Rightarrow> 'k uwm \<Rightarrow> 'k uwm" where
  "ush_uwm_stop K u = fold (ush_uwm_destroy_window K) [0..USH_UWM_WINDOW_COUNT - 1] u"

definition ush_uwm_switch_to_display_tty :: "'k wm_kernel \<Rightarrow> 'k uwm \<Rightarrow> 'k uwm" where
  "ush_uwm_switch_to_display_tty K u =
     (if us_tty_before (snd u) \<noteq> USH_UWM_TTY_DISPLAY
      then (wk_tty_switch K (fst u) USH_UWM_TTY_DISPLAY, (snd u)\<lparr>us_tty_switched := True\<rparr>) else u)"

definition ush_uwm_restore_tty :: "'k wm_kernel \<Rightarrow> 'k uwm \<Rightarrow> 'k uwm" where
  "ush_uwm_restore_tty K u =
     (if us_tty_switched (snd u)
      then (wk_tty_switch K (fst u) (us_tty_before (snd u)), (snd u)\<lparr>us_tty_switched := False\<rparr>) else u)"

fun drain_keys :: "'k wm_kernel \<Rightarrow> nat \<Rightarrow> 'k \<Rightarrow> 'k" where
  "drain_keys K 0 k = k"
| "drain_keys K (Suc n) k = (case wk_kbd_get_char K k of (k, c) \<Rightarrow> if c = None then k else drain_keys K n k)"

definition ush_uwm_drain_startup_keys :: "'k wm_kernel \<Rightarrow> 'k \<Rightarrow> 'k" where
  "ush_uwm_drain_startup_keys K k = drain_keys K USH_UWM_STARTUP_KEY_DRAIN_MAX k"

definition ush_uwm_usage :: "'k wm_kernel \<Rightarrow> 'k \<Rightarrow> 'k" where
  "ush_uwm_usage K k = fold (\<lambda>t k. wk_writeln K k t)
     [''usage: uwm'', ''keys: q quit, tab focus, 1/2/3/4 open apps, wasd/arrow move'',
      ''keys: m minimize, x close, t pin top, +/- resize'', ''mouse: drag titlebar, resize bottom-right, use taskbar/start''] k"

text \<open>\<open>None\<close>: the loop does not end.\<close>

definition ush_cmd_uwm :: "'k wm_kernel \<Rightarrow> string \<Rightarrow> 'k \<Rightarrow> ('k \<times> bool) option" where
  "ush_cmd_uwm K arg k =
     (case ush_uwm_parse_args arg of
        None \<Rightarrow> Some (ush_uwm_usage K k, False)
      | Some True \<Rightarrow> Some (ush_uwm_usage K k, True)
      | Some False \<Rightarrow>
          (case ush_uwm_prepare_session K k of (u, ok) \<Rightarrow>
            if \<not> ok then Some (wk_writeln K (fst u) (us_last_error (snd u)), False)
            else (let u = ush_uwm_switch_to_display_tty K (ush_uwm_drain_startup_keys K (fst u), snd u)
                  in case ush_uwm_start K u of (u, ok) \<Rightarrow>
                    if \<not> ok
                    then (let u = ush_uwm_restore_tty K (ush_uwm_stop K u)
                          in Some (wk_writeln K (fst u) (us_last_error (snd u)), False))
                    else (case ush_uwm_loop K u of
                            None \<Rightarrow> None
                          | Some u \<Rightarrow> Some (wk_writeln K (fst (ush_uwm_restore_tty K (ush_uwm_stop K u))) ''uwm: exit'', True)))))"

section \<open>Every event keeps the session in order\<close>

lemmas uwm_ops_ok = ok_calm_ops move_ok resize_ok maximize_ok minimize_ok close_ok restore_ok topmost_ok toggle_start_ok

lemma ok_close_start: "window_system K wins bufs \<Longrightarrow> uwm_ok K wins bufs u \<Longrightarrow> uwm_ok K wins bufs (ush_uwm_close_start K u)"
  by (rule close_start_ok) (simp_all add: uwm_ok_def)

lemma ok_step: "uwm_ok K wins bufs u \<Longrightarrow> same wins bufs (fst u) k \<Longrightarrow> uwm_ok K wins bufs (k, snd u)"
  by (rule ok_same [of K wins bufs "fst u"]) simp_all

lemma same_focus_loop:
  assumes "window_system K wins bufs"
  shows "same wins bufs k (fst (focus_loop K pid is k))"
proof (induction "is" arbitrary: k)
  case (Cons i "is")
  obtain k1 w where a: "wk_id_at K k i = (k1, w)" by fastforce
  obtain k2 sn where b: "wk_snapshot K k1 (the w) = (k2, sn)" by fastforce
  obtain k3 r where c: "wk_set_focus K k2 (the w) = (k3, r)" by fastforce
  note s1 = ws_pairs(5) [OF assms a] and s2 = same_trans [OF ws_pairs(5) [OF assms a] ws_pairs(6) [OF assms b]]
  show ?case
    using same_trans [OF s1 Cons] same_trans [OF s2 Cons] same_trans [OF s2 ws_pairs(4) [OF assms c]] by (simp add: a b c)
qed simp

lemma same_focus_first: "window_system K wins bufs \<Longrightarrow> same wins bufs k (fst (ush_uwm_focus_first_window_for_pid K pid k))"
  by (auto simp: ush_uwm_focus_first_window_for_pid_def split: prod.splits intro: same_trans [OF ws_pairs(9) same_focus_loop])

lemma registry_ok:
  assumes "window_system K wins bufs" "uwm_ok K wins bufs u"
  shows "uwm_ok K wins bufs (fst (ush_uwm_app_registry_running K i u))"
proof -
  obtain k s where u: "u = (k, s)" by fastforce
  note ok = assms(2) [unfolded u]
  obtain k1 snap where p: "wk_proc_snapshot K k (us_app_pids s i) = (k1, snap)" by fastforce
  have ok1: "uwm_ok K wins bufs (k1, s)" by (rule ok_same [OF ok ws_pairs(7) [OF assms(1) p]])
  have "uwm_ok K wins bufs (k, s\<lparr>us_app_pids := f, us_app_states := g\<rparr>)" "uwm_ok K wins bufs (k1, s\<lparr>us_app_pids := f, us_app_states := g\<rparr>)"
    "uwm_ok K wins bufs (k1, s\<lparr>us_app_states := g\<rparr>)" "uwm_ok K wins bufs (k1, s\<lparr>us_app_states := g, us_app_pids := f\<rparr>)" for f g
    by (rule ok_session [OF ok] ok_session [OF ok1]; simp)+
  then show ?thesis using ok by (simp add: ush_uwm_app_registry_running_def u p Let_def split: option.splits prod.splits)
qed

lemma refresh_registry_ok:
  assumes "window_system K wins bufs" "uwm_ok K wins bufs u"
  shows "uwm_ok K wins bufs (fst (ush_uwm_refresh_app_registry K u))"
proof -
  let ?f = "\<lambda>i (u, changed).
         (let u' = fst (ush_uwm_app_registry_running K i u)
          in (u', changed \<or> us_app_pids (snd u) i \<noteq> us_app_pids (snd u') i \<or> us_app_states (snd u) i \<noteq> us_app_states (snd u') i))"
  have "uwm_ok K wins bufs u \<Longrightarrow> uwm_ok K wins bufs (fst (fold ?f is (u, c)))" for "is" c u
  proof (induction "is" arbitrary: u c)
    case (Cons i "is")
    then show ?case using Cons.IH [OF registry_ok [OF assms(1) Cons.prems, of i]] by (simp add: Let_def)
  qed simp
  then show ?thesis using assms(2) by (simp add: ush_uwm_refresh_app_registry_def)
qed

lemma launch_ok:
  assumes "window_system K wins bufs" "uwm_ok K wins bufs u"
  shows "uwm_ok K wins bufs (ush_uwm_launch_or_restore_app K i u)"
proof -
  obtain v running where r: "ush_uwm_app_registry_running K i u = (v, running)" by (rule prod.exhaust)
  obtain k s where v: "v = (k, s)" by (rule prod.exhaust)
  have ok: "uwm_ok K wins bufs (k, s)" using registry_ok [OF assms, of i] by (simp add: r v)
  have a: "uwm_ok K wins bufs (ush_uwm_refresh_taskbar K (fst (ush_uwm_focus_first_window_for_pid K (us_app_pids s i) k), s))"
    by (rule ok_calm_ops(4) [OF assms(1) ok_same [OF ok same_focus_first [OF assms(1)]]])
  have b: "uwm_ok K wins bufs (ush_uwm_restore_window K i (k, s))" by (rule restore_ok [OF assms(1) ok])
  have c: "uwm_ok K wins bufs (ush_uwm_refresh_taskbar K (k1, s))"
    "uwm_ok K wins bufs (ush_uwm_refresh_taskbar K (k1, s\<lparr>us_app_pids := f, us_app_states := g\<rparr>))"
    if "wk_spawn_pathv K k path [] ''LAUNCHED_BY=uwm'' = (k1, pid)" for k1 pid f g path
  proof -
    have ok1: "uwm_ok K wins bufs (k1, s)" by (rule ok_same [OF ok ws_pairs(12) [OF assms(1) that]])
    show "uwm_ok K wins bufs (ush_uwm_refresh_taskbar K (k1, s))" by (rule ok_calm_ops(4) [OF assms(1) ok1])
    show "uwm_ok K wins bufs (ush_uwm_refresh_taskbar K (k1, s\<lparr>us_app_pids := f, us_app_states := g\<rparr>))"
      by (rule ok_calm_ops(4) [OF assms(1) ok_session [OF ok1]]) simp_all
  qed
  show ?thesis using assms(2) a b c by (auto simp: ush_uwm_launch_or_restore_app_def r v Let_def split: option.splits prod.splits)
qed

lemma finish_resize_ok:
  assumes "window_system K wins bufs" "uwm_ok K wins bufs u"
  shows "uwm_ok K wins bufs (ush_uwm_finish_resize K u)"
proof -
  obtain k s where u: "u = (k, s)" by fastforce
  have ok: "uwm_ok K wins bufs (k, s\<lparr>us_resizing := False, us_resize_window := -1\<rparr>)" by (rule ok_session [OF assms(2) [unfolded u]]) simp_all
  from resize_ok [OF assms(1) this] show ?thesis using assms ok by (simp add: ush_uwm_finish_resize_def u Let_def)
qed

lemma key_event_ok:
  assumes "window_system K wins bufs" "uwm_ok K wins bufs u"
  shows "uwm_ok K wins bufs (fst (ush_uwm_handle_key_event K key u))"
  using assms(2) uwm_ops_ok [OF assms] launch_ok [OF assms]
  by (simp add: ush_uwm_handle_key_event_def Let_def split: prod.splits)

lemma ok_active:
  assumes "uwm_ok K wins bufs (k, s)" "a = -1 \<or> ush_uwm_app_index_valid a"
  shows "uwm_ok K wins bufs (k, s\<lparr>us_active_window := a\<rparr>)"
proof -
  have "accounts wins bufs (k, s\<lparr>us_active_window := a\<rparr>)"
    using assms by (auto simp: uwm_ok_def accounts_def ids_def buffers_def ush_uwm_app_index_valid_def USH_UWM_APP_COUNT_def)
  moreover have "tidy K (s\<lparr>us_active_window := a\<rparr>)"
    using tidy_calm [OF calm_active [OF same_refl, of wins bufs k s a], of K] assms(1) by (simp add: uwm_ok_def)
  ultimately show ?thesis by (simp add: uwm_ok_def)
qed

lemma same_clicked_window:
  assumes "window_system K wins bufs"
  shows "same wins bufs k (fst (clicked_window K s x y is k app_x shown))"
proof (induction "is" arbitrary: k app_x shown)
  case (Cons i "is")
  obtain k1 w where t: "taskbar_window K k s i = (k1, w)" by fastforce
  then show ?case using same_trans [OF same_taskbar_window [OF assms t] Cons] same_taskbar_window [OF assms t] by simp
qed simp

lemma taskbar_click_ok:
  assumes "window_system K wins bufs" "uwm_ok K wins bufs u"
  shows "uwm_ok K wins bufs (ush_uwm_handle_taskbar_click K x y u)"
proof -
  obtain k s where u: "u = (k, s)" by fastforce
  note ok = assms(2) [unfolded u]
  let ?ax = "ush_uwm_taskbar_app_x (us_windows s USH_UWM_TASKBAR_INDEX)"
  obtain k1 n where c: "wk_count K k = (k1, n)" by fastforce
  obtain k2 r where w: "clicked_window K s x y [0..<n] k1 ?ax 0 = (k2, r)" by fastforce
  have ok2: "uwm_ok K wins bufs (k2, s)"
    using same_clicked_window [OF assms(1), of k1 s x y "[0..<n]" ?ax 0]
    by (intro ok_same [OF ok] same_trans [OF ws_pairs(9) [OF assms(1) c]]) (simp add: w)
  define v where "v = (if us_start_open s then ush_uwm_close_start K (k2, s) else (k2, s))"
  have okv: "uwm_ok K wins bufs v" using ok2 ok_close_start [OF assms(1) ok2] by (simp add: v_def)
  have other: "uwm_ok K wins bufs (ush_uwm_refresh_taskbar K (fst (wk_set_focus K (fst v) i), (snd v)\<lparr>us_active_window := -1\<rparr>))" for i
    by (rule ok_calm_ops(4) [OF assms(1) ok_active [OF ok_step [OF okv ws_same(4) [OF assms(1)]]]]) simp
  show ?thesis
  proof (cases r)
    case (Inl sn)
    then show ?thesis
      using ok toggle_start_ok [OF assms] uwm_ops_ok [OF assms(1) ok2] other [of "sn_window_id sn"]
      by (cases "us_start_open s") (simp_all add: ush_uwm_handle_taskbar_click_def u Let_def c w v_def case_prod_beta)
  next
    case (Inr ax)
    then show ?thesis
      using ok ok2 toggle_start_ok [OF assms] uwm_ops_ok [OF assms(1) ok2]
      by (simp add: ush_uwm_handle_taskbar_click_def u Let_def c w split: option.splits)
  qed
qed

lemma start_click_ok:
  assumes "window_system K wins bufs" "uwm_ok K wins bufs u"
  shows "uwm_ok K wins bufs (ush_uwm_handle_start_click K x y u)"
  using assms(2) ok_close_start [OF assms] launch_ok [OF assms(1) ok_close_start [OF assms]]
  by (simp add: ush_uwm_handle_start_click_def Let_def)

lemma press_ok:
  assumes "window_system K wins bufs" "uwm_ok K wins bufs u"
  shows "uwm_ok K wins bufs (press_app K i x y u)"
proof -
  define v where "v = ush_uwm_set_active K i (if us_start_open (snd u) then ush_uwm_close_start K u else u)"
  have ok: "uwm_ok K wins bufs v" unfolding v_def by (rule ok_calm_ops(1) [OF assms(1)]) (simp add: assms ok_close_start)
  have drag: "uwm_ok K wins bufs (fst v, start_resize i x y (snd v))" "uwm_ok K wins bufs (fst v, start_drag i x y (snd v))"
    by (rule ok_session [of K wins bufs "fst v" "snd v"]; use ok in \<open>simp add: start_resize_def start_drag_def Let_def\<close>)+
  show ?thesis using ok uwm_ops_ok [OF assms(1) ok] drag unfolding press_app_def Let_def v_def [symmetric]
    by (cases "i = USH_UWM_TERMINAL_INDEX") simp_all
qed

lemma pointer_ok:
  assumes "window_system K wins bufs" "uwm_ok K wins bufs u"
  shows "uwm_ok K wins bufs (fst (pointer_at K i j x y u))"
proof -
  obtain k s where u: "u = (k, s)" by fastforce
  have "uwm_ok K wins bufs (k, s\<lparr>us_resize_pending_w := a, us_resize_pending_h := b\<rparr>)" for a b
    by (rule ok_session [OF assms(2) [unfolded u]]) simp_all
  then show ?thesis using assms(2) move_ok [OF assms] by (simp add: pointer_at_def u)
qed

lemma ok_drag_end: "uwm_ok K wins bufs u \<Longrightarrow> uwm_ok K wins bufs (fst u, (snd u)\<lparr>us_dragging := False, us_drag_window := -1\<rparr>)"
  by (rule ok_session [of K wins bufs "fst u" "snd u"]) simp_all

lemma mouse_button_ok:
  assumes "window_system K wins bufs" "uwm_ok K wins bufs u"
  shows "uwm_ok K wins bufs (ush_uwm_handle_mouse_button K i e u)"
proof -
  obtain k j x y where r: "ush_uwm_repair_mouse_target K u (i, ush_uwm_u64_as_i32 (ev_arg2 e), ush_uwm_u64_as_i32 (ev_arg3 e)) = (k, j, x, y)"
    by (metis prod.exhaust)
  then have "same wins bufs (fst u) k"
    by (auto simp: ush_uwm_repair_mouse_target_def Let_def split: prod.splits if_splits intro: ws_pairs(10) [OF assms(1)])
  then have ok: "uwm_ok K wins bufs (k, snd u)" by (rule ok_step [OF assms(2)])
  note release = ok_drag_end [OF assms(2)]
  show ?thesis
    using assms(2) release finish_resize_ok [OF assms(1) release] finish_resize_ok [OF assms]
      taskbar_click_ok [OF assms(1) ok] start_click_ok [OF assms(1) ok] press_ok [OF assms(1) ok] ok
    by (simp add: ush_uwm_handle_mouse_button_def Let_def r)
qed

lemma event_ok:
  assumes "window_system K wins bufs" "uwm_ok K wins bufs u"
  shows "uwm_ok K wins bufs (fst (ush_uwm_handle_event K i e u))"
proof -
  define v where "v = (fst u, (snd u)\<lparr>us_active_window := i\<rparr>)"
  define old where "old = us_active_window (snd u)"
  have ok: "uwm_ok K wins bufs v" if "ush_uwm_app_index_valid i"
    unfolding v_def by (rule ok_active) (use assms(2) that in simp_all)
  have focus: "uwm_ok K wins bufs (ush_uwm_refresh_taskbar K (ush_uwm_refresh_window K i
      (if ush_uwm_app_index_valid old \<and> old \<noteq> i then ush_uwm_refresh_window K old v else v)))" if "ush_uwm_app_index_valid i"
    using ok_calm_ops [OF assms(1)] ok [OF that] by simp
  show ?thesis
    using assms(2) focus key_event_ok [OF assms] mouse_button_ok [OF assms] pointer_ok [OF assms] ok_drag_end [OF assms(2)]
      finish_resize_ok [OF assms(1)]
    by (simp add: ush_uwm_handle_event_def Let_def v_def [symmetric] old_def [symmetric] ush_uwm_handle_mouse_move_def)
qed

lemma poll_loop_ok:
  assumes "window_system K wins bufs"
  shows "uwm_ok K wins bufs u \<Longrightarrow> uwm_ok K wins bufs (fst (poll_loop K i n u h))"
proof (induction n arbitrary: u h)
  case (Suc n)
  obtain k s where u: "u = (k, s)" by fastforce
  obtain k1 e where p: "wk_poll_event K k (uw_id (us_windows s i)) = (k1, e)" by fastforce
  have ok1: "uwm_ok K wins bufs (k1, s)" by (rule ok_same [OF Suc.prems [unfolded u] ws_pairs(8) [OF assms p]])
  obtain v running where h: "ush_uwm_handle_event K i (the e) (k1, s) = (v, running)" by (rule prod.exhaust)
  have okv: "uwm_ok K wins bufs v" using event_ok [OF assms ok1, of i "the e"] by (simp add: h)
  from ok1 okv Suc.IH [OF okv] show ?case by (simp add: u p h)
qed simp

lemma poll_events_ok:
  assumes "window_system K wins bufs" "uwm_ok K wins bufs u"
  shows "uwm_ok K wins bufs (fst (ush_uwm_poll_window_events K i u))"
  using assms(2) poll_loop_ok [OF assms, of i USH_UWM_EVENT_BUDGET 0] by (simp add: ush_uwm_poll_window_events_def)

lemma poll_all_ok:
  assumes "window_system K wins bufs"
  shows "uwm_ok K wins bufs u \<Longrightarrow> uwm_ok K wins bufs (fst (poll_all K is u h))"
proof (induction "is" arbitrary: u h)
  case (Cons i "is")
  obtain v n running where p: "ush_uwm_poll_window_events K i u = (v, n, running)" by (metis prod.exhaust)
  have okv: "uwm_ok K wins bufs v" using poll_events_ok [OF assms Cons.prems, of i] by (simp add: p)
  from okv Cons.IH [OF okv] show ?case by (simp add: p)
qed simp

lemma registry_due_ok:
  assumes "window_system K wins bufs" "uwm_ok K wins bufs u"
  shows "uwm_ok K wins bufs (registry_due K t u)"
proof -
  have ok1: "uwm_ok K wins bufs (fst u, (snd u)\<lparr>us_app_registry_last_tick := t\<rparr>)"
    by (rule ok_session [of K wins bufs "fst u" "snd u"]) (use assms(2) in simp_all)
  obtain v changed where r: "ush_uwm_refresh_app_registry K (fst u, (snd u)\<lparr>us_app_registry_last_tick := t\<rparr>) = (v, changed)" by (rule prod.exhaust)
  have okv: "uwm_ok K wins bufs v" using refresh_registry_ok [OF assms(1) ok1] by (simp add: r)
  note okt = ok_calm_ops(4) [OF assms(1) okv]
  show ?thesis using assms(2) okt ok_calm_ops(3) [OF assms(1) okt] by (simp add: registry_due_def r Let_def)
qed

lemma drive_ok:
  assumes "window_system K wins bufs" "uwm_ok K wins bufs u"
  shows "uwm_ok K wins bufs (fst (ush_uwm_drive_direct_pointer K u))"
proof -
  obtain k s where u: "u = (k, s)" by fastforce
  obtain k1 m where p: "wk_mouse_state K k = (k1, m)" by fastforce
  have ok1: "uwm_ok K wins bufs (k1, s)" by (rule ok_same [OF assms(2) [unfolded u] ws_pairs(10) [OF assms(1) p]])
  define t where "t = s\<lparr>us_mouse_packet_seen := mo_packet_count (the m)\<rparr>"
  define t' where "t' = (if us_dragging t then t\<lparr>us_dragging := False, us_drag_window := -1\<rparr> else t)"
  have okt: "uwm_ok K wins bufs (k1, t)" unfolding t_def by (rule ok_session [OF ok1]) simp_all
  have okt': "uwm_ok K wins bufs (k1, t')" by (rule ok_session [OF okt]) (simp_all add: t'_def)
  show ?thesis
    using assms(2) ok1 okt' finish_resize_ok [OF assms(1) okt'] pointer_ok [OF assms(1) okt]
    unfolding ush_uwm_drive_direct_pointer_def u prod.case p Let_def t_def [symmetric] t'_def [symmetric]
    by (simp add: case_prod_beta)
qed

lemma turn_ok:
  assumes "window_system K wins bufs" "uwm_ok K wins bufs u"
  shows "uwm_ok K wins bufs (fst (loop_turn K u n))"
proof -
  obtain k t where a: "wk_timer_ticks K (fst u) = (k, t)" by fastforce
  have ok0: "uwm_ok K wins bufs (k, snd u)" by (rule ok_step [OF assms(2) ws_pairs(11) [OF assms(1) a]])
  define v where "v = registry_due K t (k, snd u)"
  define order where "order = (if 0 \<le> preferred_window (snd v) then [preferred_window (snd v)] else []) @
    filter (\<lambda>i. i \<noteq> preferred_window (snd v)) [0..USH_UWM_WINDOW_COUNT - 1]"
  have okv: "uwm_ok K wins bufs v" unfolding v_def by (rule registry_due_ok [OF assms(1) ok0])
  obtain w h where d: "ush_uwm_drive_direct_pointer K v = (w, h)" by (rule prod.exhaust)
  have okw: "uwm_ok K wins bufs w" using drive_ok [OF assms(1) okv] by (simp add: d)
  obtain k2 s2 h2 running where p: "poll_all K order w h = ((k2, s2), h2, running)" by (metis prod.exhaust)
  have ok2: "uwm_ok K wins bufs (k2, s2)" using poll_all_ok [OF assms(1) okw, of order h] by (simp add: p)
  have "uwm_ok K wins bufs (wk_yield K k2, s2)" "uwm_ok K wins bufs (wk_sleep_ticks K k2 1, s2)"
    using ok_same [OF ok2 ws_same(15) [OF assms(1)]] ok_same [OF ok2 ws_same(9) [OF assms(1)]] by simp_all
  then show ?thesis
    using ok2 unfolding loop_turn_def a prod.case Let_def v_def [symmetric] order_def [symmetric] d p by simp
qed

lemma loop_ok:
  assumes "window_system K wins bufs" "uwm_ok K wins bufs u" "ush_uwm_loop K u = Some u'"
  shows "uwm_ok K wins bufs u'"
proof -
  have "uwm_loop L u n = Some u' \<Longrightarrow> L = K \<longrightarrow> uwm_ok K wins bufs u \<longrightarrow> uwm_ok K wins bufs u'" for L n
  proof (induction L u n u' rule: uwm_loop.raw_induct [rotated, consumes 1])
    case (1 loop L u n u')
    obtain v running m where t: "loop_turn L u n = (v, running, m)" by (metis prod.exhaust)
    have "uwm_ok K wins bufs v" if "L = K" "uwm_ok K wins bufs u" using turn_ok [OF assms(1) that(2), of n] t that(1) by simp
    then show ?case using 1 by (auto simp: t split: if_splits)
  qed
  then show ?thesis using assms(2,3) by (simp add: ush_uwm_loop_def)
qed

section \<open>From start to end\<close>

lemma fit_range: "64 \<le> min_value \<Longrightarrow> 64 \<le> ush_uwm_fit_dimension w min_value max_value \<and> (ush_uwm_fit_dimension w min_value max_value \<le> max_value \<or> ush_uwm_fit_dimension w min_value max_value = 64)"
  by (simp add: ush_uwm_fit_dimension_def ush_uwm_clampi_def)

lemma fit_room: "64 \<le> min_value \<Longrightarrow> min_value \<le> max_value \<Longrightarrow> min_value \<le> ush_uwm_fit_dimension w min_value max_value \<and> ush_uwm_fit_dimension w min_value max_value \<le> max_value"
  by (simp add: ush_uwm_fit_dimension_def ush_uwm_clampi_def)

lemma init_ok:
  assumes "1 \<le> w" "w \<le> 4096" "1 \<le> h" "h \<le> 4096" "0 \<le> x" "USH_UWM_TOP_CLAMP_Y \<le> y"
  shows "win_ok (ush_uwm_init_window kind t u x y w h a tp cl)"
  using assms by (simp add: win_ok_def ush_uwm_init_window_def)

lemma app_window_place:
  "place (app_window sw wb bw bh i) =
     (ush_uwm_clampi (56 + i * (if 900 < sw then 120 else 58)) 0 (if sw - bw < 0 then 0 else sw - bw),
      ush_uwm_clampi (64 + i * 46) USH_UWM_TOP_CLAMP_Y (if wb - bh < USH_UWM_TOP_CLAMP_Y then USH_UWM_TOP_CLAMP_Y else wb - bh), bw, bh)"
  by (simp add: app_window_def Let_def ush_uwm_init_window_def place_def)

lemma if_cases: "(c \<Longrightarrow> P x) \<Longrightarrow> (\<not> c \<Longrightarrow> P y) \<Longrightarrow> P (if c then x else y)"
  by simp

lemma start_windows_ok:
  assumes "1 \<le> w" "w \<le> 4096" "1 \<le> h" "h \<le> 4096" "i \<in> indices"
  shows "win_ok (start_windows w h i)"
proof -
  define wb where "wb = max (h - USH_UWM_TASKBAR_H) USH_UWM_TOP_CLAMP_Y"
  define wh where "wh = max (wb - USH_UWM_TOP_CLAMP_Y) 80"
  have r: "1 \<le> ush_uwm_fit_dimension v m M \<and> ush_uwm_fit_dimension v m M \<le> 4096" if "64 \<le> m" "M \<le> 4096" for v m M
    using fit_range [OF that(1), of v M] that by auto
  have wh: "wh \<le> 4096" using assms by (simp add: wh_def wb_def uwm_consts)
  have a: "win_ok (app_window w wb (ush_uwm_fit_dimension USH_UWM_APP_START_W USH_UWM_MIN_WINDOW_W (w - 48))
      (ush_uwm_fit_dimension USH_UWM_APP_START_H USH_UWM_MIN_WINDOW_H (wh - 32)) i)"
    unfolding app_window_def Let_def
    by (rule init_ok) (use r [of USH_UWM_MIN_WINDOW_W "w - 48"] r [of USH_UWM_MIN_WINDOW_H "wh - 32"] assms wh in
      \<open>auto simp: ush_uwm_clampi_def USH_UWM_MIN_WINDOW_W_def USH_UWM_MIN_WINDOW_H_def\<close>)
  have b: "win_ok (ush_uwm_init_window KIND_START t [] 0 (max y USH_UWM_TOP_CLAMP_Y)
      (ush_uwm_fit_dimension USH_UWM_START_W 180 (w - 16)) (ush_uwm_fit_dimension USH_UWM_START_H 160 (wh - 8)) c True True)" for t y c
    by (rule init_ok) (use r [of 180 "w - 16"] r [of 160 "wh - 8"] assms wh in auto)
  have c: "win_ok (ush_uwm_init_window KIND_TASKBAR t [] 0 (max y USH_UWM_TOP_CLAMP_Y) w USH_UWM_TASKBAR_H c True False)" for t y c
    by (rule init_ok) (use assms in \<open>auto simp: USH_UWM_TASKBAR_H_def\<close>)
  have d: "ush_uwm_app_index_valid i" if "i \<noteq> USH_UWM_TASKBAR_INDEX" "i \<noteq> USH_UWM_START_INDEX"
    using assms(5) that by (auto simp: indices_def ush_uwm_app_index_valid_def uwm_consts)
  show ?thesis
    unfolding start_windows_def Let_def wb_def [symmetric] wh_def [symmetric]
    by (intro if_cases [where P = win_ok] a b c [where y = "h - USH_UWM_TASKBAR_H", folded wb_def]) (use d in blast)
qed

lemma start_windows_placed:
  assumes "300 \<le> us_screen_w s" "300 \<le> us_screen_h s" "ush_uwm_app_index_valid i"
  shows "placed s (start_windows (us_screen_w s) (us_screen_h s) i)"
proof -
  let ?w = "us_screen_w s" and ?h = "us_screen_h s"
  define wb where "wb = max (?h - USH_UWM_TASKBAR_H) USH_UWM_TOP_CLAMP_Y"
  define bw where "bw = ush_uwm_fit_dimension USH_UWM_APP_START_W USH_UWM_MIN_WINDOW_W (?w - 48)"
  define bh where "bh = ush_uwm_fit_dimension USH_UWM_APP_START_H USH_UWM_MIN_WINDOW_H (max (wb - USH_UWM_TOP_CLAMP_Y) 80 - 32)"
  have wb: "wb = ?h - 48" "ush_uwm_work_bottom s = wb" using assms(2) by (simp_all add: wb_def ush_uwm_work_bottom_def Let_def uwm_consts)
  have r: "220 \<le> bw \<and> bw \<le> ?w - 48" "150 \<le> bh \<and> bh \<le> ?h - 104"
    using fit_room [of USH_UWM_MIN_WINDOW_W "?w - 48" USH_UWM_APP_START_W] fit_room [of USH_UWM_MIN_WINDOW_H "?h - 104" USH_UWM_APP_START_H] assms
    by (simp_all add: bw_def bh_def wb(1) uwm_consts max_def)
  have "start_windows ?w ?h i = app_window ?w wb bw bh i"
    using app_not_start [OF assms(3)] assms(3) by (simp add: start_windows_def Let_def wb_def [symmetric] bw_def [symmetric] bh_def [symmetric])
  moreover have "inside s (place (app_window ?w wb bw bh i))"
    unfolding app_window_place using r assms(1,2) wb by (auto simp: inside_def ush_uwm_clampi_def uwm_consts)
  moreover have "fst (restore_place (app_window ?w wb bw bh i)) = False"
    by (simp add: app_window_def Let_def ush_uwm_init_window_def restore_place_def)
  ultimately show ?thesis by (simp add: placed_def case_prod_beta)
qed

lemma start_windows_fresh [simp]:
  "uw_id (start_windows w h i) = 0" "uw_pixels (start_windows w h i) = 0" "uw_alive (start_windows w h i) = False"
  "uw_minimized (start_windows w h i) = False"
  by (simp_all add: start_windows_def Let_def app_window_def ush_uwm_init_window_def zero_session_def)

lemma prepare_ok:
  assumes "window_system K wins bufs" "wins k = {}" "bufs k = {}" "ush_uwm_prepare_session K k = (u, True)"
  shows "uwm_ok K wins bufs u"
proof -
  obtain k1 d where a: "wk_display_info K k = (k1, d)" by fastforce
  have ok: "\<not> (d = None \<or> fst (the d) = 0 \<or> snd (the d) = 0)" "\<not> (4096 < fst (the d) \<or> 4096 < snd (the d))"
    using assms(4) by (auto simp: ush_uwm_prepare_session_def a Let_def split: if_splits)
  define w where "w = int (fst (the d))"
  define h where "h = int (snd (the d))"
  have sz: "1 \<le> w" "w \<le> 4096" "1 \<le> h" "h \<le> 4096" using ok by (auto simp: w_def h_def)
  obtain k2 t where b: "wk_tty_active K k1 = (k2, t)" by fastforce
  have u: "u = (k2, zero_session\<lparr>us_screen_w := w, us_screen_h := h, us_active_window := -1, us_drag_window := -1,
                       us_resize_window := -1, us_tty_before := t, us_windows := start_windows w h\<rparr>)"
    using assms(4) ok by (simp add: ush_uwm_prepare_session_def a b Let_def w_def h_def)
  have e: "wins k2 = {}" "bufs k2 = {}"
    using same_trans [OF ws_pairs(13) [OF assms(1) a] ws_pairs(14) [OF assms(1) b]] assms(2,3) by (simp_all add: same_def)
  have "accounts wins bufs u"
    using sz start_windows_ok [OF sz] by (simp add: accounts_def u e owns_def ids_def buffers_def USH_UWM_APP_COUNT_def)
  moreover have "tidy K (snd u)"
    using start_windows_placed [of "snd u"] by (simp add: tidy_def u zero_session_def roomy_def)
  ultimately show ?thesis by (simp add: uwm_ok_def)
qed

lemma tidy_taskbar:
  assumes "local USH_UWM_TASKBAR_INDEX u u'" "tidy K (snd u)"
  shows "tidy K (snd u')"
proof -
  note f = inside_frame [OF assms(1), of K]
  have w: "us_windows (snd u') j = (us_windows (snd u) j)\<lparr>uw_dirty := uw_dirty (us_windows (snd u') j)\<rparr>" if "j \<noteq> USH_UWM_TASKBAR_INDEX" for j
    by (rule local_window [OF assms(1) that])
  have p: "placed (snd u') v = placed (snd u) v" for v using f by (simp add: placed_def)
  have "placed (snd u) (us_windows (snd u') j)" if "roomy K (snd u)" "ush_uwm_app_index_valid j" for j
    by (subst w) (use app_not_start [OF that(2)] assms(2) that in \<open>auto simp: tidy_def\<close>)
  moreover have "us_windows (snd u') USH_UWM_START_INDEX = (us_windows (snd u) USH_UWM_START_INDEX)\<lparr>uw_dirty := uw_dirty (us_windows (snd u') USH_UWM_START_INDEX)\<rparr>"
    by (rule w) (simp add: uwm_consts)
  then have "uw_alive (us_windows (snd u') USH_UWM_START_INDEX) = uw_alive (us_windows (snd u) USH_UWM_START_INDEX) \<and>
      uw_minimized (us_windows (snd u') USH_UWM_START_INDEX) = uw_minimized (us_windows (snd u) USH_UWM_START_INDEX)"
    by (metis ush_uwm_window.select_convs(8,9) ush_uwm_window.surjective ush_uwm_window.update_convs(17))
  ultimately show ?thesis using assms(2) f local_screen [OF assms(1)] by (simp add: tidy_def p)
qed

lemma boot_ok:
  assumes W: "window_system K wins bufs" and ok: "uwm_ok K wins bufs u"
    and fresh: "\<not> uw_alive (us_windows (snd u) USH_UWM_TASKBAR_INDEX)" "\<not> uw_minimized (us_windows (snd u) USH_UWM_TASKBAR_INDEX)"
  shows "uwm_ok K wins bufs (fst (ush_uwm_boot_window K USH_UWM_TASKBAR_INDEX u))"
proof -
  let ?i = USH_UWM_TASKBAR_INDEX
  have idx: "?i \<in> indices" by (simp add: indices_def uwm_consts)
  have acc: "accounts wins bufs u" and tidy: "tidy K (snd u)" using ok by (simp_all add: uwm_ok_def)
  show ?thesis
  proof (cases "uw_closed (us_windows (snd u) ?i)")
    case shown: False
    have win: "win_ok (us_windows (snd u) ?i)" by (rule accounts_win [OF acc idx])
    obtain v got where a: "(if uw_pixels (us_windows (snd u) ?i) = 0 then ush_uwm_alloc_pixels K ?i u else (u, True)) = (v, got)" by fastforce
    have accv: "accounts wins bufs v"
      using acc a replace_accounts [OF W acc idx, of "uw_w (us_windows (snd u) ?i)" "uw_h (us_windows (snd u) ?i)"] win
      by (auto simp: ush_uwm_alloc_pixels_def win_ok_def split: if_splits)
    have locv: "local ?i u v" using a local_replace [of ?i u K "uw_w (us_windows (snd u) ?i)" "uw_h (us_windows (snd u) ?i)"]
      by (auto simp: ush_uwm_alloc_pixels_def split: if_splits)
    have fv: "\<not> uw_alive (us_windows (snd v) ?i)" "\<not> uw_minimized (us_windows (snd v) ?i)" "\<not> uw_closed (us_windows (snd v) ?i)"
      using fresh shown a by (auto simp: ush_uwm_alloc_pixels_def dest: replace_places(4,5,7) split: if_splits)
    define u3 where "u3 = ush_uwm_render_window K ?i v"
    have acc3: "accounts wins bufs u3" unfolding u3_def by (rule render_accounts [OF W accv])
    have loc3: "local ?i u u3" unfolding u3_def by (rule local_trans [OF locv local_render])
    have f3: "uw_id (us_windows (snd u3) ?i) = 0" "\<not> uw_closed (us_windows (snd u3) ?i)" "\<not> uw_minimized (us_windows (snd u3) ?i)"
      using fv accounts_win [OF accv idx] by (simp_all add: u3_def win_ok_def)
    obtain u4 created where c0: "ush_uwm_create_window K ?i u3 = (u4, created)" by (rule prod.exhaust)
    obtain k s where u4: "u4 = (k, s)" by (rule prod.exhaust)
    note c = c0 [unfolded u4]
    have acc4: "accounts wins bufs (k, s)" using create_accounts [OF W acc3 idx f3] by (simp add: c)
    have loc4: "local ?i u (k, s)" using local_trans [OF loc3 local_create, of K] by (simp add: c)
    have ok4: "uwm_ok K wins bufs (k, s)" using acc4 tidy_taskbar [OF loc4 tidy] by (simp add: uwm_ok_def)
    obtain k5 presented where p: "ush_uwm_present_window K k (us_windows s ?i) = (k5, presented)" by fastforce
    have ok5: "uwm_ok K wins bufs (k5, s)" by (rule ok_same [OF ok4 present_pair [OF W p]])
    have "accounts wins bufs (ush_uwm_destroy_kernel_window K ?i (k5, s))"
      by (rule destroy_kernel_accounts [OF W _ idx]) (use ok5 in \<open>simp add: uwm_ok_def\<close>)
    moreover have "tidy K (snd (ush_uwm_destroy_kernel_window K ?i (k5, s)))"
      by (rule tidy_taskbar [OF local_destroy_kernel]) (use ok5 in \<open>simp add: uwm_ok_def\<close>)
    ultimately have ok6: "uwm_ok K wins bufs (ush_uwm_destroy_kernel_window K ?i (k5, s))" by (simp add: uwm_ok_def)
    have okv: "uwm_ok K wins bufs v" using accv tidy_taskbar [OF locv tidy] by (simp add: uwm_ok_def)
    show ?thesis
      using ok okv ok4 ok5 ok6 shown by (simp add: ush_uwm_boot_window_def a u3_def [symmetric] c p)
  qed (use ok in \<open>simp add: ush_uwm_boot_window_def\<close>)
qed

lemma destroy_window_clears:
  "uw_id (us_windows (snd (ush_uwm_destroy_window K i u)) j) = (if j = i then 0 else uw_id (us_windows (snd u) j)) \<and>
   uw_pixels (us_windows (snd (ush_uwm_destroy_window K i u)) j) = (if j = i then 0 else uw_pixels (us_windows (snd u) j))"
  by (auto simp: ush_uwm_destroy_window_def ush_uwm_destroy_kernel_window_def split: prod.splits)

lemma stop_clears:
  assumes "window_system K wins bufs" "accounts wins bufs u"
  shows "wins (fst (ush_uwm_stop K u)) = {} \<and> bufs (fst (ush_uwm_stop K u)) = {}"
proof -
  have "accounts wins bufs u \<Longrightarrow> set is \<subseteq> indices \<Longrightarrow> accounts wins bufs (fold (ush_uwm_destroy_window K) is u) \<and>
     (\<forall>j. (j \<in> set is \<or> uw_id (us_windows (snd u) j) = 0 \<longrightarrow> uw_id (us_windows (snd (fold (ush_uwm_destroy_window K) is u)) j) = 0) \<and>
          (j \<in> set is \<or> uw_pixels (us_windows (snd u) j) = 0 \<longrightarrow> uw_pixels (us_windows (snd (fold (ush_uwm_destroy_window K) is u)) j) = 0))" for u "is"
  proof (induction "is" arbitrary: u)
    case (Cons i "is")
    have "accounts wins bufs (ush_uwm_destroy_window K i u)" using destroy_accounts [OF assms(1) Cons.prems(1)] Cons.prems(2) by simp
    from Cons.IH [OF this] Cons.prems(2) show ?case by (simp add: destroy_window_clears)
  qed simp
  note all = this [OF assms(2), of "[0..USH_UWM_WINDOW_COUNT - 1]"]
  have idx: "set [0..USH_UWM_WINDOW_COUNT - 1] = indices" by (auto simp: indices_def)
  have "accounts wins bufs (ush_uwm_stop K u)" "\<forall>i\<in>indices. ids (snd (ush_uwm_stop K u)) i = 0 \<and> buffers (snd (ush_uwm_stop K u)) i = 0"
    using all unfolding idx by (simp_all add: ush_uwm_stop_def ids_def buffers_def)
  then show ?thesis by (auto simp: accounts_def case_prod_beta owns_def)
qed

lemma switch_tty_ok: "window_system K wins bufs \<Longrightarrow> uwm_ok K wins bufs u \<Longrightarrow> uwm_ok K wins bufs (ush_uwm_switch_to_display_tty K u)"
proof -
  assume W: "window_system K wins bufs" and ok: "uwm_ok K wins bufs u"
  have "uwm_ok K wins bufs (wk_tty_switch K (fst u) t, (snd u)\<lparr>us_tty_switched := True\<rparr>)" for t
    by (rule ok_session [OF ok_step [OF ok ws_same(10) [OF W]]]) simp_all
  then show ?thesis using ok by (simp add: ush_uwm_switch_to_display_tty_def)
qed

lemma same_drain: "window_system K wins bufs \<Longrightarrow> same wins bufs k (drain_keys K n k)"
proof (induction n arbitrary: k)
  case (Suc n)
  obtain k1 c where g: "wk_kbd_get_char K k = (k1, c)" by fastforce
  show ?case using same_trans [OF ws_pairs(15) [OF Suc.prems g] Suc.IH [OF Suc.prems]] ws_pairs(15) [OF Suc.prems g] by (simp add: g)
qed simp

lemma started_ok:
  assumes W: "window_system K wins bufs" and "wins k = {}" "bufs k = {}" and p: "ush_uwm_prepare_session K k = (u, True)"
  shows "uwm_ok K wins bufs (fst (ush_uwm_start K (ush_uwm_switch_to_display_tty K (ush_uwm_drain_startup_keys K (fst u), snd u))))"
proof -
  have ok: "uwm_ok K wins bufs u" by (rule prepare_ok [OF assms])
  have ok1: "uwm_ok K wins bufs (ush_uwm_drain_startup_keys K (fst u), snd u)"
    unfolding ush_uwm_drain_startup_keys_def by (rule ok_step [OF ok same_drain [OF W]])
  define v where "v = ush_uwm_switch_to_display_tty K (ush_uwm_drain_startup_keys K (fst u), snd u)"
  have okv: "uwm_ok K wins bufs v" unfolding v_def by (rule switch_tty_ok [OF W ok1])
  have "us_windows (snd v) = us_windows (snd u)" by (simp add: v_def ush_uwm_switch_to_display_tty_def)
  moreover have "us_windows (snd u) = start_windows (us_screen_w (snd u)) (us_screen_h (snd u))"
    using p by (auto simp: ush_uwm_prepare_session_def Let_def split: prod.splits if_splits)
  ultimately have fresh: "\<not> uw_alive (us_windows (snd v) USH_UWM_TASKBAR_INDEX)" "\<not> uw_minimized (us_windows (snd v) USH_UWM_TASKBAR_INDEX)"
    by simp_all
  obtain w r where b: "ush_uwm_boot_window K USH_UWM_TASKBAR_INDEX v = (w, r)" by (rule prod.exhaust)
  have okw: "uwm_ok K wins bufs w" using boot_ok [OF W okv fresh] by (simp add: b)
  have "uwm_ok K wins bufs (fst w, (snd w)\<lparr>us_last_error := e\<rparr>)" for e
    by (rule ok_session [of K wins bufs "fst w" "snd w"]) (use okw in simp_all)
  moreover have "uwm_ok K wins bufs (ush_uwm_refresh_taskbar K (ush_uwm_toggle_start K w))"
    by (rule ok_calm_ops(4) [OF W toggle_start_ok [OF W okw]])
  ultimately show ?thesis unfolding v_def [symmetric] by (simp add: ush_uwm_start_def b)
qed

lemma ended_empty:
  assumes W: "window_system K wins bufs" and "uwm_ok K wins bufs u"
  shows "wins (wk_writeln K (fst (ush_uwm_restore_tty K (ush_uwm_stop K u))) t) = {} \<and>
    bufs (wk_writeln K (fst (ush_uwm_restore_tty K (ush_uwm_stop K u))) t) = {}"
proof -
  have "wins (fst (ush_uwm_stop K u)) = {} \<and> bufs (fst (ush_uwm_stop K u)) = {}"
    by (rule stop_clears [OF W]) (use assms(2) in \<open>simp add: uwm_ok_def\<close>)
  moreover have "same wins bufs (fst (ush_uwm_stop K u)) (fst (ush_uwm_restore_tty K (ush_uwm_stop K u)))"
    by (simp add: ush_uwm_restore_tty_def ws_same(10) [OF W])
  ultimately show ?thesis using ws_same(20) [OF W] by (simp add: same_def)
qed

lemma usage_same: "window_system K wins bufs \<Longrightarrow> same wins bufs k (ush_uwm_usage K k)"
  by (simp add: ush_uwm_usage_def) (intro same_trans [OF ws_same(20) same_trans [OF ws_same(20) same_trans [OF ws_same(20) ws_same(20)]]])

text \<open>C37: whenever the window manager ends, whatever events, errors and failed calls there were, no window
  of the kernel and no pixel buffer is left behind. What the kernel does with a window or a buffer that is destroyed
  or freed twice is left open, so this also says that there is no such call.\<close>

theorem uwm_leaves_nothing:
  assumes "window_system K wins bufs" "wins k = {}" "bufs k = {}" "ush_cmd_uwm K arg k = Some (k', success)"
  shows "wins k' = {} \<and> bufs k' = {}"
proof -
  obtain u ok where p: "ush_uwm_prepare_session K k = (u, ok)" by (rule prod.exhaust)
  define v where "v = ush_uwm_switch_to_display_tty K (ush_uwm_drain_startup_keys K (fst u), snd u)"
  obtain w started where s: "ush_uwm_start K v = (w, started)" by (rule prod.exhaust)
  have usage: "wins (ush_uwm_usage K k) = {} \<and> bufs (ush_uwm_usage K k) = {}"
    using usage_same [OF assms(1), of k] assms(2,3) by (simp add: same_def)
  have refused: "wins (wk_writeln K (fst u) t) = {} \<and> bufs (wk_writeln K (fst u) t) = {}" if "\<not> ok" for t
  proof -
    have "same wins bufs k (fst u)"
      using p that by (auto simp: ush_uwm_prepare_session_def Let_def split: prod.splits if_splits intro: ws_pairs(13) [OF assms(1)])
    then show ?thesis using ws_same(20) [OF assms(1), of "fst u" t] assms(2,3) by (simp add: same_def)
  qed
  have okw: "uwm_ok K wins bufs w" if ok
    using started_ok [OF assms(1-3)] p that unfolding v_def [symmetric] by (metis fst_conv s v_def)
  have "wins k' = {} \<and> bufs k' = {}" if ok "ush_uwm_loop K w = Some w'" "k' = wk_writeln K (fst (ush_uwm_restore_tty K (ush_uwm_stop K w'))) t" for w' t
    using ended_empty [OF assms(1) loop_ok [OF assms(1) okw [OF that(1)] that(2)]] that(3) by simp
  moreover have "wins k' = {} \<and> bufs k' = {}" if ok "k' = wk_writeln K (fst (ush_uwm_restore_tty K (ush_uwm_stop K w))) t" for t
    using ended_empty [OF assms(1) okw [OF that(1)]] that(2) by simp
  ultimately show ?thesis
    using assms(4) usage refused unfolding ush_cmd_uwm_def p prod.case Let_def v_def [symmetric] s
    by (auto split: option.splits bool.splits if_splits)
qed

text \<open>A machine with a screen of 800 by 600, for which a list of events is waiting. A new window or buffer gets a
  number above the sum of those in use.\<close>

record desktop =
  dk_wins :: "nat list"
  dk_bufs :: "nat list"
  dk_events :: "wm_event list"

definition desk_kernel :: "desktop wm_kernel" where
  "desk_kernel = \<lparr>
     wk_malloc = (\<lambda>k n. (k\<lparr>dk_bufs := Suc (sum_list (dk_bufs k)) # dk_bufs k\<rparr>, Suc (sum_list (dk_bufs k)))),
     wk_free = (\<lambda>k p. k\<lparr>dk_bufs := filter (\<lambda>q. q \<noteq> p) (dk_bufs k)\<rparr>),
     wk_create = (\<lambda>k x y w h f. (k\<lparr>dk_wins := Suc (sum_list (dk_wins k)) # dk_wins k\<rparr>, Suc (sum_list (dk_wins k)))),
     wk_destroy = (\<lambda>k i. k\<lparr>dk_wins := filter (\<lambda>j. j \<noteq> i) (dk_wins k)\<rparr>),
     wk_present = (\<lambda>k i p w h q. (k, 1)), wk_move = (\<lambda>k i x y. (k, 1)), wk_resize = (\<lambda>k i w h. (k, 1)),
     wk_set_focus = (\<lambda>k i. (k, 1)), wk_set_flags = (\<lambda>k i f. k), wk_count = (\<lambda>k. (k, length (dk_wins k))),
     wk_id_at = (\<lambda>k i. (k, if i < length (dk_wins k) then Some (dk_wins k ! i) else None)),
     wk_snapshot = (\<lambda>k i. (k, Some \<lparr>sn_window_id = i, sn_owner_pid = 7, sn_focused = 0, sn_presented = 1\<rparr>)),
     wk_proc_snapshot = (\<lambda>k i. (k, Some (2, ''/shell/uwm.elf''))),
     wk_poll_event = (\<lambda>k i. (k\<lparr>dk_events := tl (dk_events k)\<rparr>, if dk_events k = [] then None else Some (hd (dk_events k)))),
     wk_mouse_state = (\<lambda>k. (k, None)), wk_spawn_pathv = (\<lambda>k path argv env. (k, 9)), wk_timer_ticks = (\<lambda>k. (k, 0)),
     wk_yield = (\<lambda>k. k), wk_sleep_ticks = (\<lambda>k n. k), wk_display_info = (\<lambda>k. (k, Some (800, 600))),
     wk_tty_active = (\<lambda>k. (k, 0)), wk_tty_switch = (\<lambda>k t. k), wk_kbd_get_char = (\<lambda>k. (k, None)), wk_writeln = (\<lambda>k t. k)\<rparr>"

lemma fresh_number: "Suc (sum_list xs) \<notin> set (xs :: nat list)"
proof
  assume "Suc (sum_list xs) \<in> set xs"
  then have "Suc (sum_list xs) \<le> sum_list xs" by (intro member_le_sum_list) auto
  then show False by simp
qed

lemma desk_laws: "window_system desk_kernel (\<lambda>k. set (dk_wins k)) (\<lambda>k. set (dk_bufs k))"
  by (auto simp: window_system_def desk_kernel_def same_def fresh_number)

subsection \<open>The key q\<close>

text \<open>A kernel that refuses nothing.\<close>

definition granting :: "'k wm_kernel \<Rightarrow> bool" where
  "granting K \<longleftrightarrow> (\<forall>k n. snd (wk_malloc K k n) \<noteq> 0) \<and> (\<forall>k x y w h f. snd (wk_create K k x y w h f) \<noteq> 0) \<and>
     (\<forall>k i p w h q. snd (wk_present K k i p w h q) \<noteq> 0) \<and> (\<forall>k i. snd (wk_set_focus K k i) \<noteq> 0)"

lemma quit_event:
  "ev_type e = CLEONOS_WM_EVENT_KEY \<Longrightarrow> ev_arg0 e = 113 \<or> ev_arg0 e = 81 \<Longrightarrow> ush_uwm_window_index_valid i \<Longrightarrow>
     ush_uwm_handle_event K i e u = (u, False)"
  by (auto simp: ush_uwm_handle_event_def uwm_event_consts ush_uwm_handle_key_event_def key_in_def Let_def)

definition quit_waiting :: "'k wm_kernel \<Rightarrow> bool" where
  "quit_waiting K \<longleftrightarrow> (\<forall>k i. \<exists>e. snd (wk_poll_event K k i) = Some e \<and> ev_type e = CLEONOS_WM_EVENT_KEY \<and> (ev_arg0 e = 113 \<or> ev_arg0 e = 81))"

lemma poll_quits:
  assumes "window_system K wins bufs" "uwm_ok K wins bufs u" "quit_waiting K" "ush_uwm_window_index_valid i"
  shows "uw_alive (us_windows (snd u) i) \<Longrightarrow> snd (snd (ush_uwm_poll_window_events K i u)) = False"
    "\<not> uw_alive (us_windows (snd u) i) \<Longrightarrow> ush_uwm_poll_window_events K i u = (u, 0, True)"
proof -
  have id: "uw_alive (us_windows (snd u) i) \<longleftrightarrow> uw_id (us_windows (snd u) i) \<noteq> 0"
    using accounts_win [of wins bufs u i] assms(2,4) by (simp add: uwm_ok_def win_ok_def indices_def ush_uwm_window_index_valid_def)
  obtain k s where u: "u = (k, s)" by fastforce
  obtain k1 e' where p: "wk_poll_event K k (uw_id (us_windows s i)) = (k1, e')" by fastforce
  then obtain e where e: "e' = Some e" "ev_type e = CLEONOS_WM_EVENT_KEY" "ev_arg0 e = 113 \<or> ev_arg0 e = 81"
    using assms(3) unfolding quit_waiting_def by (metis snd_conv)
  obtain n where b: "USH_UWM_EVENT_BUDGET = Suc n" by (cases USH_UWM_EVENT_BUDGET) (simp_all add: USH_UWM_EVENT_BUDGET_def)
  show "snd (snd (ush_uwm_poll_window_events K i u)) = False" if "uw_alive (us_windows (snd u) i)"
    using that id assms(4) quit_event [OF e(2,3) assms(4), of K] unfolding ush_uwm_poll_window_events_def b by (simp add: u p e(1))
  show "ush_uwm_poll_window_events K i u = (u, 0, True)" if "\<not> uw_alive (us_windows (snd u) i)"
    using that by (simp add: ush_uwm_poll_window_events_def)
qed

lemma poll_all_quits:
  assumes "window_system K wins bufs" "quit_waiting K"
  shows "uwm_ok K wins bufs u \<Longrightarrow> \<forall>i\<in>set is. ush_uwm_window_index_valid i \<Longrightarrow> \<exists>i\<in>set is. uw_alive (us_windows (snd u) i) \<Longrightarrow>
     snd (snd (poll_all K is u h)) = False"
proof (induction "is" arbitrary: u h)
  case (Cons i "is")
  show ?case
  proof (cases "uw_alive (us_windows (snd u) i)")
    case True
    then show ?thesis using poll_quits(1) [OF assms(1) Cons.prems(1) assms(2), of i] Cons.prems(2)
      by (cases "ush_uwm_poll_window_events K i u") auto
  next
    case False
    have "ush_uwm_poll_window_events K i u = (u, 0, True)"
      by (rule poll_quits(2) [OF assms(1) Cons.prems(1) assms(2)]) (use Cons.prems(2) False in simp_all)
    then show ?thesis using Cons.IH [OF Cons.prems(1)] Cons.prems(2,3) False by simp
  qed
qed simp

text \<open>The taskbar stays: once its window is there, nothing of a turn before the polling removes it.\<close>

lemma registry_windows: "us_windows (snd (fst (ush_uwm_app_registry_running K i u))) = us_windows (snd u)"
  by (simp add: ush_uwm_app_registry_running_def Let_def split: prod.splits option.splits)

lemma refresh_registry_windows: "us_windows (snd (fst (ush_uwm_refresh_app_registry K u))) = us_windows (snd u)"
proof -
  let ?f = "\<lambda>i (u, changed).
         (let u' = fst (ush_uwm_app_registry_running K i u)
          in (u', changed \<or> us_app_pids (snd u) i \<noteq> us_app_pids (snd u') i \<or> us_app_states (snd u) i \<noteq> us_app_states (snd u') i))"
  have "us_windows (snd (fst (fold ?f is (u, c)))) = us_windows (snd u)" for "is" c u
    by (induction "is" arbitrary: u c) (simp_all add: Let_def registry_windows)
  then show ?thesis by (simp add: ush_uwm_refresh_app_registry_def)
qed

lemma refresh_snd: "snd (ush_uwm_refresh_window K j u) =
    (if \<not> ush_uwm_window_index_valid j \<or> \<not> uw_alive (us_windows (snd u) j) then snd u else snd (ush_uwm_render_window K j u))"
  by (simp add: ush_uwm_refresh_window_def case_prod_beta)

lemma refresh_alive [simp]: "uw_alive (us_windows (snd (ush_uwm_refresh_window K j u)) i) = uw_alive (us_windows (snd u) i)"
  by (simp add: refresh_snd)

lemma toggle_start_alive:
  assumes "i \<noteq> USH_UWM_START_INDEX"
  shows "uw_alive (us_windows (snd (ush_uwm_toggle_start K u)) i) = uw_alive (us_windows (snd u) i)"
proof -
  have c: "us_windows (snd (fst (ush_uwm_create_window K USH_UWM_START_INDEX v))) i = us_windows (snd v) i" for v
    using assms by (simp add: ush_uwm_create_window_def Let_def case_prod_beta)
  have r: "us_windows (snd (fst (ush_uwm_alloc_pixels K USH_UWM_START_INDEX v))) i = us_windows (snd v) i" for v
    using assms by (simp add: ush_uwm_alloc_pixels_def ush_uwm_replace_pixels_def Let_def case_prod_beta)
  show ?thesis
    using assms by (simp add: ush_uwm_toggle_start_def ush_uwm_close_start_def Let_def case_prod_beta c r destroy_kernel_snd ush_uwm_refresh_taskbar_def)
qed

lemma create_granted: "granting K \<Longrightarrow> snd (ush_uwm_create_window K i u)"
  by (simp add: granting_def ush_uwm_create_window_def Let_def case_prod_beta)

lemma resize_alive: "uw_alive (us_windows (snd (fst (ush_uwm_window_resize K j w h u))) i) = uw_alive (us_windows (snd u) i)"
proof -
  have "uw_alive (us_windows (snd (fst (resize_to K j nw nh u))) i) = uw_alive (us_windows (snd u) i)" for nw nh
    by (simp add: resize_to_def Let_def case_prod_beta set_pixels_def)
  then show ?thesis by (simp add: ush_uwm_window_resize_def Let_def)
qed

lemma drive_alive: "uw_alive (us_windows (snd (fst (ush_uwm_drive_direct_pointer K u))) i) = uw_alive (us_windows (snd u) i)"
proof -
  have f: "uw_alive (us_windows (snd (ush_uwm_finish_resize K v)) i) = uw_alive (us_windows (snd v) i)" for v
    by (simp add: ush_uwm_finish_resize_def Let_def resize_alive split: prod.splits)
  have m: "uw_alive (us_windows (snd (fst (ush_uwm_window_move_clamped K j x y v))) i) = uw_alive (us_windows (snd v) i)" for j x y v
    by (simp add: ush_uwm_window_move_clamped_def Let_def upd_win_def split: prod.splits)
  have p: "uw_alive (us_windows (snd (fst (pointer_at K j j' x y v))) i) = uw_alive (us_windows (snd v) i)" for j j' x y v
    by (simp add: pointer_at_def m split: prod.splits)
  show ?thesis by (simp add: ush_uwm_drive_direct_pointer_def Let_def f p case_prod_beta)
qed

lemma turn_quits:
  assumes "window_system K wins bufs" "uwm_ok K wins bufs u" "quit_waiting K" "i \<in> indices" "uw_alive (us_windows (snd u) i)"
  shows "fst (snd (loop_turn K u n)) = False"
proof -
  obtain k t where a: "wk_timer_ticks K (fst u) = (k, t)" by fastforce
  have ok0: "uwm_ok K wins bufs (k, snd u)" by (rule ok_step [OF assms(2) ws_pairs(11) [OF assms(1) a]])
  define v where "v = registry_due K t (k, snd u)"
  define order where "order = (if 0 \<le> preferred_window (snd v) then [preferred_window (snd v)] else []) @
    filter (\<lambda>i. i \<noteq> preferred_window (snd v)) [0..USH_UWM_WINDOW_COUNT - 1]"
  have okv: "uwm_ok K wins bufs v" unfolding v_def by (rule registry_due_ok [OF assms(1) ok0])
  have alive: "uw_alive (us_windows (snd v) i)"
    using assms(5) refresh_registry_windows [of K "(k, (snd u)\<lparr>us_app_registry_last_tick := t\<rparr>)"]
    by (simp add: v_def registry_due_def Let_def ush_uwm_refresh_taskbar_def case_prod_beta)
  obtain w h where d: "ush_uwm_drive_direct_pointer K v = (w, h)" by (rule prod.exhaust)
  have okw: "uwm_ok K wins bufs w" using drive_ok [OF assms(1) okv] by (simp add: d)
  have alivew: "uw_alive (us_windows (snd w) i)" using drive_alive [of K v i] alive by (simp add: d)
  have range: "preferred_window s = -1 \<or> ush_uwm_window_index_valid (preferred_window s)" for s
    by (auto simp: preferred_window_def ush_uwm_window_index_valid_def uwm_consts)
  have "\<forall>j\<in>set order. ush_uwm_window_index_valid j" using range [of "snd v"] by (auto simp: order_def ush_uwm_window_index_valid_def)
  moreover have "i \<in> set order" using assms(4) by (auto simp: order_def indices_def)
  ultimately have "snd (snd (poll_all K order w h)) = False" using poll_all_quits [OF assms(1,3) okw, of order h] alivew by blast
  then obtain x h2 where q: "poll_all K order w h = (x, h2, False)" by (metis prod.exhaust snd_conv)
  show ?thesis
    unfolding loop_turn_def a prod.case Let_def v_def [symmetric] order_def [symmetric] d q by (simp split: prod.splits)
qed

lemma start_granted:
  assumes W: "window_system K wins bufs" and ok: "uwm_ok K wins bufs u" and g: "granting K"
    and t: "\<not> uw_closed (us_windows (snd u) USH_UWM_TASKBAR_INDEX)" 
  shows "snd (ush_uwm_start K u)" "uw_alive (us_windows (snd (fst (ush_uwm_start K u))) USH_UWM_TASKBAR_INDEX)"
proof -
  let ?i = USH_UWM_TASKBAR_INDEX
  have ne: "USH_UWM_TASKBAR_INDEX \<noteq> USH_UWM_START_INDEX" by (simp add: uwm_consts)
  have idx: "?i \<in> indices" and valid: "ush_uwm_window_index_valid ?i" by (simp_all add: indices_def ush_uwm_window_index_valid_def uwm_consts)
  have win: "win_ok (us_windows (snd u) ?i)" using accounts_win idx ok unfolding uwm_ok_def by blast
  obtain v got where a: "(if uw_pixels (us_windows (snd u) ?i) = 0 then ush_uwm_alloc_pixels K ?i u else (u, True)) = (v, got)" by fastforce
  have got
    using a replace_succeeds [of K "uw_w (us_windows (snd u) ?i)" "uw_h (us_windows (snd u) ?i)" ?i u] g win
    by (auto simp: ush_uwm_alloc_pixels_def granting_def win_ok_def split: if_splits)
  have px: "uw_pixels (us_windows (snd v) ?i) \<noteq> 0"
    using a \<open>got\<close> by (auto simp: ush_uwm_alloc_pixels_def ush_uwm_replace_pixels_def Let_def set_pixels_def split: if_splits prod.splits)
  define u3 where "u3 = ush_uwm_render_window K ?i v"
  have px3: "uw_pixels (us_windows (snd u3) ?i) \<noteq> 0" using px by (simp add: u3_def)
  obtain u4 created where c0: "ush_uwm_create_window K ?i u3 = (u4, created)" by (rule prod.exhaust)
  obtain k s where u4: "u4 = (k, s)" by (rule prod.exhaust)
  note c = c0 [unfolded u4]
  have created: created using create_granted [OF g, of ?i u3] by (simp add: c)
  have px4: "uw_pixels (us_windows s ?i) \<noteq> 0" using c px3 by (auto simp: ush_uwm_create_window_def Let_def split: prod.splits if_splits)
  have "snd (ush_uwm_present_window K k (us_windows s ?i))"
  proof -
    have n: "snd (wk_present K k i p w h q) \<noteq> 0" for i p w h q using g unfolding granting_def by blast
    show ?thesis using create_result(1,3) [OF c] created px4 n by (simp add: ush_uwm_present_window_def case_prod_beta)
  qed
  then obtain k5 where p: "ush_uwm_present_window K k (us_windows s ?i) = (k5, True)" by (metis prod.collapse)
  have b: "ush_uwm_boot_window K ?i u = ((k5, s), True)"
    using t valid \<open>got\<close> created by (simp add: ush_uwm_boot_window_def a u3_def [symmetric] c p)
  then show "snd (ush_uwm_start K u)" by (simp add: ush_uwm_start_def)
  have al: "uw_alive (us_windows s ?i)" using create_result(3) [OF c created] by simp
  then show "uw_alive (us_windows (snd (fst (ush_uwm_start K u))) ?i)"
    using toggle_start_alive [of ?i K "(k5, s)"] ne by (simp add: ush_uwm_start_def b ush_uwm_refresh_taskbar_def)
qed

lemma prepare_succeeds:
  assumes "snd (wk_display_info K k) = Some (w, h)" "0 < w" "w \<le> 4096" "0 < h" "h \<le> 4096"
  shows "\<exists>u. ush_uwm_prepare_session K k = (u, True)"
  using assms by (simp add: ush_uwm_prepare_session_def Let_def case_prod_beta)

lemma quit_run:
  assumes W: "window_system K wins bufs" and e: "wins k = {}" "bufs k = {}" and g: "granting K" and q: "quit_waiting K"
    and d: "snd (wk_display_info K k) = Some (w, h)" "0 < w" "w \<le> 4096" "0 < h" "h \<le> 4096"
  shows "\<exists>k'. ush_cmd_uwm K [] k = Some (k', True)"
proof -
  obtain u where p: "ush_uwm_prepare_session K k = (u, True)" using prepare_succeeds [OF d] by blast
  define v where "v = ush_uwm_switch_to_display_tty K (ush_uwm_drain_startup_keys K (fst u), snd u)"
  have okv: "uwm_ok K wins bufs v"
    unfolding v_def ush_uwm_drain_startup_keys_def by (intro switch_tty_ok [OF W] ok_step [OF prepare_ok [OF W e p] same_drain [OF W]])
  have "us_windows (snd v) = start_windows (us_screen_w (snd u)) (us_screen_h (snd u))"
    using p by (auto simp: v_def ush_uwm_switch_to_display_tty_def ush_uwm_prepare_session_def Let_def split: prod.splits if_splits)
  then have open_taskbar: "\<not> uw_closed (us_windows (snd v) USH_UWM_TASKBAR_INDEX)"
    by (simp add: start_windows_def Let_def ush_uwm_init_window_def)
  obtain x r where s: "ush_uwm_start K v = (x, r)" by (rule prod.exhaust)
  have r: "r" and alive: "uw_alive (us_windows (snd x) USH_UWM_TASKBAR_INDEX)"
    using start_granted [OF W okv g open_taskbar] by (simp_all add: s)
  have okx: "uwm_ok K wins bufs x" using started_ok [OF W e p] by (simp add: v_def [symmetric] s)
  have idx: "USH_UWM_TASKBAR_INDEX \<in> indices" by (simp add: indices_def uwm_consts)
  have "fst (snd (loop_turn K x 0)) = False" by (rule turn_quits [OF W okx q idx alive])
  then obtain y n where t: "loop_turn K x 0 = (y, False, n)" by (metis prod.collapse)
  have "ush_uwm_loop K x = Some y" unfolding ush_uwm_loop_def by (subst uwm_loop.simps) (simp add: t)
  then show ?thesis using r by (simp add: ush_cmd_uwm_def ush_uwm_parse_args_def p v_def [symmetric] s Let_def)
qed


definition quit_kernel :: "desktop wm_kernel" where
  "quit_kernel = desk_kernel\<lparr>wk_poll_event := (\<lambda>k i. (k, Some \<lparr>ev_type = 3, ev_arg0 = 113, ev_arg1 = 0, ev_arg2 = 0, ev_arg3 = 0\<rparr>))\<rparr>"

definition empty_desk :: desktop where "empty_desk = \<lparr>dk_wins = [], dk_bufs = [], dk_events = []\<rparr>"

lemma quit_laws: "window_system quit_kernel (\<lambda>k. set (dk_wins k)) (\<lambda>k. set (dk_bufs k))"
  by (auto simp: window_system_def quit_kernel_def desk_kernel_def same_def fresh_number)

lemma quit_kernel_quits: "granting quit_kernel" "quit_waiting quit_kernel" "snd (wk_display_info quit_kernel empty_desk) = Some (800, 600)"
  by (simp_all add: granting_def quit_waiting_def quit_kernel_def desk_kernel_def CLEONOS_WM_EVENT_KEY_def)


theorem uwm_leaves_nothing_witness: "\<exists>k'. ush_cmd_uwm quit_kernel [] empty_desk = Some (k', True) \<and> dk_wins k' = [] \<and> dk_bufs k' = []"
proof -
  have "\<exists>k'. ush_cmd_uwm quit_kernel [] empty_desk = Some (k', True)"
    by (rule quit_run [OF quit_laws _ _ quit_kernel_quits]) (simp_all add: empty_desk_def)
  then obtain k' where r: "ush_cmd_uwm quit_kernel [] empty_desk = Some (k', True)" by blast
  have "set (dk_wins k') = {} \<and> set (dk_bufs k') = {}"
    by (rule uwm_leaves_nothing [OF quit_laws _ _ r]) (simp_all add: empty_desk_def)
  then show ?thesis using r by simp
qed

end
