(* ===== verification/UwmDesktop.thy ===== *)
theory UwmDesktop
  imports UwmEvents
begin

text \<open>
  The window manager as its user sees it (\<open>apps/uwm\<close>): what holds in every state of a session, a maximized window
  that gets its old place back, the key Tab, the window under the pointer, and the buttons of the taskbar.
\<close>

section \<open>The states of a session\<close>

text \<open>What a session can come through: the start, any event of any window, and any turn of the main loop. Between the
  steps other programs may use the kernel.\<close>

inductive uwm_session :: "'k wm_kernel \<Rightarrow> ('k \<Rightarrow> nat set) \<Rightarrow> ('k \<Rightarrow> nat set) \<Rightarrow> 'k \<Rightarrow> 'k uwm \<Rightarrow> bool"
  for K :: "'k wm_kernel" and wins bufs :: "'k \<Rightarrow> nat set" and k :: 'k where
  started: "ush_uwm_prepare_session K k = (u, True) \<Longrightarrow>
    uwm_session K wins bufs k (fst (ush_uwm_start K (ush_uwm_switch_to_display_tty K (ush_uwm_drain_startup_keys K (fst u), snd u))))"
| event: "uwm_session K wins bufs k u \<Longrightarrow> uwm_session K wins bufs k (fst (ush_uwm_handle_event K i e u))"
| turn: "uwm_session K wins bufs k u \<Longrightarrow> uwm_session K wins bufs k (fst (loop_turn K u n))"
| other: "uwm_session K wins bufs k u \<Longrightarrow> same wins bufs (fst u) k' \<Longrightarrow> uwm_session K wins bufs k (k', snd u)"

lemma uwm_session_ok:
  assumes "window_system K wins bufs" "wins k = {}" "bufs k = {}"
  shows "uwm_session K wins bufs k u \<Longrightarrow> uwm_ok K wins bufs u"
proof (induction rule: uwm_session.induct)
  case (started u)
  then show ?case by (rule started_ok [OF assms])
next
  case (event u i e)
  show ?case by (rule event_ok [OF assms(1) event.IH])
next
  case (turn u n)
  show ?case by (rule turn_ok [OF assms(1) turn.IH])
next
  case (other u k')
  show ?case by (rule ok_step [OF other.IH other.hyps(2)])
qed

text \<open>C36: in every state of a session, whatever events came and whatever calls failed, the kernel's windows of the
  process are the windows that the session holds as alive, the buffers in use are those of its windows, each of the size of its
  window, the start menu is marked open exactly when its window is there, the active window is an application or none,
  and, when the screen has at least 300 lines and columns and memory never runs out, every application
  window lies inside the work area between the top line and the taskbar.\<close>

theorem uwm_session_invariant:
  assumes "window_system K wins bufs" "wins k = {}" "bufs k = {}" "uwm_session K wins bufs k (k', s)"
  shows "wins k' = {uw_id (us_windows s i) | i. i \<in> {0..<6} \<and> uw_alive (us_windows s i)} \<and>
    bufs k' = {uw_pixels (us_windows s i) | i. i \<in> {0..<6} \<and> uw_pixels (us_windows s i) \<noteq> 0} \<and>
    (\<forall>i\<in>{0..<6}. uw_pixels (us_windows s i) \<noteq> 0 \<longrightarrow>
       int (uw_pixel_count (us_windows s i)) = uw_w (us_windows s i) * uw_h (us_windows s i)) \<and>
    (us_start_open s \<longleftrightarrow> uw_alive (us_windows s USH_UWM_START_INDEX)) \<and>
    us_active_window s \<in> {-1..<4} \<and>
    (roomy K s \<longrightarrow> (\<forall>i\<in>{0..<4}. 0 \<le> uw_x (us_windows s i) \<and> uw_x (us_windows s i) + uw_w (us_windows s i) \<le> us_screen_w s \<and>
       24 \<le> uw_y (us_windows s i) \<and> uw_y (us_windows s i) + uw_h (us_windows s i) \<le> us_screen_h s - 48))"
proof -
  have "uwm_ok K wins bufs (k', s)" by (rule uwm_session_ok [OF assms])
  then have a: "accounts wins bufs (k', s)" and t: "tidy K s" by (simp_all add: uwm_ok_def)
  have win: "win_ok (us_windows s i)" if "i \<in> indices" for i using accounts_win [OF a that] by simp
  have I: "{0..<6} = indices" by (simp add: indices_def USH_UWM_WINDOW_COUNT_def)
  have o: "owns (ids s) (wins k')" "owns (buffers s) (bufs k')" using a by (simp_all add: accounts_def)
  have w: "wins k' = {uw_id (us_windows s i) | i. i \<in> {0..<6} \<and> uw_alive (us_windows s i)}"
    using o(1) win unfolding I by (auto simp: owns_def ids_def win_ok_def)
  have b: "bufs k' = {uw_pixels (us_windows s i) | i. i \<in> {0..<6} \<and> uw_pixels (us_windows s i) \<noteq> 0}"
    using o(2) unfolding I by (auto simp: owns_def buffers_def)
  have c: "\<forall>i\<in>{0..<6}. uw_pixels (us_windows s i) \<noteq> 0 \<longrightarrow>
       int (uw_pixel_count (us_windows s i)) = uw_w (us_windows s i) * uw_h (us_windows s i)"
    using win unfolding I by (simp add: win_ok_def)
  have g: "us_active_window s \<in> {-1..<4}" using a by (simp add: accounts_def USH_UWM_APP_COUNT_def)
  have "\<forall>i\<in>{0..<4}. 0 \<le> uw_x (us_windows s i) \<and> uw_x (us_windows s i) + uw_w (us_windows s i) \<le> us_screen_w s \<and>
       24 \<le> uw_y (us_windows s i) \<and> uw_y (us_windows s i) + uw_h (us_windows s i) \<le> us_screen_h s - 48" if r: "roomy K s"
  proof
    fix i :: int assume "i \<in> {0..<4}"
    then have "ush_uwm_app_index_valid i" by (simp add: ush_uwm_app_index_valid_def USH_UWM_APP_COUNT_def)
    then have "placed s (us_windows s i)" using t r by (simp add: tidy_def)
    moreover have "300 \<le> us_screen_h s" using r by (simp add: roomy_def)
    ultimately show "0 \<le> uw_x (us_windows s i) \<and> uw_x (us_windows s i) + uw_w (us_windows s i) \<le> us_screen_w s \<and>
       24 \<le> uw_y (us_windows s i) \<and> uw_y (us_windows s i) + uw_h (us_windows s i) \<le> us_screen_h s - 48"
      by (simp add: placed_def inside_def place_def roomy_work USH_UWM_TOP_CLAMP_Y_def)
  qed
  then show ?thesis using w b c g t by (simp add: tidy_def)
qed

theorem uwm_session_invariant_witness:
  "\<exists>k' s. uwm_session quit_kernel (\<lambda>k. set (dk_wins k)) (\<lambda>k. set (dk_bufs k)) empty_desk (k', s) \<and>
     us_start_open s = uw_alive (us_windows s USH_UWM_START_INDEX) \<and>
     set (dk_wins k') = {uw_id (us_windows s i) | i. i \<in> {0..<6} \<and> uw_alive (us_windows s i)}"
proof -
  obtain u where "ush_uwm_prepare_session quit_kernel empty_desk = (u, True)"
    using prepare_succeeds [OF quit_kernel_quits(3)] by auto
  then have "uwm_session quit_kernel (\<lambda>k. set (dk_wins k)) (\<lambda>k. set (dk_bufs k)) empty_desk
    (fst (ush_uwm_start quit_kernel (ush_uwm_switch_to_display_tty quit_kernel (ush_uwm_drain_startup_keys quit_kernel (fst u), snd u))))"
    by (rule uwm_session.started)
  then obtain k' s where r: "uwm_session quit_kernel (\<lambda>k. set (dk_wins k)) (\<lambda>k. set (dk_bufs k)) empty_desk (k', s)"
    by (metis prod.exhaust)
  show ?thesis using r uwm_session_invariant [OF quit_laws _ _ r] by (intro exI [of _ k'] exI [of _ s]) (simp add: empty_desk_def)
qed

section \<open>The buttons of the taskbar\<close>

text \<open>A kernel whose queries change nothing.\<close>

definition quiet_kernel :: "'k wm_kernel \<Rightarrow> bool" where
  "quiet_kernel K \<longleftrightarrow> (\<forall>k. fst (wk_count K k) = k) \<and> (\<forall>k i. fst (wk_id_at K k i) = k \<and> fst (wk_snapshot K k i) = k \<and> fst (wk_proc_snapshot K k i) = k)"

lemma quiet_queries:
  assumes "quiet_kernel K"
  shows "fst (wk_count K k) = k" "fst (wk_id_at K k i) = k" "fst (wk_snapshot K k i) = k" "fst (wk_proc_snapshot K k i) = k"
  using assms by (simp_all add: quiet_kernel_def)

lemma quiet_taskbar_window: "quiet_kernel K \<Longrightarrow> fst (taskbar_window K k s i) = k"
  by (simp add: taskbar_window_def case_prod_beta quiet_queries)

lemma quiet_label: "quiet_kernel K \<Longrightarrow> fst (ush_uwm_taskbar_window_label K k s snap n) = k"
  by (simp add: ush_uwm_taskbar_window_label_def Let_def case_prod_beta quiet_queries)

definition hit :: "ush_uwm_session \<Rightarrow> int \<Rightarrow> int \<Rightarrow> button \<Rightarrow> bool" where
  "hit s x y b \<longleftrightarrow> on_button s (fst b) x y"

lemma hit_pair [simp]: "hit s x y (a, b) = on_button s a x y"
  by (simp add: hit_def)

lemma find_append: "find P (xs @ ys) = (case find P xs of None \<Rightarrow> find P ys | Some b \<Rightarrow> Some b)"
  by (induction xs) simp_all

text \<open>The drawing loop and the searching loop go through the windows in step.\<close>

lemma clicked_is_drawn:
  assumes q: "quiet_kernel K"
  shows "window_buttons K s ws k app_x shown = (k', bs, app_x') \<Longrightarrow> k' = k \<and>
    (case snd (clicked_window K s x y ws k app_x shown) of
       Inl snap \<Rightarrow> \<exists>bx a. find (hit s x y) bs = Some (bx, snd (ush_uwm_taskbar_window_label K k s snap 40), a)
     | Inr a \<Rightarrow> find (hit s x y) bs = None \<and> a = app_x')"
proof (induction ws arbitrary: app_x shown bs)
  case (Cons w ws)
  show ?case
  proof (cases "USH_UWM_TASKBAR_DYNAMIC_MAX \<le> shown \<or> uw_w (us_windows s USH_UWM_TASKBAR_INDEX) - 98 < app_x + USH_UWM_TASKBAR_BUTTON_W")
    case room: False
    obtain win where t: "taskbar_window K k s w = (k, win)" using quiet_taskbar_window [OF q, of k s w] by (metis prod.collapse)
    show ?thesis
    proof (cases win)
      case None
      then have b: "window_buttons K s ws k app_x shown = (k', bs, app_x')" using Cons.prems room t by simp
      show ?thesis using Cons.IH [OF b] room by (simp add: t None)
    next
      case (Some sn)
      obtain l where l: "ush_uwm_taskbar_window_label K k s sn 40 = (k, l)" using quiet_label [OF q, of k s sn 40] by (metis prod.collapse)
      obtain k3 bs3 ax where b: "window_buttons K s ws k (app_x + USH_UWM_TASKBAR_BUTTON_W + USH_UWM_TASKBAR_BUTTON_GAP) (shown + 1) = (k3, bs3, ax)"
        by (metis prod.exhaust)
      obtain a where e: "k' = k3" "app_x' = ax" "bs = (app_x, l, a) # bs3" using Cons.prems room t Some l b by (auto simp: Let_def)
      note IH = Cons.IH [OF b [folded e(1,2)]]
      show ?thesis
      proof (cases "on_button s app_x x y")
        case True
        then show ?thesis using IH room by (simp add: t Some l e hit_def)
      next
        case False
        then show ?thesis using IH room by (simp add: t Some e split: sum.splits)
      qed
    qed
  qed (use Cons.prems in auto)
qed simp

lemma minimized_is_drawn:
  "map_option (\<lambda>b. fst (snd b)) (find (hit s x y) (minimized_buttons s is app_x)) =
     map_option (\<lambda>i. uw_title (us_windows s i)) (clicked_minimized s x y is app_x)"
  by (induction "is" arbitrary: app_x) simp_all

text \<open>Buttons lie side by side.\<close>

definition apart :: "button list \<Rightarrow> bool" where
  "apart = sorted_wrt (\<lambda>b b'. fst b + USH_UWM_TASKBAR_BUTTON_W \<le> fst b')"

lemma minimized_apart: "apart (minimized_buttons s is app_x) \<and> (\<forall>b\<in>set (minimized_buttons s is app_x). app_x \<le> fst b)"
proof (induction "is" arbitrary: app_x)
  case (Cons i "is")
  show ?case using Cons.IH [of app_x] Cons.IH [of "app_x + USH_UWM_TASKBAR_BUTTON_W + USH_UWM_TASKBAR_BUTTON_GAP"]
    by (auto simp: apart_def USH_UWM_TASKBAR_BUTTON_W_def USH_UWM_TASKBAR_BUTTON_GAP_def)
qed (simp add: apart_def)

lemma windows_apart:
  "window_buttons K s ws k app_x shown = (k', bs, app_x') \<Longrightarrow>
     apart bs \<and> app_x \<le> app_x' \<and> (\<forall>b\<in>set bs. app_x \<le> fst b \<and> fst b + USH_UWM_TASKBAR_BUTTON_W \<le> app_x')"
proof (induction ws arbitrary: k app_x shown bs)
  case (Cons w ws)
  show ?case
  proof (cases "USH_UWM_TASKBAR_DYNAMIC_MAX \<le> shown \<or> uw_w (us_windows s USH_UWM_TASKBAR_INDEX) - 98 < app_x + USH_UWM_TASKBAR_BUTTON_W")
    case room: False
    obtain k1 win where t: "taskbar_window K k s w = (k1, win)" by fastforce
    show ?thesis
    proof (cases win)
      case None
      then have b: "window_buttons K s ws k1 app_x shown = (k', bs, app_x')" using Cons.prems room t by simp
      show ?thesis using Cons.IH [OF b] .
    next
      case (Some sn)
      obtain k2 l where l: "ush_uwm_taskbar_window_label K k1 s sn 40 = (k2, l)" by fastforce
      obtain k3 bs3 ax where b: "window_buttons K s ws k2 (app_x + USH_UWM_TASKBAR_BUTTON_W + USH_UWM_TASKBAR_BUTTON_GAP) (shown + 1) = (k3, bs3, ax)"
        by (metis prod.exhaust)
      obtain a where e: "app_x' = ax" "k' = k3" "bs = (app_x, l, a) # bs3" using Cons.prems room t Some l b by (auto simp: Let_def)
      show ?thesis using Cons.IH [OF b [folded e(1,2)]]
        by (auto simp: e apart_def USH_UWM_TASKBAR_BUTTON_W_def USH_UWM_TASKBAR_BUTTON_GAP_def)
    qed
  qed (use Cons.prems in \<open>auto simp: apart_def\<close>)
qed (simp add: apart_def)


definition desk_session :: ush_uwm_session where
  "desk_session = zero_session\<lparr>us_windows := start_windows 800 600\<rparr>"

definition two_windows :: desktop where "two_windows = empty_desk\<lparr>dk_wins := [8, 9]\<rparr>"

lemma desk_taskbar: "uw_w (us_windows desk_session USH_UWM_TASKBAR_INDEX) = 800" "uw_h (us_windows desk_session USH_UWM_TASKBAR_INDEX) = 48"
  "uw_id (us_windows desk_session i) = 0"
  by (simp_all add: desk_session_def) (simp_all add: start_windows_def Let_def ush_uwm_init_window_def USH_UWM_TASKBAR_H_def)

lemma desk_window: "i < 2 \<Longrightarrow> taskbar_window desk_kernel two_windows desk_session i =
    (two_windows, Some \<lparr>sn_window_id = [8, 9] ! i, sn_owner_pid = 7, sn_focused = 0, sn_presented = 1\<rparr>)"
  by (cases i) (auto simp: taskbar_window_def desk_kernel_def two_windows_def empty_desk_def ush_uwm_taskbar_window_hidden_def desk_taskbar)


section \<open>The manager's own application windows\<close>

text \<open>The part of a window that says whether it can ever be seen; \<open>asleep\<close> is what the start sets up for the four
  application windows.\<close>

definition nap :: "ush_uwm_window \<Rightarrow> bool \<times> bool \<times> bool \<times> nat" where
  "nap w = (uw_alive w, uw_closed w, uw_maximized w, uw_pixels w)"

definition asleep :: "ush_uwm_session \<Rightarrow> bool" where
  "asleep s \<longleftrightarrow> (\<forall>i. ush_uwm_app_index_valid i \<longrightarrow> nap (us_windows s i) = (False, True, False, 0))"

lemma asleep_fields: "asleep s \<Longrightarrow> ush_uwm_app_index_valid i \<Longrightarrow>
    \<not> uw_alive (us_windows s i) \<and> uw_closed (us_windows s i) \<and> \<not> uw_maximized (us_windows s i) \<and> uw_pixels (us_windows s i) = 0"
  by (simp add: asleep_def nap_def)

lemma asleep_same: "asleep s \<Longrightarrow> (\<And>i. ush_uwm_app_index_valid i \<Longrightarrow> nap (us_windows s' i) = nap (us_windows s i)) \<Longrightarrow> asleep s'"
  by (simp add: asleep_def)

lemma asleep_windows: "asleep s \<Longrightarrow> us_windows s' = us_windows s \<Longrightarrow> asleep s'"
  by (simp add: asleep_def)

lemma asleep_updates [simp]:
  "asleep (s\<lparr>us_app_pids := f\<rparr>) = asleep s" "asleep (s\<lparr>us_app_states := f\<rparr>) = asleep s" "asleep (s\<lparr>us_active_window := i\<rparr>) = asleep s"
  "asleep (s\<lparr>us_dragging := b\<rparr>) = asleep s" "asleep (s\<lparr>us_drag_window := i\<rparr>) = asleep s" "asleep (s\<lparr>us_resizing := b\<rparr>) = asleep s"
  "asleep (s\<lparr>us_resize_window := i\<rparr>) = asleep s" "asleep (s\<lparr>us_mouse_packet_seen := n\<rparr>) = asleep s"
  "asleep (s\<lparr>us_resize_pending_w := i\<rparr>) = asleep s" "asleep (s\<lparr>us_resize_pending_h := i\<rparr>) = asleep s"
  "asleep (s\<lparr>us_app_registry_last_tick := n\<rparr>) = asleep s" "asleep (s\<lparr>us_tty_switched := b\<rparr>) = asleep s" "asleep (s\<lparr>us_last_error := e\<rparr>) = asleep s"
  "asleep (start_resize i x y s) = asleep s" "asleep (start_drag i x y s) = asleep s"
  by (simp_all add: asleep_def start_resize_def start_drag_def Let_def)

lemma asleep_not_shown: "asleep s \<Longrightarrow> \<not> shown_window s i"
  by (auto simp: shown_window_def dest: asleep_fields)

lemma nap_refresh [simp]: "nap (us_windows (snd (ush_uwm_refresh_window K j u)) i) = nap (us_windows (snd u) i)"
  by (simp add: refresh_snd nap_def)

lemma nap_start:
  assumes "i \<noteq> USH_UWM_START_INDEX"
  shows "nap (us_windows (snd (ush_uwm_close_start K u)) i) = nap (us_windows (snd u) i)"
    "nap (us_windows (snd (ush_uwm_toggle_start K u)) i) = nap (us_windows (snd u) i)"
proof -
  show a: "nap (us_windows (snd (ush_uwm_close_start K u)) i) = nap (us_windows (snd u) i)" for u
    using assms by (simp add: ush_uwm_close_start_def Let_def case_prod_beta destroy_kernel_snd ush_uwm_refresh_taskbar_def)
  have c: "us_windows (snd (fst (ush_uwm_create_window K USH_UWM_START_INDEX v))) i = us_windows (snd v) i" for v
    using assms by (simp add: ush_uwm_create_window_def Let_def case_prod_beta)
  have r: "us_windows (snd (fst (ush_uwm_alloc_pixels K USH_UWM_START_INDEX v))) i = us_windows (snd v) i" for v
    using assms by (simp add: ush_uwm_alloc_pixels_def ush_uwm_replace_pixels_def Let_def case_prod_beta)
  show "nap (us_windows (snd (ush_uwm_toggle_start K u)) i) = nap (us_windows (snd u) i)"
    using assms by (simp add: ush_uwm_toggle_start_def a Let_def case_prod_beta c r ush_uwm_refresh_taskbar_def)
qed

lemma app_ne_start: "ush_uwm_app_index_valid i \<Longrightarrow> i \<noteq> USH_UWM_START_INDEX" by (simp add: app_not_start)

lemma asleep_calm:
  assumes "asleep (snd u)"
  shows "asleep (snd (ush_uwm_refresh_window K j u))" "asleep (snd (ush_uwm_refresh_taskbar K u))"
    "asleep (snd (ush_uwm_close_start K u))" "asleep (snd (ush_uwm_toggle_start K u))"
  by (rule asleep_same [OF assms]; simp add: ush_uwm_refresh_taskbar_def nap_start app_ne_start)+

lemma asleep_ops:
  assumes "asleep (snd u)"
  shows "ush_uwm_set_active K i u = u" "ush_uwm_window_move_clamped K i x y u = (u, False)" "ush_uwm_window_resize K i w h u = (u, False)"
    "ush_uwm_toggle_maximize K i u = u" "ush_uwm_minimize_window K i u = u" "ush_uwm_toggle_topmost K i u = u"
    "focus_candidates (snd u) = []"
proof -
  show "ush_uwm_set_active K i u = u" "ush_uwm_window_move_clamped K i x y u = (u, False)" "ush_uwm_window_resize K i w h u = (u, False)"
    using asleep_not_shown [OF assms, of i]
    by (simp_all add: ush_uwm_set_active_def ush_uwm_window_move_clamped_def ush_uwm_window_resize_def case_prod_beta)
  obtain k s where u: "u = (k, s)" by fastforce
  have "i \<noteq> USH_UWM_TERMINAL_INDEX \<or> \<not> shown_window s i" using asleep_not_shown [OF assms, of i] by (simp add: u)
  then show "ush_uwm_toggle_maximize K i u = u" unfolding u ush_uwm_toggle_maximize_def prod.case by (rule if_P)
  show "ush_uwm_minimize_window K i u = u" "ush_uwm_toggle_topmost K i u = u"
    using asleep_fields [OF assms, of i] by (auto simp: ush_uwm_minimize_window_def ush_uwm_toggle_topmost_def split: prod.splits)
  have "ush_uwm_app_index_valid (i mod USH_UWM_APP_COUNT)" for i by (simp add: ush_uwm_app_index_valid_def USH_UWM_APP_COUNT_def)
  then show "focus_candidates (snd u) = []"
    using asleep_fields [OF assms] by (auto simp: focus_candidates_def Let_def filter_empty_conv)
qed

lemma asleep_focus: "asleep (snd u) \<Longrightarrow> asleep (snd (ush_uwm_focus_next K u))"
  by (simp add: ush_uwm_focus_next_def asleep_ops(7)) (rule asleep_calm(2), simp add: asleep_def)

lemma asleep_close:
  assumes "asleep (snd u)"
  shows "asleep (snd (ush_uwm_close_window K i u))"
proof (cases "ush_uwm_app_index_valid i")
  case True
  define v where "v = (fst (ush_uwm_destroy_kernel_window K i u),
    upd_win i (\<lambda>win. win\<lparr>uw_closed := True, uw_minimized := False\<rparr>) (snd (ush_uwm_destroy_kernel_window K i u)))"
  have "asleep (snd v)" using assms by (simp add: asleep_def v_def destroy_kernel_snd nap_def)
  moreover have "\<not> uw_maximized (us_windows (snd (ush_uwm_destroy_kernel_window K i u)) i)"
    using asleep_fields [OF assms True] by (simp add: destroy_kernel_snd)
  ultimately show ?thesis
    using asleep_calm(2) [of v K] asleep_calm(2) [OF asleep_focus [of v K], of K] True
    unfolding ush_uwm_close_window_def by (simp add: Let_def v_def)
qed (use assms in \<open>simp add: ush_uwm_close_window_def\<close>)

lemma asleep_launch:
  assumes "asleep (snd u)"
  shows "asleep (snd (ush_uwm_launch_or_restore_app K i u))"
proof (cases "ush_uwm_app_index_valid i")
  case True
  then have p: "ush_uwm_app_path i \<noteq> None" by (auto simp: ush_uwm_app_path_def ush_uwm_app_index_valid_def USH_UWM_APP_COUNT_def)
  obtain k s r where q: "ush_uwm_app_registry_running K i u = ((k, s), r)" by (metis prod.exhaust)
  have "asleep s" using asleep_windows [OF assms] registry_windows [of K i u] by (simp add: q)
  then have "asleep (snd (ush_uwm_refresh_taskbar K (k', s\<lparr>us_app_pids := f, us_app_states := g\<rparr>)))" "asleep (snd (ush_uwm_refresh_taskbar K (k', s)))" for k' f g
    by (simp_all add: asleep_calm(2))
  then show ?thesis using True p by (auto simp: ush_uwm_launch_or_restore_app_def q Let_def split: prod.splits option.splits)
qed (use assms in \<open>simp add: ush_uwm_launch_or_restore_app_def\<close>)


lemma asleep_clicked: "asleep s \<Longrightarrow> set is \<subseteq> {i. ush_uwm_app_index_valid i} \<Longrightarrow> clicked_minimized s x y is app_x = None"
  by (induction "is" arbitrary: app_x) (auto dest: asleep_fields)

lemma app_indices: "set [0..USH_UWM_APP_COUNT - 1] \<subseteq> {i. ush_uwm_app_index_valid i}"
  by (auto simp: ush_uwm_app_index_valid_def)

lemma asleep_finish: "asleep (snd u) \<Longrightarrow> asleep (snd (ush_uwm_finish_resize K u))"
  by (cases u) (simp add: ush_uwm_finish_resize_def Let_def asleep_ops(3))

lemma asleep_pointer: "asleep (snd u) \<Longrightarrow> asleep (snd (fst (pointer_at K i j x y u)))"
  by (cases u) (simp add: pointer_at_def asleep_ops(2))

lemma asleep_taskbar_click:
  assumes "asleep (snd u)"
  shows "asleep (snd (ush_uwm_handle_taskbar_click K x y u))"
proof -
  obtain k s where u: "u = (k, s)" by fastforce
  have s: "asleep s" using assms by (simp add: u)
  obtain k1 n where c: "wk_count K k = (k1, n)" by fastforce
  obtain k2 r where w: "clicked_window K s x y [0..<n] k1 (ush_uwm_taskbar_app_x (us_windows s USH_UWM_TASKBAR_INDEX)) 0 = (k2, r)" by fastforce
  have none: "clicked_minimized s x y [0..USH_UWM_APP_COUNT - 1] ax = None" for ax by (rule asleep_clicked [OF s app_indices])
  have closed: "asleep (snd (ush_uwm_close_start K (k2, s)))" by (rule asleep_calm(3)) (simp add: s)
  have other: "asleep (snd (ush_uwm_refresh_taskbar K (k', (snd (ush_uwm_close_start K (k2, s)))\<lparr>us_active_window := -1\<rparr>)))"
    "asleep (snd (ush_uwm_refresh_taskbar K (k', s\<lparr>us_active_window := -1\<rparr>)))" for k'
    by (rule asleep_calm(2); simp add: closed s)+
  show ?thesis using asleep_calm(4) [OF assms, of K] s other
    by (cases r) (simp_all add: ush_uwm_handle_taskbar_click_def u Let_def c w none asleep_ops case_prod_beta)
qed

lemma asleep_press: "asleep (snd u) \<Longrightarrow> asleep (snd (press_app K i x y u))"
  using asleep_calm(3) [of u K] asleep_close [of u K i] asleep_close [of "ush_uwm_close_start K u" K i]
  by (simp add: press_app_def Let_def asleep_ops)

lemma asleep_button:
  assumes "asleep (snd u)"
  shows "asleep (snd (ush_uwm_handle_mouse_button K i e u))"
proof -
  obtain k j x y where r: "ush_uwm_repair_mouse_target K u (i, ush_uwm_u64_as_i32 (ev_arg2 e), ush_uwm_u64_as_i32 (ev_arg3 e)) = (k, j, x, y)"
    by (metis prod.exhaust)
  have k: "asleep (snd (k, snd u))" using assms by simp
  have "asleep (snd (ush_uwm_handle_start_click K x y (k, snd u)))"
    using k asleep_calm(3) [OF k] asleep_launch [OF asleep_calm(3) [OF k]] by (simp add: ush_uwm_handle_start_click_def Let_def)
  then show ?thesis
    using assms asleep_finish [of u K] asleep_finish [of "(fst u, (snd u)\<lparr>us_dragging := False, us_drag_window := -1\<rparr>)" K]
      asleep_taskbar_click [OF k] asleep_press [OF k]
    by (simp add: ush_uwm_handle_mouse_button_def Let_def r)
qed

text \<open>The keys for the active window do nothing.\<close>

definition window_keys :: string where "window_keys = ''mMxXtT+=-aAdDwWsS''"

lemma asleep_key:
  assumes "asleep (snd u)"
  shows "asleep (snd (fst (ush_uwm_handle_key_event K key u)))"
    "key_in key window_keys \<or> key \<in> {1..4} \<Longrightarrow> ush_uwm_handle_key_event K key u = (u, True)"
proof -
  have dead: "\<not> ush_uwm_app_index_valid i \<or> \<not> uw_alive (us_windows (snd u) i)" for i using asleep_fields [OF assms] by blast
  show "asleep (snd (fst (ush_uwm_handle_key_event K key u)))"
    using assms dead asleep_focus [OF assms] asleep_launch [OF assms] by (simp add: ush_uwm_handle_key_event_def Let_def)
  assume "key_in key window_keys \<or> key \<in> {1..4}"
  then have "key \<noteq> 9" "\<not> key_in key ''qQ''" "\<not> key_in key ''1234''" by (auto simp: key_in_def window_keys_def)
  then show "ush_uwm_handle_key_event K key u = (u, True)" using dead by (simp add: ush_uwm_handle_key_event_def Let_def)
qed

lemma asleep_event:
  assumes "asleep (snd u)"
  shows "asleep (snd (fst (ush_uwm_handle_event K i e u)))"
proof -
  define v where "v = (fst u, (snd u)\<lparr>us_active_window := i\<rparr>)"
  have v: "asleep (snd v)" using assms by (simp add: v_def)
  have focus: "asleep (snd (ush_uwm_refresh_taskbar K (ush_uwm_refresh_window K i v)))"
    "asleep (snd (ush_uwm_refresh_taskbar K (ush_uwm_refresh_window K i (ush_uwm_refresh_window K j v))))" for j
    by (intro asleep_calm v)+
  show ?thesis
    using assms focus asleep_key [OF assms] asleep_button [OF assms] asleep_pointer [OF assms] asleep_finish [OF assms]
      asleep_finish [of "(fst u, (snd u)\<lparr>us_dragging := False, us_drag_window := -1\<rparr>)" K]
    by (simp add: ush_uwm_handle_event_def Let_def v_def [symmetric] ush_uwm_handle_mouse_move_def)
qed

lemma asleep_poll: "asleep (snd u) \<Longrightarrow> asleep (snd (fst (poll_loop K i n u h)))"
proof (induction n arbitrary: u h)
  case (Suc n)
  obtain k s where u: "u = (k, s)" by fastforce
  obtain k1 e where p: "wk_poll_event K k (uw_id (us_windows s i)) = (k1, e)" by fastforce
  obtain v running where h: "ush_uwm_handle_event K i (the e) (k1, s) = (v, running)" by (rule prod.exhaust)
  have "asleep (snd v)" using asleep_event [of "(k1, s)" K i "the e"] Suc.prems by (simp add: h u)
  then show ?case using Suc by (simp add: u p h)
qed simp

lemma asleep_poll_all: "asleep (snd u) \<Longrightarrow> asleep (snd (fst (poll_all K is u h)))"
proof (induction "is" arbitrary: u h)
  case (Cons i "is")
  obtain v n running where p: "ush_uwm_poll_window_events K i u = (v, n, running)" by (metis prod.exhaust)
  have "asleep (snd v)" using asleep_poll [OF Cons.prems, of K i USH_UWM_EVENT_BUDGET 0] Cons.prems p
    by (simp add: ush_uwm_poll_window_events_def split: if_splits)
  from this Cons.IH [OF this] show ?case by (simp add: p)
qed simp

lemma asleep_turn:
  assumes "asleep (snd u)"
  shows "asleep (snd (fst (loop_turn K u n)))"
proof -
  obtain k t where a: "wk_timer_ticks K (fst u) = (k, t)" by fastforce
  define v where "v = registry_due K t (k, snd u)"
  define order where "order = (if 0 \<le> preferred_window (snd v) then [preferred_window (snd v)] else []) @
    filter (\<lambda>i. i \<noteq> preferred_window (snd v)) [0..USH_UWM_WINDOW_COUNT - 1]"
  obtain r c where f: "ush_uwm_refresh_app_registry K (k, (snd u)\<lparr>us_app_registry_last_tick := t\<rparr>) = (r, c)" by (rule prod.exhaust)
  have r: "asleep (snd r)" using asleep_windows [OF assms] refresh_registry_windows [of K "(k, (snd u)\<lparr>us_app_registry_last_tick := t\<rparr>)"] by (simp add: f)
  have v: "asleep (snd v)"
    using assms asleep_calm(2) [OF r, of K] asleep_calm(1) [OF asleep_calm(2) [OF r]] by (simp add: v_def registry_due_def f Let_def)
  obtain w h where d: "ush_uwm_drive_direct_pointer K v = (w, h)" by (rule prod.exhaust)
  have "asleep (snd (fst (ush_uwm_drive_direct_pointer K v)))"
    by (cases v) (use v in \<open>auto simp: ush_uwm_drive_direct_pointer_def Let_def case_prod_beta intro!: asleep_finish asleep_pointer\<close>)
  then have w: "asleep (snd w)" by (simp add: d)
  obtain k2 s2 h2 running where p: "poll_all K order w h = ((k2, s2), h2, running)" by (metis prod.exhaust)
  have "asleep s2" using asleep_poll_all [OF w, of K order h] by (simp add: p)
  then show ?thesis unfolding loop_turn_def a prod.case Let_def v_def [symmetric] order_def [symmetric] d p by simp
qed


lemma asleep_start:
  assumes "ush_uwm_prepare_session K k = (u, True)"
  shows "asleep (snd (fst (ush_uwm_start K (ush_uwm_switch_to_display_tty K (ush_uwm_drain_startup_keys K (fst u), snd u)))))"
proof -
  define v where "v = ush_uwm_switch_to_display_tty K (ush_uwm_drain_startup_keys K (fst u), snd u)"
  have "us_windows (snd v) = start_windows (us_screen_w (snd u)) (us_screen_h (snd u))"
    using assms by (auto simp: v_def ush_uwm_switch_to_display_tty_def ush_uwm_prepare_session_def Let_def split: prod.splits if_splits)
  then have v: "asleep (snd v)"
    by (auto simp: asleep_def nap_def start_windows_def app_window_def ush_uwm_init_window_def Let_def dest: app_not_start)
  have ne: "i \<noteq> USH_UWM_TASKBAR_INDEX" if "ush_uwm_app_index_valid i" for i using app_not_start [OF that] by blast
  have c: "us_windows (snd (fst (ush_uwm_create_window K USH_UWM_TASKBAR_INDEX x))) i = us_windows (snd x) i" if "ush_uwm_app_index_valid i" for x i
    using ne [OF that] by (simp add: ush_uwm_create_window_def Let_def case_prod_beta)
  have r: "us_windows (snd (fst (ush_uwm_alloc_pixels K USH_UWM_TASKBAR_INDEX x))) i = us_windows (snd x) i" if "ush_uwm_app_index_valid i" for x i
    using ne [OF that] by (simp add: ush_uwm_alloc_pixels_def ush_uwm_replace_pixels_def Let_def case_prod_beta)
  have "asleep (snd (fst (ush_uwm_boot_window K USH_UWM_TASKBAR_INDEX v)))"
    by (rule asleep_same [OF v]) (simp add: ush_uwm_boot_window_def case_prod_beta c r destroy_kernel_snd ne)
  then show ?thesis unfolding v_def [symmetric]
    by (simp add: ush_uwm_start_def case_prod_beta asleep_calm)
qed

lemma session_asleep: "uwm_session K wins bufs k u \<Longrightarrow> asleep (snd u)"
proof (induction rule: uwm_session.induct)
  case (started u)
  then show ?case by (rule asleep_start)
next
  case (event u i e)
  show ?case by (rule asleep_event [OF event.IH])
next
  case (turn u n)
  show ?case by (rule asleep_turn [OF turn.IH])
next
  case (other u k')
  then show ?case by simp
qed

text \<open>C40: the four application windows that the manager sets up are never opened: in every state of a session they have no
  window of the kernel and no buffer, and the keys for the active window (minimize, close, pin, resize, move, the arrows)
  change nothing. Applications are started as programs of their own instead.\<close>

theorem uwm_own_windows_stay_closed:
  assumes "uwm_session K wins bufs k (k', s)"
  shows "(\<forall>i\<in>{0..<4}. \<not> uw_alive (us_windows s i) \<and> uw_closed (us_windows s i) \<and> uw_pixels (us_windows s i) = 0) \<and>
    (\<forall>key. key_in key ''mMxXtT+=-aAdDwWsS'' \<or> key \<in> {1..4} \<longrightarrow> ush_uwm_handle_key_event K key (k', s) = ((k', s), True))"
proof -
  have a: "asleep s" using session_asleep [OF assms] by simp
  have "ush_uwm_app_index_valid i" if "i \<in> {0..<4}" for i using that by (simp add: ush_uwm_app_index_valid_def USH_UWM_APP_COUNT_def)
  then show ?thesis
    using asleep_fields [OF a] asleep_key(2) [of "(k', s)"] a by (simp add: window_keys_def)
qed

theorem uwm_own_windows_stay_closed_witness:
  "\<exists>k' s. uwm_session quit_kernel (\<lambda>k. set (dk_wins k)) (\<lambda>k. set (dk_bufs k)) empty_desk (k', s) \<and>
     \<not> uw_alive (us_windows s 1) \<and> ush_uwm_handle_key_event quit_kernel 109 (k', s) = ((k', s), True)"
proof -
  obtain u where "ush_uwm_prepare_session quit_kernel empty_desk = (u, True)"
    using prepare_succeeds [OF quit_kernel_quits(3)] by auto
  then have "uwm_session quit_kernel (\<lambda>k. set (dk_wins k)) (\<lambda>k. set (dk_bufs k)) empty_desk
    (fst (ush_uwm_start quit_kernel (ush_uwm_switch_to_display_tty quit_kernel (ush_uwm_drain_startup_keys quit_kernel (fst u), snd u))))"
    by (rule uwm_session.started)
  then obtain k' s where r: "uwm_session quit_kernel (\<lambda>k. set (dk_wins k)) (\<lambda>k. set (dk_bufs k)) empty_desk (k', s)"
    by (metis prod.exhaust)
  have "key_in 109 ''mMxXtT+=-aAdDwWsS''" by (simp add: key_in_def)
  then show ?thesis using r uwm_own_windows_stay_closed [OF r] by (intro exI [of _ k'] exI [of _ s]) simp
qed

end
