(* ===== verification/Spec2Isabelle.thy ===== *)
theory Spec2Isabelle
  imports LibcString LibcNum LibcHeap LibcStdio UshText UshPath CmdRuntime TextTools SortTool LineTools Partctl LibcTime UserHash UserDb UserCmds BrowserHttp BrowserDns BrowserUrl BrowserCookie VimEdit VimFile TermScreen UwmWindow UwmEvents UwmDesktop
begin

text \<open>
  A verification library for the user space of CLeonOS: the C library (\<open>cleonos/c/src\<close>) and the
  command runtime and commands above it (\<open>cleonos/c/apps\<close>).

  \<^bold>\<open>How the parts interact.\<close> A command is linked with \<open>cmd_runtime.c\<close>, whose start-up code captures
  pipeline input, and whose \<open>cleonos_app_main\<close> pattern reads the argument and directory from a
  context file, runs the command and writes a result file for the shell. Commands resolve paths and
  parse arguments with the runtime, which uses the C library for characters, strings and output. All
  of it reaches the kernel through system calls only.

  \<^bold>\<open>Theories.\<close>
  \<^item> \<open>Prelude\<close>: C integer types, signed and unsigned characters, theorem collections (\<open>c_spec\<close>:
    functional specifications, \<open>c_inv\<close>: preservation, \<open>c_frame\<close>: what is left unchanged, \<open>c_null\<close>:
    null and empty arguments). \<open>CMem\<close>: byte memory in which an access outside the mapped bytes has no
    result (\<open>None\<close>), C strings in it.
  \<^item> \<open>LibcString\<close>: \<open>libc_string.c\<close> and \<open>libc_strings.c\<close>, over the byte memory.
  \<^item> \<open>LibcNum\<close>: \<open>libc_ctype.c\<close> and the number functions of \<open>libc_stdlib.c\<close>.
  \<^item> \<open>LibcHeap\<close>: the allocator of \<open>libc_stdlib.c\<close>: the block list in the order of the links, with the
    interface \<open>allocator\<close> that the entry points are shown to keep.
  \<^item> \<open>LibcStdio\<close>: \<open>stdio.c\<close>. The formatter is written over any sink; the interface \<open>text_sink\<close> is
    interpreted for the bounded buffer, for the descriptor with short writes and (in \<open>Partctl\<close>) for
    the terminal. \<open>format_text\<close> is the reference.
  \<^item> \<open>UshText\<close>, \<open>UshPath\<close>, \<open>CmdRuntime\<close>: \<open>cmd_runtime.c\<close>: text and numbers, path resolution (interface
    \<open>path_stack\<close>), and the part over the system calls (record \<open>kernel\<close>, state \<open>world\<close>).
  \<^item> \<open>TextTools\<close>, \<open>SortTool\<close>, \<open>LineTools\<close>: \<open>sort_main.c\<close>, \<open>uniq_main.c\<close>, \<open>head_main.c\<close>, \<open>tail_main.c\<close>,
    \<open>cut_main.c\<close>, \<open>wc_main.c\<close>, \<open>grep_main.c\<close>.
  \<^item> \<open>Partctl\<close>: \<open>partctl_main.c\<close>, the partition table editor. Each in-place edit of the sector
    interprets \<open>safe_mbr_edit\<close>: it refines an operation on the table of four entries and keeps it well
    formed. \<open>partctl_step\<close> and \<open>partctl_session\<close> are the states that runs of the tool lead to.

  \<^item> \<open>LibcTime\<close>: \<open>time.c\<close>: the calendar functions, against a closed formula for the days before a year.
  \<^item> \<open>UserHash\<close>: the password hash of \<open>user/cleonos_user.c\<close>, against SHA-256 of FIPS 180-4. \<open>UserDb\<close>: its
    database, against a map from names to records (interface \<open>record_store\<close>). \<open>UserCmds\<close>:
    \<open>user_cmd_common.h\<close> and the account commands.
  \<^item> \<open>BrowserHttp\<close>: \<open>browser/browser_http.c\<close>: header fields, content length and the chunked coding, against an
    encoder of chunked bodies. \<open>BrowserDns\<close>: \<open>browser/browser_dns.c\<close>, against an encoder of messages.
    \<open>BrowserUrl\<close>: \<open>browser/browser_url_parse.c\<close> and \<open>browser/browser_url.c\<close>; its array of path segments is
    another interpretation of \<open>path_stack\<close>. \<open>BrowserCookie\<close>: \<open>browser/browser_cookie.c\<close>, against a map from
    names, domains and paths; \<open>jar_step\<close> and \<open>jar_session\<close> are the states that responses lead to.
  \<^item> \<open>VimEdit\<close>, \<open>VimFile\<close>: the editor \<open>vim_main.c\<close>: its buffer, against the text before and behind the cursor
    (\<open>gap\<close>); then keys, files, commands and the main loop. \<open>vim_session\<close> are the states of a session, \<open>quiet\<close>
    what every operation on the buffer keeps. The laws of the kernel are \<open>vim_files\<close> and \<open>keyboard\<close>; a small
    machine that has them is \<open>desk_os\<close>.
  \<^item> \<open>TermScreen\<close>: the screen of \<open>terminal/terminal.c\<close>: grid, cursor, colours and escape sequences; \<open>term_ok\<close> is
    its invariant and \<open>inner\<close> a step that keeps it and changes nothing outside the grid.
  \<^item> \<open>UwmWindow\<close>, \<open>UwmEvents\<close>, \<open>UwmDesktop\<close>: the window manager \<open>uwm\<close>: windows and buffers (\<open>uwm_window.c\<close>,
    \<open>uwm_util.c\<close>); events, main loop, start and end (\<open>uwm_events.c\<close>, \<open>uwm_app.c\<close>); the states \<open>uwm_session\<close> that these
    lead to. \<open>window_system\<close> are the laws of the kernel, \<open>uwm_ok\<close> is the invariant: the session accounts for every
    window and buffer. \<open>desk_kernel\<close> is a small machine with these laws.

  \<^bold>\<open>Correspondence.\<close> A C function is a definition of the same name (prefix \<open>c_\<close> for C library
  functions, \<open>s_\<close> for their string-level forms); a loop is a recursive function named after it. A
  null pointer argument is \<open>None\<close>, a C string its bytes before the NUL. A function that returns a
  status and writes through pointers returns an option or a pair. \<open>u64\<close> arithmetic is on words, or on
  \<open>nat\<close> with \<open>add64\<close>, \<open>sub64\<close>, \<open>mul64\<close>, which wrap. String literals outside ASCII are written as the
  code points of their UTF-8 encoding. The terminal takes every byte written to it.

  \<^bold>\<open>Lemmas.\<close> Per function a specification on every branch (\<open>c_spec\<close>), per component the invariants and
  the refinement of a reference definition, and the properties C1, C2, \<dots> of which each stands at
  its component. This theory composes them into pipelines.

  \<^bold>\<open>Bounds and termination.\<close> No fuel is used: loops are recursive functions with a measure, except
  those that wait for the kernel (\<open>capture_loop\<close>, \<open>read_byte_loop\<close>, \<open>ush_vim_read_byte_blocking\<close>, \<open>load_loop\<close>), which are partial functions and
  whose termination is shown from a law of the system call (\<open>stream_source\<close>), and the main loops of the editor and of the window
  manager (\<open>uwm_loop\<close>), which end with a key.

  \<^bold>\<open>Not modelled.\<close> Floating-point conversions, the system call stubs, dynamic loading, start-up
  assembly, and the applications other than those named, as listed in the manifest. The kernel is not
  part of this repository; system calls are parameters.
\<close>

section \<open>Pipelines\<close>

lemma segments_unlines:
  "\<forall>l\<in>set ls. newline \<notin> set l \<Longrightarrow> line_segments (unlines ls) = ls"
  by (induction ls) (simp_all add: unlines_def segments_from_line)

lemma distinct_remdups_adj_sorted:
  "sorted xs \<Longrightarrow> distinct (remdups_adj (xs :: 'a::linorder list))"
proof (induction xs rule: remdups_adj.induct)
  case (3 x y xs)
  show ?case
  proof (cases "x = y")
    case False
    then have "x \<notin> set (y # xs)" using 3(3) by fastforce
    then show ?thesis using 3 False by simp
  qed (use 3 in auto)
qed simp_all

lemma map_remdups_adj_inj: "inj_on f (set xs) \<Longrightarrow> remdups_adj (map f xs) = map f (remdups_adj xs)"
proof (induction xs rule: remdups_adj.induct)
  case (3 x y xs)
  then show ?case by (auto simp: inj_on_def)
qed simp_all

text \<open>C8: \<open>sort | uniq\<close> as the shell runs it. \<open>sort\<close> reads the text \<open>t\<close> from its pipeline; its output is
  the input of \<open>uniq\<close>, whose start-up code captures it from descriptor 0. What \<open>uniq\<close> writes is every
  line of \<open>t\<close> exactly once, in ascending order, one per line.\<close>

theorem sort_uniq_pipeline:
  assumes "w_pipe w = Some t" "NUL \<notin> set t" "length t < USH_COPY_MAX - 1" "length (line_segments t) \<le> USH_SORT_MAX_LINES"
    and "ush_cmd_sort K sh [] (w\<lparr>w_out := []\<rparr>) = (w1, sh1, ok1)"
    and "stream_source K2 inp" "ush_cmd_runtime_stdin_pipe_enabled envp" "inp (w_k v) = w_out w1"
  shows "\<exists>v1 v2 ls. cleonos_cmd_runtime_pre_main K2 envp v = Some v1 \<and> ush_cmd_uniq K2 sh2 [] v1 = (v2, sh2, True)
    \<and> ok1 \<and> w_out v2 = w_out v @ unlines ls \<and> sorted (map Line ls) \<and> distinct ls \<and> set ls = set (line_segments t)"
proof -
  define ss where "ss = map line_text (sort (map Line (line_segments t)))"
  have s: "map Line ss = sort (map Line (line_segments t))" by (simp add: ss_def comp_def)
  have set_ss: "set ss = set (line_segments t)" by (force simp: ss_def image_iff)
  have "ush_cmd_sort K sh [] (w\<lparr>w_out := []\<rparr>) = (emit (unlines ss) (w\<lparr>w_out := []\<rparr>), sh, True)"
    unfolding ss_def by (rule cmd_sort_spec) (use assms in auto)
  then have w1: "w_out w1 = unlines ss" and ok: ok1 using assms(5) by (auto simp: emit_def)
  have "mset (map length ss) = mset (map length (line_segments t))"
    by (simp add: ss_def flip: mset_map) (simp add: multiset.map_comp comp_def)
  then have "sum_list (map length ss) = sum_list (map length (line_segments t))"
    by (metis sum_mset_sum_list)
  then have "length (unlines ss) = length (unlines (line_segments t))"
    by (simp add: unlines_def length_concat comp_def ss_def sum_list_Suc)
  then have l: "length (unlines ss) < USH_COPY_MAX"
    using assms(3) by (auto simp: unlines_segments USH_COPY_MAX_def)
  obtain k where v1: "cleonos_cmd_runtime_pre_main K2 envp v = Some (v\<lparr>w_k := k, w_pipe := Some (unlines ss)\<rparr>)"
    using pre_main_captures [OF assms(6,7), of v] assms(8) l w1 by auto
  have "line_segments (unlines ss) = ss"
    by (rule segments_unlines) (use set_ss segments_no_newline in auto)
  then have u: "ush_cmd_uniq K2 sh2 [] (v\<lparr>w_k := k, w_pipe := Some (unlines ss)\<rparr>) =
      (emit (unlines (remdups_adj ss)) (v\<lparr>w_k := k, w_pipe := Some (unlines ss)\<rparr>), sh2, True)"
    by (subst cmd_uniq_spec [of _ "unlines ss"]) simp_all
  have m: "map Line (remdups_adj ss) = remdups_adj (sort (map Line (line_segments t)))"
    unfolding s [symmetric] by (rule map_remdups_adj_inj [symmetric]) (simp add: inj_on_def)
  have "distinct (map Line (remdups_adj ss))" unfolding m by (rule distinct_remdups_adj_sorted) simp
  then have "distinct (remdups_adj ss)" by (simp add: distinct_map)
  moreover have "sorted (map Line (remdups_adj ss))" unfolding m by simp
  ultimately show ?thesis using v1 u ok set_ss by (intro exI conjI) (assumption | simp add: emit_def)+
qed

lemma sort_uniq_pipeline_witness:
  "\<exists>v1 v2 ls. cleonos_cmd_runtime_pre_main demo_sys (Some [''USH_STDIN_MODE=PIPE'']) (demo_world (''a'' @ newline # ''b'' @ newline # ''b'' @ [newline])) = Some v1
    \<and> ush_cmd_uniq demo_sys ush_init_state [] v1 = (v2, ush_init_state, True)
    \<and> w_out v2 = unlines ls \<and> distinct ls \<and> set ls = {''a'', ''b''}"
proof -
  define w where "w = (demo_world [])\<lparr>w_pipe := Some (''b'' @ newline # ''a'' @ newline # ''b'')\<rparr>"
  have seg: "line_segments (''b'' @ newline # ''a'' @ newline # ''b'') = [''b'', ''a'', ''b'']" by code_simp
  have o: "map line_text (sort (map Line [''b'', ''a'', ''b''])) = [''a'', ''b'', ''b'']" by code_simp
  have c: "ush_cmd_sort demo_sys ush_init_state [] (w\<lparr>w_out := []\<rparr>) =
      (emit (''a'' @ newline # ''b'' @ newline # ''b'' @ [newline]) (w\<lparr>w_out := []\<rparr>), ush_init_state, True)"
    using cmd_sort_spec [of "w\<lparr>w_out := []\<rparr>" "''b'' @ newline # ''a'' @ newline # ''b''" demo_sys ush_init_state]
    unfolding seg o by (simp add: w_def unlines_def USH_COPY_MAX_def USH_SORT_MAX_LINES_def newline_def)
  have e: "ush_cmd_runtime_stdin_pipe_enabled (Some [''USH_STDIN_MODE=PIPE''])" by code_simp
  have i: "w_k (demo_world (''a'' @ newline # ''b'' @ newline # ''b'' @ [newline])) =
      w_out (emit (''a'' @ newline # ''b'' @ newline # ''b'' @ [newline]) (w\<lparr>w_out := []\<rparr>))"
    by (simp add: demo_world_def emit_def)
  have p: "w_pipe w = Some (''b'' @ newline # ''a'' @ newline # ''b'')" by (simp add: w_def)
  obtain v1 v2 ls where "cleonos_cmd_runtime_pre_main demo_sys (Some [''USH_STDIN_MODE=PIPE''])
      (demo_world (''a'' @ newline # ''b'' @ newline # ''b'' @ [newline])) = Some v1"
    "ush_cmd_uniq demo_sys ush_init_state [] v1 = (v2, ush_init_state, True)"
    "w_out v2 = w_out (demo_world (''a'' @ newline # ''b'' @ newline # ''b'' @ [newline])) @ unlines ls" "distinct ls"
    "set ls = set (line_segments (''b'' @ newline # ''a'' @ newline # ''b''))"
    using sort_uniq_pipeline [OF p _ _ _ c demo_stream e i, of ush_init_state] unfolding seg
    by (auto simp: USH_COPY_MAX_def USH_SORT_MAX_LINES_def newline_def)
  then show ?thesis unfolding seg by (intro exI conjI) (assumption | simp add: demo_world_def insert_commute)+
qed

end
